(* ===== verification/GoPrelude.thy ===== *)
theory GoPrelude
  imports Complex_Main "HOL-Library.AList" "HOL-Library.Sublist" "HOL-Library.Word"
begin

text \<open>
  The part of Go and of its standard library that the modelled packages use, and the
  generic lemmas the component theories share.

  \<^item> A Go \<^verbatim>\<open>string\<close> and a \<^verbatim>\<open>[]byte\<close> are byte sequences, here \<^typ>\<open>string\<close>
    (a \<^typ>\<open>char list\<close>, one \<^typ>\<open>char\<close> per byte); a literal with non-ASCII text is its UTF-8 bytes.
  \<^item> A Go \<^verbatim>\<open>map\<close> is an association list (\<open>gomap\<close>) with one binding per key
    (\<open>gm_wf\<close>). Go iterates maps in an unspecified order; the model iterates in list order,
    and since no statement fixes the list's order every iteration order is covered.
  \<^item> A \<^verbatim>\<open>time.Time\<close> is an \<^typ>\<open>int\<close>, the nanoseconds since the Unix epoch; the zero
    \<^verbatim>\<open>time.Time\<close> is January 1 of year 1. A critical section runs at one instant, which
    the operations take as the argument \<open>now\<close>.
  \<^item> A decoded JSON value (\<^verbatim>\<open>any\<close> after \<^verbatim>\<open>json.Unmarshal\<close>) is the datatype \<open>json\<close>;
    \<^verbatim>\<open>float64\<close> numbers are rationals.
  \<^item> \<^verbatim>\<open>strings.TrimSpace\<close>, \<^verbatim>\<open>strings.EqualFold\<close> against an ASCII literal and UTF-8
    decoding are exact on all byte sequences. \<^verbatim>\<open>strings.ToLower/ToUpper\<close> take the case
    table of the \<^verbatim>\<open>unicode\<close> package above ASCII as an argument.
\<close>

named_theorems go_defs \<open>unfolding rules of small string helpers\<close>

section \<open>Association lists as Go maps\<close>

type_synonym ('k, 'v) gomap = "('k \<times> 'v) list"

abbreviation gm_get :: "('k, 'v) gomap \<Rightarrow> 'k \<Rightarrow> 'v option" where
  "gm_get m k \<equiv> map_of m k"

abbreviation gm_set :: "'k \<Rightarrow> 'v \<Rightarrow> ('k, 'v) gomap \<Rightarrow> ('k, 'v) gomap" where
  "gm_set k v m \<equiv> AList.update k v m"

abbreviation gm_del :: "'k \<Rightarrow> ('k, 'v) gomap \<Rightarrow> ('k, 'v) gomap" where
  "gm_del k m \<equiv> AList.delete k m"

definition gm_wf :: "('k, 'v) gomap \<Rightarrow> bool" where
  "gm_wf m \<longleftrightarrow> distinct (map fst m)"

text \<open>Reading an integer counter: an absent key reads as 0.\<close>

definition gm_count :: "('k, int) gomap \<Rightarrow> 'k \<Rightarrow> int" where
  "gm_count m k = (case gm_get m k of None \<Rightarrow> 0 | Some n \<Rightarrow> n)"

definition gm_sum :: "('k, int) gomap \<Rightarrow> int" where
  "gm_sum m = sum_list (map snd m)"

lemma gm_wf_Nil [simp]: "gm_wf []"
  by (simp add: gm_wf_def)

lemma gm_wf_set [simp]: "gm_wf m \<Longrightarrow> gm_wf (gm_set k v m)"
  by (simp add: gm_wf_def distinct_update)

lemma gm_wf_del [simp]: "gm_wf m \<Longrightarrow> gm_wf (gm_del k m)"
  by (simp add: gm_wf_def distinct_delete)

lemma gm_get_set: "gm_get (gm_set k v m) k' = (if k' = k then Some v else gm_get m k')"
  by (simp add: update_conv')

lemma gm_get_del: "gm_get (gm_del k m) k' = (if k' = k then None else gm_get m k')"
  by (simp add: delete_conv')

lemma gm_count_set: "gm_count (gm_set k v m) k' = (if k' = k then v else gm_count m k')"
  by (simp add: gm_count_def gm_get_set)

lemma gm_count_del: "gm_count (gm_del k m) k' = (if k' = k then 0 else gm_count m k')"
  by (simp add: gm_count_def gm_get_del)

lemma gm_count_Nil [simp]: "gm_count [] k = 0"
  by (simp add: gm_count_def)

lemma gm_sum_Nil [simp]: "gm_sum [] = 0"
  by (simp add: gm_sum_def)

lemma gm_sum_set: "gm_sum (gm_set k v m) = gm_sum m - gm_count m k + v"
  by (induction m) (auto simp: gm_sum_def gm_count_def)

lemma gm_del_notin: "k \<notin> fst ` set m \<Longrightarrow> gm_del k m = m"
  by (induction m) auto

lemma gm_sum_del: "gm_wf m \<Longrightarrow> gm_sum (gm_del k m) = gm_sum m - gm_count m k"
proof (induction m)
  case Nil
  then show ?case by simp
next
  case (Cons x xs)
  then show ?case
    by (cases x) (auto simp: gm_wf_def gm_sum_def gm_count_def gm_del_notin image_iff split: option.splits)
qed

lemma gm_set_values: "(k', v') \<in> set (gm_set k v m) \<Longrightarrow> (k' = k \<and> v' = v) \<or> (k', v') \<in> set m"
  by (induction m) (auto split: if_splits)

lemma gm_del_values: "(k', v') \<in> set (gm_del k m) \<longleftrightarrow> k' \<noteq> k \<and> (k', v') \<in> set m"
  by (auto simp: AList.delete_eq)

lemma gm_get_mem: "gm_wf m \<Longrightarrow> gm_get m k = Some v \<longleftrightarrow> (k, v) \<in> set m"
  by (simp add: gm_wf_def)

text \<open>Deleting every binding that satisfies a test, Go's \<^verbatim>\<open>for k, v := range m { delete(m, k) }\<close>.\<close>

lemma gm_get_filter:
  "gm_wf m \<Longrightarrow> gm_get (filter (\<lambda>(k, v). P k v) m) k =
     (case gm_get m k of None \<Rightarrow> None | Some v \<Rightarrow> if P k v then Some v else None)"
proof (induction m)
  case Nil
  then show ?case by simp
next
  case (Cons x xs)
  obtain k' v' where x: "x = (k', v')" by (cases x)
  with Cons have "k' \<notin> fst ` set xs" and IH: "gm_get (filter (\<lambda>(k, v). P k v) xs) k =
     (case gm_get xs k of None \<Rightarrow> None | Some v \<Rightarrow> if P k v then Some v else None)"
    by (auto simp: gm_wf_def)
  then have "gm_get xs k' = None" by (simp add: map_of_eq_None_iff)
  with x IH show ?case by auto
qed

lemma gm_wf_filter [simp]: "gm_wf m \<Longrightarrow> gm_wf (filter P m)"
  unfolding gm_wf_def by (induction m) (auto simp: image_iff)

section \<open>The map interface the components rely on\<close>

text \<open>
  What a component may assume of a Go map: a lookup after an insertion or a deletion, and
  that both keep the representation well-formed. The lemmas below the assumptions are
  proved once from these laws.
\<close>

locale map_ops =
  fixes get :: "'m \<Rightarrow> 'k \<Rightarrow> 'v option"
    and set_at :: "'k \<Rightarrow> 'v \<Rightarrow> 'm \<Rightarrow> 'm"
    and del_at :: "'k \<Rightarrow> 'm \<Rightarrow> 'm"
    and wf :: "'m \<Rightarrow> bool"
  assumes get_set_at: "get (set_at k v m) k' = (if k' = k then Some v else get m k')"
    and get_del_at: "get (del_at k m) k' = (if k' = k then None else get m k')"
    and wf_set_at: "wf m \<Longrightarrow> wf (set_at k v m)"
    and wf_del_at: "wf m \<Longrightarrow> wf (del_at k m)"
begin

lemma set_then_del: "get (del_at k (set_at k v m)) k' = get (del_at k m) k'"
  by (simp add: get_set_at get_del_at)

lemma set_twice: "get (set_at k v (set_at k u m)) k' = get (set_at k v m) k'"
  by (simp add: get_set_at)

lemma fold_set_at_other:
  "k \<notin> set ks \<Longrightarrow> get (fold (\<lambda>x. set_at x (f x)) ks m) k = get m k"
  by (induction ks arbitrary: m) (auto simp: get_set_at)

lemma fold_set_at:
  "get (fold (\<lambda>x. set_at x (f x)) ks m) k = (if k \<in> set ks then Some (f k) else get m k)"
  by (induction ks arbitrary: m) (auto simp: get_set_at)

lemma fold_del_at:
  "get (fold del_at ks m) k = (if k \<in> set ks then None else get m k)"
  by (induction ks arbitrary: m) (auto simp: get_del_at)

end

interpretation gmap: map_ops "map_of" "AList.update" "AList.delete" "gm_wf"
  by unfold_locales (auto simp: gm_get_set gm_get_del)

end
