(* ===== verification/GoStrings.thy ===== *)
theory GoStrings
  imports GoPrelude
begin

text \<open>
  Go's \<^verbatim>\<open>strings\<close>, \<^verbatim>\<open>unicode/utf8\<close> and \<^verbatim>\<open>strconv\<close> on byte strings: UTF-8 decoding as
  \<^verbatim>\<open>utf8.DecodeRune\<close> does it (an invalid byte is U+FFFD of width 1), trimming, searching,
  case mapping and integer conversion, with the lemmas on them the components use.
\<close>

section \<open>UTF-8\<close>

type_synonym rune = nat

definition byte_of :: "char \<Rightarrow> nat" where
  "byte_of c = of_char c"

definition rune_error :: rune where
  "rune_error = 65533"

definition cont_byte :: "nat \<Rightarrow> bool" where
  "cont_byte b \<longleftrightarrow> 128 \<le> b \<and> b \<le> 191"

text \<open>
  The admissible second bytes of a lead byte: the table of \<^verbatim>\<open>unicode/utf8\<close> that excludes
  overlong forms, surrogates and runes above U+10FFFF.
\<close>

definition second_byte_ok :: "nat \<Rightarrow> nat \<Rightarrow> bool" where
  "second_byte_ok b0 b1 \<longleftrightarrow>
     (if b0 = 224 then 160 \<le> b1 \<and> b1 \<le> 191
      else if b0 = 237 then 128 \<le> b1 \<and> b1 \<le> 159
      else if b0 = 240 then 144 \<le> b1 \<and> b1 \<le> 191
      else if b0 = 244 then 128 \<le> b1 \<and> b1 \<le> 143
      else cont_byte b1)"

definition decode2 :: "nat \<Rightarrow> string \<Rightarrow> rune \<times> nat" where
  "decode2 b0 s = (case s of
     c1 # _ \<Rightarrow> (let b1 = byte_of c1 in
        if second_byte_ok b0 b1 then ((b0 mod 32) * 64 + b1 mod 64, 2) else (rune_error, 1))
   | _ \<Rightarrow> (rune_error, 1))"

definition decode3 :: "nat \<Rightarrow> string \<Rightarrow> rune \<times> nat" where
  "decode3 b0 s = (case s of
     c1 # c2 # _ \<Rightarrow> (let b1 = byte_of c1; b2 = byte_of c2 in
        if second_byte_ok b0 b1 \<and> cont_byte b2
        then ((b0 mod 16) * 4096 + (b1 mod 64) * 64 + b2 mod 64, 3) else (rune_error, 1))
   | _ \<Rightarrow> (rune_error, 1))"

definition decode4 :: "nat \<Rightarrow> string \<Rightarrow> rune \<times> nat" where
  "decode4 b0 s = (case s of
     c1 # c2 # c3 # _ \<Rightarrow> (let b1 = byte_of c1; b2 = byte_of c2; b3 = byte_of c3 in
        if second_byte_ok b0 b1 \<and> cont_byte b2 \<and> cont_byte b3
        then ((b0 mod 8) * 262144 + (b1 mod 64) * 4096 + (b2 mod 64) * 64 + b3 mod 64, 4)
        else (rune_error, 1))
   | _ \<Rightarrow> (rune_error, 1))"

text \<open>The first rune of a non-empty string and its width in bytes.\<close>

definition decode_rune :: "char \<Rightarrow> string \<Rightarrow> rune \<times> nat" where
  "decode_rune c s = (let b0 = byte_of c in
     if b0 < 128 then (b0, 1)
     else if 194 \<le> b0 \<and> b0 \<le> 223 then decode2 b0 s
     else if 224 \<le> b0 \<and> b0 \<le> 239 then decode3 b0 s
     else if 240 \<le> b0 \<and> b0 \<le> 244 then decode4 b0 s
     else (rune_error, 1))"

lemma decode_rune_width_pos: "0 < snd (decode_rune c s)"
  by (auto simp: decode_rune_def decode2_def decode3_def decode4_def Let_def split: list.splits)

lemma decode_rune_width_le: "snd (decode_rune c s) \<le> Suc (length s)"
  by (auto simp: decode_rune_def decode2_def decode3_def decode4_def Let_def split: list.splits)

text \<open>
  The chunks \<^verbatim>\<open>for i, r := range s\<close> visits: each rune with the bytes it occupies.
\<close>

function rune_chunks :: "string \<Rightarrow> (rune \<times> string) list" where
  "rune_chunks [] = []"
| "rune_chunks (c # s) = (let (r, w) = decode_rune c s in
     (r, take w (c # s)) # rune_chunks (drop (w - 1) s))"
  by pat_completeness auto
termination
  by (relation "measure length") auto

definition runes :: "string \<Rightarrow> rune list" where
  "runes s = map fst (rune_chunks s)"

lemma rune_chunks_concat: "concat (map snd (rune_chunks s)) = s"
proof (induction s rule: rune_chunks.induct)
  case 1
  then show ?case by simp
next
  case (2 c s)
  obtain r w where rw: "decode_rune c s = (r, w)" by (cases "decode_rune c s")
  with decode_rune_width_pos [of c s] obtain v where v: "w = Suc v" by (cases w) auto
  from "2.IH" [OF rw [symmetric] refl] rw v show ?case by simp
qed

lemma rune_chunks_nonempty: "(r, b) \<in> set (rune_chunks s) \<Longrightarrow> b \<noteq> []"
proof (induction s rule: rune_chunks.induct)
  case 1
  then show ?case by simp
next
  case (2 c s)
  obtain r' w where rw: "decode_rune c s = (r', w)" by (cases "decode_rune c s")
  with decode_rune_width_pos [of c s] have "0 < w" by simp
  with "2.prems" "2.IH" [OF rw [symmetric] refl] rw show ?case by auto
qed

lemma rune_chunks_Nil_iff [simp]: "rune_chunks s = [] \<longleftrightarrow> s = []"
  by (cases s) (auto simp: Let_def split: prod.splits)

text \<open>Encoding, \<^verbatim>\<open>utf8.AppendRune\<close>: surrogates and runes out of range encode as U+FFFD.\<close>

definition encode_rune :: "rune \<Rightarrow> string" where
  "encode_rune r0 = (let r = (if 1114111 < r0 \<or> (55296 \<le> r0 \<and> r0 \<le> 57343) then rune_error else r0) in
     if r < 128 then [char_of r]
     else if r < 2048 then [char_of (192 + r div 64), char_of (128 + r mod 64)]
     else if r < 65536 then
       [char_of (224 + r div 4096), char_of (128 + r div 64 mod 64), char_of (128 + r mod 64)]
     else
       [char_of (240 + r div 262144), char_of (128 + r div 4096 mod 64),
        char_of (128 + r div 64 mod 64), char_of (128 + r mod 64)])"

section \<open>Case mapping\<close>

text \<open>
  \<^verbatim>\<open>strings.Map(f, s)\<close> for a mapping that drops nothing. The case table above ASCII is the
  argument \<open>tab\<close> (the generated tables of the \<^verbatim>\<open>unicode\<close> package).
\<close>

type_synonym case_table = "rune \<Rightarrow> rune"

definition map_runes :: "(rune \<Rightarrow> rune) \<Rightarrow> string \<Rightarrow> string" where
  "map_runes f s = concat (map (\<lambda>r. encode_rune (f r)) (runes s))"

definition lower_rune :: "case_table \<Rightarrow> rune \<Rightarrow> rune" where
  "lower_rune tab r = (if r < 128 then (if 65 \<le> r \<and> r \<le> 90 then r + 32 else r) else tab r)"

definition upper_rune :: "case_table \<Rightarrow> rune \<Rightarrow> rune" where
  "upper_rune tab r = (if r < 128 then (if 97 \<le> r \<and> r \<le> 122 then r - 32 else r) else tab r)"

definition ToLower :: "case_table \<Rightarrow> string \<Rightarrow> string" where
  "ToLower tab s = map_runes (lower_rune tab) s"

definition ToUpper :: "case_table \<Rightarrow> string \<Rightarrow> string" where
  "ToUpper tab s = map_runes (upper_rune tab) s"

text \<open>ASCII lower-casing of one byte.\<close>

definition ascii_lower :: "char \<Rightarrow> char" where
  "ascii_lower c = (if 65 \<le> byte_of c \<and> byte_of c \<le> 90 then char_of (byte_of c + 32) else c)"

text \<open>
  \<^verbatim>\<open>strings.EqualFold(s, t)\<close> for an ASCII string \<open>t\<close>: besides the ASCII case pairs, simple
  folding only relates U+212A (Kelvin sign) to \<open>k\<close> and U+017F (long s) to \<open>s\<close>.
\<close>

fun EqualFoldASCII :: "string \<Rightarrow> string \<Rightarrow> bool" where
  "EqualFoldASCII s [] = (s = [])"
| "EqualFoldASCII s (t # ts) = (case s of
     [] \<Rightarrow> False
   | c # cs \<Rightarrow>
       if ascii_lower c = ascii_lower t then EqualFoldASCII cs ts
       else if ascii_lower t = CHR ''k'' \<and> prefix [CHR 0xE2, CHR 0x84, CHR 0xAA] s
         then EqualFoldASCII (drop 3 s) ts
       else if ascii_lower t = CHR ''s'' \<and> prefix [CHR 0xC5, CHR 0xBF] s
         then EqualFoldASCII (drop 2 s) ts
       else False)"

section \<open>Trimming\<close>

text \<open>The encodings of the runes for which \<^verbatim>\<open>unicode.IsSpace\<close> holds.\<close>

definition space_seqs :: "string list" where
  "space_seqs =
     [[CHR 0x20], [CHR 0x09], [CHR 0x0A], [CHR 0x0B], [CHR 0x0C], [CHR 0x0D],
      [CHR 0xC2, CHR 0x85], [CHR 0xC2, CHR 0xA0], [CHR 0xE1, CHR 0x9A, CHR 0x80],
      [CHR 0xE2, CHR 0x80, CHR 0x80], [CHR 0xE2, CHR 0x80, CHR 0x81], [CHR 0xE2, CHR 0x80, CHR 0x82],
      [CHR 0xE2, CHR 0x80, CHR 0x83], [CHR 0xE2, CHR 0x80, CHR 0x84], [CHR 0xE2, CHR 0x80, CHR 0x85],
      [CHR 0xE2, CHR 0x80, CHR 0x86], [CHR 0xE2, CHR 0x80, CHR 0x87], [CHR 0xE2, CHR 0x80, CHR 0x88],
      [CHR 0xE2, CHR 0x80, CHR 0x89], [CHR 0xE2, CHR 0x80, CHR 0x8A], [CHR 0xE2, CHR 0x80, CHR 0xA8],
      [CHR 0xE2, CHR 0x80, CHR 0xA9], [CHR 0xE2, CHR 0x80, CHR 0xAF], [CHR 0xE2, CHR 0x81, CHR 0x9F],
      [CHR 0xE3, CHR 0x80, CHR 0x80]]"

text \<open>Strip, as long as possible, one of the given sequences from the front.\<close>

definition lead_seq :: "string list \<Rightarrow> string \<Rightarrow> nat" where
  "lead_seq seqs s = (case find (\<lambda>w. prefix w s) seqs of None \<Rightarrow> 0 | Some w \<Rightarrow> length w)"

function strip_seqs :: "string list \<Rightarrow> string \<Rightarrow> string" where
  "strip_seqs seqs s =
     (if lead_seq seqs s = 0 \<or> s = [] then s else strip_seqs seqs (drop (lead_seq seqs s) s))"
  by pat_completeness auto
termination
  by (relation "measure (\<lambda>(_, s). length s)") auto

declare strip_seqs.simps [simp del]

definition TrimLeftSpace :: "string \<Rightarrow> string" where
  "TrimLeftSpace s = strip_seqs space_seqs s"

definition TrimRightSpace :: "string \<Rightarrow> string" where
  "TrimRightSpace s = rev (strip_seqs (map rev space_seqs) (rev s))"

definition TrimSpace :: "string \<Rightarrow> string" where
  "TrimSpace s = TrimRightSpace (TrimLeftSpace s)"

text \<open>\<^verbatim>\<open>strings.TrimRight/TrimLeft\<close> with an ASCII cutset.\<close>

definition TrimRightSet :: "string \<Rightarrow> string \<Rightarrow> string" where
  "TrimRightSet s cs = rev (dropWhile (\<lambda>c. c \<in> set cs) (rev s))"

definition TrimLeftSet :: "string \<Rightarrow> string \<Rightarrow> string" where
  "TrimLeftSet s cs = dropWhile (\<lambda>c. c \<in> set cs) s"

definition TrimPrefix :: "string \<Rightarrow> string \<Rightarrow> string" where
  "TrimPrefix s p = (if prefix p s then drop (length p) s else s)"

definition TrimSuffix :: "string \<Rightarrow> string \<Rightarrow> string" where
  "TrimSuffix s p = (if suffix p s then take (length s - length p) s else s)"

section \<open>Searching and splitting\<close>

text \<open>\<^verbatim>\<open>strings.Index\<close>; None where Go returns -1.\<close>

fun str_index :: "string \<Rightarrow> string \<Rightarrow> nat option" where
  "str_index [] p = (if p = [] then Some 0 else None)"
| "str_index (c # s) p = (if prefix p (c # s) then Some 0 else map_option Suc (str_index s p))"

text \<open>\<^verbatim>\<open>strings.LastIndex\<close>.\<close>

fun str_last_index :: "string \<Rightarrow> string \<Rightarrow> nat option" where
  "str_last_index [] p = (if p = [] then Some 0 else None)"
| "str_last_index (c # s) p = (case str_last_index s p of
     Some i \<Rightarrow> Some (Suc i)
   | None \<Rightarrow> if prefix p (c # s) then Some 0 else None)"

definition Contains :: "string \<Rightarrow> string \<Rightarrow> bool" where
  "Contains s p \<longleftrightarrow> str_index s p \<noteq> None"

fun str_join :: "string \<Rightarrow> string list \<Rightarrow> string" where
  "str_join sep [] = []"
| "str_join sep [x] = x"
| "str_join sep (x # y # xs) = x @ sep @ str_join sep (y # xs)"

section \<open>Integers and time\<close>

definition int64_min :: int where "int64_min = - (2 ^ 63)"
definition int64_max :: int where "int64_max = 2 ^ 63 - 1"

text \<open>Signed 64-bit arithmetic wraps around.\<close>

definition int64_wrap :: "int \<Rightarrow> int" where
  "int64_wrap n = (n + 2 ^ 63) mod 2 ^ 64 - 2 ^ 63"

definition is_digit :: "char \<Rightarrow> bool" where
  "is_digit c \<longleftrightarrow> 48 \<le> byte_of c \<and> byte_of c \<le> 57"

definition digits_value :: "string \<Rightarrow> int" where
  "digits_value ds = foldl (\<lambda>n c. n * 10 + (int (byte_of c) - 48)) 0 ds"

text \<open>
  \<^verbatim>\<open>strconv.Atoi\<close>: an optional sign, then decimal digits only (no underscores in base 10);
  None for a syntax error or a value out of the range of a 64-bit \<^verbatim>\<open>int\<close>.
\<close>

definition Atoi :: "string \<Rightarrow> int option" where
  "Atoi s = (let (neg, ds) = (case s of
       c # cs \<Rightarrow> if c = CHR ''-'' then (True, cs) else if c = CHR ''+'' then (False, cs) else (False, s)
     | [] \<Rightarrow> (False, [])) in
     if ds = [] \<or> \<not> list_all is_digit ds then None
     else let n = (if neg then - digits_value ds else digits_value ds) in
       if int64_min \<le> n \<and> n \<le> int64_max then Some n else None)"

text \<open>Decimal notation, \<^verbatim>\<open>strconv.Itoa\<close> and \<^verbatim>\<open>strconv.FormatInt(n, 10)\<close>.\<close>

definition digit_char :: "nat \<Rightarrow> char" where
  "digit_char d = char_of (48 + d)"

function nat_digits :: "nat \<Rightarrow> string" where
  "nat_digits n = (if n < 10 then [digit_char n] else nat_digits (n div 10) @ [digit_char (n mod 10)])"
  by pat_completeness auto
termination
  by (relation "measure id") auto

declare nat_digits.simps [simp del]

definition FormatInt :: "int \<Rightarrow> string" where
  "FormatInt n = (if n < 0 then CHR ''-'' # nat_digits (nat (- n)) else nat_digits (nat n))"

text \<open>\<^verbatim>\<open>hex.EncodeToString\<close>.\<close>

definition hex_digit :: "nat \<Rightarrow> char" where
  "hex_digit n = (if n < 10 then char_of (48 + n) else char_of (87 + n))"

definition hex_encode :: "string \<Rightarrow> string" where
  "hex_encode s = concat (map (\<lambda>c. [hex_digit (byte_of c div 16), hex_digit (byte_of c mod 16)]) s)"

type_synonym time = int

definition zero_time :: time where
  "zero_time = - 62135596800000000000"

definition sec_ns :: int where "sec_ns = 1000000000"
definition minute_ns :: int where "minute_ns = 60 * sec_ns"
definition hour_ns :: int where "hour_ns = 3600 * sec_ns"

text \<open>\<^verbatim>\<open>time.Unix(sec, 0)\<close> and \<^verbatim>\<open>t.Unix()\<close> (which rounds down).\<close>

definition time_unix :: "int \<Rightarrow> time" where
  "time_unix sec = sec * sec_ns"

definition unix_of :: "time \<Rightarrow> int" where
  "unix_of t = t div sec_ns"

section \<open>Lemmas on digits and trimming\<close>

lemma digit_char_simps [simp]:
  "digit_char 0 = CHR ''0''" "digit_char 1 = CHR ''1''" "digit_char (Suc 0) = CHR ''1''"
  "digit_char 2 = CHR ''2''" "digit_char 3 = CHR ''3''" "digit_char 4 = CHR ''4''"
  "digit_char 5 = CHR ''5''" "digit_char 6 = CHR ''6''" "digit_char 7 = CHR ''7''"
  "digit_char 8 = CHR ''8''" "digit_char 9 = CHR ''9''"
  by (simp_all add: digit_char_def char_of_eq_iff)

lemma byte_of_digit_char: "d < 10 \<Longrightarrow> byte_of (digit_char d) = 48 + d"
  by (simp add: byte_of_def digit_char_def)

lemma is_digit_digit_char: "d < 10 \<Longrightarrow> is_digit (digit_char d)"
  by (simp add: is_digit_def byte_of_digit_char)

lemma nat_digits_are_digits: "list_all is_digit (nat_digits n)"
  by (induction n rule: nat_digits.induct)
    (subst nat_digits.simps, auto simp: is_digit_digit_char)

lemma nat_digits_nonempty [simp]: "nat_digits n \<noteq> []"
  by (subst nat_digits.simps) simp

lemma digits_value_snoc: "digits_value (ds @ [c]) = digits_value ds * 10 + (int (byte_of c) - 48)"
  by (simp add: digits_value_def)

lemma digits_value_nat_digits: "digits_value (nat_digits n) = int n"
proof (induction n rule: nat_digits.induct)
  case (1 n)
  show ?case
  proof (cases "n < 10")
    case True
    then show ?thesis
      by (subst nat_digits.simps) (simp add: digits_value_def byte_of_digit_char)
  next
    case False
    with "1.IH" have "digits_value (nat_digits n) = int (n div 10) * 10 + int (n mod 10)"
      by (subst nat_digits.simps) (simp add: digits_value_snoc byte_of_digit_char)
    then show ?thesis
      by (metis div_mult_mod_eq of_nat_add of_nat_mult of_nat_numeral)
  qed
qed

text \<open>\<^verbatim>\<open>Atoi\<close> reads back what \<^verbatim>\<open>FormatInt\<close> writes.\<close>

lemma nat_digits_hd: "nat_digits n = c # cs \<Longrightarrow> c \<noteq> CHR ''-'' \<and> c \<noteq> CHR ''+''"
  using nat_digits_are_digits [of n] by (auto simp: is_digit_def byte_of_def)

lemma Atoi_nat_digits: "int n \<le> int64_max \<Longrightarrow> Atoi (nat_digits n) = Some (int n)"
proof -
  assume le: "int n \<le> int64_max"
  obtain c cs where nd: "nat_digits n = c # cs" using nat_digits_nonempty by (meson list.exhaust)
  from nat_digits_hd [OF nd] have "c \<noteq> CHR ''-''" "c \<noteq> CHR ''+''" by auto
  moreover from nd nat_digits_are_digits [of n] have "list_all is_digit (c # cs)" by simp
  moreover from nd digits_value_nat_digits [of n] have "digits_value (c # cs) = int n" by simp
  moreover have "int64_min \<le> int n" by (simp add: int64_min_def)
  ultimately show ?thesis using le nd by (simp add: Atoi_def)
qed

lemma Atoi_FormatInt: "int64_min \<le> n \<Longrightarrow> n \<le> int64_max \<Longrightarrow> Atoi (FormatInt n) = Some n"
proof (cases "n < 0")
  case True
  assume "int64_min \<le> n" "n \<le> int64_max"
  with True nat_digits_are_digits [of "nat (- n)"] digits_value_nat_digits [of "nat (- n)"]
  show ?thesis by (simp add: Atoi_def FormatInt_def)
next
  case False
  assume "n \<le> int64_max"
  with False show ?thesis by (simp add: FormatInt_def Atoi_nat_digits)
qed

lemma lead_seq_0: "[] \<notin> set seqs \<Longrightarrow> lead_seq seqs s = 0 \<longleftrightarrow> (\<forall>w \<in> set seqs. \<not> prefix w s)"
  by (induction seqs) (auto simp: lead_seq_def)

lemma strip_seqs_fixed: "lead_seq seqs s = 0 \<Longrightarrow> strip_seqs seqs s = s"
  by (subst strip_seqs.simps) simp

lemma strip_seqs_lead: "[] \<notin> set seqs \<Longrightarrow> lead_seq seqs (strip_seqs seqs s) = 0"
proof (induction seqs s rule: strip_seqs.induct)
  case (1 seqs s)
  show ?case
  proof (cases "lead_seq seqs s = 0 \<or> s = []")
    case True
    with "1.prems" have "lead_seq seqs s = 0" by (auto simp: lead_seq_0)
    then show ?thesis by (simp add: strip_seqs_fixed)
  next
    case False
    with "1.IH" "1.prems" show ?thesis by (subst strip_seqs.simps) simp
  qed
qed

lemma strip_seqs_suffix: "suffix (strip_seqs seqs s) s"
proof (induction seqs s rule: strip_seqs.induct)
  case (1 seqs s)
  show ?case
  proof (cases "lead_seq seqs s = 0 \<or> s = []")
    case True
    then show ?thesis by (subst strip_seqs.simps) auto
  next
    case False
    with "1.IH" have "suffix (strip_seqs seqs (drop (lead_seq seqs s) s)) s"
      by (meson suffix_drop suffix_order.trans)
    with False show ?thesis by (subst strip_seqs.simps) simp
  qed
qed

lemma lead_seq_of_prefix:
  "[] \<notin> set seqs \<Longrightarrow> prefix p s \<Longrightarrow> lead_seq seqs s = 0 \<Longrightarrow> lead_seq seqs p = 0"
  by (auto simp: lead_seq_0 dest: prefix_order.trans)

lemma space_seqs_nonempty: "[] \<notin> set space_seqs" "[] \<notin> set (map rev space_seqs)"
  by (simp_all add: space_seqs_def)

lemma TrimRightSpace_prefix: "prefix (TrimRightSpace s) s"
  using strip_seqs_suffix [of "map rev space_seqs" "rev s"]
  by (simp add: TrimRightSpace_def suffix_to_prefix)

lemma TrimLeftSpace_suffix: "suffix (TrimLeftSpace s) s"
  by (simp add: TrimLeftSpace_def strip_seqs_suffix)

lemma TrimSpace_lead: "lead_seq space_seqs (TrimSpace s) = 0"
  unfolding TrimSpace_def
  by (rule lead_seq_of_prefix [OF space_seqs_nonempty(1) TrimRightSpace_prefix])
    (simp add: TrimLeftSpace_def strip_seqs_lead space_seqs_nonempty)

lemma TrimSpace_trail: "lead_seq (map rev space_seqs) (rev (TrimSpace s)) = 0"
  using strip_seqs_lead [OF space_seqs_nonempty(2)] by (simp add: TrimSpace_def TrimRightSpace_def)

text \<open>A trimmed string is one with no space rune at either end; trimming keeps it.\<close>

definition trimmed :: "string \<Rightarrow> bool" where
  "trimmed s \<longleftrightarrow> lead_seq space_seqs s = 0 \<and> lead_seq (map rev space_seqs) (rev s) = 0"

lemma trimmed_TrimSpace [simp]: "trimmed (TrimSpace s)"
  by (simp add: trimmed_def TrimSpace_lead TrimSpace_trail)

lemma TrimSpace_trimmed: "trimmed s \<Longrightarrow> TrimSpace s = s"
  by (simp add: trimmed_def TrimSpace_def TrimLeftSpace_def TrimRightSpace_def strip_seqs_fixed)

lemma TrimSpace_idem [simp]: "TrimSpace (TrimSpace s) = TrimSpace s"
  by (simp add: TrimSpace_trimmed)

lemma TrimSpace_Nil [simp]: "TrimSpace [] = []"
  by (rule TrimSpace_trimmed) (simp add: trimmed_def lead_seq_def space_seqs_def)

lemma TrimSpace_length: "length (TrimSpace s) \<le> length s"
  unfolding TrimSpace_def
  using prefix_length_le [OF TrimRightSpace_prefix] suffix_length_le [OF TrimLeftSpace_suffix]
  by (meson le_trans)

section \<open>Lemmas on searching\<close>

lemma str_index_Some:
  "str_index s p = Some i \<Longrightarrow> i + length p \<le> length s \<and> prefix p (drop i s)"
proof (induction s p arbitrary: i rule: str_index.induct)
  case (1 p)
  then show ?case by (auto split: if_splits)
next
  case (2 c s p)
  then show ?case
    by (auto split: if_splits dest: prefix_length_le)
qed

lemma str_index_first:
  "str_index s p = Some i \<Longrightarrow> j < i \<Longrightarrow> \<not> prefix p (drop j s)"
proof (induction s p arbitrary: i j rule: str_index.induct)
  case (1 p)
  then show ?case by (auto split: if_splits)
next
  case (2 c s p)
  then show ?case by (cases j) (auto split: if_splits)
qed

lemma str_index_None: "str_index s p = None \<longleftrightarrow> (\<forall>j \<le> length s. \<not> prefix p (drop j s))"
proof (induction s)
  case Nil
  then show ?case by simp
next
  case (Cons c s)
  have "(\<forall>j \<le> length (c # s). \<not> prefix p (drop j (c # s))) \<longleftrightarrow>
      \<not> prefix p (c # s) \<and> (\<forall>j \<le> length s. \<not> prefix p (drop j s))"
    by (metis Suc_le_mono drop0 drop_Suc_Cons length_Cons not0_implies_Suc zero_le)
  with Cons show ?case by simp
qed

lemma Contains_sublist: "Contains s p \<longleftrightarrow> sublist p s"
proof
  assume "Contains s p"
  then obtain i where "str_index s p = Some i" by (auto simp: Contains_def)
  then have "prefix p (drop i s)" by (simp add: str_index_Some)
  then show "sublist p s" by (metis prefix_def append_take_drop_id sublist_appendI)
next
  assume "sublist p s"
  then obtain u v where "s = u @ p @ v" by (auto simp: sublist_def)
  then have "prefix p (drop (length u) s)" and "length u \<le> length s" by auto
  then show "Contains s p" by (auto simp: Contains_def str_index_None)
qed

section \<open>ASCII text\<close>

text \<open>On ASCII bytes the rune functions work byte by byte.\<close>

definition ascii :: "string \<Rightarrow> bool" where
  "ascii s \<longleftrightarrow> list_all (\<lambda>c. byte_of c < 128) s"

definition ascii_upper :: "char \<Rightarrow> char" where
  "ascii_upper c = (if 97 \<le> byte_of c \<and> byte_of c \<le> 122 then char_of (byte_of c - 32) else c)"

lemma rune_chunks_ascii: "ascii s \<Longrightarrow> rune_chunks s = map (\<lambda>c. (byte_of c, [c])) s"
  by (induction s) (auto simp: ascii_def decode_rune_def)

lemma runes_ascii: "ascii s \<Longrightarrow> runes s = map byte_of s"
  by (simp add: runes_def rune_chunks_ascii)

lemma encode_rune_ascii: "r < 128 \<Longrightarrow> encode_rune r = [char_of r]"
  by (simp add: encode_rune_def)

lemma ToLower_ascii: "ascii s \<Longrightarrow> ToLower tab s = map ascii_lower s"
proof -
  assume a: "ascii s"
  then have "encode_rune (lower_rune tab (byte_of c)) = [ascii_lower c]" if "c \<in> set s" for c
    using that by (auto simp: ascii_def list_all_iff lower_rune_def ascii_lower_def encode_rune_ascii byte_of_def)
  with a show ?thesis
    by (simp add: ToLower_def map_runes_def runes_ascii comp_def cong: map_cong)
qed

lemma ToUpper_ascii: "ascii s \<Longrightarrow> ToUpper tab s = map ascii_upper s"
proof -
  assume a: "ascii s"
  then have "encode_rune (upper_rune tab (byte_of c)) = [ascii_upper c]" if "c \<in> set s" for c
    using that by (auto simp: ascii_def list_all_iff upper_rune_def ascii_upper_def encode_rune_ascii byte_of_def)
  with a show ?thesis
    by (simp add: ToUpper_def map_runes_def runes_ascii comp_def cong: map_cong)
qed

lemmas ascii_eval = ToLower_ascii ToUpper_ascii runes_ascii ascii_def ascii_lower_def ascii_upper_def byte_of_def

end
