(* ===== verification/GoJson.thy ===== *)
theory GoJson
  imports GoStrings
begin

text \<open>
  Decoded JSON, the \<^verbatim>\<open>any\<close> values the handlers inspect with type assertions. An object is
  a Go map, so a duplicate key of the text has already been overwritten by the decoder.
  \<^verbatim>\<open>json.Unmarshal\<close> itself is an argument (\<open>json_decoder\<close>) of the operations that call it.
\<close>

datatype json =
    JNull
  | JBool bool
  | JNum rat
  | JStr string
  | JArr "json list"
  | JObj "(string \<times> json) list"

type_synonym json_object = "(string, json) gomap"
type_synonym json_decoder = "string \<Rightarrow> json option"

text \<open>
  \<^verbatim>\<open>m[k]\<close> on a \<^verbatim>\<open>map[string]any\<close>: an absent key reads as the nil interface, which the type
  switches of the code do not tell from a JSON null.
\<close>

definition jfield :: "json_object \<Rightarrow> string \<Rightarrow> json" where
  "jfield m k = (case gm_get m k of None \<Rightarrow> JNull | Some v \<Rightarrow> v)"

text \<open>The zero-valued type assertions \<^verbatim>\<open>s, _ := v.(string)\<close> and their kin.\<close>

fun as_str :: "json \<Rightarrow> string" where
  "as_str (JStr s) = s"
| "as_str _ = ''''"

fun as_obj :: "json \<Rightarrow> json_object option" where
  "as_obj (JObj m) = Some m"
| "as_obj _ = None"

fun as_arr :: "json \<Rightarrow> json list option" where
  "as_arr (JArr xs) = Some xs"
| "as_arr _ = None"

text \<open>
  Conversion of a \<^verbatim>\<open>float64\<close> to a 64-bit \<^verbatim>\<open>int\<close>: truncation towards zero; out of range the
  result is implementation-defined, and the model takes the value amd64 produces.
\<close>

definition float_to_int :: "rat \<Rightarrow> int" where
  "float_to_int r = (let n = (if r < 0 then - \<lfloor>- r\<rfloor> else \<lfloor>r\<rfloor>) in
     if int64_min \<le> n \<and> n \<le> int64_max then n else int64_min)"

text \<open>\<^verbatim>\<open>util.IntFrom\<close> on a decoded value.\<close>

fun IntFrom :: "json \<Rightarrow> int" where
  "IntFrom (JNum r) = float_to_int r"
| "IntFrom _ = 0"

text \<open>\<^verbatim>\<open>util.ToBool\<close>.\<close>

fun ToBool :: "json \<Rightarrow> bool" where
  "ToBool (JBool b) = b"
| "ToBool _ = False"

lemma jfield_Nil [simp]: "jfield [] k = JNull"
  by (simp add: jfield_def)

lemma float_to_int_range: "int64_min \<le> float_to_int r \<and> float_to_int r \<le> int64_max"
  by (simp add: float_to_int_def Let_def int64_min_def int64_max_def)

lemma float_to_int_of_int:
  "int64_min \<le> n \<Longrightarrow> n \<le> int64_max \<Longrightarrow> float_to_int (of_int n) = n"
  by (simp add: float_to_int_def flip: of_int_minus)

lemma json_size_field: "(k, v) \<in> set m \<Longrightarrow> size v < size (JObj m)"
  by (induction m) auto

end
