(* ===== verification/Models.thy ===== *)
theory Models
  imports GoJson
begin

text \<open>
  The model allowlist of \<^verbatim>\<open>internal/config/models.go\<close>: the tables of supported, blocked and
  aliased model ids, the \<^verbatim>\<open>-nothinking\<close> suffix, and the resolution of a client's model id.
  The theorems state that resolution is sound (only supported, never blocked, whatever the
  operator's alias map holds), idempotent, and complete for the shipped aliases.
\<close>

section \<open>Tables\<close>

record ModelInfo =
  ID :: string
  Object :: string
  Created :: int
  OwnedBy :: string
  Permission :: "json list option"

definition noThinkingModelSuffix :: string where
  "noThinkingModelSuffix = ''-nothinking''"

definition ds_model :: "string \<Rightarrow> ModelInfo" where
  "ds_model i = \<lparr>ID = i, Object = ''model'', Created = 1677610602, OwnedBy = ''deepseek'', Permission = Some []\<rparr>"

definition deepSeekBaseModels :: "ModelInfo list" where
  "deepSeekBaseModels = map ds_model
     [''deepseek-v4-flash'', ''deepseek-v4-pro'', ''deepseek-v4-flash-search'', ''deepseek-v4-pro-search'']"

definition blockedDeepSeekModels :: "string list" where
  "blockedDeepSeekModels = [''deepseek-v4-vision'']"

definition claude_model :: "string \<Rightarrow> ModelInfo" where
  "claude_model i = \<lparr>ID = i, Object = ''model'', Created = 1715635200, OwnedBy = ''anthropic'', Permission = None\<rparr>"

definition claudeBaseModels :: "ModelInfo list" where
  "claudeBaseModels = map claude_model
     [''claude-opus-4-6'',
      ''claude-sonnet-4-6'',
      ''claude-haiku-4-5'',
      ''claude-sonnet-4-5'',
      ''claude-opus-4-1'',
      ''claude-opus-4-1-20250805'',
      ''claude-opus-4-0'',
      ''claude-opus-4-20250514'',
      ''claude-sonnet-4-5-20250929'',
      ''claude-sonnet-4-0'',
      ''claude-sonnet-4-20250514'',
      ''claude-haiku-4-5-20251001'',
      ''claude-3-7-sonnet-latest'',
      ''claude-3-7-sonnet-20250219'',
      ''claude-3-5-sonnet-latest'',
      ''claude-3-5-sonnet-20240620'',
      ''claude-3-5-sonnet-20241022'',
      ''claude-3-opus-20240229'',
      ''claude-3-sonnet-20240229'',
      ''claude-3-5-haiku-latest'',
      ''claude-3-5-haiku-20241022'',
      ''claude-3-haiku-20240307'']"

definition DefaultModelAliases :: "(string, string) gomap" where
  "DefaultModelAliases =
     [(''chatgpt-4o'', ''deepseek-v4-flash''),
      (''gpt-4'', ''deepseek-v4-flash''),
      (''gpt-4-turbo'', ''deepseek-v4-flash''),
      (''gpt-4-turbo-preview'', ''deepseek-v4-flash''),
      (''gpt-4.5-preview'', ''deepseek-v4-flash''),
      (''gpt-4o'', ''deepseek-v4-flash''),
      (''gpt-4o-mini'', ''deepseek-v4-flash''),
      (''gpt-4.1'', ''deepseek-v4-flash''),
      (''gpt-4.1-mini'', ''deepseek-v4-flash''),
      (''gpt-4.1-nano'', ''deepseek-v4-flash''),
      (''gpt-5'', ''deepseek-v4-flash''),
      (''gpt-5-chat'', ''deepseek-v4-flash''),
      (''gpt-5.1'', ''deepseek-v4-flash''),
      (''gpt-5.1-chat'', ''deepseek-v4-flash''),
      (''gpt-5.2'', ''deepseek-v4-flash''),
      (''gpt-5.2-chat'', ''deepseek-v4-flash''),
      (''gpt-5.3-chat'', ''deepseek-v4-flash''),
      (''gpt-5.4'', ''deepseek-v4-flash''),
      (''gpt-5.5'', ''deepseek-v4-flash''),
      (''gpt-5-mini'', ''deepseek-v4-flash''),
      (''gpt-5-nano'', ''deepseek-v4-flash''),
      (''gpt-5.4-mini'', ''deepseek-v4-flash''),
      (''gpt-5.4-nano'', ''deepseek-v4-flash''),
      (''gpt-5-pro'', ''deepseek-v4-pro''),
      (''gpt-5.2-pro'', ''deepseek-v4-pro''),
      (''gpt-5.4-pro'', ''deepseek-v4-pro''),
      (''gpt-5.5-pro'', ''deepseek-v4-pro''),
      (''gpt-5-codex'', ''deepseek-v4-pro''),
      (''gpt-5.1-codex'', ''deepseek-v4-pro''),
      (''gpt-5.1-codex-mini'', ''deepseek-v4-pro''),
      (''gpt-5.1-codex-max'', ''deepseek-v4-pro''),
      (''gpt-5.2-codex'', ''deepseek-v4-pro''),
      (''gpt-5.3-codex'', ''deepseek-v4-pro''),
      (''codex-mini-latest'', ''deepseek-v4-pro''),
      (''o1'', ''deepseek-v4-pro''),
      (''o1-preview'', ''deepseek-v4-pro''),
      (''o1-mini'', ''deepseek-v4-pro''),
      (''o1-pro'', ''deepseek-v4-pro''),
      (''o3'', ''deepseek-v4-pro''),
      (''o3-mini'', ''deepseek-v4-pro''),
      (''o3-pro'', ''deepseek-v4-pro''),
      (''o3-deep-research'', ''deepseek-v4-pro-search''),
      (''o4-mini'', ''deepseek-v4-pro''),
      (''o4-mini-deep-research'', ''deepseek-v4-pro-search''),
      (''claude-opus-4-6'', ''deepseek-v4-pro''),
      (''claude-opus-4-1'', ''deepseek-v4-pro''),
      (''claude-opus-4-1-20250805'', ''deepseek-v4-pro''),
      (''claude-opus-4-0'', ''deepseek-v4-pro''),
      (''claude-opus-4-20250514'', ''deepseek-v4-pro''),
      (''claude-sonnet-4-6'', ''deepseek-v4-flash''),
      (''claude-sonnet-4-5'', ''deepseek-v4-flash''),
      (''claude-sonnet-4-5-20250929'', ''deepseek-v4-flash''),
      (''claude-sonnet-4-0'', ''deepseek-v4-flash''),
      (''claude-sonnet-4-20250514'', ''deepseek-v4-flash''),
      (''claude-haiku-4-5'', ''deepseek-v4-flash''),
      (''claude-haiku-4-5-20251001'', ''deepseek-v4-flash''),
      (''claude-3-7-sonnet'', ''deepseek-v4-flash''),
      (''claude-3-7-sonnet-latest'', ''deepseek-v4-flash''),
      (''claude-3-7-sonnet-20250219'', ''deepseek-v4-flash''),
      (''claude-3-5-sonnet'', ''deepseek-v4-flash''),
      (''claude-3-5-sonnet-latest'', ''deepseek-v4-flash''),
      (''claude-3-5-sonnet-20240620'', ''deepseek-v4-flash''),
      (''claude-3-5-sonnet-20241022'', ''deepseek-v4-flash''),
      (''claude-3-5-haiku'', ''deepseek-v4-flash''),
      (''claude-3-5-haiku-latest'', ''deepseek-v4-flash''),
      (''claude-3-5-haiku-20241022'', ''deepseek-v4-flash''),
      (''claude-3-opus'', ''deepseek-v4-pro''),
      (''claude-3-opus-20240229'', ''deepseek-v4-pro''),
      (''claude-3-sonnet'', ''deepseek-v4-flash''),
      (''claude-3-sonnet-20240229'', ''deepseek-v4-flash''),
      (''claude-3-haiku'', ''deepseek-v4-flash''),
      (''claude-3-haiku-20240307'', ''deepseek-v4-flash''),
      (''gemini-pro'', ''deepseek-v4-pro''),
      (''gemini-pro-latest'', ''deepseek-v4-pro''),
      (''gemini-flash-latest'', ''deepseek-v4-flash''),
      (''gemini-1.5-pro'', ''deepseek-v4-pro''),
      (''gemini-1.5-flash'', ''deepseek-v4-flash''),
      (''gemini-1.5-flash-8b'', ''deepseek-v4-flash''),
      (''gemini-2.0-flash'', ''deepseek-v4-flash''),
      (''gemini-2.0-flash-lite'', ''deepseek-v4-flash''),
      (''gemini-2.5-pro'', ''deepseek-v4-pro''),
      (''gemini-2.5-flash'', ''deepseek-v4-flash''),
      (''gemini-2.5-flash-lite'', ''deepseek-v4-flash''),
      (''gemini-3.1-pro'', ''deepseek-v4-pro''),
      (''gemini-3-pro'', ''deepseek-v4-pro''),
      (''gemini-3-flash'', ''deepseek-v4-flash''),
      (''gemini-3.1-flash'', ''deepseek-v4-flash''),
      (''gemini-3.1-flash-lite'', ''deepseek-v4-flash''),
      (''llama-3.1-70b-instruct'', ''deepseek-v4-flash''),
      (''qwen-max'', ''deepseek-v4-flash'')]"

section \<open>Resolution\<close>

definition lower :: "string \<Rightarrow> string" where
  "lower s = map ascii_lower s"

definition splitNoThinkingModel :: "string \<Rightarrow> string \<times> bool" where
  "splitNoThinkingModel model0 = (let model = lower (TrimSpace model0) in
     if suffix noThinkingModelSuffix model then (TrimSuffix model noThinkingModelSuffix, True)
     else (model, False))"

definition withNoThinkingVariant :: "string \<Rightarrow> bool \<Rightarrow> string" where
  "withNoThinkingVariant model enabled = (let baseModel = fst (splitNoThinkingModel model) in
     if \<not> enabled then baseModel
     else if baseModel = '''' then ''''
     else baseModel @ noThinkingModelSuffix)"

definition appendNoThinkingVariants :: "ModelInfo list \<Rightarrow> ModelInfo list" where
  "appendNoThinkingVariants models =
     concat (map (\<lambda>m. [m, m\<lparr>ID := withNoThinkingVariant (ID m) True\<rparr>]) models)"

definition DeepSeekModels :: "ModelInfo list" where
  "DeepSeekModels = appendNoThinkingVariants deepSeekBaseModels"

definition ClaudeModels :: "ModelInfo list" where
  "ClaudeModels = appendNoThinkingVariants claudeBaseModels"

text \<open>The results \<^verbatim>\<open>(thinking, search, ok)\<close>: None where \<^verbatim>\<open>ok\<close> is false.\<close>

definition GetModelConfig :: "string \<Rightarrow> (bool \<times> bool) option" where
  "GetModelConfig model = (let (baseModel, noThinking) = splitNoThinkingModel model in
     if baseModel = '''' then None
     else if baseModel \<in> set blockedDeepSeekModels then None
     else if baseModel = ''deepseek-v4-flash'' \<or> baseModel = ''deepseek-v4-pro''
       then Some (\<not> noThinking, False)
     else if baseModel = ''deepseek-v4-flash-search'' \<or> baseModel = ''deepseek-v4-pro-search''
       then Some (\<not> noThinking, True)
     else None)"

definition GetModelType :: "string \<Rightarrow> string option" where
  "GetModelType model = (let (baseModel, _) = splitNoThinkingModel model in
     if baseModel \<in> set blockedDeepSeekModels then None
     else if baseModel = ''deepseek-v4-flash'' \<or> baseModel = ''deepseek-v4-flash-search''
       then Some ''default''
     else if baseModel = ''deepseek-v4-pro'' \<or> baseModel = ''deepseek-v4-pro-search''
       then Some ''expert''
     else None)"

definition IsSupportedDeepSeekModel :: "string \<Rightarrow> bool" where
  "IsSupportedDeepSeekModel model \<longleftrightarrow> GetModelConfig model \<noteq> None"

definition IsNoThinkingModel :: "string \<Rightarrow> bool" where
  "IsNoThinkingModel model = snd (splitNoThinkingModel model)"

definition isBlockedModel :: "string \<Rightarrow> bool" where
  "isBlockedModel model \<longleftrightarrow> model \<noteq> '''' \<and>
     (model \<in> set blockedDeepSeekModels \<or> fst (splitNoThinkingModel model) \<in> set blockedDeepSeekModels)"

definition isRetiredHistoricalModel :: "string \<Rightarrow> bool" where
  "isRetiredHistoricalModel model \<longleftrightarrow>
     prefix ''claude-1.'' model \<or> prefix ''claude-2.'' model \<or>
     prefix ''claude-instant-'' model \<or> prefix ''gpt-3.5'' model"

text \<open>
  A \<^verbatim>\<open>ModelAliasReader\<close> is used through the map it returns; None stands for a nil reader.
\<close>

definition loadModelAliases :: "(string, string) gomap option \<Rightarrow> (string, string) gomap" where
  "loadModelAliases store = (case store of
     None \<Rightarrow> DefaultModelAliases
   | Some al \<Rightarrow> fold (\<lambda>(k, v). gm_set (lower (TrimSpace k)) (lower (TrimSpace v))) al DefaultModelAliases)"

text \<open>The guarded alias lookup that both resolvers perform.\<close>

definition alias_hit :: "(string, string) gomap \<Rightarrow> string \<Rightarrow> string option" where
  "alias_hit aliases model = (case gm_get aliases model of
     Some mapped \<Rightarrow> if IsSupportedDeepSeekModel mapped \<and> \<not> isBlockedModel mapped then Some mapped else None
   | None \<Rightarrow> None)"

definition resolveCanonicalModel :: "(string, string) gomap \<Rightarrow> string \<Rightarrow> string option" where
  "resolveCanonicalModel aliases model0 = (let model = lower (TrimSpace model0) in
     if model = '''' then None
     else if isRetiredHistoricalModel model then None
     else if IsSupportedDeepSeekModel model then Some model
     else alias_hit aliases model)"

definition ResolveModel :: "(string, string) gomap option \<Rightarrow> string \<Rightarrow> string option" where
  "ResolveModel store requested = (let model = lower (TrimSpace requested) in
     if model = '''' then None
     else if isBlockedModel model then None
     else let aliases = loadModelAliases store in
       if IsSupportedDeepSeekModel model then Some model
       else case alias_hit aliases model of
         Some mapped \<Rightarrow> Some mapped
       | None \<Rightarrow>
           (let (baseModel, noThinking) = splitNoThinkingModel model in
            if isBlockedModel baseModel then None
            else case resolveCanonicalModel aliases baseModel of
              None \<Rightarrow> None
            | Some resolvedModel \<Rightarrow> Some (withNoThinkingVariant resolvedModel noThinking)))"

definition OpenAIModelByID :: "(string, string) gomap option \<Rightarrow> string \<Rightarrow> ModelInfo option" where
  "OpenAIModelByID store i = (case ResolveModel store i of
     None \<Rightarrow> None
   | Some canonical \<Rightarrow> find (\<lambda>m. ID m = canonical) DeepSeekModels)"

text \<open>The fields of \<^verbatim>\<open>OpenAIModelsResponse\<close> and \<^verbatim>\<open>ClaudeModelsResponse\<close>.\<close>

record models_response =
  mr_object :: string
  mr_data :: "ModelInfo list"
  mr_first_id :: "string option"
  mr_last_id :: "string option"
  mr_has_more :: "bool option"

definition OpenAIModelsResponse :: models_response where
  "OpenAIModelsResponse = \<lparr>mr_object = ''list'', mr_data = DeepSeekModels,
     mr_first_id = None, mr_last_id = None, mr_has_more = None\<rparr>"

definition ClaudeModelsResponse :: models_response where
  "ClaudeModelsResponse = \<lparr>mr_object = ''list'', mr_data = ClaudeModels,
     mr_first_id = (case ClaudeModels of [] \<Rightarrow> None | m # _ \<Rightarrow> Some (ID m)),
     mr_last_id = (if ClaudeModels = [] then None else Some (ID (last ClaudeModels))),
     mr_has_more = Some False\<rparr>"

section \<open>Lemmas\<close>

lemma ascii_lower_idem [simp]: "ascii_lower (ascii_lower c) = ascii_lower c"
  by (auto simp: ascii_lower_def byte_of_def)

lemma lower_idem [simp]: "lower (lower s) = lower s"
  by (simp add: lower_def)

lemma lower_Nil_iff [simp]: "lower s = [] \<longleftrightarrow> s = []"
  by (simp add: lower_def)

text \<open>A byte that is no letter is hit by lower-casing exactly when it was there before.\<close>

definition no_letter :: "char \<Rightarrow> bool" where
  "no_letter c \<longleftrightarrow> \<not> (65 \<le> byte_of c \<and> byte_of c \<le> 90) \<and> \<not> (97 \<le> byte_of c \<and> byte_of c \<le> 122)"

lemma ascii_lower_no_letter: "no_letter d \<Longrightarrow> ascii_lower c = d \<longleftrightarrow> c = d"
  by (auto simp: no_letter_def ascii_lower_def byte_of_def)

lemma prefix_map_lower: "list_all no_letter w \<Longrightarrow> prefix w (map ascii_lower s) \<longleftrightarrow> prefix w s"
proof (induction w arbitrary: s)
  case Nil
  then show ?case by simp
next
  case (Cons d w)
  then show ?case by (cases s) (auto simp: ascii_lower_no_letter eq_commute [of d])
qed

lemma space_seqs_no_letter: "list_all (list_all no_letter) space_seqs"
  by (simp add: space_seqs_def no_letter_def byte_of_def)

lemma lead_seq_lower:
  assumes "list_all (list_all no_letter) seqs"
  shows "lead_seq seqs (map ascii_lower s) = lead_seq seqs s"
proof -
  have "find (\<lambda>w. prefix w (map ascii_lower s)) seqs = find (\<lambda>w. prefix w s) seqs"
    using assms by (induction seqs) (auto simp: prefix_map_lower)
  then show ?thesis by (simp add: lead_seq_def)
qed

lemma trimmed_lower: "trimmed s \<Longrightarrow> trimmed (lower s)"
proof -
  have "list_all (list_all no_letter) (map rev space_seqs)"
    using space_seqs_no_letter by (auto simp: list_all_iff)
  then show "trimmed s \<Longrightarrow> trimmed (lower s)"
    by (simp add: trimmed_def lower_def rev_map lead_seq_lower space_seqs_no_letter)
qed

lemma norm_idem [simp]: "lower (TrimSpace (lower (TrimSpace s))) = lower (TrimSpace s)"
  by (simp add: TrimSpace_trimmed trimmed_lower)

lemma DeepSeekModels_ids:
  "map ID DeepSeekModels =
     [''deepseek-v4-flash'', ''deepseek-v4-flash-nothinking'', ''deepseek-v4-pro'', ''deepseek-v4-pro-nothinking'',
      ''deepseek-v4-flash-search'', ''deepseek-v4-flash-search-nothinking'',
      ''deepseek-v4-pro-search'', ''deepseek-v4-pro-search-nothinking'']"
  by code_simp

text \<open>An id written in printable ASCII without capitals is already normalised.\<close>

definition plain_id :: "string \<Rightarrow> bool" where
  "plain_id s \<longleftrightarrow> list_all (\<lambda>c. 33 \<le> byte_of c \<and> byte_of c \<le> 64 \<or> 91 \<le> byte_of c \<and> byte_of c \<le> 126) s"

lemma plain_id_trimmed: "plain_id s \<Longrightarrow> trimmed s"
proof -
  assume p: "plain_id s"
  have nope: "\<not> prefix w t" if "w \<in> set (space_seqs @ map rev space_seqs)" "plain_id t" for w t
    using that by (cases t) (auto simp: space_seqs_def plain_id_def byte_of_def)
  from p have "plain_id (rev s)" by (simp add: plain_id_def)
  with p nope have "lead_seq space_seqs s = 0" "lead_seq (map rev space_seqs) (rev s) = 0"
    by (subst lead_seq_0; use space_seqs_nonempty in auto)+
  then show ?thesis by (simp add: trimmed_def)
qed

lemma plain_id_lower: "plain_id s \<Longrightarrow> lower s = s"
  by (induction s) (auto simp: plain_id_def lower_def ascii_lower_def)

lemma plain_id_norm: "plain_id s \<Longrightarrow> lower (TrimSpace s) = s"
  by (simp add: TrimSpace_trimmed plain_id_trimmed plain_id_lower)

text \<open>The suffix split on a normalised id.\<close>

lemma split_norm:
  "lower (TrimSpace m) = m \<Longrightarrow> splitNoThinkingModel m = (b, n) \<longleftrightarrow>
     (if suffix noThinkingModelSuffix m then n \<and> m = b @ noThinkingModelSuffix else \<not> n \<and> b = m)"
  by (auto simp: splitNoThinkingModel_def TrimSuffix_def suffix_def)

text \<open>The ids of the public model list, which are exactly the supported normalised ids.\<close>

definition listed :: "string \<Rightarrow> bool" where
  "listed m \<longleftrightarrow> m \<in> set (map ID DeepSeekModels)"

lemma listed_iff: "listed m \<longleftrightarrow> m \<in> set
     [''deepseek-v4-flash'', ''deepseek-v4-flash-nothinking'', ''deepseek-v4-pro'', ''deepseek-v4-pro-nothinking'',
      ''deepseek-v4-flash-search'', ''deepseek-v4-flash-search-nothinking'',
      ''deepseek-v4-pro-search'', ''deepseek-v4-pro-search-nothinking'']"
  by (simp only: listed_def DeepSeekModels_ids)

lemma listed_ok:
  assumes "listed m"
  shows "plain_id m" "m \<noteq> []" "IsSupportedDeepSeekModel m" "\<not> isBlockedModel m"
proof -
  have "list_all (\<lambda>m. plain_id m \<and> m \<noteq> [] \<and> IsSupportedDeepSeekModel m \<and> \<not> isBlockedModel m) (map ID DeepSeekModels)"
    unfolding DeepSeekModels_ids by code_simp
  with assms show "plain_id m" "m \<noteq> []" "IsSupportedDeepSeekModel m" "\<not> isBlockedModel m"
    by (auto simp only: list_all_iff listed_def)
qed

lemma listed_norm: "listed m \<Longrightarrow> lower (TrimSpace m) = m"
  by (simp add: listed_ok plain_id_norm)

lemma supported_base:
  "IsSupportedDeepSeekModel m \<Longrightarrow> fst (splitNoThinkingModel m) \<in> set (map ID deepSeekBaseModels)"
  by (cases "splitNoThinkingModel m")
    (auto simp: IsSupportedDeepSeekModel_def GetModelConfig_def deepSeekBaseModels_def ds_model_def split: if_splits)

lemma base_variants_listed:
  "b \<in> set (map ID deepSeekBaseModels) \<Longrightarrow> listed b \<and> listed (b @ noThinkingModelSuffix) \<and> b \<noteq> []"
  by (auto simp: listed_iff deepSeekBaseModels_def ds_model_def noThinkingModelSuffix_def)

lemma supported_iff_listed:
  assumes "lower (TrimSpace m) = m"
  shows "IsSupportedDeepSeekModel m \<longleftrightarrow> listed m"
proof
  assume sup: "IsSupportedDeepSeekModel m"
  obtain b n where bn: "splitNoThinkingModel m = (b, n)" by (cases "splitNoThinkingModel m")
  from bn split_norm [OF assms, of b n]
  have "m = b @ noThinkingModelSuffix \<or> m = b" by (simp split: if_splits)
  with supported_base [OF sup] bn base_variants_listed [of b]
  show "listed m" by auto
qed (simp add: listed_ok)

lemma listed_prefix: "listed m \<Longrightarrow> prefix ''deepseek'' m"
  by (auto simp: listed_iff)

lemma blocked_prefix:
  assumes "lower (TrimSpace m) = m" and "isBlockedModel m"
  shows "prefix ''deepseek'' m"
proof -
  obtain b n where bn: "splitNoThinkingModel m = (b, n)" by (cases "splitNoThinkingModel m")
  from bn split_norm [OF assms(1), of b n] have pre: "prefix b m" by (auto split: if_splits)
  from bn assms(2) have "prefix ''deepseek'' m \<or> prefix ''deepseek'' b"
    by (auto simp: isBlockedModel_def blockedDeepSeekModels_def)
  with pre show ?thesis by (meson prefix_order.trans)
qed

text \<open>The shipped aliases: normalised keys outside the DeepSeek name space, listed targets.\<close>

lemma default_alias_values: "gm_get DefaultModelAliases k = Some v \<Longrightarrow> listed v"
proof -
  have "list_all (\<lambda>(k, v). listed v) DefaultModelAliases"
    by (simp add: DefaultModelAliases_def listed_iff)
  then show "gm_get DefaultModelAliases k = Some v \<Longrightarrow> listed v"
    by (auto simp only: list_all_iff dest!: map_of_SomeD split: prod.splits)
qed

lemma default_alias_keys:
  assumes "gm_get DefaultModelAliases k = Some v"
  shows "plain_id k" "k \<noteq> []" "\<not> prefix ''deepseek'' k"
proof -
  have "list_all (\<lambda>(k, v). plain_id k \<and> k \<noteq> [] \<and> \<not> prefix ''deepseek'' k) DefaultModelAliases"
    by (simp add: DefaultModelAliases_def plain_id_def byte_of_def)
  with map_of_SomeD [OF assms] show "plain_id k" "k \<noteq> []" "\<not> prefix ''deepseek'' k"
    by (auto simp only: list_all_iff split: prod.splits)
qed

lemma fold_alias_normal:
  assumes "gm_get (fold (\<lambda>(k, v). gm_set (lower (TrimSpace k)) (lower (TrimSpace v))) al m) k = Some v"
    and "\<And>k v. gm_get m k = Some v \<Longrightarrow> lower (TrimSpace v) = v"
  shows "lower (TrimSpace v) = v"
  using assms
proof (induction al arbitrary: m)
  case Nil
  then show ?case by simp
next
  case (Cons p al)
  obtain a b where p: "p = (a, b)" by (cases p)
  show ?case
  proof (rule Cons.IH)
    show "gm_get (fold (\<lambda>(k, v). gm_set (lower (TrimSpace k)) (lower (TrimSpace v))) al
        (gm_set (lower (TrimSpace a)) (lower (TrimSpace b)) m)) k = Some v"
      using Cons.prems(1) p by simp
    show "lower (TrimSpace v') = v'" if "gm_get (gm_set (lower (TrimSpace a)) (lower (TrimSpace b)) m) k' = Some v'" for k' v'
      using that Cons.prems(2) by (auto simp: gm_get_set split: if_splits)
  qed
qed

lemma loaded_alias_normal:
  assumes "gm_get (loadModelAliases store) k = Some v"
  shows "lower (TrimSpace v) = v"
proof (cases store)
  case None
  with assms show ?thesis by (simp add: loadModelAliases_def default_alias_values listed_norm)
next
  case (Some al)
  with assms have "gm_get (fold (\<lambda>(k, v). gm_set (lower (TrimSpace k)) (lower (TrimSpace v))) al DefaultModelAliases) k = Some v"
    by (simp add: loadModelAliases_def)
  then show ?thesis by (rule fold_alias_normal) (simp add: default_alias_values listed_norm)
qed

lemma alias_hit_listed: "alias_hit (loadModelAliases store) k = Some m \<Longrightarrow> listed m"
  using loaded_alias_normal [of store k] supported_iff_listed
  by (auto simp: alias_hit_def split: option.splits if_splits)

lemma canonical_listed: "resolveCanonicalModel (loadModelAliases store) k = Some m \<Longrightarrow> listed m"
  by (auto simp: resolveCanonicalModel_def Let_def supported_iff_listed dest: alias_hit_listed split: if_splits)

lemma variant_listed:
  assumes "listed m" shows "listed (withNoThinkingVariant m n)"
  using base_variants_listed [OF supported_base [OF listed_ok(3) [OF assms]]]
  by (simp add: withNoThinkingVariant_def Let_def)

lemma resolve_listed: "ResolveModel store r = Some m \<Longrightarrow> listed m"
  by (auto simp: ResolveModel_def Let_def supported_iff_listed dest: alias_hit_listed intro: variant_listed [OF canonical_listed]
     split: if_splits option.splits prod.splits)

lemma resolve_of_listed: "listed m \<Longrightarrow> ResolveModel store m = Some m"
  by (simp add: ResolveModel_def Let_def listed_norm listed_ok)

section \<open>Properties\<close>

text \<open>C28: whatever the operator's alias map holds, a model id that \<^verbatim>\<open>ResolveModel\<close> returns is
  one of the publicly listed DeepSeek models, is supported and is not blocked.\<close>

theorem resolve_model_sound:
  assumes "ResolveModel store requested = Some m"
  shows "m \<in> set (map ID DeepSeekModels) \<and> IsSupportedDeepSeekModel m \<and> \<not> isBlockedModel m"
  using resolve_listed [OF assms] listed_ok listed_def by blast

theorem resolve_model_sound_witness:
  "ResolveModel (Some [(''My-Model'', '' DeepSeek-V4-Pro-NoThinking'')]) '' my-model'' = Some ''deepseek-v4-pro-nothinking'' \<and>
   ''deepseek-v4-pro-nothinking'' \<in> set (map ID DeepSeekModels) \<and> IsSupportedDeepSeekModel ''deepseek-v4-pro-nothinking''
   \<and> \<not> isBlockedModel ''deepseek-v4-pro-nothinking''"
proof -
  have h: "ResolveModel (Some [(''My-Model'', '' DeepSeek-V4-Pro-NoThinking'')]) '' my-model'' = Some ''deepseek-v4-pro-nothinking''"
    by code_simp
  from h resolve_model_sound [OF h] show ?thesis by blast
qed

text \<open>Resolution is idempotent: a resolved id resolves to itself under any alias map, so
  resolving twice along the request path changes nothing.\<close>

theorem resolve_model_idempotent:
  assumes "ResolveModel store requested = Some m"
  shows "ResolveModel store' m = Some m"
  using resolve_listed [OF assms] by (rule resolve_of_listed)

theorem resolve_model_idempotent_witness:
  "ResolveModel None ''GPT-5-codex-nothinking'' = Some ''deepseek-v4-pro-nothinking'' \<and>
   ResolveModel (Some []) ''deepseek-v4-pro-nothinking'' = Some ''deepseek-v4-pro-nothinking''"
proof -
  have h: "ResolveModel None ''GPT-5-codex-nothinking'' = Some ''deepseek-v4-pro-nothinking''"
    by code_simp
  from h resolve_model_idempotent [OF h, of "Some []"] show ?thesis by blast
qed

text \<open>C34: a request for the blocked vision model, in any spelling and with or without the
  \<^verbatim>\<open>-nothinking\<close> suffix, is rejected; no alias map can re-enable it.\<close>

theorem blocked_model_rejected:
  assumes "fst (splitNoThinkingModel requested) \<in> set blockedDeepSeekModels"
  shows "ResolveModel store requested = None \<and> OpenAIModelByID store requested = None"
proof -
  let ?m = "lower (TrimSpace requested)"
  have "splitNoThinkingModel ?m = splitNoThinkingModel requested"
    by (simp add: splitNoThinkingModel_def)
  with assms have "?m = '''' \<or> isBlockedModel ?m" by (auto simp: isBlockedModel_def)
  then have "ResolveModel store requested = None" by (auto simp: ResolveModel_def Let_def)
  then show ?thesis by (simp add: OpenAIModelByID_def)
qed

theorem blocked_model_rejected_witness:
  "ResolveModel (Some [(''deepseek-v4-vision'', ''deepseek-v4-pro'')]) '' DeepSeek-V4-Vision-NoThinking'' = None"
proof -
  have "fst (splitNoThinkingModel '' DeepSeek-V4-Vision-NoThinking'') \<in> set blockedDeepSeekModels"
    by code_simp
  from blocked_model_rejected [OF this] show ?thesis by blast
qed

text \<open>Every alias the gateway ships resolves, without operator configuration and in any
  capitalisation or padding, to exactly its table entry, and the model endpoint serves it.\<close>

theorem default_alias_resolves:
  assumes "gm_get DefaultModelAliases (lower (TrimSpace requested)) = Some target"
  shows "ResolveModel None requested = Some target \<and>
    (\<exists>info. OpenAIModelByID None requested = Some info \<and> ID info = target)"
proof -
  let ?k = "lower (TrimSpace requested)"
  have norm: "lower (TrimSpace ?k) = ?k" by simp
  have "\<not> isBlockedModel ?k" "\<not> IsSupportedDeepSeekModel ?k" "?k \<noteq> ''''"
    using default_alias_keys [OF assms] blocked_prefix [OF norm] listed_prefix supported_iff_listed [OF norm]
    by auto
  moreover have l: "listed target" using assms by (rule default_alias_values)
  then have "alias_hit (loadModelAliases None) ?k = Some target"
    using assms by (simp add: alias_hit_def loadModelAliases_def listed_ok)
  ultimately have r: "ResolveModel None requested = Some target"
    by (simp add: ResolveModel_def Let_def)
  from l have "find (\<lambda>m. ID m = target) DeepSeekModels \<noteq> None"
    by (auto simp: listed_def find_None_iff)
  with r show ?thesis by (auto simp: OpenAIModelByID_def find_Some_iff)
qed

theorem default_alias_resolves_witness:
  "ResolveModel None ''Claude-Opus-4-6 '' = Some ''deepseek-v4-pro''"
proof -
  have "gm_get DefaultModelAliases (lower (TrimSpace ''Claude-Opus-4-6 '')) = Some ''deepseek-v4-pro''"
    by code_simp
  from default_alias_resolves [OF this] show ?thesis by blast
qed

text \<open>the three readings of a model id agree: a configuration exists exactly when a model
  type exists, thinking is on exactly when the id has no \<^verbatim>\<open>-nothinking\<close> suffix, and search
  is on exactly for the search variants.\<close>

theorem model_config_consistent:
  "(GetModelConfig m = None \<longleftrightarrow> GetModelType m = None) \<and>
   (GetModelConfig m \<noteq> None \<longrightarrow>
      GetModelConfig m = Some (\<not> IsNoThinkingModel m, suffix ''-search'' (fst (splitNoThinkingModel m))))"
proof -
  have s: "suffix ''-search'' ''deepseek-v4-flash-search''" "suffix ''-search'' ''deepseek-v4-pro-search''"
    "\<not> suffix ''-search'' ''deepseek-v4-flash''" "\<not> suffix ''-search'' ''deepseek-v4-pro''"
    by (simp_all add: suffix_to_prefix)
  show ?thesis
    by (cases "splitNoThinkingModel m")
      (auto simp: GetModelConfig_def GetModelType_def IsNoThinkingModel_def s blockedDeepSeekModels_def)
qed

theorem model_config_consistent_witness:
  "GetModelConfig ''DeepSeek-v4-pro-search-nothinking'' =
     Some (\<not> IsNoThinkingModel ''DeepSeek-v4-pro-search-nothinking'',
       suffix ''-search'' (fst (splitNoThinkingModel ''DeepSeek-v4-pro-search-nothinking'')))"
proof -
  have "GetModelConfig ''DeepSeek-v4-pro-search-nothinking'' \<noteq> None" by code_simp
  with model_config_consistent [of "''DeepSeek-v4-pro-search-nothinking''"] show ?thesis by blast
qed

end
