(* ===== verification/Upstream_Sessions.thy ===== *)
theory Upstream_Sessions
  imports GoJson "HOL-Library.Char_ord" "HOL-Library.List_Lexorder"
begin

text \<open>
  Pinned upstream sessions, \<^verbatim>\<open>internal/upstreamsession/store.go\<close>: recorded conversation branches that
  a later request may extend, leased to one request at a time. Messages are decoded JSON; the
  encoder and decoder of \<^verbatim>\<open>encoding/json\<close> are the fields \<open>encode\<close> and \<open>decode\<close> of the argument \<open>cd\<close>.
  Record numbers are far below the 64-bit range.
\<close>

section \<open>Canonical messages\<close>

type_synonym json_encoder = "json \<Rightarrow> string option"

record json_codec =
  encode :: json_encoder
  decode :: json_decoder
  lowerTable :: case_table
  sha :: "string \<Rightarrow> string"

definition stringField :: "json \<Rightarrow> string" where
  "stringField = as_str"

definition reasoning_block :: "case_table \<Rightarrow> json \<Rightarrow> bool" where
  "reasoning_block tab block = (let m = (case as_obj block of Some m \<Rightarrow> m | None \<Rightarrow> []) in
     ToLower tab (TrimSpace (stringField (jfield m ''type''))) \<in> {''reasoning'', ''thinking'', ''redacted_thinking''})"

text \<open>The transient reasoning of an assistant message is dropped before comparing.\<close>

definition strip_reasoning :: "case_table \<Rightarrow> json \<Rightarrow> json" where
  "strip_reasoning tab v = (case v of
     JObj item0 \<Rightarrow>
       if EqualFoldASCII (TrimSpace (stringField (jfield item0 ''role''))) ''assistant'' then
         (let item = fold gm_del [''reasoning_content'', ''reasoning'', ''thinking'', ''thought_signature''] item0 in
          JObj (case jfield item ''content'' of
            JArr blocks \<Rightarrow> gm_set ''content'' (JArr (filter (\<lambda>b. \<not> reasoning_block tab b) blocks)) item
          | _ \<Rightarrow> item))
       else v
   | _ \<Rightarrow> v)"

definition canonicalMessage :: "json_codec \<Rightarrow> json \<Rightarrow> string option" where
  "canonicalMessage cd message = (case encode cd message of
     None \<Rightarrow> None
   | Some b \<Rightarrow> (case decode cd b of None \<Rightarrow> None | Some v \<Rightarrow> encode cd (strip_reasoning (lowerTable cd) v)))"

definition canonicalMessages :: "json_codec \<Rightarrow> json list \<Rightarrow> string list option" where
  "canonicalMessages cd messages = those (map (canonicalMessage cd) messages)"

definition canonicalMessageRole :: "json_codec \<Rightarrow> string \<Rightarrow> string" where
  "canonicalMessageRole cd raw = (case decode cd raw of
     Some (JObj item) \<Rightarrow> ToLower (lowerTable cd) (TrimSpace (stringField (jfield item ''role''))) | _ \<Rightarrow> '''')"

definition canonicalMessageHash :: "json_codec \<Rightarrow> string \<Rightarrow> string" where
  "canonicalMessageHash cd raw = hex_encode (take 8 (sha cd raw))"

definition go_type_name :: "json \<Rightarrow> string" where
  "go_type_name v = (case v of JBool _ \<Rightarrow> ''bool'' | JNum _ \<Rightarrow> ''float64'' | _ \<Rightarrow> ''map[string]interface {}'')"

definition canonicalMessageShape :: "json_codec \<Rightarrow> string \<Rightarrow> string" where
  "canonicalMessageShape cd raw = (case (case decode cd raw of Some (JObj m) \<Rightarrow> Some m | Some JNull \<Rightarrow> Some [] | _ \<Rightarrow> None) of
     None \<Rightarrow> ''invalid''
   | Some item \<Rightarrow>
       str_join '';'' ([''keys='' @ str_join '','' (sort (map fst item)), ''role='' @ stringField (jfield item ''role'')] @
         [case jfield item ''content'' of
            JStr c \<Rightarrow> ''content=string:'' @ FormatInt (int (length c))
          | JArr blocks \<Rightarrow>
              (let ms = map (\<lambda>b. case as_obj b of Some m \<Rightarrow> m | None \<Rightarrow> []) blocks;
                   types = map (\<lambda>m. let t = TrimSpace (stringField (jfield m ''type'')) in if t = '''' then ''unknown'' else t) ms;
                   textBytes = sum_list (map (\<lambda>m. length (stringField (jfield m ''text''))) ms)
               in ''content=blocks:'' @ FormatInt (int (length blocks)) @ '':'' @ str_join '','' types @
                  '':text_bytes='' @ FormatInt (int textBytes))
          | JNull \<Rightarrow> ''content=nil''
          | v \<Rightarrow> ''content='' @ go_type_name v] @
         (case jfield item ''tool_calls'' of
            JArr calls \<Rightarrow> [''tool_calls='' @ FormatInt (int (length calls))] | _ \<Rightarrow> [])))"

section \<open>Branches\<close>

record Scope =
  ScopeCallerID :: string
  ScopeSessionKey :: string
  ScopeAccountID :: string
  ScopeSurface :: string
  ScopeVariant :: string

record branch =
  branchID :: string
  scope :: Scope
  sessionID :: string
  parentMessageID :: int
  requestMessages :: "string list"
  responseMessages :: "string list"
  turns :: int
  updatedAt :: time
  busy :: bool

record SessionStore =
  sessionTTL :: int
  maxBranches :: nat
  nextID :: nat
  branches :: "(string, branch list) gomap"

record Lease =
  leaseKey :: string
  leaseEntryID :: string
  SessionID :: string
  ParentMessageID :: int
  DeltaMessages :: "json list"
  TurnCount :: int
  Rotate :: bool
  MatchMode :: string

definition defaultTTL :: int where "defaultTTL = 6 * hour_ns"
definition defaultMaxBranches :: nat where "defaultMaxBranches = 8"

definition NewStore :: "int \<Rightarrow> int \<Rightarrow> SessionStore" where
  "NewStore ttl n = \<lparr>sessionTTL = (if ttl \<le> 0 then defaultTTL else ttl),
     maxBranches = (if n \<le> 0 then defaultMaxBranches else nat n), nextID = 0, branches = []\<rparr>"

definition validScope :: "Scope \<Rightarrow> bool" where
  "validScope s \<longleftrightarrow> TrimSpace (ScopeCallerID s) \<noteq> '''' \<and> TrimSpace (ScopeSessionKey s) \<noteq> '''' \<and>
     TrimSpace (ScopeAccountID s) \<noteq> '''' \<and> TrimSpace (ScopeSurface s) \<noteq> '''' \<and> TrimSpace (ScopeVariant s) \<noteq> ''''"

definition scopeKey :: "Scope \<Rightarrow> string" where
  "scopeKey s = str_join [CHR 0x00] [ScopeCallerID s, ScopeSessionKey s, ScopeAccountID s, ScopeSurface s, ScopeVariant s]"

definition branches_of :: "SessionStore \<Rightarrow> string \<Rightarrow> branch list" where
  "branches_of s key = (case gm_get (branches s) key of Some bs \<Rightarrow> bs | None \<Rightarrow> [])"

definition keep_branch :: "int \<Rightarrow> time \<Rightarrow> branch \<Rightarrow> bool" where
  "keep_branch ttl now b \<longleftrightarrow> busy b \<or> now - updatedAt b \<le> ttl"

definition pruneLocked :: "time \<Rightarrow> SessionStore \<Rightarrow> SessionStore" where
  "pruneLocked now s = s\<lparr>branches := filter (\<lambda>(k, bs). bs \<noteq> [])
     (map (\<lambda>(k, bs). (k, filter (keep_branch (sessionTTL s) now) bs)) (branches s))\<rparr>"

section \<open>Matching\<close>

definition messagePrefixEqual :: "string list \<Rightarrow> string list \<Rightarrow> nat \<Rightarrow> bool" where
  "messagePrefixEqual current expected offset \<longleftrightarrow>
     (if length current < offset + length expected then False
      else list_all (\<lambda>i. current ! (offset + i) = expected ! i) [0..<length expected])"

definition rawMessagesEqual :: "string list \<Rightarrow> string list \<Rightarrow> bool" where
  "rawMessagesEqual l r \<longleftrightarrow> length l = length r \<and> list_all (\<lambda>i. l ! i = r ! i) [0..<length l]"

definition leadingSystemCount :: "(string \<Rightarrow> string) \<Rightarrow> string list \<Rightarrow> nat" where
  "leadingSystemCount role messages = length (takeWhile (\<lambda>raw. role raw = ''system'') messages)"

definition rawMessagesContainRole :: "(string \<Rightarrow> string) \<Rightarrow> string list \<Rightarrow> string \<Rightarrow> bool" where
  "rawMessagesContainRole role messages r \<longleftrightarrow> list_ex (\<lambda>raw. role raw = r) messages"

text \<open>The loop that tries overlaps from the longest to the shortest allowed.\<close>

fun slide_down :: "(nat \<Rightarrow> bool) \<Rightarrow> nat \<Rightarrow> nat \<Rightarrow> nat option" where
  "slide_down ok lowest 0 = (if lowest \<le> 0 \<and> ok 0 then Some 0 else None)"
| "slide_down ok lowest (Suc n) =
     (if Suc n < lowest then None else if ok (Suc n) then Some (Suc n) else slide_down ok lowest n)"

definition matchBranchExtension :: "(string \<Rightarrow> string) \<Rightarrow> string list \<Rightarrow> branch \<Rightarrow> (nat \<times> string) option" where
  "matchBranchExtension role current b =
     (let req = requestMessages b; resp = responseMessages b; strictConsumed = length req + length resp in
      if strictConsumed < length current \<and> messagePrefixEqual current req 0 \<and> messagePrefixEqual current resp (length req)
      then Some (strictConsumed, ''strict_prefix'')
      else
        let reqSys = leadingSystemCount role req; curSys = leadingSystemCount role current in
        if reqSys \<noteq> curSys \<or> \<not> messagePrefixEqual current (take reqSys req) 0 then None
        else
          let stored = drop reqSys req @ resp; cur = drop curSys current;
              overlap_ok = (\<lambda>overlap. let storedStart = length stored - overlap in
                 rawMessagesEqual (take overlap cur) (drop storedStart stored) \<and>
                 rawMessagesContainRole role (drop storedStart (take (length stored - length resp) stored)) ''user'')
          in map_option (\<lambda>overlap. (curSys + overlap, ''sliding_suffix''))
               (slide_down overlap_ok (length resp + 1) (min (length stored) (length cur - 1))))"

section \<open>Leasing\<close>

definition usable :: "Scope \<Rightarrow> branch \<Rightarrow> bool" where
  "usable sc b \<longleftrightarrow> scope b = sc \<and> 0 < parentMessageID b \<and> TrimSpace (sessionID b) \<noteq> ''''"

text \<open>The selection loop: the longest match wins, a later equal one only over a sliding match.\<close>

fun select_branch :: "(string \<Rightarrow> string) \<Rightarrow> Scope \<Rightarrow> string list \<Rightarrow> branch list \<Rightarrow> (branch \<times> nat \<times> string) option \<Rightarrow>
    (branch \<times> nat \<times> string) option" where
  "select_branch role sc current [] best = best"
| "select_branch role sc current (b # bs) best =
     (if busy b \<or> \<not> usable sc b then select_branch role sc current bs best
      else case matchBranchExtension role current b of
        None \<Rightarrow> select_branch role sc current bs best
      | Some (consumed, mode) \<Rightarrow>
          (case best of
             Some (b0, c0, m0) \<Rightarrow>
               if consumed < c0 \<or> (consumed = c0 \<and> m0 = ''strict_prefix'') then select_branch role sc current bs best
               else select_branch role sc current bs (Some (b, consumed, mode))
           | None \<Rightarrow> select_branch role sc current bs (Some (b, consumed, mode))))"

definition cloneAnyMessages :: "json_codec \<Rightarrow> json list \<Rightarrow> json list" where
  "cloneAnyMessages cd messages = (if messages = [] then []
     else case encode cd (JArr messages) of
       None \<Rightarrow> []
     | Some b \<Rightarrow> (case decode cd b of Some (JArr out) \<Rightarrow> out | _ \<Rightarrow> []))"

text \<open>The loops over a key's branches act on the first branch with the given id.\<close>

fun update_branch :: "string \<Rightarrow> (branch \<Rightarrow> branch) \<Rightarrow> branch list \<Rightarrow> branch list" where
  "update_branch bid f [] = []"
| "update_branch bid f (b # bs) = (if branchID b = bid then f b # bs else b # update_branch bid f bs)"

fun remove_branch :: "string \<Rightarrow> branch list \<Rightarrow> branch list" where
  "remove_branch bid [] = []"
| "remove_branch bid (b # bs) = (if branchID b = bid then bs else b # remove_branch bid bs)"

definition map_branch :: "string \<Rightarrow> string \<Rightarrow> (branch \<Rightarrow> branch) \<Rightarrow> SessionStore \<Rightarrow> SessionStore" where
  "map_branch key bid f s = s\<lparr>branches :=
     map (\<lambda>(k, bs). (k, if k = key then update_branch bid f bs else bs)) (branches s)\<rparr>"

definition PrepareWithMaxTurns :: "json_codec \<Rightarrow> time \<Rightarrow> Scope \<Rightarrow> json list \<Rightarrow> int \<Rightarrow> SessionStore \<Rightarrow> Lease option \<times> SessionStore" where
  "PrepareWithMaxTurns cd now sc messages maxTurns s0 =
     (if \<not> validScope sc \<or> messages = [] then (None, s0)
      else case canonicalMessages cd messages of
        None \<Rightarrow> (None, s0)
      | Some current \<Rightarrow>
          (let key = scopeKey sc; s = pruneLocked now s0 in
           case select_branch (canonicalMessageRole cd) sc current (branches_of s key) None of
             None \<Rightarrow> (None, s)
           | Some (b, consumed, mode) \<Rightarrow>
               (Some \<lparr>leaseKey = key, leaseEntryID = branchID b, SessionID = sessionID b, ParentMessageID = parentMessageID b,
                  DeltaMessages = cloneAnyMessages cd (drop consumed messages), TurnCount = turns b,
                  Rotate = (0 < maxTurns \<and> maxTurns \<le> turns b), MatchMode = mode\<rparr>,
                map_branch key (branchID b) (\<lambda>b. b\<lparr>busy := True\<rparr>) s)))"

definition Prepare :: "json_codec \<Rightarrow> time \<Rightarrow> Scope \<Rightarrow> json list \<Rightarrow> SessionStore \<Rightarrow> Lease option \<times> SessionStore" where
  "Prepare cd now sc messages s = PrepareWithMaxTurns cd now sc messages 0 s"

text \<open>The index of the oldest branch: the first of those with the smallest time.\<close>

fun oldest_index :: "branch list \<Rightarrow> nat \<Rightarrow> nat \<Rightarrow> nat" where
  "oldest_index items i 0 = i"
| "oldest_index items i (Suc n) =
     (let j = length items - Suc n in
      oldest_index items (if updatedAt (items ! j) < updatedAt (items ! i) then j else i) n)"

definition evict_oldest :: "nat \<Rightarrow> branch list \<Rightarrow> branch list" where
  "evict_oldest n items = (if n < length items
     then let oldest = oldest_index items 0 (length items - 1) in take oldest items @ drop (Suc oldest) items
     else items)"

definition Record :: "json_codec \<Rightarrow> time \<Rightarrow> Scope \<Rightarrow> json list \<Rightarrow> json list \<Rightarrow> string \<Rightarrow> int \<Rightarrow> SessionStore \<Rightarrow> SessionStore" where
  "Record cd now sc reqs resps sid parent s0 =
     (if \<not> validScope sc \<or> TrimSpace sid = '''' \<or> parent \<le> 0 then s0
      else case (canonicalMessages cd reqs, canonicalMessages cd resps) of
        (Some req, Some resp) \<Rightarrow>
          if req = [] \<or> resp = [] then s0
          else
            (let key = scopeKey sc; s = pruneLocked now s0; n = Suc (nextID s);
                 created = \<lparr>branchID = ''inc-'' @ FormatInt (int n), scope = sc, sessionID = TrimSpace sid, parentMessageID = parent,
                   requestMessages = req, responseMessages = resp, turns = 1, updatedAt = now, busy = False\<rparr>
             in s\<lparr>nextID := n, branches := gm_set key (evict_oldest (maxBranches s) (branches_of s key @ [created])) (branches s)\<rparr>)
      | _ \<Rightarrow> s0)"

definition Invalidate :: "Lease \<Rightarrow> SessionStore \<Rightarrow> SessionStore" where
  "Invalidate l s = (let items = remove_branch (leaseEntryID l) (branches_of s (leaseKey l)) in
     s\<lparr>branches := (if items = [] then gm_del (leaseKey l) (branches s) else gm_set (leaseKey l) items (branches s))\<rparr>)"

definition Lease_Release :: "Lease \<Rightarrow> SessionStore \<Rightarrow> SessionStore" where
  "Lease_Release l s = map_branch (leaseKey l) (leaseEntryID l) (\<lambda>b. b\<lparr>busy := False\<rparr>) s"

definition Complete :: "json_codec \<Rightarrow> time \<Rightarrow> Lease \<Rightarrow> Scope \<Rightarrow> json list \<Rightarrow> json list \<Rightarrow> string \<Rightarrow> int \<Rightarrow> SessionStore \<Rightarrow> SessionStore" where
  "Complete cd now l sc reqs resps sid parent s =
     (case (canonicalMessages cd reqs, canonicalMessages cd resps) of
        (Some req, Some resp) \<Rightarrow>
          if req = [] \<or> resp = [] \<or> \<not> validScope sc \<or> parent \<le> 0 \<or> TrimSpace sid = '''' then Invalidate l s
          else map_branch (leaseKey l) (leaseEntryID l) (\<lambda>b. b\<lparr>scope := sc, sessionID := TrimSpace sid,
                 parentMessageID := parent, requestMessages := req, responseMessages := resp, turns := turns b + 1,
                 updatedAt := now, busy := False\<rparr>) s
      | _ \<Rightarrow> Invalidate l s)"

section \<open>Diagnostics\<close>

record MatchDiagnostics =
  InvalidInput :: bool
  Branches :: nat
  Busy :: nat
  NotExtendable :: nat
  RequestPrefixMismatch :: nat
  ResponsePrefixMismatch :: nat
  Extendable :: nat
  ExpectedResponseShape :: string
  CurrentResponseShape :: string
  ExpectedResponseHash :: string
  CurrentResponseHash :: string
  SlidingSuffixMatches :: nat
  SlidingCandidateOverlap :: nat
  SlidingMatchedPrefix :: nat
  SlidingExpectedShape :: string
  SlidingCurrentShape :: string
  SlidingExpectedHash :: string
  SlidingCurrentHash :: string

definition no_diagnostics :: MatchDiagnostics where
  "no_diagnostics = \<lparr>InvalidInput = False, Branches = 0, Busy = 0, NotExtendable = 0, RequestPrefixMismatch = 0,
     ResponsePrefixMismatch = 0, Extendable = 0, ExpectedResponseShape = '''', CurrentResponseShape = '''',
     ExpectedResponseHash = '''', CurrentResponseHash = '''', SlidingSuffixMatches = 0, SlidingCandidateOverlap = 0,
     SlidingMatchedPrefix = 0, SlidingExpectedShape = '''', SlidingCurrentShape = '''', SlidingExpectedHash = '''',
     SlidingCurrentHash = ''''\<rparr>"

record slidingSuffixDiagnostic =
  candidateOverlap :: nat
  matchedPrefix :: nat
  expectedMessage :: string
  currentMessage :: string

fun common_prefix :: "string list \<Rightarrow> string list \<Rightarrow> nat" where
  "common_prefix (x # xs) (y # ys) = (if x = y then Suc (common_prefix xs ys) else 0)"
| "common_prefix _ _ = 0"

definition diagnoseSlidingSuffix :: "(string \<Rightarrow> string) \<Rightarrow> string list \<Rightarrow> branch \<Rightarrow> slidingSuffixDiagnostic" where
  "diagnoseSlidingSuffix role current b =
     (let req = requestMessages b; resp = responseMessages b;
          none = \<lparr>candidateOverlap = 0, matchedPrefix = 0, expectedMessage = '''', currentMessage = ''''\<rparr>;
          reqSys = leadingSystemCount role req; curSys = leadingSystemCount role current in
      if reqSys \<noteq> curSys \<or> \<not> messagePrefixEqual current (take reqSys req) 0 then none
      else
        let stored = drop reqSys req @ resp; cur = drop curSys current;
            maxOverlap = min (length stored) (length cur - 1); minimumOverlap = length resp + 1
        in fold (\<lambda>overlap best.
             let expected = drop (length stored - overlap) stored;
                 matched = common_prefix expected (take overlap cur) in
             if matched < matchedPrefix best \<or> (matched = matchedPrefix best \<and> overlap \<le> candidateOverlap best) then best
             else if matched < overlap
               then best\<lparr>candidateOverlap := overlap, matchedPrefix := matched,
                      expectedMessage := expected ! matched, currentMessage := cur ! matched\<rparr>
               else best\<lparr>candidateOverlap := overlap, matchedPrefix := matched\<rparr>)
           (rev [minimumOverlap..<Suc maxOverlap]) none)"

definition note_sliding :: "json_codec \<Rightarrow> slidingSuffixDiagnostic \<Rightarrow> MatchDiagnostics \<Rightarrow> MatchDiagnostics" where
  "note_sliding cd sl d = (if 0 < candidateOverlap sl \<and> SlidingMatchedPrefix d \<le> matchedPrefix sl
     then d\<lparr>SlidingCandidateOverlap := candidateOverlap sl, SlidingMatchedPrefix := matchedPrefix sl,
        SlidingExpectedShape := canonicalMessageShape cd (expectedMessage sl),
        SlidingCurrentShape := canonicalMessageShape cd (currentMessage sl),
        SlidingExpectedHash := canonicalMessageHash cd (expectedMessage sl),
        SlidingCurrentHash := canonicalMessageHash cd (currentMessage sl)\<rparr>
     else d)"

definition note_response_mismatch :: "json_codec \<Rightarrow> string list \<Rightarrow> branch \<Rightarrow> MatchDiagnostics \<Rightarrow> MatchDiagnostics" where
  "note_response_mismatch cd current b d =
     (if ExpectedResponseShape d \<noteq> '''' then d
      else case List.find (\<lambda>i. current ! (length (requestMessages b) + i) \<noteq> responseMessages b ! i) [0..<length (responseMessages b)] of
        None \<Rightarrow> d
      | Some i \<Rightarrow> d\<lparr>ExpectedResponseShape := canonicalMessageShape cd (responseMessages b ! i),
          CurrentResponseShape := canonicalMessageShape cd (current ! (length (requestMessages b) + i)),
          ExpectedResponseHash := canonicalMessageHash cd (responseMessages b ! i),
          CurrentResponseHash := canonicalMessageHash cd (current ! (length (requestMessages b) + i))\<rparr>)"

definition diagnose_branch :: "json_codec \<Rightarrow> Scope \<Rightarrow> string list \<Rightarrow> branch \<Rightarrow> MatchDiagnostics \<Rightarrow> MatchDiagnostics" where
  "diagnose_branch cd sc current b d0 =
     (if \<not> usable sc b then d0
      else let d = d0\<lparr>Branches := Branches d0 + 1\<rparr> in
        if busy b then d\<lparr>Busy := Busy d + 1\<rparr>
        else case matchBranchExtension (canonicalMessageRole cd) current b of
          Some (_, mode) \<Rightarrow>
            (let d1 = d\<lparr>Extendable := Extendable d + 1\<rparr> in
             if mode = ''sliding_suffix'' then d1\<lparr>SlidingSuffixMatches := SlidingSuffixMatches d1 + 1\<rparr> else d1)
        | None \<Rightarrow>
            (let d1 = note_sliding cd (diagnoseSlidingSuffix (canonicalMessageRole cd) current b) d;
                 consumed = length (requestMessages b) + length (responseMessages b) in
             if length current \<le> consumed then d1\<lparr>NotExtendable := NotExtendable d1 + 1\<rparr>
             else if \<not> messagePrefixEqual current (requestMessages b) 0
               then d1\<lparr>RequestPrefixMismatch := RequestPrefixMismatch d1 + 1\<rparr>
             else if \<not> messagePrefixEqual current (responseMessages b) (length (requestMessages b))
               then note_response_mismatch cd current b (d1\<lparr>ResponsePrefixMismatch := ResponsePrefixMismatch d1 + 1\<rparr>)
             else d1))"

definition Diagnose :: "json_codec \<Rightarrow> time \<Rightarrow> Scope \<Rightarrow> json list \<Rightarrow> SessionStore \<Rightarrow> MatchDiagnostics \<times> SessionStore" where
  "Diagnose cd now sc messages s0 =
     (if \<not> validScope sc \<or> messages = [] then (no_diagnostics\<lparr>InvalidInput := True\<rparr>, s0)
      else case canonicalMessages cd messages of
        None \<Rightarrow> (no_diagnostics\<lparr>InvalidInput := True\<rparr>, s0)
      | Some current \<Rightarrow>
          (let s = pruneLocked now s0 in
           (fold (diagnose_branch cd sc current) (branches_of s (scopeKey sc)) no_diagnostics, s)))"

section \<open>What a match means\<close>

lemma list_all_nth_take:
  "off + length e \<le> length c \<Longrightarrow> list_all (\<lambda>i. c ! (off + i) = e ! i) [0..<length e] \<longleftrightarrow> take (length e) (drop off c) = e"
proof
  assume len: "off + length e \<le> length c" and "list_all (\<lambda>i. c ! (off + i) = e ! i) [0..<length e]"
  then have "\<And>i. i < length e \<Longrightarrow> c ! (off + i) = e ! i" by (simp add: list_all_iff)
  with len show "take (length e) (drop off c) = e" by (intro nth_equalityI) auto
next
  assume len: "off + length e \<le> length c" and eq: "take (length e) (drop off c) = e"
  have "c ! (off + i) = e ! i" if "i < length e" for i
    using arg_cong [OF eq, of "\<lambda>l. l ! i"] that len by simp
  then show "list_all (\<lambda>i. c ! (off + i) = e ! i) [0..<length e]" by (simp add: list_all_iff)
qed

lemma messagePrefixEqual_iff:
  "messagePrefixEqual c e off \<longleftrightarrow> off + length e \<le> length c \<and> take (length e) (drop off c) = e"
  using list_all_nth_take [of off e c] by (auto simp: messagePrefixEqual_def)

lemma rawMessagesEqual_iff: "rawMessagesEqual l r \<longleftrightarrow> l = r"
  using list_all_nth_take [of 0 r l] by (auto simp: rawMessagesEqual_def)

lemma slide_down_Some:
  "slide_down ok lowest n = Some k \<Longrightarrow> ok k \<and> lowest \<le> k \<and> k \<le> n"
  by (induction n) (auto split: if_splits)

lemma slide_down_None:
  "slide_down ok lowest n = None \<Longrightarrow> lowest \<le> k \<Longrightarrow> k \<le> n \<Longrightarrow> \<not> ok k"
  by (induction n) (auto split: if_splits simp: le_Suc_eq)

text \<open>
  A match of \<open>c\<close> messages: they are the branch's leading system messages followed by a suffix of
  the recorded conversation that contains the whole recorded answer; either the whole conversation
  (strict) or one with a recorded user message before the answer (sliding).
\<close>

definition extends_branch :: "(string \<Rightarrow> string) \<Rightarrow> string list \<Rightarrow> branch \<Rightarrow> nat \<Rightarrow> string \<Rightarrow> bool" where
  "extends_branch role current b c mode \<longleftrightarrow> c < length current \<and>
     (\<exists>n pre q. n \<le> length (requestMessages b) \<and> take c current = take n (requestMessages b) @ q @ responseMessages b \<and>
        drop n (requestMessages b) = pre @ q \<and>
        (mode = ''strict_prefix'' \<and> pre = [] \<or>
         mode = ''sliding_suffix'' \<and> list_ex (\<lambda>raw. role raw = ''user'') q \<and>
         n = leadingSystemCount role (requestMessages b) \<and> n = leadingSystemCount role current))"

lemma leadingSystemCount_le: "leadingSystemCount role ms \<le> length ms"
  by (simp add: leadingSystemCount_def length_takeWhile_le)

lemma strict_extends:
  assumes "length req + length resp < length current" "take (length req) current = req"
    "take (length resp) (drop (length req) current) = resp"
  shows "take (length req + length resp) current = req @ resp"
  using assms by (simp add: take_add)

lemma sliding_extends:
  assumes n: "n \<le> length req" "n \<le> length current" "take n current = take n req"
    and eq: "take k (drop n current) = drop (length (drop n req @ resp) - k) (drop n req @ resp)"
    and k: "length resp < k" "k \<le> length (drop n req @ resp)" "k \<le> length (drop n current) - 1"
  shows "n + k < length current \<and> (\<exists>pre q. take (n + k) current = take n req @ q @ resp \<and> drop n req = pre @ q \<and>
     q = drop (length (drop n req @ resp) - k) (take (length (drop n req @ resp) - length resp) (drop n req @ resp)))"
proof -
  let ?d = "drop n req" and ?j = "length (drop n req @ resp) - k"
  have j: "?j \<le> length ?d" using k by simp
  have "take (n + k) current = take n req @ drop ?j (?d @ resp)" using n(3) eq by (simp add: take_add)
  moreover have "drop ?j (?d @ resp) = drop ?j ?d @ resp" using j by simp
  moreover have "?d = take ?j ?d @ drop ?j ?d" by (rule append_take_drop_id [symmetric])
  moreover have "n + k < length current" using k n by auto
  moreover have "drop ?j ?d = drop ?j (take (length (?d @ resp) - length resp) (?d @ resp))" using k by simp
  ultimately show ?thesis by (intro conjI exI [of _ "take ?j ?d"] exI [of _ "drop ?j ?d"]) simp_all
qed

lemma matchBranchExtension_sound:
  assumes "matchBranchExtension role current b = Some (c, mode)"
  shows "extends_branch role current b c mode"
proof -
  let ?req = "requestMessages b" and ?resp = "responseMessages b"
  let ?n = "leadingSystemCount role ?req" and ?m = "leadingSystemCount role current"
  let ?stored = "drop ?n ?req @ ?resp" and ?cur = "drop ?m current"
  show ?thesis
  proof (cases "length ?req + length ?resp < length current \<and> messagePrefixEqual current ?req 0 \<and>
      messagePrefixEqual current ?resp (length ?req)")
    case True
    then have t: "take (length ?req + length ?resp) current = ?req @ ?resp"
      using strict_extends [of ?req ?resp current] by (simp add: messagePrefixEqual_iff)
    have cm: "c = length ?req + length ?resp" "mode = ''strict_prefix''"
      using assms True by (auto simp: matchBranchExtension_def Let_def)
    show ?thesis unfolding extends_branch_def cm
      using True t by (intro conjI exI [of _ "length ?req"] exI [of _ "[]"]) auto
  next
    case False
    let ?ok = "\<lambda>k. rawMessagesEqual (take k ?cur) (drop (length ?stored - k) ?stored) \<and>
        rawMessagesContainRole role (drop (length ?stored - k) (take (length ?stored - length ?resp) ?stored)) ''user''"
    have "matchBranchExtension role current b =
        (if ?n \<noteq> ?m \<or> \<not> messagePrefixEqual current (take ?n ?req) 0 then None
         else map_option (\<lambda>k. (?m + k, ''sliding_suffix'')) (slide_down ?ok (length ?resp + 1) (min (length ?stored) (length ?cur - 1))))"
      unfolding matchBranchExtension_def Let_def using False by (simp only: if_False)
    with assms obtain k where nm: "?n = ?m" and pre: "messagePrefixEqual current (take ?n ?req) 0"
      and sl: "slide_down ?ok (length ?resp + 1) (min (length ?stored) (length ?cur - 1)) = Some k"
      and cm: "c = ?m + k" "mode = ''sliding_suffix''"
      by (auto split: if_splits)
    have k: "?ok k" "length ?resp + 1 \<le> k" "k \<le> length ?stored" "k \<le> length ?cur - 1"
      using slide_down_Some [OF sl] by auto
    have tk: "take ?n current = take ?n ?req" using pre leadingSystemCount_le [of role ?req]
      by (simp add: messagePrefixEqual_iff min_absorb2)
    obtain pre' q where a: "?n + k < length current" "take (?n + k) current = take ?n ?req @ q @ ?resp" "drop ?n ?req = pre' @ q"
      and q: "q = drop (length ?stored - k) (take (length ?stored - length ?resp) ?stored)"
    proof -
      have "?n \<le> length current" using nm leadingSystemCount_le [of role current] by simp
      moreover have "take k (drop ?n current) = drop (length ?stored - k) ?stored"
        using k(1) unfolding rawMessagesEqual_iff nm by (rule conjunct1)
      moreover have "length ?resp < k" "k \<le> length (drop ?n current) - 1" using k(2,4) nm by simp_all
      ultimately show thesis using sliding_extends [OF leadingSystemCount_le _ tk, of k ?resp] k(3) that by blast
    qed
    have u: "list_ex (\<lambda>raw. role raw = ''user'') q"
      using k(1) unfolding q rawMessagesContainRole_def by (rule conjunct2)
    show ?thesis unfolding extends_branch_def cm nm [symmetric]
      using a u leadingSystemCount_le [of role ?req] by (metis (no_types))
  qed
qed

lemma matchBranchExtension_strict:
  assumes "current = requestMessages b @ responseMessages b @ rest" "rest \<noteq> []"
  shows "matchBranchExtension role current b = Some (length (requestMessages b) + length (responseMessages b), ''strict_prefix'')"
  using assms by (simp add: matchBranchExtension_def Let_def messagePrefixEqual_iff)

section \<open>Selection\<close>

definition matches :: "(string \<Rightarrow> string) \<Rightarrow> Scope \<Rightarrow> string list \<Rightarrow> branch \<Rightarrow> nat \<times> string \<Rightarrow> bool" where
  "matches role sc current b cm \<longleftrightarrow> \<not> busy b \<and> usable sc b \<and> matchBranchExtension role current b = Some cm"

lemma select_branch_spec:
  "case select_branch role sc current bs best of
     None \<Rightarrow> best = None \<and> (\<forall>b \<in> set bs. \<forall>cm. \<not> matches role sc current b cm)
   | Some (b, c, m) \<Rightarrow> (best = Some (b, c, m) \<or> b \<in> set bs \<and> matches role sc current b (c, m)) \<and>
       (\<forall>b' \<in> set bs. \<forall>c' m'. matches role sc current b' (c', m') \<longrightarrow> c' \<le> c) \<and>
       (\<forall>b0 c0 m0. best = Some (b0, c0, m0) \<longrightarrow> c0 \<le> c)"
proof (induction bs arbitrary: best)
  case Nil
  then show ?case by (auto split: option.splits)
next
  case (Cons x bs)
  show ?case
  proof (cases "busy x \<or> \<not> usable sc x \<or> matchBranchExtension role current x = None")
    case True
    then have step: "select_branch role sc current (x # bs) best = select_branch role sc current bs best"
      and "\<not> matches role sc current x cm" for cm by (auto simp: matches_def)
    then show ?thesis unfolding step using Cons.IH [of best] by (fastforce split: option.splits)
  next
    case False
    then obtain c m where cm: "matchBranchExtension role current x = Some (c, m)" "\<not> busy x" "usable sc x" by auto
    have mx: "matches role sc current x cm' \<longleftrightarrow> cm' = (c, m)" for cm' using cm by (auto simp: matches_def)
    let ?best' = "case best of Some (b0, c0, m0) \<Rightarrow> if c < c0 \<or> (c = c0 \<and> m0 = ''strict_prefix'') then best else Some (x, c, m)
       | None \<Rightarrow> Some (x, c, m)"
    have step: "select_branch role sc current (x # bs) best = select_branch role sc current bs ?best'"
      using cm by (auto split: option.splits)
    have b': "?best' = best \<and> (\<exists>b0 c0 m0. best = Some (b0, c0, m0) \<and> c \<le> c0) \<or>
        ?best' = Some (x, c, m) \<and> (\<forall>b0 c0 m0. best = Some (b0, c0, m0) \<longrightarrow> c0 \<le> c)"
      by (auto split: option.splits)
    from b' show ?thesis
    proof
      assume "?best' = best \<and> (\<exists>b0 c0 m0. best = Some (b0, c0, m0) \<and> c \<le> c0)"
      then show ?thesis unfolding step using Cons.IH [of best] mx by (fastforce split: option.splits)
    next
      assume "?best' = Some (x, c, m) \<and> (\<forall>b0 c0 m0. best = Some (b0, c0, m0) \<longrightarrow> c0 \<le> c)"
      then show ?thesis unfolding step using Cons.IH [of "Some (x, c, m)"] mx by (fastforce split: option.splits)
    qed
  qed
qed

section \<open>The store's invariant\<close>

definition branch_id :: "nat \<Rightarrow> string" where
  "branch_id n = ''inc-'' @ FormatInt (int n)"

lemma branch_id_inj: "branch_id m = branch_id n \<longleftrightarrow> m = n"
proof
  assume "branch_id m = branch_id n"
  then have "nat_digits m = nat_digits n" by (simp add: branch_id_def FormatInt_def del: nat_digits.simps)
  then have "int m = int n" by (metis digits_value_nat_digits)
  then show "m = n" by simp
qed simp

definition known_id :: "SessionStore \<Rightarrow> string \<Rightarrow> bool" where
  "known_id s i \<longleftrightarrow> (\<exists>n. 1 \<le> n \<and> n \<le> nextID s \<and> i = branch_id n)"

definition sessions_wf :: "SessionStore \<Rightarrow> bool" where
  "sessions_wf s \<longleftrightarrow> gm_wf (branches s) \<and> 1 \<le> maxBranches s \<and>
     (\<forall>key. length (branches_of s key) \<le> maxBranches s \<and> distinct (map branchID (branches_of s key)) \<and>
        (\<forall>b \<in> set (branches_of s key). known_id s (branchID b)))"

lemma branches_of_prune:
  assumes "gm_wf (branches s)"
  shows "branches_of (pruneLocked now s) key = filter (keep_branch (sessionTTL s) now) (branches_of s key)"
proof -
  let ?f = "filter (keep_branch (sessionTTL s) now)"
  let ?m = "map (\<lambda>(k, bs). (k, ?f bs)) (branches s)"
  have wf: "gm_wf ?m" using assms by (simp add: gm_wf_def case_prod_unfold comp_def)
  have "gm_get ?m key = map_option ?f (gm_get (branches s) key)" by (induction "branches s") (auto simp: map_of_map)
  then have "gm_get ?m key = map_option ?f (gm_get (branches s) key)" by simp
  then show ?thesis
    using gm_get_filter [OF wf, of "\<lambda>k bs. bs \<noteq> []" key]
    by (auto simp: branches_of_def pruneLocked_def split: option.splits)
qed

lemma gm_wf_prune: "gm_wf (branches s) \<Longrightarrow> gm_wf (branches (pruneLocked now s))"
  unfolding pruneLocked_def by (simp, intro gm_wf_filter) (simp add: gm_wf_def case_prod_unfold comp_def)

lemma prune_fields [simp]:
  "nextID (pruneLocked now s) = nextID s" "maxBranches (pruneLocked now s) = maxBranches s" "sessionTTL (pruneLocked now s) = sessionTTL s"
  by (simp_all add: pruneLocked_def)

lemma branches_of_map_branch:
  "branches_of (map_branch key bid f s) k = (if k = key then update_branch bid f (branches_of s k) else branches_of s k)"
proof -
  have "gm_get (map (\<lambda>(k, bs). (k, if k = key then update_branch bid f bs else bs)) m) k =
      map_option (\<lambda>bs. if k = key then update_branch bid f bs else bs) (gm_get m k)" for m
    by (induction m) auto
  then show ?thesis by (auto simp: branches_of_def map_branch_def split: option.splits)
qed

lemma map_branch_fields [simp]:
  "nextID (map_branch key bid f s) = nextID s" "maxBranches (map_branch key bid f s) = maxBranches s"
  "gm_wf (branches (map_branch key bid f s)) = gm_wf (branches s)"
  by (simp_all add: map_branch_def gm_wf_def case_prod_unfold comp_def)

lemma update_branch_ids: "(\<And>b. branchID (f b) = branchID b) \<Longrightarrow> map branchID (update_branch bid f bs) = map branchID bs"
  by (induction bs) auto

lemma update_branch_mem:
  "distinct (map branchID bs) \<Longrightarrow> (\<And>b. branchID (f b) = branchID b) \<Longrightarrow>
   b \<in> set (update_branch bid f bs) \<longleftrightarrow> (b \<in> set bs \<and> branchID b \<noteq> bid) \<or> (\<exists>b0 \<in> set bs. branchID b0 = bid \<and> b = f b0)"
  by (induction bs) (auto simp: image_iff)

lemma remove_branch_mem:
  "distinct (map branchID bs) \<Longrightarrow> b \<in> set (remove_branch bid bs) \<longleftrightarrow> b \<in> set bs \<and> branchID b \<noteq> bid"
  by (induction bs) (auto simp: image_iff)

lemma remove_branch_distinct: "distinct (map branchID bs) \<Longrightarrow> distinct (map branchID (remove_branch bid bs))"
proof (induction bs)
  case (Cons b bs)
  then show ?case using remove_branch_mem [of bs] by (auto simp: image_iff)
qed simp

lemma remove_branch_length: "length (remove_branch bid bs) \<le> length bs"
  by (induction bs) auto

lemma sessions_wf_prune: "sessions_wf s \<Longrightarrow> sessions_wf (pruneLocked now s)"
  using branches_of_prune [of s now]
  by (auto simp: sessions_wf_def gm_wf_prune known_id_def distinct_map_filter intro: order_trans [OF length_filter_le])

lemma sessions_wf_map_branch:
  assumes "sessions_wf s" "\<And>b. branchID (f b) = branchID b"
  shows "sessions_wf (map_branch key bid f s)"
proof -
  have ids: "map branchID (branches_of (map_branch key bid f s) k) = map branchID (branches_of s k)" for k
    by (simp add: branches_of_map_branch update_branch_ids [OF assms(2)])
  have "length (branches_of (map_branch key bid f s) k) = length (branches_of s k)"
    "branchID ` set (branches_of (map_branch key bid f s) k) = branchID ` set (branches_of s k)" for k
    using arg_cong [OF ids, of length k] arg_cong [OF ids, of set k] by (simp_all only: length_map list.set_map)
  moreover have "known_id (map_branch key bid f s) = known_id s" by (simp add: fun_eq_iff known_id_def)
  ultimately show ?thesis
    using assms(1) ids unfolding sessions_wf_def by (metis (no_types, opaque_lifting) imageE image_eqI map_branch_fields(2,3))
qed

lemma oldest_index_le: "i < length items \<Longrightarrow> oldest_index items i n < length items"
proof (induction n arbitrary: i)
  case (Suc n)
  then have "length items - Suc n < length items" by simp
  then show ?case using Suc by (simp add: Let_def)
qed simp

lemma evict_oldest_set: "set (evict_oldest n items) \<subseteq> set items"
  by (auto simp: evict_oldest_def Let_def dest: in_set_takeD in_set_dropD)

lemma evict_oldest_distinct: "distinct (map branchID items) \<Longrightarrow> distinct (map branchID (evict_oldest n items))"
proof -
  assume d: "distinct (map branchID items)"
  have "distinct (map branchID (take i items @ drop (Suc i) items))" for i
  proof -
    have "map branchID (take i items @ drop (Suc i) items) = take i (map branchID items) @ drop (Suc i) (map branchID items)"
      by (simp add: take_map drop_map)
    moreover have "set (take i (map branchID items)) \<inter> set (drop (Suc i) (map branchID items)) = {}"
      using d set_take_disj_set_drop_if_distinct [OF d, of i "Suc i"] by simp
    ultimately show ?thesis using d by (simp add: distinct_take distinct_drop)
  qed
  then show ?thesis using d by (simp add: evict_oldest_def Let_def)
qed

lemma evict_oldest_length:
  assumes "length items \<le> Suc n"
  shows "length (evict_oldest n items) \<le> n"
proof (cases "n < length items")
  case True
  then have "oldest_index items 0 (length items - 1) < length items" by (intro oldest_index_le) auto
  then show ?thesis using True assms by (simp add: evict_oldest_def Let_def)
qed (simp add: evict_oldest_def)

lemma branches_of_set:
  "branches_of (s\<lparr>nextID := n, branches := gm_set key bs (branches s)\<rparr>) k = (if k = key then bs else branches_of s k)"
  by (simp add: branches_of_def gm_get_set)

lemma branches_of_Invalidate:
  "branches_of (Invalidate l s) k = (if k = leaseKey l then remove_branch (leaseEntryID l) (branches_of s k) else branches_of s k)"
  by (auto simp: branches_of_def Invalidate_def Let_def gm_get_set gm_get_del)

lemma Invalidate_fields [simp]:
  "nextID (Invalidate l s) = nextID s" "maxBranches (Invalidate l s) = maxBranches s"
  "gm_wf (branches s) \<Longrightarrow> gm_wf (branches (Invalidate l s))"
  by (simp_all add: Invalidate_def Let_def)

lemma known_id_Invalidate [simp]: "known_id (Invalidate l s) = known_id s"
  by (simp add: known_id_def fun_eq_iff)

lemma sessions_wf_Invalidate:
  assumes "sessions_wf s"
  shows "sessions_wf (Invalidate l s)"
proof -
  have "length (remove_branch bid (branches_of s k)) \<le> maxBranches s" for bid k
    using assms remove_branch_length [of bid "branches_of s k"] by (auto simp: sessions_wf_def intro: order_trans)
  then show ?thesis
    using assms by (auto simp: sessions_wf_def branches_of_Invalidate remove_branch_distinct remove_branch_mem)
qed

text \<open>The branch a recorded exchange creates.\<close>

definition created_branch :: "time \<Rightarrow> Scope \<Rightarrow> string list \<Rightarrow> string list \<Rightarrow> string \<Rightarrow> int \<Rightarrow> SessionStore \<Rightarrow> branch" where
  "created_branch now sc req resp sid parent s = \<lparr>branchID = branch_id (Suc (nextID s)), scope = sc, sessionID = TrimSpace sid,
     parentMessageID = parent, requestMessages = req, responseMessages = resp, turns = 1, updatedAt = now, busy = False\<rparr>"

definition recordable :: "json_codec \<Rightarrow> Scope \<Rightarrow> json list \<Rightarrow> json list \<Rightarrow> string \<Rightarrow> int \<Rightarrow> bool" where
  "recordable cd sc reqs resps sid parent \<longleftrightarrow> validScope sc \<and> TrimSpace sid \<noteq> '''' \<and> 0 < parent \<and>
     canonicalMessages cd reqs \<notin> {None, Some []} \<and> canonicalMessages cd resps \<notin> {None, Some []}"

lemma Record_cases:
  obtains (ignored) "\<not> recordable cd sc reqs resps sid parent" "Record cd now sc reqs resps sid parent s = s"
  | (added) req resp where "recordable cd sc reqs resps sid parent"
      "canonicalMessages cd reqs = Some req" "canonicalMessages cd resps = Some resp" "req \<noteq> []" "resp \<noteq> []"
      "Record cd now sc reqs resps sid parent s = (pruneLocked now s)\<lparr>nextID := Suc (nextID s), branches :=
         gm_set (scopeKey sc) (evict_oldest (maxBranches s) (branches_of (pruneLocked now s) (scopeKey sc) @
           [created_branch now sc req resp sid parent s])) (branches (pruneLocked now s))\<rparr>"
proof (cases "recordable cd sc reqs resps sid parent")
  case False
  then consider "\<not> validScope sc \<or> TrimSpace sid = '''' \<or> \<not> 0 < parent" | "canonicalMessages cd reqs = None"
    | "canonicalMessages cd resps = None" | "canonicalMessages cd reqs = Some []" | "canonicalMessages cd resps = Some []"
    unfolding recordable_def by force
  then have "Record cd now sc reqs resps sid parent s = s"
    unfolding Record_def by cases (simp_all add: not_less split: option.split)
  with False that(1) show thesis by blast
next
  case True
  then obtain req resp where c: "canonicalMessages cd reqs = Some req" "canonicalMessages cd resps = Some resp" "req \<noteq> []" "resp \<noteq> []"
    by (auto simp: recordable_def)
  have "\<not> (\<not> validScope sc \<or> TrimSpace sid = '''' \<or> parent \<le> 0)" using True by (auto simp: recordable_def)
  then have "Record cd now sc reqs resps sid parent s = (pruneLocked now s)\<lparr>nextID := Suc (nextID s), branches :=
         gm_set (scopeKey sc) (evict_oldest (maxBranches s) (branches_of (pruneLocked now s) (scopeKey sc) @
           [created_branch now sc req resp sid parent s])) (branches (pruneLocked now s))\<rparr>"
    using c unfolding Record_def by (simp add: Let_def created_branch_def branch_id_def)
  with True c that(2) show thesis by blast
qed

lemma known_id_fresh: "\<not> known_id s (branch_id (Suc (nextID s)))"
  by (auto simp: known_id_def branch_id_inj)

lemma sessions_wf_add:
  assumes wf: "sessions_wf s" and b: "branchID b = branch_id (Suc (nextID s))"
  shows "sessions_wf (s\<lparr>nextID := Suc (nextID s), branches :=
     gm_set key (evict_oldest (maxBranches s) (branches_of s key @ [b])) (branches s)\<rparr>)" (is "sessions_wf ?s")
proof -
  have at: "branches_of ?s k = (if k = key then evict_oldest (maxBranches s) (branches_of s key @ [b]) else branches_of s k)" for k
    by (rule branches_of_set)
  have len: "length (branches_of s k) \<le> maxBranches s" and ids: "distinct (map branchID (branches_of s k))"
    and kn: "x \<in> set (branches_of s k) \<Longrightarrow> known_id s (branchID x)" for k x
    using wf by (auto simp: sessions_wf_def)
  have grow: "known_id s i \<Longrightarrow> known_id ?s i" for i unfolding known_id_def by (elim exE) (rule exI, auto)
  have new: "known_id ?s (branchID b)" unfolding known_id_def b by (rule exI [of _ "Suc (nextID s)"]) simp
  have wf': "gm_wf (branches ?s)" "1 \<le> maxBranches ?s" using wf by (simp_all add: sessions_wf_def)
  have "distinct (map branchID (branches_of s key @ [b]))"
    using ids [of key] kn [of _ key] known_id_fresh [of s] b by auto
  then have d: "distinct (map branchID (branches_of ?s k))" for k
    unfolding at using ids evict_oldest_distinct by simp
  have l: "length (branches_of ?s k) \<le> maxBranches ?s" for k
    unfolding at using len [of k] len [of key] by (auto intro!: evict_oldest_length)
  have "x \<in> set (branches_of ?s k) \<Longrightarrow> x = b \<or> (\<exists>k. x \<in> set (branches_of s k))" for x k
    unfolding at using evict_oldest_set [of "maxBranches s" "branches_of s key @ [b]"] by (auto split: if_splits)
  then have k: "x \<in> set (branches_of ?s k) \<Longrightarrow> known_id ?s (branchID x)" for x k
    using kn grow new by blast
  show ?thesis unfolding sessions_wf_def using wf' d l k by blast
qed

lemma sessions_wf_Record: "sessions_wf s \<Longrightarrow> sessions_wf (Record cd now sc reqs resps sid parent s)"
proof (cases rule: Record_cases [of cd sc reqs resps sid parent now s])
  case (added req resp)
  assume "sessions_wf s"
  then show ?thesis unfolding added(6)
    using sessions_wf_add [OF sessions_wf_prune, of s "created_branch now sc req resp sid parent s" now "scopeKey sc"]
    by (simp add: created_branch_def)
qed simp

lemma sessions_wf_Complete: "sessions_wf s \<Longrightarrow> sessions_wf (Complete cd now l sc reqs resps sid parent s)"
  unfolding Complete_def by (auto intro!: sessions_wf_Invalidate sessions_wf_map_branch split: option.split)

lemma sessions_wf_Release: "sessions_wf s \<Longrightarrow> sessions_wf (Lease_Release l s)"
  unfolding Lease_Release_def by (rule sessions_wf_map_branch) simp_all

lemma Prepare_cases:
  obtains (rejected) "PrepareWithMaxTurns cd now sc messages mt s = (None, s)" "\<not> validScope sc \<or> messages = [] \<or> canonicalMessages cd messages = None"
  | (missed) current where "PrepareWithMaxTurns cd now sc messages mt s = (None, pruneLocked now s)"
      "validScope sc" "canonicalMessages cd messages = Some current"
      "select_branch (canonicalMessageRole cd) sc current (branches_of (pruneLocked now s) (scopeKey sc)) None = None"
  | (leased) current b c m where "validScope sc" "canonicalMessages cd messages = Some current"
      "select_branch (canonicalMessageRole cd) sc current (branches_of (pruneLocked now s) (scopeKey sc)) None = Some (b, c, m)"
      "PrepareWithMaxTurns cd now sc messages mt s =
         (Some \<lparr>leaseKey = scopeKey sc, leaseEntryID = branchID b, SessionID = sessionID b, ParentMessageID = parentMessageID b,
            DeltaMessages = cloneAnyMessages cd (drop c messages), TurnCount = turns b, Rotate = (0 < mt \<and> mt \<le> turns b), MatchMode = m\<rparr>,
          map_branch (scopeKey sc) (branchID b) (\<lambda>b. b\<lparr>busy := True\<rparr>) (pruneLocked now s))"
proof (cases "\<not> validScope sc \<or> messages = [] \<or> canonicalMessages cd messages = None")
  case True
  then show thesis by (intro rejected) (auto simp: PrepareWithMaxTurns_def)
next
  case False
  then obtain current where c: "validScope sc" "messages \<noteq> []" "canonicalMessages cd messages = Some current" by auto
  show thesis
  proof (cases "select_branch (canonicalMessageRole cd) sc current (branches_of (pruneLocked now s) (scopeKey sc)) None")
    case None
    then show thesis using c by (intro missed) (simp_all add: PrepareWithMaxTurns_def Let_def)
  next
    case (Some x)
    then show thesis using c by (cases x) (intro leased, simp_all add: PrepareWithMaxTurns_def Let_def)
  qed
qed

lemma selected_branch:
  assumes "select_branch role sc current bs None = Some (b, c, m)"
  shows "b \<in> set bs" "matches role sc current b (c, m)"
  using select_branch_spec [where role = role and sc = sc and current = current and bs = bs and best = None] assms by auto

lemma sessions_wf_Prepare: "sessions_wf s \<Longrightarrow> sessions_wf (snd (PrepareWithMaxTurns cd now sc messages mt s))"
  by (cases rule: Prepare_cases [of cd now sc messages mt s]) (simp_all add: sessions_wf_prune sessions_wf_map_branch)

section \<open>Leases in flight\<close>

text \<open>
  All the requests sharing one store: each call is one critical section, and a lease is ended once, by
  \<^verbatim>\<open>Complete\<close>, \<^verbatim>\<open>Invalidate\<close> or \<^verbatim>\<open>Release\<close>. The second argument lists the leases not yet ended.
\<close>

inductive lease_run :: "json_codec \<Rightarrow> SessionStore \<Rightarrow> Lease list \<Rightarrow> bool" for cd where
  start: "lease_run cd (NewStore ttl n) []"
| grant: "lease_run cd s ls \<Longrightarrow> PrepareWithMaxTurns cd now sc messages mt s = (Some l, s') \<Longrightarrow> lease_run cd s' (l # ls)"
| miss: "lease_run cd s ls \<Longrightarrow> PrepareWithMaxTurns cd now sc messages mt s = (None, s') \<Longrightarrow> lease_run cd s' ls"
| diagnose: "lease_run cd s ls \<Longrightarrow> lease_run cd (snd (Diagnose cd now sc messages s)) ls"
| recorded: "lease_run cd s ls \<Longrightarrow> lease_run cd (Record cd now sc reqs resps sid parent s) ls"
| complete: "lease_run cd s ls \<Longrightarrow> l \<in> set ls \<Longrightarrow> lease_run cd (Complete cd now l sc reqs resps sid parent s) (remove1 l ls)"
| invalidate: "lease_run cd s ls \<Longrightarrow> l \<in> set ls \<Longrightarrow> lease_run cd (Invalidate l s) (remove1 l ls)"
| release: "lease_run cd s ls \<Longrightarrow> l \<in> set ls \<Longrightarrow> lease_run cd (Lease_Release l s) (remove1 l ls)"

definition lease_ref :: "Lease \<Rightarrow> string \<times> string" where
  "lease_ref l = (leaseKey l, leaseEntryID l)"

definition leases_inv :: "SessionStore \<Rightarrow> Lease list \<Rightarrow> bool" where
  "leases_inv s ls \<longleftrightarrow> sessions_wf s \<and> distinct (map lease_ref ls) \<and> (\<forall>l \<in> set ls. known_id s (leaseEntryID l)) \<and>
     (\<forall>key. \<forall>b \<in> set (branches_of s key). busy b \<longleftrightarrow> (key, branchID b) \<in> lease_ref ` set ls)"

text \<open>An operation that only drops branches keeps the invariant.\<close>

lemma leases_inv_fewer:
  assumes "leases_inv s ls" "sessions_wf s'" "nextID s' = nextID s" "\<And>key. set (branches_of s' key) \<subseteq> set (branches_of s key)"
  shows "leases_inv s' ls"
  using assms unfolding leases_inv_def known_id_def by (metis subsetD)

lemma leases_inv_prune: "leases_inv s ls \<Longrightarrow> leases_inv (pruneLocked now s) ls"
  by (rule leases_inv_fewer) (auto simp: leases_inv_def sessions_wf_prune branches_of_prune sessions_wf_def [of s])

lemma leases_inv_grant:
  assumes inv: "leases_inv s ls" and b: "b \<in> set (branches_of s key)" "\<not> busy b"
    and l: "lease_ref l = (key, branchID b)"
  shows "leases_inv (map_branch key (branchID b) (\<lambda>b. b\<lparr>busy := True\<rparr>) s) (l # ls)" (is "leases_inv ?s _")
proof -
  have wf: "sessions_wf ?s" using inv by (intro sessions_wf_map_branch) (auto simp: leases_inv_def)
  have d: "distinct (map branchID (branches_of s k))" for k using inv by (auto simp: leases_inv_def sessions_wf_def)
  have fresh: "lease_ref l \<notin> lease_ref ` set ls" using inv b l by (auto simp: leases_inv_def)
  have kn: "known_id ?s i = known_id s i" for i by (simp add: known_id_def)
  have lk: "known_id s (leaseEntryID l)" using inv b l by (auto simp: leases_inv_def sessions_wf_def lease_ref_def)
  have "busy x \<longleftrightarrow> (k, branchID x) \<in> lease_ref ` set (l # ls)" if x: "x \<in> set (branches_of ?s k)" for k x
  proof (cases "k = key")
    case True
    then consider "x \<in> set (branches_of s key)" "branchID x \<noteq> branchID b" |
      b0 where "b0 \<in> set (branches_of s key)" "branchID b0 = branchID b" "x = b0\<lparr>busy := True\<rparr>"
      using x update_branch_mem [OF d, of "\<lambda>b. b\<lparr>busy := True\<rparr>" x "branchID b" key]
      by (auto simp: branches_of_map_branch)
    then show ?thesis using True inv l by cases (auto simp: leases_inv_def)
  next
    case False
    then have "x \<in> set (branches_of s k)" using that by (simp add: branches_of_map_branch)
    then show ?thesis using inv l False by (auto simp: leases_inv_def)
  qed
  then show ?thesis using wf inv fresh kn lk by (simp add: leases_inv_def)
qed

lemma map_branch_known [simp]: "known_id (map_branch key bid f s) = known_id s"
  by (simp add: known_id_def fun_eq_iff)

text \<open>Ending a lease: the branch is gone or idle, every other branch and lease is untouched.\<close>

lemma leases_inv_end:
  assumes inv: "leases_inv s ls" and l: "l \<in> set ls" and wf: "sessions_wf s'" and n: "nextID s' = nextID s"
    and same: "\<And>k x. x \<in> set (branches_of s' k) \<Longrightarrow> (k, branchID x) \<noteq> lease_ref l \<Longrightarrow> x \<in> set (branches_of s k)"
    and idle: "\<And>k x. x \<in> set (branches_of s' k) \<Longrightarrow> (k, branchID x) = lease_ref l \<Longrightarrow> \<not> busy x"
  shows "leases_inv s' (remove1 l ls)"
proof -
  have d: "distinct (map lease_ref ls)" and dl: "distinct ls" using inv by (auto simp: leases_inv_def distinct_map)
  have sub: "set (remove1 l ls) = set ls - {l}" using dl by (rule set_remove1_eq)
  have refs: "lease_ref ` set (remove1 l ls) = lease_ref ` set ls - {lease_ref l}"
    using d l unfolding sub by (auto simp: distinct_map inj_on_def)
  have "distinct (map lease_ref (remove1 l ls))" using d dl unfolding distinct_map sub by (auto intro: inj_on_subset)
  moreover have "busy x \<longleftrightarrow> (k, branchID x) \<in> lease_ref ` set (remove1 l ls)" if x: "x \<in> set (branches_of s' k)" for k x
    using same [OF x] idle [OF x] inv unfolding refs by (auto simp: leases_inv_def)
  moreover have "known_id s' i = known_id s i" for i by (simp add: known_id_def n)
  ultimately show ?thesis using wf inv unfolding leases_inv_def sub by auto
qed

lemma leases_inv_Invalidate:
  assumes inv: "leases_inv s ls" and l: "l \<in> set ls"
  shows "leases_inv (Invalidate l s) (remove1 l ls)"
proof (rule leases_inv_end [OF inv l])
  have d: "distinct (map branchID (branches_of s k))" for k using inv by (auto simp: leases_inv_def sessions_wf_def)
  show "sessions_wf (Invalidate l s)" using inv by (auto simp: leases_inv_def intro: sessions_wf_Invalidate)
  show "x \<in> set (branches_of s k)" if "x \<in> set (branches_of (Invalidate l s) k)" for k x
    using that remove_branch_mem [OF d] by (auto simp: branches_of_Invalidate split: if_splits)
  show "\<not> busy x" if "x \<in> set (branches_of (Invalidate l s) k)" "(k, branchID x) = lease_ref l" for k x
    using that remove_branch_mem [OF d] by (auto simp: branches_of_Invalidate lease_ref_def split: if_splits)
qed simp

lemma leases_inv_map_branch:
  assumes inv: "leases_inv s ls" and l: "l \<in> set ls" and f: "\<And>b. branchID (f b) = branchID b" "\<And>b. \<not> busy (f b)"
  shows "leases_inv (map_branch (leaseKey l) (leaseEntryID l) f s) (remove1 l ls)" (is "leases_inv ?s _")
proof (rule leases_inv_end [OF inv l])
  have d: "distinct (map branchID (branches_of s k))" for k using inv by (auto simp: leases_inv_def sessions_wf_def)
  have mem: "x \<in> set (branches_of ?s k) \<Longrightarrow> k = leaseKey l \<and> branchID x = leaseEntryID l \<and> \<not> busy x \<or>
      (k, branchID x) \<noteq> lease_ref l \<and> x \<in> set (branches_of s k)" for x k
    using update_branch_mem [OF d f(1), of x "leaseEntryID l" k] f
    by (auto simp: branches_of_map_branch lease_ref_def split: if_splits)
  show "sessions_wf ?s" using inv f(1) by (auto simp: leases_inv_def intro: sessions_wf_map_branch)
  show "x \<in> set (branches_of s k)" if "x \<in> set (branches_of ?s k)" "(k, branchID x) \<noteq> lease_ref l" for k x
    using mem [OF that(1)] that(2) by (auto simp: lease_ref_def)
  show "\<not> busy x" if "x \<in> set (branches_of ?s k)" "(k, branchID x) = lease_ref l" for k x
    using mem [OF that(1)] that(2) by auto
qed simp

lemma leases_inv_Complete:
  "leases_inv s ls \<Longrightarrow> l \<in> set ls \<Longrightarrow> leases_inv (Complete cd now l sc reqs resps sid parent s) (remove1 l ls)"
  unfolding Complete_def by (auto intro!: leases_inv_Invalidate leases_inv_map_branch split: option.split)

lemma leases_inv_Record:
  assumes inv: "leases_inv s ls"
  shows "leases_inv (Record cd now sc reqs resps sid parent s) ls" (is "leases_inv ?s ls")
proof (cases rule: Record_cases [of cd sc reqs resps sid parent now s])
  case ignored
  then show ?thesis using inv by simp
next
  case (added req resp)
  let ?p = "pruneLocked now s" and ?b = "created_branch now sc req resp sid parent s"
  have invp: "leases_inv ?p ls" using inv by (rule leases_inv_prune)
  have mem: "x = ?b \<or> x \<in> set (branches_of ?p k)" if "x \<in> set (branches_of ?s k)" for x k
    using that evict_oldest_set [of "maxBranches s" "branches_of ?p (scopeKey sc) @ [?b]"]
    unfolding added(6) branches_of_set by (auto split: if_splits)
  have b: "branchID ?b = branch_id (Suc (nextID s))" "\<not> busy ?b" by (simp_all add: created_branch_def)
  have fresh: "(k, branchID ?b) \<notin> lease_ref ` set ls" for k
    using inv known_id_fresh [of s] unfolding b(1) by (auto simp: leases_inv_def lease_ref_def)
  have "busy x \<longleftrightarrow> (k, branchID x) \<in> lease_ref ` set ls" if "x \<in> set (branches_of ?s k)" for k x
    using mem [OF that] b(2) fresh invp by (auto simp: leases_inv_def)
  moreover have "known_id s i \<Longrightarrow> known_id ?s i" for i unfolding known_id_def added(6) by (auto intro: le_SucI)
  ultimately show ?thesis using inv sessions_wf_Record [of s cd now sc reqs resps sid parent] by (auto simp: leases_inv_def)
qed

lemma leases_inv_NewStore: "leases_inv (NewStore ttl n) []"
  by (auto simp: leases_inv_def sessions_wf_def NewStore_def branches_of_def defaultMaxBranches_def)

lemma leases_inv_run: "lease_run cd s ls \<Longrightarrow> leases_inv s ls"
proof (induction rule: lease_run.induct)
  case (start ttl n)
  show ?case by (rule leases_inv_NewStore)
next
  case (grant s ls now sc messages mt l s')
  then obtain current b c m where sel: "select_branch (canonicalMessageRole cd) sc current (branches_of (pruneLocked now s) (scopeKey sc)) None = Some (b, c, m)"
    and l: "lease_ref l = (scopeKey sc, branchID b)" and s': "s' = map_branch (scopeKey sc) (branchID b) (\<lambda>b. b\<lparr>busy := True\<rparr>) (pruneLocked now s)"
    by (cases rule: Prepare_cases [of cd now sc messages mt s]) (auto simp: lease_ref_def)
  show ?case unfolding s' using leases_inv_prune [OF grant.IH] selected_branch [OF sel] l
    by (intro leases_inv_grant) (auto simp: matches_def)
next
  case (miss s ls now sc messages mt s')
  then show ?case by (cases rule: Prepare_cases [of cd now sc messages mt s]) (auto intro: leases_inv_prune)
next
  case (diagnose s ls now sc messages)
  then show ?case by (auto simp: Diagnose_def Let_def split: option.split intro: leases_inv_prune)
qed (auto simp: Lease_Release_def intro: leases_inv_Record leases_inv_Complete leases_inv_Invalidate intro!: leases_inv_map_branch)

section \<open>Properties\<close>

lemma canonicalMessages_length: "canonicalMessages cd ms = Some cs \<Longrightarrow> length cs = length ms"
  unfolding canonicalMessages_def by (induction ms arbitrary: cs) (auto split: option.splits)

lemma prune_mem:
  "sessions_wf s \<Longrightarrow> b \<in> set (branches_of (pruneLocked now s) key) \<longleftrightarrow> b \<in> set (branches_of s key) \<and> keep_branch (sessionTTL s) now b"
  by (auto simp: branches_of_prune sessions_wf_def)

text \<open>C16: in every history of the store, a lease that \<^verbatim>\<open>PrepareWithMaxTurns\<close> hands out comes from an idle,
  unexpired branch of exactly the caller's scope which the request's canonical messages extend (strictly,
  or after dropping old turns); the lease carries that branch's upstream session and message id, and its
  delta is the nonempty rest of the request after the matched messages.\<close>

theorem prepare_sound:
  assumes "lease_run cd s ls" "PrepareWithMaxTurns cd now sc messages maxTurns s = (Some l, s')"
  shows "\<exists>current b c. canonicalMessages cd messages = Some current \<and> b \<in> set (branches_of s (scopeKey sc)) \<and>
    scope b = sc \<and> \<not> busy b \<and> now - updatedAt b \<le> sessionTTL s \<and>
    extends_branch (canonicalMessageRole cd) current b c (MatchMode l) \<and>
    SessionID l = sessionID b \<and> ParentMessageID l = parentMessageID b \<and> 0 < ParentMessageID l \<and>
    DeltaMessages l = cloneAnyMessages cd (drop c messages) \<and> drop c messages \<noteq> [] \<and>
    (Rotate l \<longleftrightarrow> 0 < maxTurns \<and> maxTurns \<le> turns b)"
proof -
  have wf: "sessions_wf s" using leases_inv_run [OF assms(1)] by (simp add: leases_inv_def)
  from assms(2) obtain current b c m where cur: "canonicalMessages cd messages = Some current"
    and sel: "select_branch (canonicalMessageRole cd) sc current (branches_of (pruneLocked now s) (scopeKey sc)) None = Some (b, c, m)"
    and l: "l = \<lparr>leaseKey = scopeKey sc, leaseEntryID = branchID b, SessionID = sessionID b, ParentMessageID = parentMessageID b,
            DeltaMessages = cloneAnyMessages cd (drop c messages), TurnCount = turns b,
            Rotate = (0 < maxTurns \<and> maxTurns \<le> turns b), MatchMode = m\<rparr>"
    by (cases rule: Prepare_cases [of cd now sc messages maxTurns s]) auto
  have b: "b \<in> set (branches_of s (scopeKey sc))" "keep_branch (sessionTTL s) now b"
    using selected_branch(1) [OF sel] prune_mem [OF wf] by auto
  have m: "\<not> busy b" "usable sc b" "matchBranchExtension (canonicalMessageRole cd) current b = Some (c, m)"
    using selected_branch(2) [OF sel] by (auto simp: matches_def)
  have ext: "extends_branch (canonicalMessageRole cd) current b c m" using m(3) by (rule matchBranchExtension_sound)
  then have "c < length messages" using canonicalMessages_length [OF cur] by (simp add: extends_branch_def)
  then show ?thesis using cur b m ext l by (intro exI [of _ current] exI [of _ b] exI [of _ c]) (auto simp: usable_def keep_branch_def)
qed

text \<open>C3: however the calls of concurrent requests interleave, no two unfinished leases are on the same
  branch, a branch is marked busy exactly while an unfinished lease holds it (so none stays blocked), and
  no scope keeps more branches than the limit.\<close>

theorem leases_exclusive:
  assumes "lease_run cd s ls"
  shows "distinct (map (\<lambda>l. (leaseKey l, leaseEntryID l)) ls) \<and>
    (\<forall>key. \<forall>b \<in> set (branches_of s key). busy b \<longleftrightarrow> (\<exists>l \<in> set ls. leaseKey l = key \<and> leaseEntryID l = branchID b)) \<and>
    (\<forall>key. length (branches_of s key) \<le> maxBranches s \<and> distinct (map branchID (branches_of s key)))"
proof -
  have inv: "leases_inv s ls" using assms by (rule leases_inv_run)
  have "lease_ref = (\<lambda>l. (leaseKey l, leaseEntryID l))" by (simp add: fun_eq_iff lease_ref_def)
  then have "distinct (map (\<lambda>l. (leaseKey l, leaseEntryID l)) ls)" using inv by (auto simp: leases_inv_def)
  moreover have "busy b \<longleftrightarrow> (\<exists>l \<in> set ls. leaseKey l = key \<and> leaseEntryID l = branchID b)" if "b \<in> set (branches_of s key)" for key b
    using inv that by (auto simp: leases_inv_def lease_ref_def)
  moreover have "length (branches_of s key) \<le> maxBranches s \<and> distinct (map branchID (branches_of s key))" for key
    using inv by (auto simp: leases_inv_def sessions_wf_def)
  ultimately show ?thesis by blast
qed

section \<open>Recording and finding again\<close>

lemma oldest_index_not_last:
  assumes "i < j" "\<forall>x \<in> set items. updatedAt x \<le> updatedAt (items ! j)" "Suc j = length items" "Suc n \<le> length items"
  shows "oldest_index items i n < j \<or> (n = 0 \<and> oldest_index items i n = i)"
  using assms
proof (induction n arbitrary: i)
  case (Suc n)
  let ?k = "length items - Suc n"
  have "\<not> updatedAt (items ! j) < updatedAt (items ! i)" using Suc.prems by (simp add: not_less)
  then have "(if updatedAt (items ! ?k) < updatedAt (items ! i) then ?k else i) < j"
    using Suc.prems by (cases "?k = j") auto
  then show ?case using Suc.IH [of "if updatedAt (items ! ?k) < updatedAt (items ! i) then ?k else i"] Suc.prems
    by (auto simp: Let_def)
qed simp

lemma evict_keeps_newest:
  assumes n: "1 \<le> n" and newest: "\<forall>x \<in> set items. updatedAt x \<le> updatedAt b"
  shows "b \<in> set (evict_oldest n (items @ [b]))"
proof (cases "n < length (items @ [b])")
  case True
  let ?items = "items @ [b]"
  have "items \<noteq> []" using True n by auto
  then have "oldest_index ?items 0 (length ?items - 1) < length items"
    using oldest_index_not_last [of 0 "length items" ?items "length ?items - 1"] newest True n by auto
  then have "drop (Suc (oldest_index ?items 0 (length ?items - 1))) ?items \<noteq> []"
    "last (drop (Suc (oldest_index ?items 0 (length ?items - 1))) ?items) = b" by auto
  then have "b \<in> set (drop (Suc (oldest_index ?items 0 (length ?items - 1))) ?items)" by (metis last_in_set)
  then show ?thesis using True by (simp add: evict_oldest_def Let_def)
qed (simp add: evict_oldest_def)

lemma canonicalMessages_append:
  "canonicalMessages cd (xs @ ys) = (case (canonicalMessages cd xs, canonicalMessages cd ys) of (Some a, Some b) \<Rightarrow> Some (a @ b) | _ \<Rightarrow> None)"
  unfolding canonicalMessages_def by (induction xs) (auto split: option.splits)

lemma canonicalMessages_Nil_iff: "canonicalMessages cd ms = Some [] \<longleftrightarrow> ms = []"
  using canonicalMessages_length [of cd ms "[]"] by (auto simp: canonicalMessages_def)

text \<open>C29: an exchange that was recorded is found again by the request that continues it, within the time to
  live and with a clock that does not run backwards: \<^verbatim>\<open>Prepare\<close> succeeds and sends at most the new messages;
  when the scope had no other branch it continues exactly the recorded upstream session.\<close>

theorem record_then_prepare:
  assumes run: "lease_run cd s ls" and rec: "recordable cd sc reqs resps sid parent"
    and clock: "\<forall>b \<in> set (branches_of s (scopeKey sc)). updatedAt b \<le> now" and ttl: "later - now \<le> sessionTTL s"
    and new: "news \<noteq> []" "canonicalMessages cd news \<noteq> None"
  shows "\<exists>l s' c. Prepare cd later sc (reqs @ resps @ news) (Record cd now sc reqs resps sid parent s) = (Some l, s') \<and>
    length reqs + length resps \<le> c \<and> DeltaMessages l = cloneAnyMessages cd (drop c (reqs @ resps @ news)) \<and>
    (branches_of s (scopeKey sc) = [] \<longrightarrow>
       c = length reqs + length resps \<and> SessionID l = TrimSpace sid \<and> ParentMessageID l = parent \<and> MatchMode l = ''strict_prefix'')"
proof (cases rule: Record_cases [of cd sc reqs resps sid parent now s])
  case ignored
  then show ?thesis using rec by simp
next
  case (added req resp)
  let ?b = "created_branch now sc req resp sid parent s" and ?s = "Record cd now sc reqs resps sid parent s" and ?key = "scopeKey sc"
  let ?role = "canonicalMessageRole cd"
  have inv: "leases_inv s ls" using run by (rule leases_inv_run)
  then have wf: "sessions_wf s" by (simp add: leases_inv_def)
  have wfr: "sessions_wf ?s" using wf by (rule sessions_wf_Record)
  have ttl': "sessionTTL ?s = sessionTTL s" unfolding added(6) by simp
  obtain fresh where f: "canonicalMessages cd news = Some fresh" "fresh \<noteq> []" using new canonicalMessages_Nil_iff by fastforce
  have cur: "canonicalMessages cd (reqs @ resps @ news) = Some (req @ resp @ fresh)"
    using added(2,3) f by (simp add: canonicalMessages_append)
  have len: "length reqs = length req" "length resps = length resp" using added(2,3) canonicalMessages_length by fastforce+
  have at: "branches_of ?s ?key = evict_oldest (maxBranches s) (branches_of (pruneLocked now s) ?key @ [?b])"
    unfolding added(6) branches_of_set by simp
  have "?b \<in> set (branches_of ?s ?key)"
    unfolding at using clock wf by (intro evict_keeps_newest) (auto simp: prune_mem sessions_wf_def [of s] created_branch_def)
  moreover have "keep_branch (sessionTTL ?s) later ?b" using ttl ttl' by (simp add: keep_branch_def created_branch_def)
  ultimately have bin: "?b \<in> set (branches_of (pruneLocked later ?s) ?key)" using prune_mem [OF wfr] by blast
  have mb: "matches ?role sc (req @ resp @ fresh) ?b (length req + length resp, ''strict_prefix'')"
    using rec f(2) matchBranchExtension_strict [of "req @ resp @ fresh" ?b fresh ?role]
    by (simp add: matches_def usable_def created_branch_def recordable_def)
  let ?sel = "select_branch ?role sc (req @ resp @ fresh) (branches_of (pruneLocked later ?s) ?key) None"
  obtain b c m where sel: "?sel = Some (b, c, m)" and best: "length req + length resp \<le> c"
    using select_branch_spec [where role = ?role and sc = sc and current = "req @ resp @ fresh" and
        bs = "branches_of (pruneLocked later ?s) ?key" and best = None] bin mb by (cases ?sel) fastforce+
  have "b = ?b \<and> c = length req + length resp \<and> m = ''strict_prefix''" if "branches_of s ?key = []"
  proof -
    have "branches_of (pruneLocked now s) ?key = []" using that wf by (simp add: branches_of_prune sessions_wf_def)
    then have "set (branches_of ?s ?key) \<subseteq> {?b}" unfolding at using evict_oldest_set [of "maxBranches s" "[?b]"] by simp
    then have "b = ?b" using selected_branch(1) [OF sel] prune_mem [OF wfr] by blast
    then show ?thesis using selected_branch(2) [OF sel] mb by (simp add: matches_def)
  qed
  moreover have "validScope sc" "reqs @ resps @ news \<noteq> []" using rec new by (auto simp: recordable_def)
  ultimately show ?thesis
    using sel best cur len unfolding Prepare_def PrepareWithMaxTurns_def by (auto simp: Let_def created_branch_def)
qed

section \<open>Diagnostics\<close>

lemma note_counts [simp]:
  "Branches (note_sliding cd sl d) = Branches d" "Busy (note_sliding cd sl d) = Busy d"
  "Extendable (note_sliding cd sl d) = Extendable d" "NotExtendable (note_sliding cd sl d) = NotExtendable d"
  "RequestPrefixMismatch (note_sliding cd sl d) = RequestPrefixMismatch d"
  "ResponsePrefixMismatch (note_sliding cd sl d) = ResponsePrefixMismatch d"
  "SlidingSuffixMatches (note_sliding cd sl d) = SlidingSuffixMatches d"
  "Branches (note_response_mismatch cd cur b d) = Branches d" "Busy (note_response_mismatch cd cur b d) = Busy d"
  "Extendable (note_response_mismatch cd cur b d) = Extendable d" "NotExtendable (note_response_mismatch cd cur b d) = NotExtendable d"
  "RequestPrefixMismatch (note_response_mismatch cd cur b d) = RequestPrefixMismatch d"
  "ResponsePrefixMismatch (note_response_mismatch cd cur b d) = ResponsePrefixMismatch d"
  "SlidingSuffixMatches (note_response_mismatch cd cur b d) = SlidingSuffixMatches d"
  by (auto simp: note_sliding_def note_response_mismatch_def split: option.split)

definition diag_counted :: "MatchDiagnostics \<Rightarrow> bool" where
  "diag_counted d \<longleftrightarrow> Branches d = Busy d + Extendable d + NotExtendable d + RequestPrefixMismatch d + ResponsePrefixMismatch d \<and>
     SlidingSuffixMatches d \<le> Extendable d"

lemma unmatched_reason:
  "matchBranchExtension role current b = None \<Longrightarrow> length (requestMessages b) + length (responseMessages b) < length current \<Longrightarrow>
   messagePrefixEqual current (requestMessages b) 0 \<Longrightarrow> \<not> messagePrefixEqual current (responseMessages b) (length (requestMessages b))"
  by (auto simp: matchBranchExtension_def Let_def)

lemma diag_counted_branch: "diag_counted d \<Longrightarrow> diag_counted (diagnose_branch cd sc current b d)"
  using unmatched_reason [of "canonicalMessageRole cd" current b]
  by (auto simp: diag_counted_def diagnose_branch_def Let_def not_le split: option.split)

lemma diag_counted_fold: "diag_counted d \<Longrightarrow> diag_counted (fold (diagnose_branch cd sc current) bs d)"
  by (induction bs arbitrary: d) (auto simp: diag_counted_branch)

lemma diagnose_branch_extendable:
  "Extendable (diagnose_branch cd sc current b d) =
     Extendable d + (if \<exists>cm. matches (canonicalMessageRole cd) sc current b cm then 1 else 0)"
  by (auto simp: diagnose_branch_def Let_def matches_def split: option.split)

lemma fold_extendable:
  "0 < Extendable (fold (diagnose_branch cd sc current) bs d) \<longleftrightarrow>
     0 < Extendable d \<or> (\<exists>b \<in> set bs. \<exists>cm. matches (canonicalMessageRole cd) sc current b cm)"
  by (induction bs arbitrary: d) (auto simp: diagnose_branch_extendable)

lemma fold_extendable_zero:
  "Extendable (fold (diagnose_branch cd sc current) bs d) = 0 \<longleftrightarrow>
     Extendable d = 0 \<and> \<not> (\<exists>b \<in> set bs. \<exists>cm. matches (canonicalMessageRole cd) sc current b cm)"
  using fold_extendable [of cd sc current bs d] unfolding neq0_conv [symmetric] by blast

lemma select_branch_None_iff:
  "select_branch role sc current bs None = None \<longleftrightarrow> \<not> (\<exists>b \<in> set bs. \<exists>cm. matches role sc current b cm)"
proof (cases "select_branch role sc current bs None")
  case None
  then show ?thesis using select_branch_spec [where role = role and sc = sc and current = current and bs = bs and best = None] by auto
next
  case (Some x)
  obtain b c m where x: "x = (b, c, m)" by (cases x)
  show ?thesis using Some selected_branch [OF Some [unfolded x]] by auto
qed


section \<open>Witnesses\<close>

text \<open>A codec for messages that are plain strings, and a list of one such message.\<close>

fun sample_encode :: json_encoder where
  "sample_encode (JStr t) = Some t"
| "sample_encode (JArr [JStr t]) = Some (CHR ''['' # t)"
| "sample_encode _ = None"

definition sample_decode :: json_decoder where
  "sample_decode t = (case t of CHR ''['' # u \<Rightarrow> Some (JArr [JStr u]) | _ \<Rightarrow> Some (JStr t))"

definition sample_codec :: json_codec where
  "sample_codec = \<lparr>encode = sample_encode, decode = sample_decode, lowerTable = (\<lambda>r. r), sha = (\<lambda>t. t)\<rparr>"

definition sample_scope :: Scope where
  "sample_scope = \<lparr>ScopeCallerID = ''c'', ScopeSessionKey = ''k'', ScopeAccountID = ''a'', ScopeSurface = ''s'', ScopeVariant = ''v''\<rparr>"

definition sample_store :: SessionStore where
  "sample_store = Record sample_codec 5 sample_scope [JStr ''hi''] [JStr ''yo''] ''u1'' 2 (NewStore 10 1)"

lemma sample_valid: "validScope sample_scope"
  by code_simp

lemma sample_prepare:
  "Prepare sample_codec 9 sample_scope [JStr ''hi'', JStr ''yo'', JStr ''go''] sample_store =
     (Some \<lparr>leaseKey = scopeKey sample_scope, leaseEntryID = ''inc-1'', SessionID = ''u1'', ParentMessageID = 2,
        DeltaMessages = [JStr ''go''], TurnCount = 1, Rotate = False, MatchMode = ''strict_prefix''\<rparr>,
      sample_store\<lparr>branches := [(scopeKey sample_scope, [\<lparr>branchID = ''inc-1'', scope = sample_scope, sessionID = ''u1'', parentMessageID = 2,
         requestMessages = [''hi''], responseMessages = [''yo''], turns = 1, updatedAt = 5, busy = True\<rparr>])]\<rparr>)"
  by code_simp

lemma sample_run: "lease_run sample_codec sample_store []"
  unfolding sample_store_def by (intro lease_run.recorded lease_run.start)

definition sample_leased :: "Lease \<times> SessionStore" where
  "sample_leased = (case Prepare sample_codec 9 sample_scope [JStr ''hi'', JStr ''yo'', JStr ''go''] sample_store of
     (Some l, s) \<Rightarrow> (l, s) | (None, s) \<Rightarrow> (undefined, s))"

lemma sample_leased_eq:
  "PrepareWithMaxTurns sample_codec 9 sample_scope [JStr ''hi'', JStr ''yo'', JStr ''go''] 0 sample_store =
     (Some (fst sample_leased), snd sample_leased)"
  using sample_prepare by (simp add: sample_leased_def Prepare_def)

theorem prepare_sound_witness:
  "\<exists>current b c. canonicalMessages sample_codec [JStr ''hi'', JStr ''yo'', JStr ''go''] = Some current \<and>
     b \<in> set (branches_of sample_store (scopeKey sample_scope)) \<and>
     extends_branch (canonicalMessageRole sample_codec) current b c (MatchMode (fst sample_leased)) \<and>
     DeltaMessages (fst sample_leased) = cloneAnyMessages sample_codec (drop c [JStr ''hi'', JStr ''yo'', JStr ''go''])"
  using prepare_sound [OF sample_run sample_leased_eq] by blast

theorem leases_exclusive_witness:
  "distinct (map (\<lambda>l. (leaseKey l, leaseEntryID l)) [fst sample_leased]) \<and>
   (\<forall>key. length (branches_of (snd sample_leased) key) \<le> maxBranches (snd sample_leased))"
  using leases_exclusive [OF lease_run.grant [OF sample_run sample_leased_eq]] by blast

theorem record_then_prepare_witness:
  "\<exists>l s' c. Prepare sample_codec 9 sample_scope ([JStr ''hi''] @ [JStr ''yo''] @ [JStr ''go'']) sample_store = (Some l, s') \<and>
     c = length [JStr ''hi''] + length [JStr ''yo''] \<and> SessionID l = TrimSpace ''u1''"
proof -
  have "branches_of (NewStore 10 1) (scopeKey sample_scope) = []" by code_simp
  moreover have "recordable sample_codec sample_scope [JStr ''hi''] [JStr ''yo''] ''u1'' 2" by code_simp
  moreover have "(9::int) - 5 \<le> sessionTTL (NewStore 10 1)" by code_simp
  moreover have "canonicalMessages sample_codec [JStr ''go''] \<noteq> None" by code_simp
  moreover have "[JStr ''go''] \<noteq> []" by simp
  ultimately show ?thesis unfolding sample_store_def
    using record_then_prepare [OF lease_run.start, of sample_codec sample_scope "[JStr ''hi'']" "[JStr ''yo'']" "''u1''" 2 10 1 5 9 "[JStr ''go'']"]
    by (metis empty_iff empty_set)
qed

text \<open>
  Recording evicts the oldest branch even while it is leased; the lease's completion then finds no
  branch and is dropped without effect. (Pruning keeps leased branches.)
\<close>

lemma record_evicts_leased:
  "let s = Record sample_codec 9 sample_scope [JStr ''a''] [JStr ''b''] ''u2'' 3 (snd sample_leased) in
   map branchID (branches_of s (leaseKey (fst sample_leased))) = [''inc-2''] \<and>
   Complete sample_codec 9 (fst sample_leased) sample_scope [JStr ''hi'', JStr ''yo'', JStr ''go''] [JStr ''ok''] ''u1'' 4 s = s"
  by code_simp

end
