(* ===== verification/GoText.thy ===== *)
theory GoText
  imports GoStrings "HOL-Library.Char_ord" "HOL-Library.List_Lexorder"
begin

text \<open>
  More of Go's text library: \<^verbatim>\<open>strings.Split\<close> on one byte, \<^verbatim>\<open>strings.Fields\<close>, \<^verbatim>\<open>encoding/hex\<close>, HTTP header
  values, and the lemmas about separators that the keys and parsers of the components rest on.
\<close>

section \<open>Splitting\<close>

fun split_char :: "char \<Rightarrow> string \<Rightarrow> string list" where
  "split_char d [] = [[]]"
| "split_char d (c # cs) = (if c = d then [] # split_char d cs
     else case split_char d cs of w # ws \<Rightarrow> (c # w) # ws | [] \<Rightarrow> [[c]])"

text \<open>\<^verbatim>\<open>strings.Fields\<close>: the maximal runs of runes that are not white space.\<close>

fun fields_loop :: "string list \<Rightarrow> string \<Rightarrow> string list" where
  "fields_loop [] cur = (if cur = [] then [] else [cur])"
| "fields_loop (b # bs) cur = (if b \<in> set space_seqs then (if cur = [] then fields_loop bs [] else cur # fields_loop bs [])
     else fields_loop bs (cur @ b))"

definition Fields :: "string \<Rightarrow> string list" where
  "Fields s = fields_loop (map snd (rune_chunks s)) []"

lemma split_char_join: "str_join [d] (split_char d s) = s"
proof (induction s)
  case (Cons c cs)
  have "str_join [d] ((c # w) # ws) = c # str_join [d] (w # ws)" for w ws by (cases ws) simp_all
  moreover have "str_join [d] ([] # w # ws) = d # str_join [d] (w # ws)" for w ws by simp
  ultimately show ?case using Cons by (cases "split_char d cs") auto
qed simp

section \<open>Hexadecimal\<close>

definition hex_value :: "char \<Rightarrow> nat option" where
  "hex_value c = (let b = byte_of c in
     if 48 \<le> b \<and> b \<le> 57 then Some (b - 48)
     else if 97 \<le> b \<and> b \<le> 102 then Some (b - 87)
     else if 65 \<le> b \<and> b \<le> 70 then Some (b - 55) else None)"

fun hex_decode :: "string \<Rightarrow> string option" where
  "hex_decode [] = Some []"
| "hex_decode [_] = None"
| "hex_decode (h # l # rest) = (case (hex_value h, hex_value l, hex_decode rest) of
     (Some x, Some y, Some out) \<Rightarrow> Some (char_of (16 * x + y) # out) | _ \<Rightarrow> None)"

lemma hex_decode_length: "hex_decode h = Some out \<Longrightarrow> 2 * length out = length h"
  by (induction h arbitrary: out rule: hex_decode.induct) (auto split: option.splits)

lemma hex_value_digit: "n < 16 \<Longrightarrow> hex_value (hex_digit n) = Some n"
proof -
  assume n: "n < 16"
  then have "byte_of (hex_digit n) = (if n < 10 then 48 + n else 87 + n)" by (simp add: hex_digit_def byte_of_def)
  then show "hex_value (hex_digit n) = Some n" using n unfolding hex_value_def Let_def by (cases "n < 10") simp_all
qed

lemma byte_of_less: "byte_of c < 256"
  by (simp add: byte_of_def)

lemma hex_decode_encode: "hex_decode (hex_encode s) = Some s"
proof (induction s)
  case (Cons c s)
  have "byte_of c div 16 < 16" "byte_of c mod 16 < 16" using byte_of_less [of c] by auto
  then show ?case using Cons by (simp add: hex_encode_def hex_value_digit) (simp add: byte_of_def)
qed (simp add: hex_encode_def)

lemma hex_encode_inj: "hex_encode a = hex_encode b \<longleftrightarrow> a = b"
  by (metis hex_decode_encode option.inject)

lemma hex_encode_length: "length (hex_encode s) = 2 * length s"
  by (induction s) (auto simp: hex_encode_def)

section \<open>Terminated parts\<close>

text \<open>A part without the terminator is determined by the terminated text.\<close>

lemma terminated_eq:
  assumes "d \<notin> set a" "d \<notin> set b" "a @ d # x = b @ d # y"
  shows "a = b \<and> x = y"
  using assms
proof (induction a arbitrary: b)
  case Nil
  then show ?case by (cases b) auto
next
  case (Cons c a)
  then show ?case by (cases b) auto
qed

lemma terminated_list_eq:
  assumes "\<forall>p \<in> set ps. d \<notin> set p" "\<forall>q \<in> set qs. d \<notin> set q" "length ps = length qs"
    and "concat (map (\<lambda>p. p @ [d]) ps) @ x = concat (map (\<lambda>p. p @ [d]) qs) @ y"
  shows "ps = qs \<and> x = y"
  using assms
proof (induction ps arbitrary: qs)
  case (Cons p ps)
  then obtain q qs' where q: "qs = q # qs'" by (cases qs) auto
  have "p @ d # (concat (map (\<lambda>p. p @ [d]) ps) @ x) = q @ d # (concat (map (\<lambda>p. p @ [d]) qs') @ y)"
    using Cons.prems(4) q by simp
  moreover have "d \<notin> set p" "d \<notin> set q" using Cons.prems(1,2) q by simp_all
  ultimately have pq: "p = q" and rest: "concat (map (\<lambda>p. p @ [d]) ps) @ x = concat (map (\<lambda>p. p @ [d]) qs') @ y"
    by (blast dest: terminated_eq)+
  have "\<forall>p \<in> set ps. d \<notin> set p" "\<forall>q \<in> set qs'. d \<notin> set q" "length ps = length qs'" using Cons.prems(1-3) q by simp_all
  then have "ps = qs' \<and> x = y" using rest by (rule Cons.IH)
  then show ?case using q pq by simp
qed simp

section \<open>HTTP headers\<close>

text \<open>
  A request's headers as the values of each name (\<^verbatim>\<open>http.Header.Values\<close>, which looks the name up in its
  canonical spelling); \<^verbatim>\<open>Get\<close> is the first value.
\<close>

type_synonym header_values = "string \<Rightarrow> string list"

definition header_get :: "header_values \<Rightarrow> string \<Rightarrow> string" where
  "header_get h name = (case h name of v # _ \<Rightarrow> v | [] \<Rightarrow> [])"

end
