(* ===== verification/Cache_Keys.thy ===== *)
theory Cache_Keys
  imports GoText
begin

text \<open>
  Which requests the response cache looks at and under which key, the first part of
  \<^verbatim>\<open>internal/responsecache/cache.go\<close> with \<^verbatim>\<open>path_policy.go\<close>. The JSON of a key is decoded with
  \<^verbatim>\<open>UseNumber\<close>, so a number is its text. \<^verbatim>\<open>encoding/json\<close> and SHA-256 are fields of the argument \<open>env\<close>.
\<close>

section \<open>Requests\<close>

record CacheRequest =
  reqMethod :: string
  reqPath :: string
  reqQuery :: "(string, string list) gomap"
  reqHeader :: header_values

datatype key_json =
    KNull
  | KBool bool
  | KNumber string
  | KString string
  | KArray "key_json list"
  | KObject "(string \<times> key_json) list"

text \<open>
  \<open>parse\<close> reads a body that is exactly one JSON value; anything else is None. An object lists each member
  name once, where it last occurs in the document, with its last value (what decoding into a map keeps).
\<close>

record key_env =
  caseTab :: case_table
  upperTab :: case_table
  parse :: "string \<Rightarrow> key_json option"
  marshal :: "key_json \<Rightarrow> string option"
  sum256 :: "string \<Rightarrow> string"

definition canonicalRequestPath :: "string \<Rightarrow> string" where
  "canonicalRequestPath path0 = (let path = TrimSpace path0 in
     if path \<in> {''/chat/completions'', ''/v1/v1/chat/completions''} then ''/v1/chat/completions''
     else if path \<in> {''/responses'', ''/v1/v1/responses''} then ''/v1/responses''
     else if path \<in> {''/embeddings'', ''/v1/v1/embeddings''} then ''/v1/embeddings''
     else if path \<in> {''/anthropic/v1/messages'', ''/messages'', ''/v1/v1/messages''} then ''/v1/messages''
     else if path \<in> {''/anthropic/v1/messages/count_tokens'', ''/messages/count_tokens'', ''/v1/v1/messages/count_tokens''}
       then ''/v1/messages/count_tokens''
     else path)"

record pathPolicy =
  Path :: string
  SharedAcrossCallers :: bool

definition pathPolicyFor :: "string \<Rightarrow> pathPolicy" where
  "pathPolicyFor path = \<lparr>Path = path, SharedAcrossCallers = (path \<in> {''/v1/embeddings'', ''/v1/messages/count_tokens''})\<rparr>"

definition hasHeaderToken :: "case_table \<Rightarrow> string \<Rightarrow> string \<Rightarrow> bool" where
  "hasHeaderToken tab raw token0 \<longleftrightarrow> (let token = ToLower tab (TrimSpace token0) in
     list_ex (\<lambda>part. ToLower tab (TrimSpace part) = token) (split_char (CHR '','') raw))"

definition requestHeaderValue :: "header_values \<Rightarrow> string \<Rightarrow> string list \<Rightarrow> string" where
  "requestHeaderValue h primary legacy = (case List.find (\<lambda>v. v \<noteq> '''') (map (\<lambda>n. TrimSpace (header_get h n)) (primary # legacy)) of
     Some v \<Rightarrow> v | None \<Rightarrow> '''')"

definition requestHeaderValues :: "header_values \<Rightarrow> string \<Rightarrow> string list \<Rightarrow> string list" where
  "requestHeaderValues h primary legacy = (case List.find (\<lambda>vs. vs \<noteq> []) (map h (primary # legacy)) of
     Some vs \<Rightarrow> vs | None \<Rightarrow> [])"

definition requestForcesBypass :: "case_table \<Rightarrow> CacheRequest \<Rightarrow> bool" where
  "requestForcesBypass tab r \<longleftrightarrow> (let cacheControl = header_get (reqHeader r) ''Cache-Control'' in
     hasHeaderToken tab cacheControl ''no-cache'' \<or> hasHeaderToken tab cacheControl ''no-store'' \<or>
     EqualFoldASCII (requestHeaderValue (reqHeader r) ''X-DeepSeek-Web-To-API-Cache-Control'' [''X-Ds2-Cache-Control'']) ''bypass'')"

definition CacheableRequest :: "case_table \<Rightarrow> CacheRequest \<Rightarrow> bool" where
  "CacheableRequest tab r \<longleftrightarrow>
     (if reqMethod r \<noteq> ''POST'' then False
      else if requestForcesBypass tab r then False
      else let path = canonicalRequestPath (reqPath r) in
        if path \<in> {''/v1/chat/completions'', ''/v1/responses'', ''/v1/embeddings''} then True
        else if path \<in> {''/anthropic/v1/messages'', ''/v1/messages'', ''/messages'', ''/anthropic/v1/messages/count_tokens'',
            ''/v1/messages/count_tokens'', ''/messages/count_tokens''} then True
        else if prefix ''/v1beta/models/'' path \<or> prefix ''/v1/models/'' path
          then suffix '':generateContent'' path \<or> suffix '':streamGenerateContent'' path
        else False)"

section \<open>The canonical body\<close>

definition isJSONContentType :: "case_table \<Rightarrow> string \<Rightarrow> bool" where
  "isJSONContentType tab raw0 \<longleftrightarrow> (let raw = ToLower tab (TrimSpace raw0) in
     raw = ''application/json'' \<or> Contains raw ''+json'' \<or> Contains raw ''/json'')"

definition cacheKeyShouldNormalizeJSON :: "case_table \<Rightarrow> CacheRequest \<Rightarrow> bool" where
  "cacheKeyShouldNormalizeJSON tab r \<longleftrightarrow> isJSONContentType tab (header_get (reqHeader r) ''Content-Type'') \<or> CacheableRequest tab r"

definition cacheKeyMapShouldDrop :: "(string \<times> key_json) list \<Rightarrow> bool" where
  "cacheKeyMapShouldDrop m \<longleftrightarrow> (case gm_get m ''type'' of Some (KString typ) \<Rightarrow> EqualFoldASCII (TrimSpace typ) ''cache_edits'' | _ \<Rightarrow> False)"

definition ignoredCacheKeyField :: "case_table \<Rightarrow> string \<Rightarrow> bool \<Rightarrow> bool \<Rightarrow> bool" where
  "ignoredCacheKeyField tab key topLevel semanticKey \<longleftrightarrow> (let k = ToLower tab (TrimSpace key) in
     if k \<in> {''cache_control'', ''cache_reference'', ''context_management''} then True
     else if semanticKey \<and> k \<in> {''id'', ''call_id'', ''tool_call_id'', ''tool_use_id'', ''message_id'', ''request_id'', ''trace_id'',
         ''event_id'', ''conversation_id'', ''conversationid'', ''chat_id'', ''chatid'', ''thread_id'', ''threadid'', ''session_id'', ''sessionid''}
       then True
     else if \<not> topLevel then False
     else k \<in> {''metadata'', ''user'', ''service_tier'', ''parallel_tool_calls'', ''seed'', ''store'', ''betas''})"

definition semanticStringKey :: "case_table \<Rightarrow> string \<Rightarrow> bool" where
  "semanticStringKey tab key \<longleftrightarrow>
     ToLower tab (TrimSpace key) \<in> {''content'', ''text'', ''input'', ''prompt'', ''query'', ''instructions'', ''system''}"

definition semanticLowerStringKey :: "case_table \<Rightarrow> string \<Rightarrow> bool" where
  "semanticLowerStringKey tab key \<longleftrightarrow> ToLower tab (TrimSpace key) \<in> {''role'', ''type''}"

definition normalizeSemanticString :: "string \<Rightarrow> string" where
  "normalizeSemanticString raw0 = (let raw = TrimSpace raw0 in
     if raw = '''' then ''''
     else let fields = Fields raw in if length fields \<le> 1 then raw else str_join '' '' fields)"

text \<open>None is the dropped value (\<^verbatim>\<open>keep == false\<close>); the loops over a map and over an array are the other two.\<close>

fun normalizeCacheKeyJSONValue :: "case_table \<Rightarrow> bool \<Rightarrow> bool \<Rightarrow> string \<Rightarrow> key_json \<Rightarrow> key_json option"
  and normalize_fields :: "case_table \<Rightarrow> bool \<Rightarrow> bool \<Rightarrow> (string \<times> key_json) list \<Rightarrow> (string \<times> key_json) list"
  and normalize_items :: "case_table \<Rightarrow> bool \<Rightarrow> string \<Rightarrow> key_json list \<Rightarrow> key_json list" where
  "normalizeCacheKeyJSONValue tab sem topLevel key (KObject v) =
     (if cacheKeyMapShouldDrop v then None else Some (KObject (normalize_fields tab sem topLevel v)))"
| "normalizeCacheKeyJSONValue tab sem topLevel key (KArray v) = Some (KArray (normalize_items tab sem key v))"
| "normalizeCacheKeyJSONValue tab sem topLevel key (KString v) =
     Some (KString (if sem \<and> semanticStringKey tab key then normalizeSemanticString v
       else if sem \<and> semanticLowerStringKey tab key then ToLower tab (TrimSpace v) else v))"
| "normalizeCacheKeyJSONValue tab sem topLevel key v = Some v"
| "normalize_fields tab sem topLevel [] = []"
| "normalize_fields tab sem topLevel ((key, item) # m) =
     (if ignoredCacheKeyField tab key topLevel sem then normalize_fields tab sem topLevel m
      else case normalizeCacheKeyJSONValue tab sem False key item of
        None \<Rightarrow> normalize_fields tab sem topLevel m
      | Some normalized \<Rightarrow> (key, normalized) # normalize_fields tab sem topLevel m)"
| "normalize_items tab sem key [] = []"
| "normalize_items tab sem key (v # vs) = (case normalizeCacheKeyJSONValue tab sem False key v of
     None \<Rightarrow> normalize_items tab sem key vs
   | Some normalized \<Rightarrow> normalized # normalize_items tab sem key vs)"

definition canonicalRequestBodyForKey :: "key_env \<Rightarrow> CacheRequest \<Rightarrow> string \<Rightarrow> bool \<Rightarrow> string" where
  "canonicalRequestBodyForKey env r body semanticKey =
     (if body = [] \<or> \<not> cacheKeyShouldNormalizeJSON (caseTab env) r then body
      else case parse env body of
        None \<Rightarrow> body
      | Some val \<Rightarrow>
          (case normalizeCacheKeyJSONValue (caseTab env) semanticKey True '''' val of
             None \<Rightarrow> body
           | Some v \<Rightarrow> (case marshal env v of None \<Rightarrow> body | Some n \<Rightarrow> if n = [] then body else n)))"

section \<open>The key\<close>

definition varyRequestHeaders :: "(string \<times> string list) list" where
  "varyRequestHeaders = [(''Accept'', []), (''Anthropic-Beta'', []), (''Anthropic-Version'', []), (''Content-Type'', []),
     (''X-DeepSeek-Web-To-API-Session-Affinity-Key'', [''X-Ds2-Session-Affinity-Key'']),
     (''X-DeepSeek-Web-To-API-Source'', [''X-Ds2-Source'']),
     (''X-DeepSeek-Web-To-API-Target-Account'', [''X-Ds2-Target-Account''])]"

definition writeKeyPart :: "string \<Rightarrow> string" where
  "writeKeyPart v = v @ [CHR 0x00]"

definition canonicalQuery :: "(string, string list) gomap \<Rightarrow> string" where
  "canonicalQuery vals = str_join ''&'' (map (\<lambda>key. key @ ''='' @
     str_join [CHR 0x1F] (sort (case gm_get vals key of Some vs \<Rightarrow> vs | None \<Rightarrow> []))) (sort (map fst vals)))"

definition vary_part :: "case_table \<Rightarrow> CacheRequest \<Rightarrow> string \<times> string list \<Rightarrow> string" where
  "vary_part tab r h = ToLower tab (fst h) @ '':'' @ str_join [CHR 0x1F] (requestHeaderValues (reqHeader r) (fst h) (snd h))"

definition key_parts :: "key_env \<Rightarrow> CacheRequest \<Rightarrow> string \<Rightarrow> string \<Rightarrow> bool \<Rightarrow> pathPolicy \<Rightarrow> string list" where
  "key_parts env r owner body semanticKey policy =
     [if semanticKey then ''v2-semantic'' else ''v1'',
      if SharedAcrossCallers policy then ''shared'' else TrimSpace owner,
      ToUpper (upperTab env) (TrimSpace (reqMethod r)),
      canonicalRequestPath (reqPath r),
      canonicalQuery (reqQuery r)] @
     map (vary_part (caseTab env) r) varyRequestHeaders @
     [hex_encode (sum256 env (canonicalRequestBodyForKey env r body semanticKey))]"

definition requestKey :: "key_env \<Rightarrow> CacheRequest \<Rightarrow> string \<Rightarrow> string \<Rightarrow> bool \<Rightarrow> pathPolicy \<Rightarrow> string" where
  "requestKey env r owner body semanticKey policy =
     hex_encode (sum256 env (concat (map writeKeyPart (key_parts env r owner body semanticKey policy))))"

definition RequestKey :: "key_env \<Rightarrow> CacheRequest \<Rightarrow> string \<Rightarrow> string \<Rightarrow> string" where
  "RequestKey env r owner body = requestKey env r owner body True (pathPolicyFor (canonicalRequestPath (reqPath r)))"

text \<open>A key is the hexadecimal form of a SHA-256 sum.\<close>

definition normalizeKey :: "case_table \<Rightarrow> string \<Rightarrow> string" where
  "normalizeKey tab key0 = (let key = ToLower tab (TrimSpace key0) in
     if length key \<noteq> 64 then '''' else if hex_decode key = None then '''' else key)"

text \<open>\<^verbatim>\<open>requestBodyStreamEnabled\<close> decodes into a struct: field names match \<^verbatim>\<open>stream\<close> without regard to case,
  and a later match overwrites an earlier one.\<close>

definition requestBodyStreamEnabled :: "key_env \<Rightarrow> string \<Rightarrow> bool" where
  "requestBodyStreamEnabled env body \<longleftrightarrow>
     (if body = [] then False
      else case parse env body of
        Some (KObject m) \<Rightarrow>
          (case filter (\<lambda>(k, v). EqualFoldASCII k ''stream'') m of
             [] \<Rightarrow> False
           | ms \<Rightarrow> (case snd (List.last ms) of
               KBool b \<Rightarrow> b | KString s \<Rightarrow> EqualFoldASCII (TrimSpace s) ''true'' | _ \<Rightarrow> False))
      | _ \<Rightarrow> False)"

section \<open>What a key determines\<close>

lemma key_parts_length: "length (key_parts env r owner body sem policy) = 13"
  by (simp add: key_parts_def varyRequestHeaders_def)

text \<open>The text that is hashed into a key, and two texts that the hash tells apart.\<close>

definition key_text :: "key_env \<Rightarrow> CacheRequest \<Rightarrow> string \<Rightarrow> string \<Rightarrow> bool \<Rightarrow> pathPolicy \<Rightarrow> string" where
  "key_text env r owner body semanticKey policy = concat (map writeKeyPart (key_parts env r owner body semanticKey policy))"

definition no_collision :: "key_env \<Rightarrow> string \<Rightarrow> string \<Rightarrow> bool" where
  "no_collision env x y \<longleftrightarrow> (sum256 env x = sum256 env y \<longrightarrow> x = y)"

lemma requestKey_parts:
  assumes "no_collision env (key_text env r owner body sem policy) (key_text env r' owner' body' sem' policy')"
    and "\<forall>p \<in> set (key_parts env r owner body sem policy). CHR 0x00 \<notin> set p"
    and "\<forall>p \<in> set (key_parts env r' owner' body' sem' policy'). CHR 0x00 \<notin> set p"
    and "requestKey env r owner body sem policy = requestKey env r' owner' body' sem' policy'"
  shows "key_parts env r owner body sem policy = key_parts env r' owner' body' sem' policy'"
proof -
  have "concat (map writeKeyPart (key_parts env r owner body sem policy)) = concat (map writeKeyPart (key_parts env r' owner' body' sem' policy'))"
    using assms(1,4) by (simp add: requestKey_def hex_encode_inj no_collision_def key_text_def)
  then have "concat (map (\<lambda>p. p @ [CHR 0x00]) (key_parts env r owner body sem policy)) @ [] =
      concat (map (\<lambda>p. p @ [CHR 0x00]) (key_parts env r' owner' body' sem' policy')) @ []"
    by (simp add: writeKeyPart_def [abs_def])
  then show ?thesis
    using terminated_list_eq [OF assms(2,3), of "[]" "[]"] by (simp add: key_parts_length)
qed

text \<open>C18: Two requests whose keys are equal, whose key texts and canonical bodies are not a collision of the hash, and whose key parts
  have no NUL bytes, agree on the canonical path, the canonical text of the query, the canonical body and every header the response may
  vary on, and on the caller too unless the path is one of the two whose answers do not depend on it: one tenant's sampled answer
  is never looked up under another tenant's key. Canonical texts forget something: the canonical body has no
  metadata, user, seed and the other ignored fields, and the canonical query does not escape its separators (\<open>canonicalQuery_collision\<close>).\<close>

theorem cache_key_isolates:
  assumes "no_collision env (key_text env r owner body sem (pathPolicyFor (canonicalRequestPath (reqPath r))))
        (key_text env r' owner' body' sem' (pathPolicyFor (canonicalRequestPath (reqPath r'))))"
    and "\<forall>p \<in> set (key_parts env r owner body sem (pathPolicyFor (canonicalRequestPath (reqPath r)))). CHR 0x00 \<notin> set p"
    and "\<forall>p \<in> set (key_parts env r' owner' body' sem' (pathPolicyFor (canonicalRequestPath (reqPath r')))). CHR 0x00 \<notin> set p"
    and "requestKey env r owner body sem (pathPolicyFor (canonicalRequestPath (reqPath r))) =
         requestKey env r' owner' body' sem' (pathPolicyFor (canonicalRequestPath (reqPath r')))"
    and "no_collision env (canonicalRequestBodyForKey env r body sem) (canonicalRequestBodyForKey env r' body' sem')"
  shows "canonicalRequestPath (reqPath r) = canonicalRequestPath (reqPath r') \<and>
    (TrimSpace owner = TrimSpace owner' \<or> canonicalRequestPath (reqPath r) \<in> {''/v1/embeddings'', ''/v1/messages/count_tokens''}) \<and>
    canonicalQuery (reqQuery r) = canonicalQuery (reqQuery r') \<and>
    canonicalRequestBodyForKey env r body sem = canonicalRequestBodyForKey env r' body' sem' \<and>
    map (vary_part (caseTab env) r) varyRequestHeaders = map (vary_part (caseTab env) r') varyRequestHeaders"
proof -
  let ?P = "key_parts env r owner body sem (pathPolicyFor (canonicalRequestPath (reqPath r)))"
  let ?Q = "key_parts env r' owner' body' sem' (pathPolicyFor (canonicalRequestPath (reqPath r')))"
  have eq: "?P = ?Q" using assms(1-4) by (rule requestKey_parts)
  have path: "canonicalRequestPath (reqPath r) = canonicalRequestPath (reqPath r')"
    and query: "canonicalQuery (reqQuery r) = canonicalQuery (reqQuery r')"
    using eq by (simp_all add: key_parts_def)
  have own: "?P ! 1 = ?Q ! 1" using eq by (rule arg_cong)
  have "drop 5 ?P = drop 5 ?Q" using eq by simp
  then have rest: "map (vary_part (caseTab env) r) varyRequestHeaders @ [hex_encode (sum256 env (canonicalRequestBodyForKey env r body sem))] =
      map (vary_part (caseTab env) r') varyRequestHeaders @ [hex_encode (sum256 env (canonicalRequestBodyForKey env r' body' sem'))]"
    by (simp only: key_parts_def drop_append) simp
  then have "map (vary_part (caseTab env) r) varyRequestHeaders = map (vary_part (caseTab env) r') varyRequestHeaders"
    and "sum256 env (canonicalRequestBodyForKey env r body sem) = sum256 env (canonicalRequestBodyForKey env r' body' sem')"
    by (simp_all only: append1_eq_conv hex_encode_inj)
  moreover then have "canonicalRequestBodyForKey env r body sem = canonicalRequestBodyForKey env r' body' sem'"
    using assms(5) by (simp only: no_collision_def simp_thms)
  moreover have "TrimSpace owner = TrimSpace owner' \<or> canonicalRequestPath (reqPath r) \<in> {''/v1/embeddings'', ''/v1/messages/count_tokens''}"
    using own path unfolding key_parts_def pathPolicyFor_def by (cases "canonicalRequestPath (reqPath r) \<in> {''/v1/embeddings'', ''/v1/messages/count_tokens''}") auto
  ultimately show ?thesis using path query by blast
qed

text \<open>Different queries with the same canonical text: the separators are not escaped.\<close>

lemma canonicalQuery_collision:
  "canonicalQuery [(''a'', [''1&b=2''])] = canonicalQuery [(''a'', [''1'']), (''b'', [''2''])]"
  by code_simp

section \<open>Witnesses\<close>

definition sample_env :: key_env where
  "sample_env = \<lparr>caseTab = (\<lambda>r. r), upperTab = (\<lambda>r. r), parse = (\<lambda>_. None), marshal = (\<lambda>_. None), sum256 = (\<lambda>s. s)\<rparr>"

definition sample_post :: CacheRequest where
  "sample_post = \<lparr>reqMethod = ''POST'', reqPath = ''/v1/responses'', reqQuery = [], reqHeader = (\<lambda>_. [])\<rparr>"

lemma sample_trims: "TrimSpace ''POST'' = ''POST''" "TrimSpace ''/v1/responses'' = ''/v1/responses''" "TrimSpace ''a'' = ''a''" "TrimSpace ''b'' = ''b''"
  by code_simp+

lemma nul_char_of: "CHR 0x00 = char_of n \<longleftrightarrow> n mod 256 = (0 :: nat)"
  using char_of_eq_iff [of n "CHR 0x00"] by (auto simp: take_bit_eq_mod)

lemma sample_parts:
  "owner \<in> {''a'', ''b''} \<Longrightarrow> list_all (\<lambda>p. CHR 0x00 \<notin> set p) (key_parts sample_env sample_post owner [] True (pathPolicyFor (canonicalRequestPath (reqPath sample_post))))"
  by (auto simp: key_parts_def sample_env_def sample_post_def varyRequestHeaders_def vary_part_def requestHeaderValues_def
      canonicalRequestBodyForKey_def hex_encode_def canonicalQuery_def sample_trims canonicalRequestPath_def pathPolicyFor_def ascii_eval nul_char_of)

theorem cache_key_isolates_witness:
  "requestKey sample_env sample_post ''a'' [] True (pathPolicyFor (canonicalRequestPath (reqPath sample_post))) \<noteq>
   requestKey sample_env sample_post ''b'' [] True (pathPolicyFor (canonicalRequestPath (reqPath sample_post)))"
proof
  assume eq: "requestKey sample_env sample_post ''a'' [] True (pathPolicyFor (canonicalRequestPath (reqPath sample_post))) =
   requestKey sample_env sample_post ''b'' [] True (pathPolicyFor (canonicalRequestPath (reqPath sample_post)))"
  have n: "no_collision sample_env x y" for x y by (simp add: sample_env_def no_collision_def)
  from cache_key_isolates [OF n _ _ eq n] sample_parts [of "''a''"] sample_parts [of "''b''"]
  have "TrimSpace ''a'' = TrimSpace ''b'' \<or> canonicalRequestPath (reqPath sample_post) \<in> {''/v1/embeddings'', ''/v1/messages/count_tokens''}"
    by (simp add: list_all_iff)
  then show False by (simp add: sample_trims sample_post_def canonicalRequestPath_def)
qed

end
