(* ===== verification/Response_Cache.thy ===== *)
theory Response_Cache
  imports Cache_Keys
begin

text \<open>
  The response cache itself, \<^verbatim>\<open>internal/responsecache/cache.go\<close>: the memory tier with its session buckets and
  byte budget, the disk tier, the statistics and the single-flight slots of the middleware.

  The files of the cache directory are a map from cache key to file; gzip and JSON are not modelled
  byte by byte: a file holds the record that was written or is unreadable, and its size is an argument, as
  are failing writes and removals (\<open>disk_env\<close>). \<^verbatim>\<open>c.dir\<close> only names the directory. Clocks are arguments.
\<close>

section \<open>Entries\<close>

type_synonym http_header = "(string, string list) gomap"

record Entry =
  Status :: int
  EHeader :: http_header
  Body :: string
  DiskExpiresAt :: time

record memoryEntry =
  entry :: Entry
  memoryExpiresAt :: time
  msize :: int
  sessionKey :: string

record diskRecord =
  Version :: int
  RecordKey :: string
  CreatedAtUnix :: int
  ExpiresAtUnix :: int
  RecordStatus :: int
  RecordHeader :: http_header
  RecordBody :: string

record diskFile =
  content :: "diskRecord option"
  fileSize :: int
  modTime :: time

record disk_env =
  writeOK :: "string \<Rightarrow> bool"
  recordSize :: "diskRecord \<Rightarrow> int"
  removeOK :: "string \<Rightarrow> bool"

definition recordVersion :: int where "recordVersion = 1"

definition hget :: "http_header \<Rightarrow> string \<Rightarrow> string list" where
  "hget h k = (case gm_get h k of Some vs \<Rightarrow> vs | None \<Rightarrow> [])"

definition uncacheableReason :: "case_table \<Rightarrow> int \<Rightarrow> Entry \<Rightarrow> string" where
  "uncacheableReason tab maxBody e =
     (if Status e < 200 \<or> 300 \<le> Status e then ''status_non_2xx''
      else if Body e = [] then ''empty_body''
      else if 0 < maxBody \<and> maxBody < int (length (Body e)) then ''oversized_response''
      else if hasHeaderToken tab (header_get (hget (EHeader e)) ''Cache-Control'') ''no-store'' then ''response_no_store''
      else if hget (EHeader e) ''Set-Cookie'' \<noteq> [] then ''set_cookie''
      else '''')"

definition cacheable :: "case_table \<Rightarrow> int \<Rightarrow> Entry \<Rightarrow> bool" where
  "cacheable tab maxBody e \<longleftrightarrow> uncacheableReason tab maxBody e = ''''"

definition memorySize :: "Entry \<Rightarrow> int" where
  "memorySize e = int (length (Body e)) + (\<Sum>(k, vv) \<leftarrow> EHeader e. int (length k) + (\<Sum>v \<leftarrow> vv. int (length v)))"

definition skipResponseHeader :: "case_table \<Rightarrow> string \<Rightarrow> bool" where
  "skipResponseHeader tab name \<longleftrightarrow> ToLower tab (TrimSpace name) \<in> {''connection'', ''content-length'', ''date'', ''keep-alive'',
     ''proxy-authenticate'', ''proxy-authorization'', ''te'', ''trailer'', ''transfer-encoding'', ''upgrade'', ''x-deepseek-web-to-api-cache'',
     ''x-deepseek-web-to-api-cache-expires-at'', ''x-ds2-cache'', ''x-ds2-cache-expires-at''}"

text \<open>\<^verbatim>\<open>textproto.CanonicalMIMEHeaderKey\<close>, which \<^verbatim>\<open>Header.Add\<close> applies.\<close>

definition token_byte :: "char \<Rightarrow> bool" where
  "token_byte c \<longleftrightarrow> is_digit c \<or> (65 \<le> byte_of c \<and> byte_of c \<le> 90) \<or> (97 \<le> byte_of c \<and> byte_of c \<le> 122) \<or>
     c \<in> set ''!#$%&*+-.^_`|~'' \<or> byte_of c = 39"

fun canon_mime :: "bool \<Rightarrow> string \<Rightarrow> string" where
  "canon_mime up [] = []"
| "canon_mime up (c # cs) = (if up then ascii_upper c else ascii_lower c) # canon_mime (c = CHR ''-'') cs"

definition CanonicalMIMEHeaderKey :: "string \<Rightarrow> string" where
  "CanonicalMIMEHeaderKey k = (if list_all token_byte k then canon_mime True k else k)"

definition header_add :: "string \<Rightarrow> string \<Rightarrow> http_header \<Rightarrow> http_header" where
  "header_add k v h = (let ck = CanonicalMIMEHeaderKey k in gm_set ck (hget h ck @ [v]) h)"

definition sanitizeResponseHeader :: "case_table \<Rightarrow> http_header \<Rightarrow> http_header" where
  "sanitizeResponseHeader tab h = fold (\<lambda>(k, vv) out. if skipResponseHeader tab k then out else fold (header_add k) vv out) h []"

section \<open>The cache\<close>

record pathStat =
  pHits :: int
  pMisses :: int
  pStores :: int
  pMemoryHits :: int
  pDiskHits :: int
  pInflightHits :: int
  pUncacheable :: "(string, int) gomap"

record Cache =
  dir :: string
  memoryTTL :: int
  diskTTL :: int
  maxBody :: int
  memoryMaxBytes :: int
  diskMaxBytes :: int
  memoryBytes :: int
  hits :: int
  misses :: int
  stores :: int
  memoryHits :: int
  diskHits :: int
  inflightHits :: int
  uncacheable :: "(string, int) gomap"
  pathStats :: "(string, pathStat) gomap"
  items :: "(string, memoryEntry) gomap"
  inflight :: "(string, nat) gomap"
  sessionEntries :: "(string, string list) gomap"
  sessionHits :: int
  lastDiskSweep :: time
  semanticKey :: bool
  disk :: "(string, diskFile) gomap"
  slotCount :: nat
  closedSlots :: "nat list"

record Options =
  OptDir :: string
  OptMemoryTTL :: int
  OptDiskTTL :: int
  OptMaxBody :: int
  OptMemoryMaxBytes :: int
  OptDiskMaxBytes :: int
  OptSemanticKey :: bool

definition defaultMemoryTTL :: int where "defaultMemoryTTL = 30 * minute_ns"
definition defaultDiskTTL :: int where "defaultDiskTTL = 48 * hour_ns"
definition defaultMaxBody :: int where "defaultMaxBody = 64 * 2 ^ 20"
definition defaultMemoryMaxBytes :: int where "defaultMemoryMaxBytes = 3800 * 1000 * 1000"
definition defaultDiskMaxBytes :: int where "defaultDiskMaxBytes = 16 * 1000 * 1000 * 1000"

text \<open>\<open>cleanDir\<close> stands for \<^verbatim>\<open>filepath.Clean\<close> and the configured default directory.\<close>

definition normalizeOptions :: "(string \<Rightarrow> string) \<Rightarrow> Options \<Rightarrow> Options" where
  "normalizeOptions cleanDir o0 = \<lparr>OptDir = cleanDir (TrimSpace (OptDir o0)),
     OptMemoryTTL = (if OptMemoryTTL o0 \<le> 0 then defaultMemoryTTL else OptMemoryTTL o0),
     OptDiskTTL = (if OptDiskTTL o0 \<le> 0 then defaultDiskTTL else OptDiskTTL o0),
     OptMaxBody = (if OptMaxBody o0 \<le> 0 then defaultMaxBody else OptMaxBody o0),
     OptMemoryMaxBytes = (if OptMemoryMaxBytes o0 \<le> 0 then defaultMemoryMaxBytes else OptMemoryMaxBytes o0),
     OptDiskMaxBytes = (if OptDiskMaxBytes o0 \<le> 0 then defaultDiskMaxBytes else OptDiskMaxBytes o0),
     OptSemanticKey = OptSemanticKey o0\<rparr>"

definition New :: "(string \<Rightarrow> string) \<Rightarrow> Options \<Rightarrow> (string, diskFile) gomap \<Rightarrow> Cache" where
  "New cleanDir opts files = (let o1 = normalizeOptions cleanDir opts in
     \<lparr>dir = OptDir o1, memoryTTL = OptMemoryTTL o1, diskTTL = OptDiskTTL o1, maxBody = OptMaxBody o1,
      memoryMaxBytes = OptMemoryMaxBytes o1, diskMaxBytes = OptDiskMaxBytes o1, memoryBytes = 0,
      hits = 0, misses = 0, stores = 0, memoryHits = 0, diskHits = 0, inflightHits = 0, uncacheable = [], pathStats = [],
      items = [], inflight = [], sessionEntries = [], sessionHits = 0, lastDiskSweep = zero_time,
      semanticKey = OptSemanticKey o1, disk = files, slotCount = 0, closedSlots = []\<rparr>)"

text \<open>\<open>files\<close> are the files of the new directory.\<close>

definition ApplyOptions :: "(string \<Rightarrow> string) \<Rightarrow> Options \<Rightarrow> (string, diskFile) gomap \<Rightarrow> Cache \<Rightarrow> Cache" where
  "ApplyOptions cleanDir opts files c = (let o1 = normalizeOptions cleanDir opts in
     c\<lparr>dir := OptDir o1, memoryTTL := OptMemoryTTL o1, diskTTL := OptDiskTTL o1, maxBody := OptMaxBody o1,
       memoryMaxBytes := OptMemoryMaxBytes o1, diskMaxBytes := OptDiskMaxBytes o1, semanticKey := OptSemanticKey o1,
       items := [], memoryBytes := 0, lastDiskSweep := zero_time, sessionEntries := [], disk := files\<rparr>)"

section \<open>Session buckets\<close>

definition addToSessionLocked :: "string \<Rightarrow> string \<Rightarrow> Cache \<Rightarrow> Cache" where
  "addToSessionLocked sk cacheKey c =
     (if sk = '''' \<or> cacheKey = '''' then c
      else let bucket = (case gm_get (sessionEntries c) sk of Some b \<Rightarrow> b | None \<Rightarrow> [])
        in c\<lparr>sessionEntries := gm_set sk (List.insert cacheKey bucket) (sessionEntries c)\<rparr>)"

definition removeFromSessionLocked :: "string \<Rightarrow> string \<Rightarrow> Cache \<Rightarrow> Cache" where
  "removeFromSessionLocked sk cacheKey c =
     (if sk = '''' \<or> cacheKey = '''' then c
      else case gm_get (sessionEntries c) sk of
        None \<Rightarrow> c
      | Some bucket0 \<Rightarrow>
          (let bucket = filter (\<lambda>k. k \<noteq> cacheKey) bucket0 in
           c\<lparr>sessionEntries := (if bucket = [] then gm_del sk (sessionEntries c) else gm_set sk bucket (sessionEntries c))\<rparr>))"

text \<open>Dropping an entry from memory, as the three places that do so: bytes, bucket and item.\<close>

definition drop_item :: "string \<Rightarrow> memoryEntry \<Rightarrow> Cache \<Rightarrow> Cache" where
  "drop_item key item c = removeFromSessionLocked (sessionKey item) key
     (c\<lparr>items := gm_del key (items c), memoryBytes := memoryBytes c - msize item\<rparr>)"

definition expired :: "time \<Rightarrow> memoryEntry \<Rightarrow> bool" where
  "expired now item \<longleftrightarrow> \<not> now < memoryExpiresAt item \<or> \<not> now < DiskExpiresAt (entry item)"

definition sweepMemoryLocked :: "time \<Rightarrow> Cache \<Rightarrow> Cache" where
  "sweepMemoryLocked now c0 = (let c = fold (\<lambda>(key, item) c. if expired now item then drop_item key item c else c) (items c0) c0
     in if memoryBytes c < 0 then c\<lparr>memoryBytes := 0\<rparr> else c)"

definition bumpSingleEntryExpiryLocked :: "string \<Rightarrow> memoryEntry \<Rightarrow> time \<Rightarrow> int \<Rightarrow> Cache \<Rightarrow> Cache" where
  "bumpSingleEntryExpiryLocked key item now ttl c =
     (let extended0 = now + ttl;
          extended = (if DiskExpiresAt (entry item) < extended0 then DiskExpiresAt (entry item) else extended0)
      in if memoryExpiresAt item < extended then c\<lparr>items := gm_set key (item\<lparr>memoryExpiresAt := extended\<rparr>) (items c)\<rparr> else c)"

definition bump_siblings :: "string \<Rightarrow> string list \<Rightarrow> time \<Rightarrow> int \<Rightarrow> Cache \<Rightarrow> Cache" where
  "bump_siblings key siblings now ttl c = fold (\<lambda>k c. if k = key then c
     else case gm_get (items c) k of None \<Rightarrow> c | Some sibling \<Rightarrow> bumpSingleEntryExpiryLocked k sibling now ttl c) siblings c"

definition bumpMemoryExpiryLocked :: "string \<Rightarrow> time \<Rightarrow> Cache \<Rightarrow> Cache" where
  "bumpMemoryExpiryLocked key now c =
     (case gm_get (items c) key of
        None \<Rightarrow> c
      | Some item \<Rightarrow>
          if memoryTTL c \<le> 0 then c
          else let c1 = bumpSingleEntryExpiryLocked key item now (memoryTTL c) c in
            if sessionKey item = '''' then c1
            else (case gm_get (sessionEntries c1) (sessionKey item) of
                None \<Rightarrow> c1
              | Some siblings \<Rightarrow>
                  if length siblings \<le> 1 then c1
                  else let c2 = bump_siblings key siblings now (memoryTTL c) c1 in c2\<lparr>sessionHits := sessionHits c2 + 1\<rparr>))"

section \<open>The byte budget\<close>

fun evict_until :: "int \<Rightarrow> (string \<times> memoryEntry) list \<Rightarrow> Cache \<Rightarrow> Cache" where
  "evict_until limit [] c = c"
| "evict_until limit ((key, item) # cands) c =
     (if memoryBytes c \<le> limit then c
      else if gm_get (items c) key = None then evict_until limit cands c
      else evict_until limit cands (drop_item key item c))"

definition enforceMemoryLimitLocked :: "Cache \<Rightarrow> Cache" where
  "enforceMemoryLimitLocked c0 =
     (if memoryMaxBytes c0 \<le> 0 \<or> memoryBytes c0 \<le> memoryMaxBytes c0 then c0
      else let c = evict_until (memoryMaxBytes c0) (sort_key (\<lambda>(k, item). memoryExpiresAt item) (items c0)) c0
        in if memoryBytes c < 0 then c\<lparr>memoryBytes := 0\<rparr> else c)"

definition putMemoryWithPolicySession :: "string \<Rightarrow> string \<Rightarrow> Entry \<Rightarrow> time \<Rightarrow> Cache \<Rightarrow> Cache" where
  "putMemoryWithPolicySession key sk e now c0 =
     (let c = sweepMemoryLocked now c0; size = memorySize e in
      if 0 < memoryMaxBytes c \<and> memoryMaxBytes c < size then c
      else let expiresAt0 = now + memoryTTL c;
               expiresAt = (if DiskExpiresAt e < expiresAt0 then DiskExpiresAt e else expiresAt0) in
        if now < expiresAt then
          (let c1 = (case gm_get (items c) key of
                 Some old \<Rightarrow>
                   (let c' = c\<lparr>memoryBytes := memoryBytes c - msize old\<rparr> in
                    if sessionKey old \<noteq> '''' \<and> sessionKey old \<noteq> sk then removeFromSessionLocked (sessionKey old) key c' else c')
               | None \<Rightarrow> c);
               c2 = c1\<lparr>items := gm_set key \<lparr>entry = e, memoryExpiresAt = expiresAt, msize = size, sessionKey = sk\<rparr> (items c1),
                      memoryBytes := memoryBytes c1 + size\<rparr>;
               c3 = addToSessionLocked sk key c2;
               c4 = (if sk = '''' then c3
                     else case gm_get (sessionEntries c3) sk of
                       None \<Rightarrow> c3 | Some siblings \<Rightarrow> bump_siblings key siblings now (memoryTTL c) c3)
           in enforceMemoryLimitLocked c4)
        else c)"

section \<open>Statistics\<close>

definition no_stat :: pathStat where
  "no_stat = \<lparr>pHits = 0, pMisses = 0, pStores = 0, pMemoryHits = 0, pDiskHits = 0, pInflightHits = 0, pUncacheable = []\<rparr>"

definition on_path :: "string \<Rightarrow> (pathStat \<Rightarrow> pathStat) \<Rightarrow> Cache \<Rightarrow> Cache" where
  "on_path path0 f c = (let path = TrimSpace path0 in
     if path = '''' then c
     else let stat = (case gm_get (pathStats c) path of Some s \<Rightarrow> s | None \<Rightarrow> no_stat)
       in c\<lparr>pathStats := gm_set path (f stat) (pathStats c)\<rparr>)"

definition recordHitLocked :: "string \<Rightarrow> string \<Rightarrow> Cache \<Rightarrow> Cache" where
  "recordHitLocked path source c =
     on_path path (\<lambda>s. s\<lparr>pHits := pHits s + 1,
         pMemoryHits := pMemoryHits s + (if source = ''memory'' then 1 else 0),
         pDiskHits := pDiskHits s + (if source = ''disk'' then 1 else 0)\<rparr>)
       (c\<lparr>hits := hits c + 1, memoryHits := memoryHits c + (if source = ''memory'' then 1 else 0),
          diskHits := diskHits c + (if source = ''disk'' then 1 else 0)\<rparr>)"

definition recordMiss :: "string \<Rightarrow> Cache \<Rightarrow> Cache" where
  "recordMiss path c = on_path path (\<lambda>s. s\<lparr>pMisses := pMisses s + 1\<rparr>) (c\<lparr>misses := misses c + 1\<rparr>)"

definition recordStore :: "string \<Rightarrow> Cache \<Rightarrow> Cache" where
  "recordStore path c = on_path path (\<lambda>s. s\<lparr>pStores := pStores s + 1\<rparr>) (c\<lparr>stores := stores c + 1\<rparr>)"

definition recordInflightHit :: "string \<Rightarrow> Cache \<Rightarrow> Cache" where
  "recordInflightHit path c0 =
     (let c = on_path path (\<lambda>s. s\<lparr>pInflightHits := pInflightHits s + 1, pHits := pHits s + 1\<rparr>) (c0\<lparr>inflightHits := inflightHits c0 + 1\<rparr>)
      in c\<lparr>hits := hits c + 1\<rparr>)"

definition recordUncacheable :: "string \<Rightarrow> string \<Rightarrow> Cache \<Rightarrow> Cache" where
  "recordUncacheable path reason0 c = (let r = TrimSpace reason0; reason = (if r = '''' then ''unknown'' else r) in
     on_path path (\<lambda>s. s\<lparr>pUncacheable := gm_set reason (gm_count (pUncacheable s) reason + 1) (pUncacheable s)\<rparr>)
       (c\<lparr>uncacheable := gm_set reason (gm_count (uncacheable c) reason + 1) (uncacheable c)\<rparr>))"

section \<open>The disk tier\<close>

definition disk_record :: "string \<Rightarrow> Entry \<Rightarrow> time \<Rightarrow> diskRecord" where
  "disk_record key e now = \<lparr>Version = recordVersion, RecordKey = key, CreatedAtUnix = unix_of now,
     ExpiresAtUnix = unix_of (DiskExpiresAt e), RecordStatus = Status e, RecordHeader = EHeader e, RecordBody = Body e\<rparr>"

text \<open>False is the error return.\<close>

definition putDisk :: "disk_env \<Rightarrow> case_table \<Rightarrow> string \<Rightarrow> Entry \<Rightarrow> time \<Rightarrow> Cache \<Rightarrow> bool \<times> Cache" where
  "putDisk de tab key e now c =
     (if dir c = '''' then (True, c)
      else let path = normalizeKey tab key in
        if path = '''' \<or> \<not> writeOK de path then (False, c)
        else let rec = disk_record key e now in
          (True, c\<lparr>disk := gm_set path \<lparr>content = Some rec, fileSize = recordSize de rec, modTime = now\<rparr> (disk c)\<rparr>))"

definition removeDiskCacheFile :: "disk_env \<Rightarrow> string \<Rightarrow> Cache \<Rightarrow> Cache" where
  "removeDiskCacheFile de path c = (if removeOK de path then c\<lparr>disk := gm_del path (disk c)\<rparr> else c)"

definition record_entry :: "case_table \<Rightarrow> diskRecord \<Rightarrow> Entry" where
  "record_entry tab rec = \<lparr>Status = RecordStatus rec, EHeader = sanitizeResponseHeader tab (RecordHeader rec), Body = RecordBody rec,
     DiskExpiresAt = time_unix (ExpiresAtUnix rec)\<rparr>"

definition getDisk :: "disk_env \<Rightarrow> case_table \<Rightarrow> string \<Rightarrow> time \<Rightarrow> Cache \<Rightarrow> Entry option \<times> Cache" where
  "getDisk de tab key now c =
     (if dir c = '''' then (None, c)
      else let path = normalizeKey tab key in
        if path = '''' then (None, c)
        else case gm_get (disk c) path of
          None \<Rightarrow> (None, c)
        | Some f \<Rightarrow>
            (case content f of
               None \<Rightarrow> (None, removeDiskCacheFile de path c)
             | Some rec \<Rightarrow>
                 if Version rec \<noteq> recordVersion \<or> RecordKey rec \<noteq> key \<or> \<not> now < time_unix (ExpiresAtUnix rec)
                 then (None, removeDiskCacheFile de path c)
                 else let e = record_entry tab rec in
                   if \<not> cacheable tab (maxBody c) e then (None, removeDiskCacheFile de path c) else (Some e, c)))"

definition sweep_files :: "disk_env \<Rightarrow> int \<Rightarrow> time \<Rightarrow> (string, diskFile) gomap \<Rightarrow> (string, diskFile) gomap" where
  "sweep_files de ttl now files = filter (\<lambda>(k, f). \<not> (ttl < now - modTime f \<and> removeOK de k)) files"

definition maybeSweepDisk :: "disk_env \<Rightarrow> time \<Rightarrow> Cache \<Rightarrow> Cache" where
  "maybeSweepDisk de now c =
     (if now - lastDiskSweep c < 10 * minute_ns then c
      else let c1 = c\<lparr>lastDiskSweep := now\<rparr> in
        if dir c1 = '''' then c1 else c1\<lparr>disk := sweep_files de (diskTTL c1) now (disk c1)\<rparr>)"

text \<open>\<^verbatim>\<open>diskFilesAt\<close> removes what has outlived the time to live and lists the rest with their total size.\<close>

definition diskFilesAt :: "disk_env \<Rightarrow> time \<Rightarrow> Cache \<Rightarrow> (string \<times> diskFile) list \<times> int \<times> Cache" where
  "diskFilesAt de now c = (let old = (\<lambda>f. 0 < diskTTL c \<and> diskTTL c < now - modTime f);
       files = filter (\<lambda>(k, f). \<not> old f) (disk c)
     in (files, (\<Sum>(k, f) \<leftarrow> files. fileSize f), c\<lparr>disk := filter (\<lambda>(k, f). \<not> (old f \<and> removeOK de k)) (disk c)\<rparr>))"

fun remove_until :: "disk_env \<Rightarrow> int \<Rightarrow> (string \<times> diskFile) list \<Rightarrow> int \<Rightarrow> Cache \<Rightarrow> Cache" where
  "remove_until de limit [] bytes c = c"
| "remove_until de limit ((key, f) # files) bytes c =
     (if bytes \<le> limit then c
      else remove_until de limit files (if removeOK de key then bytes - fileSize f else bytes) (removeDiskCacheFile de key c))"

definition enforceDiskLimit :: "disk_env \<Rightarrow> time \<Rightarrow> Cache \<Rightarrow> Cache" where
  "enforceDiskLimit de now c =
     (if dir c = '''' \<or> diskMaxBytes c \<le> 0 then c
      else let (files, bytes, c1) = diskFilesAt de now c in
        if bytes \<le> diskMaxBytes c then c1
        else remove_until de (diskMaxBytes c) (sort_key (\<lambda>(k, f). modTime f) files) bytes c1)"

section \<open>Reading and storing\<close>

text \<open>The first critical section of a lookup.\<close>

definition get_memory :: "string \<Rightarrow> time \<Rightarrow> pathPolicy \<Rightarrow> Cache \<Rightarrow> Entry option \<times> Cache" where
  "get_memory key now policy c0 = (let c = sweepMemoryLocked now c0 in
     case gm_get (items c) key of
       None \<Rightarrow> (None, c)
     | Some item \<Rightarrow>
         if now < memoryExpiresAt item \<and> now < DiskExpiresAt (entry item)
         then (Some (entry item), recordHitLocked (Path policy) ''memory'' (bumpMemoryExpiryLocked key now c))
         else (None, drop_item key item c))"

definition getWithPolicy :: "disk_env \<Rightarrow> case_table \<Rightarrow> time \<Rightarrow> string \<Rightarrow> pathPolicy \<Rightarrow> Cache \<Rightarrow> (Entry \<times> string) option \<times> Cache" where
  "getWithPolicy de tab now key0 policy c0 = (let key = normalizeKey tab key0 in
     if key = '''' then (None, c0)
     else case get_memory key now policy c0 of
       (Some e, c) \<Rightarrow> (Some (e, ''memory''), c)
     | (None, c) \<Rightarrow>
         (case getDisk de tab key now c of
            (None, c1) \<Rightarrow> (None, recordMiss (Path policy) c1)
          | (Some e, c1) \<Rightarrow>
              (Some (e, ''disk''), recordHitLocked (Path policy) ''disk'' (putMemoryWithPolicySession key '''' e now c1))))"

definition no_policy :: pathPolicy where
  "no_policy = \<lparr>Path = '''', SharedAcrossCallers = False\<rparr>"

definition Get :: "disk_env \<Rightarrow> case_table \<Rightarrow> time \<Rightarrow> string \<Rightarrow> Cache \<Rightarrow> (Entry \<times> string) option \<times> Cache" where
  "Get de tab now key c = getWithPolicy de tab now key no_policy c"

definition setWithPolicySession :: "disk_env \<Rightarrow> case_table \<Rightarrow> time \<Rightarrow> string \<Rightarrow> string \<Rightarrow> Entry \<Rightarrow> pathPolicy \<Rightarrow> Cache \<Rightarrow> Cache" where
  "setWithPolicySession de tab now key0 sk e0 policy c0 = (let key = normalizeKey tab key0 in
     if key = '''' \<or> \<not> cacheable tab (maxBody c0) e0 then c0
     else let e = (if DiskExpiresAt e0 = zero_time \<or> \<not> now < DiskExpiresAt e0 then e0\<lparr>DiskExpiresAt := now + diskTTL c0\<rparr> else e0);
              c1 = putMemoryWithPolicySession key sk e now c0;
              (ok, c2) = putDisk de tab key e now c1;
              c3 = (if ok then enforceDiskLimit de now c2 else c2)
          in maybeSweepDisk de now (recordStore (Path policy) c3))"

definition Set :: "disk_env \<Rightarrow> case_table \<Rightarrow> time \<Rightarrow> string \<Rightarrow> Entry \<Rightarrow> Cache \<Rightarrow> Cache" where
  "Set de tab now key e c = setWithPolicySession de tab now key '''' e no_policy c"

section \<open>Single flight\<close>

text \<open>Slots are numbered in the order in which their channels are made.\<close>

definition acquireInflight :: "string \<Rightarrow> Cache \<Rightarrow> (nat \<times> bool) \<times> Cache" where
  "acquireInflight key c = (case gm_get (inflight c) key of
     Some slot \<Rightarrow> ((slot, False), c)
   | None \<Rightarrow> ((slotCount c, True), c\<lparr>inflight := gm_set key (slotCount c) (inflight c), slotCount := Suc (slotCount c)\<rparr>))"

definition releaseInflight :: "string \<Rightarrow> Cache \<Rightarrow> Cache" where
  "releaseInflight key c = (case gm_get (inflight c) key of
     None \<Rightarrow> c
   | Some slot \<Rightarrow> c\<lparr>inflight := gm_del key (inflight c), closedSlots := slot # closedSlots c\<rparr>)"

section \<open>Capturing a response\<close>

record capture =
  capStatus :: int
  wroteHeader :: bool
  capHeader :: http_header
  capBody :: string
  capMaxBody :: int
  truncated :: bool

definition newCaptureResponseWriter :: "int \<Rightarrow> http_header \<Rightarrow> capture" where
  "newCaptureResponseWriter limit h =
     \<lparr>capStatus = 0, wroteHeader = False, capHeader = h, capBody = [], capMaxBody = limit, truncated = False\<rparr>"

definition WriteHeader :: "int \<Rightarrow> capture \<Rightarrow> capture" where
  "WriteHeader status w =
     (if wroteHeader w then w
      else w\<lparr>capStatus := status, wroteHeader := True,
        capHeader := (if header_get (hget (capHeader w)) ''X-Content-Type-Options'' = ''''
          then gm_set ''X-Content-Type-Options'' [''nosniff''] (capHeader w) else capHeader w)\<rparr>)"

definition capture_bytes :: "string \<Rightarrow> capture \<Rightarrow> capture" where
  "capture_bytes p w =
     (if truncated w \<or> p = [] then w
      else if 0 < capMaxBody w \<and> capMaxBody w < int (length (capBody w) + length p)
        then w\<lparr>capBody := capBody w @ take (nat (capMaxBody w - int (length (capBody w)))) p, truncated := True\<rparr>
      else w\<lparr>capBody := capBody w @ p\<rparr>)"

definition Write :: "string \<Rightarrow> capture \<Rightarrow> capture" where
  "Write p w = capture_bytes p (if wroteHeader w then w else WriteHeader 200 w)"

text \<open>\<open>Inl\<close> is the reason why nothing is cached.\<close>

definition cacheEntry :: "case_table \<Rightarrow> capture \<Rightarrow> string + Entry" where
  "cacheEntry tab w =
     (let e = \<lparr>Status = (if capStatus w = 0 then 200 else capStatus w), EHeader = sanitizeResponseHeader tab (capHeader w),
            Body = capBody w, DiskExpiresAt = zero_time\<rparr> in
      if truncated w then Inl ''oversized_response''
      else let reason = uncacheableReason tab (capMaxBody w) e in
        if reason \<noteq> '''' then Inl reason else Inr e)"

text \<open>What is captured is what was written, unless it exceeds the limit; then nothing is cached.\<close>

lemma capture_exact:
  "\<not> truncated (fold Write ps w) \<Longrightarrow> capBody (fold Write ps w) = capBody w @ concat ps"
proof (induction ps arbitrary: w)
  case (Cons p ps)
  have w: "capBody (if wroteHeader w then w else WriteHeader 200 w) = capBody w"
    "truncated (if wroteHeader w then w else WriteHeader 200 w) = truncated w" by (simp_all add: WriteHeader_def)
  have mono: "truncated x \<Longrightarrow> truncated (fold Write qs x)" for qs x
    by (induction qs arbitrary: x) (auto simp: Write_def capture_bytes_def WriteHeader_def)
  have "\<not> truncated (Write p w)" using Cons.prems mono [of "Write p w" ps] by auto
  then have "capBody (Write p w) = capBody w @ p" using w by (auto simp: Write_def capture_bytes_def split: if_splits)
  then show ?case using Cons by simp
qed simp

section \<open>The invariant of the memory tier\<close>

definition item_bytes :: "(string, memoryEntry) gomap \<Rightarrow> int" where
  "item_bytes m = (\<Sum>(k, i) \<leftarrow> m. msize i)"

definition bucket :: "Cache \<Rightarrow> string \<Rightarrow> string set" where
  "bucket c sk = (case gm_get (sessionEntries c) sk of Some b \<Rightarrow> set b | None \<Rightarrow> {})"

definition item_ok :: "string \<Rightarrow> memoryEntry \<Rightarrow> bool" where
  "item_ok k i \<longleftrightarrow> k \<noteq> '''' \<and> 0 \<le> msize i \<and> memoryExpiresAt i \<le> DiskExpiresAt (entry i)"

text \<open>The byte counter is the sum of the entries' sizes and the buckets are exactly the entries of each session.\<close>

definition memory_ok :: "Cache \<Rightarrow> bool" where
  "memory_ok c \<longleftrightarrow> gm_wf (items c) \<and> memoryBytes c = item_bytes (items c) \<and>
     (\<forall>(k, i) \<in> set (items c). item_ok k i) \<and>
     (\<forall>sk k. k \<in> bucket c sk \<longleftrightarrow> sk \<noteq> '''' \<and> (\<exists>i. gm_get (items c) k = Some i \<and> sessionKey i = sk)) \<and>
     gm_wf (sessionEntries c) \<and> (\<forall>(sk, b) \<in> set (sessionEntries c). b \<noteq> [])"

definition flight :: "Cache \<Rightarrow> (string, nat) gomap \<times> nat \<times> nat list" where
  "flight c = (inflight c, slotCount c, closedSlots c)"

definition config :: "Cache \<Rightarrow> (string \<times> int \<times> int) \<times> int \<times> int \<times> int" where
  "config c = ((dir c, memoryTTL c, diskTTL c), maxBody c, memoryMaxBytes c, diskMaxBytes c)"

lemma config_eq: "config c' = config c \<Longrightarrow> dir c' = dir c \<and> memoryTTL c' = memoryTTL c \<and> diskTTL c' = diskTTL c \<and> maxBody c' = maxBody c \<and>
    memoryMaxBytes c' = memoryMaxBytes c \<and> diskMaxBytes c' = diskMaxBytes c"
  by (simp add: config_def)

lemma item_bytes_del:
  "gm_wf m \<Longrightarrow> item_bytes (gm_del k m) = item_bytes m - (case gm_get m k of Some i \<Rightarrow> msize i | None \<Rightarrow> 0)"
proof (induction m)
  case (Cons x m)
  then show ?case by (cases x) (auto simp: item_bytes_def gm_wf_def gm_del_notin split: option.splits dest: map_of_SomeD)
qed (simp add: item_bytes_def)

lemma item_bytes_set:
  "item_bytes (gm_set k v m) = item_bytes m - (case gm_get m k of Some i \<Rightarrow> msize i | None \<Rightarrow> 0) + msize v"
  by (induction m) (auto simp: item_bytes_def split: option.splits)

lemma item_bytes_nonneg: "\<forall>(k, i) \<in> set m. item_ok k i \<Longrightarrow> 0 \<le> item_bytes m"
  by (induction m) (auto simp: item_bytes_def item_ok_def)

lemma memory_ok_bytes: "memory_ok c \<Longrightarrow> 0 \<le> memoryBytes c"
  by (simp add: memory_ok_def item_bytes_nonneg)

lemma bucket_remove:
  "bucket (removeFromSessionLocked sk key c) s = (if s = sk \<and> sk \<noteq> '''' \<and> key \<noteq> '''' then bucket c s - {key} else bucket c s)"
  by (auto simp: bucket_def removeFromSessionLocked_def Let_def gm_get_set gm_get_del filter_empty_conv split: option.splits if_splits)

lemma bucket_add:
  "bucket (addToSessionLocked sk key c) s = (if s = sk \<and> sk \<noteq> '''' \<and> key \<noteq> '''' then insert key (bucket c s) else bucket c s)"
  by (auto simp: bucket_def addToSessionLocked_def Let_def gm_get_set split: option.splits)

lemma remove_session_frame [simp]:
  "items (removeFromSessionLocked sk key c) = items c" "memoryBytes (removeFromSessionLocked sk key c) = memoryBytes c"
  "flight (removeFromSessionLocked sk key c) = flight c" "config (removeFromSessionLocked sk key c) = config c"
  "disk (removeFromSessionLocked sk key c) = disk c"
  by (auto simp: removeFromSessionLocked_def Let_def flight_def config_def split: option.split)

lemma add_session_frame [simp]:
  "items (addToSessionLocked sk key c) = items c" "memoryBytes (addToSessionLocked sk key c) = memoryBytes c"
  "flight (addToSessionLocked sk key c) = flight c" "config (addToSessionLocked sk key c) = config c"
  "disk (addToSessionLocked sk key c) = disk c"
  by (auto simp: addToSessionLocked_def Let_def flight_def config_def)

lemma remove_session_wf:
  assumes "gm_wf (sessionEntries c)" "\<forall>(sk, b) \<in> set (sessionEntries c). b \<noteq> []"
  shows "gm_wf (sessionEntries (removeFromSessionLocked sk key c)) \<and> (\<forall>(sk, b) \<in> set (sessionEntries (removeFromSessionLocked sk key c)). b \<noteq> [])"
  using assms by (auto simp: removeFromSessionLocked_def Let_def gm_del_values split: option.splits dest: gm_set_values)

lemma add_session_wf:
  assumes "gm_wf (sessionEntries c)" "\<forall>(sk, b) \<in> set (sessionEntries c). b \<noteq> []"
  shows "gm_wf (sessionEntries (addToSessionLocked sk key c)) \<and> (\<forall>(sk, b) \<in> set (sessionEntries (addToSessionLocked sk key c)). b \<noteq> [])"
  using assms by (auto simp: addToSessionLocked_def Let_def List.insert_def dest!: gm_set_values split: if_splits option.splits)

text \<open>Updates of the counters and of the item table seen through the other observers.\<close>

lemma update_frame [simp]:
  "flight (c\<lparr>items := a, memoryBytes := n\<rparr>) = flight c" "config (c\<lparr>items := a, memoryBytes := n\<rparr>) = config c"
  "flight (c\<lparr>memoryBytes := n\<rparr>) = flight c" "config (c\<lparr>memoryBytes := n\<rparr>) = config c"
  "flight (c\<lparr>items := a\<rparr>) = flight c" "config (c\<lparr>items := a\<rparr>) = config c"
  "bucket (c\<lparr>items := a, memoryBytes := n\<rparr>) = bucket c" "bucket (c\<lparr>memoryBytes := n\<rparr>) = bucket c" "bucket (c\<lparr>items := a\<rparr>) = bucket c"
  by (auto simp: flight_def config_def bucket_def fun_eq_iff)

lemma drop_item_frame [simp]:
  "items (drop_item key item c) = gm_del key (items c)" "memoryBytes (drop_item key item c) = memoryBytes c - msize item"
  "flight (drop_item key item c) = flight c" "config (drop_item key item c) = config c" "disk (drop_item key item c) = disk c"
  by (simp_all add: drop_item_def)

lemma memory_ok_drop:
  assumes ok: "memory_ok c" and item: "gm_get (items c) key = Some item"
  shows "memory_ok (drop_item key item c)"
proof -
  have wf: "gm_wf (items c)" and kok: "item_ok key item" using assms by (auto simp: memory_ok_def dest: map_of_SomeD)
  have "k \<in> bucket (drop_item key item c) sk \<longleftrightarrow> sk \<noteq> '''' \<and> (\<exists>i. gm_get (items (drop_item key item c)) k = Some i \<and> sessionKey i = sk)" for sk k
    using ok item kok unfolding memory_ok_def drop_item_def by (auto simp: bucket_remove gm_get_del item_ok_def)
  moreover have "\<forall>(k, i) \<in> set (items (drop_item key item c)). item_ok k i" using ok by (auto simp: memory_ok_def gm_del_values)
  moreover have "memoryBytes (drop_item key item c) = item_bytes (items (drop_item key item c))"
    using ok item wf by (simp add: memory_ok_def item_bytes_del)
  moreover have "gm_wf (sessionEntries (drop_item key item c)) \<and> (\<forall>(sk, b) \<in> set (sessionEntries (drop_item key item c)). b \<noteq> [])"
    unfolding drop_item_def using ok by (intro remove_session_wf) (auto simp: memory_ok_def)
  ultimately show ?thesis using wf by (simp add: memory_ok_def)
qed

lemma fold_drop:
  assumes "memory_ok c" "gm_wf xs" "\<forall>(k, i) \<in> set xs. gm_get (items c) k = Some i"
  shows "memory_ok (fold (\<lambda>(key, item) c. if P item then drop_item key item c else c) xs c) \<and>
    (\<forall>k. gm_get (items (fold (\<lambda>(key, item) c. if P item then drop_item key item c else c) xs c)) k =
      (if \<exists>i. (k, i) \<in> set xs \<and> P i then None else gm_get (items c) k)) \<and>
    flight (fold (\<lambda>(key, item) c. if P item then drop_item key item c else c) xs c) = flight c \<and>
    config (fold (\<lambda>(key, item) c. if P item then drop_item key item c else c) xs c) = config c \<and>
    disk (fold (\<lambda>(key, item) c. if P item then drop_item key item c else c) xs c) = disk c"
  using assms
proof (induction xs arbitrary: c)
  case (Cons x xs)
  obtain k0 i0 where x: "x = (k0, i0)" by (cases x)
  let ?c = "if P i0 then drop_item k0 i0 c else c"
  have notin: "k0 \<notin> fst ` set xs" and wf: "gm_wf xs" using Cons.prems(2) x by (auto simp: gm_wf_def)
  have ok: "memory_ok ?c" using Cons.prems x by (auto intro: memory_ok_drop)
  have get: "gm_get (items ?c) k = (if P i0 \<and> k = k0 then None else gm_get (items c) k)" for k by (simp add: gm_get_del)
  have "\<forall>(k, i) \<in> set xs. gm_get (items ?c) k = Some i" using Cons.prems(3) notin x get by (force simp: image_iff)
  note IH = Cons.IH [OF ok wf this]
  have "(\<exists>i. (k, i) \<in> set (x # xs) \<and> P i) \<longleftrightarrow> (P i0 \<and> k = k0) \<or> (\<exists>i. (k, i) \<in> set xs \<and> P i)" for k using x by auto
  then show ?case using IH get x by auto
qed simp

lemma sweep_spec:
  assumes "memory_ok c"
  shows "memory_ok (sweepMemoryLocked now c) \<and>
    (\<forall>k. gm_get (items (sweepMemoryLocked now c)) k = (case gm_get (items c) k of Some i \<Rightarrow> if expired now i then None else Some i | None \<Rightarrow> None)) \<and>
    flight (sweepMemoryLocked now c) = flight c \<and> config (sweepMemoryLocked now c) = config c \<and> disk (sweepMemoryLocked now c) = disk c"
proof -
  let ?f = "fold (\<lambda>(key, item) c. if expired now item then drop_item key item c else c) (items c) c"
  have wf: "gm_wf (items c)" using assms by (simp add: memory_ok_def)
  have all: "\<forall>(k, i) \<in> set (items c). gm_get (items c) k = Some i" using gm_get_mem [OF wf] by auto
  note f = fold_drop [OF assms wf all, of "expired now"]
  have "sweepMemoryLocked now c = ?f" using memory_ok_bytes [of ?f] f by (simp add: sweepMemoryLocked_def Let_def)
  moreover have "(\<exists>i. (k, i) \<in> set (items c) \<and> expired now i) \<longleftrightarrow> (\<exists>i. gm_get (items c) k = Some i \<and> expired now i)" for k
    using gm_get_mem [OF wf] by auto
  ultimately show ?thesis using f by (auto split: option.split)
qed

text \<open>Prolonging a lease changes no other observation of the memory tier.\<close>

definition prolonged :: "memoryEntry \<Rightarrow> memoryEntry \<Rightarrow> bool" where
  "prolonged i i' \<longleftrightarrow> entry i' = entry i \<and> msize i' = msize i \<and> sessionKey i' = sessionKey i \<and> memoryExpiresAt i \<le> memoryExpiresAt i'"

definition same_but_expiry :: "Cache \<Rightarrow> Cache \<Rightarrow> bool" where
  "same_but_expiry c c' \<longleftrightarrow> memoryBytes c' = memoryBytes c \<and> sessionEntries c' = sessionEntries c \<and> flight c' = flight c \<and>
     config c' = config c \<and> disk c' = disk c \<and> (\<forall>k. rel_option prolonged (gm_get (items c) k) (gm_get (items c') k))"

lemma rel_option_prolonged_refl: "rel_option prolonged x x"
  by (cases x) (simp_all add: prolonged_def)

lemma rel_option_prolonged_trans: "rel_option prolonged x y \<Longrightarrow> rel_option prolonged y z \<Longrightarrow> rel_option prolonged x z"
  by (cases x; cases y; cases z) (auto simp: prolonged_def)

lemma same_but_expiry_refl [simp]: "same_but_expiry c c"
  by (simp add: same_but_expiry_def rel_option_prolonged_refl)

lemma same_but_expiry_trans: "same_but_expiry a b \<Longrightarrow> same_but_expiry b c \<Longrightarrow> same_but_expiry a c"
  unfolding same_but_expiry_def using rel_option_prolonged_trans by (metis (no_types, lifting))

lemma same_but_expiry_get:
  assumes "same_but_expiry c c'" "gm_get (items c') k = Some i'"
  shows "\<exists>i. gm_get (items c) k = Some i \<and> prolonged i i'"
proof -
  have "rel_option prolonged (gm_get (items c) k) (Some i')" using assms by (metis same_but_expiry_def)
  then show ?thesis by (simp add: option_rel_Some2)
qed

lemma same_but_expiry_get':
  assumes "same_but_expiry c c'" "gm_get (items c) k = Some i"
  shows "\<exists>i'. gm_get (items c') k = Some i' \<and> prolonged i i'"
proof -
  have "rel_option prolonged (Some i) (gm_get (items c') k)" using assms by (metis same_but_expiry_def)
  then show ?thesis by (simp add: option_rel_Some1)
qed

text \<open>The bytes only depend on the sizes, whatever the order of the entries.\<close>

lemma item_bytes_eq_sum: "gm_wf m \<Longrightarrow> item_bytes m = (\<Sum>k \<in> dom (gm_get m). msize (the (gm_get m k)))"
proof (induction m)
  case (Cons x m)
  obtain k i where x: "x = (k, i)" by (cases x)
  have notin: "k \<notin> dom (gm_get m)" and wf: "gm_wf m" using Cons.prems x by (auto simp: gm_wf_def dom_map_of_conv_image_fst)
  have "(\<Sum>j \<in> dom (gm_get m). msize (the (gm_get (x # m) j))) = (\<Sum>j \<in> dom (gm_get m). msize (the (gm_get m j)))"
    using notin x by (intro sum.cong) auto
  moreover have "dom (gm_get (x # m)) = insert k (dom (gm_get m))" using x by auto
  moreover have "item_bytes (x # m) = msize i + item_bytes m" using x by (simp add: item_bytes_def)
  moreover have "msize (the (gm_get (x # m) k)) = msize i" using x by simp
  ultimately show ?case using Cons.IH [OF wf] notin by (simp only: sum.insert [OF finite_dom_map_of notin])
qed (simp add: item_bytes_def)

lemma memory_ok_same:
  assumes ok: "memory_ok c" and s: "same_but_expiry c c'" and wf: "gm_wf (items c')"
    and cap: "\<And>k i'. gm_get (items c') k = Some i' \<Longrightarrow> memoryExpiresAt i' \<le> DiskExpiresAt (entry i')"
  shows "memory_ok c'"
proof -
  have b: "bucket c' = bucket c" using s by (simp add: bucket_def fun_eq_iff same_but_expiry_def)
  have dom: "dom (gm_get (items c')) = dom (gm_get (items c))"
    using same_but_expiry_get [OF s] same_but_expiry_get' [OF s] unfolding dom_def by fastforce
  have "item_bytes (items c') = item_bytes (items c)"
  proof -
    have "msize (the (gm_get (items c') k)) = msize (the (gm_get (items c) k))" if "k \<in> dom (gm_get (items c))" for k
      using that same_but_expiry_get' [OF s, of k] by (auto simp: prolonged_def)
    then show ?thesis using ok wf dom by (simp add: item_bytes_eq_sum memory_ok_def)
  qed
  moreover have "\<forall>(k, i) \<in> set (items c'). item_ok k i"
  proof (clarify)
    fix k i' assume "(k, i') \<in> set (items c')"
    then have g: "gm_get (items c') k = Some i'" using gm_get_mem [OF wf] by simp
    then obtain i where "gm_get (items c) k = Some i" "msize i' = msize i"
      using same_but_expiry_get [OF s, of k] unfolding prolonged_def by blast
    then show "item_ok k i'" using ok cap [OF g] by (auto simp: memory_ok_def item_ok_def dest!: map_of_SomeD)
  qed
  moreover have "(\<exists>i. gm_get (items c') k = Some i \<and> sessionKey i = sk) \<longleftrightarrow> (\<exists>i. gm_get (items c) k = Some i \<and> sessionKey i = sk)" for k sk
    using same_but_expiry_get [OF s, of k] same_but_expiry_get' [OF s, of k] unfolding prolonged_def by metis
  ultimately show ?thesis using ok s wf b by (simp add: memory_ok_def same_but_expiry_def)
qed

lemma bump_single_spec:
  assumes ok: "memory_ok c" and item: "gm_get (items c) key = Some item"
  shows "same_but_expiry c (bumpSingleEntryExpiryLocked key item now ttl c) \<and> memory_ok (bumpSingleEntryExpiryLocked key item now ttl c)"
proof -
  let ?c = "bumpSingleEntryExpiryLocked key item now ttl c"
  have s: "same_but_expiry c ?c" using item
    by (auto simp: same_but_expiry_def bumpSingleEntryExpiryLocked_def Let_def gm_get_set rel_option_prolonged_refl prolonged_def)
  have wf: "gm_wf (items c)" using ok by (simp add: memory_ok_def)
  have capc: "memoryExpiresAt i \<le> DiskExpiresAt (entry i)" if "gm_get (items c) k = Some i" for k i
    using ok that by (auto simp: memory_ok_def item_ok_def dest!: map_of_SomeD)
  have "gm_wf (items ?c)" using wf by (simp add: bumpSingleEntryExpiryLocked_def Let_def)
  moreover have "memoryExpiresAt i' \<le> DiskExpiresAt (entry i')" if "gm_get (items ?c) k = Some i'" for k i'
    using that capc [of k i'] by (auto simp: bumpSingleEntryExpiryLocked_def Let_def gm_get_set split: if_splits)
  ultimately show ?thesis using s memory_ok_same [OF ok s] by blast
qed

lemma bump_siblings_spec:
  "memory_ok c \<Longrightarrow> same_but_expiry c (bump_siblings key ks now ttl c) \<and> memory_ok (bump_siblings key ks now ttl c)"
proof (induction ks arbitrary: c)
  case (Cons k ks)
  let ?c = "if k = key then c else case gm_get (items c) k of None \<Rightarrow> c | Some sibling \<Rightarrow> bumpSingleEntryExpiryLocked k sibling now ttl c"
  have step: "same_but_expiry c ?c" "memory_ok ?c" using Cons.prems bump_single_spec [OF Cons.prems] by (auto split: option.split)
  have unf: "bump_siblings key (k # ks) now ttl c = bump_siblings key ks now ttl ?c" by (simp add: bump_siblings_def)
  show ?case unfolding unf using Cons.IH [OF step(2)] same_but_expiry_trans [OF step(1)] by blast
qed (simp add: bump_siblings_def)

lemma memory_ok_sessionHits [simp]: "memory_ok (c\<lparr>sessionHits := n\<rparr>) = memory_ok c"
  by (simp add: memory_ok_def bucket_def)

lemma same_but_expiry_sessionHits: "same_but_expiry c d \<Longrightarrow> same_but_expiry c (d\<lparr>sessionHits := n\<rparr>)"
  by (simp add: same_but_expiry_def flight_def config_def)

lemma bump_memory_spec:
  assumes ok: "memory_ok c"
  shows "same_but_expiry c (bumpMemoryExpiryLocked key now c) \<and> memory_ok (bumpMemoryExpiryLocked key now c)"
proof (cases "gm_get (items c) key")
  case None
  then show ?thesis using ok by (simp add: bumpMemoryExpiryLocked_def)
next
  case (Some item)
  note one = bump_single_spec [OF ok Some, of now "memoryTTL c"]
  have "same_but_expiry c (bump_siblings key ks now ttl (bumpSingleEntryExpiryLocked key item now (memoryTTL c) c)) \<and>
      memory_ok (bump_siblings key ks now ttl (bumpSingleEntryExpiryLocked key item now (memoryTTL c) c))" for ks ttl
    using one bump_siblings_spec [of "bumpSingleEntryExpiryLocked key item now (memoryTTL c) c"] same_but_expiry_trans by blast
  then show ?thesis using ok one Some
    by (auto simp: bumpMemoryExpiryLocked_def Let_def intro: same_but_expiry_sessionHits split: option.split)
qed

section \<open>Eviction\<close>

lemma evict_until_spec:
  assumes "memory_ok c" "distinct (map fst cands)" "\<forall>(k, i) \<in> set cands. gm_get (items c) k = Some i"
  shows "memory_ok (evict_until limit cands c) \<and> flight (evict_until limit cands c) = flight c \<and> config (evict_until limit cands c) = config c \<and>
    disk (evict_until limit cands c) = disk c \<and>
    (\<forall>k i. gm_get (items (evict_until limit cands c)) k = Some i \<longrightarrow> gm_get (items c) k = Some i) \<and>
    (memoryBytes (evict_until limit cands c) \<le> limit \<or> (\<forall>(k, i) \<in> set cands. gm_get (items (evict_until limit cands c)) k = None))"
  using assms
proof (induction cands arbitrary: c)
  case (Cons x cands)
  obtain k0 i0 where x: "x = (k0, i0)" by (cases x)
  show ?case
  proof (cases "memoryBytes c \<le> limit")
    case True
    then show ?thesis using Cons.prems x by simp
  next
    case False
    have item: "gm_get (items c) k0 = Some i0" using Cons.prems x by simp
    let ?c = "drop_item k0 i0 c"
    have ok: "memory_ok ?c" using Cons.prems(1) item by (rule memory_ok_drop)
    have "\<forall>(k, i) \<in> set cands. gm_get (items ?c) k = Some i" using Cons.prems x by (force simp: gm_get_del image_iff)
    moreover have "distinct (map fst cands)" using Cons.prems(2) by simp
    ultimately have IH: "memory_ok (evict_until limit cands ?c) \<and> flight (evict_until limit cands ?c) = flight ?c \<and>
        config (evict_until limit cands ?c) = config ?c \<and> disk (evict_until limit cands ?c) = disk ?c \<and>
        (\<forall>k i. gm_get (items (evict_until limit cands ?c)) k = Some i \<longrightarrow> gm_get (items ?c) k = Some i) \<and>
        (memoryBytes (evict_until limit cands ?c) \<le> limit \<or> (\<forall>(k, i) \<in> set cands. gm_get (items (evict_until limit cands ?c)) k = None))"
      using Cons.IH [OF ok] by blast
    have gone: "gm_get (items (evict_until limit cands ?c)) k0 = None"
    proof (cases "gm_get (items (evict_until limit cands ?c)) k0")
      case (Some i)
      then have "gm_get (items ?c) k0 = Some i" using IH by blast
      then show ?thesis by (simp add: gm_get_del)
    qed
    have keep: "gm_get (items c) k = Some i" if "gm_get (items (evict_until limit cands ?c)) k = Some i" for k i
    proof -
      have "gm_get (items ?c) k = Some i" using IH that by blast
      then show ?thesis by (simp add: gm_get_del split: if_splits)
    qed
    have unf: "evict_until limit (x # cands) c = evict_until limit cands ?c" using False item x by simp
    show ?thesis unfolding unf using IH gone x keep by simp
  qed
qed auto

lemma enforce_limit_spec:
  assumes ok: "memory_ok c" and limit: "0 < memoryMaxBytes c"
  shows "memory_ok (enforceMemoryLimitLocked c) \<and> memoryBytes (enforceMemoryLimitLocked c) \<le> memoryMaxBytes c \<and>
    flight (enforceMemoryLimitLocked c) = flight c \<and> config (enforceMemoryLimitLocked c) = config c \<and> disk (enforceMemoryLimitLocked c) = disk c \<and>
    (\<forall>k i. gm_get (items (enforceMemoryLimitLocked c)) k = Some i \<longrightarrow> gm_get (items c) k = Some i)"
proof (cases "memoryBytes c \<le> memoryMaxBytes c")
  case True
  then show ?thesis using ok by (simp add: enforceMemoryLimitLocked_def)
next
  case False
  let ?s = "sort_key (\<lambda>(k, item). memoryExpiresAt item) (items c)"
  let ?e = "evict_until (memoryMaxBytes c) ?s c"
  have wf: "gm_wf (items c)" using ok by (simp add: memory_ok_def)
  have "distinct (map fst ?s)"
    using wf unfolding gm_wf_def distinct_map by (simp add: inj_on_def distinct_sort)
  moreover have "\<forall>(k, i) \<in> set ?s. gm_get (items c) k = Some i" using gm_get_mem [OF wf] by auto
  ultimately have e: "memory_ok ?e \<and> flight ?e = flight c \<and> config ?e = config c \<and> disk ?e = disk c \<and>
      (\<forall>k i. gm_get (items ?e) k = Some i \<longrightarrow> gm_get (items c) k = Some i) \<and>
      (memoryBytes ?e \<le> memoryMaxBytes c \<or> (\<forall>(k, i) \<in> set ?s. gm_get (items ?e) k = None))"
    using evict_until_spec [OF ok, of ?s "memoryMaxBytes c"] by blast
  have "enforceMemoryLimitLocked c = ?e"
    using False limit memory_ok_bytes [of ?e] e by (simp add: enforceMemoryLimitLocked_def Let_def)
  moreover have "memoryBytes ?e \<le> memoryMaxBytes c"
  proof (rule ccontr)
    assume over: "\<not> memoryBytes ?e \<le> memoryMaxBytes c"
    then have none: "\<forall>(k, i) \<in> set (items c). gm_get (items ?e) k = None" using e by auto
    have "items ?e = []"
    proof (cases "items ?e")
      case (Cons y ys)
      obtain k i where "y = (k, i)" by (cases y)
      then have g: "gm_get (items ?e) k = Some i" using Cons by simp
      then have "(k, i) \<in> set (items c)" using e gm_get_mem [OF wf] by blast
      then show ?thesis using none g by auto
    qed
    then have "memoryBytes ?e = 0" using e by (simp add: memory_ok_def item_bytes_def)
    then show False using over limit by simp
  qed
  ultimately show ?thesis using e by simp
qed

section \<open>Storing in memory\<close>

lemma memory_ok_insert:
  assumes ok: "memory_ok c" and key: "key \<noteq> ''''" and cap: "expiresAt \<le> DiskExpiresAt e" and size: "0 \<le> sz"
  shows "memory_ok (addToSessionLocked sk key
    ((case gm_get (items c) key of
        Some old \<Rightarrow> if sessionKey old \<noteq> '''' \<and> sessionKey old \<noteq> sk
          then removeFromSessionLocked (sessionKey old) key (c\<lparr>memoryBytes := memoryBytes c - msize old\<rparr>)
          else c\<lparr>memoryBytes := memoryBytes c - msize old\<rparr>
      | None \<Rightarrow> c)\<lparr>items := gm_set key \<lparr>entry = e, memoryExpiresAt = expiresAt, msize = sz, sessionKey = sk\<rparr> (items c),
        memoryBytes := memoryBytes c - (case gm_get (items c) key of Some old \<Rightarrow> msize old | None \<Rightarrow> 0) + sz\<rparr>))"
    (is "memory_ok (addToSessionLocked sk key (?c1\<lparr>items := ?items, memoryBytes := ?bytes\<rparr>))")
proof -
  have wf: "gm_wf (items c)" using ok by (simp add: memory_ok_def)
  have b1: "bucket ?c1 s = (if \<exists>old. gm_get (items c) key = Some old \<and> sessionKey old = s \<and> s \<noteq> '''' \<and> s \<noteq> sk then bucket c s - {key} else bucket c s)" for s
    using key by (auto simp: bucket_remove split: option.split)
  have bk: "k \<in> bucket c s \<longleftrightarrow> s \<noteq> '''' \<and> (\<exists>i. gm_get (items c) k = Some i \<and> sessionKey i = s)" for k s
    using ok by (simp add: memory_ok_def)
  have "k \<in> bucket (addToSessionLocked sk key (?c1\<lparr>items := ?items, memoryBytes := ?bytes\<rparr>)) s \<longleftrightarrow>
      s \<noteq> '''' \<and> (\<exists>i. gm_get ?items k = Some i \<and> sessionKey i = s)" for k s
    using key bk [of k s] by (auto simp: bucket_add b1 gm_get_set)
  moreover have "gm_wf (sessionEntries ?c1) \<and> (\<forall>(sk, b) \<in> set (sessionEntries ?c1). b \<noteq> [])"
    using ok remove_session_wf [of "c\<lparr>memoryBytes := n\<rparr>" for n] by (auto simp: memory_ok_def split: option.split)
  then have "gm_wf (sessionEntries (addToSessionLocked sk key (?c1\<lparr>items := ?items, memoryBytes := ?bytes\<rparr>))) \<and>
      (\<forall>(sk, b) \<in> set (sessionEntries (addToSessionLocked sk key (?c1\<lparr>items := ?items, memoryBytes := ?bytes\<rparr>))). b \<noteq> [])"
    by (intro add_session_wf) auto
  moreover have "\<forall>(k, i) \<in> set ?items. item_ok k i"
    using ok key cap size by (auto simp: memory_ok_def item_ok_def dest!: gm_set_values)
  ultimately show ?thesis using ok wf by (simp add: memory_ok_def item_bytes_set)
qed

lemma memorySize_nonneg: "0 \<le> memorySize e"
  unfolding memorySize_def by (intro add_nonneg_nonneg sum_list_nonneg) (auto intro!: add_nonneg_nonneg sum_list_nonneg)

text \<open>The new entry in place, before the budget is enforced.\<close>

definition placed :: "string \<Rightarrow> string \<Rightarrow> Entry \<Rightarrow> time \<Rightarrow> Cache \<Rightarrow> Cache" where
  "placed key sk e expiresAt c = addToSessionLocked sk key
    ((case gm_get (items c) key of
        Some old \<Rightarrow> if sessionKey old \<noteq> '''' \<and> sessionKey old \<noteq> sk
          then removeFromSessionLocked (sessionKey old) key (c\<lparr>memoryBytes := memoryBytes c - msize old\<rparr>)
          else c\<lparr>memoryBytes := memoryBytes c - msize old\<rparr>
      | None \<Rightarrow> c)\<lparr>items := gm_set key \<lparr>entry = e, memoryExpiresAt = expiresAt, msize = memorySize e, sessionKey = sk\<rparr> (items c),
        memoryBytes := memoryBytes c - (case gm_get (items c) key of Some old \<Rightarrow> msize old | None \<Rightarrow> 0) + memorySize e\<rparr>)"

definition placed_bumped :: "string \<Rightarrow> string \<Rightarrow> Entry \<Rightarrow> time \<Rightarrow> time \<Rightarrow> Cache \<Rightarrow> Cache" where
  "placed_bumped key sk e expiresAt now c = (let c3 = placed key sk e expiresAt c in
     if sk = '''' then c3
     else case gm_get (sessionEntries c3) sk of None \<Rightarrow> c3 | Some siblings \<Rightarrow> bump_siblings key siblings now (memoryTTL c) c3)"

lemma placed_steps:
  "placed key sk e t c = (let c1 = (case gm_get (items c) key of
          Some old \<Rightarrow> (let c' = c\<lparr>memoryBytes := memoryBytes c - msize old\<rparr> in
            if sessionKey old \<noteq> '''' \<and> sessionKey old \<noteq> sk then removeFromSessionLocked (sessionKey old) key c' else c')
        | None \<Rightarrow> c);
      c2 = c1\<lparr>items := gm_set key \<lparr>entry = e, memoryExpiresAt = t, msize = memorySize e, sessionKey = sk\<rparr> (items c1),
             memoryBytes := memoryBytes c1 + memorySize e\<rparr>
    in addToSessionLocked sk key c2)"
  by (cases "gm_get (items c) key") (simp_all add: placed_def Let_def)

lemma put_memory_unfold:
  "putMemoryWithPolicySession key sk e now c0 = (let c = sweepMemoryLocked now c0;
      expiresAt = min (DiskExpiresAt e) (now + memoryTTL c) in
    if 0 < memoryMaxBytes c \<and> memoryMaxBytes c < memorySize e \<or> \<not> now < expiresAt then c
    else enforceMemoryLimitLocked (placed_bumped key sk e expiresAt now c))"
proof -
  have m: "(if DiskExpiresAt e < t then DiskExpiresAt e else t) = min (DiskExpiresAt e) t" for t by (simp add: min_def)
  have join: "(if A then x else if B then y else x) = (if A \<or> \<not> B then x else y)" for A B and x y :: Cache by simp
  show ?thesis unfolding putMemoryWithPolicySession_def m placed_bumped_def placed_steps Let_def by (rule join)
qed

lemma placed_frame [simp]:
  "items (placed key sk e t c) = gm_set key \<lparr>entry = e, memoryExpiresAt = t, msize = memorySize e, sessionKey = sk\<rparr> (items c)"
  "flight (placed key sk e t c) = flight c" "config (placed key sk e t c) = config c" "disk (placed key sk e t c) = disk c"
  "memoryBytes (placed key sk e t c) = memoryBytes c - (case gm_get (items c) key of Some old \<Rightarrow> msize old | None \<Rightarrow> 0) + memorySize e"
  by (auto simp: placed_def split: option.split)

lemma placed_bumped_spec:
  assumes "memory_ok c" "key \<noteq> ''''" "t \<le> DiskExpiresAt e"
  shows "memory_ok (placed_bumped key sk e t now c)" "same_but_expiry (placed key sk e t c) (placed_bumped key sk e t now c)"
proof -
  have ok: "memory_ok (placed key sk e t c)"
    unfolding placed_def using assms memorySize_nonneg by (intro memory_ok_insert) auto
  then show "memory_ok (placed_bumped key sk e t now c)" "same_but_expiry (placed key sk e t c) (placed_bumped key sk e t now c)"
    using bump_siblings_spec [OF ok] by (auto simp: placed_bumped_def Let_def split: option.split)
qed

definition budget_ok :: "Cache \<Rightarrow> bool" where
  "budget_ok c \<longleftrightarrow> memory_ok c \<and> 0 < memoryMaxBytes c \<and> memoryBytes c \<le> memoryMaxBytes c"

lemma sweep_bytes:
  assumes "memory_ok c"
  shows "memoryBytes (sweepMemoryLocked now c) \<le> memoryBytes c"
proof -
  let ?s = "sweepMemoryLocked now c"
  have ok: "memory_ok ?s" using sweep_spec [OF assms] by blast
  have get: "gm_get (items ?s) k = Some i \<Longrightarrow> gm_get (items c) k = Some i" for k i
    using sweep_spec [OF assms, of now] by (auto split: option.splits if_splits)
  have sub: "dom (gm_get (items ?s)) \<subseteq> dom (gm_get (items c))" using get by (auto simp: dom_def)
  have "item_bytes (items ?s) = (\<Sum>k \<in> dom (gm_get (items ?s)). msize (the (gm_get (items c) k)))"
    using ok get by (subst item_bytes_eq_sum) (auto simp: memory_ok_def intro!: sum.cong)
  also have "\<dots> \<le> (\<Sum>k \<in> dom (gm_get (items c)). msize (the (gm_get (items c) k)))"
  proof (rule sum_mono2 [OF finite_dom_map_of sub])
    fix k assume "k \<in> dom (gm_get (items c)) - dom (gm_get (items ?s))"
    then obtain i where i: "gm_get (items c) k = Some i" by blast
    then have "item_ok k i" using assms by (auto simp: memory_ok_def dest!: map_of_SomeD)
    then show "0 \<le> msize (the (gm_get (items c) k))" using i by (simp add: item_ok_def)
  qed
  also have "\<dots> = item_bytes (items c)" using assms by (subst item_bytes_eq_sum) (auto simp: memory_ok_def)
  finally show ?thesis using ok assms by (simp add: memory_ok_def)
qed

lemma sweep_budget: "budget_ok c \<Longrightarrow> budget_ok (sweepMemoryLocked now c)"
  using sweep_spec [of c now] sweep_bytes [of c now] config_eq [of "sweepMemoryLocked now c" c] by (auto simp: budget_ok_def)

lemma put_memory_spec:
  assumes b: "budget_ok c" and key: "key \<noteq> ''''"
  shows "budget_ok (putMemoryWithPolicySession key sk e now c) \<and> flight (putMemoryWithPolicySession key sk e now c) = flight c \<and>
    config (putMemoryWithPolicySession key sk e now c) = config c \<and> disk (putMemoryWithPolicySession key sk e now c) = disk c \<and>
    (\<forall>k i. gm_get (items (putMemoryWithPolicySession key sk e now c)) k = Some i \<longrightarrow>
       (k = key \<and> entry i = e) \<or> (\<exists>i0. gm_get (items c) k = Some i0 \<and> entry i = entry i0))"
proof -
  let ?s = "sweepMemoryLocked now c" and ?t = "min (DiskExpiresAt e) (now + memoryTTL (sweepMemoryLocked now c))"
  have ok: "memory_ok c" using b by (simp add: budget_ok_def)
  have s: "budget_ok ?s" using b by (rule sweep_budget)
  note sw = sweep_spec [OF ok, of now]
  have get: "gm_get (items ?s) k = Some i \<Longrightarrow> gm_get (items c) k = Some i" for k i
    using sw by (auto split: option.splits if_splits)
  show ?thesis
  proof (cases "0 < memoryMaxBytes ?s \<and> memoryMaxBytes ?s < memorySize e \<or> \<not> now < ?t")
    case True
    then have "putMemoryWithPolicySession key sk e now c = ?s" by (simp only: put_memory_unfold Let_def if_True)
    then show ?thesis using s sw get by auto
  next
    case False
    let ?p = "placed_bumped key sk e ?t now ?s"
    have unf: "putMemoryWithPolicySession key sk e now c = enforceMemoryLimitLocked ?p"
      using False by (simp only: put_memory_unfold Let_def if_False)
    have p: "memory_ok ?p" "same_but_expiry (placed key sk e ?t ?s) ?p"
      using placed_bumped_spec [of ?s key ?t e] s key by (auto simp: budget_ok_def)
    have cf: "config ?p = config ?s" "flight ?p = flight ?s" "disk ?p = disk ?s"
      using p(2) by (simp_all add: same_but_expiry_def)
    have lim: "0 < memoryMaxBytes ?p" using cf(1) s config_eq [of ?p ?s] by (simp add: budget_ok_def)
    note en = enforce_limit_spec [OF p(1) lim]
    have prov: "(k = key \<and> entry i = e) \<or> (\<exists>i0. gm_get (items c) k = Some i0 \<and> entry i = entry i0)"
      if "gm_get (items (enforceMemoryLimitLocked ?p)) k = Some i" for k i
    proof -
      have "gm_get (items ?p) k = Some i" using en that by blast
      then obtain i0 where "gm_get (items (placed key sk e ?t ?s)) k = Some i0" "entry i = entry i0"
        using same_but_expiry_get [OF p(2)] unfolding prolonged_def by blast
      then show ?thesis using get by (auto simp: gm_get_set split: if_splits)
    qed
    have mm: "memoryMaxBytes (enforceMemoryLimitLocked ?p) = memoryMaxBytes ?p" using en config_eq by blast
    have "budget_ok (enforceMemoryLimitLocked ?p)" using en lim mm unfolding budget_ok_def by auto
    then show ?thesis unfolding unf using en cf sw prov by auto
  qed
qed

section \<open>The other operations leave the memory tier alone\<close>

definition mem :: "Cache \<Rightarrow> (string, memoryEntry) gomap \<times> int \<times> (string, string list) gomap" where
  "mem c = (items c, memoryBytes c, sessionEntries c)"

lemma mem_memory_ok: "mem c' = mem c \<Longrightarrow> memory_ok c' = memory_ok c"
  by (simp add: mem_def memory_ok_def bucket_def)

lemma mem_budget_ok: "mem c' = mem c \<Longrightarrow> config c' = config c \<Longrightarrow> budget_ok c' = budget_ok c"
  using mem_memory_ok [of c' c] config_eq [of c' c] by (simp add: budget_ok_def mem_def)

lemma on_path_frame [simp]: "mem (on_path p f c) = mem c" "config (on_path p f c) = config c" "flight (on_path p f c) = flight c" "disk (on_path p f c) = disk c"
  by (simp_all add: on_path_def Let_def mem_def config_def flight_def)

lemma record_frame [simp]:
  "mem (recordHitLocked p s c) = mem c" "config (recordHitLocked p s c) = config c" "flight (recordHitLocked p s c) = flight c"
  "disk (recordHitLocked p s c) = disk c"
  "mem (recordMiss p c) = mem c" "config (recordMiss p c) = config c" "flight (recordMiss p c) = flight c" "disk (recordMiss p c) = disk c"
  "mem (recordStore p c) = mem c" "config (recordStore p c) = config c" "flight (recordStore p c) = flight c" "disk (recordStore p c) = disk c"
  by (simp_all add: recordHitLocked_def recordMiss_def recordStore_def) (simp_all add: mem_def config_def flight_def)

lemma record_frame2 [simp]:
  "mem (recordUncacheable p r c) = mem c" "config (recordUncacheable p r c) = config c" "flight (recordUncacheable p r c) = flight c"
  "disk (recordUncacheable p r c) = disk c"
  "mem (recordInflightHit p c) = mem c" "config (recordInflightHit p c) = config c" "flight (recordInflightHit p c) = flight c"
  "disk (recordInflightHit p c) = disk c"
  by (simp_all add: recordUncacheable_def recordInflightHit_def Let_def on_path_def mem_def config_def flight_def)

lemma remove_file_frame [simp]:
  "mem (removeDiskCacheFile de k c) = mem c" "config (removeDiskCacheFile de k c) = config c" "flight (removeDiskCacheFile de k c) = flight c"
  by (simp_all add: removeDiskCacheFile_def mem_def config_def flight_def)

lemma remove_file_disk: "set (disk (removeDiskCacheFile de k c)) \<subseteq> set (disk c)"
  by (auto simp: removeDiskCacheFile_def gm_del_values)

lemma getDisk_frame:
  "getDisk de tab key now c = (r, c') \<Longrightarrow> mem c' = mem c \<and> config c' = config c \<and> flight c' = flight c \<and> set (disk c') \<subseteq> set (disk c)"
  using remove_file_disk [of de] by (fastforce simp: getDisk_def Let_def split: if_splits option.splits)

lemma getDisk_Some:
  assumes "getDisk de tab key now c = (Some e, c')"
  shows "now < DiskExpiresAt e \<and> cacheable tab (maxBody c) e \<and>
    (\<exists>p f r. (p, f) \<in> set (disk c) \<and> content f = Some r \<and> RecordKey r = key \<and> RecordStatus r = Status e \<and> RecordBody r = Body e)"
  using assms by (fastforce simp: getDisk_def Let_def record_entry_def split: if_splits option.splits dest: map_of_SomeD)

lemma maybeSweepDisk_frame [simp]:
  "mem (maybeSweepDisk de now c) = mem c" "config (maybeSweepDisk de now c) = config c" "flight (maybeSweepDisk de now c) = flight c"
  by (simp_all add: maybeSweepDisk_def Let_def mem_def config_def flight_def)

lemma maybeSweepDisk_disk: "set (disk (maybeSweepDisk de now c)) \<subseteq> set (disk c)"
  by (auto simp: maybeSweepDisk_def Let_def sweep_files_def)

lemma remove_until_frame:
  "mem (remove_until de l fs b c) = mem c \<and> config (remove_until de l fs b c) = config c \<and> flight (remove_until de l fs b c) = flight c \<and>
   set (disk (remove_until de l fs b c)) \<subseteq> set (disk c)"
proof (induction de l fs b c rule: remove_until.induct)
  case (2 de limit key f files bytes c)
  show ?case
  proof (cases "bytes \<le> limit")
    case False
    then have unf: "remove_until de limit ((key, f) # files) bytes c =
        remove_until de limit files (if removeOK de key then bytes - fileSize f else bytes) (removeDiskCacheFile de key c)" by simp
    show ?thesis unfolding unf using 2 [OF False] remove_file_disk [of de key c] subset_trans by (metis remove_file_frame)
  qed simp
qed simp

lemma enforceDiskLimit_frame:
  "mem (enforceDiskLimit de now c) = mem c \<and> config (enforceDiskLimit de now c) = config c \<and> flight (enforceDiskLimit de now c) = flight c \<and>
   set (disk (enforceDiskLimit de now c)) \<subseteq> set (disk c)"
proof -
  obtain files b c1 where d: "diskFilesAt de now c = (files, b, c1)" by (metis prod_cases3)
  then have c1: "mem c1 = mem c \<and> config c1 = config c \<and> flight c1 = flight c \<and> set (disk c1) \<subseteq> set (disk c)"
    by (auto simp: diskFilesAt_def Let_def mem_def config_def flight_def)
  then show ?thesis using remove_until_frame [of de "diskMaxBytes c" "sort_key (\<lambda>(k, f). modTime f) files" b c1]
    by (auto simp: enforceDiskLimit_def d)
qed

lemma putDisk_frame:
  assumes "putDisk de tab key e now c = (b, c')"
  shows "mem c' = mem c \<and> config c' = config c \<and> flight c' = flight c"
    "(p, f) \<in> set (disk c') \<Longrightarrow> (p, f) \<in> set (disk c) \<or> content f = Some (disk_record key e now)"
  using assms by (auto simp: putDisk_def Let_def mem_def config_def flight_def split: if_splits dest!: gm_set_values)

section \<open>A lookup and a store\<close>

lemma get_memory_spec:
  assumes b: "budget_ok c"
  shows "case get_memory key now policy c of (r, c') \<Rightarrow>
    budget_ok c' \<and> flight c' = flight c \<and> config c' = config c \<and> disk c' = disk c \<and>
    (\<forall>k i. gm_get (items c') k = Some i \<longrightarrow> (\<exists>i0. gm_get (items c) k = Some i0 \<and> entry i = entry i0)) \<and>
    (\<forall>e. r = Some e \<longrightarrow> now < DiskExpiresAt e \<and> (\<exists>i. gm_get (items c) key = Some i \<and> entry i = e))"
proof -
  let ?s = "sweepMemoryLocked now c"
  have ok: "memory_ok c" using b by (simp add: budget_ok_def)
  note sw = sweep_spec [OF ok, of now]
  have s: "budget_ok ?s" using b by (rule sweep_budget)
  have get: "gm_get (items ?s) k = Some i \<Longrightarrow> gm_get (items c) k = Some i \<and> \<not> expired now i" for k i
    using sw by (auto split: option.splits if_splits)
  show ?thesis
  proof (cases "gm_get (items ?s) key")
    case None
    then have "get_memory key now policy c = (None, ?s)" by (simp add: get_memory_def Let_def)
    then show ?thesis using s sw get by auto
  next
    case (Some item)
    have live: "now < memoryExpiresAt item \<and> now < DiskExpiresAt (entry item)" using get [OF Some] by (simp add: expired_def)
    let ?b = "bumpMemoryExpiryLocked key now ?s"
    have unf: "get_memory key now policy c = (Some (entry item), recordHitLocked (Path policy) ''memory'' ?b)"
      using Some live by (simp add: get_memory_def Let_def)
    have sok: "memory_ok ?s" using s by (simp add: budget_ok_def)
    have bs: "same_but_expiry ?s ?b" "memory_ok ?b" using bump_memory_spec [OF sok] by blast+
    then have cf: "config ?b = config ?s" "flight ?b = flight ?s" "disk ?b = disk ?s" "memoryBytes ?b = memoryBytes ?s"
      by (simp_all add: same_but_expiry_def)
    then have bb: "budget_ok ?b" using s bs(2) config_eq [of ?b ?s] by (simp add: budget_ok_def)
    have prov: "\<exists>i0. gm_get (items c) k = Some i0 \<and> entry i = entry i0" if "gm_get (items ?b) k = Some i" for k i
      using same_but_expiry_get [OF bs(1) that] get unfolding prolonged_def by blast
    have "items (recordHitLocked (Path policy) ''memory'' ?b) = items ?b"
      using record_frame(1) [of "Path policy" "''memory''" ?b] unfolding mem_def by simp
    then show ?thesis using bb mem_budget_ok [of "recordHitLocked (Path policy) ''memory'' ?b" ?b] cf sw prov get [OF Some] live
      by (auto simp: unf)
  qed
qed

text \<open>What has been stored: key, status and body of every entry handed to the cache or found in its directory.\<close>

type_synonym store_log = "(string \<times> int \<times> string) set"

definition file_log :: "(string, diskFile) gomap \<Rightarrow> store_log" where
  "file_log files = {(RecordKey r, RecordStatus r, RecordBody r) |r. \<exists>p f. (p, f) \<in> set files \<and> content f = Some r}"

definition cache_inv :: "case_table \<Rightarrow> Cache \<Rightarrow> store_log \<Rightarrow> bool" where
  "cache_inv tab c L \<longleftrightarrow> budget_ok c \<and> file_log (disk c) \<subseteq> L \<and>
     (\<forall>k i. gm_get (items c) k = Some i \<longrightarrow> (k, Status (entry i), Body (entry i)) \<in> L \<and> cacheable tab (maxBody c) (entry i))"

lemma file_log_mono: "set a \<subseteq> set b \<Longrightarrow> file_log a \<subseteq> file_log b"
  by (auto simp: file_log_def)

lemma cacheable_expiry [simp]: "cacheable tab m (e\<lparr>DiskExpiresAt := t\<rparr>) = cacheable tab m e"
  by (simp add: cacheable_def uncacheableReason_def)

text \<open>An operation that adds no entry to memory and no file keeps the invariant.\<close>

lemma cache_inv_fewer:
  assumes "cache_inv tab c L" "budget_ok c'" "config c' = config c" "set (disk c') \<subseteq> set (disk c)"
    "\<And>k i. gm_get (items c') k = Some i \<Longrightarrow> \<exists>i0. gm_get (items c) k = Some i0 \<and> entry i = entry i0"
  shows "cache_inv tab c' L"
  using assms file_log_mono [OF assms(4)] config_eq [OF assms(3)] unfolding cache_inv_def by (metis subset_trans)

lemma cache_inv_mem:
  assumes "cache_inv tab c L" "mem c' = mem c" "config c' = config c" "set (disk c') \<subseteq> set (disk c)"
  shows "cache_inv tab c' L"
proof (rule cache_inv_fewer [OF assms(1) _ assms(3,4)])
  show "budget_ok c'" using assms mem_budget_ok [of c' c] by (simp add: cache_inv_def)
  show "\<exists>i0. gm_get (items c) k = Some i0 \<and> entry i = entry i0" if "gm_get (items c') k = Some i" for k i
    using that assms(2) by (auto simp: mem_def)
qed

lemma cache_inv_put:
  assumes inv: "cache_inv tab c L" and key: "key \<noteq> ''''" and e: "(key, Status e, Body e) \<in> L" "cacheable tab (maxBody c) e"
  shows "cache_inv tab (putMemoryWithPolicySession key sk e now c) L"
proof -
  let ?p = "putMemoryWithPolicySession key sk e now c"
  have "budget_ok c" using inv by (simp add: cache_inv_def)
  note p = put_memory_spec [OF this key, of sk e now]
  have mb: "maxBody ?p = maxBody c" using p config_eq by blast
  have "(k, Status (entry i), Body (entry i)) \<in> L \<and> cacheable tab (maxBody c) (entry i)" if "gm_get (items ?p) k = Some i" for k i
    using p that inv e unfolding cache_inv_def by metis
  then show ?thesis using p inv mb by (simp add: cache_inv_def)
qed

lemma cache_inv_log: "cache_inv tab c L \<Longrightarrow> L \<subseteq> L' \<Longrightarrow> cache_inv tab c L'"
  unfolding cache_inv_def by blast

lemma cache_inv_get:
  assumes inv: "cache_inv tab c L" and get: "getWithPolicy de tab now key policy c = (r, c')"
  shows "cache_inv tab c' L \<and> flight c' = flight c \<and>
    (\<forall>e src. r = Some (e, src) \<longrightarrow> now < DiskExpiresAt e \<and> (normalizeKey tab key, Status e, Body e) \<in> L \<and> cacheable tab (maxBody c) e)"
proof (cases "normalizeKey tab key = ''''")
  case True
  then show ?thesis using inv get by (auto simp: getWithPolicy_def)
next
  case key: False
  let ?k = "normalizeKey tab key"
  obtain m c1 where m: "get_memory ?k now policy c = (m, c1)" by (meson surj_pair)
  have "budget_ok c" using inv by (simp add: cache_inv_def)
  note g = get_memory_spec [OF this, where key = ?k and now = now and policy = policy, unfolded m, simplified]
  have inv1: "cache_inv tab c1 L" using g by (intro cache_inv_fewer [OF inv]) simp_all
  show ?thesis
  proof (cases m)
    case (Some e)
    then have "r = Some (e, ''memory'')" "c' = c1" using get key m by (auto simp: getWithPolicy_def Let_def)
    then show ?thesis using inv1 g inv Some unfolding cache_inv_def by auto
  next
    case None
    obtain d c2 where d: "getDisk de tab ?k now c1 = (d, c2)" by (meson surj_pair)
    note df = getDisk_frame [OF d]
    have inv2: "cache_inv tab c2 L" using cache_inv_mem [OF inv1] df by blast
    show ?thesis
    proof (cases d)
      case None
      then have "r = None" "c' = recordMiss (Path policy) c2" using get key m d \<open>m = None\<close> by (auto simp: getWithPolicy_def Let_def)
      then show ?thesis using cache_inv_mem [OF inv2, of c'] df g by simp
    next
      case (Some e)
      let ?p = "putMemoryWithPolicySession ?k '''' e now c2"
      have r: "r = Some (e, ''disk'')" "c' = recordHitLocked (Path policy) ''disk'' ?p"
        using get key m d \<open>m = None\<close> Some by (auto simp: getWithPolicy_def Let_def)
      have mb: "maxBody c2 = maxBody c" "maxBody c1 = maxBody c" using df g config_eq by metis+
      note gd = getDisk_Some [OF d [unfolded Some]]
      then have "(?k, Status e, Body e) \<in> file_log (disk c1)" unfolding file_log_def by (elim conjE exE) (intro CollectI, metis)
      then have e: "now < DiskExpiresAt e" "cacheable tab (maxBody c) e" "(?k, Status e, Body e) \<in> L"
        using gd inv1 mb by (auto simp: cache_inv_def)
      have inv3: "cache_inv tab ?p L" using cache_inv_put [OF inv2 key] e mb by simp
      have "flight ?p = flight c" using put_memory_spec [of c2 ?k "''''" e now] inv2 key df g by (simp add: cache_inv_def)
      then show ?thesis using cache_inv_mem [OF inv3, of c'] e by (simp add: r)
    qed
  qed
qed

lemma cache_inv_set:
  assumes inv: "cache_inv tab c L"
  shows "cache_inv tab (setWithPolicySession de tab now key sk e policy c) (insert (normalizeKey tab key, Status e, Body e) L) \<and>
    flight (setWithPolicySession de tab now key sk e policy c) = flight c"
proof (cases "normalizeKey tab key = '''' \<or> \<not> cacheable tab (maxBody c) e")
  case True
  then show ?thesis using cache_inv_log [OF inv] by (auto simp: setWithPolicySession_def Let_def)
next
  case False
  let ?k = "normalizeKey tab key" and ?L = "insert (normalizeKey tab key, Status e, Body e) L"
  define e1 where "e1 = (if DiskExpiresAt e = zero_time \<or> \<not> now < DiskExpiresAt e then e\<lparr>DiskExpiresAt := now + diskTTL c\<rparr> else e)"
  let ?c1 = "putMemoryWithPolicySession ?k sk e1 now c"
  obtain ok c2 where d: "putDisk de tab ?k e1 now ?c1 = (ok, c2)" by (meson surj_pair)
  let ?c3 = "if ok then enforceDiskLimit de now c2 else c2"
  have unf: "setWithPolicySession de tab now key sk e policy c = maybeSweepDisk de now (recordStore (Path policy) ?c3)"
    using False d by (simp add: setWithPolicySession_def Let_def e1_def)
  have e1: "Status e1 = Status e" "Body e1 = Body e" "cacheable tab (maxBody c) e1" using False by (auto simp: e1_def)
  have inv1: "cache_inv tab ?c1 ?L" using cache_inv_put [OF cache_inv_log [OF inv, of ?L], of ?k e1] False e1 by auto
  have fl1: "flight ?c1 = flight c" using put_memory_spec [of c ?k] inv False by (simp add: cache_inv_def)
  note pf = putDisk_frame [OF d]
  have inv2: "cache_inv tab c2 ?L"
  proof -
    have old: "file_log (disk ?c1) \<subseteq> ?L" using inv1 by (simp add: cache_inv_def)
    have "(RecordKey r, RecordStatus r, RecordBody r) \<in> ?L" if f: "(p, f) \<in> set (disk c2)" "content f = Some r" for p f r
    proof (cases "(p, f) \<in> set (disk ?c1)")
      case True
      then have "(RecordKey r, RecordStatus r, RecordBody r) \<in> file_log (disk ?c1)" using f(2) unfolding file_log_def by blast
      then show ?thesis using old by blast
    next
      case False
      then have "r = disk_record ?k e1 now" using pf(2) [OF f(1)] f(2) by simp
      then show ?thesis using e1 by (simp add: disk_record_def)
    qed
    then have "file_log (disk c2) \<subseteq> ?L" unfolding file_log_def by blast
    moreover have "budget_ok c2" using inv1 pf(1) mem_budget_ok [of c2 ?c1] by (simp add: cache_inv_def)
    moreover have "items c2 = items ?c1" "maxBody c2 = maxBody ?c1" using pf(1) config_eq [of c2 ?c1] by (simp_all add: mem_def)
    ultimately show ?thesis using inv1 by (simp add: cache_inv_def)
  qed
  have inv3: "cache_inv tab ?c3 ?L" "flight ?c3 = flight c2"
    using cache_inv_mem [OF inv2] enforceDiskLimit_frame [of de now c2] inv2 by auto
  have "cache_inv tab (recordStore (Path policy) ?c3) ?L" using cache_inv_mem [OF inv3(1)] by simp
  then show ?thesis unfolding unf using cache_inv_mem maybeSweepDisk_disk [of de now] maybeSweepDisk_frame inv3 pf fl1
    by (metis record_frame(11))
qed

section \<open>Histories of the cache\<close>

text \<open>
  Every call on the cache in sequence; the directory's files at the start and after a reconfiguration are
  arbitrary. The second argument is the log of what was stored.
\<close>

inductive cache_run :: "case_table \<Rightarrow> Cache \<Rightarrow> store_log \<Rightarrow> bool" for tab where
  start: "cache_run tab (New cleanDir opts files) (file_log files)"
| reconfigure: "cache_run tab c L \<Longrightarrow> cache_run tab (ApplyOptions cleanDir opts files c) (L \<union> file_log files)"
| lookup: "cache_run tab c L \<Longrightarrow> cache_run tab (snd (getWithPolicy de tab now key policy c)) L"
| stored: "cache_run tab c L \<Longrightarrow>
    cache_run tab (setWithPolicySession de tab now key sk e policy c) (insert (normalizeKey tab key, Status e, Body e) L)"
| acquire: "cache_run tab c L \<Longrightarrow> cache_run tab (snd (acquireInflight key c)) L"
| release: "cache_run tab c L \<Longrightarrow> cache_run tab (releaseInflight key c) L"
| waited: "cache_run tab c L \<Longrightarrow> cache_run tab (recordInflightHit path c) L"
| not_cached: "cache_run tab c L \<Longrightarrow> cache_run tab (recordUncacheable path reason c) L"

lemma cache_inv_empty:
  assumes "items c = []" "memoryBytes c = 0" "sessionEntries c = []" "0 < memoryMaxBytes c" "file_log (disk c) \<subseteq> L"
  shows "cache_inv tab c L"
  using assms by (simp add: cache_inv_def budget_ok_def memory_ok_def item_bytes_def bucket_def)

lemma normalizeOptions_limits: "0 < OptMemoryMaxBytes (normalizeOptions cd o0)"
  by (simp add: normalizeOptions_def defaultMemoryMaxBytes_def)

lemma inflight_frame:
  "mem (snd (acquireInflight key c)) = mem c" "config (snd (acquireInflight key c)) = config c" "disk (snd (acquireInflight key c)) = disk c"
  "mem (releaseInflight key c) = mem c" "config (releaseInflight key c) = config c" "disk (releaseInflight key c) = disk c"
  by (auto simp: acquireInflight_def releaseInflight_def mem_def config_def split: option.split)

lemma cache_inv_run: "cache_run tab c L \<Longrightarrow> cache_inv tab c L"
proof (induction rule: cache_run.induct)
  case (start cleanDir opts files)
  show ?case by (rule cache_inv_empty) (simp_all add: New_def Let_def normalizeOptions_limits)
next
  case (reconfigure c L cleanDir opts files)
  show ?case by (rule cache_inv_empty) (simp_all add: ApplyOptions_def Let_def normalizeOptions_limits)
next
  case (lookup c L de now key policy)
  show ?case using cache_inv_get [OF lookup.IH, of de now key policy "fst (getWithPolicy de tab now key policy c)"] by (metis prod.collapse)
next
  case (stored c L de now key sk e policy)
  then show ?case using cache_inv_set by blast
next
  case (acquire c L key)
  from acquire.IH show ?case by (rule cache_inv_mem) (simp_all add: inflight_frame)
next
  case (release c L key)
  from release.IH show ?case by (rule cache_inv_mem) (simp_all add: inflight_frame)
next
  case (waited c L path)
  from waited.IH show ?case by (rule cache_inv_mem) simp_all
next
  case (not_cached c L path reason)
  from not_cached.IH show ?case by (rule cache_inv_mem) simp_all
qed

text \<open>C20: after any sequence of cache operations, hot reloads included, the byte counter is the sum of the
  sizes of the entries in memory and within the configured limit, every session bucket lists exactly the entries
  of that session, and no entry stays in memory past its disk deadline.\<close>

theorem cache_accounting:
  assumes "cache_run tab c L"
  shows "memoryBytes c = (\<Sum>(k, i) \<leftarrow> items c. msize i) \<and> memoryBytes c \<le> memoryMaxBytes c \<and>
    (\<forall>sk k. (\<exists>b. gm_get (sessionEntries c) sk = Some b \<and> k \<in> set b) \<longleftrightarrow>
       sk \<noteq> '''' \<and> (\<exists>i. gm_get (items c) k = Some i \<and> sessionKey i = sk)) \<and>
    (\<forall>(k, i) \<in> set (items c). memoryExpiresAt i \<le> DiskExpiresAt (entry i))"
proof -
  have ok: "memory_ok c" and b: "memoryBytes c \<le> memoryMaxBytes c"
    using cache_inv_run [OF assms] by (simp_all add: cache_inv_def budget_ok_def)
  have "(\<exists>b. gm_get (sessionEntries c) sk = Some b \<and> k \<in> set b) \<longleftrightarrow> k \<in> bucket c sk" for sk k
    by (auto simp: bucket_def split: option.split)
  then show ?thesis using ok b by (auto simp: memory_ok_def item_bytes_def item_ok_def)
qed

text \<open>C4: whatever a lookup returns was stored under exactly that key (with that status and body), has not
  expired, is a successful answer with a body, sets no cookie and is not marked \<^verbatim>\<open>no-store\<close>; this holds
  whatever files the cache directory contained.\<close>

theorem cache_hit_sound:
  assumes "cache_run tab c L" "fst (getWithPolicy de tab now key policy c) = Some (e, source)"
  shows "(normalizeKey tab key, Status e, Body e) \<in> L \<and> now < DiskExpiresAt e \<and> 200 \<le> Status e \<and> Status e < 300 \<and> Body e \<noteq> [] \<and>
    hget (EHeader e) ''Set-Cookie'' = [] \<and> \<not> hasHeaderToken tab (header_get (hget (EHeader e)) ''Cache-Control'') ''no-store''"
proof -
  obtain c' where "getWithPolicy de tab now key policy c = (Some (e, source), c')" using assms(2) by (metis prod.collapse)
  from cache_inv_get [OF cache_inv_run [OF assms(1)] this]
  have "now < DiskExpiresAt e \<and> (normalizeKey tab key, Status e, Body e) \<in> L \<and> cacheable tab (maxBody c) e" by blast
  then show ?thesis by (auto simp: cacheable_def uncacheableReason_def split: if_splits)
qed

lemma set_then_get_memory:
  assumes run: "cache_run tab c L" and key: "normalizeKey tab key \<noteq> ''''" and cb: "cacheable tab (maxBody c) e"
    and fits: "memoryBytes c + memorySize e \<le> memoryMaxBytes c" and new: "DiskExpiresAt e = zero_time"
    and time: "now \<le> later" "later < now + memoryTTL c" "later < now + diskTTL c"
  shows "fst (getWithPolicy de tab later key policy (setWithPolicySession de' tab now key sk e policy' c)) =
    Some (e\<lparr>DiskExpiresAt := now + diskTTL c\<rparr>, ''memory'')"
proof -
  let ?k = "normalizeKey tab key" and ?e = "e\<lparr>DiskExpiresAt := now + diskTTL c\<rparr>" and ?s = "sweepMemoryLocked now c"
  let ?t = "min (now + diskTTL c) (now + memoryTTL c)"
  have bc: "budget_ok c" using cache_inv_run [OF run] by (simp add: cache_inv_def)
  then have ok: "memory_ok c" by (simp add: budget_ok_def)
  note sw = sweep_spec [OF ok, of now]
  have cf: "memoryTTL ?s = memoryTTL c" "memoryMaxBytes ?s = memoryMaxBytes c" using sw config_eq by blast+
  have s: "budget_ok ?s" using bc by (rule sweep_budget)
  have sz: "memorySize ?e = memorySize e" by (simp add: memorySize_def)
  have fits': "memoryBytes ?s + memorySize e \<le> memoryMaxBytes c" using fits sweep_bytes [OF ok, of now] by simp
  have pos: "0 \<le> memoryBytes ?s" using s memory_ok_bytes by (simp add: budget_ok_def)
  let ?p = "placed_bumped ?k sk ?e ?t now ?s"
  have small: "\<not> (0 < memoryMaxBytes ?s \<and> memoryMaxBytes ?s < memorySize ?e \<or> \<not> now < ?t)"
    using fits' pos cf sz time by auto
  have put: "putMemoryWithPolicySession ?k sk ?e now c = enforceMemoryLimitLocked ?p"
    using small cf by (auto simp: put_memory_unfold Let_def)
  have p: "memory_ok ?p" "same_but_expiry (placed ?k sk ?e ?t ?s) ?p"
    using placed_bumped_spec [of ?s ?k ?t ?e] s key by (simp_all add: budget_ok_def)
  have old: "0 \<le> (case gm_get (items ?s) ?k of Some old \<Rightarrow> msize old | None \<Rightarrow> 0)"
    using s by (auto simp: budget_ok_def memory_ok_def item_ok_def split: option.split dest!: map_of_SomeD)
  have pb: "memoryBytes ?p \<le> memoryMaxBytes ?p"
    using p(2) old fits' cf(2) config_eq [of ?p ?s] sz by (simp add: same_but_expiry_def)
  have put': "putMemoryWithPolicySession ?k sk ?e now c = ?p" unfolding put using pb by (simp add: enforceMemoryLimitLocked_def)
  obtain i where i: "gm_get (items ?p) ?k = Some i" "entry i = ?e" "?t \<le> memoryExpiresAt i"
    using same_but_expiry_get' [OF p(2), of ?k] by (auto simp: gm_get_set prolonged_def)
  let ?c = "setWithPolicySession de' tab now key sk e policy' c"
  have items: "items ?c = items ?p" and okc: "memory_ok ?c"
  proof -
    obtain b c2 where d: "putDisk de' tab ?k ?e now ?p = (b, c2)" by (meson surj_pair)
    have "?c = maybeSweepDisk de' now (recordStore (Path policy') (if b then enforceDiskLimit de' now c2 else c2))"
      using key cb d put' new by (simp add: setWithPolicySession_def Let_def)
    then have "mem ?c = mem ?p" using putDisk_frame(1) [OF d] enforceDiskLimit_frame [of de' now c2] by simp
    then show "items ?c = items ?p" "memory_ok ?c" using p(1) mem_memory_ok [of ?c ?p] by (simp_all add: mem_def)
  qed
  have live: "\<not> expired later i" using i(2,3) time by (auto simp: expired_def)
  then have "gm_get (items (sweepMemoryLocked later ?c)) ?k = Some i" using sweep_spec [OF okc, of later] items i(1) by simp
  then have "fst (get_memory ?k later policy ?c) = Some ?e" using live i(2) by (simp add: get_memory_def Let_def expired_def)
  then show ?thesis using key by (auto simp: getWithPolicy_def Let_def split: prod.splits option.splits)
qed

text \<open>C31: an answer that fits the byte budget and was stored is served again from memory, unchanged, until the
  earlier of its memory and disk deadlines.\<close>

theorem cache_set_then_get:
  assumes run: "cache_run tab c L" and key: "normalizeKey tab key \<noteq> ''''" and cb: "cacheable tab (maxBody c) e"
    and fits: "memoryBytes c + memorySize e \<le> memoryMaxBytes c" and new: "DiskExpiresAt e = zero_time"
    and time: "now \<le> later" "later < now + memoryTTL c" "later < now + diskTTL c"
  shows "fst (getWithPolicy de tab later key policy (setWithPolicySession de' tab now key sk e policy' c)) =
    Some (e\<lparr>DiskExpiresAt := now + diskTTL c\<rparr>, ''memory'')"
  using assms by (rule set_then_get_memory)

section \<open>Witnesses\<close>

definition sample_key :: string where
  "sample_key = replicate 64 (CHR ''a'')"

definition sample_entry :: Entry where
  "sample_entry = \<lparr>Status = 200, EHeader = [], Body = ''ok'', DiskExpiresAt = zero_time\<rparr>"

definition sample_options :: Options where
  "sample_options = \<lparr>OptDir = ''d'', OptMemoryTTL = 10, OptDiskTTL = 20, OptMaxBody = 0, OptMemoryMaxBytes = 5, OptDiskMaxBytes = 0, OptSemanticKey = True\<rparr>"

definition sample_cache :: Cache where
  "sample_cache = New (\<lambda>d. d) sample_options []"

definition sample_disk :: disk_env where
  "sample_disk = \<lparr>writeOK = (\<lambda>_. True), recordSize = (\<lambda>_. 1), removeOK = (\<lambda>_. True)\<rparr>"

lemma sample_key_norm: "normalizeKey tab sample_key = sample_key" "sample_key \<noteq> ''''"
proof -
  have t: "TrimSpace sample_key = sample_key" by code_simp
  have "ascii sample_key" by (simp add: sample_key_def ascii_def byte_of_def list_all_iff)
  then have "ToLower tab sample_key = map ascii_lower sample_key" by (rule ToLower_ascii)
  also have "\<dots> = sample_key" by (simp add: sample_key_def ascii_lower_def byte_of_def)
  finally have l: "ToLower tab sample_key = sample_key" .
  have "hex_decode sample_key \<noteq> None" by code_simp
  then show "normalizeKey tab sample_key = sample_key" unfolding normalizeKey_def t l Let_def by (simp add: sample_key_def)
  show "sample_key \<noteq> ''''" by (simp add: sample_key_def)
qed

lemma sample_cacheable: "cacheable tab m \<lparr>Status = 200, EHeader = [], Body = ''ok'', DiskExpiresAt = t\<rparr> \<longleftrightarrow> \<not> (0 < m \<and> m < 2)"
proof -
  have "TrimSpace ''no-store'' = ''no-store''" by code_simp
  then have "\<not> hasHeaderToken tab '''' ''no-store''" by (simp add: hasHeaderToken_def ascii_eval)
  then show ?thesis by (simp add: cacheable_def uncacheableReason_def hget_def header_get_def)
qed

lemma sample_fields: "maxBody sample_cache = 64 * 2 ^ 20" "memoryBytes sample_cache = 0" "memoryMaxBytes sample_cache = 5"
  "memoryTTL sample_cache = 10" "diskTTL sample_cache = 20"
  by (simp_all add: sample_cache_def New_def Let_def normalizeOptions_def sample_options_def defaultMaxBody_def)

lemma sample_cache_run: "cache_run tab sample_cache (file_log [])"
  unfolding sample_cache_def by (rule cache_run.start)

theorem cache_set_then_get_witness:
  "fst (getWithPolicy sample_disk (\<lambda>r. r) 7 sample_key no_policy
     (setWithPolicySession sample_disk (\<lambda>r. r) 3 sample_key ''s'' sample_entry no_policy sample_cache)) =
   Some (sample_entry\<lparr>DiskExpiresAt := 3 + diskTTL sample_cache\<rparr>, ''memory'')"
  by (rule cache_set_then_get [OF sample_cache_run])
    (simp_all add: sample_key_norm sample_fields sample_entry_def sample_cacheable memorySize_def)

definition sample_full :: Cache where
  "sample_full = setWithPolicySession sample_disk (\<lambda>r. r) 3 sample_key ''s'' sample_entry no_policy sample_cache"

lemma sample_full_run: "cache_run (\<lambda>r. r) sample_full (insert (normalizeKey (\<lambda>r. r) sample_key, Status sample_entry, Body sample_entry) (file_log []))"
  unfolding sample_full_def by (intro cache_run.stored sample_cache_run)

theorem cache_accounting_witness:
  "memoryBytes sample_full = (\<Sum>(k, i) \<leftarrow> items sample_full. msize i) \<and> memoryBytes sample_full \<le> memoryMaxBytes sample_full"
  using cache_accounting [OF sample_full_run] by blast

lemma sample_full_hit:
  "fst (getWithPolicy sample_disk (\<lambda>r. r) 7 sample_key no_policy sample_full) = Some (sample_entry\<lparr>DiskExpiresAt := 23\<rparr>, ''memory'')"
proof -
  have "fst (getWithPolicy sample_disk (\<lambda>r. r) 7 sample_key no_policy sample_full) =
      Some (sample_entry\<lparr>DiskExpiresAt := 3 + diskTTL sample_cache\<rparr>, ''memory'')"
    unfolding sample_full_def by (rule set_then_get_memory [OF sample_cache_run])
      (simp_all add: sample_key_norm sample_fields sample_entry_def sample_cacheable memorySize_def)
  then show ?thesis by (simp add: sample_fields)
qed

theorem cache_hit_sound_witness:
  "(normalizeKey (\<lambda>r. r) sample_key, 200, ''ok'') \<in> insert (normalizeKey (\<lambda>r. r) sample_key, Status sample_entry, Body sample_entry) (file_log [])"
  using cache_hit_sound [OF sample_full_run sample_full_hit] by (simp add: sample_entry_def)

text \<open>A request that waited for another one's answer is counted as two hits: by the lookup and by \<^verbatim>\<open>recordInflightHit\<close>.\<close>

lemma waiting_hit_counted_twice: "hits (recordInflightHit path (recordHitLocked path source c)) = hits c + 2"
  by (simp add: recordInflightHit_def recordHitLocked_def on_path_def Let_def)

end
