(* ===== verification/Affinity.thy ===== *)
theory Affinity
  imports GoJson
begin

text \<open>
  Session affinity, \<^verbatim>\<open>internal/account/affinity.go\<close>: the table that binds a conversation key to an
  account, its per-key locks, and the fingerprint of a request body. SHA-256 is the argument
  \<open>sha256\<close>, the JSON decoder the argument \<open>decode\<close>.
\<close>

section \<open>Bindings\<close>

record affinityEntry =
  entryAccountID :: string
  expiresAt :: time

record Affinity =
  bindings :: "(string, affinityEntry) gomap"
  ttl :: int

definition defaultAffinityTTLSeconds :: int where
  "defaultAffinityTTLSeconds = 7200"

definition NewAffinity :: "(string \<Rightarrow> string) \<Rightarrow> Affinity" where
  "NewAffinity getenv =
     (let v = TrimSpace (getenv ''DEEPSEEK_WEB_TO_API_SESSION_AFFINITY_TTL_SECONDS'');
          d = defaultAffinityTTLSeconds * sec_ns
      in \<lparr>bindings = [], ttl = (if v = '''' then d else case Atoi v of
            Some n \<Rightarrow> if 0 < n then int64_wrap (n * sec_ns) else d | None \<Rightarrow> d)\<rparr>)"

definition Lookup :: "time \<Rightarrow> string \<Rightarrow> Affinity \<Rightarrow> string \<times> Affinity" where
  "Lookup now key a = (if key = '''' then ('''', a) else
     case gm_get (bindings a) key of
       None \<Rightarrow> ('''', a)
     | Some e \<Rightarrow> if expiresAt e < now then ('''', a\<lparr>bindings := gm_del key (bindings a)\<rparr>)
         else (entryAccountID e, a\<lparr>bindings := gm_set key (e\<lparr>expiresAt := now + ttl a\<rparr>) (bindings a)\<rparr>))"

definition Bind :: "time \<Rightarrow> string \<Rightarrow> string \<Rightarrow> Affinity \<Rightarrow> Affinity" where
  "Bind now key accountID a = (if key = '''' \<or> accountID = '''' then a
     else a\<lparr>bindings := gm_set key \<lparr>entryAccountID = accountID, expiresAt = now + ttl a\<rparr> (bindings a)\<rparr>)"

definition Forget :: "string \<Rightarrow> Affinity \<Rightarrow> Affinity" where
  "Forget key a = (if key = '''' then a else a\<lparr>bindings := gm_del key (bindings a)\<rparr>)"

definition ForgetAccount :: "string \<Rightarrow> Affinity \<Rightarrow> Affinity" where
  "ForgetAccount accountID a = (if accountID = '''' then a
     else a\<lparr>bindings := filter (\<lambda>(k, e). entryAccountID e \<noteq> accountID) (bindings a)\<rparr>)"

definition Stats :: "Affinity \<Rightarrow> nat \<times> int" where
  "Stats a = (length (bindings a), ttl a)"

section \<open>Per-key locks\<close>

text \<open>
  \<^verbatim>\<open>Lock\<close> runs in four critical sections. A lock object is a heap cell with its reference count
  and its mutex; \<open>lockTable\<close> maps a key to the cell's address. A goroutine between the first and
  the second section waits, between the second and the third it is inside.
\<close>

datatype lock_phase = Waiting nat | Inside nat | Leaving nat

record LockState =
  lockTable :: "(string, nat) gomap"
  lockRefs :: "nat \<Rightarrow> int"
  lockHeld :: "nat \<Rightarrow> bool"
  nextLock :: nat
  phase :: "nat \<Rightarrow> (string \<times> lock_phase) option"

definition lock_enter :: "nat \<Rightarrow> string \<Rightarrow> LockState \<Rightarrow> LockState" where
  "lock_enter g key s = (case gm_get (lockTable s) key of
     None \<Rightarrow> (let l = nextLock s in s\<lparr>lockTable := gm_set key l (lockTable s), nextLock := Suc l,
        lockRefs := (lockRefs s)(l := 1), lockHeld := (lockHeld s)(l := False),
        phase := (phase s)(g \<mapsto> (key, Waiting l))\<rparr>)
   | Some l \<Rightarrow> s\<lparr>lockRefs := (lockRefs s)(l := lockRefs s l + 1), phase := (phase s)(g \<mapsto> (key, Waiting l))\<rparr>)"

definition lock_take :: "nat \<Rightarrow> string \<Rightarrow> nat \<Rightarrow> LockState \<Rightarrow> LockState" where
  "lock_take g key l s = s\<lparr>lockHeld := (lockHeld s)(l := True), phase := (phase s)(g \<mapsto> (key, Inside l))\<rparr>"

definition lock_drop :: "nat \<Rightarrow> string \<Rightarrow> nat \<Rightarrow> LockState \<Rightarrow> LockState" where
  "lock_drop g key l s = s\<lparr>lockHeld := (lockHeld s)(l := False), phase := (phase s)(g \<mapsto> (key, Leaving l))\<rparr>"

definition lock_leave :: "nat \<Rightarrow> string \<Rightarrow> nat \<Rightarrow> LockState \<Rightarrow> LockState" where
  "lock_leave g key l s = (let n = lockRefs s l - 1 in
     s\<lparr>lockRefs := (lockRefs s)(l := n),
       lockTable := (if n \<le> 0 \<and> gm_get (lockTable s) key = Some l then gm_del key (lockTable s) else lockTable s),
       phase := (phase s)(g := None)\<rparr>)"

definition lock_init :: LockState where
  "lock_init = \<lparr>lockTable = [], lockRefs = (\<lambda>_. 0), lockHeld = (\<lambda>_. False), nextLock = 0, phase = (\<lambda>_. None)\<rparr>"

inductive lock_step :: "LockState \<Rightarrow> LockState \<Rightarrow> bool" where
  enter: "phase s g = None \<Longrightarrow> key \<noteq> '''' \<Longrightarrow> lock_step s (lock_enter g key s)"
| take: "phase s g = Some (key, Waiting l) \<Longrightarrow> \<not> lockHeld s l \<Longrightarrow> lock_step s (lock_take g key l s)"
| drop: "phase s g = Some (key, Inside l) \<Longrightarrow> lock_step s (lock_drop g key l s)"
| leave: "phase s g = Some (key, Leaving l) \<Longrightarrow> lock_step s (lock_leave g key l s)"

section \<open>The fingerprint of a request\<close>

definition nul :: string where "nul = [CHR 0x00]"

definition sys_entry :: "string \<Rightarrow> string" where
  "sys_entry t = ''sys:'' @ t @ nul"

text \<open>The non-empty \<^verbatim>\<open>text\<close> strings of the objects in a list of content blocks.\<close>

definition obj_texts :: "json list \<Rightarrow> string list" where
  "obj_texts xs = filter (\<lambda>t. t \<noteq> '''')
     (map (\<lambda>x. case as_obj x of Some m \<Rightarrow> as_str (jfield m ''text'') | None \<Rightarrow> '''') xs)"

definition identityFields :: "(string \<times> string) list" where
  "identityFields = [(''user'', ''user''), (''user_id'', ''user_id''), (''userId'', ''user_id''),
     (''session_id'', ''session_id''), (''sessionId'', ''session_id''),
     (''conversation_id'', ''conversation_id''), (''conversationId'', ''conversation_id''),
     (''thread_id'', ''thread_id''), (''threadId'', ''thread_id''),
     (''response_id'', ''response_id''), (''responseId'', ''response_id''),
     (''previous_response_id'', ''previous_response_id''), (''previousResponseId'', ''previous_response_id'')]"

definition writeIdentityField :: "string \<Rightarrow> string \<Rightarrow> string" where
  "writeIdentityField label val = ''id:'' @ label @ '':'' @ val @ nul"

definition identity_of :: "string \<Rightarrow> json_object \<Rightarrow> string" where
  "identity_of pre m = concat (map (\<lambda>(key, label). let v = TrimSpace (as_str (jfield m key)) in
     if v = '''' then '''' else writeIdentityField (pre @ label) v) identityFields)"

definition hashSessionIdentity :: "json_object \<Rightarrow> string" where
  "hashSessionIdentity doc = identity_of '''' doc @
     (case as_obj (jfield doc ''metadata'') of None \<Rightarrow> '''' | Some meta \<Rightarrow> identity_of ''metadata.'' meta)"

text \<open>
  A content that is a string, and one that is an array of blocks; \<open>as_arr\<close> and \<open>as_obj\<close> of a
  value of another type give nothing, as the failed type assertions do.
\<close>

definition responseInputText :: "json_object \<Rightarrow> string" where
  "responseInputText msg = (let text = TrimSpace (as_str (jfield msg ''text'')) in
     if text \<noteq> '''' then text
     else case jfield msg ''content'' of
       JStr c \<Rightarrow> TrimSpace c
     | JArr cs \<Rightarrow> TrimSpace (concat (map (\<lambda>item. case as_obj item of
           None \<Rightarrow> ''''
         | Some block \<Rightarrow> (let t = TrimSpace (as_str (jfield block ''text'')) in
             if t = '''' then '''' else t @ [CHR 0x0A])) cs))
     | _ \<Rightarrow> '''')"

definition hashInputSystem :: "case_table \<Rightarrow> json_object \<Rightarrow> string" where
  "hashInputSystem tab doc = (case as_arr (jfield doc ''input'') of None \<Rightarrow> '''' | Some items \<Rightarrow>
     concat (map (\<lambda>item. case as_obj item of None \<Rightarrow> '''' | Some msg \<Rightarrow>
       (let role = ToLower tab (TrimSpace (as_str (jfield msg ''role''))) in
        if role \<noteq> ''system'' \<and> role \<noteq> ''developer'' then ''''
        else let text = responseInputText msg in if text = '''' then '''' else sys_entry text)) items))"

definition system_message_part :: "json \<Rightarrow> string" where
  "system_message_part m = (case as_obj m of None \<Rightarrow> '''' | Some mm \<Rightarrow>
     (let role = as_str (jfield mm ''role'') in
      if role \<noteq> ''system'' \<and> role \<noteq> ''developer'' then ''''
      else case jfield mm ''content'' of
        JStr c \<Rightarrow> if c = '''' then '''' else sys_entry c
      | JArr ca \<Rightarrow> concat (map sys_entry (obj_texts ca))
      | _ \<Rightarrow> ''''))"

definition hashSystem :: "case_table \<Rightarrow> json_object \<Rightarrow> string" where
  "hashSystem tab doc =
     (let instr = TrimSpace (as_str (jfield doc ''instructions'')) in if instr = '''' then '''' else sys_entry instr) @
     (case jfield doc ''system'' of
        JStr s \<Rightarrow> if s = '''' then '''' else sys_entry s
      | JArr xs \<Rightarrow> concat (map sys_entry (obj_texts xs))
      | _ \<Rightarrow> '''') @
     (case as_obj (jfield doc ''systemInstruction'') of None \<Rightarrow> '''' | Some si \<Rightarrow>
        (case as_arr (jfield si ''parts'') of None \<Rightarrow> '''' | Some ps \<Rightarrow> concat (map sys_entry (obj_texts ps)))) @
     (case as_arr (jfield doc ''messages'') of None \<Rightarrow> '''' | Some msgs \<Rightarrow> concat (map system_message_part msgs)) @
     hashInputSystem tab doc"

text \<open>
  The first user text, None when nothing was written. Only the first message with the role
  \<^verbatim>\<open>user\<close> counts: the loop breaks after it, with or without text.
\<close>

fun messages_user_text :: "json list \<Rightarrow> string option" where
  "messages_user_text [] = None"
| "messages_user_text (m # ms) = (case as_obj m of None \<Rightarrow> messages_user_text ms | Some mm \<Rightarrow>
     if as_str (jfield mm ''role'') \<noteq> ''user'' then messages_user_text ms
     else case jfield mm ''content'' of
       JStr c \<Rightarrow> if c = '''' then None else Some c
     | JArr cs \<Rightarrow> if obj_texts cs = [] then None else Some (concat (obj_texts cs))
     | _ \<Rightarrow> None)"

fun input_items_user_text :: "case_table \<Rightarrow> json list \<Rightarrow> string option" where
  "input_items_user_text tab [] = None"
| "input_items_user_text tab (item # items) = (case item of
     JStr x \<Rightarrow> if TrimSpace x = '''' then input_items_user_text tab items else Some (TrimSpace x)
   | JObj x \<Rightarrow>
       (let role = ToLower tab (TrimSpace (as_str (jfield x ''role''))) in
        if role \<noteq> '''' \<and> role \<noteq> ''user'' then input_items_user_text tab items
        else if responseInputText x \<noteq> '''' then Some (responseInputText x)
        else input_items_user_text tab items)
   | _ \<Rightarrow> input_items_user_text tab items)"

definition hashResponsesInputFirstUser :: "case_table \<Rightarrow> json \<Rightarrow> string option" where
  "hashResponsesInputFirstUser tab input = (case input of
     JStr v \<Rightarrow> if TrimSpace v = '''' then None else Some (TrimSpace v)
   | JArr items \<Rightarrow> input_items_user_text tab items
   | JObj v \<Rightarrow> if responseInputText v = '''' then None else Some (responseInputText v)
   | _ \<Rightarrow> None)"

fun contents_user_text :: "json list \<Rightarrow> string option" where
  "contents_user_text [] = None"
| "contents_user_text (c # cs) = (case as_obj c of None \<Rightarrow> contents_user_text cs | Some cm \<Rightarrow>
     (let role = as_str (jfield cm ''role'') in
      if role \<noteq> '''' \<and> role \<noteq> ''user'' then contents_user_text cs
      else case as_arr (jfield cm ''parts'') of
        None \<Rightarrow> contents_user_text cs
      | Some parts \<Rightarrow> if obj_texts parts = [] then None else Some (concat (obj_texts parts))))"

definition opt_list :: "json \<Rightarrow> json list" where
  "opt_list v = (case as_arr v of Some xs \<Rightarrow> xs | None \<Rightarrow> [])"

definition hashFirstUserText :: "case_table \<Rightarrow> json_object \<Rightarrow> string option" where
  "hashFirstUserText tab doc = (case messages_user_text (opt_list (jfield doc ''messages'')) of
     Some t \<Rightarrow> Some (''usr:'' @ t)
   | None \<Rightarrow> (case hashResponsesInputFirstUser tab (jfield doc ''input'') of
       Some t \<Rightarrow> Some (''usr:'' @ t)
     | None \<Rightarrow> map_option (\<lambda>t. ''usr:'' @ t) (contents_user_text (opt_list (jfield doc ''contents'')))))"

definition unmarshal_object :: "json_decoder \<Rightarrow> string \<Rightarrow> json_object option" where
  "unmarshal_object decode body = (case decode body of
     Some (JObj m) \<Rightarrow> Some m | Some JNull \<Rightarrow> Some [] | _ \<Rightarrow> None)"

text \<open>Everything written to the hash for a request, None when the request has no key.\<close>

definition session_digest_input :: "case_table \<Rightarrow> string \<Rightarrow> json_object \<Rightarrow> string option" where
  "session_digest_input tab callerHash doc = map_option
     (\<lambda>usr. callerHash @ nul @ hashSessionIdentity doc @ hashSystem tab doc @ usr) (hashFirstUserText tab doc)"

definition short_hex :: "(string \<Rightarrow> string) \<Rightarrow> string \<Rightarrow> string" where
  "short_hex sha256 s = hex_encode (take 8 (sha256 s))"

definition SessionKey :: "case_table \<Rightarrow> (string \<Rightarrow> string) \<Rightarrow> json_decoder \<Rightarrow> string \<Rightarrow> string \<Rightarrow> string" where
  "SessionKey tab sha256 decode callerHash body = (if body = '''' then '''' else
     case unmarshal_object decode body of None \<Rightarrow> '''' | Some doc \<Rightarrow>
       (case session_digest_input tab callerHash doc of None \<Rightarrow> '''' | Some inp \<Rightarrow> short_hex sha256 inp))"

definition ScopedSessionKey :: "(string \<Rightarrow> string) \<Rightarrow> string \<Rightarrow> string \<Rightarrow> string" where
  "ScopedSessionKey sha256 callerHash scope0 = (let scope = TrimSpace scope0 in
     if scope = '''' then '''' else short_hex sha256 (callerHash @ nul @ ''scope:'' @ scope))"

definition CallerHash :: "(string \<Rightarrow> string) \<Rightarrow> string \<Rightarrow> string" where
  "CallerHash sha256 token = sha256 (TrimSpace token)"

section \<open>The binding table\<close>

text \<open>The account a key is bound to, expiry aside.\<close>

definition bound_to :: "Affinity \<Rightarrow> string \<Rightarrow> string option" where
  "bound_to a key = map_option entryAccountID (gm_get (bindings a) key)"

definition affinity_wf :: "Affinity \<Rightarrow> bool" where
  "affinity_wf a \<longleftrightarrow> gm_wf (bindings a) \<and> gm_get (bindings a) '''' = None \<and> (\<forall>k. bound_to a k \<noteq> Some '''')"

text \<open>
  What the account pool relies on: binding sets one key, forgetting an account removes exactly
  the keys bound to it.
\<close>

locale binding_table =
  fixes bound :: "'t \<Rightarrow> 'k \<Rightarrow> 'v option"
    and bind :: "'k \<Rightarrow> 'v \<Rightarrow> 't \<Rightarrow> 't"
    and forget_value :: "'v \<Rightarrow> 't \<Rightarrow> 't"
    and wf :: "'t \<Rightarrow> bool"
    and key_ok :: "'k \<Rightarrow> bool"
    and value_ok :: "'v \<Rightarrow> bool"
  assumes bound_bind: "key_ok k \<Longrightarrow> value_ok v \<Longrightarrow> bound (bind k v t) k' = (if k' = k then Some v else bound t k')"
    and bound_forget: "wf t \<Longrightarrow> value_ok v \<Longrightarrow> bound (forget_value v t) k = (if bound t k = Some v then None else bound t k)"
    and wf_bind: "wf t \<Longrightarrow> wf (bind k v t)"
    and wf_forget: "wf t \<Longrightarrow> wf (forget_value v t)"
begin

lemma forgotten: "wf t \<Longrightarrow> value_ok v \<Longrightarrow> bound (forget_value v t) k \<noteq> Some v"
  by (simp add: bound_forget)

lemma forgotten_until_bound:
  assumes "wf t" "value_ok v" "\<forall>(k, u) \<in> set bs. key_ok k \<and> value_ok u \<and> u \<noteq> v"
  shows "bound (fold (\<lambda>(k, u). bind k u) bs (forget_value v t)) k' \<noteq> Some v"
proof -
  have "bound (fold (\<lambda>(k, u). bind k u) bs s) k' \<noteq> Some v" if "bound s k' \<noteq> Some v" for s
    using that assms(3) by (induction bs arbitrary: s) (auto simp: bound_bind)
  then show ?thesis using forgotten [OF assms(1,2)] by blast
qed

end

lemma bound_to_Bind:
  "k \<noteq> '''' \<Longrightarrow> v \<noteq> '''' \<Longrightarrow> bound_to (Bind now k v a) k' = (if k' = k then Some v else bound_to a k')"
  by (simp add: bound_to_def Bind_def gm_get_set)

lemma bound_to_ForgetAccount:
  "affinity_wf a \<Longrightarrow> v \<noteq> '''' \<Longrightarrow>
   bound_to (ForgetAccount v a) k = (if bound_to a k = Some v then None else bound_to a k)"
  by (auto simp: bound_to_def ForgetAccount_def affinity_wf_def gm_get_filter split: option.splits)

lemma affinity_wf_Bind: "affinity_wf a \<Longrightarrow> affinity_wf (Bind now k v a)"
  by (auto simp: affinity_wf_def Bind_def bound_to_def gm_get_set)

lemma affinity_wf_ForgetAccount: "affinity_wf a \<Longrightarrow> affinity_wf (ForgetAccount v a)"
proof -
  assume wf: "affinity_wf a"
  then have w: "gm_wf (bindings a)" by (simp add: affinity_wf_def)
  show ?thesis using wf
    by (auto simp: affinity_wf_def ForgetAccount_def bound_to_def gm_get_filter [OF w] split: option.splits)
qed

interpretation aff: binding_table bound_to "Bind now" ForgetAccount affinity_wf "\<lambda>k. k \<noteq> ''''" "\<lambda>v. v \<noteq> ''''" for now
  by unfold_locales (auto simp: bound_to_Bind bound_to_ForgetAccount affinity_wf_Bind affinity_wf_ForgetAccount)

lemma affinity_wf_Lookup: "affinity_wf a \<Longrightarrow> affinity_wf (snd (Lookup now k a))"
  by (auto simp: affinity_wf_def Lookup_def bound_to_def gm_get_set gm_get_del split: option.splits)

lemma affinity_wf_Forget: "affinity_wf a \<Longrightarrow> affinity_wf (Forget k a)"
  by (auto simp: affinity_wf_def Forget_def bound_to_def gm_get_del)

lemma affinity_wf_New: "affinity_wf (NewAffinity getenv)"
  by (auto simp: affinity_wf_def NewAffinity_def bound_to_def Let_def)

lemma Lookup_bound: "fst (Lookup now k a) = v \<Longrightarrow> v \<noteq> '''' \<Longrightarrow> bound_to a k = Some v"
  by (auto simp: Lookup_def bound_to_def split: option.splits if_splits)

section \<open>Mutual exclusion of the per-key locks\<close>

fun lock_of :: "lock_phase \<Rightarrow> nat" where
  "lock_of (Waiting l) = l"
| "lock_of (Inside l) = l"
| "lock_of (Leaving l) = l"

definition users :: "LockState \<Rightarrow> nat \<Rightarrow> nat set" where
  "users s l = {g. \<exists>k p. phase s g = Some (k, p) \<and> lock_of p = l}"

definition lock_inv :: "LockState \<Rightarrow> bool" where
  "lock_inv s \<longleftrightarrow> finite (dom (phase s)) \<and>
     (\<forall>g k p. phase s g = Some (k, p) \<longrightarrow> gm_get (lockTable s) k = Some (lock_of p)) \<and>
     (\<forall>k l. gm_get (lockTable s) k = Some l \<longrightarrow>
        l < nextLock s \<and> lockRefs s l = int (card (users s l)) \<and> users s l \<noteq> {}) \<and>
     (\<forall>k k' l. gm_get (lockTable s) k = Some l \<longrightarrow> gm_get (lockTable s) k' = Some l \<longrightarrow> k = k') \<and>
     (\<forall>g g' k k' l. phase s g = Some (k, Inside l) \<longrightarrow> phase s g' = Some (k', Inside l) \<longrightarrow> g = g') \<and>
     (\<forall>g k l. phase s g = Some (k, Inside l) \<longrightarrow> lockHeld s l)"

lemma lock_invD:
  assumes "lock_inv s"
  shows "finite (users s l)"
    "phase s g = Some (k, p) \<Longrightarrow> gm_get (lockTable s) k = Some (lock_of p)"
    "gm_get (lockTable s) k = Some l \<Longrightarrow> l < nextLock s"
    "gm_get (lockTable s) k = Some l \<Longrightarrow> lockRefs s l = int (card (users s l))"
    "gm_get (lockTable s) k = Some l \<Longrightarrow> users s l \<noteq> {}"
    "gm_get (lockTable s) k = Some l \<Longrightarrow> gm_get (lockTable s) k' = Some l \<Longrightarrow> k = k'"
    "phase s g = Some (k, Inside l) \<Longrightarrow> phase s g' = Some (k', Inside l) \<Longrightarrow> g = g'"
    "phase s g = Some (k, Inside l) \<Longrightarrow> lockHeld s l"
proof -
  have "users s l \<subseteq> dom (phase s)" by (auto simp: users_def)
  then show "finite (users s l)" using assms finite_subset by (auto simp: lock_inv_def)
qed (use assms in \<open>unfold lock_inv_def, blast\<close>)+

lemma users_fresh:
  assumes "lock_inv s" shows "users s (nextLock s) = {}"
proof (rule ccontr)
  assume "users s (nextLock s) \<noteq> {}"
  then obtain g k p where p: "phase s g = Some (k, p)" "lock_of p = nextLock s" by (auto simp: users_def)
  show False using lock_invD(3) [OF assms lock_invD(2) [OF assms p(1)]] p(2) by simp
qed

lemma users_phase_upd:
  "phase t = (phase s)(g := x) \<Longrightarrow>
   users t l = (users s l - {g}) \<union> (case x of Some (k, p) \<Rightarrow> if lock_of p = l then {g} else {} | None \<Rightarrow> {})"
  by (auto simp: users_def split: option.splits)

lemma lock_inv_enter:
  assumes inv: "lock_inv s" and idle: "phase s g = None"
  shows "lock_inv (lock_enter g key s)"
proof (cases "gm_get (lockTable s) key")
  case None
  let ?l = "nextLock s" and ?t = "lock_enter g key s"
  have t: "lockTable ?t = gm_set key ?l (lockTable s)" "nextLock ?t = Suc ?l"
      "lockRefs ?t = (lockRefs s)(?l := 1)" "lockHeld ?t = (lockHeld s)(?l := False)"
      "phase ?t = (phase s)(g \<mapsto> (key, Waiting ?l))"
    using None by (simp_all add: lock_enter_def Let_def)
  have u: "users ?t l = (if l = ?l then {g} else users s l)" for l
    using users_phase_upd [OF t(5), of l] users_fresh [OF inv] idle by (auto simp: users_def)
  have lt: "gm_get (lockTable s) k = Some l \<Longrightarrow> l < Suc ?l" for k l
    using lock_invD(3) [OF inv] less_SucI by blast
  have nolock: "gm_get (lockTable s) k \<noteq> Some ?l" for k using lock_invD(3) [OF inv] by blast
  have fresh: "phase s g' \<noteq> Some (k, Inside ?l)" for g' k
    using users_fresh [OF inv] unfolding users_def by (metis (mono_tags, lifting) empty_Collect_eq lock_of.simps(2))
  show ?thesis
    unfolding lock_inv_def
    using inv None lt fresh idle nolock
    by (auto simp: t gm_get_set u lock_inv_def simp del: less_Suc_eq split: if_splits)
next
  case (Some l)
  let ?t = "lock_enter g key s"
  have t: "lockTable ?t = lockTable s" "nextLock ?t = nextLock s"
      "lockRefs ?t = (lockRefs s)(l := lockRefs s l + 1)" "lockHeld ?t = lockHeld s"
      "phase ?t = (phase s)(g \<mapsto> (key, Waiting l))"
    using Some by (simp_all add: lock_enter_def)
  have u: "users ?t l' = (if l' = l then insert g (users s l) else users s l')" and g: "g \<notin> users s l" for l'
    using users_phase_upd [OF t(5), of l'] idle by (auto simp: users_def)
  have "int (card (insert g (users s l))) = int (card (users s l)) + 1"
    using g lock_invD(1) [OF inv] by simp
  then show ?thesis
    unfolding lock_inv_def
    using inv Some idle
    by (auto simp: t u lock_inv_def split: if_splits)
qed

lemma lock_inv_take:
  assumes inv: "lock_inv s" and w: "phase s g = Some (key, Waiting l)" and free: "\<not> lockHeld s l"
  shows "lock_inv (lock_take g key l s)"
proof -
  let ?t = "lock_take g key l s"
  have t: "phase ?t = (phase s)(g \<mapsto> (key, Inside l))" by (simp add: lock_take_def)
  have u: "users ?t l' = users s l'" for l'
    using users_phase_upd [OF t, of l'] w by (auto simp: users_def)
  have none: "phase s g' \<noteq> Some (k', Inside l)" for g' k' using lock_invD(8) [OF inv] free by blast
  show ?thesis
    unfolding lock_inv_def
    using inv w none by (auto simp: lock_take_def u [unfolded lock_take_def] lock_inv_def)
qed

lemma lock_inv_drop:
  assumes inv: "lock_inv s" and w: "phase s g = Some (key, Inside l)"
  shows "lock_inv (lock_drop g key l s)"
proof -
  let ?t = "lock_drop g key l s"
  have t: "phase ?t = (phase s)(g \<mapsto> (key, Leaving l))" by (simp add: lock_drop_def)
  have u: "users ?t l' = users s l'" for l'
    using users_phase_upd [OF t, of l'] w by (auto simp: users_def)
  have one: "phase s g' = Some (k', Inside l) \<Longrightarrow> g' = g" for g' k' using lock_invD(7) [OF inv _ w] by blast
  show ?thesis
    unfolding lock_inv_def
    using inv w one by (auto simp: lock_drop_def u [unfolded lock_drop_def] lock_inv_def)
qed

lemma lock_inv_leave:
  assumes inv: "lock_inv s" and w: "phase s g = Some (key, Leaving l)"
  shows "lock_inv (lock_leave g key l s)"
proof -
  let ?t = "lock_leave g key l s" and ?n = "lockRefs s l - 1"
  have tab: "gm_get (lockTable s) key = Some l" using lock_invD(2) [OF inv w] by simp
  have t: "phase ?t = (phase s)(g := None)" "lockRefs ?t = (lockRefs s)(l := ?n)" "nextLock ?t = nextLock s"
      "lockHeld ?t = lockHeld s" "lockTable ?t = (if ?n \<le> 0 then gm_del key (lockTable s) else lockTable s)"
    using tab by (simp_all add: lock_leave_def Let_def)
  have gin: "g \<in> users s l" and gout: "l' \<noteq> l \<Longrightarrow> g \<notin> users s l'" for l' using w by (auto simp: users_def)
  have u: "users ?t l' = (if l' = l then users s l - {g} else users s l')" for l'
    using users_phase_upd [OF t(1), of l'] gout [of l'] by auto
  have fin: "finite (users s l)" using lock_invD(1) [OF inv] .
  have card: "int (card (users s l - {g})) = ?n"
    using card.remove [OF fin gin] lock_invD(4) [OF inv tab] by simp
  have empty: "?n \<le> 0 \<Longrightarrow> users s l - {g} = {}" "\<not> ?n \<le> 0 \<Longrightarrow> users s l - {g} \<noteq> {}"
  proof -
    have "card (users s l - {g}) = 0 \<longleftrightarrow> users s l - {g} = {}" using fin by (intro card_0_eq) simp
    then show "?n \<le> 0 \<Longrightarrow> users s l - {g} = {}" "\<not> ?n \<le> 0 \<Longrightarrow> users s l - {g} \<noteq> {}" using card by linarith+
  qed
  have other: "phase s g' = Some (key, p) \<Longrightarrow> g' \<noteq> g \<Longrightarrow> \<not> ?n \<le> 0" for g' p
    using lock_invD(2) [OF inv, of g' key p] tab empty(1) by (auto simp: users_def)
  show ?thesis
    unfolding lock_inv_def
    using inv tab card empty other
    by (auto simp: t u lock_inv_def gm_get_del split: if_splits)
qed

lemma lock_reach_inv: "lock_step\<^sup>*\<^sup>* lock_init s \<Longrightarrow> lock_inv s"
proof (induction rule: rtranclp_induct)
  case base
  show ?case by (simp add: lock_inv_def lock_init_def)
next
  case (step s t)
  from step.hyps(2) step.IH show ?case
    by cases (auto intro: lock_inv_enter lock_inv_take lock_inv_drop lock_inv_leave)
qed

section \<open>Stability of the fingerprint\<close>

lemma messages_user_text_append:
  "messages_user_text ms = Some t \<Longrightarrow> messages_user_text (ms @ extra) = Some t"
  by (induction ms) (auto split: option.splits)

lemma jfield_set: "jfield (gm_set k v m) k' = (if k' = k then v else jfield m k')"
  by (simp add: jfield_def gm_get_set)

definition not_system :: "json \<Rightarrow> bool" where
  "not_system m = (case as_obj m of None \<Rightarrow> True
     | Some mm \<Rightarrow> as_str (jfield mm ''role'') \<notin> {''system'', ''developer''})"

lemma not_system_part: "not_system m \<Longrightarrow> system_message_part m = ''''"
  by (auto simp: not_system_def system_message_part_def split: option.splits)

lemma digest_input_append:
  assumes "jfield doc ''messages'' = JArr ms" "messages_user_text ms = Some t" "list_all not_system extra"
  shows "session_digest_input tab ch (gm_set ''messages'' (JArr (ms @ extra)) doc) = session_digest_input tab ch doc"
proof -
  let ?doc = "gm_set ''messages'' (JArr (ms @ extra)) doc"
  have "concat (map system_message_part extra) = ''''"
    using assms(3) by (auto simp: list_all_iff not_system_part)
  then have "hashSystem tab ?doc = hashSystem tab doc"
    using assms(1) by (simp add: hashSystem_def hashInputSystem_def jfield_set)
  moreover have "identity_of p ?doc = identity_of p doc" for p
    by (simp add: identity_of_def identityFields_def jfield_set)
  then have "hashSessionIdentity ?doc = hashSessionIdentity doc"
    by (simp add: hashSessionIdentity_def jfield_set)
  moreover have "hashFirstUserText tab ?doc = hashFirstUserText tab doc"
    using assms(1,2) messages_user_text_append [OF assms(2), of extra]
    by (simp add: hashFirstUserText_def jfield_set opt_list_def)
  ultimately show ?thesis by (simp add: session_digest_input_def)
qed

section \<open>Properties\<close>

text \<open>A binding is read back until it expires. After \<^verbatim>\<open>Bind\<close> of a non-empty key and account,
  \<^verbatim>\<open>Lookup\<close> of that key at time \<open>t\<close> returns the account exactly when \<open>t\<close> is not past the time to
  live, a hit at \<open>t\<close> extends it to \<open>t + ttl\<close>, an expired binding is deleted, and other keys keep
  their answer.\<close>
theorem affinity_read_back:
  assumes "key \<noteq> ''''" "acc \<noteq> ''''"
  shows "let a' = Bind now key acc a; (r, a'') = Lookup t key a' in
      (if t \<le> now + ttl a then r = acc \<and> (\<forall>u. fst (Lookup u key a'') = (if u \<le> t + ttl a then acc else ''''))
       else r = '''' \<and> bound_to a'' key = None) \<and>
      (\<forall>key' u. key' \<noteq> key \<longrightarrow> fst (Lookup u key' a'') = fst (Lookup u key' a))"
  using assms by (auto simp: Bind_def Lookup_def bound_to_def gm_get_set gm_get_del Let_def split: option.splits)

theorem affinity_read_back_witness:
  "fst (Lookup 5 ''k'' (Bind 0 ''k'' ''acct'' \<lparr>bindings = [], ttl = 7\<rparr>)) = ''acct''"
  using affinity_read_back [where key = "''k''" and acc = "''acct''" and t = 5 and now = 0 and a = "\<lparr>bindings = [], ttl = 7\<rparr>"]
  by (auto simp: Let_def split: prod.splits)

text \<open>Forgetting an account. In a well-formed table, after \<^verbatim>\<open>ForgetAccount\<close> no key and no time
  yields the account, and this stays so under bindings to other accounts; a key bound to another
  account answers as before.\<close>
theorem forget_account_complete:
  assumes "affinity_wf a" "acc \<noteq> ''''" "\<forall>(k, u) \<in> set bs. k \<noteq> '''' \<and> u \<noteq> '''' \<and> u \<noteq> acc"
  shows "fst (Lookup t key (fold (\<lambda>(k, u). Bind now k u) bs (ForgetAccount acc a))) \<noteq> acc \<and>
     (bound_to a key \<noteq> Some acc \<longrightarrow> fst (Lookup t key (ForgetAccount acc a)) = fst (Lookup t key a)) \<and>
     affinity_wf (ForgetAccount acc a)"
proof -
  have "bound_to (fold (\<lambda>(k, u). Bind now k u) bs (ForgetAccount acc a)) key \<noteq> Some acc"
    using assms by (intro aff.forgotten_until_bound) auto
  then have "fst (Lookup t key (fold (\<lambda>(k, u). Bind now k u) bs (ForgetAccount acc a))) \<noteq> acc"
    using Lookup_bound [OF refl] assms(2) by metis
  moreover have "gm_wf (bindings a)" using assms(1) by (simp add: affinity_wf_def)
  then have "bound_to a key \<noteq> Some acc \<Longrightarrow> fst (Lookup t key (ForgetAccount acc a)) = fst (Lookup t key a)"
    by (auto simp: Lookup_def ForgetAccount_def bound_to_def gm_get_filter split: option.splits)
  ultimately show ?thesis using affinity_wf_ForgetAccount [OF assms(1)] by simp
qed

theorem forget_account_complete_witness:
  "fst (Lookup 1 ''k'' (Bind 0 ''j'' ''b'' (ForgetAccount ''acct'' (Bind 0 ''k'' ''acct'' (NewAffinity (\<lambda>_. ''''))))))
     \<noteq> ''acct''"
  using forget_account_complete [OF affinity_wf_Bind [OF affinity_wf_New [of "\<lambda>_. ''''"], of 0 "''k''" "''acct''"],
      of "''acct''" "[(''j'', ''b'')]" 1 "''k''" 0]
  by simp

text \<open>C32: One goroutine per session key. In every interleaving of any number of goroutines locking and
  unlocking keys, two goroutines inside the section of one key are the same goroutine; a key's lock
  object is shared by everyone waiting for it; and when all have left, the lock table is empty.\<close>
theorem affinity_lock_exclusive:
  assumes "lock_step\<^sup>*\<^sup>* lock_init s"
  shows "(phase s g = Some (key, Inside l) \<and> phase s g' = Some (key, Inside l') \<longrightarrow> g = g') \<and>
    (phase s g = Some (key, p) \<and> phase s g' = Some (key, p') \<longrightarrow> lock_of p = lock_of p') \<and>
    (phase s = (\<lambda>_. None) \<longrightarrow> lockTable s = [])"
proof -
  have inv: "lock_inv s" using assms by (rule lock_reach_inv)
  have same: "phase s g = Some (key, p) \<Longrightarrow> phase s g' = Some (key, p') \<Longrightarrow> lock_of p = lock_of p'" for p p'
    using lock_invD(2) [OF inv, of g key p] lock_invD(2) [OF inv, of g' key p'] by simp
  have "lockTable s = []" if "phase s = (\<lambda>_. None)"
  proof -
    have "users s l = {}" for l using that by (simp add: users_def)
    then have "gm_get (lockTable s) k = None" for k
      using lock_invD(5) [OF inv] by (cases "gm_get (lockTable s) k") auto
    then show ?thesis by (simp add: fun_eq_iff flip: map_of_eq_empty_iff)
  qed
  moreover have "phase s g = Some (key, Inside l) \<Longrightarrow> phase s g' = Some (key, Inside l') \<Longrightarrow> g = g'"
    using same [of "Inside l" "Inside l'"] lock_invD(7) [OF inv, of g key l g' key] by simp
  ultimately show ?thesis using same by blast
qed

definition lock_demo :: LockState where
  "lock_demo = lock_take 1 ''k'' 0 (lock_enter 2 ''k'' (lock_enter 1 ''k'' lock_init))"

lemma lock_demo_reach: "lock_step\<^sup>*\<^sup>* lock_init lock_demo"
proof -
  have "lock_step lock_init (lock_enter 1 ''k'' lock_init)"
    by (rule lock_step.enter) (simp_all add: lock_init_def)
  moreover have "lock_step (lock_enter 1 ''k'' lock_init) (lock_enter 2 ''k'' (lock_enter 1 ''k'' lock_init))"
    by (rule lock_step.enter) (simp_all add: lock_init_def lock_enter_def)
  moreover have "lock_step (lock_enter 2 ''k'' (lock_enter 1 ''k'' lock_init)) lock_demo"
    unfolding lock_demo_def by (rule lock_step.take) (simp_all add: lock_init_def lock_enter_def)
  ultimately show ?thesis by (meson rtranclp.rtrancl_into_rtrancl rtranclp.rtrancl_refl)
qed

theorem affinity_lock_exclusive_witness:
  "lock_of (Inside 0) = lock_of (Waiting 0) \<and>
   phase lock_demo 1 = Some (''k'', Inside 0) \<and> phase lock_demo 2 = Some (''k'', Waiting 0)"
proof -
  have "phase lock_demo 1 = Some (''k'', Inside 0)" "phase lock_demo 2 = Some (''k'', Waiting 0)"
    by (simp_all add: lock_demo_def lock_take_def lock_enter_def lock_init_def)
  with affinity_lock_exclusive [OF lock_demo_reach] show ?thesis by metis
qed

text \<open>A conversation keeps its key. Appending any messages without a system or developer role to
  the message list of a request whose first user message has text leaves its session key as it
  was, whatever the hash; a request without user text has no key.\<close>
theorem session_key_stable:
  assumes "unmarshal_object decode body = Some doc" "body \<noteq> ''''" "jfield doc ''messages'' = JArr ms"
    "messages_user_text ms = Some t" "list_all not_system extra"
    "unmarshal_object decode body' = Some (gm_set ''messages'' (JArr (ms @ extra)) doc)" "body' \<noteq> ''''"
  shows "SessionKey tab hash decode callerHash body' = SessionKey tab hash decode callerHash body \<and>
    (unmarshal_object decode b = Some d \<and> hashFirstUserText tab d = None \<longrightarrow>
       SessionKey tab hash decode callerHash b = '''')"
  using assms digest_input_append [OF assms(3,4,5), of tab callerHash]
  by (simp add: SessionKey_def session_digest_input_def)

definition demo_message :: "string \<Rightarrow> string \<Rightarrow> json" where
  "demo_message role text = JObj [(''role'', JStr role), (''content'', JStr text)]"

definition demo_decode :: json_decoder where
  "demo_decode body = Some (JObj [(''messages'', JArr (if body = ''1'' then [demo_message ''user'' ''hi'']
     else [demo_message ''user'' ''hi'', demo_message ''assistant'' ''hello'']))])"

theorem session_key_stable_witness:
  "SessionKey id (\<lambda>s. s) demo_decode ''caller'' ''2'' = SessionKey id (\<lambda>s. s) demo_decode ''caller'' ''1''"
proof -
  have "unmarshal_object demo_decode ''1'' = Some [(''messages'', JArr [demo_message ''user'' ''hi''])]"
    by (simp add: unmarshal_object_def demo_decode_def)
  from session_key_stable [OF this, where body' = "''2''" and ms = "[demo_message ''user'' ''hi'']" and t = "''hi''"
      and extra = "[demo_message ''assistant'' ''hello'']" and tab = id and hash = "\<lambda>s. s" and callerHash = "''caller''"]
  show ?thesis
    by (simp add: jfield_def demo_message_def not_system_def unmarshal_object_def demo_decode_def)
qed

end
