(* ===== verification/Cache_Flight.thy ===== *)
theory Cache_Flight
  imports Response_Cache Affinity
begin

text \<open>
  The middleware of the response cache, \<^verbatim>\<open>Wrap\<close> of \<^verbatim>\<open>internal/responsecache/cache.go\<close>: which requests it
  handles and under which key and session, and, for the requests it does handle, the single flight
  of concurrent identical ones as a transition system over the critical sections of the cache.
\<close>

section \<open>Routing\<close>

datatype wrap_route =
    PassThrough
  | PassStream string
  | UseCache string string pathPolicy

definition requestBodyTooLarge :: "int \<Rightarrow> int \<Rightarrow> bool" where
  "requestBodyTooLarge limit contentLength \<longleftrightarrow> \<not> limit \<le> 0 \<and> limit < contentLength"

text \<open>What is read of the body and whether it is too large; None for a read error.\<close>

definition readRequestBody :: "int \<Rightarrow> string option \<Rightarrow> (string \<times> bool) option" where
  "readRequestBody limit body = (case body of
     None \<Rightarrow> None
   | Some b \<Rightarrow>
       if limit \<le> 0 then Some (b, False)
       else let raw = take (nat (limit + 1)) b in Some (raw, limit < int (length raw)))"

definition replayBody :: "string \<Rightarrow> string \<Rightarrow> string" where
  "replayBody pre rest = pre @ rest"

text \<open>\<open>caller\<close> is the identity the resolver finds, None for a request it refuses.\<close>

definition wrap_route :: "key_env \<Rightarrow> json_decoder \<Rightarrow> CacheRequest \<Rightarrow> int \<Rightarrow> string option \<Rightarrow> string option \<Rightarrow> Cache \<Rightarrow> wrap_route" where
  "wrap_route env decode r contentLength body caller c =
     (if \<not> CacheableRequest (caseTab env) r then PassThrough
      else if requestBodyTooLarge (maxBody c) contentLength then PassThrough
      else case readRequestBody (maxBody c) body of
        None \<Rightarrow> PassThrough
      | Some (rawBody, tooLarge) \<Rightarrow>
          if tooLarge then PassThrough
          else let policy = pathPolicyFor (canonicalRequestPath (reqPath r)) in
            if requestBodyStreamEnabled env rawBody then PassStream (Path policy)
            else let owner = (case caller of Some a \<Rightarrow> TrimSpace a | None \<Rightarrow> '''') in
              if \<not> SharedAcrossCallers policy \<and> owner = '''' then PassThrough
              else UseCache (requestKey env r owner rawBody (semanticKey c) policy)
                (if \<not> SharedAcrossCallers policy \<and> owner \<noteq> ''''
                 then SessionKey (caseTab env) (sum256 env) decode (sum256 env owner) rawBody else '''')
                policy)"

section \<open>Single flight\<close>

text \<open>
  Where a request that uses the cache stands. \<open>Waiting n s\<close> waits for slot \<open>s\<close> for the first or second time;
  \<open>Claiming\<close> is between the two waits; \<open>Upstream own\<close> runs the handler, \<open>Releasing\<close> is the deferred release.
\<close>

datatype phase =
    Arrived
  | Looked
  | Waiting nat nat
  | Claiming
  | Upstream bool
  | Releasing
  | Served
  | Cancelled

record flight_req =
  frKey :: string
  frSession :: string
  frPolicy :: pathPolicy

text \<open>What the handler produced: an entry to store, a reason not to, or a panic.\<close>

datatype handler_result = Stored Entry | NotStored string | Panicked

definition after_wait :: "nat \<Rightarrow> phase" where
  "after_wait n = (if n = 1 then Claiming else Upstream False)"

definition after_acquire :: "nat \<Rightarrow> nat \<times> bool \<Rightarrow> phase" where
  "after_acquire n so = (if snd so then Upstream True else Waiting n (fst so))"

definition store_result :: "disk_env \<Rightarrow> case_table \<Rightarrow> time \<Rightarrow> flight_req \<Rightarrow> handler_result \<Rightarrow> Cache \<Rightarrow> Cache" where
  "store_result de tab now q res c = (case res of
     Stored e \<Rightarrow> setWithPolicySession de tab now (frKey q) (frSession q) e (frPolicy q) c
   | NotStored reason \<Rightarrow> recordUncacheable (Path (frPolicy q)) reason c
   | Panicked \<Rightarrow> c)"

inductive wrap_step :: "case_table \<Rightarrow> (nat \<Rightarrow> flight_req) \<Rightarrow> Cache \<times> (nat \<Rightarrow> phase) \<Rightarrow> Cache \<times> (nat \<Rightarrow> phase) \<Rightarrow> bool" for tab req where
  hit: "ph i = Arrived \<Longrightarrow> getWithPolicy de tab now (frKey (req i)) (frPolicy (req i)) c = (Some e, c') \<Longrightarrow>
    wrap_step tab req (c, ph) (c', ph(i := Served))"
| miss: "ph i = Arrived \<Longrightarrow> getWithPolicy de tab now (frKey (req i)) (frPolicy (req i)) c = (None, c') \<Longrightarrow>
    wrap_step tab req (c, ph) (c', ph(i := Looked))"
| acquire: "ph i = Looked \<Longrightarrow> acquireInflight (frKey (req i)) c = (so, c') \<Longrightarrow>
    wrap_step tab req (c, ph) (c', ph(i := after_acquire 1 so))"
| woken_hit: "ph i = Waiting n s \<Longrightarrow> s \<in> set (closedSlots c) \<Longrightarrow>
    getWithPolicy de tab now (frKey (req i)) (frPolicy (req i)) c = (Some e, c') \<Longrightarrow>
    wrap_step tab req (c, ph) (recordInflightHit (Path (frPolicy (req i))) c', ph(i := Served))"
| woken_miss: "ph i = Waiting n s \<Longrightarrow> s \<in> set (closedSlots c) \<Longrightarrow>
    getWithPolicy de tab now (frKey (req i)) (frPolicy (req i)) c = (None, c') \<Longrightarrow>
    wrap_step tab req (c, ph) (c', ph(i := after_wait n))"
| timeout: "ph i = Waiting n s \<Longrightarrow> wrap_step tab req (c, ph) (c, ph(i := after_wait n))"
| cancel: "ph i = Waiting n s \<Longrightarrow> wrap_step tab req (c, ph) (c, ph(i := Cancelled))"
| claim: "ph i = Claiming \<Longrightarrow> acquireInflight (frKey (req i)) c = (so, c') \<Longrightarrow>
    wrap_step tab req (c, ph) (c', ph(i := after_acquire 2 so))"
| handled: "ph i = Upstream own \<Longrightarrow>
    wrap_step tab req (c, ph) (store_result de tab now (req i) res c, ph(i := (if own then Releasing else Served)))"
| release: "ph i = Releasing \<Longrightarrow> wrap_step tab req (c, ph) (releaseInflight (frKey (req i)) c, ph(i := Served))"
| reload: "wrap_step tab req (c, ph) (ApplyOptions cleanDir opts files c, ph)"

inductive wrap_reach :: "case_table \<Rightarrow> (nat \<Rightarrow> flight_req) \<Rightarrow> Cache \<times> (nat \<Rightarrow> phase) \<Rightarrow> bool" for tab req where
  init: "wrap_reach tab req (New cleanDir opts files, \<lambda>_. Arrived)"
| step: "wrap_reach tab req x \<Longrightarrow> wrap_step tab req x y \<Longrightarrow> wrap_reach tab req y"

inductive_cases wrap_step_cases: "wrap_step tab req (c, ph) (c', ph')"

section \<open>One owner per key\<close>

definition owning :: "phase \<Rightarrow> bool" where
  "owning p \<longleftrightarrow> p = Upstream True \<or> p = Releasing"

definition flight_inv :: "(nat \<Rightarrow> flight_req) \<Rightarrow> (string, nat) gomap \<times> nat \<times> nat list \<Rightarrow> (nat \<Rightarrow> phase) \<Rightarrow> bool" where
  "flight_inv req f ph \<longleftrightarrow>
     (\<forall>k. gm_get (fst f) k \<noteq> None \<longleftrightarrow> (\<exists>i. frKey (req i) = k \<and> owning (ph i))) \<and>
     (\<forall>i j. owning (ph i) \<longrightarrow> owning (ph j) \<longrightarrow> frKey (req i) = frKey (req j) \<longrightarrow> i = j) \<and>
     (\<forall>i n s. ph i = Waiting n s \<longrightarrow> s \<in> set (snd (snd f)) \<or> gm_get (fst f) (frKey (req i)) = Some s)"

lemma flight_invD:
  assumes "flight_inv req (flight c) ph"
  shows "owning (ph j) \<Longrightarrow> \<exists>s. gm_get (inflight c) (frKey (req j)) = Some s"
    "ph j = Waiting n s \<Longrightarrow> s \<in> set (closedSlots c) \<or> gm_get (inflight c) (frKey (req j)) = Some s"
    "owning (ph i) \<Longrightarrow> owning (ph j) \<Longrightarrow> frKey (req i) = frKey (req j) \<Longrightarrow> i = j"
    "gm_get (inflight c) k = Some s \<Longrightarrow> \<exists>i. frKey (req i) = k \<and> owning (ph i)"
proof -
  have table: "\<And>k. gm_get (inflight c) k \<noteq> None \<longleftrightarrow> (\<exists>i. frKey (req i) = k \<and> owning (ph i))"
    using assms by (simp add: flight_inv_def flight_def)
  show "owning (ph j) \<Longrightarrow> \<exists>s. gm_get (inflight c) (frKey (req j)) = Some s" using table [of "frKey (req j)"] by auto
  show "gm_get (inflight c) k = Some s \<Longrightarrow> \<exists>i. frKey (req i) = k \<and> owning (ph i)" using table [of k] by simp
  show "ph j = Waiting n s \<Longrightarrow> s \<in> set (closedSlots c) \<or> gm_get (inflight c) (frKey (req j)) = Some s"
    and "owning (ph i) \<Longrightarrow> owning (ph j) \<Longrightarrow> frKey (req i) = frKey (req j) \<Longrightarrow> i = j"
    using assms by (auto simp: flight_inv_def flight_def)
qed

lemma flight_inv_other:
  assumes "flight_inv req f ph" "\<not> owning p" "\<not> owning (ph i)" "\<And>n s. p \<noteq> Waiting n s"
  shows "flight_inv req f (ph(i := p))"
  using assms unfolding flight_inv_def by (auto split: if_splits) (metis+)?

lemma flight_inv_acquire:
  assumes inv: "flight_inv req (flight c) ph" and free: "\<not> owning (ph i)" and so: "acquireInflight (frKey (req i)) c = (so, c')"
  shows "flight_inv req (flight c') (ph(i := after_acquire n so))"
proof (cases "gm_get (inflight c) (frKey (req i))")
  case (Some s)
  then have "so = (s, False)" "c' = c" using so by (auto simp: acquireInflight_def)
  then have "after_acquire n so = Waiting n s" "flight c' = flight c" by (simp_all add: after_acquire_def)
  then show ?thesis using inv free Some unfolding flight_inv_def flight_def owning_def by auto
next
  case None
  then have so': "after_acquire n so = Upstream True" "inflight c' = gm_set (frKey (req i)) (slotCount c) (inflight c)" "closedSlots c' = closedSlots c"
    using so by (auto simp: acquireInflight_def after_acquire_def)
  have none: "\<not> (\<exists>j. frKey (req j) = frKey (req i) \<and> owning (ph j))" using flight_invD(1) [OF inv] None by fastforce
  have "gm_get (inflight c') k \<noteq> None \<longleftrightarrow> (\<exists>j. frKey (req j) = k \<and> owning ((ph(i := Upstream True)) j))" for k
  proof (cases "k = frKey (req i)")
    case True
    then show ?thesis by (auto simp: so' gm_get_set owning_def intro!: exI [of _ i])
  next
    case False
    then have "gm_get (inflight c') k \<noteq> None \<longleftrightarrow> (\<exists>j. frKey (req j) = k \<and> owning (ph j))"
      using inv by (simp add: so' gm_get_set flight_inv_def flight_def)
    then show ?thesis using False by auto
  qed
  moreover have "j = j'" if "owning ((ph(i := Upstream True)) j)" "owning ((ph(i := Upstream True)) j')" "frKey (req j) = frKey (req j')" for j j'
    using that none inv by (auto simp: flight_inv_def split: if_splits)
  moreover have "s \<in> set (closedSlots c') \<or> gm_get (inflight c') (frKey (req j)) = Some s"
    if "(ph(i := Upstream True)) j = Waiting m s" for j m s
  proof -
    have "ph j = Waiting m s" using that by (cases "j = i") simp_all
    from flight_invD(2) [OF inv this] show ?thesis using None unfolding so'(2,3) gm_get_set by (cases "frKey (req j) = frKey (req i)") simp_all
  qed
  ultimately show ?thesis unfolding flight_inv_def so'(1) flight_def fst_conv snd_conv by blast
qed

lemma flight_inv_release:
  assumes inv: "flight_inv req (flight c) ph" and own: "ph i = Releasing"
  shows "flight_inv req (flight (releaseInflight (frKey (req i)) c)) (ph(i := Served))"
proof -
  have o: "owning (ph i)" using own by (simp add: owning_def)
  then obtain s where s: "gm_get (inflight c) (frKey (req i)) = Some s" using inv unfolding flight_inv_def flight_def by fastforce
  let ?c = "releaseInflight (frKey (req i)) c"
  have c': "inflight ?c = gm_del (frKey (req i)) (inflight c)" "closedSlots ?c = s # closedSlots c" using s by (simp_all add: releaseInflight_def)
  have "gm_get (inflight ?c) k \<noteq> None \<longleftrightarrow> (\<exists>j. frKey (req j) = k \<and> owning ((ph(i := Served)) j))" for k
  proof (cases "k = frKey (req i)")
    case True
    have "\<not> owning ((ph(i := Served)) j)" if "frKey (req j) = k" for j
      using that True o inv unfolding flight_inv_def by (auto simp: owning_def)
    then show ?thesis using True by (auto simp: c' gm_get_del)
  next
    case False
    then have "gm_get (inflight ?c) k \<noteq> None \<longleftrightarrow> (\<exists>j. frKey (req j) = k \<and> owning (ph j))"
      using inv by (simp add: c' gm_get_del flight_inv_def flight_def)
    then show ?thesis using False by auto
  qed
  moreover have "j = j'" if "owning ((ph(i := Served)) j)" "owning ((ph(i := Served)) j')" "frKey (req j) = frKey (req j')" for j j'
    using that inv by (auto simp: flight_inv_def owning_def split: if_splits)
  moreover have "t \<in> set (closedSlots ?c) \<or> gm_get (inflight ?c) (frKey (req j)) = Some t" if "(ph(i := Served)) j = Waiting m t" for j m t
  proof -
    have "ph j = Waiting m t" using that by (cases "j = i") simp_all
    from flight_invD(2) [OF inv this] show ?thesis using s unfolding c' gm_get_del by (cases "frKey (req j) = frKey (req i)") auto
  qed
  ultimately show ?thesis unfolding flight_inv_def flight_def fst_conv snd_conv by blast
qed

definition wrap_inv :: "case_table \<Rightarrow> (nat \<Rightarrow> flight_req) \<Rightarrow> Cache \<times> (nat \<Rightarrow> phase) \<Rightarrow> bool" where
  "wrap_inv tab req x \<longleftrightarrow> (\<exists>L. cache_inv tab (fst x) L) \<and> flight_inv req (flight (fst x)) (snd x) \<and>
     (\<forall>i n s. snd x i = Waiting n s \<longrightarrow> n = 1 \<or> n = 2)"

lemma store_result_frame:
  assumes "cache_inv tab c L"
  shows "(\<exists>L'. cache_inv tab (store_result de tab now q res c) L') \<and> flight (store_result de tab now q res c) = flight c"
proof (cases res)
  case (Stored e)
  then show ?thesis unfolding store_result_def using cache_inv_set [OF assms, of de now "frKey q" "frSession q" e "frPolicy q"] by auto
next
  case (NotStored reason)
  have "cache_inv tab (recordUncacheable p reason c) L" for p by (rule cache_inv_mem [OF assms]) simp_all
  then show ?thesis using NotStored by (auto simp: store_result_def)
next
  case Panicked
  then show ?thesis using assms by (auto simp: store_result_def)
qed

lemma flight_inv_owner_phase:
  assumes "flight_inv req f ph" "owning (ph i)" "owning p"
  shows "flight_inv req f (ph(i := p))"
proof -
  have w: "p \<noteq> Waiting n s" for n s using assms(3) by (auto simp: owning_def)
  have o: "owning ((ph(i := p)) j) = owning (ph j)" for j using assms(2,3) by simp
  show ?thesis unfolding flight_inv_def o using assms(1) w unfolding flight_inv_def by (auto split: if_splits)
qed

lemma wrap_inv_step:
  assumes "wrap_inv tab req (c, ph)" "wrap_step tab req (c, ph) (c', ph')"
  shows "wrap_inv tab req (c', ph')"
proof -
  obtain L where inv: "cache_inv tab c L" and fl: "flight_inv req (flight c) ph" and w: "\<And>i n s. ph i = Waiting n s \<Longrightarrow> n = 1 \<or> n = 2"
    using assms(1) by (auto simp: wrap_inv_def)
  have quiet: "wrap_inv tab req (d, ph(i := p))"
    if "\<exists>L. cache_inv tab d L" "flight d = flight c" "\<not> owning p" "\<not> owning (ph i)" "\<And>n s. p \<noteq> Waiting n s" for d i p
  proof -
    have "n = 1 \<or> n = 2" if "(ph(i := p)) j = Waiting n s" for j n s using that w [of j n s] \<open>\<And>n s. p \<noteq> Waiting n s\<close> by (auto split: if_splits)
    then show ?thesis using that flight_inv_other [OF fl that(3,4,5)] unfolding wrap_inv_def by simp
  qed
  have acq: "wrap_inv tab req (d, ph(i := after_acquire n so))"
    if "acquireInflight (frKey (req i)) c = (so, d)" "\<not> owning (ph i)" "n = 1 \<or> n = 2" for d i n so
  proof -
    have "mem d = mem c" "config d = config c" "disk d = disk c" using inflight_frame(1-3) [of "frKey (req i)" c] that(1) by simp_all
    then have "cache_inv tab d L" using cache_inv_mem [OF inv] by simp
    then show ?thesis using flight_inv_acquire [OF fl that(2,1), of n] w that(3) by (auto simp: wrap_inv_def after_acquire_def split: if_splits)
  qed
  have got: "(\<exists>L. cache_inv tab d L) \<and> flight d = flight c" if "getWithPolicy de tab now key policy c = (r, d)" for de now key policy r d
    using cache_inv_get [OF inv that] by blast
  from assms(2) show ?thesis
  proof cases
    case (hit i de now e)
    then show ?thesis unfolding hit(1) using got [OF hit(3)] by (intro quiet) (simp_all add: owning_def)
  next
    case (miss i de now)
    then show ?thesis unfolding miss(1) using got [OF miss(3)] by (intro quiet) (simp_all add: owning_def)
  next
    case (acquire i so)
    then show ?thesis unfolding acquire(1) by (intro acq) (simp_all add: owning_def)
  next
    case (woken_hit i n s de now e d)
    obtain L' where g: "cache_inv tab d L'" "flight d = flight c" using got [OF woken_hit(5)] by blast
    have "cache_inv tab c' L'" unfolding woken_hit(1) by (rule cache_inv_mem [OF g(1)]) simp_all
    then show ?thesis unfolding woken_hit(2) using woken_hit(1,3) g by (intro quiet) (auto simp: owning_def)
  next
    case (woken_miss i n s de now)
    then show ?thesis unfolding woken_miss(1) using got [OF woken_miss(4)] by (intro quiet) (simp_all add: owning_def after_wait_def)
  next
    case (timeout i n s)
    then show ?thesis unfolding timeout(1,2) using inv by (intro quiet) (auto simp: owning_def after_wait_def)
  next
    case (cancel i n s)
    then show ?thesis unfolding cancel(1,2) using inv by (intro quiet) (auto simp: owning_def)
  next
    case (claim i so)
    then show ?thesis unfolding claim(1) by (intro acq) (simp_all add: owning_def)
  next
    case (handled i own de now res)
    note st = store_result_frame [OF inv, of de now "req i" res]
    show ?thesis
    proof (cases own)
      case True
      then have "flight_inv req (flight c) (ph(i := Releasing))"
        using handled by (intro flight_inv_owner_phase [OF fl]) (simp_all add: owning_def)
      then show ?thesis using handled True st w by (auto simp: wrap_inv_def)
    next
      case False
      then show ?thesis using handled st quiet [of c' Served i] by (auto simp: owning_def)
    qed
  next
    case (release i)
    have "cache_inv tab c' L" unfolding release(1) by (rule cache_inv_mem [OF inv]) (simp_all add: inflight_frame)
    then show ?thesis using release flight_inv_release [OF fl, of i] w by (auto simp: wrap_inv_def)
  next
    case (reload cleanDir opts files)
    have "cache_inv tab c' (file_log files)" unfolding reload(1)
      by (rule cache_inv_empty) (simp_all add: ApplyOptions_def Let_def normalizeOptions_limits)
    moreover have "flight c' = flight c" unfolding reload(1) by (simp add: ApplyOptions_def Let_def flight_def)
    ultimately show ?thesis using fl w reload by (auto simp: wrap_inv_def)
  qed
qed

lemma wrap_inv_reach: "wrap_reach tab req x \<Longrightarrow> wrap_inv tab req x"
proof (induction rule: wrap_reach.induct)
  case (init cleanDir opts files)
  have "cache_inv tab (New cleanDir opts files) (file_log files)"
    by (rule cache_inv_empty) (simp_all add: New_def Let_def normalizeOptions_limits)
  then show ?case by (auto simp: wrap_inv_def flight_inv_def flight_def New_def Let_def owning_def)
next
  case (step x y)
  then show ?case by (cases x; cases y) (auto intro: wrap_inv_step)
qed

text \<open>C17: however identical requests interleave (with panics, time-outs, cancellations and hot reloads), at
  most one of those with the same key owns the upstream call, a slot is in the table exactly while such an owner
  runs, and every waiter's channel is closed already or is closed by the release of the owner, another request.\<close>

theorem single_flight:
  assumes "wrap_reach tab req (c, ph)"
  shows "(\<forall>i j. frKey (req i) = frKey (req j) \<and> ph i \<in> {Upstream True, Releasing} \<and> ph j \<in> {Upstream True, Releasing} \<longrightarrow> i = j) \<and>
    (\<forall>k. gm_get (inflight c) k \<noteq> None \<longleftrightarrow> (\<exists>i. frKey (req i) = k \<and> ph i \<in> {Upstream True, Releasing})) \<and>
    (\<forall>i n s. ph i = Waiting n s \<longrightarrow> s \<in> set (closedSlots c) \<or>
       (\<exists>j. j \<noteq> i \<and> frKey (req j) = frKey (req i) \<and> ph j \<in> {Upstream True, Releasing} \<and>
         s \<in> set (closedSlots (releaseInflight (frKey (req j)) c))))"
proof -
  have inv: "flight_inv req (flight c) ph" using wrap_inv_reach [OF assms] by (simp add: wrap_inv_def)
  have own: "p \<in> {Upstream True, Releasing} \<longleftrightarrow> owning p" for p by (auto simp: owning_def)
  have table: "gm_get (inflight c) k \<noteq> None \<longleftrightarrow> (\<exists>i. frKey (req i) = k \<and> owning (ph i))" for k
    using inv by (simp add: flight_inv_def flight_def)
  have wait: "s \<in> set (closedSlots c) \<or> (\<exists>j. j \<noteq> i \<and> frKey (req j) = frKey (req i) \<and> owning (ph j) \<and>
      s \<in> set (closedSlots (releaseInflight (frKey (req j)) c)))" if w: "ph i = Waiting n s" for i n s
  proof (cases "s \<in> set (closedSlots c)")
    case False
    then have g: "gm_get (inflight c) (frKey (req i)) = Some s" using flight_invD(2) [OF inv w] by blast
    then obtain j where j: "frKey (req j) = frKey (req i)" "owning (ph j)" using flight_invD(4) [OF inv] by blast
    then have "j \<noteq> i" using w by (auto simp: owning_def)
    moreover have "s \<in> set (closedSlots (releaseInflight (frKey (req j)) c))" using g j(1) by (simp add: releaseInflight_def)
    ultimately show ?thesis using j by blast
  qed simp
  show ?thesis unfolding own using table wait flight_invD(3) [OF inv] by blast
qed

section \<open>Progress\<close>

text \<open>Every step of a request brings it closer to its end.\<close>

fun rank :: "phase \<Rightarrow> nat" where
  "rank Arrived = 8"
| "rank Looked = 7"
| "rank (Waiting n s) = (if n = 1 then 6 else 4)"
| "rank Claiming = 5"
| "rank (Upstream own) = 3"
| "rank Releasing = 2"
| "rank Served = 0"
| "rank Cancelled = 0"

lemma after_wait_rank: "n = 1 \<or> n = 2 \<Longrightarrow> rank (after_wait n) < rank (Waiting n s)"
  by (auto simp: after_wait_def)

lemma own_step:
  assumes "ph i \<notin> {Served, Cancelled}" "\<And>n s. ph i = Waiting n s \<Longrightarrow> s \<in> set (closedSlots c) \<and> (n = 1 \<or> n = 2)"
  shows "\<exists>c' p. wrap_step tab req (c, ph) (c', ph(i := p)) \<and> rank p < rank (ph i)"
proof -
  obtain r d where g: "getWithPolicy undefined tab 0 (frKey (req i)) (frPolicy (req i)) c = (r, d)" by (meson surj_pair)
  obtain so a where q: "acquireInflight (frKey (req i)) c = (so, a)" by (meson surj_pair)
  show ?thesis
  proof (cases "ph i")
    case Arrived
    then show ?thesis using g wrap_step.hit [of ph i] wrap_step.miss [of ph i] by (cases r) (fastforce)+
  next
    case Looked
    then show ?thesis using wrap_step.acquire [where ph = ph and i = i and req = req, OF Looked q] by (auto simp: after_acquire_def split: if_splits intro!: exI)
  next
    case (Waiting n s)
    then have s: "s \<in> set (closedSlots c)" "n = 1 \<or> n = 2" using assms(2) by auto
    show ?thesis
    proof (cases r)
      case None
      then show ?thesis using wrap_step.woken_miss [where ph = ph and i = i and req = req, OF Waiting s(1)] g after_wait_rank [OF s(2), of s] Waiting by metis
    next
      case (Some e)
      then have "wrap_step tab req (c, ph) (recordInflightHit (Path (frPolicy (req i))) d, ph(i := Served))"
        using wrap_step.woken_hit [where ph = ph and i = i and req = req, OF Waiting s(1)] g by blast
      then show ?thesis using Waiting s(2) by (intro exI conjI) auto
    qed
  next
    case Claiming
    then show ?thesis using wrap_step.claim [where ph = ph and i = i and req = req, OF Claiming q] by (auto simp: after_acquire_def split: if_splits intro!: exI)
  next
    case (Upstream own)
    then show ?thesis using wrap_step.handled [where ph = ph and i = i and req = req, OF Upstream] by (cases own) (fastforce)+
  next
    case Releasing
    then show ?thesis using wrap_step.release [where ph = ph and i = i and req = req, OF Releasing] by (intro exI conjI) auto
  qed (use assms(1) in auto)
qed

text \<open>C26: requests never block each other for good: in every reachable state in which a request has not ended,
  some request with the same key can take a step without any time-out or cancellation, and each such step brings
  that request closer to its end (at most eight steps).\<close>

theorem flight_progress:
  assumes "wrap_reach tab req (c, ph)" "ph i \<notin> {Served, Cancelled}"
  shows "\<exists>j c' p. frKey (req j) = frKey (req i) \<and> (\<forall>n s. ph j = Waiting n s \<longrightarrow> s \<in> set (closedSlots c)) \<and>
    wrap_step tab req (c, ph) (c', ph(j := p)) \<and> rank p < rank (ph j)"
proof -
  have inv: "flight_inv req (flight c) ph" and n: "\<And>i n s. ph i = Waiting n s \<Longrightarrow> n = 1 \<or> n = 2"
    using wrap_inv_reach [OF assms(1)] by (auto simp: wrap_inv_def)
  show ?thesis
  proof (cases "\<exists>n s. ph i = Waiting n s \<and> s \<notin> set (closedSlots c)")
    case True
    then obtain m s where w: "ph i = Waiting m s" "s \<notin> set (closedSlots c)" by blast
    then have "gm_get (inflight c) (frKey (req i)) = Some s" using flight_invD(2) [OF inv w(1)] by blast
    then obtain j where j: "frKey (req j) = frKey (req i)" "owning (ph j)" using flight_invD(4) [OF inv] by blast
    then have nw: "ph j \<noteq> Waiting n s" "ph j \<notin> {Served, Cancelled}" for n s by (auto simp: owning_def)
    then show ?thesis using own_step [where ph = ph and i = j and c = c and tab = tab and req = req] j(1) by blast
  next
    case False
    then show ?thesis using own_step [where ph = ph and i = i and c = c and tab = tab and req = req, OF assms(2)] n by blast
  qed
qed

section \<open>Witnesses\<close>

definition sample_flight :: "nat \<Rightarrow> flight_req" where
  "sample_flight i = \<lparr>frKey = sample_key, frSession = '''', frPolicy = no_policy\<rparr>"

lemma sample_miss:
  assumes "items c = []" "disk c = []" "memoryBytes c = 0"
  shows "getWithPolicy de tab now sample_key no_policy c = (None, recordMiss '''' c)"
  using assms sample_key_norm(1) [of tab] sample_key_norm(2)
  by (simp add: getWithPolicy_def get_memory_def sweepMemoryLocked_def getDisk_def Let_def no_policy_def)

lemma sample_miss_fields [simp]:
  "items (recordMiss '''' c) = items c" "disk (recordMiss '''' c) = disk c" "memoryBytes (recordMiss '''' c) = memoryBytes c"
  "inflight (recordMiss '''' c) = inflight c" "slotCount (recordMiss '''' c) = slotCount c"
  by (simp_all add: recordMiss_def on_path_def)

lemma sample_waiting:
  "\<exists>c. wrap_reach (\<lambda>r. r) sample_flight (c, (\<lambda>_. Arrived)(0 := Looked, 0 := Upstream True, 1 := Looked, 1 := Waiting 1 0))"
proof -
  let ?c0 = "sample_cache" and ?ph = "\<lambda>_ :: nat. Arrived"
  have f: "items ?c0 = []" "disk ?c0 = []" "memoryBytes ?c0 = 0" "inflight ?c0 = []" "slotCount ?c0 = 0"
    by (simp_all add: sample_cache_def New_def Let_def)
  have k: "frKey (sample_flight i) = sample_key" "frPolicy (sample_flight i) = no_policy" for i by (simp_all add: sample_flight_def)
  have r0: "wrap_reach (\<lambda>r. r) sample_flight (?c0, ?ph)" unfolding sample_cache_def by (rule wrap_reach.init)
  let ?c1 = "recordMiss '''' ?c0"
  have r1: "wrap_reach (\<lambda>r. r) sample_flight (?c1, ?ph(0 := Looked))"
    using r0 by (rule wrap_reach.step) (rule wrap_step.miss [of _ _ undefined _ 0], simp_all add: k sample_miss f)
  let ?c2 = "?c1\<lparr>inflight := [(sample_key, 0)], slotCount := Suc 0\<rparr>"
  have a2: "acquireInflight sample_key ?c1 = ((0, True), ?c2)" by (simp add: acquireInflight_def f)
  have "wrap_reach (\<lambda>r. r) sample_flight (?c2, (?ph(0 := Looked))(0 := after_acquire 1 (0, True)))"
    using r1 by (rule wrap_reach.step) (rule wrap_step.acquire, simp_all add: k a2)
  then have r2: "wrap_reach (\<lambda>r. r) sample_flight (?c2, ?ph(0 := Looked, 0 := Upstream True))" by (simp add: after_acquire_def)
  let ?c3 = "recordMiss '''' ?c2"
  have r3: "wrap_reach (\<lambda>r. r) sample_flight (?c3, (?ph(0 := Looked, 0 := Upstream True))(1 := Looked))"
    using r2 by (rule wrap_reach.step) (rule wrap_step.miss [of _ _ undefined _ 0], simp_all add: k sample_miss f)
  have "gm_get (inflight ?c3) sample_key = Some 0" by simp
  then have a4: "acquireInflight sample_key ?c3 = ((0, False), ?c3)" unfolding acquireInflight_def by simp
  have "wrap_reach (\<lambda>r. r) sample_flight (?c3, ((?ph(0 := Looked, 0 := Upstream True))(1 := Looked))(1 := after_acquire 1 (0, False)))"
    using r3 by (rule wrap_reach.step) (rule wrap_step.acquire, simp_all add: k a4)
  then show ?thesis by (auto simp: after_acquire_def)
qed

theorem single_flight_witness:
  "\<exists>c. wrap_reach (\<lambda>r. r) sample_flight (c, (\<lambda>_. Arrived)(0 := Looked, 0 := Upstream True, 1 := Looked, 1 := Waiting 1 0)) \<and>
     (0 \<in> set (closedSlots c) \<or> (\<exists>j. j \<noteq> 1 \<and> 0 \<in> set (closedSlots (releaseInflight (frKey (sample_flight j)) c))))"
proof -
  obtain c where r: "wrap_reach (\<lambda>r. r) sample_flight (c, (\<lambda>_. Arrived)(0 := Looked, 0 := Upstream True, 1 := Looked, 1 := Waiting 1 0))"
    using sample_waiting by blast
  have "((\<lambda>_. Arrived)(0 := Looked, 0 := Upstream True, 1 := Looked, 1 := Waiting 1 0)) 1 = Waiting 1 (0 :: nat)" by simp
  with single_flight [OF r] r show ?thesis by blast
qed

theorem flight_progress_witness:
  "\<exists>c j c' p. wrap_step (\<lambda>r. r) sample_flight (c, (\<lambda>_. Arrived)(0 := Looked, 0 := Upstream True, 1 := Looked, 1 := Waiting 1 0))
     (c', ((\<lambda>_. Arrived)(0 := Looked, 0 := Upstream True, 1 := Looked, 1 := Waiting 1 0))(j := p))"
proof -
  obtain c where r: "wrap_reach (\<lambda>r. r) sample_flight (c, (\<lambda>_. Arrived)(0 := Looked, 0 := Upstream True, 1 := Looked, 1 := Waiting 1 0))"
    using sample_waiting by blast
  have "((\<lambda>_. Arrived)(0 := Looked, 0 := Upstream True, 1 := Looked, 1 := Waiting 1 0)) (1 :: nat) \<notin> {Served, Cancelled}" by simp
  from flight_progress [OF r this] show ?thesis by blast
qed

end
