(* ===== verification/Tool_Markup.thy ===== *)
theory Tool_Markup
  imports GoText
begin

text \<open>
  The scanner of tool-call markup (\<^verbatim>\<open>toolcall/toolcalls_scan.go\<close>, the scanning helpers of \<^verbatim>\<open>toolcalls_parse_markup.go\<close> and
  \<^verbatim>\<open>toolcalls_markup.go\<close>).

  The code searches in \<^verbatim>\<open>strings.ToLower(text)\<close> with offsets into \<^verbatim>\<open>text\<close>. Lower-casing can change the number of bytes,
  and an offset beyond the end of the lower-cased text panics: the functions that slice return \<open>None\<close> there. The result
  of a search is an option inside that option. The case table of the \<^verbatim>\<open>unicode\<close> package is the argument \<open>low\<close>.
\<close>

section \<open>Slices\<close>

text \<open>\<^verbatim>\<open>s[i:]\<close> and \<^verbatim>\<open>s[a:b]\<close>.\<close>

definition slice_from :: "string \<Rightarrow> nat \<Rightarrow> string option" where
  "slice_from s i = (if length s < i then None else Some (drop i s))"

definition slice :: "string \<Rightarrow> nat \<Rightarrow> nat \<Rightarrow> string option" where
  "slice s a b = (if a \<le> b \<and> b \<le> length s then Some (take (b - a) (drop a s)) else None)"

section \<open>Names\<close>

text \<open>Byte sequences of the non-ASCII literals: the full-width pipe, the Chinese names and the invisible characters.\<close>

definition wide_pipe :: string where
  "wide_pipe = [CHR 0xEF, CHR 0xBD, CHR 0x9C]"

definition cn_tool_calls :: string where
  "cn_tool_calls = [CHR 0xE5, CHR 0xB7, CHR 0xA5, CHR 0xE5, CHR 0x85, CHR 0xB7, CHR 0xE8, CHR 0xB0, CHR 0x83, CHR 0xE7, CHR 0x94, CHR 0xA8]"

definition cn_invoke :: string where
  "cn_invoke = [CHR 0xE8, CHR 0xB0, CHR 0x83, CHR 0xE7, CHR 0x94, CHR 0xA8]"

definition cn_parameter :: string where
  "cn_parameter = [CHR 0xE5, CHR 0x8F, CHR 0x82, CHR 0xE6, CHR 0x95, CHR 0xB0]"

definition toolMarkupNames :: "string list" where
  "toolMarkupNames = [''tool_calls'', ''tool-calls'', ''tool_call'', ''tool-call'', ''invoke'', ''parameter'',
     cn_tool_calls, cn_invoke, cn_parameter]"

definition toolMarkupTokenArtifacts :: "string list" where
  "toolMarkupTokenArtifacts =
     [[CHR 0xE2, CHR 0x80, CHR 0x8B], [CHR 0xE2, CHR 0x80, CHR 0x8C], [CHR 0xE2, CHR 0x80, CHR 0x8D],
      [CHR 0xE2, CHR 0x81, CHR 0xA0], [CHR 0xEF, CHR 0xBB, CHR 0xBF], [CHR 0xE2, CHR 0x96, CHR 0x81]]"

definition canonicalToolMarkupName :: "string \<Rightarrow> string" where
  "canonicalToolMarkupName name =
     (if name \<in> {cn_tool_calls, ''tool_call'', ''tool-calls'', ''tool-call''} then ''tool_calls''
      else if name = cn_invoke then ''invoke''
      else if name = cn_parameter then ''parameter'' else name)"

record ToolMarkupTag =
  tagStart :: nat
  tagEnd :: nat
  NameStart :: nat
  NameEnd :: nat
  tagName :: string
  Closing :: bool
  SelfClosing :: bool
  DSMLLike :: bool
  Canonical :: bool

section \<open>Ignored sections\<close>

definition cdataOpenerByteLenAt :: "string \<Rightarrow> nat \<Rightarrow> nat" where
  "cdataOpenerByteLenAt lower i =
     (if length lower \<le> i then 0
      else let tail = drop i lower in
        if prefix ''<![cdata['' tail then 9
        else if prefix ''<![cdata|'' tail then 9
        else if prefix (''<![cdata'' @ wide_pipe) tail then 11
        else 0)"

datatype skip = NotIgnored | Advanced nat | Blocked

definition skipXMLIgnoredSection :: "string \<Rightarrow> nat \<Rightarrow> skip option" where
  "skipXMLIgnoredSection lower i = (let openerLen = cdataOpenerByteLenAt lower i in
     if 0 < openerLen then
       Some (case str_index (drop (i + openerLen) lower) '']]>'' of
         None \<Rightarrow> Blocked | Some e \<Rightarrow> Advanced (i + openerLen + e + 3))
     else case slice_from lower i of
       None \<Rightarrow> None
     | Some tail \<Rightarrow>
         Some (if prefix ''<!--'' tail
           then (case str_index (drop 4 tail) ''-->'' of None \<Rightarrow> Blocked | Some e \<Rightarrow> Advanced (i + 4 + e + 3))
           else NotIgnored))"

text \<open>The position of the \<open>>\<close> that ends a tag, outside quotes.\<close>

fun tag_end_loop :: "string \<Rightarrow> char option \<Rightarrow> nat \<Rightarrow> nat option" where
  "tag_end_loop [] quote i = None"
| "tag_end_loop (ch # rest) quote i = (case quote of
     Some q \<Rightarrow> tag_end_loop rest (if ch = q then None else quote) (Suc i)
   | None \<Rightarrow>
       if ch = CHR 0x22 \<or> ch = CHR 0x27 then tag_end_loop rest (Some ch) (Suc i)
       else if ch = CHR ''>'' then Some i
       else tag_end_loop rest None (Suc i))"

definition findXMLTagEnd :: "string \<Rightarrow> nat \<Rightarrow> nat option" where
  "findXMLTagEnd text start = tag_end_loop (drop start text) None start"

section \<open>One tag\<close>

definition consumeToolMarkupPipe :: "string \<Rightarrow> nat \<Rightarrow> nat option" where
  "consumeToolMarkupPipe text idx =
     (if length text \<le> idx then None
      else if text ! idx = CHR ''|'' then Some (idx + 1)
      else if prefix wide_pipe (drop idx text) then Some (idx + 3)
      else None)"

definition consumeToolMarkupSpaceSeparator :: "string \<Rightarrow> nat \<Rightarrow> nat option" where
  "consumeToolMarkupSpaceSeparator text idx =
     (if idx < length text \<and> text ! idx \<in> {CHR '' '', CHR 0x09, CHR 0x0D, CHR 0x0A} then Some (idx + 1) else None)"

definition consumeToolMarkupTokenArtifact :: "string \<Rightarrow> nat \<Rightarrow> nat option" where
  "consumeToolMarkupTokenArtifact text idx =
     (if length text \<le> idx then None
      else map_option (\<lambda>a. idx + length a) (find (\<lambda>a. prefix a (drop idx text)) toolMarkupTokenArtifacts))"

definition hasToolMarkupNamePrefix :: "string \<Rightarrow> bool" where
  "hasToolMarkupNamePrefix lowerTail = list_ex (\<lambda>name. prefix name lowerTail \<or> prefix lowerTail name) toolMarkupNames"

definition hasToolMarkupDSMLPrefixPrefix :: "string \<Rightarrow> bool" where
  "hasToolMarkupDSMLPrefixPrefix lowerTail = list_ex (\<lambda>p. prefix lowerTail p) [''dsml'', ''{:dsml}'']"

definition consumeToolMarkupHyphenSeparator :: "string \<Rightarrow> string \<Rightarrow> nat \<Rightarrow> nat option option" where
  "consumeToolMarkupHyphenSeparator lower text idx =
     (if length text \<le> idx then Some None
      else if text ! idx \<noteq> CHR ''-'' \<and> text ! idx \<noteq> CHR ''_'' then Some None
      else case slice_from lower (idx + 1) of
        None \<Rightarrow> None
      | Some tail \<Rightarrow> Some (if hasToolMarkupNamePrefix tail then Some (idx + 1) else None))"

definition consumeToolMarkupNamePrefixOnce :: "string \<Rightarrow> string \<Rightarrow> nat \<Rightarrow> bool \<Rightarrow> nat option option" where
  "consumeToolMarkupNamePrefixOnce lower text idx allowTokenArtifacts =
     (case consumeToolMarkupPipe text idx of
        Some n \<Rightarrow> Some (Some n)
      | None \<Rightarrow> (case consumeToolMarkupSpaceSeparator text idx of
          Some n \<Rightarrow> Some (Some n)
        | None \<Rightarrow> (case slice_from lower idx of
            None \<Rightarrow> None
          | Some tail \<Rightarrow>
              if prefix ''{:dsml}'' tail then Some (Some (idx + 7))
              else if prefix ''dsml'' tail then Some (Some (idx + 4))
              else (case consumeToolMarkupHyphenSeparator lower text idx of
                  None \<Rightarrow> None
                | Some (Some n) \<Rightarrow> Some (Some n)
                | Some None \<Rightarrow> Some (if allowTokenArtifacts then consumeToolMarkupTokenArtifact text idx else None)))))"

lemma prefix_drop_less: "prefix p (drop i s) \<Longrightarrow> p \<noteq> [] \<Longrightarrow> i < length s"
  by (cases "i < length s") simp_all

lemma consume_once_bounds:
  assumes "consumeToolMarkupNamePrefixOnce lower text idx a = Some (Some n)"
  shows "idx < n \<and> idx < max (length lower) (length text)"
proof -
  have p: "consumeToolMarkupPipe text idx = Some n \<Longrightarrow> idx < n \<and> idx < length text"
    by (auto simp: consumeToolMarkupPipe_def split: if_splits)
  have s: "consumeToolMarkupSpaceSeparator text idx = Some n \<Longrightarrow> idx < n \<and> idx < length text"
    by (auto simp: consumeToolMarkupSpaceSeparator_def split: if_splits)
  have h: "consumeToolMarkupHyphenSeparator lower text idx = Some (Some n) \<Longrightarrow> idx < n \<and> idx < length text"
    by (auto simp: consumeToolMarkupHyphenSeparator_def split: if_splits option.splits)
  have "\<forall>a \<in> set toolMarkupTokenArtifacts. a \<noteq> []" by (simp add: toolMarkupTokenArtifacts_def)
  then have t: "consumeToolMarkupTokenArtifact text idx = Some n \<Longrightarrow> idx < n \<and> idx < length text"
    by (auto simp: consumeToolMarkupTokenArtifact_def find_Some_iff split: if_splits)
  show ?thesis using assms p s h t unfolding consumeToolMarkupNamePrefixOnce_def slice_from_def
    by (auto split: option.splits if_splits dest: prefix_drop_less)
qed

function consumeToolMarkupNamePrefix :: "string \<Rightarrow> string \<Rightarrow> nat \<Rightarrow> bool \<Rightarrow> (nat \<times> bool) option" where
  "consumeToolMarkupNamePrefix lower text idx dsmlLike =
     (case consumeToolMarkupNamePrefixOnce lower text idx dsmlLike of
        None \<Rightarrow> None
      | Some None \<Rightarrow> Some (idx, dsmlLike)
      | Some (Some n) \<Rightarrow> consumeToolMarkupNamePrefix lower text n True)"
  by pat_completeness auto
termination
  by (relation "measure (\<lambda>(lower, text, idx, _). max (length lower) (length text) - idx)")
    (auto dest: consume_once_bounds)

declare consumeToolMarkupNamePrefix.simps [simp del]

text \<open>The name found and its length in bytes; \<open>None\<close> inside when no name starts there.\<close>

definition matchToolMarkupName :: "string \<Rightarrow> nat \<Rightarrow> (string \<times> nat) option option" where
  "matchToolMarkupName lower start = map_option
     (\<lambda>tail. map_option (\<lambda>name. (name, length name)) (find (\<lambda>name. prefix name tail) toolMarkupNames)) (slice_from lower start)"

function consume_pipes :: "string \<Rightarrow> nat \<Rightarrow> nat" where
  "consume_pipes text nameEnd = (case consumeToolMarkupPipe text nameEnd of None \<Rightarrow> nameEnd | Some n \<Rightarrow> consume_pipes text n)"
  by pat_completeness auto
termination
  by (relation "measure (\<lambda>(text, i). length text - i)") (auto simp: consumeToolMarkupPipe_def split: if_splits)

declare consume_pipes.simps [simp del]

definition hasToolMarkupBoundary :: "string \<Rightarrow> nat \<Rightarrow> bool" where
  "hasToolMarkupBoundary text idx =
     (if length text \<le> idx then True
      else text ! idx \<in> {CHR '' '', CHR 0x09, CHR 0x0A, CHR 0x0D, CHR ''>'', CHR ''/'', CHR ''|''} \<or>
        prefix wide_pipe (drop idx text))"

definition skip_less_than :: "string \<Rightarrow> nat \<Rightarrow> nat" where
  "skip_less_than text i = i + length (takeWhile (\<lambda>c. c = CHR ''<'') (drop i text))"

definition tag_extent :: "string \<Rightarrow> nat \<Rightarrow> nat \<Rightarrow> nat option option" where
  "tag_extent text nameEndBeforePipes nameEnd =
     (let hasTrailingPipe = (nameEndBeforePipes < nameEnd) in
      if \<not> hasToolMarkupBoundary text nameEnd then Some None
      else case findXMLTagEnd text nameEnd of
        None \<Rightarrow> if \<not> hasTrailingPipe then Some None else map_option (\<lambda>_. Some (nameEnd - 1)) (slice_from text nameEnd)
      | Some e \<Rightarrow>
          if \<not> hasTrailingPipe then Some (Some e)
          else (case slice_from text nameEnd of
              None \<Rightarrow> None
            | Some tail \<Rightarrow> (case str_index tail ''<'' of
                Some nextLT \<Rightarrow> Some (Some (if nameEnd + nextLT \<le> e then nameEnd - 1 else e))
              | None \<Rightarrow> Some (Some e))))"

definition scanToolMarkupTagAt :: "case_table \<Rightarrow> string \<Rightarrow> nat \<Rightarrow> ToolMarkupTag option option" where
  "scanToolMarkupTagAt low text start =
     (if length text \<le> start \<or> text ! start \<noteq> CHR ''<'' then Some None
      else let lower = ToLower low text; i0 = skip_less_than text (start + 1);
               closing = (i0 < length text \<and> text ! i0 = CHR ''/'');
               i1 = (if closing then i0 + 1 else i0) in
        case consumeToolMarkupNamePrefix lower text i1 False of
          None \<Rightarrow> None
        | Some (i, dsmlLike) \<Rightarrow> (case matchToolMarkupName lower i of
            None \<Rightarrow> None
          | Some None \<Rightarrow> Some None
          | Some (Some (name, nameLen)) \<Rightarrow>
              (let nameEnd = consume_pipes text (i + nameLen) in
               case tag_extent text (i + nameLen) nameEnd of
                 None \<Rightarrow> None
               | Some None \<Rightarrow> Some None
               | Some (Some e) \<Rightarrow> map_option (\<lambda>tag. Some
                   \<lparr>tagStart = start, tagEnd = e, NameStart = i, NameEnd = nameEnd, tagName = name, Closing = closing,
                    SelfClosing = suffix ''/>'' (TrimSpace tag), DSMLLike = dsmlLike, Canonical = (\<not> dsmlLike)\<rparr>)
                   (slice text start (e + 1)))))"

text \<open>The loop of \<^verbatim>\<open>IsPartialToolMarkupTagPrefix\<close>.\<close>

function partial_loop :: "string \<Rightarrow> string \<Rightarrow> nat \<Rightarrow> bool \<Rightarrow> bool option" where
  "partial_loop lower text i dsmlLike =
     (if length text < i then Some False
      else if i = length text then Some True
      else case slice_from lower i of
        None \<Rightarrow> None
      | Some tail \<Rightarrow>
          if hasToolMarkupNamePrefix tail \<or> hasToolMarkupDSMLPrefixPrefix tail then Some True
          else (case consumeToolMarkupNamePrefixOnce lower text i dsmlLike of
              None \<Rightarrow> None
            | Some None \<Rightarrow> Some False
            | Some (Some n) \<Rightarrow> partial_loop lower text n True))"
  by pat_completeness auto
termination
  by (relation "measure (\<lambda>(lower, text, i, _). length text - i)") (auto dest: consume_once_bounds)

declare partial_loop.simps [simp del]

definition IsPartialToolMarkupTagPrefix :: "case_table \<Rightarrow> string \<Rightarrow> bool option" where
  "IsPartialToolMarkupTagPrefix low text =
     (if text = '''' \<or> hd text \<noteq> CHR ''<'' \<or> CHR ''>'' \<in> set text then Some False
      else let i = skip_less_than text 1 in
        if length text \<le> i then Some True
        else partial_loop (ToLower low text) text (if text ! i = CHR ''/'' then i + 1 else i) False)"

section \<open>Searching for tags\<close>

lemma skip_advances: "skipXMLIgnoredSection lower i = Some (Advanced n) \<Longrightarrow> i < n"
  by (auto simp: skipXMLIgnoredSection_def Let_def split: if_splits option.splits)

function find_tag_from :: "case_table \<Rightarrow> string \<Rightarrow> string \<Rightarrow> nat \<Rightarrow> ToolMarkupTag option option" where
  "find_tag_from low lower text i =
     (if length text \<le> i then Some None
      else case skipXMLIgnoredSection lower i of
        None \<Rightarrow> None
      | Some Blocked \<Rightarrow> Some None
      | Some (Advanced n) \<Rightarrow> find_tag_from low lower text n
      | Some NotIgnored \<Rightarrow> (case scanToolMarkupTagAt low text i of
          None \<Rightarrow> None
        | Some (Some tag) \<Rightarrow> Some (Some tag)
        | Some None \<Rightarrow> find_tag_from low lower text (Suc i)))"
  by pat_completeness auto
termination
  by (relation "measure (\<lambda>(low, lower, text, i). length text - i)") (auto dest: skip_advances)

declare find_tag_from.simps [simp del]

definition FindToolMarkupTagOutsideIgnored :: "case_table \<Rightarrow> string \<Rightarrow> nat \<Rightarrow> ToolMarkupTag option option" where
  "FindToolMarkupTagOutsideIgnored low text start = find_tag_from low (ToLower low text) text start"

lemma tag_end_loop_bounds: "tag_end_loop s q i = Some e \<Longrightarrow> i \<le> e \<and> e < i + length s"
  by (induction s q i rule: tag_end_loop.induct) (auto split: option.splits if_splits)

lemma findXMLTagEnd_bounds: "findXMLTagEnd text i = Some e \<Longrightarrow> i \<le> e \<and> e < length text"
  by (cases "i \<le> length text") (auto simp: findXMLTagEnd_def dest: tag_end_loop_bounds)

lemma consume_prefix_ge: "consumeToolMarkupNamePrefix lower text idx d = Some (i, d') \<Longrightarrow> idx \<le> i"
proof (induction lower "text" idx d rule: consumeToolMarkupNamePrefix.induct)
  case (1 lower "text" idx d)
  show ?case
  proof (cases "consumeToolMarkupNamePrefixOnce lower text idx d")
    case None
    then show ?thesis using 1(2) by (simp add: consumeToolMarkupNamePrefix.simps [of lower "text" idx])
  next
    case (Some x)
    then show ?thesis using 1 consume_once_bounds [of lower "text" idx d]
      by (cases x) (fastforce simp: consumeToolMarkupNamePrefix.simps [of lower "text" idx])+
  qed
qed

lemma consume_pipes_ge: "n \<le> consume_pipes text n"
proof (induction "text" n rule: consume_pipes.induct)
  case (1 "text" n)
  show ?case
  proof (cases "consumeToolMarkupPipe text n")
    case None
    then show ?thesis by (simp add: consume_pipes.simps [of "text" n])
  next
    case (Some m)
    then show ?thesis using 1 [OF Some] by (auto simp: consume_pipes.simps [of "text" n] consumeToolMarkupPipe_def split: if_splits)
  qed
qed

lemma tag_extent_ge: "tag_extent text a b = Some (Some e) \<Longrightarrow> b \<le> Suc e"
  by (auto simp: tag_extent_def Let_def split: if_splits option.splits dest: findXMLTagEnd_bounds)

lemma scan_tag_bounds:
  assumes "scanToolMarkupTagAt low text start = Some (Some tag)"
  shows "tagStart tag = start \<and> start < tagEnd tag \<and> tagEnd tag < length text"
proof -
  define i0 where "i0 = skip_less_than text (start + 1)"
  define i1 where "i1 = (if i0 < length text \<and> text ! i0 = CHR ''/'' then i0 + 1 else i0)"
  have i1: "start + 1 \<le> i1" by (simp add: i1_def i0_def skip_less_than_def)
  obtain i d name n e where
    c: "consumeToolMarkupNamePrefix (ToLower low text) text i1 False = Some (i, d)" and
    m: "matchToolMarkupName (ToLower low text) i = Some (Some (name, n))" and
    x: "tag_extent text (i + n) (consume_pipes text (i + n)) = Some (Some e)" and
    s: "slice text start (e + 1) \<noteq> None" and t: "tagStart tag = start" "tagEnd tag = e"
    using assms unfolding scanToolMarkupTagAt_def Let_def i0_def [symmetric] i1_def [symmetric]
    by (auto split: if_splits option.splits)
  have "name \<in> set toolMarkupNames" "n = length name"
    using m by (auto simp: matchToolMarkupName_def find_Some_iff)
  then have "0 < n" by (auto simp: toolMarkupNames_def cn_tool_calls_def cn_invoke_def cn_parameter_def)
  moreover have "i1 \<le> i" by (rule consume_prefix_ge [OF c])
  moreover have "i + n \<le> Suc e" using tag_extent_ge [OF x] consume_pipes_ge [of "i + n" "text"] by simp
  moreover have "e < length text" using s by (auto simp: slice_def split: if_splits)
  ultimately show ?thesis using i1 t by simp
qed

lemma find_tag_bounds: "find_tag_from low lower text i = Some (Some tag) \<Longrightarrow> i \<le> tagStart tag \<and> tagStart tag < tagEnd tag \<and> tagEnd tag < length text"
proof (induction low lower "text" i rule: find_tag_from.induct)
  case (1 low lower "text" i)
  note unf = find_tag_from.simps [of low lower "text" i]
  have i: "i < length text" using 1(3) by (cases "i < length text") (simp_all add: unf)
  then obtain sk where sk: "skipXMLIgnoredSection lower i = Some sk" using 1(3) by (auto simp: unf split: option.splits)
  show ?case
  proof (cases sk)
    case NotIgnored
    then obtain r where r: "scanToolMarkupTagAt low text i = Some r" using 1(3) i sk by (auto simp: unf split: option.splits)
    then show ?thesis using 1(1) [OF _ sk NotIgnored r] 1(3) i sk NotIgnored by (cases r) (auto simp: unf dest: scan_tag_bounds)
  next
    case (Advanced n)
    then show ?thesis using 1(2) [OF _ sk Advanced] 1(3) i sk skip_advances [of lower i n] by (auto simp: unf)
  next
    case Blocked
    then show ?thesis using 1(3) i sk by (simp add: unf)
  qed
qed

lemma find_outside_bounds:
  "FindToolMarkupTagOutsideIgnored low text i = Some (Some tag) \<Longrightarrow> i \<le> tagStart tag \<and> tagStart tag < tagEnd tag \<and> tagEnd tag < length text"
  unfolding FindToolMarkupTagOutsideIgnored_def by (rule find_tag_bounds)

function match_close_loop :: "case_table \<Rightarrow> string \<Rightarrow> string \<Rightarrow> nat \<Rightarrow> nat \<Rightarrow> ToolMarkupTag option option" where
  "match_close_loop low text name depth pos =
     (if length text \<le> pos then Some None
      else case FindToolMarkupTagOutsideIgnored low text pos of
        None \<Rightarrow> None
      | Some None \<Rightarrow> Some None
      | Some (Some tag) \<Rightarrow>
          if tagName tag \<noteq> name then match_close_loop low text name depth (Suc (tagEnd tag))
          else if Closing tag then
            (if depth \<le> 1 then Some (Some tag) else match_close_loop low text name (depth - 1) (Suc (tagEnd tag)))
          else match_close_loop low text name (if SelfClosing tag then depth else Suc depth) (Suc (tagEnd tag)))"
  by pat_completeness auto
termination
  by (relation "measure (\<lambda>(low, text, name, depth, pos). length text - pos)") (auto dest: find_outside_bounds)

declare match_close_loop.simps [simp del]

definition FindMatchingToolMarkupClose :: "case_table \<Rightarrow> string \<Rightarrow> ToolMarkupTag \<Rightarrow> ToolMarkupTag option option" where
  "FindMatchingToolMarkupClose low text opening =
     (if text = '''' \<or> tagName opening = '''' \<or> Closing opening then Some None
      else match_close_loop low text (tagName opening) 1 (Suc (tagEnd opening)))"

section \<open>Whole texts\<close>

text \<open>
  Does the text have DSML-like and canonical tags (\<^verbatim>\<open>ContainsToolMarkupSyntaxOutsideIgnored\<close>, for which \<open>wanted\<close> holds always), or
  wrapper tags (\<^verbatim>\<open>ContainsToolCallWrapperSyntaxOutsideIgnored\<close>)?
\<close>

function contains_loop :: "case_table \<Rightarrow> (ToolMarkupTag \<Rightarrow> bool) \<Rightarrow> string \<Rightarrow> string \<Rightarrow> nat \<Rightarrow> bool \<Rightarrow> bool \<Rightarrow> (bool \<times> bool) option" where
  "contains_loop low wanted lower text i hasDSML hasCanonical =
     (if length text \<le> i then Some (hasDSML, hasCanonical)
      else case skipXMLIgnoredSection lower i of
        None \<Rightarrow> None
      | Some Blocked \<Rightarrow> Some (hasDSML, hasCanonical)
      | Some (Advanced n) \<Rightarrow> contains_loop low wanted lower text n hasDSML hasCanonical
      | Some NotIgnored \<Rightarrow> (case scanToolMarkupTagAt low text i of
          None \<Rightarrow> None
        | Some None \<Rightarrow> contains_loop low wanted lower text (Suc i) hasDSML hasCanonical
        | Some (Some tag) \<Rightarrow>
            if \<not> wanted tag then contains_loop low wanted lower text (Suc (tagEnd tag)) hasDSML hasCanonical
            else let d = (hasDSML \<or> DSMLLike tag); c = (hasCanonical \<or> \<not> DSMLLike tag) in
              if d \<and> c then Some (True, True) else contains_loop low wanted lower text (Suc (tagEnd tag)) d c))"
  by pat_completeness auto
termination
  by (relation "measure (\<lambda>(low, wanted, lower, text, i, _). length text - i)") (auto dest: skip_advances scan_tag_bounds)

declare contains_loop.simps [simp del]

definition ContainsToolMarkupSyntaxOutsideIgnored :: "case_table \<Rightarrow> string \<Rightarrow> (bool \<times> bool) option" where
  "ContainsToolMarkupSyntaxOutsideIgnored low text = contains_loop low (\<lambda>_. True) (ToLower low text) text 0 False False"

definition ContainsToolCallWrapperSyntaxOutsideIgnored :: "case_table \<Rightarrow> string \<Rightarrow> (bool \<times> bool) option" where
  "ContainsToolCallWrapperSyntaxOutsideIgnored low text =
     contains_loop low (\<lambda>tag. tagName tag = ''tool_calls'') (ToLower low text) text 0 False False"

definition looksLikeToolCallSyntax :: "case_table \<Rightarrow> string \<Rightarrow> bool option" where
  "looksLikeToolCallSyntax low text = map_option (\<lambda>(d, c). d \<or> c) (ContainsToolCallWrapperSyntaxOutsideIgnored low text)"

text \<open>\<^verbatim>\<open>isLikelyTagStartAt\<close>, on the text from the position on.\<close>

definition isLikelyTagStartAt :: "string \<Rightarrow> bool" where
  "isLikelyTagStartAt tail = (case tail of
     [] \<Rightarrow> False
   | c # rest0 \<Rightarrow>
       if c \<noteq> CHR ''<'' \<or> rest0 = '''' then False
       else let rest = (if hd rest0 = CHR ''/'' then tl rest0 else rest0) in
         if rest = '''' then False
         else let b = byte_of (hd rest) in
           (97 \<le> b \<and> b \<le> 122) \<or> (65 \<le> b \<and> b \<le> 90) \<or> hd rest = CHR ''_'' \<or> hd rest = CHR ''|'' \<or> prefix wide_pipe rest)"

text \<open>\<^verbatim>\<open>findLooseCDATAClose\<close>: the offset of \<^verbatim>\<open>]]\<close> before a likely tag, in the text from the position on.\<close>

fun findLooseCDATAClose :: "string \<Rightarrow> nat option" where
  "findLooseCDATAClose [] = None"
| "findLooseCDATAClose (c # cs) = (if prefix '']]<'' (c # cs) \<and> isLikelyTagStartAt (drop 2 (c # cs)) then Some 0
     else map_option Suc (findLooseCDATAClose cs))"

text \<open>One round of the loop of \<^verbatim>\<open>SanitizeLooseCDATA\<close>: the output, whether it changed the text, and where to go on.\<close>

definition sanitize_step :: "string \<Rightarrow> string \<Rightarrow> nat \<Rightarrow> (string \<times> bool \<times> nat) option" where
  "sanitize_step lower text pos = (case slice_from lower pos of
     None \<Rightarrow> None
   | Some lowerTail \<Rightarrow> (case str_index lowerTail ''<![cdata['' of
       None \<Rightarrow> Some (drop pos text, False, length text)
     | Some startRel \<Rightarrow>
         (let start = pos + startRel; contentStart = start + 9 in
          case (slice text pos start, slice_from text contentStart) of
            (Some before, Some content) \<Rightarrow>
              (let properRel = str_index content '']]>''; looseRel = findLooseCDATAClose content in
               case (properRel, looseRel) of
                 (None, None) \<Rightarrow> Some (before @ content, True, length text)
               | (None, Some l) \<Rightarrow> Some (before @ take (9 + l) (drop start text) @ '']]>'', True, contentStart + l + 2)
               | (Some p, looseRel) \<Rightarrow>
                   if (case looseRel of None \<Rightarrow> True | Some l \<Rightarrow> p \<le> l)
                   then Some (before @ take (9 + p + 3) (drop start text), False, contentStart + p + 3)
                   else (case looseRel of
                       Some l \<Rightarrow> Some (before @ take (9 + l) (drop start text) @ '']]>'', True, contentStart + l + 2)
                     | None \<Rightarrow> None))
          | _ \<Rightarrow> None)))"

lemma sanitize_step_advances: "sanitize_step lower text pos = Some (out, ch, n) \<Longrightarrow> pos < length text \<Longrightarrow> pos < n"
  by (auto simp: sanitize_step_def Let_def split: option.splits if_splits)

function sanitize_loop :: "string \<Rightarrow> string \<Rightarrow> nat \<Rightarrow> (string \<times> bool) option" where
  "sanitize_loop lower text pos =
     (if length text \<le> pos then Some ('''', False)
      else case sanitize_step lower text pos of
        None \<Rightarrow> None
      | Some (out, changed, n) \<Rightarrow> map_option (\<lambda>(rest, ch). (out @ rest, changed \<or> ch)) (sanitize_loop lower text n))"
  by pat_completeness auto
termination
  by (relation "measure (\<lambda>(lower, text, pos). length text - pos)") (auto dest: sanitize_step_advances)

declare sanitize_loop.simps [simp del]

definition SanitizeLooseCDATA :: "case_table \<Rightarrow> string \<Rightarrow> string option" where
  "SanitizeLooseCDATA low text = (if text = '''' then Some ''''
     else map_option (\<lambda>(out, changed). if changed then out else text) (sanitize_loop (ToLower low text) text 0))"

section \<open>When the scanner panics\<close>

lemma consume_once_total:
  assumes "length text \<le> length lower" "idx \<le> length lower"
  shows "\<exists>r. consumeToolMarkupNamePrefixOnce lower text idx a = Some r \<and> (\<forall>n. r = Some n \<longrightarrow> n \<le> length lower)"
proof -
  have t: "length a \<le> length s - i" if "prefix a (drop i s)" for a s :: string and i using prefix_length_le [OF that] by simp
  have "consumeToolMarkupPipe text idx = Some n \<Longrightarrow> n \<le> length text" for n
    using t [of wide_pipe idx "text"] by (auto simp: consumeToolMarkupPipe_def wide_pipe_def split: if_splits)
  moreover have "consumeToolMarkupSpaceSeparator text idx = Some n \<Longrightarrow> n \<le> length text" for n
    by (auto simp: consumeToolMarkupSpaceSeparator_def split: if_splits)
  moreover have "consumeToolMarkupTokenArtifact text idx = Some n \<Longrightarrow> n \<le> length text" for n
    using t [of _ idx "text"] by (fastforce simp: consumeToolMarkupTokenArtifact_def find_Some_iff split: if_splits)
  moreover have "\<exists>r. consumeToolMarkupHyphenSeparator lower text idx = Some r \<and> (\<forall>n. r = Some n \<longrightarrow> n \<le> length text)"
    using assms by (auto simp: consumeToolMarkupHyphenSeparator_def slice_from_def)
  moreover have "idx + 7 \<le> length lower" if "prefix ''{:dsml}'' (drop idx lower)" using t [OF that] assms(2) by simp
  moreover have "idx + 4 \<le> length lower" if "prefix ''dsml'' (drop idx lower)" using t [OF that] assms(2) by simp
  ultimately show ?thesis using assms
    by (fastforce simp: consumeToolMarkupNamePrefixOnce_def slice_from_def split: option.splits if_splits)
qed

lemma consume_prefix_total:
  "length text \<le> length lower \<Longrightarrow> idx \<le> length lower \<Longrightarrow>
   \<exists>i d'. consumeToolMarkupNamePrefix lower text idx d = Some (i, d') \<and> i \<le> length lower"
proof (induction lower "text" idx d rule: consumeToolMarkupNamePrefix.induct)
  case (1 lower "text" idx d)
  obtain r where r: "consumeToolMarkupNamePrefixOnce lower text idx d = Some r" "\<forall>n. r = Some n \<longrightarrow> n \<le> length lower"
    using consume_once_total [OF 1(2,3)] by blast
  show ?case
  proof (cases r)
    case None
    then show ?thesis using r 1(3) by (simp add: consumeToolMarkupNamePrefix.simps [of lower "text" idx])
  next
    case (Some n)
    then show ?thesis using r 1(1) [OF r(1) Some 1(2)] by (simp add: consumeToolMarkupNamePrefix.simps [of lower "text" idx])
  qed
qed

lemma consume_pipes_le: "consume_pipes text n = n \<or> consume_pipes text n \<le> length text"
proof (induction "text" n rule: consume_pipes.induct)
  case (1 "text" n)
  show ?case
  proof (cases "consumeToolMarkupPipe text n")
    case None
    then show ?thesis by (simp add: consume_pipes.simps [of "text" n])
  next
    case (Some m)
    have "m \<le> length text" using Some prefix_length_le [of wide_pipe "drop n text"]
      by (auto simp: consumeToolMarkupPipe_def wide_pipe_def split: if_splits)
    then show ?thesis using 1 [OF Some] Some by (auto simp: consume_pipes.simps [of "text" n])
  qed
qed

lemma tag_extent_total: "\<exists>r. tag_extent text n (consume_pipes text n) = Some r \<and> (\<forall>e. r = Some e \<longrightarrow> e < length text)"
proof -
  have "n < consume_pipes text n \<Longrightarrow> consume_pipes text n \<le> length text" using consume_pipes_le [of "text" n] by auto
  then show ?thesis
    by (auto simp: tag_extent_def slice_from_def Let_def split: option.splits dest: findXMLTagEnd_bounds)
qed

lemma scan_total:
  assumes "length text \<le> length (ToLower low text)"
  shows "\<exists>r. scanToolMarkupTagAt low text start = Some r"
proof (cases "length text \<le> start \<or> text ! start \<noteq> CHR ''<''")
  case False
  define i0 where "i0 = skip_less_than text (start + 1)"
  define i1 where "i1 = (if i0 < length text \<and> text ! i0 = CHR ''/'' then i0 + 1 else i0)"
  have "i0 \<le> length text" using False length_takeWhile_le [of "\<lambda>c. c = CHR ''<''" "drop (start + 1) text"]
    unfolding i0_def skip_less_than_def length_drop by linarith
  then have "i1 \<le> length (ToLower low text)" using assms by (auto simp: i1_def)
  then obtain i d where c: "consumeToolMarkupNamePrefix (ToLower low text) text i1 False = Some (i, d)" "i \<le> length (ToLower low text)"
    using consume_prefix_total [OF assms] by blast
  obtain r where m: "matchToolMarkupName (ToLower low text) i = Some r" using c(2) by (simp add: matchToolMarkupName_def slice_from_def)
  show ?thesis
  proof (cases r)
    case None
    then show ?thesis using False c m unfolding scanToolMarkupTagAt_def Let_def i0_def [symmetric] i1_def [symmetric] by simp
  next
    case (Some nl)
    obtain name n where nl: "nl = (name, n)" by (cases nl)
    obtain x where x: "tag_extent text (i + n) (consume_pipes text (i + n)) = Some x" "\<And>e. x = Some e \<Longrightarrow> e < length text"
      using tag_extent_total [of "text" "i + n"] by blast
    have "start \<le> i + n" using consume_prefix_ge [OF c(1)] by (simp add: i1_def i0_def skip_less_than_def split: if_splits)
    then have "start \<le> Suc e" if "x = Some e" for e
      using tag_extent_ge [of "text" "i + n" "consume_pipes text (i + n)" e] consume_pipes_ge [of "i + n" "text"] x(1) that by simp
    then have "\<exists>t. slice text start (e + 1) = Some t" if "x = Some e" for e
      using x(2) [OF that] that by (auto simp: slice_def)
    then show ?thesis using False c m x Some nl unfolding scanToolMarkupTagAt_def Let_def i0_def [symmetric] i1_def [symmetric]
      by (auto split: option.splits)
  qed
qed (simp add: scanToolMarkupTagAt_def)

lemma skip_total: "i \<le> length lower \<Longrightarrow> \<exists>r. skipXMLIgnoredSection lower i = Some r"
  by (simp add: skipXMLIgnoredSection_def slice_from_def Let_def)

text \<open>Text that lower-casing does not shorten is scanned without a panic.\<close>

lemma find_tag_total:
  assumes "length text \<le> length (ToLower low text)"
  shows "\<exists>r. find_tag_from low (ToLower low text) text i = Some r"
proof (induction "length text - i" arbitrary: i rule: less_induct)
  case less
  note unf = find_tag_from.simps [of low "ToLower low text" "text" i]
  show ?case
  proof (cases "length text \<le> i")
    case False
    then obtain sk where sk: "skipXMLIgnoredSection (ToLower low text) i = Some sk" using skip_total assms by fastforce
    obtain r where r: "scanToolMarkupTagAt low text i = Some r" using scan_total [OF assms] by blast
    show ?thesis
    proof (cases sk)
      case NotIgnored
      then show ?thesis using False sk r less [of "Suc i"] by (cases r) (simp_all add: unf)
    next
      case (Advanced n)
      then show ?thesis using False sk less [of n] skip_advances [of "ToLower low text" i n] by (simp add: unf)
    next
      case Blocked
      then show ?thesis using False sk by (simp add: unf)
    qed
  qed (simp add: unf)
qed

lemma find_outside_total:
  "length text \<le> length (ToLower low text) \<Longrightarrow> \<exists>r. FindToolMarkupTagOutsideIgnored low text i = Some r"
  unfolding FindToolMarkupTagOutsideIgnored_def by (rule find_tag_total)

lemma match_close_total:
  assumes "length text \<le> length (ToLower low text)"
  shows "\<exists>r. match_close_loop low text name depth pos = Some r"
proof (induction "length text - pos" arbitrary: depth pos rule: less_induct)
  case less
  note unf = match_close_loop.simps [of low "text" name depth pos]
  show ?case
  proof (cases "length text \<le> pos")
    case False
    obtain r where r: "FindToolMarkupTagOutsideIgnored low text pos = Some r" using find_outside_total [OF assms] by blast
    show ?thesis
    proof (cases r)
      case (Some tag)
      then have "pos < Suc (tagEnd tag)" using find_outside_bounds [of low "text" pos tag] r by simp
      then show ?thesis using False r Some less [of "Suc (tagEnd tag)"] by (simp add: unf)
    qed (use False r in \<open>simp add: unf\<close>)
  qed (simp add: unf)
qed

lemma find_close_total:
  "length text \<le> length (ToLower low text) \<Longrightarrow> \<exists>r. FindMatchingToolMarkupClose low text tag = Some r"
  by (simp add: FindMatchingToolMarkupClose_def match_close_total)

lemma partial_total:
  assumes "length text \<le> length lower"
  shows "\<exists>r. partial_loop lower text i d = Some r"
proof (induction "length text - i" arbitrary: i d rule: less_induct)
  case less
  note unf = partial_loop.simps [of lower "text" i d]
  show ?case
  proof (cases "i < length text")
    case True
    then have s: "slice_from lower i = Some (drop i lower)" using assms by (simp add: slice_from_def)
    obtain r where r: "consumeToolMarkupNamePrefixOnce lower text i d = Some r"
      using consume_once_total [OF assms, of i d] True assms by auto
    show ?thesis
    proof (cases r)
      case (Some n)
      then show ?thesis using True s r less [of n] consume_once_bounds [of lower "text" i d n] by (auto simp: unf)
    qed (use True s r in \<open>auto simp: unf\<close>)
  qed (auto simp: unf)
qed

lemma partial_prefix_total:
  "length text \<le> length (ToLower low text) \<Longrightarrow> \<exists>r. IsPartialToolMarkupTagPrefix low text = Some r"
  by (auto simp: IsPartialToolMarkupTagPrefix_def Let_def partial_total)

text \<open>
  Lower-casing U+0130 (the Turkish capital dotted I, two bytes) gives \<open>i\<close>: in a text with two of them the search
  runs past the end of the lower-cased text.
\<close>

lemma dotted_i_panics:
  assumes "low 0x130 = 0x69"
  shows "FindToolMarkupTagOutsideIgnored low [CHR 0xC4, CHR 0xB0, CHR 0xC4, CHR 0xB0] 0 = None"
proof -
  define t where "t = [CHR 0xC4, CHR 0xB0, CHR 0xC4, CHR 0xB0]"
  have "rune_chunks t = [(0x130, [CHR 0xC4, CHR 0xB0]), (0x130, [CHR 0xC4, CHR 0xB0])]" unfolding t_def by code_simp
  moreover have "encode_rune (0x69 :: nat) = ''i''" by (simp add: encode_rune_ascii char_of_def bit_0)
  ultimately have l: "ToLower low t = ''ii''" using assms by (simp add: ToLower_def map_runes_def runes_def lower_rune_def)
  have k: "skipXMLIgnoredSection ''ii'' 0 = Some NotIgnored" "skipXMLIgnoredSection ''ii'' 1 = Some NotIgnored"
    "skipXMLIgnoredSection ''ii'' 2 = Some NotIgnored" "skipXMLIgnoredSection ''ii'' 3 = None"
    by code_simp+
  have s: "scanToolMarkupTagAt low t 0 = Some None" "scanToolMarkupTagAt low t (Suc 0) = Some None" "scanToolMarkupTagAt low t 2 = Some None"
    by (simp_all add: scanToolMarkupTagAt_def t_def)
  have n: "length t = 4" by (simp add: t_def)
  have "find_tag_from low ''ii'' t 3 = None" using k(4) n by (simp add: find_tag_from.simps [of low _ t 3])
  then have "find_tag_from low ''ii'' t 2 = None" using k(3) s(3) n by (simp add: find_tag_from.simps [of low _ t 2])
  then have "find_tag_from low ''ii'' t 1 = None" using k(2) s(2) n by (simp add: find_tag_from.simps [of low _ t "Suc 0"] numeral_2_eq_2)
  then have "find_tag_from low ''ii'' t 0 = None" using k(1) s(1) n by (simp add: find_tag_from.simps [of low _ t 0])
  then show ?thesis by (simp add: FindToolMarkupTagOutsideIgnored_def l t_def [symmetric])
qed

end
