(* ===== verification/Tool_Capture.thy ===== *)
theory Tool_Capture
  imports Tool_Markup GoJson
begin

text \<open>
  The sieve that takes tool calls out of a streamed answer (\<^verbatim>\<open>toolstream\<close>). Text is released as soon as it cannot be the
  start of a tool-call block; a block is withheld until it is complete, parsed, and reported as calls.

  The parser of a complete block (\<^verbatim>\<open>toolcall.ParseStandaloneToolCallsDetailed\<close>) is the argument \<open>parse\<close>: it returns the calls and
  whether it saw tool-call syntax, or \<open>None\<close> when it panics. The statements hold for every such function. As in
  \<^verbatim>\<open>Tool_Markup\<close>, \<open>None\<close> is a panic.
\<close>

record ParsedToolCall =
  callName :: string
  callInput :: json_object

type_synonym block_parser = "string \<Rightarrow> (ParsedToolCall list \<times> bool) option"

section \<open>State\<close>

record State =
  pending :: string
  capture :: string
  capturing :: bool
  codeFenceStack :: "int list"
  codeFencePendingTicks :: nat
  codeFencePendingTildes :: nat
  codeFenceNotLineStart :: bool
  pendingToolRaw :: string
  pendingToolCalls :: "ParsedToolCall list"
  disableDeltas :: bool
  toolNameSent :: bool
  toolName :: string
  toolArgsStart :: int
  toolArgsSent :: int
  toolArgsString :: bool
  toolArgsDone :: bool

definition zero_state :: State where
  "zero_state = \<lparr>pending = '''', capture = '''', capturing = False, codeFenceStack = [], codeFencePendingTicks = 0,
     codeFencePendingTildes = 0, codeFenceNotLineStart = False, pendingToolRaw = '''', pendingToolCalls = [], disableDeltas = False,
     toolNameSent = False, toolName = '''', toolArgsStart = 0, toolArgsSent = 0, toolArgsString = False, toolArgsDone = False\<rparr>"

text \<open>An event carries text or calls; the code never fills \<^verbatim>\<open>ToolCallDeltas\<close>.\<close>

datatype Event = Content string | ToolCalls "ParsedToolCall list"

definition resetIncrementalToolState :: "State \<Rightarrow> State" where
  "resetIncrementalToolState s = s\<lparr>disableDeltas := False, toolNameSent := False, toolName := '''', toolArgsStart := -1,
     toolArgsSent := -1, toolArgsString := False, toolArgsDone := False\<rparr>"

section \<open>Code fences\<close>

text \<open>A fence of backticks is its positive length on the stack, one of tildes its negative length; the top is the last element.\<close>

definition applyFenceMarker :: "int list \<Rightarrow> int \<Rightarrow> int list" where
  "applyFenceMarker stack marker =
     (if marker = 0 then stack
      else if stack = [] then [marker]
      else let top = List.last stack; sameType = ((0 < top \<and> 0 < marker) \<or> (top < 0 \<and> marker < 0)) in
        if \<not> sameType then stack @ [marker]
        else if \<bar>top\<bar> \<le> \<bar>marker\<bar> then butlast stack
        else stack @ [marker])"

record codeFenceSimulation =
  fenceStack :: "int list"
  pendingTicks :: nat
  pendingTildes :: nat
  lineStart :: bool

definition flush_marks :: "codeFenceSimulation \<Rightarrow> codeFenceSimulation" where
  "flush_marks f0 =
     (let f1 = (if 0 < pendingTicks f0
            then f0\<lparr>fenceStack := (if lineStart f0 \<and> 3 \<le> pendingTicks f0 then applyFenceMarker (fenceStack f0) (int (pendingTicks f0)) else fenceStack f0),
                   lineStart := False, pendingTicks := 0\<rparr> else f0)
      in if 0 < pendingTildes f1
         then f1\<lparr>fenceStack := (if lineStart f1 \<and> 3 \<le> pendingTildes f1 then applyFenceMarker (fenceStack f1) (- int (pendingTildes f1)) else fenceStack f1),
                lineStart := False, pendingTildes := 0\<rparr> else f1)"

definition fence_char :: "char \<Rightarrow> codeFenceSimulation \<Rightarrow> codeFenceSimulation" where
  "fence_char ch f =
     (if ch = CHR 0x60 then (let g = (if 0 < pendingTildes f then flush_marks f else f) in g\<lparr>pendingTicks := Suc (pendingTicks g)\<rparr>)
      else if ch = CHR ''~'' then (let g = (if 0 < pendingTicks f then flush_marks f else f) in g\<lparr>pendingTildes := Suc (pendingTildes g)\<rparr>)
      else let g = flush_marks f in
        if ch = CHR 0x0A \<or> ch = CHR 0x0D then g\<lparr>lineStart := True\<rparr>
        else if (ch = CHR '' '' \<or> ch = CHR 0x09) \<and> lineStart g then g
        else g\<lparr>lineStart := False\<rparr>)"

definition simulateCodeFenceState :: "int list \<Rightarrow> nat \<Rightarrow> nat \<Rightarrow> bool \<Rightarrow> string \<Rightarrow> codeFenceSimulation" where
  "simulateCodeFenceState stack ticks tildes atStart text =
     fold fence_char text \<lparr>fenceStack = stack, pendingTicks = ticks, pendingTildes = tildes, lineStart = atStart\<rparr>"

definition insideCodeFenceWithState :: "State \<Rightarrow> string \<Rightarrow> bool" where
  "insideCodeFenceWithState s text \<longleftrightarrow>
     fenceStack (simulateCodeFenceState (codeFenceStack s) (codeFencePendingTicks s) (codeFencePendingTildes s)
       (\<not> codeFenceNotLineStart s) text) \<noteq> []"

definition insideCodeFence :: "string \<Rightarrow> bool" where
  "insideCodeFence text \<longleftrightarrow> text \<noteq> [] \<and> fenceStack (simulateCodeFenceState [] 0 0 True text) \<noteq> []"

definition hasMeaningfulText :: "string \<Rightarrow> bool" where
  "hasMeaningfulText text \<longleftrightarrow> TrimSpace text \<noteq> ''''"

definition updateCodeFenceState :: "string \<Rightarrow> State \<Rightarrow> State" where
  "updateCodeFenceState text s =
     (if \<not> hasMeaningfulText text then s
      else let f = simulateCodeFenceState (codeFenceStack s) (codeFencePendingTicks s) (codeFencePendingTildes s) (\<not> codeFenceNotLineStart s) text in
        s\<lparr>codeFenceStack := fenceStack f, codeFencePendingTicks := pendingTicks f, codeFencePendingTildes := pendingTildes f,
          codeFenceNotLineStart := (\<not> lineStart f)\<rparr>)"

definition noteText :: "string \<Rightarrow> State \<Rightarrow> State" where
  "noteText content s = (if hasMeaningfulText content then updateCodeFenceState content s else s)"

section \<open>Where a block may start\<close>

definition isBareSingularToolCallTag :: "string \<Rightarrow> ToolMarkupTag \<Rightarrow> bool" where
  "isBareSingularToolCallTag text tag =
     (if DSMLLike tag then False
      else if tagName tag = ''tool_call'' then True
      else if tagName tag \<noteq> ''tool_calls'' then False
      else if length text < NameEnd tag \<or> NameEnd tag \<le> NameStart tag then False
      else EqualFoldASCII (take (NameEnd tag - NameStart tag) (drop (NameStart tag) text)) ''tool_call'')"

definition includeDuplicateLeadingLessThan :: "string \<Rightarrow> nat \<Rightarrow> nat" where
  "includeDuplicateLeadingLessThan s idx = idx - length (takeWhile (\<lambda>c. c = CHR ''<'') (rev (take idx s)))"

function segment_start_loop :: "case_table \<Rightarrow> State \<Rightarrow> string \<Rightarrow> nat \<Rightarrow> nat option option" where
  "segment_start_loop low st s offset =
     (case FindToolMarkupTagOutsideIgnored low s offset of
        None \<Rightarrow> None
      | Some None \<Rightarrow> Some None
      | Some (Some tag) \<Rightarrow>
          if isBareSingularToolCallTag s tag then segment_start_loop low st s (Suc (tagEnd tag))
          else let start = includeDuplicateLeadingLessThan s (tagStart tag) in
            if \<not> insideCodeFenceWithState st (take start s) then Some (Some start)
            else segment_start_loop low st s (Suc (tagEnd tag)))"
  by pat_completeness auto
termination
  by (relation "measure (\<lambda>(low, st, s, offset). length s - offset)") (auto dest: find_outside_bounds)

declare segment_start_loop.simps [simp del]

definition findToolSegmentStart :: "case_table \<Rightarrow> State \<Rightarrow> string \<Rightarrow> nat option option" where
  "findToolSegmentStart low st s = (if s = '''' then Some None else segment_start_loop low st s 0)"

definition findPartialXMLToolTagStart :: "case_table \<Rightarrow> string \<Rightarrow> nat option option" where
  "findPartialXMLToolTagStart low s = (case str_last_index s ''<'' of
     None \<Rightarrow> Some None
   | Some lastLT \<Rightarrow>
       (let start = includeDuplicateLeadingLessThan s lastLT; tail = drop start s in
        if CHR ''>'' \<in> set tail then Some None
        else map_option (\<lambda>b. if b then Some start else None) (IsPartialToolMarkupTagPrefix low tail)))"

text \<open>The text that may be released and the text to hold.\<close>

definition splitSafeContentForToolDetection :: "case_table \<Rightarrow> State \<Rightarrow> string \<Rightarrow> (string \<times> string) option" where
  "splitSafeContentForToolDetection low st s =
     (if s = '''' then Some ('''', '''')
      else case findPartialXMLToolTagStart low s of
        None \<Rightarrow> None
      | Some None \<Rightarrow> Some (s, '''')
      | Some (Some xmlIdx) \<Rightarrow>
          if insideCodeFenceWithState st (take xmlIdx s) then Some (s, '''')
          else if 0 < xmlIdx then Some (take xmlIdx s, drop xmlIdx s)
          else Some ('''', s))"

section \<open>Consuming a captured block\<close>

definition trim_blanks :: string where
  "trim_blanks = [CHR '' '', CHR 0x09, CHR 0x0D, CHR 0x0A]"

definition fence :: string where
  "fence = replicate 3 (CHR 0x60)"

text \<open>\<^verbatim>\<open>strings.Count\<close> of a non-empty substring: occurrences that do not overlap.\<close>

function str_count :: "string \<Rightarrow> string \<Rightarrow> nat" where
  "str_count s p = (if p = [] then Suc (length (rune_chunks s)) else case str_index s p of
     None \<Rightarrow> 0 | Some i \<Rightarrow> Suc (str_count (drop (i + length p) s) p))"
  by pat_completeness auto
termination
proof (relation "measure (\<lambda>(s, p). length s)")
  fix s p :: string and i
  assume "p \<noteq> []" "str_index s p = Some i"
  then have "0 < length p" "i + length p \<le> length s" using str_index_Some [of s p i] by auto
  then have "length s - (i + length p) < length s" by linarith
  then show "((drop (i + length p) s, p), s, p) \<in> measure (\<lambda>(s, p). length s)" by simp
qed simp

declare str_count.simps [simp del]

definition trimWrappingJSONFence :: "string \<Rightarrow> string \<Rightarrow> string \<times> string" where
  "trimWrappingJSONFence pre suf =
     (let trimmedPrefix = TrimRightSet pre trim_blanks in
      case str_last_index trimmedPrefix fence of
        None \<Rightarrow> (pre, suf)
      | Some fenceIdx \<Rightarrow>
          if str_count (take (fenceIdx + 3) trimmedPrefix) fence mod 2 = 0 then (pre, suf)
          else let fenceHeader = TrimSpace (drop (fenceIdx + 3) trimmedPrefix) in
            if fenceHeader \<noteq> '''' \<and> \<not> EqualFoldASCII fenceHeader ''json'' then (pre, suf)
            else let trimmedSuffix = TrimLeftSet suf trim_blanks in
              if \<not> prefix fence trimmedSuffix then (pre, suf)
              else (take fenceIdx trimmedPrefix, drop (length suf - length trimmedSuffix + 3) suf))"

function find_named_tag :: "case_table \<Rightarrow> string \<Rightarrow> nat \<Rightarrow> string \<Rightarrow> bool \<Rightarrow> ToolMarkupTag option option" where
  "find_named_tag low s pos name closing =
     (if length s \<le> pos then Some None
      else case FindToolMarkupTagOutsideIgnored low s pos of
        None \<Rightarrow> None
      | Some None \<Rightarrow> Some None
      | Some (Some tag) \<Rightarrow>
          if tagName tag = name \<and> Closing tag = closing then Some (Some tag)
          else find_named_tag low s (Suc (tagEnd tag)) name closing)"
  by pat_completeness auto
termination
  by (relation "measure (\<lambda>(low, s, pos, _). length s - pos)") (auto dest: find_outside_bounds)

declare find_named_tag.simps [simp del]

text \<open>What the scan over the wrapper tags of a capture finds.\<close>

record wrapper_scan =
  wsBest :: "(string \<times> ParsedToolCall list \<times> string) option"
  wsAnyOpen :: bool
  wsRejected :: "(nat \<times> string \<times> string) option"

definition reject :: "nat \<Rightarrow> string \<Rightarrow> string \<Rightarrow> wrapper_scan \<Rightarrow> wrapper_scan" where
  "reject start pre suf ws = (case wsRejected ws of
     Some (s0, _, _) \<Rightarrow> if start < s0 then ws\<lparr>wsRejected := Some (start, pre, suf)\<rparr> else ws
   | None \<Rightarrow> ws\<lparr>wsRejected := Some (start, pre, suf)\<rparr>)"

function wrapper_loop :: "case_table \<Rightarrow> block_parser \<Rightarrow> string \<Rightarrow> nat \<Rightarrow> wrapper_scan \<Rightarrow> wrapper_scan option" where
  "wrapper_loop low parse captured searchFrom ws =
     (if length captured \<le> searchFrom then Some ws
      else case FindToolMarkupTagOutsideIgnored low captured searchFrom of
        None \<Rightarrow> None
      | Some None \<Rightarrow> Some ws
      | Some (Some tag) \<Rightarrow>
          if Closing tag \<or> tagName tag \<noteq> ''tool_calls'' then wrapper_loop low parse captured (Suc (tagEnd tag)) ws
          else (case FindMatchingToolMarkupClose low captured tag of
              None \<Rightarrow> None
            | Some None \<Rightarrow> wrapper_loop low parse captured (Suc (tagEnd tag)) (ws\<lparr>wsAnyOpen := True\<rparr>)
            | Some (Some closeTag) \<Rightarrow>
                (let xmlBlock = take (Suc (tagEnd closeTag) - tagStart tag) (drop (tagStart tag) captured);
                     prefixPart = take (tagStart tag) captured;
                     suffixPart = drop (Suc (tagEnd closeTag)) captured
                 in case parse xmlBlock of
                   None \<Rightarrow> None
                 | Some (calls, saw) \<Rightarrow>
                     if calls \<noteq> [] then
                       (case trimWrappingJSONFence prefixPart suffixPart of (p, s) \<Rightarrow> Some (ws\<lparr>wsBest := Some (p, calls, s)\<rparr>))
                     else if saw then wrapper_loop low parse captured (Suc (tagEnd tag)) (reject (tagStart tag) prefixPart suffixPart ws)
                     else wrapper_loop low parse captured (Suc (tagEnd tag)) (reject (tagStart tag) (prefixPart @ xmlBlock) suffixPart ws))))"
  by pat_completeness auto
termination
  by (relation "measure (\<lambda>(low, parse, captured, searchFrom, ws). length captured - searchFrom)") (auto dest: find_outside_bounds)

declare wrapper_loop.simps [simp del]

text \<open>An invocation without its opening wrapper.\<close>

type_synonym consumed = "string \<times> ParsedToolCall list \<times> string"

definition consume_bare_invoke :: "case_table \<Rightarrow> block_parser \<Rightarrow> string \<Rightarrow> consumed option option" where
  "consume_bare_invoke low parse captured =
     (case find_named_tag low captured 0 ''invoke'' False of
        None \<Rightarrow> None
      | Some None \<Rightarrow> Some None
      | Some (Some invokeTag) \<Rightarrow> (case find_named_tag low captured 0 ''tool_calls'' False of
          None \<Rightarrow> None
        | Some wrapperOpen \<Rightarrow>
            if (case wrapperOpen of None \<Rightarrow> False | Some w \<Rightarrow> tagStart w \<le> tagStart invokeTag) then Some None
            else (case find_named_tag low captured (Suc (tagStart invokeTag)) ''tool_calls'' True of
                None \<Rightarrow> None
              | Some None \<Rightarrow> Some None
              | Some (Some closeTag) \<Rightarrow>
                  if tagStart closeTag \<le> tagStart invokeTag then Some None
                  else let block = take (Suc (tagEnd closeTag) - tagStart invokeTag) (drop (tagStart invokeTag) captured);
                           prefixPart = take (tagStart invokeTag) captured;
                           suffixPart = drop (Suc (tagEnd closeTag)) captured
                    in (case parse (''<tool_calls>'' @ block) of
                        None \<Rightarrow> None
                      | Some (calls, saw) \<Rightarrow>
                          if calls \<noteq> [] then (case trimWrappingJSONFence prefixPart suffixPart of (p, s) \<Rightarrow> Some (Some (p, calls, s)))
                          else if saw then Some (Some (prefixPart, [], suffixPart))
                          else Some (Some (prefixPart @ block, [], suffixPart))))))"

definition consumeXMLToolCapture :: "case_table \<Rightarrow> block_parser \<Rightarrow> string \<Rightarrow> consumed option option" where
  "consumeXMLToolCapture low parse captured =
     (case wrapper_loop low parse captured 0 \<lparr>wsBest = None, wsAnyOpen = False, wsRejected = None\<rparr> of
        None \<Rightarrow> None
      | Some ws \<Rightarrow> (case wsBest ws of
          Some b \<Rightarrow> Some (Some b)
        | None \<Rightarrow>
            if wsAnyOpen ws then Some None
            else (case wsRejected ws of
                Some (_, p, s) \<Rightarrow> Some (Some (p, [], s))
              | None \<Rightarrow> consume_bare_invoke low parse captured)))"

function open_tag_loop :: "case_table \<Rightarrow> string \<Rightarrow> nat \<Rightarrow> bool option" where
  "open_tag_loop low captured searchFrom =
     (if length captured \<le> searchFrom then Some False
      else case FindToolMarkupTagOutsideIgnored low captured searchFrom of
        None \<Rightarrow> None
      | Some None \<Rightarrow> Some False
      | Some (Some tag) \<Rightarrow>
          if Closing tag \<or> tagName tag \<noteq> ''tool_calls'' then open_tag_loop low captured (Suc (tagEnd tag))
          else (case FindMatchingToolMarkupClose low captured tag of
              None \<Rightarrow> None
            | Some None \<Rightarrow> Some True
            | Some (Some _) \<Rightarrow> open_tag_loop low captured (Suc (tagEnd tag))))"
  by pat_completeness auto
termination
  by (relation "measure (\<lambda>(low, captured, searchFrom). length captured - searchFrom)") (auto dest: find_outside_bounds)

declare open_tag_loop.simps [simp del]

definition hasOpenXMLToolTag :: "case_table \<Rightarrow> string \<Rightarrow> bool option" where
  "hasOpenXMLToolTag low captured = open_tag_loop low captured 0"

definition shouldKeepBareInvokeCapture :: "case_table \<Rightarrow> string \<Rightarrow> bool option" where
  "shouldKeepBareInvokeCapture low captured =
     (case find_named_tag low captured 0 ''invoke'' False of
        None \<Rightarrow> None
      | Some None \<Rightarrow> Some False
      | Some (Some invokeTag) \<Rightarrow> (case find_named_tag low captured 0 ''tool_calls'' False of
          None \<Rightarrow> None
        | Some wrapperOpen \<Rightarrow>
            if (case wrapperOpen of None \<Rightarrow> False | Some w \<Rightarrow> tagStart w \<le> tagStart invokeTag) then Some False
            else (case find_named_tag low captured (Suc (tagStart invokeTag)) ''tool_calls'' True of
                None \<Rightarrow> None
              | Some closeTag \<Rightarrow>
                  if (case closeTag of None \<Rightarrow> False | Some t \<Rightarrow> tagStart invokeTag < tagStart t) then Some True
                  else let trimmedBody = TrimLeftSet (drop (Suc (tagEnd invokeTag)) captured) trim_blanks in
                    if trimmedBody = '''' then Some True
                    else (case find_named_tag low captured (Suc (tagEnd invokeTag)) ''invoke'' True of
                        None \<Rightarrow> None
                      | Some (Some t) \<Rightarrow> Some (TrimSpace (drop (Suc (tagEnd t)) captured) = '''')
                      | Some None \<Rightarrow>
                          (let l = ToLower low trimmedBody in
                           Some (prefix ''<parameter'' l \<or> prefix ''{'' l \<or> prefix ''['' l))))))"

definition consumeToolCapture :: "case_table \<Rightarrow> block_parser \<Rightarrow> string \<Rightarrow> consumed option option" where
  "consumeToolCapture low parse captured =
     (if captured = '''' then Some None
      else case consumeXMLToolCapture low parse captured of
        None \<Rightarrow> None
      | Some (Some r) \<Rightarrow> Some (Some r)
      | Some None \<Rightarrow> (case hasOpenXMLToolTag low captured of
          None \<Rightarrow> None
        | Some True \<Rightarrow> Some None
        | Some False \<Rightarrow> (case shouldKeepBareInvokeCapture low captured of
            None \<Rightarrow> None
          | Some True \<Rightarrow> Some None
          | Some False \<Rightarrow> Some (Some (captured, [], '''')))))"

section \<open>What consuming does to the text\<close>

text \<open>A block the parser recognises, as it is or with the missing wrapper put before it.\<close>

definition is_block :: "block_parser \<Rightarrow> string \<Rightarrow> bool" where
  "is_block parse b \<longleftrightarrow> (\<exists>calls saw. parse b = Some (calls, saw) \<and> (calls \<noteq> [] \<or> saw)) \<or>
     (\<exists>calls saw. parse (''<tool_calls>'' @ b) = Some (calls, saw) \<and> (calls \<noteq> [] \<or> saw))"

text \<open>The fence around a block: an opening fence line without a language or for JSON, and a closing fence.\<close>

definition fence_header :: "string \<Rightarrow> bool" where
  "fence_header h \<longleftrightarrow> TrimSpace h = '''' \<or> EqualFoldASCII (TrimSpace h) ''json''"

definition is_fence_open :: "string \<Rightarrow> bool" where
  "is_fence_open f \<longleftrightarrow> (\<exists>header blanks. f = fence @ header @ blanks \<and> set blanks \<subseteq> set trim_blanks \<and> fence_header header)"

definition is_fence_close :: "string \<Rightarrow> bool" where
  "is_fence_close f \<longleftrightarrow> (\<exists>blanks. f = blanks @ fence \<and> set blanks \<subseteq> set trim_blanks)"

definition wrapping_fence :: "string \<Rightarrow> string \<Rightarrow> bool" where
  "wrapping_fence f1 f2 \<longleftrightarrow> (f1 = '''' \<and> f2 = '''') \<or> (is_fence_open f1 \<and> is_fence_close f2)"

text \<open>\<open>erased u x y\<close>: \<open>y\<close> is \<open>x\<close> without one recognised block and the fence around it.\<close>

definition erased :: "block_parser \<Rightarrow> string \<Rightarrow> string \<Rightarrow> bool" where
  "erased parse x y \<longleftrightarrow> (\<exists>u f1 b f2 v. x = u @ f1 @ b @ f2 @ v \<and> y = u @ v \<and> is_block parse b \<and> wrapping_fence f1 f2)"

lemma TrimRightSet_split: "\<exists>b. s = TrimRightSet s cs @ b \<and> set b \<subseteq> set cs"
proof -
  have "rev s = takeWhile (\<lambda>c. c \<in> set cs) (rev s) @ dropWhile (\<lambda>c. c \<in> set cs) (rev s)" by simp
  then have "s = rev (dropWhile (\<lambda>c. c \<in> set cs) (rev s)) @ rev (takeWhile (\<lambda>c. c \<in> set cs) (rev s))"
    by (metis rev_append rev_rev_ident)
  moreover have "set (rev (takeWhile (\<lambda>c. c \<in> set cs) (rev s))) \<subseteq> set cs" by (auto dest: set_takeWhileD)
  ultimately show ?thesis unfolding TrimRightSet_def by blast
qed

lemma TrimLeftSet_split: "\<exists>b. s = b @ TrimLeftSet s cs \<and> set b \<subseteq> set cs"
proof -
  have "s = takeWhile (\<lambda>c. c \<in> set cs) s @ TrimLeftSet s cs" by (simp add: TrimLeftSet_def)
  moreover have "set (takeWhile (\<lambda>c. c \<in> set cs) s) \<subseteq> set cs" by (auto dest: set_takeWhileD)
  ultimately show ?thesis by blast
qed

lemma str_last_index_Some: "str_last_index s p = Some i \<Longrightarrow> i + length p \<le> length s \<and> prefix p (drop i s)"
proof (induction s arbitrary: i)
  case (Cons c s)
  show ?case
  proof (cases "str_last_index s p")
    case None
    then show ?thesis using Cons.prems by (auto split: if_splits dest: prefix_length_le)
  next
    case (Some j)
    then show ?thesis using Cons.prems Cons.IH [OF Some] by auto
  qed
qed (auto split: if_splits)

lemma trimWrappingJSONFence_split:
  assumes "trimWrappingJSONFence p' s' = (p, s)"
  shows "\<exists>f1 f2. p' = p @ f1 \<and> s' = f2 @ s \<and> wrapping_fence f1 f2"
proof (cases "(p, s) = (p', s')")
  case True
  then show ?thesis by (auto simp: wrapping_fence_def)
next
  case False
  define tp where "tp = TrimRightSet p' trim_blanks"
  define ts where "ts = TrimLeftSet s' trim_blanks"
  have header: "(h \<noteq> '''' \<and> \<not> EqualFoldASCII h ''json'') = (\<not> fence_header x)" if "h = TrimSpace x" for h x
    unfolding fence_header_def that by blast
  obtain i where i: "str_last_index tp fence = Some i" and hdr: "fence_header (drop (i + 3) tp)"
    and ts: "prefix fence ts" and p: "p = take i tp" and s: "s = drop (length s' - length ts + 3) s'"
    using assms False unfolding trimWrappingJSONFence_def Let_def tp_def [symmetric] ts_def [symmetric] header [OF refl]
    by (auto split: option.splits if_splits)
  obtain b where b: "p' = tp @ b" "set b \<subseteq> set trim_blanks" using TrimRightSet_split [of p' trim_blanks] unfolding tp_def by blast
  obtain c where c: "s' = c @ ts" "set c \<subseteq> set trim_blanks" using TrimLeftSet_split [of s' trim_blanks] unfolding ts_def by blast
  obtain r where r: "drop i tp = fence @ r" using str_last_index_Some [OF i] by (auto simp: prefix_def)
  have "tp = p @ fence @ r" using r p append_take_drop_id [of i tp] by simp
  moreover have "r = drop (i + 3) tp" using arg_cong [OF r, of "drop 3"] by (simp add: fence_def add.commute)
  ultimately have "p' = p @ (fence @ r @ b)" "is_fence_open (fence @ r @ b)"
    using b hdr unfolding is_fence_open_def by (simp, blast)
  moreover obtain q where q: "ts = fence @ q" using ts by (auto simp: prefix_def)
  have "s' = (c @ fence) @ s" using s c(1) q by (simp add: fence_def)
  moreover have "is_fence_close (c @ fence)" using c(2) unfolding is_fence_close_def by blast
  ultimately show ?thesis unfolding wrapping_fence_def by blast
qed

text \<open>
  Whatever consuming a capture returns is the capture itself, or the capture without one recognised block; what remains to be
  sieved is a proper suffix of it; and calls are what the parser returned for some block.
\<close>

definition parsed :: "block_parser \<Rightarrow> ParsedToolCall list \<Rightarrow> bool" where
  "parsed parse calls \<longleftrightarrow> calls = [] \<or> (\<exists>b saw. parse b = Some (calls, saw))"

definition consumed_ok :: "block_parser \<Rightarrow> string \<Rightarrow> consumed \<Rightarrow> bool" where
  "consumed_ok parse captured r \<longleftrightarrow> (case r of (p, calls, s) \<Rightarrow>
     strict_suffix s captured \<and> (calls = [] \<and> p @ s = captured \<or> erased parse captured (p @ s)) \<and> parsed parse calls)"

lemma strict_suffix_of_split: "x = u @ b @ s \<Longrightarrow> b \<noteq> [] \<Longrightarrow> strict_suffix s x"
  by (auto simp: strict_suffix_def suffix_def)

lemma consumed_accept:
  assumes "captured = p' @ b @ s'" "b \<noteq> []" "is_block parse b" "trimWrappingJSONFence p' s' = (p, s)" "parsed parse calls"
  shows "consumed_ok parse captured (p, calls, s)"
proof -
  obtain f1 f2 where f: "p' = p @ f1" "s' = f2 @ s" "wrapping_fence f1 f2" using trimWrappingJSONFence_split [OF assms(4)] by blast
  then have x: "captured = p @ f1 @ b @ f2 @ s" using assms(1) by simp
  then have "erased parse captured (p @ s)" using assms(3) f(3) unfolding erased_def by blast
  moreover have "strict_suffix s captured" using x assms(2) by (intro strict_suffix_of_split [of _ "p @ f1" "b @ f2"]) simp_all
  ultimately show ?thesis using assms(5) by (simp add: consumed_ok_def)
qed

lemma consumed_drop:
  assumes "captured = p @ b @ s" "b \<noteq> []" "is_block parse b"
  shows "consumed_ok parse captured (p, [], s)"
proof -
  have "captured = p @ [] @ b @ [] @ s" "wrapping_fence [] []" using assms(1) by (simp_all add: wrapping_fence_def)
  then have "erased parse captured (p @ s)" using assms(3) unfolding erased_def by blast
  then show ?thesis using strict_suffix_of_split [OF assms(1,2)] by (simp add: consumed_ok_def parsed_def)
qed

lemma consumed_keep: "captured = p @ b @ s \<Longrightarrow> b \<noteq> [] \<Longrightarrow> consumed_ok parse captured (p @ b, [], s)"
  by (simp add: consumed_ok_def parsed_def strict_suffix_of_split)

lemma split_three: "a \<le> b \<Longrightarrow> c = take a c @ take (b - a) (drop a c) @ drop b c"
  by (metis append_take_drop_id drop_drop le_add_diff_inverse2)

lemma match_close_bounds:
  "match_close_loop low text name depth pos = Some (Some t) \<Longrightarrow> pos \<le> tagStart t \<and> tagStart t < tagEnd t \<and> tagEnd t < length text"
proof (induction "length text - pos" arbitrary: depth pos rule: less_induct)
  case less
  note unf = match_close_loop.simps [of low "text" name depth pos]
  have pos: "pos < length text" using less.prems by (cases "pos < length text") (simp_all add: unf)
  then obtain tag where f: "FindToolMarkupTagOutsideIgnored low text pos = Some (Some tag)"
    using less.prems by (auto simp: unf split: option.splits)
  have b: "pos \<le> tagStart tag" "tagStart tag < tagEnd tag" "tagEnd tag < length text" using find_outside_bounds [OF f] by simp_all
  have IH: "match_close_loop low text name d (Suc (tagEnd tag)) = Some (Some t) \<Longrightarrow>
      pos \<le> tagStart t \<and> tagStart t < tagEnd t \<and> tagEnd t < length text" for d
    using less.hyps [of "Suc (tagEnd tag)" d] b pos by fastforce
  show ?case
  proof (cases "t = tag")
    case False
    then have "\<exists>d. match_close_loop low text name d (Suc (tagEnd tag)) = Some (Some t)"
      using less.prems pos f by (simp add: unf split: if_splits) blast+
    then show ?thesis using IH by blast
  qed (use b in simp)
qed

lemma find_close_bounds:
  "FindMatchingToolMarkupClose low text tag = Some (Some t) \<Longrightarrow> tagEnd tag < tagStart t \<and> tagStart t < tagEnd t \<and> tagEnd t < length text"
  by (auto simp: FindMatchingToolMarkupClose_def split: if_splits dest: match_close_bounds)

lemma find_named_bounds:
  "find_named_tag low s pos name closing = Some (Some t) \<Longrightarrow> pos \<le> tagStart t \<and> tagStart t < tagEnd t \<and> tagEnd t < length s"
proof (induction "length s - pos" arbitrary: pos rule: less_induct)
  case less
  note unf = find_named_tag.simps [of low s pos name closing]
  have pos: "pos < length s" using less.prems by (cases "pos < length s") (simp_all add: unf)
  then obtain tag where f: "FindToolMarkupTagOutsideIgnored low s pos = Some (Some tag)"
    using less.prems by (auto simp: unf split: option.splits)
  have b: "pos \<le> tagStart tag" "tagStart tag < tagEnd tag" "tagEnd tag < length s" using find_outside_bounds [OF f] by simp_all
  show ?case using less.hyps [of "Suc (tagEnd tag)"] less.prems pos f b by (fastforce simp: unf split: if_splits)
qed

definition wrapper_ok :: "block_parser \<Rightarrow> string \<Rightarrow> wrapper_scan \<Rightarrow> bool" where
  "wrapper_ok parse captured ws \<longleftrightarrow> (\<forall>r. wsBest ws = Some r \<longrightarrow> consumed_ok parse captured r) \<and>
     (\<forall>k p s. wsRejected ws = Some (k, p, s) \<longrightarrow> consumed_ok parse captured (p, [], s))"

lemma wrapper_ok_reject: "wrapper_ok parse captured ws \<Longrightarrow> consumed_ok parse captured (p, [], s) \<Longrightarrow> wrapper_ok parse captured (reject k p s ws)"
  by (auto simp: wrapper_ok_def reject_def split: option.splits if_splits)

lemma wrapper_loop_ok:
  "wrapper_loop low parse captured from ws = Some ws' \<Longrightarrow> wrapper_ok parse captured ws \<Longrightarrow> wrapper_ok parse captured ws'"
proof (induction "length captured - from" arbitrary: "from" ws rule: less_induct)
  case less
  note unf = wrapper_loop.simps [of low parse captured "from" ws]
  note ws = less.prems(2)
  have rec: "wrapper_ok parse captured ws'"
    if "wrapper_loop low parse captured (Suc (tagEnd tag)) v = Some ws'" "wrapper_ok parse captured v" "from \<le> tagEnd tag" "from < length captured" for tag v
    using less.hyps [of "Suc (tagEnd tag)" v] that by simp
  show ?case
  proof (cases "length captured \<le> from \<or> FindToolMarkupTagOutsideIgnored low captured from = Some None")
    case True
    then show ?thesis using less.prems by (auto simp: unf split: if_splits)
  next
    case False
    then obtain tag where len: "from < length captured" and f: "FindToolMarkupTagOutsideIgnored low captured from = Some (Some tag)"
      using less.prems(1) by (auto simp: unf split: option.splits)
    have b: "from \<le> tagEnd tag" "tagStart tag < tagEnd tag" using find_outside_bounds [OF f] by simp_all
    show ?thesis
    proof (cases "Closing tag \<or> tagName tag \<noteq> ''tool_calls''")
      case True
      then show ?thesis using less.prems(1) len f rec [OF _ ws b(1)] by (simp add: unf)
    next
      case named: False
      then obtain c where c: "FindMatchingToolMarkupClose low captured tag = Some c" using less.prems(1) len f by (auto simp: unf split: option.splits)
      show ?thesis
      proof (cases c)
        case None
        have "wrapper_ok parse captured (ws\<lparr>wsAnyOpen := True\<rparr>)" using ws by (simp add: wrapper_ok_def)
        then show ?thesis using less.prems(1) len f named c None rec [OF _ _ b(1)] by (simp add: unf)
      next
        case (Some closeTag)
        define p where "p = take (tagStart tag) captured"
        define blk where "blk = take (Suc (tagEnd closeTag) - tagStart tag) (drop (tagStart tag) captured)"
        define s where "s = drop (Suc (tagEnd closeTag)) captured"
        have cb: "tagStart tag < Suc (tagEnd closeTag)" "tagEnd closeTag < length captured"
          using find_close_bounds c Some b by fastforce+
        have split: "captured = p @ blk @ s" unfolding p_def blk_def s_def using cb by (intro split_three) simp
        have ne: "blk \<noteq> []" using cb by (simp add: blk_def)
        obtain calls saw where parse: "parse blk = Some (calls, saw)"
          using less.prems(1) len f named c Some unfolding unf by (auto simp: blk_def Let_def split: option.splits)
        note step = less.prems(1) [unfolded unf]
        show ?thesis
        proof (cases "calls \<noteq> []")
          case True
          obtain p2 s2 where t: "trimWrappingJSONFence p s = (p2, s2)" by fastforce
          have "is_block parse blk" using parse True by (auto simp: is_block_def)
          then have "consumed_ok parse captured (p2, calls, s2)" 
            using parse by (intro consumed_accept [OF split ne _ t]) (auto simp: parsed_def)
          moreover have "ws' = ws\<lparr>wsBest := Some (p2, calls, s2)\<rparr>"
            using step len f named c Some parse True t by (simp add: p_def blk_def s_def)
          ultimately show ?thesis using ws by (simp add: wrapper_ok_def)
        next
          case no: False
          show ?thesis
          proof (cases saw)
            case True
            then have "consumed_ok parse captured (p, [], s)" using parse by (intro consumed_drop [OF split ne]) (auto simp: is_block_def)
            then have "wrapper_ok parse captured (reject (tagStart tag) p s ws)" by (rule wrapper_ok_reject [OF ws])
            then show ?thesis using step len f named c Some parse no True rec [OF _ _ b(1) len] by (simp add: p_def blk_def s_def)
          next
            case False
            have "wrapper_ok parse captured (reject (tagStart tag) (p @ blk) s ws)"
              by (rule wrapper_ok_reject [OF ws consumed_keep [OF split ne]])
            then show ?thesis using step len f named c Some parse no False rec [OF _ _ b(1) len] by (simp add: p_def blk_def s_def)
          qed
        qed
      qed
    qed
  qed
qed

lemma consume_bare_ok:
  assumes "consume_bare_invoke low parse captured = Some (Some r)" shows "consumed_ok parse captured r"
proof -
  obtain i c where i: "find_named_tag low captured 0 ''invoke'' False = Some (Some i)" and
    c: "find_named_tag low captured (Suc (tagStart i)) ''tool_calls'' True = Some (Some c)" and lt: "tagStart i < tagStart c"
    using assms by (auto simp: consume_bare_invoke_def Let_def split: option.splits if_splits)
  define p where "p = take (tagStart i) captured"
  define blk where "blk = take (Suc (tagEnd c) - tagStart i) (drop (tagStart i) captured)"
  define s where "s = drop (Suc (tagEnd c)) captured"
  have cb: "tagStart i < Suc (tagEnd c)" "tagEnd c < length captured" using find_named_bounds [OF c] lt by simp_all
  have split: "captured = p @ blk @ s" unfolding p_def blk_def s_def using cb by (intro split_three) simp
  have ne: "blk \<noteq> []" using cb by (simp add: blk_def)
  obtain calls saw where parse: "parse (''<tool_calls>'' @ blk) = Some (calls, saw)" and
    r: "Some r = (if calls \<noteq> [] then (case trimWrappingJSONFence p s of (p2, s2) \<Rightarrow> Some (p2, calls, s2))
        else if saw then Some (p, [], s) else Some (p @ blk, [], s))"
    using assms i c lt unfolding consume_bare_invoke_def p_def blk_def s_def
    by (simp add: Let_def not_le split: option.splits if_splits prod.splits)
  have blk: "calls \<noteq> [] \<or> saw \<Longrightarrow> is_block parse blk" using parse unfolding is_block_def by blast
  obtain p2 s2 where t: "trimWrappingJSONFence p s = (p2, s2)" by fastforce
  show ?thesis
  proof (cases "calls \<noteq> []")
    case True
    then show ?thesis using r t blk parse consumed_accept [OF split ne _ t, of parse calls] by (auto simp: parsed_def)
  next
    case False
    then show ?thesis using r blk consumed_drop [OF split ne] consumed_keep [OF split ne] by (cases saw) simp_all
  qed
qed

lemma consumeXML_ok: "consumeXMLToolCapture low parse captured = Some (Some r) \<Longrightarrow> consumed_ok parse captured r"
  using consume_bare_ok [of low parse captured r]
    wrapper_loop_ok [of low parse captured 0 "\<lparr>wsBest = None, wsAnyOpen = False, wsRejected = None\<rparr>"]
  by (fastforce simp: consumeXMLToolCapture_def wrapper_ok_def split: option.splits if_splits)

lemma consumeToolCapture_ok: "consumeToolCapture low parse captured = Some (Some r) \<Longrightarrow> consumed_ok parse captured r"
  by (auto simp: consumeToolCapture_def consumed_ok_def [of _ _ "(_, [], '''')"] parsed_def strict_suffix_def
      split: option.splits if_splits bool.splits dest: consumeXML_ok)

section \<open>Texts that are sieved without a panic\<close>

abbreviation keeps_length :: "case_table \<Rightarrow> string \<Rightarrow> bool" where
  "keeps_length low s \<equiv> length s \<le> length (ToLower low s)"

text \<open>
  The parser returns on every part of a text, by itself or as the rest of a wrapper. The parser of the code lower-cases what it scans and
  panics on some texts that shrink, so this is a condition on the text as well.
\<close>

definition returns_on :: "block_parser \<Rightarrow> string \<Rightarrow> bool" where
  "returns_on parse s \<longleftrightarrow> (\<forall>b. sublist b s \<longrightarrow> parse b \<noteq> None \<and> parse (''<tool_calls>'' @ b) \<noteq> None)"

lemma returns_onD: "returns_on parse s \<Longrightarrow> parse (take n (drop k s)) \<noteq> None" "returns_on parse s \<Longrightarrow> parse (''<tool_calls>'' @ take n (drop k s)) \<noteq> None"
proof -
  have "sublist (take n (drop k s)) s" by (meson sublist_drop sublist_order.order_trans sublist_take)
  then show "returns_on parse s \<Longrightarrow> parse (take n (drop k s)) \<noteq> None" "returns_on parse s \<Longrightarrow> parse (''<tool_calls>'' @ take n (drop k s)) \<noteq> None"
    unfolding returns_on_def by blast+
qed

lemma find_named_total: "keeps_length low s \<Longrightarrow> \<exists>r. find_named_tag low s pos name closing = Some r"
proof (induction "length s - pos" arbitrary: pos rule: less_induct)
  case less
  note unf = find_named_tag.simps [of low s pos name closing]
  obtain r where r: "FindToolMarkupTagOutsideIgnored low s pos = Some r" using find_outside_total [OF less.prems] by blast
  show ?case
  proof (cases "pos < length s")
    case True
    show ?thesis
    proof (cases r)
      case (Some tag)
      have "length s - Suc (tagEnd tag) < length s - pos" using find_outside_bounds [of low s pos tag] r Some True by force
      then show ?thesis using less.hyps [of "Suc (tagEnd tag)"] less.prems r Some True by (simp add: unf)
    qed (use r True in \<open>simp add: unf\<close>)
  qed (simp add: unf)
qed

lemma wrapper_loop_total:
  assumes len: "keeps_length low captured" and parse: "returns_on parse captured"
  shows "\<exists>r. wrapper_loop low parse captured from ws = Some r"
proof (induction "length captured - from" arbitrary: "from" ws rule: less_induct)
  case less
  note unf = wrapper_loop.simps [of low parse captured "from" ws]
  obtain r where r: "FindToolMarkupTagOutsideIgnored low captured from = Some r" using find_outside_total [OF len] by blast
  show ?case
  proof (cases "from < length captured")
    case True
    show ?thesis
    proof (cases r)
      case (Some tag)
      have "length captured - Suc (tagEnd tag) < length captured - from"
        using find_outside_bounds [of low captured "from" tag] r Some True by force
      then have rec: "\<exists>r. wrapper_loop low parse captured (Suc (tagEnd tag)) v = Some r" for v by (rule less.hyps)
      obtain c where c: "FindMatchingToolMarkupClose low captured tag = Some c" using find_close_total [OF len] by blast
      show ?thesis using r Some True c rec unfolding unf Let_def
        by (auto simp: returns_onD [OF parse] split: option.split prod.split)
    qed (use r True in \<open>simp add: unf\<close>)
  qed (simp add: unf)
qed

lemma open_tag_total: "keeps_length low captured \<Longrightarrow> \<exists>r. open_tag_loop low captured from = Some r"
proof (induction "length captured - from" arbitrary: "from" rule: less_induct)
  case less
  note unf = open_tag_loop.simps [of low captured "from"]
  obtain r where r: "FindToolMarkupTagOutsideIgnored low captured from = Some r" using find_outside_total [OF less.prems] by blast
  show ?case
  proof (cases "from < length captured")
    case True
    show ?thesis
    proof (cases r)
      case (Some tag)
      have "length captured - Suc (tagEnd tag) < length captured - from"
        using find_outside_bounds [of low captured "from" tag] r Some True by force
      then have rec: "\<exists>r. open_tag_loop low captured (Suc (tagEnd tag)) = Some r" using less.hyps less.prems by blast
      obtain c where c: "FindMatchingToolMarkupClose low captured tag = Some c" using find_close_total [OF less.prems] by blast
      show ?thesis using r Some True c rec unfolding unf by (cases c) auto
    qed (use r True in \<open>auto simp: unf\<close>)
  qed (auto simp: unf)
qed

lemma consume_bare_total:
  assumes len: "keeps_length low captured" and parse: "returns_on parse captured"
  shows "\<exists>r. consume_bare_invoke low parse captured = Some r"
proof -
  have f: "find_named_tag low captured k n c \<noteq> None" for k n c using find_named_total [OF len] by force
  show ?thesis unfolding consume_bare_invoke_def Let_def
    by (auto simp: f returns_onD [OF parse] returns_onD(2) [OF parse, unfolded append.simps] split: option.split prod.split)
qed

lemma keep_bare_total: "keeps_length low captured \<Longrightarrow> \<exists>r. shouldKeepBareInvokeCapture low captured = Some r"
proof -
  assume len: "keeps_length low captured"
  have f: "find_named_tag low captured k n c \<noteq> None" for k n c using find_named_total [OF len] by force
  show ?thesis unfolding shouldKeepBareInvokeCapture_def Let_def by (auto simp: f split: option.split)
qed

lemma consumeXML_total:
  assumes "keeps_length low captured" and "returns_on parse captured"
  shows "\<exists>r. consumeXMLToolCapture low parse captured = Some r"
  using wrapper_loop_total [OF assms, of 0 "\<lparr>wsBest = None, wsAnyOpen = False, wsRejected = None\<rparr>"] consume_bare_total [OF assms]
  by (auto simp: consumeXMLToolCapture_def split: option.split)

lemma consumeToolCapture_total:
  assumes "keeps_length low captured" and "returns_on parse captured"
  shows "\<exists>r. consumeToolCapture low parse captured = Some r"
  using consumeXML_total [OF assms] open_tag_total [OF assms(1), of 0] keep_bare_total [OF assms(1)]
  by (auto simp: consumeToolCapture_def hasOpenXMLToolTag_def split: option.split bool.split)

lemma segment_start_total: "keeps_length low s \<Longrightarrow> \<exists>r. segment_start_loop low st s offset = Some r \<and> (\<forall>k. r = Some k \<longrightarrow> k < length s)"
proof (induction "length s - offset" arbitrary: offset rule: less_induct)
  case less
  note unf = segment_start_loop.simps [of low st s offset]
  obtain r where r: "FindToolMarkupTagOutsideIgnored low s offset = Some r" using find_outside_total [OF less.prems] by blast
  show ?case
  proof (cases r)
    case (Some tag)
    have b: "length s - Suc (tagEnd tag) < length s - offset" "tagStart tag < length s"
      using find_outside_bounds [of low s offset tag] r Some by force+
    then have rec: "\<exists>r. segment_start_loop low st s (Suc (tagEnd tag)) = Some r \<and> (\<forall>k. r = Some k \<longrightarrow> k < length s)"
      using less.hyps less.prems by blast
    have "includeDuplicateLeadingLessThan s (tagStart tag) < length s"
      using b(2) by (simp add: includeDuplicateLeadingLessThan_def)
    then show ?thesis using r Some rec by (auto simp: unf Let_def)
  qed (use r in \<open>simp add: unf\<close>)
qed

end
