(* ===== verification/Tool_Sieve.thy ===== *)
theory Tool_Sieve
  imports Tool_Capture
begin

text \<open>
  The loop of the sieve (\<^verbatim>\<open>toolstream.ProcessChunk\<close>, \<^verbatim>\<open>toolstream.Flush\<close>), a whole answer as a list of chunks and the
  flush at its end, and what comes out of it: the text with the recognised blocks taken out and nothing withheld. As in
  \<^verbatim>\<open>Tool_Capture\<close> the block parser is an argument and \<open>None\<close> is a panic.
\<close>

section \<open>The sieve\<close>

definition emit :: "string \<Rightarrow> State \<Rightarrow> Event list \<times> State" where
  "emit content st = (if content \<noteq> '''' then ([Content content], noteText content st) else ([], st))"

definition after :: "Event list \<Rightarrow> (Event list \<times> State) option \<Rightarrow> (Event list \<times> State) option" where
  "after evs = map_option (\<lambda>(evs2, st). (evs @ evs2, st))"

lemma splitSafe_append: "splitSafeContentForToolDetection low st s = Some (safe, hold) \<Longrightarrow> safe @ hold = s"
  by (auto simp: splitSafeContentForToolDetection_def split: option.splits if_splits)

lemma consume_shorter: "consumeToolCapture low parse captured = Some (Some (p, calls, s)) \<Longrightarrow> length s < length captured"
  using consumeToolCapture_ok by (fastforce simp: consumed_ok_def strict_suffix_def suffix_def)

lemma emit_keeps [simp]:
  "pending (snd (emit p st)) = pending st" "capture (snd (emit p st)) = capture st" "capturing (snd (emit p st)) = capturing st"
  "pendingToolCalls (snd (emit p st)) = pendingToolCalls st"
  by (simp_all add: emit_def noteText_def updateCodeFenceState_def Let_def)

lemma emit_keeps_of:
  assumes "(evs, st2) = emit p st"
  shows "pending st2 = pending st" "capture st2 = capture st" "capturing st2 = capturing st" "pendingToolCalls st2 = pendingToolCalls st"
  using emit_keeps [of p st] unfolding assms [symmetric] by simp_all

lemma reset_keeps [simp]:
  "pending (resetIncrementalToolState st) = pending st" "capture (resetIncrementalToolState st) = capture st"
  "capturing (resetIncrementalToolState st) = capturing st" "pendingToolCalls (resetIncrementalToolState st) = pendingToolCalls st"
  by (simp_all add: resetIncrementalToolState_def)

text \<open>One turn of the loop: the events, the new state and whether the loop goes on.\<close>

definition capture_turn :: "case_table \<Rightarrow> block_parser \<Rightarrow> State \<Rightarrow> (Event list \<times> State \<times> bool) option" where
  "capture_turn low parse st =
     (let captured = capture st @ pending st; st1 = st\<lparr>capture := captured, pending := ''''\<rparr> in
      case consumeToolCapture low parse captured of
        None \<Rightarrow> None
      | Some None \<Rightarrow> Some ([], st1, False)
      | Some (Some (pre, calls, suf)) \<Rightarrow>
          (let (evs, st2) = emit pre (resetIncrementalToolState (st1\<lparr>capture := '''', capturing := False\<rparr>));
               st3 = st2\<lparr>pending := suf\<rparr>
           in Some (evs, if calls \<noteq> [] then st3\<lparr>pendingToolCalls := calls\<rparr> else st3, True)))"

definition pending_turn :: "case_table \<Rightarrow> State \<Rightarrow> (Event list \<times> State \<times> bool) option" where
  "pending_turn low st =
     (if pending st = '''' then Some ([], st, False)
      else case findToolSegmentStart low st (pending st) of
          None \<Rightarrow> None
        | Some (Some start) \<Rightarrow>
            (let (evs, st1) = emit (take start (pending st)) st in
             Some (evs, resetIncrementalToolState
               (st1\<lparr>pending := '''', capture := capture st1 @ drop start (pending st), capturing := True\<rparr>), True))
        | Some None \<Rightarrow> (case splitSafeContentForToolDetection low st (pending st) of
            None \<Rightarrow> None
          | Some (safe, hold) \<Rightarrow>
              if safe = '''' then Some ([], st, False)
              else let (evs, st1) = emit safe (st\<lparr>pending := hold\<rparr>) in Some (evs, st1, True)))"

definition sieve_turn :: "case_table \<Rightarrow> block_parser \<Rightarrow> State \<Rightarrow> (Event list \<times> State \<times> bool) option" where
  "sieve_turn low parse st = (if capturing st then capture_turn low parse st else pending_turn low st)"

definition sieve_size :: "State \<Rightarrow> nat" where
  "sieve_size st = 2 * (length (pending st) + length (capture st)) + (if capturing st then 0 else 1)"

lemma capture_turn_decreases:
  assumes "capture_turn low parse st = Some (evs, st1, True)" "capturing st" shows "sieve_size st1 < sieve_size st"
proof -
  obtain p calls s where c: "consumeToolCapture low parse (capture st @ pending st) = Some (Some (p, calls, s))"
    using assms(1) by (auto simp: capture_turn_def Let_def split: option.splits)
  then have "capture st1 = ''''" "pending st1 = s" "\<not> capturing st1"
    using assms by (auto simp: capture_turn_def Let_def case_prod_beta split: if_splits)
  then show ?thesis using consume_shorter [OF c] assms(2) by (simp add: sieve_size_def)
qed

lemma pending_turn_decreases:
  assumes "pending_turn low st = Some (evs, st1, True)" "\<not> capturing st" shows "sieve_size st1 < sieve_size st"
proof -
  have "length hold < length (pending st)" if "splitSafeContentForToolDetection low st (pending st) = Some (safe, hold)" "safe \<noteq> ''''" for safe hold
    using splitSafe_append [OF that(1)] that(2) by (metis length_append less_add_same_cancel2 length_greater_0_conv)
  then show ?thesis using assms
    by (auto simp: pending_turn_def Let_def case_prod_beta sieve_size_def split: option.splits if_splits)
qed

lemma turn_decreases: "sieve_turn low parse st = Some (evs, st1, True) \<Longrightarrow> sieve_size st1 < sieve_size st"
  using capture_turn_decreases pending_turn_decreases by (auto simp: sieve_turn_def split: if_splits)

function sieve_loop :: "case_table \<Rightarrow> block_parser \<Rightarrow> State \<Rightarrow> (Event list \<times> State) option" where
  "sieve_loop low parse st =
     (case sieve_turn low parse st of
        None \<Rightarrow> None
      | Some (evs, st1, again) \<Rightarrow> if again then after evs (sieve_loop low parse st1) else Some (evs, st1))"
  by pat_completeness auto
termination
  by (relation "measure (\<lambda>(low, parse, st). sieve_size st)") (auto dest: turn_decreases)

declare sieve_loop.simps [simp del]

text \<open>Calls found by an earlier chunk are reported first; calls found by this one stay until the next chunk or the end.\<close>

definition report_pending :: "State \<Rightarrow> Event list \<times> State" where
  "report_pending st = (if pendingToolCalls st \<noteq> []
     then ([ToolCalls (pendingToolCalls st)], st\<lparr>pendingToolRaw := '''', pendingToolCalls := []\<rparr>) else ([], st))"

definition ProcessChunk :: "case_table \<Rightarrow> block_parser \<Rightarrow> State \<Rightarrow> string \<Rightarrow> (Event list \<times> State) option" where
  "ProcessChunk low parse st chunk =
     (let (evs, st1) = report_pending (st\<lparr>pending := pending st @ chunk\<rparr>) in after evs (sieve_loop low parse st1))"

definition emit_consumed :: "consumed \<Rightarrow> State \<Rightarrow> Event list \<times> State" where
  "emit_consumed r st = (case r of (pre, calls, suf) \<Rightarrow>
     (let (e1, st1) = emit pre st; (e2, st2) = emit suf st1
      in (e1 @ (if calls \<noteq> [] then [ToolCalls calls] else []) @ e2, st2)))"

definition flush_capture :: "case_table \<Rightarrow> block_parser \<Rightarrow> State \<Rightarrow> (Event list \<times> State) option" where
  "flush_capture low parse st =
     (case consumeToolCapture low parse (capture st) of
        None \<Rightarrow> None
      | Some (Some r) \<Rightarrow> Some (emit_consumed r st)
      | Some None \<Rightarrow>
          (let content = capture st in
           if content = '''' then Some ([], st)
           else case SanitizeLooseCDATA low content of
             None \<Rightarrow> None
           | Some recovered \<Rightarrow>
               if recovered = content then Some (emit content st)
               else (case consumeXMLToolCapture low parse recovered of
                   None \<Rightarrow> None
                 | Some (Some (pre, calls, suf)) \<Rightarrow>
                     Some (if calls \<noteq> [] then emit_consumed (pre, calls, suf) st else emit content st)
                 | Some None \<Rightarrow> Some (emit content st))))"

definition flush_end :: "State \<Rightarrow> Event list \<times> State" where
  "flush_end st = (let (evs, st1) = emit (pending st) st in (evs, st1\<lparr>pending := ''''\<rparr>))"

definition flush_held :: "case_table \<Rightarrow> block_parser \<Rightarrow> State \<Rightarrow> (Event list \<times> State) option" where
  "flush_held low parse st =
     (case (if capturing st then flush_capture low parse st else Some ([], st)) of
        None \<Rightarrow> None
      | Some (evs, st1) \<Rightarrow>
          after evs (Some (flush_end
            (if capturing st then resetIncrementalToolState (st1\<lparr>capture := '''', capturing := False\<rparr>) else st1))))"

definition Flush :: "case_table \<Rightarrow> block_parser \<Rightarrow> State \<Rightarrow> (Event list \<times> State) option" where
  "Flush low parse st =
     (case ProcessChunk low parse st '''' of
        None \<Rightarrow> None
      | Some (evs, st1) \<Rightarrow>
          (let (evs2, st2) = report_pending st1 in after (evs @ evs2) (flush_held low parse st2)))"

text \<open>A whole answer: its chunks, then the flush at its end.\<close>

fun sieve_chunks :: "case_table \<Rightarrow> block_parser \<Rightarrow> State \<Rightarrow> string list \<Rightarrow> (Event list \<times> State) option" where
  "sieve_chunks low parse st [] = Flush low parse st"
| "sieve_chunks low parse st (c # cs) = (case ProcessChunk low parse st c of
     None \<Rightarrow> None | Some (evs, st1) \<Rightarrow> after evs (sieve_chunks low parse st1 cs))"

section \<open>What comes out\<close>

definition event_text :: "Event \<Rightarrow> string" where
  "event_text e = (case e of Content t \<Rightarrow> t | ToolCalls _ \<Rightarrow> '''')"

definition contents :: "Event list \<Rightarrow> string" where
  "contents evs = concat (map event_text evs)"

definition event_parsed :: "block_parser \<Rightarrow> Event \<Rightarrow> bool" where
  "event_parsed parse e = (case e of Content _ \<Rightarrow> True | ToolCalls calls \<Rightarrow> calls \<noteq> [] \<and> parsed parse calls)"

text \<open>
  \<open>erases low parse x y\<close>: \<open>y\<close> is \<open>x\<close> after taking out recognised blocks, each with the fence around it, and possibly recovering
  an unterminated capture, which takes out the block recognised once its CDATA sections are closed.
\<close>

inductive erases :: "case_table \<Rightarrow> block_parser \<Rightarrow> string \<Rightarrow> string \<Rightarrow> bool" for low parse where
  erases_refl: "erases low parse x x"
| erases_block: "erases low parse x y \<Longrightarrow> erased parse y z \<Longrightarrow> erases low parse x z"
| erases_recover: "erases low parse x (u @ c @ v) \<Longrightarrow> SanitizeLooseCDATA low c = Some r \<Longrightarrow> erased parse r z \<Longrightarrow>
    erases low parse x (u @ z @ v)"

lemma erased_context: "erased parse x y \<Longrightarrow> erased parse (u @ x @ v) (u @ y @ v)"
proof -
  assume "erased parse x y"
  then obtain a f1 b f2 w where "x = a @ f1 @ b @ f2 @ w" "y = a @ w" "is_block parse b" "wrapping_fence f1 f2"
    unfolding erased_def by blast
  then have "u @ x @ v = (u @ a) @ f1 @ b @ f2 @ (w @ v)" "u @ y @ v = (u @ a) @ (w @ v)" by simp_all
  then show ?thesis unfolding erased_def using \<open>is_block parse b\<close> \<open>wrapping_fence f1 f2\<close> by blast
qed

lemma erases_trans: "erases low parse y z \<Longrightarrow> erases low parse x y \<Longrightarrow> erases low parse x z"
  by (induction rule: erases.induct) (auto intro: erases.intros)

lemma erases_context: "erases low parse x y \<Longrightarrow> erases low parse (a @ x @ b) (a @ y @ b)"
proof (induction rule: erases.induct)
  case (erases_recover x u c v r z)
  then show ?case using erases.erases_recover [of low parse "a @ x @ b" "a @ u" c "v @ b" r z] by simp
qed (auto intro: erases.intros erased_context)

lemma erases_one: "erased parse x y \<Longrightarrow> erases low parse x y"
  by (blast intro: erases.intros)

definition held :: "State \<Rightarrow> string" where
  "held st = capture st @ pending st"

definition sieve_inv :: "block_parser \<Rightarrow> State \<Rightarrow> bool" where
  "sieve_inv parse st \<longleftrightarrow> (\<not> capturing st \<longrightarrow> capture st = '''') \<and> parsed parse (pendingToolCalls st)"

text \<open>One or more steps of the sieve: the text they release, followed by what they hold, is what was held with blocks taken out.\<close>

definition sieved :: "case_table \<Rightarrow> block_parser \<Rightarrow> State \<Rightarrow> Event list \<Rightarrow> State \<Rightarrow> bool" where
  "sieved low parse st evs st' \<longleftrightarrow> erases low parse (held st) (contents evs @ held st') \<and> suffix (held st') (held st) \<and>
     sieve_inv parse st' \<and> list_all (event_parsed parse) evs"

lemma contents_append [simp]: "contents (xs @ ys) = contents xs @ contents ys"
  by (simp add: contents_def)

lemma contents_simps [simp]: "contents [] = ''''" "contents (Content t # evs) = t @ contents evs" "contents (ToolCalls c # evs) = contents evs"
  by (simp_all add: contents_def event_text_def)

lemma emit_contents [simp]: "contents (fst (emit p st)) = p" and emit_parsed [simp]: "list_all (event_parsed parse) (fst (emit p st))"
  by (simp_all add: emit_def event_parsed_def)

lemma sieved_refl: "sieve_inv parse st \<Longrightarrow> sieved low parse st [] st"
  by (simp add: sieved_def erases_refl)

lemma sieved_trans:
  assumes "sieved low parse st evs st1" "sieved low parse st1 evs2 st2"
  shows "sieved low parse st (evs @ evs2) st2"
proof -
  have "erases low parse (contents evs @ held st1) (contents evs @ contents evs2 @ held st2)"
    using erases_context [of low parse "held st1" "contents evs2 @ held st2" "contents evs" "[]"] assms(2) by (simp add: sieved_def)
  then show ?thesis using assms unfolding sieved_def by (auto intro: erases_trans suffix_order.trans)
qed

lemma sieved_after:
  assumes "after evs x = Some (evs', st')" "sieved low parse st evs st1" "\<And>e s. x = Some (e, s) \<Longrightarrow> sieved low parse st1 e s"
  shows "sieved low parse st evs' st'"
  using assms sieved_trans unfolding after_def by fastforce

lemma sieved_emit:
  assumes "erases low parse (held st) (p @ held st')" "suffix (held st') (held st)" "sieve_inv parse st'"
  shows "sieved low parse st (fst (emit p s)) st'"
  using assms by (simp add: sieved_def)

lemma capture_turn_sieved:
  assumes turn: "capture_turn low parse st = Some (evs, st1, again)" and inv: "sieve_inv parse st" and cap: "capturing st"
  shows "sieved low parse st evs st1"
proof -
  obtain c where c: "consumeToolCapture low parse (capture st @ pending st) = Some c"
    using turn by (auto simp: capture_turn_def Let_def split: option.splits)
  show ?thesis
  proof (cases c)
    case None
    then show ?thesis using turn c inv cap
      by (auto simp: capture_turn_def Let_def sieved_def erases_refl sieve_inv_def held_def)
  next
    case (Some r)
    obtain p calls s where r: "r = (p, calls, s)" by (metis prod_cases3)
    note cr = c [unfolded Some r]
    have ok: "consumed_ok parse (held st) (p, calls, s)" unfolding held_def by (rule consumeToolCapture_ok [OF cr])
    have er: "erases low parse (held st) (p @ s)" "suffix s (held st)"
      using ok by (auto simp: consumed_ok_def strict_suffix_def intro: erases_one erases_refl)
    have "held st1 = s" "sieve_inv parse st1" "contents evs = p" "list_all (event_parsed parse) evs"
      using turn cr ok inv by (auto simp: capture_turn_def Let_def case_prod_beta held_def sieve_inv_def consumed_ok_def split: if_splits)
    then show ?thesis using er by (simp add: sieved_def)
  qed
qed

lemma pending_turn_sieved:
  assumes turn: "pending_turn low st = Some (evs, st1, again)" and inv: "sieve_inv parse st" and cap: "\<not> capturing st"
  shows "sieved low parse st evs st1"
proof -
  have "pending st = safe @ hold" if "splitSafeContentForToolDetection low st (pending st) = Some (safe, hold)" for safe hold
    using splitSafe_append [OF that] by simp
  then have "contents evs @ held st1 = held st" "sieve_inv parse st1" "list_all (event_parsed parse) evs"
    using turn inv cap
    by (auto simp: pending_turn_def Let_def case_prod_beta held_def sieve_inv_def split: option.splits if_splits)
  then show ?thesis by (simp add: sieved_def erases_refl suffix_def) metis
qed

lemma turn_sieved: "sieve_turn low parse st = Some (evs, st1, again) \<Longrightarrow> sieve_inv parse st \<Longrightarrow> sieved low parse st evs st1"
  using capture_turn_sieved pending_turn_sieved by (auto simp: sieve_turn_def split: if_splits)

lemma sieved_inv: "sieved low parse st evs st1 \<Longrightarrow> sieve_inv parse st1"
  by (simp add: sieved_def)

lemma sieve_loop_sieved:
  "sieve_loop low parse st = Some (evs, st') \<Longrightarrow> sieve_inv parse st \<Longrightarrow> sieved low parse st evs st'"
proof (induction "sieve_size st" arbitrary: st evs st' rule: less_induct)
  case less
  obtain e st1 again where t: "sieve_turn low parse st = Some (e, st1, again)"
    using less.prems(1) unfolding sieve_loop.simps [of low parse st] by (auto split: option.splits)
  note s1 = turn_sieved [OF t less.prems(2)]
  show ?case
  proof (cases again)
    case True
    then have "after e (sieve_loop low parse st1) = Some (evs, st')" using less.prems(1) t unfolding sieve_loop.simps [of low parse st] by simp
    then show ?thesis using less.hyps [OF turn_decreases _ sieved_inv [OF s1]] t True by (intro sieved_after [OF _ s1]) simp_all
  next
    case False
    then show ?thesis using less.prems(1) t s1 unfolding sieve_loop.simps [of low parse st] by simp
  qed
qed

section \<open>No panic\<close>

text \<open>Every part of a calm text keeps its length when it is lower-cased, also once its CDATA sections are closed.\<close>

definition calm :: "case_table \<Rightarrow> string \<Rightarrow> bool" where
  "calm low x \<longleftrightarrow> (\<forall>v. sublist v x \<longrightarrow> keeps_length low v \<and> (\<exists>r. SanitizeLooseCDATA low v = Some r \<and> keeps_length low r))"

lemma calm_sublist: "calm low x \<Longrightarrow> sublist y x \<Longrightarrow> calm low y"
  unfolding calm_def by (blast intro: sublist_order.order_trans)

text \<open>The block parser returns on every part of the text, also once CDATA sections are closed.\<close>

definition parsable :: "case_table \<Rightarrow> block_parser \<Rightarrow> string \<Rightarrow> bool" where
  "parsable low parse x \<longleftrightarrow> (\<forall>v. sublist v x \<longrightarrow> returns_on parse v \<and> (\<forall>y. SanitizeLooseCDATA low v = Some y \<longrightarrow> returns_on parse y))"

lemma parsable_sublist: "parsable low parse x \<Longrightarrow> sublist y x \<Longrightarrow> parsable low parse y"
  unfolding parsable_def by (blast intro: sublist_order.order_trans)

lemma parsable_returns: "parsable low parse x \<Longrightarrow> returns_on parse x"
  unfolding parsable_def by blast

lemma calm_keeps: "calm low x \<Longrightarrow> sublist v x \<Longrightarrow> keeps_length low v"
  unfolding calm_def by blast

lemma sanitize_step_total:
  assumes "length lower = length text" "pos < length text" shows "\<exists>out ch n. sanitize_step lower text pos = Some (out, ch, n)"
proof (cases "str_index (drop pos lower) ''<![cdata[''")
  case None
  then show ?thesis using assms by (auto simp: sanitize_step_def slice_from_def)
next
  case (Some k)
  then have "k + 9 \<le> length text - pos" using str_index_Some [OF Some] assms(1) by simp
  then show ?thesis using assms Some
    by (auto simp: sanitize_step_def slice_from_def slice_def Let_def split: option.split)
qed

lemma sanitize_step_set: "sanitize_step lower text pos = Some (out, ch, n) \<Longrightarrow> set out \<subseteq> set text \<union> set '']]>''"
  by (auto simp: sanitize_step_def slice_from_def slice_def Let_def split: option.splits if_splits
      dest!: in_set_takeD in_set_dropD)

lemma sanitize_loop_total:
  "length lower = length text \<Longrightarrow> \<exists>out ch. sanitize_loop lower text pos = Some (out, ch) \<and> set out \<subseteq> set text \<union> set '']]>''"
proof (induction "length text - pos" arbitrary: pos rule: less_induct)
  case less
  show ?case
  proof (cases "pos < length text")
    case True
    obtain out ch n where s: "sanitize_step lower text pos = Some (out, ch, n)" using sanitize_step_total [OF less.prems True] by blast
    have "length text - n < length text - pos" using sanitize_step_advances [OF s True] True by simp
    then obtain o2 c2 where "sanitize_loop lower text n = Some (o2, c2)" "set o2 \<subseteq> set text \<union> set '']]>''"
      using less.hyps [of n] less.prems by blast
    then show ?thesis using s True sanitize_step_set [OF s] by (auto simp: sanitize_loop.simps [of lower "text" pos])
  qed (auto simp: sanitize_loop.simps)
qed

lemma ascii_iff: "ascii s \<longleftrightarrow> (\<forall>c\<in>set s. byte_of c < 128)"
  by (simp add: ascii_def list_all_iff)

lemma keeps_length_ascii: "ascii s \<Longrightarrow> keeps_length low s"
  by (simp add: ToLower_ascii)

lemma sanitize_ascii: "ascii s \<Longrightarrow> \<exists>r. SanitizeLooseCDATA low s = Some r \<and> ascii r"
proof -
  assume a: "ascii s"
  obtain out ch where o: "sanitize_loop (ToLower low s) s 0 = Some (out, ch)" "set out \<subseteq> set s \<union> set '']]>''"
    using sanitize_loop_total [of "ToLower low s" s 0] a by (auto simp: ToLower_ascii)
  have "ascii '']]>''" by (simp add: ascii_def byte_of_def)
  then have "ascii out" using o(2) a unfolding ascii_iff by blast
  then show ?thesis using o(1) a by (auto simp: SanitizeLooseCDATA_def)
qed

lemma ascii_calm: "ascii x \<Longrightarrow> calm low x"
  unfolding calm_def using sanitize_ascii keeps_length_ascii set_mono_sublist unfolding ascii_iff by (metis subsetD)

lemma split_total: 
  assumes "calm low s" shows "\<exists>safe hold. splitSafeContentForToolDetection low st s = Some (safe, hold)"
proof -
  have "\<exists>r. IsPartialToolMarkupTagPrefix low (drop k s) = Some r" for k
    using partial_prefix_total calm_keeps [OF assms] by (metis sublist_drop)
  then have "\<exists>r. findPartialXMLToolTagStart low s = Some r"
    by (auto simp: findPartialXMLToolTagStart_def Let_def split: option.split)
  then show ?thesis by (auto simp: splitSafeContentForToolDetection_def split: option.split)
qed

lemma turn_total:
  assumes "calm low (held st)" "parsable low parse (held st)" "sieve_inv parse st"
  shows "\<exists>evs st1 again. sieve_turn low parse st = Some (evs, st1, again)"
proof (cases "capturing st")
  case True
  obtain r where "consumeToolCapture low parse (held st) = Some r"
    using consumeToolCapture_total [OF calm_keeps [OF assms(1) sublist_order.order_refl] parsable_returns [OF assms(2)]] by blast
  then show ?thesis using True
    by (auto simp: sieve_turn_def capture_turn_def held_def Let_def case_prod_beta split: option.split)
next
  case False
  then have h: "held st = pending st" using assms(3) by (simp add: held_def sieve_inv_def)
  have "keeps_length low (pending st)" using calm_keeps [OF assms(1)] h by simp
  then have "\<exists>r. findToolSegmentStart low st (pending st) = Some r"
    using segment_start_total by (fastforce simp: findToolSegmentStart_def)
  then show ?thesis using False split_total [OF assms(1) [unfolded h], of st]
    by (auto simp: sieve_turn_def pending_turn_def Let_def case_prod_beta split: option.split)
qed

lemma sieve_loop_total:
  "calm low (held st) \<Longrightarrow> parsable low parse (held st) \<Longrightarrow> sieve_inv parse st \<Longrightarrow> \<exists>evs st'. sieve_loop low parse st = Some (evs, st')"
proof (induction "sieve_size st" arbitrary: st rule: less_induct)
  case less
  obtain e st1 again where t: "sieve_turn low parse st = Some (e, st1, again)" using turn_total [OF less.prems] by blast
  note s1 = turn_sieved [OF t less.prems(3)]
  have "calm low (held st1)" using s1 calm_sublist [OF less.prems(1)] by (auto simp: sieved_def dest: suffix_imp_sublist)
  moreover have "parsable low parse (held st1)" using s1 parsable_sublist [OF less.prems(2)] by (auto simp: sieved_def dest: suffix_imp_sublist)
  ultimately have "again \<Longrightarrow> \<exists>evs st'. sieve_loop low parse st1 = Some (evs, st')"
    using less.hyps [of st1] turn_decreases [of low parse st e st1] t sieved_inv [OF s1] by simp
  then show ?case using t unfolding sieve_loop.simps [of low parse st] after_def by (cases again) auto
qed

section \<open>The flush and the whole answer\<close>

lemma report_pending_sieved:
  assumes "sieve_inv parse st"
  shows "sieved low parse st (fst (report_pending st)) (snd (report_pending st))" "pendingToolCalls (snd (report_pending st)) = []"
    "capturing (snd (report_pending st)) = capturing st"
  using assms by (auto simp: report_pending_def sieved_def held_def sieve_inv_def event_parsed_def parsed_def erases_refl)

lemma sieved_calm: "sieved low parse st evs st1 \<Longrightarrow> calm low (held st) \<Longrightarrow> calm low (held st1)"
  using calm_sublist by (auto simp: sieved_def dest: suffix_imp_sublist)

lemma sieved_parsable: "sieved low parse st evs st1 \<Longrightarrow> parsable low parse (held st) \<Longrightarrow> parsable low parse (held st1)"
  using parsable_sublist by (auto simp: sieved_def dest: suffix_imp_sublist)

lemma ProcessChunk_sieved:
  assumes inv: "sieve_inv parse st" and calm: "calm low (held st @ chunk)" and total: "parsable low parse (held st @ chunk)"
  shows "\<exists>evs st1. ProcessChunk low parse st chunk = Some (evs, st1) \<and> sieved low parse (st\<lparr>pending := pending st @ chunk\<rparr>) evs st1"
proof -
  let ?st = "st\<lparr>pending := pending st @ chunk\<rparr>" let ?r = "report_pending ?st"
  have i: "sieve_inv parse ?st" and c: "calm low (held ?st)" "parsable low parse (held ?st)" using inv calm total by (simp_all add: sieve_inv_def held_def)
  note s = report_pending_sieved(1) [OF i, of low]
  obtain evs st1 where l: "sieve_loop low parse (snd ?r) = Some (evs, st1)"
    using sieve_loop_total [OF sieved_calm [OF s c(1)] sieved_parsable [OF s c(2)] sieved_inv [OF s]] by blast
  have "sieved low parse ?st (fst ?r @ evs) st1" by (rule sieved_trans [OF s sieve_loop_sieved [OF l sieved_inv [OF s]]])
  moreover have "ProcessChunk low parse st chunk = Some (fst ?r @ evs, st1)"
    using l by (simp add: ProcessChunk_def after_def case_prod_beta)
  ultimately show ?thesis by blast
qed

text \<open>What the flush of a capture does to it; nothing else of the state changes but the fence.\<close>

definition flushed :: "case_table \<Rightarrow> block_parser \<Rightarrow> string \<Rightarrow> State \<Rightarrow> Event list \<times> State \<Rightarrow> bool" where
  "flushed low parse x st r \<longleftrightarrow> (case r of (evs, st1) \<Rightarrow> erases low parse x (contents evs) \<and> list_all (event_parsed parse) evs \<and>
     pending st1 = pending st \<and> capturing st1 = capturing st \<and> pendingToolCalls st1 = pendingToolCalls st)"

lemma flushed_emit: "flushed low parse x st (emit x st)"
  by (simp add: flushed_def case_prod_beta erases_refl)

lemma flushed_consumed:
  assumes "erases low parse x (p @ s)" "parsed parse calls" shows "flushed low parse x st (emit_consumed (p, calls, s) st)"
  using assms by (simp add: flushed_def emit_consumed_def case_prod_beta event_parsed_def)

lemma consumed_erases: "consumed_ok parse y (p, calls, s) \<Longrightarrow> calls \<noteq> [] \<Longrightarrow> erased parse y (p @ s) \<and> parsed parse calls"
  by (auto simp: consumed_ok_def)

lemma flush_capture_flushed:
  assumes calm: "calm low (capture st)" and total: "parsable low parse (capture st)"
  shows "\<exists>r. flush_capture low parse st = Some r \<and> flushed low parse (capture st) st r"
proof -
  let ?x = "capture st"
  obtain c where c: "consumeToolCapture low parse ?x = Some c" using consumeToolCapture_total calm_keeps [OF calm] parsable_returns [OF total] by blast
  show ?thesis
  proof (cases c)
    case (Some r)
    obtain p calls s where r: "r = (p, calls, s)" by (metis prod_cases3)
    have "consumed_ok parse ?x (p, calls, s)" using consumeToolCapture_ok c Some r by simp
    then have "flushed low parse ?x st (emit_consumed r st)" unfolding r
      by (intro flushed_consumed) (auto simp: consumed_ok_def intro: erases_one erases_refl)
    then show ?thesis using c Some by (simp add: flush_capture_def)
  next
    case None
    obtain y where y: "SanitizeLooseCDATA low ?x = Some y" "keeps_length low y" using calm unfolding calm_def by blast
    obtain d where d: "consumeXMLToolCapture low parse y = Some d" using consumeXML_total [OF y(2)] total y(1) unfolding parsable_def by blast
    have rec: "flushed low parse ?x st (emit_consumed (p, calls, s) st)" if "d = Some (p, calls, s)" "calls \<noteq> []" for p calls s
      using consumed_erases [OF consumeXML_ok that(2)] d that(1) erases_recover [of low parse ?x "[]" ?x "[]" y "p @ s"] y(1) erases_refl [of low parse ?x]
      by (intro flushed_consumed) simp_all
    show ?thesis using c None y(1) d rec flushed_emit [of low parse ?x st]
      by (auto simp: flush_capture_def emit_def Let_def split: option.split) (metis surj_pair)+
  qed
qed

definition drained :: "State \<Rightarrow> bool" where
  "drained st \<longleftrightarrow> pending st = '''' \<and> capture st = '''' \<and> \<not> capturing st \<and> pendingToolCalls st = []"

lemma flush_held_drains:
  assumes inv: "sieve_inv parse st" and calm: "calm low (held st)" and total: "parsable low parse (held st)" and calls: "pendingToolCalls st = []"
  shows "\<exists>evs st'. flush_held low parse st = Some (evs, st') \<and>
     erases low parse (held st) (contents evs) \<and> list_all (event_parsed parse) evs \<and> drained st'"
proof (cases "capturing st")
  case True
  have "calm low (capture st)" "parsable low parse (capture st)" using calm_sublist [OF calm] parsable_sublist [OF total] by (simp_all add: held_def)
  then obtain evs st1 where f: "flush_capture low parse st = Some (evs, st1)" "flushed low parse (capture st) st (evs, st1)"
    using flush_capture_flushed by fastforce
  have "erases low parse (held st) (contents evs @ pending st)"
    using f(2) erases_context [of low parse "capture st" "contents evs" "[]" "pending st"] by (simp add: flushed_def held_def)
  then show ?thesis using True f calls
    by (simp add: flush_held_def flush_end_def case_prod_beta after_def flushed_def drained_def)
next
  case False
  then show ?thesis using inv calls
    by (simp add: flush_held_def flush_end_def case_prod_beta after_def drained_def held_def sieve_inv_def erases_refl)
qed

lemma Flush_drains:
  assumes inv: "sieve_inv parse st" and calm: "calm low (held st)" and total: "parsable low parse (held st)"
  shows "\<exists>evs st'. Flush low parse st = Some (evs, st') \<and> erases low parse (held st) (contents evs) \<and>
    list_all (event_parsed parse) evs \<and> drained st'"
proof -
  obtain e1 st1 where p: "ProcessChunk low parse st '''' = Some (e1, st1)" and s1: "sieved low parse st e1 st1"
    using ProcessChunk_sieved [OF inv, of low "''''"] calm total by auto
  let ?r = "report_pending st1"
  note r = report_pending_sieved(1) [OF sieved_inv [OF s1], of low] report_pending_sieved(2) [OF sieved_inv [OF s1]]
  note s2 = sieved_trans [OF s1 r(1)]
  obtain e3 st' where t: "flush_held low parse (snd ?r) = Some (e3, st')"
    and e3: "erases low parse (held (snd ?r)) (contents e3)" "list_all (event_parsed parse) e3" "drained st'"
    using flush_held_drains [OF sieved_inv [OF r(1)] sieved_calm [OF s2 calm] sieved_parsable [OF s2 total] r(2)] by blast
  have "Flush low parse st = Some ((e1 @ fst ?r) @ e3, st')"
    using p t unfolding Flush_def by (simp add: case_prod_beta after_def)
  moreover have "erases low parse (held st) (contents (e1 @ fst ?r) @ contents e3)"
    using s2 erases_context [OF e3(1), of "contents (e1 @ fst ?r)" "[]"] unfolding sieved_def by (auto intro: erases_trans)
  ultimately show ?thesis using e3 s2 unfolding sieved_def by auto
qed

lemma chunks_conserved:
  "sieve_inv parse st \<Longrightarrow> calm low (held st @ concat chunks) \<Longrightarrow> parsable low parse (held st @ concat chunks) \<Longrightarrow>
    \<exists>evs st'. sieve_chunks low parse st chunks = Some (evs, st') \<and> erases low parse (held st @ concat chunks) (contents evs) \<and>
      list_all (event_parsed parse) evs \<and> drained st'"
proof (induction chunks arbitrary: st)
  case Nil
  then show ?case using Flush_drains [of parse st low] by simp
next
  case (Cons c cs)
  obtain e1 st1 where p: "ProcessChunk low parse st c = Some (e1, st1)" and s1: "sieved low parse (st\<lparr>pending := pending st @ c\<rparr>) e1 st1"
    using ProcessChunk_sieved [OF Cons.prems(1) calm_sublist [OF Cons.prems(2) prefix_imp_sublist] parsable_sublist [OF Cons.prems(3) prefix_imp_sublist], of c] by auto
  have er: "erases low parse (held st @ c @ concat cs) (contents e1 @ held st1 @ concat cs)"
    using s1 erases_context [of low parse _ _ "[]" "concat cs"] by (fastforce simp: sieved_def held_def)
  have "suffix (held st1 @ concat cs) (held st @ concat (c # cs))" using s1 by (auto simp: sieved_def held_def suffix_def)
  then have "calm low (held st1 @ concat cs)" "parsable low parse (held st1 @ concat cs)"
    using calm_sublist [OF Cons.prems(2)] parsable_sublist [OF Cons.prems(3)] by blast+
  then obtain e2 st' where r: "sieve_chunks low parse st1 cs = Some (e2, st')" "erases low parse (held st1 @ concat cs) (contents e2)"
    "list_all (event_parsed parse) e2" "drained st'"
    using Cons.IH [OF sieved_inv [OF s1]] by blast
  have "erases low parse (held st @ c @ concat cs) (contents e1 @ contents e2)"
    using erases_trans [OF erases_context [OF r(2), of "contents e1" "[]"]] er by simp
  then show ?case using p r s1 by (simp add: after_def sieved_def)
qed

section \<open>Evaluation\<close>

text \<open>Lower-casing ASCII text by a table, for runs of the model on concrete text.\<close>

definition lower_pairs :: "(char \<times> char) list" where
  "lower_pairs = zip ''ABCDEFGHIJKLMNOPQRSTUVWXYZ'' ''abcdefghijklmnopqrstuvwxyz''"

lemma map_of_char_of: "\<forall>n\<in>set ns. n < 256 \<Longrightarrow>
    map_of (map (\<lambda>n. (char_of n, g n)) ns) c = (if byte_of c \<in> set ns then Some (g (byte_of c)) else None)"
proof (induction ns)
  case (Cons n ns)
  have "c = char_of n \<longleftrightarrow> byte_of c = n" using Cons.prems by (auto simp: byte_of_def)
  then show ?case using Cons by auto
qed simp

lemma lower_pairs_alt: "lower_pairs = map (\<lambda>n::nat. (char_of n, char_of (n + 32))) [65..<91]"
  by (simp add: lower_pairs_def upt_conv_Cons char_of_def bit_simps)

lemma ascii_lower_table: "ascii_lower c = (case map_of lower_pairs c of None \<Rightarrow> c | Some d \<Rightarrow> d)"
proof -
  have "map_of lower_pairs c = (if byte_of c \<in> {65..<91} then Some (char_of (byte_of c + 32)) else None)"
    unfolding lower_pairs_alt set_upt [symmetric] by (rule map_of_char_of) auto
  then show ?thesis by (auto simp: ascii_lower_def)
qed

lemma byte_of_digit7: "byte_of c < 128 \<longleftrightarrow> \<not> digit7 c"
proof (cases c)
  case (Char b0 b1 b2 b3 b4 b5 b6 b7)
  have "of_bool b \<le> (1::nat)" for b by simp
  then show ?thesis using Char by (auto simp: byte_of_def )
qed

lemma ascii_code [code]: "ascii s = list_all (\<lambda>c. \<not> digit7 c) s"
  by (simp add: ascii_def byte_of_digit7)

declare ascii_lower_table [code]

lemma ToLower_code [code]: "ToLower low s = (if ascii s then map ascii_lower s else map_runes (lower_rune low) s)"
  using ToLower_ascii [of s low] by (auto simp: ToLower_def)

text \<open>A parser that reports every block as a call named by it.\<close>

definition echo_parser :: block_parser where
  "echo_parser b = Some ([\<lparr>callName = b, callInput = []\<rparr>], True)"

section \<open>The released text\<close>

text \<open>C5: An answer, however it is cut into chunks, comes out of the sieve complete, provided that no part of the answer makes the scanner or the
  block parser panic: no part shrinks under lower-casing, as text with U+0130 does, and the parser returns on every part, also with its CDATA
  sections closed. Then every chunk and the flush return; the released text is the answer with recognised tool-call
  blocks taken out, each with the JSON fence around it; each reported list of calls is one the parser returned; and the sieve
  holds nothing back.\<close>
theorem sieve_conserves:
  assumes "calm low (concat chunks)" and "parsable low parse (concat chunks)"
  shows "\<exists>evs st. sieve_chunks low parse zero_state chunks = Some (evs, st) \<and> erases low parse (concat chunks) (contents evs) \<and>
    list_all (event_parsed parse) evs \<and> drained st"
proof -
  have "sieve_inv parse zero_state" "held zero_state = ''''" by (simp_all add: zero_state_def sieve_inv_def held_def parsed_def)
  then show ?thesis using chunks_conserved [of parse zero_state low chunks] assms by simp
qed

text \<open>A parser that, like the scanner, panics on text that is not ASCII.\<close>

definition ascii_parser :: block_parser where
  "ascii_parser b = (if ascii b then Some ([\<lparr>callName = b, callInput = []\<rparr>], True) else None)"

lemma ascii_parsable: "ascii x \<Longrightarrow> parsable low ascii_parser x"
proof -
  have sub: "ascii v" if "sublist v y" "ascii y" for v y using that set_mono_sublist unfolding ascii_iff by (metis subsetD)
  have ret: "returns_on ascii_parser y" if "ascii y" for y
    using sub [OF _ that] by (auto simp: returns_on_def ascii_parser_def ascii_def byte_of_def)
  assume "ascii x"
  then show ?thesis unfolding parsable_def using sub ret sanitize_ascii by (metis option.inject)
qed

theorem sieve_conserves_witness:
  "ascii_parser (replicate 2 (CHR 0xC4)) = None \<and>
   (\<exists>evs st. sieve_chunks id ascii_parser zero_state [''ab<tool_'', ''calls></tool_calls>c''] = Some (evs, st) \<and>
      erases id ascii_parser (concat [''ab<tool_'', ''calls></tool_calls>c'']) (contents evs) \<and>
      list_all (event_parsed ascii_parser) evs \<and> drained st)"
proof -
  have a: "ascii (concat [''ab<tool_'', ''calls></tool_calls>c''])" by code_simp
  have "ascii_parser (replicate 2 (CHR 0xC4)) = None" by (simp add: ascii_parser_def ascii_def byte_of_def numeral_2_eq_2)
  then show ?thesis using sieve_conserves [OF ascii_calm [OF a, of id] ascii_parsable [OF a, of id]] by blast
qed

text \<open>A parser that recognises nothing.\<close>

definition recognises_nothing :: "block_parser \<Rightarrow> bool" where
  "recognises_nothing parse \<longleftrightarrow> (\<forall>b. parse b = Some ([], False))"

lemma erases_nothing: "erases low parse x y \<Longrightarrow> recognises_nothing parse \<Longrightarrow> y = x"
  by (induction rule: erases.induct) (auto simp: erased_def is_block_def recognises_nothing_def)

lemma only_text: "list_all (event_parsed parse) evs \<Longrightarrow> recognises_nothing parse \<Longrightarrow> ToolCalls calls \<notin> set evs"
  by (auto simp: list_all_iff event_parsed_def parsed_def recognises_nothing_def)

text \<open>Text in which the parser recognises no tool call passes through the sieve unchanged, whatever tags it has and however it is
  cut into chunks, and no call is reported.\<close>
theorem sieve_passes_text:
  assumes "calm low (concat chunks)" and "recognises_nothing parse"
  shows "\<exists>evs st. sieve_chunks low parse zero_state chunks = Some (evs, st) \<and> contents evs = concat chunks \<and>
    list_all (\<lambda>e. e = Content (event_text e)) evs"
proof -
  have inv: "sieve_inv parse zero_state" "held zero_state = ''''" by (simp_all add: zero_state_def sieve_inv_def held_def parsed_def)
  have "parsable low parse (concat chunks)" using assms(2) by (simp add: parsable_def returns_on_def recognises_nothing_def)
  then obtain evs st where r: "sieve_chunks low parse zero_state chunks = Some (evs, st)"
    "erases low parse (concat chunks) (contents evs)" "list_all (event_parsed parse) evs"
    using chunks_conserved [of parse zero_state low chunks] assms(1) inv by auto
  have "e = Content (event_text e)" if "e \<in> set evs" for e
    using only_text [OF r(3) assms(2)] that by (cases e) (auto simp: event_text_def)
  then show ?thesis using r(1) erases_nothing [OF r(2) assms(2)] by (auto simp: list_all_iff)
qed

theorem sieve_passes_text_witness:
  "calm id (concat [''see <tool_calls'', ''> there'']) \<and> recognises_nothing (\<lambda>b. Some ([], False)) \<and>
   (\<exists>evs st. sieve_chunks id (\<lambda>b. Some ([], False)) zero_state [''see <tool_calls'', ''> there''] = Some (evs, st) \<and>
      contents evs = concat [''see <tool_calls'', ''> there''] \<and> list_all (\<lambda>e. e = Content (event_text e)) evs)"
proof -
  have "calm id (concat [''see <tool_calls'', ''> there''])" by (rule ascii_calm) code_simp
  moreover have "recognises_nothing (\<lambda>b. Some ([], False))" by (simp add: recognises_nothing_def)
  ultimately show ?thesis using sieve_passes_text [of id "[''see <tool_calls'', ''> there'']" "\<lambda>b. Some ([], False)"] by blast
qed

section \<open>Runs\<close>

text \<open>
  Four runs of the model. Of two blocks in one chunk only the calls of the second are reported; text after a block is released
  before its calls; and a line break that arrives as a chunk of its own is not noted, so that a fence on the next line is not
  seen and the block in it is taken for a call. A wrapper with the hyphenated name, which the scanner knows as a tag, is released
  as text: the capture looks for the name with the underscore only.
\<close>

definition block_named :: "string \<Rightarrow> string" where
  "block_named n = ''<tool_calls>'' @ n @ ''</tool_calls>''"

definition fence_line :: string where "fence_line = fence @ [CHR 0x0A]"

lemma second_block_overwrites: 
  "map_option fst (sieve_chunks id echo_parser zero_state [block_named ''1'' @ block_named ''2'']) =
     Some [ToolCalls [\<lparr>callName = block_named ''2'', callInput = []\<rparr>]]"
  by code_simp

lemma text_overtakes_calls:
  "map_option fst (sieve_chunks id echo_parser zero_state [block_named ''1'' @ '' done'']) =
     Some [Content '' done'', ToolCalls [\<lparr>callName = block_named ''1'', callInput = []\<rparr>]]"
  by code_simp

lemma newline_chunk_hides_fence:
  "map_option fst (sieve_chunks id echo_parser zero_state [''a'' @ [CHR 0x0A] @ fence_line @ block_named ''1'' @ ''.'']) =
     Some [Content (''a'' @ [CHR 0x0A] @ fence_line @ block_named ''1'' @ ''.'')]"
  "map_option fst (sieve_chunks id echo_parser zero_state [''a'', [CHR 0x0A], fence_line @ block_named ''1'' @ ''.'']) =
     Some [Content ''a'', Content [CHR 0x0A], Content fence_line, Content ''.'', ToolCalls [\<lparr>callName = block_named ''1'', callInput = []\<rparr>]]"
  by code_simp+

lemma hyphenated_wrapper_is_text:
  "map_option fst (sieve_chunks id echo_parser zero_state [''<tool-calls><invoke></invoke></tool-calls>'']) =
     Some [Content ''<tool-calls><invoke></invoke></tool-calls>'']"
  by code_simp

end
