(* ===== verification/Account_Store.thy ===== *)
theory Account_Store
  imports Models
begin

text \<open>
  The account records of \<^verbatim>\<open>internal/config\<close> and the in-memory index of the config store:
  account identity (\<^verbatim>\<open>account.go\<close>, \<^verbatim>\<open>mobile.go\<close>), API-key lists (\<^verbatim>\<open>credentials.go\<close>), the
  lookup index (\<^verbatim>\<open>store_index.go\<close>), the operations of \<^verbatim>\<open>store.go\<close> that read or change it, and
  the runtime limits of \<^verbatim>\<open>store_accessors.go\<close>. The store lock makes each operation atomic.
  Writing the configuration file and the SQLite table is input/output: an operation that ends
  with it takes its outcome as an argument.
\<close>

section \<open>Accounts and their identity\<close>

record Account =
  Name :: string
  Remark :: string
  Email :: string
  Mobile :: string
  Password :: string
  Token :: string
  ProxyID :: string
  ProxyAutoRoute :: bool
  Disabled :: bool
  DisabledReason :: string
  DisabledAtUnix :: int
  CooldownState :: string
  CooldownUntilUnix :: int

definition empty_account :: Account where
  "empty_account = \<lparr>Name = '''', Remark = '''', Email = '''', Mobile = '''', Password = '''', Token = '''',
     ProxyID = '''', ProxyAutoRoute = False, Disabled = False, DisabledReason = '''', DisabledAtUnix = 0,
     CooldownState = '''', CooldownUntilUnix = 0\<rparr>"

definition AccountDisabledInvalidCredentials :: string where
  "AccountDisabledInvalidCredentials = ''invalid_credentials''"
definition AccountDisabledUpstreamBanned :: string where
  "AccountDisabledUpstreamBanned = ''upstream_banned''"
definition AccountCooldownRateLimited :: string where
  "AccountCooldownRateLimited = ''rate_limited''"
definition AccountCooldownTemporarilyMuted :: string where
  "AccountCooldownTemporarilyMuted = ''temporarily_muted''"

text \<open>
  Mobile numbers. The code iterates over runes; every separator, the plus sign and the digits
  are ASCII, so iterating over bytes takes the same branches.
\<close>

definition isMobileSeparator :: "char \<Rightarrow> bool" where
  "isMobileSeparator c \<longleftrightarrow> c \<in> {CHR '' '', CHR 0x09, CHR 0x0A, CHR 0x0D, CHR ''-'', CHR ''('', CHR '')'', CHR ''.'', CHR ''/''}"

fun mobile_has_plus :: "string \<Rightarrow> bool" where
  "mobile_has_plus [] = False"
| "mobile_has_plus (c # cs) =
     (if is_digit c then False
      else if isMobileSeparator c then mobile_has_plus cs
      else c = CHR ''+'')"

definition extractMobileDigits :: "string \<Rightarrow> string \<times> bool" where
  "extractMobileDigits raw = (let s = TrimSpace raw in
     if s = '''' then ('''', False) else (filter is_digit s, mobile_has_plus s))"

definition isChinaMainlandMobileDigits :: "string \<Rightarrow> bool" where
  "isChinaMainlandMobileDigits digits \<longleftrightarrow> length digits = 11 \<and> digits ! 0 = CHR ''1'' \<and>
     byte_of (CHR ''3'') \<le> byte_of (digits ! 1) \<and> byte_of (digits ! 1) \<le> byte_of (CHR ''9'')"

definition isChinaMobileWithCountryCode :: "string \<Rightarrow> bool" where
  "isChinaMobileWithCountryCode digits \<longleftrightarrow> length digits = 13 \<and> prefix ''86'' digits \<and>
     isChinaMainlandMobileDigits (drop 2 digits)"

definition NormalizeMobileForStorage :: "string \<Rightarrow> string" where
  "NormalizeMobileForStorage raw = (let (digits, hasPlus) = extractMobileDigits raw in
     if digits = '''' then ''''
     else if hasPlus then ''+'' @ digits
     else if isChinaMobileWithCountryCode digits then ''+86'' @ drop 2 digits
     else if isChinaMainlandMobileDigits digits then ''+86'' @ digits
     else ''+'' @ digits)"

definition CanonicalMobileKey :: "string \<Rightarrow> string" where
  "CanonicalMobileKey raw = NormalizeMobileForStorage raw"

definition looksLikeEmailIdentifier :: "string \<Rightarrow> bool" where
  "looksLikeEmailIdentifier raw = Contains (TrimSpace raw) ''@''"

definition NormalizeAccountIdentity :: "Account \<Rightarrow> Account" where
  "NormalizeAccountIdentity a0 =
     (let a = a0\<lparr>Email := TrimSpace (Email a0), Mobile := TrimSpace (Mobile a0)\<rparr> in
      if Email a = '''' \<and> looksLikeEmailIdentifier (Mobile a)
      then a\<lparr>Email := Mobile a, Mobile := ''''\<rparr>
      else a\<lparr>Mobile := NormalizeMobileForStorage (Mobile a)\<rparr>)"

definition Identifier :: "Account \<Rightarrow> string" where
  "Identifier a0 = (let a = NormalizeAccountIdentity a0 in
     if TrimSpace (Email a) \<noteq> '''' then TrimSpace (Email a)
     else if TrimSpace (Mobile a) \<noteq> '''' then TrimSpace (Mobile a)
     else '''')"

text \<open>The clock enters as \<open>now\<close>; the case table is that of \<^verbatim>\<open>strings.ToLower\<close>.\<close>

definition normalizeAccountCooldown :: "case_table \<Rightarrow> time \<Rightarrow> string \<Rightarrow> int \<Rightarrow> string \<times> int" where
  "normalizeAccountCooldown tab now state0 untilUnix = (let state = ToLower tab (TrimSpace state0) in
     if state \<noteq> AccountCooldownRateLimited \<and> state \<noteq> AccountCooldownTemporarilyMuted then ('''', 0)
     else if untilUnix \<le> unix_of now then ('''', 0)
     else (state, untilUnix))"

definition accountIdentifiersMatch :: "Account \<Rightarrow> string \<Rightarrow> bool" where
  "accountIdentifiersMatch acc identifier \<longleftrightarrow>
     (if identifier = '''' then False
      else if TrimSpace (Email acc) = identifier \<or> Identifier acc = identifier then True
      else let mobile = CanonicalMobileKey identifier in
        mobile \<noteq> '''' \<and> mobile = CanonicalMobileKey (Mobile acc))"

section \<open>API keys\<close>

record APIKey =
  Key :: string
  KeyName :: string
  KeyRemark :: string

text \<open>The loops keep, in order, the first non-empty trimmed occurrence of each key.\<close>

fun normalize_keys_loop :: "string list \<Rightarrow> string list \<Rightarrow> string list" where
  "normalize_keys_loop seen [] = []"
| "normalize_keys_loop seen (k # ks) = (let key = TrimSpace k in
     if key = '''' \<or> key \<in> set seen then normalize_keys_loop seen ks
     else key # normalize_keys_loop (key # seen) ks)"

definition normalizeKeys :: "string list \<Rightarrow> string list" where
  "normalizeKeys keys = normalize_keys_loop [] keys"

fun normalize_api_keys_loop :: "string list \<Rightarrow> APIKey list \<Rightarrow> APIKey list" where
  "normalize_api_keys_loop seen [] = []"
| "normalize_api_keys_loop seen (x # xs) = (let key = TrimSpace (Key x) in
     if key = '''' \<or> key \<in> set seen then normalize_api_keys_loop seen xs
     else \<lparr>Key = key, KeyName = TrimSpace (KeyName x), KeyRemark = TrimSpace (KeyRemark x)\<rparr>
            # normalize_api_keys_loop (key # seen) xs)"

definition normalizeAPIKeys :: "APIKey list \<Rightarrow> APIKey list" where
  "normalizeAPIKeys items = normalize_api_keys_loop [] items"

fun api_keys_from_strings_loop :: "(string, APIKey) gomap \<Rightarrow> string list \<Rightarrow> string list \<Rightarrow> APIKey list" where
  "api_keys_from_strings_loop meta seen [] = []"
| "api_keys_from_strings_loop meta seen (k # ks) = (let key = TrimSpace k in
     if key = '''' \<or> key \<in> set seen then api_keys_from_strings_loop meta seen ks
     else (case gm_get meta key of
             Some item \<Rightarrow> \<lparr>Key = key, KeyName = TrimSpace (KeyName item), KeyRemark = TrimSpace (KeyRemark item)\<rparr>
           | None \<Rightarrow> \<lparr>Key = key, KeyName = '''', KeyRemark = ''''\<rparr>)
          # api_keys_from_strings_loop meta (key # seen) ks)"

definition apiKeysFromStrings :: "string list \<Rightarrow> (string, APIKey) gomap \<Rightarrow> APIKey list" where
  "apiKeysFromStrings keys meta = api_keys_from_strings_loop meta [] keys"

definition apiKeysToStrings :: "APIKey list \<Rightarrow> string list" where
  "apiKeysToStrings items = filter (\<lambda>k. k \<noteq> '''') (map (\<lambda>x. TrimSpace (Key x)) items)"

fun api_key_map_loop :: "(string, APIKey) gomap \<Rightarrow> APIKey list \<Rightarrow> (string, APIKey) gomap" where
  "api_key_map_loop out [] = out"
| "api_key_map_loop out (x # xs) = (let key = TrimSpace (Key x) in
     if key = '''' \<or> gm_get out key \<noteq> None then api_key_map_loop out xs
     else api_key_map_loop
       (gm_set key \<lparr>Key = key, KeyName = TrimSpace (KeyName x), KeyRemark = TrimSpace (KeyRemark x)\<rparr> out) xs)"

definition apiKeyMap :: "APIKey list \<Rightarrow> (string, APIKey) gomap" where
  "apiKeyMap items = api_key_map_loop [] items"

definition equalAPIKeys :: "APIKey list \<Rightarrow> APIKey list \<Rightarrow> bool" where
  "equalAPIKeys a b \<longleftrightarrow> length a = length b \<and>
     list_all (\<lambda>(x, y). TrimSpace (Key x) = TrimSpace (Key y) \<and>
       TrimSpace (KeyName x) = TrimSpace (KeyName y) \<and>
       TrimSpace (KeyRemark x) = TrimSpace (KeyRemark y)) (zip a b)"

text \<open>The result is the new pair of \<^verbatim>\<open>Keys\<close> and \<^verbatim>\<open>APIKeys\<close>; \<open>bkeys\<close>, \<open>bapi\<close> are those of the base.\<close>

definition ReconcileCredentials :: "string list \<Rightarrow> APIKey list \<Rightarrow> string list \<Rightarrow> APIKey list \<Rightarrow> string list \<times> APIKey list" where
  "ReconcileCredentials keys api bkeys bapi =
     (let currKeys = normalizeKeys keys; currAPIKeys = normalizeAPIKeys api;
          baseKeys = normalizeKeys bkeys; baseAPIKeys = normalizeAPIKeys bapi;
          keysChanged = (currKeys \<noteq> baseKeys);
          apiKeysChanged = (\<not> equalAPIKeys currAPIKeys baseAPIKeys);
          api' = (if keysChanged \<and> \<not> apiKeysChanged
                  then apiKeysFromStrings currKeys (apiKeyMap baseAPIKeys)
                  else currAPIKeys)
      in (apiKeysToStrings api', api'))"

section \<open>The store and its index\<close>

record AccountTestResult =
  Status :: string
  Phase :: string
  FailureReason :: string
  ErrorCode :: int
  HTTPStatus :: int
  AccountState :: string
  AutoDisabled :: bool
  ConfigWarning :: string
  ResponseTimeMs :: int
  UpdatedAtUnix :: int

text \<open>
  The store is the configuration extended by its indexes, so that \<^verbatim>\<open>Config.truncate s\<close> is the
  \<^verbatim>\<open>cfg\<close> field of the code and \<^verbatim>\<open>Config.extend\<close> replaces it. The fields of the configuration
  that no modelled operation reads (proxies, server, cache, safety settings) are left out.
\<close>

record Config =
  cfgKeys :: "string list"
  cfgAPIKeys :: "APIKey list"
  cfgAccounts :: "Account list"
  cfgModelAliases :: "(string, string) gomap"
  cfgAccountMaxInflight :: int
  cfgAccountMaxQueue :: int
  cfgGlobalMaxInflight :: int
  cfgTokenRefreshIntervalHours :: int

record Store = Config +
  keyMap :: "string list"
  accMap :: "(string, nat) gomap"
  accTest :: "(string, string) gomap"
  accTestResult :: "(string, AccountTestResult) gomap"
  accSess :: "(string, int) gomap"

text \<open>
  The three caches are written under the account's identifier, its e-mail, its canonical
  mobile number and the hinted identifier.
\<close>

definition set_nonempty :: "string \<Rightarrow> 'v \<Rightarrow> (string, 'v) gomap \<Rightarrow> (string, 'v) gomap" where
  "set_nonempty k v m = (if k = '''' then m else gm_set k v m)"

definition set_account_aliases :: "Account \<Rightarrow> string \<Rightarrow> 'v \<Rightarrow> (string, 'v) gomap \<Rightarrow> (string, 'v) gomap" where
  "set_account_aliases acc hint v m =
     set_nonempty (lower hint) v (set_nonempty (CanonicalMobileKey (Mobile acc)) v
       (set_nonempty (Email acc) v (set_nonempty (Identifier acc) v m)))"

definition setAccountTestStatusLocked :: "Account \<Rightarrow> string \<Rightarrow> string \<Rightarrow> Store \<Rightarrow> Store" where
  "setAccountTestStatusLocked acc status0 hint s = (let status = lower status0 in
     if status = '''' then s else s\<lparr>accTest := set_account_aliases acc hint status (accTest s)\<rparr>)"

definition setAccountTestResultLocked :: "Account \<Rightarrow> AccountTestResult \<Rightarrow> string \<Rightarrow> Store \<Rightarrow> Store" where
  "setAccountTestResultLocked acc result hint s =
     s\<lparr>accTestResult := set_account_aliases acc hint result (accTestResult s)\<rparr>"

definition setAccountSessionCountLocked :: "Account \<Rightarrow> int \<Rightarrow> string \<Rightarrow> Store \<Rightarrow> Store" where
  "setAccountSessionCountLocked acc count hint s =
     s\<lparr>accSess := set_account_aliases acc hint (if count < 0 then 0 else count) (accSess s)\<rparr>"

text \<open>One iteration of the loop of \<^verbatim>\<open>rebuildIndexes\<close>; \<open>s0\<close> is the store before the rebuild.\<close>

definition rebuild_step :: "Store \<Rightarrow> nat \<times> Account \<Rightarrow> Store \<Rightarrow> Store" where
  "rebuild_step s0 = (\<lambda>(i, acc) s.
     let ident = Identifier acc in
     if ident = '''' then s
     else let s1 = s\<lparr>accMap := gm_set ident i (accMap s)\<rparr>;
              s2 = (case gm_get (accTest s0) ident of
                      Some status \<Rightarrow> setAccountTestStatusLocked acc status '''' s1 | None \<Rightarrow> s1);
              s3 = (case gm_get (accTestResult s0) ident of
                      Some result \<Rightarrow> setAccountTestResultLocked acc result '''' s2 | None \<Rightarrow> s2)
          in (case gm_get (accSess s0) ident of
                Some count \<Rightarrow> setAccountSessionCountLocked acc count '''' s3 | None \<Rightarrow> s3))"

definition rebuildIndexes :: "Store \<Rightarrow> Store" where
  "rebuildIndexes s = fold (rebuild_step s) (enumerate 0 (cfgAccounts s))
     (s\<lparr>keyMap := cfgKeys s, accMap := [], accTest := [], accTestResult := [], accSess := []\<rparr>)"

definition lookup_candidates :: "string \<Rightarrow> string list" where
  "lookup_candidates identifier = (let mobile = CanonicalMobileKey identifier in
     if mobile \<noteq> '''' \<and> mobile \<noteq> identifier then [identifier, mobile] else [identifier])"

fun find_indexed :: "(string, nat) gomap \<Rightarrow> nat \<Rightarrow> string list \<Rightarrow> nat option" where
  "find_indexed m n [] = None"
| "find_indexed m n (k # ks) = (case gm_get m k of
     Some idx \<Rightarrow> if idx < n then Some idx else find_indexed m n ks
   | None \<Rightarrow> find_indexed m n ks)"

fun find_scanned :: "string list \<Rightarrow> (nat \<times> Account) list \<Rightarrow> nat option" where
  "find_scanned ks [] = None"
| "find_scanned ks ((i, acc) # rest) = (if Identifier acc \<in> set ks then Some i else find_scanned ks rest)"

definition findAccountIndexLocked :: "Store \<Rightarrow> string \<Rightarrow> nat option" where
  "findAccountIndexLocked s identifier = (let candidates = lookup_candidates identifier in
     case find_indexed (accMap s) (length (cfgAccounts s)) candidates of
       Some idx \<Rightarrow> Some idx
     | None \<Rightarrow> find_scanned candidates (enumerate 0 (cfgAccounts s)))"

definition Accounts :: "Store \<Rightarrow> Account list" where
  "Accounts s = cfgAccounts s"

definition Keys :: "Store \<Rightarrow> string list" where
  "Keys s = cfgKeys s"

definition HasAPIKey :: "Store \<Rightarrow> string \<Rightarrow> bool" where
  "HasAPIKey s k \<longleftrightarrow> k \<in> set (keyMap s)"

definition FindAccount :: "Store \<Rightarrow> string \<Rightarrow> Account option" where
  "FindAccount s identifier =
     map_option (\<lambda>idx. cfgAccounts s ! idx) (findAccountIndexLocked s (TrimSpace identifier))"

datatype store_error = AccountNotFound | IdentifierRequired | StorageFailed string

definition UpdateAccountTestStatus :: "string \<Rightarrow> string \<Rightarrow> Store \<Rightarrow> store_error + Store" where
  "UpdateAccountTestStatus identifier0 status s = (let identifier = TrimSpace identifier0 in
     case findAccountIndexLocked s identifier of
       None \<Rightarrow> Inl AccountNotFound
     | Some idx \<Rightarrow> Inr (setAccountTestStatusLocked (cfgAccounts s ! idx) status identifier s))"

definition AccountTestStatus :: "Store \<Rightarrow> string \<Rightarrow> string option" where
  "AccountTestStatus s identifier0 = (let identifier = TrimSpace identifier0 in
     if identifier = '''' then None else gm_get (accTest s) identifier)"

definition UpdateAccountSessionCount :: "string \<Rightarrow> int \<Rightarrow> Store \<Rightarrow> store_error + Store" where
  "UpdateAccountSessionCount identifier0 count0 s =
     (let identifier = TrimSpace identifier0; count = (if count0 < 0 then 0 else count0) in
      case findAccountIndexLocked s identifier of
        None \<Rightarrow> Inl AccountNotFound
      | Some idx \<Rightarrow> Inr (setAccountSessionCountLocked (cfgAccounts s ! idx) count identifier s))"

definition AccountSessionCount :: "Store \<Rightarrow> string \<Rightarrow> int option" where
  "AccountSessionCount s identifier0 = (let identifier = TrimSpace identifier0 in
     if identifier = '''' then None else gm_get (accSess s) identifier)"

definition truncateRuntimeTestDetail :: "string \<Rightarrow> string" where
  "truncateRuntimeTestDetail value0 = (let value = TrimSpace value0; rs = runes value in
     if length rs \<le> 1200 then value else concat (map encode_rune (take 1200 rs)) @ ''...'')"

definition UpdateAccountTestResult :: "time \<Rightarrow> string \<Rightarrow> AccountTestResult \<Rightarrow> Store \<Rightarrow> store_error + Store" where
  "UpdateAccountTestResult now identifier0 r0 s = (let identifier = TrimSpace identifier0 in
     case findAccountIndexLocked s identifier of
       None \<Rightarrow> Inl AccountNotFound
     | Some idx \<Rightarrow>
         (let st = (if lower (Status r0) = '''' then ''failed'' else lower (Status r0));
              r = r0\<lparr>Status := st, Phase := TrimSpace (Phase r0),
                FailureReason := truncateRuntimeTestDetail (FailureReason r0),
                ConfigWarning := truncateRuntimeTestDetail (ConfigWarning r0),
                UpdatedAtUnix := (if UpdatedAtUnix r0 \<le> 0 then unix_of now else UpdatedAtUnix r0)\<rparr>;
              acc = cfgAccounts s ! idx
          in Inr (setAccountTestResultLocked acc r identifier
                   (setAccountTestStatusLocked acc (Status r) identifier s))))"

definition AccountTestResult_of :: "Store \<Rightarrow> string \<Rightarrow> AccountTestResult option" where
  "AccountTestResult_of s identifier0 = (let identifier = TrimSpace identifier0 in
     if identifier = '''' then None else gm_get (accTestResult s) identifier)"

text \<open>
  The memory effect of \<^verbatim>\<open>UpdateAccountToken\<close>; \<open>io\<close> is the outcome of the SQLite update and the
  file write that follow it. The memory change stays even when writing fails.
\<close>

definition UpdateAccountToken :: "string option \<Rightarrow> string \<Rightarrow> string \<Rightarrow> Store \<Rightarrow> store_error option \<times> Store" where
  "UpdateAccountToken io identifier0 token s = (let identifier = TrimSpace identifier0 in
     case findAccountIndexLocked s identifier of
       None \<Rightarrow> (Some AccountNotFound, s)
     | Some idx \<Rightarrow>
         (let oldID = Identifier (cfgAccounts s ! idx);
              s1 = s\<lparr>cfgAccounts := (cfgAccounts s)[idx := (cfgAccounts s ! idx)\<lparr>Token := token\<rparr>]\<rparr>;
              newID = Identifier (cfgAccounts s1 ! idx);
              s2 = s1\<lparr>accMap := set_nonempty newID idx (set_nonempty oldID idx (set_nonempty identifier idx (accMap s1)))\<rparr>
          in (map_option StorageFailed io, s2)))"

text \<open>
  \<^verbatim>\<open>NormalizeCredentials\<close> on the modelled fields, and the transaction \<^verbatim>\<open>Update\<close>: the mutator works
  on a copy, an error of the mutator or of the account table leaves the store as it was, and a
  failing file write is reported after the new configuration is in memory. \<open>persist\<close> is
  \<^verbatim>\<open>accountsDB.replace\<close> (the identity when there is no database), \<open>io\<close> the outcome of \<^verbatim>\<open>saveLocked\<close>.
\<close>

definition normalizeModelAliases :: "(string, string) gomap \<Rightarrow> (string, string) gomap" where
  "normalizeModelAliases m = fold (\<lambda>(k, v) out.
       let key = TrimSpace (lower k); val = TrimSpace (lower v) in
       if key = '''' \<or> val = '''' then out else gm_set key val out) m []"

definition normalize_account :: "case_table \<Rightarrow> time \<Rightarrow> Account \<Rightarrow> Account" where
  "normalize_account tab now a0 =
     (let a = NormalizeAccountIdentity a0;
          (state, untilUnix) = normalizeAccountCooldown tab now (CooldownState a) (CooldownUntilUnix a)
      in a\<lparr>Name := TrimSpace (Name a), Remark := TrimSpace (Remark a),
           CooldownState := state, CooldownUntilUnix := untilUnix\<rparr>)"

definition NormalizeCredentials :: "case_table \<Rightarrow> time \<Rightarrow> Config \<Rightarrow> Config" where
  "NormalizeCredentials tab now c =
     (let api = normalizeAPIKeys (cfgAPIKeys c);
          c1 = (if api \<noteq> [] then c\<lparr>cfgAPIKeys := api, cfgKeys := apiKeysToStrings api\<rparr>
                else let ks = normalizeKeys (cfgKeys c) in
                  c\<lparr>cfgKeys := ks, cfgAPIKeys := apiKeysFromStrings ks []\<rparr>)
      in c1\<lparr>cfgAccounts := map (normalize_account tab now) (cfgAccounts c1),
            cfgModelAliases := normalizeModelAliases (cfgModelAliases c1)\<rparr>)"

definition DropInvalidAccounts :: "Config \<Rightarrow> Config" where
  "DropInvalidAccounts c = c\<lparr>cfgAccounts := filter (\<lambda>a. Identifier a \<noteq> '''') (cfgAccounts c)\<rparr>"

text \<open>The account table normalises and deduplicates what it stores.\<close>

definition normalizeAccountConfig :: "case_table \<Rightarrow> time \<Rightarrow> Account \<Rightarrow> Account" where
  "normalizeAccountConfig tab now a0 =
     (let a = NormalizeAccountIdentity a0;
          (state, untilUnix) = normalizeAccountCooldown tab now (CooldownState a) (CooldownUntilUnix a)
      in a\<lparr>Name := TrimSpace (Name a), Remark := TrimSpace (Remark a), Password := TrimSpace (Password a),
           Token := TrimSpace (Token a), ProxyID := TrimSpace (ProxyID a),
           DisabledReason := (if Disabled a then TrimSpace (DisabledReason a) else ''''),
           DisabledAtUnix := (if Disabled a then DisabledAtUnix a else 0),
           CooldownState := state, CooldownUntilUnix := untilUnix\<rparr>)"

definition accountConfigDedupeKey :: "Account \<Rightarrow> string" where
  "accountConfigDedupeKey acc =
     (if TrimSpace (Email acc) \<noteq> '''' then ''email:'' @ TrimSpace (Email acc)
      else if CanonicalMobileKey (Mobile acc) \<noteq> '''' then ''mobile:'' @ CanonicalMobileKey (Mobile acc)
      else '''')"

fun dedupe_accounts :: "case_table \<Rightarrow> time \<Rightarrow> string list \<Rightarrow> Account list \<Rightarrow> Account list" where
  "dedupe_accounts tab now seen [] = []"
| "dedupe_accounts tab now seen (a # as) =
     (let acc = normalizeAccountConfig tab now a; key = accountConfigDedupeKey acc in
      if key = '''' \<or> key \<in> set seen then dedupe_accounts tab now seen as
      else acc # dedupe_accounts tab now (key # seen) as)"

definition normalizeAndDedupeAccountConfig :: "case_table \<Rightarrow> time \<Rightarrow> Account list \<Rightarrow> Account list" where
  "normalizeAndDedupeAccountConfig tab now accounts = dedupe_accounts tab now [] accounts"

definition accountsDB_replace :: "case_table \<Rightarrow> time \<Rightarrow> string option \<Rightarrow> Account list \<Rightarrow> string + Account list" where
  "accountsDB_replace tab now err accounts = (case err of
     Some e \<Rightarrow> Inl e | None \<Rightarrow> Inr (normalizeAndDedupeAccountConfig tab now accounts))"

type_synonym storage = "(Account list \<Rightarrow> string + Account list) \<times> string option"

definition install_config :: "storage \<Rightarrow> Config \<Rightarrow> Store \<Rightarrow> store_error option \<times> Store" where
  "install_config = (\<lambda>(persist, io) cfg s. case persist (cfgAccounts cfg) of
       Inl e \<Rightarrow> (Some (StorageFailed e), s)
     | Inr accounts \<Rightarrow> (map_option StorageFailed io,
         rebuildIndexes (Config.extend (cfg\<lparr>cfgAccounts := accounts\<rparr>) (Config.more s))))"

definition Replace :: "case_table \<Rightarrow> time \<Rightarrow> storage \<Rightarrow> Config \<Rightarrow> Store \<Rightarrow> store_error option \<times> Store" where
  "Replace tab now st cfg s = install_config st (NormalizeCredentials tab now cfg) s"

definition Update :: "case_table \<Rightarrow> time \<Rightarrow> storage \<Rightarrow> (Config \<Rightarrow> store_error + Config) \<Rightarrow> Store \<Rightarrow> store_error option \<times> Store" where
  "Update tab now st mutator s = (let base = Config.truncate s in
     case mutator base of
       Inl e \<Rightarrow> (Some e, s)
     | Inr cfg \<Rightarrow>
         (let (ks, api) = ReconcileCredentials (cfgKeys cfg) (cfgAPIKeys cfg) (cfgKeys base) (cfgAPIKeys base)
          in install_config st (NormalizeCredentials tab now (cfg\<lparr>cfgKeys := ks, cfgAPIKeys := api\<rparr>)) s))"

text \<open>
  The mutators that \<^verbatim>\<open>SetAccountDisabled\<close> and \<^verbatim>\<open>SetAccountCooldown\<close> hand to \<^verbatim>\<open>Update\<close> change the
  first account that matches the identifier.
\<close>

fun update_first_match :: "string \<Rightarrow> (Account \<Rightarrow> Account) \<Rightarrow> Account list \<Rightarrow> Account list option" where
  "update_first_match identifier f [] = None"
| "update_first_match identifier f (a # as) =
     (if accountIdentifiersMatch a identifier then Some (f a # as)
      else map_option (\<lambda>as'. a # as') (update_first_match identifier f as))"

definition match_mutator :: "string \<Rightarrow> (Account \<Rightarrow> Account) \<Rightarrow> Config \<Rightarrow> store_error + Config" where
  "match_mutator identifier f cfg = (case update_first_match identifier f (cfgAccounts cfg) of
     None \<Rightarrow> Inl AccountNotFound | Some as \<Rightarrow> Inr (cfg\<lparr>cfgAccounts := as\<rparr>))"

definition SetAccountDisabled :: "case_table \<Rightarrow> time \<Rightarrow> storage \<Rightarrow> string \<Rightarrow> bool \<Rightarrow> string \<Rightarrow> Store \<Rightarrow> store_error option \<times> Store" where
  "SetAccountDisabled tab now st identifier disabled reason =
     Update tab now st (match_mutator (TrimSpace identifier) (\<lambda>a. a\<lparr>Disabled := disabled,
       DisabledReason := (if disabled then TrimSpace reason else ''''),
       DisabledAtUnix := (if disabled then unix_of now else 0),
       CooldownState := '''', CooldownUntilUnix := 0\<rparr>))"

definition SetAccountCooldown :: "case_table \<Rightarrow> time \<Rightarrow> storage \<Rightarrow> string \<Rightarrow> string \<Rightarrow> time \<Rightarrow> Store \<Rightarrow> store_error option \<times> Store" where
  "SetAccountCooldown tab now st identifier0 state0 until s =
     (let identifier = TrimSpace identifier0;
          (state, untilUnix) = normalizeAccountCooldown tab now state0 (unix_of until)
      in if identifier = '''' then (Some IdentifierRequired, s)
         else if (case FindAccount s identifier of
                    Some current \<Rightarrow> CooldownState current = state \<and> CooldownUntilUnix current = untilUnix
                  | None \<Rightarrow> False) then (None, s)
         else Update tab now st (match_mutator identifier
                (\<lambda>a. a\<lparr>CooldownState := state, CooldownUntilUnix := untilUnix\<rparr>)) s)"

definition ClearAccountCooldown :: "case_table \<Rightarrow> time \<Rightarrow> storage \<Rightarrow> string \<Rightarrow> Store \<Rightarrow> store_error option \<times> Store" where
  "ClearAccountCooldown tab now st identifier0 s = (let identifier = TrimSpace identifier0 in
     if identifier = '''' then (Some IdentifierRequired, s)
     else if (case FindAccount s identifier of
                Some current \<Rightarrow> CooldownState current = '''' \<and> CooldownUntilUnix current = 0
              | None \<Rightarrow> False) then (None, s)
     else SetAccountCooldown tab now st identifier '''' zero_time s)"

section \<open>Configured limits\<close>

text \<open>The environment enters as the function \<open>getenv\<close>.\<close>

definition env_positive :: "(string \<Rightarrow> string) \<Rightarrow> string \<Rightarrow> int option" where
  "env_positive getenv var = (let raw = TrimSpace (getenv var) in
     if raw = '''' then None
     else case Atoi raw of Some n \<Rightarrow> if 0 < n then Some n else None | None \<Rightarrow> None)"

definition env_nonnegative :: "(string \<Rightarrow> string) \<Rightarrow> string \<Rightarrow> int option" where
  "env_nonnegative getenv var = (let raw = TrimSpace (getenv var) in
     if raw = '''' then None
     else case Atoi raw of Some n \<Rightarrow> if 0 \<le> n then Some n else None | None \<Rightarrow> None)"

definition RuntimeAccountMaxInflight :: "(string \<Rightarrow> string) \<Rightarrow> Store \<Rightarrow> int" where
  "RuntimeAccountMaxInflight getenv s =
     (if 0 < cfgAccountMaxInflight s then cfgAccountMaxInflight s
      else case env_positive getenv ''DEEPSEEK_WEB_TO_API_ACCOUNT_MAX_INFLIGHT'' of Some n \<Rightarrow> n | None \<Rightarrow> 2)"

definition RuntimeAccountMaxQueue :: "(string \<Rightarrow> string) \<Rightarrow> Store \<Rightarrow> int \<Rightarrow> int" where
  "RuntimeAccountMaxQueue getenv s defaultSize =
     (if 0 < cfgAccountMaxQueue s then cfgAccountMaxQueue s
      else case env_nonnegative getenv ''DEEPSEEK_WEB_TO_API_ACCOUNT_MAX_QUEUE'' of
        Some n \<Rightarrow> n | None \<Rightarrow> if defaultSize < 0 then 0 else defaultSize)"

definition RuntimeGlobalMaxInflight :: "(string \<Rightarrow> string) \<Rightarrow> Store \<Rightarrow> int \<Rightarrow> int" where
  "RuntimeGlobalMaxInflight getenv s defaultSize =
     (if 0 < cfgGlobalMaxInflight s then cfgGlobalMaxInflight s
      else case env_positive getenv ''DEEPSEEK_WEB_TO_API_GLOBAL_MAX_INFLIGHT'' of
        Some n \<Rightarrow> n | None \<Rightarrow> if defaultSize < 0 then 0 else defaultSize)"

definition RuntimeTokenRefreshIntervalHours :: "Store \<Rightarrow> int" where
  "RuntimeTokenRefreshIntervalHours s =
     (if 0 < cfgTokenRefreshIntervalHours s then cfgTokenRefreshIntervalHours s else 6)"

definition ModelAliases :: "Store \<Rightarrow> (string, string) gomap" where
  "ModelAliases s = fold (\<lambda>(k, v) out.
       let key = TrimSpace (lower k); val = TrimSpace (lower v) in
       if key = '''' \<or> val = '''' then out else gm_set key val out)
     (cfgModelAliases s) DefaultModelAliases"

section \<open>Mobile numbers are stored in one spelling\<close>

lemma space_seqs_start: "w \<in> set space_seqs \<Longrightarrow> prefix w (c # s) \<Longrightarrow> c \<noteq> CHR ''+'' \<and> \<not> is_digit c"
  by (auto simp: space_seqs_def is_digit_def byte_of_def)

lemma space_seqs_end: "w \<in> set (map rev space_seqs) \<Longrightarrow> prefix w (c # s) \<Longrightarrow> \<not> is_digit c"
  by (auto simp: space_seqs_def is_digit_def byte_of_def)

lemma TrimSpace_numeric:
  assumes "s \<noteq> ''''" "hd s = CHR ''+'' \<or> is_digit (hd s)" "is_digit (last s)"
  shows "TrimSpace s = s"
proof -
  have 1: "\<forall>w \<in> set space_seqs. \<not> prefix w s"
    using space_seqs_start [of _ "hd s" "tl s"] assms(1,2) by auto
  have "rev s = last s # rev (butlast s)"
    using assms(1) by (metis append_butlast_last_id rev_eq_Cons_iff rev_rev_ident)
  then have 2: "\<forall>w \<in> set (map rev space_seqs). \<not> prefix w (rev s)"
    using space_seqs_end [of _ "last s" "rev (butlast s)"] assms(3) by metis
  show ?thesis
    by (rule TrimSpace_trimmed) (simp add: trimmed_def lead_seq_0 [OF space_seqs_nonempty(1)] lead_seq_0 [OF space_seqs_nonempty(2)] 1 2 del: set_map)
qed

lemma TrimSpace_digits: "list_all is_digit ds \<Longrightarrow> TrimSpace ds = ds"
  using TrimSpace_numeric [of ds] by (cases "ds = ''''") (auto simp: list_all_iff)

definition stored_mobile :: "string \<Rightarrow> bool" where
  "stored_mobile m \<longleftrightarrow> m = '''' \<or> (\<exists>ds. ds \<noteq> '''' \<and> list_all is_digit ds \<and> m = ''+'' @ ds)"

lemma stored_mobile_trimmed: "stored_mobile m \<Longrightarrow> TrimSpace m = m"
  using TrimSpace_numeric [of m] by (auto simp: stored_mobile_def list_all_iff)

lemma filter_is_digit_all: "list_all is_digit (filter is_digit s)"
  by (induction s) auto

lemma list_all_is_digit_drop: "list_all is_digit ds \<Longrightarrow> list_all is_digit (drop n ds)"
  by (auto simp: list_all_iff dest: in_set_dropD)

lemma is_digit_86: "is_digit (CHR ''8'')" "is_digit (CHR ''6'')" "\<not> is_digit (CHR ''+'')"
  by (simp_all add: is_digit_def byte_of_def)

lemma NormalizeMobile_stored: "stored_mobile (NormalizeMobileForStorage raw)"
  by (auto simp: NormalizeMobileForStorage_def extractMobileDigits_def stored_mobile_def Let_def
      filter_is_digit_all list_all_is_digit_drop is_digit_86 split: prod.splits if_splits)

lemma NormalizeMobile_of_stored: "stored_mobile m \<Longrightarrow> NormalizeMobileForStorage m = m"
proof -
  assume a: "stored_mobile m"
  then have t: "TrimSpace m = m" by (rule stored_mobile_trimmed)
  from a consider "m = ''''" | ds where "ds \<noteq> ''''" "list_all is_digit ds" "m = ''+'' @ ds"
    by (auto simp: stored_mobile_def)
  then show ?thesis
  proof cases
    case 2
    then have "filter is_digit ds = ds" by (simp add: list_all_iff filter_id_conv)
    with 2 t show ?thesis
      by (simp add: NormalizeMobileForStorage_def extractMobileDigits_def is_digit_86 isMobileSeparator_def)
  qed (simp add: NormalizeMobileForStorage_def extractMobileDigits_def)
qed

lemma NormalizeMobile_idem [simp]:
  "NormalizeMobileForStorage (NormalizeMobileForStorage m) = NormalizeMobileForStorage m"
  by (simp add: NormalizeMobile_of_stored NormalizeMobile_stored)

lemma stored_mobile_no_at: "stored_mobile m \<Longrightarrow> \<not> Contains m ''@''"
proof -
  assume "stored_mobile m"
  then have "CHR ''@'' \<notin> set m"
    by (auto simp: stored_mobile_def list_all_iff is_digit_def byte_of_def dest: bspec [where x = "CHR ''@''"])
  then show ?thesis by (auto simp: Contains_sublist sublist_def)
qed

lemma NormalizeMobile_Nil [simp]: "NormalizeMobileForStorage [] = []"
  by (simp add: NormalizeMobileForStorage_def extractMobileDigits_def)

lemma NormalizeMobile_trimmed [simp]: "TrimSpace (NormalizeMobileForStorage m) = NormalizeMobileForStorage m"
  by (simp add: stored_mobile_trimmed NormalizeMobile_stored)

lemma NormalizeMobile_not_email [simp]: "\<not> looksLikeEmailIdentifier (NormalizeMobileForStorage m)"
  by (simp add: looksLikeEmailIdentifier_def stored_mobile_no_at NormalizeMobile_stored)

lemma NormalizeAccountIdentity_idem [simp]:
  "NormalizeAccountIdentity (NormalizeAccountIdentity a) = NormalizeAccountIdentity a"
  using NormalizeMobile_not_email [of "[]"]
  by (auto simp: NormalizeAccountIdentity_def Let_def)

lemma Identifier_normalized: "Identifier (NormalizeAccountIdentity a) = Identifier a"
  by (simp add: Identifier_def)

lemma Identifier_trimmed [simp]: "TrimSpace (Identifier a) = Identifier a"
  by (simp add: Identifier_def Let_def)

lemma Identifier_Token [simp]: "Identifier (a\<lparr>Token := t\<rparr>) = Identifier a"
  by (simp add: Identifier_def NormalizeAccountIdentity_def Let_def)

section \<open>The lookup index\<close>

text \<open>
  What the index promises: a binding leads to an account that has the key as its identifier,
  or, when no account has that identifier, as a spelling of its mobile number; and every
  account with an identifier is bound.
\<close>

definition index_ok :: "Store \<Rightarrow> bool" where
  "index_ok s \<longleftrightarrow>
     (\<forall>k i. gm_get (accMap s) k = Some i \<longrightarrow> k \<noteq> '''' \<and> i < length (cfgAccounts s) \<and>
        (Identifier (cfgAccounts s ! i) = k \<or>
         Identifier (cfgAccounts s ! i) = CanonicalMobileKey k \<and> CanonicalMobileKey k \<noteq> '''' \<and>
         (\<forall>a \<in> set (cfgAccounts s). Identifier a \<noteq> k))) \<and>
     (\<forall>a \<in> set (cfgAccounts s). Identifier a \<noteq> '''' \<longrightarrow> gm_get (accMap s) (Identifier a) \<noteq> None)"

lemma index_okD:
  assumes "index_ok s" "gm_get (accMap s) k = Some i"
  shows "k \<noteq> ''''" "i < length (cfgAccounts s)"
    "Identifier (cfgAccounts s ! i) = k \<or>
     Identifier (cfgAccounts s ! i) = CanonicalMobileKey k \<and> CanonicalMobileKey k \<noteq> '''' \<and>
     (\<forall>a \<in> set (cfgAccounts s). Identifier a \<noteq> k)"
  using assms unfolding index_ok_def by blast+

lemma index_ok_bound:
  "index_ok s \<Longrightarrow> a \<in> set (cfgAccounts s) \<Longrightarrow> Identifier a \<noteq> '''' \<Longrightarrow> \<exists>i. gm_get (accMap s) (Identifier a) = Some i"
  unfolding index_ok_def by blast

lemma rebuild_step_simps [simp]:
  "accMap (rebuild_step s0 (i, acc) s) =
     (if Identifier acc = '''' then accMap s else gm_set (Identifier acc) i (accMap s))"
  "cfgAccounts (rebuild_step s0 (i, acc) s) = cfgAccounts s"
  "cfgKeys (rebuild_step s0 (i, acc) s) = cfgKeys s"
  "cfgAPIKeys (rebuild_step s0 (i, acc) s) = cfgAPIKeys s"
  "keyMap (rebuild_step s0 (i, acc) s) = keyMap s"
  by (simp_all add: rebuild_step_def Let_def setAccountTestStatusLocked_def
      setAccountTestResultLocked_def setAccountSessionCountLocked_def split: option.splits)

lemma rebuild_fold_simps:
  "cfgAccounts (fold (rebuild_step s0) xs s) = cfgAccounts s"
  "cfgKeys (fold (rebuild_step s0) xs s) = cfgKeys s"
  "cfgAPIKeys (fold (rebuild_step s0) xs s) = cfgAPIKeys s"
  "keyMap (fold (rebuild_step s0) xs s) = keyMap s"
  by (induction xs arbitrary: s) auto

lemma rebuild_fold_accMap:
  "accMap (fold (rebuild_step s0) xs s) =
     fold (\<lambda>(i, acc) m. if Identifier acc = '''' then m else gm_set (Identifier acc) i m) xs (accMap s)"
  by (induction xs arbitrary: s) (auto simp: fun_eq_iff)

lemma fold_index_sound:
  "gm_get (fold (\<lambda>(i, acc) m. if Identifier acc = '''' then m else gm_set (Identifier acc) i m) xs m) k = Some i \<Longrightarrow>
   gm_get m k = Some i \<or> (\<exists>acc. (i, acc) \<in> set xs \<and> Identifier acc = k \<and> k \<noteq> '''')"
proof (induction xs arbitrary: m)
  case (Cons x xs)
  obtain j acc where x: "x = (j, acc)" by (cases x)
  from Cons.IH [of "if Identifier acc = '''' then m else gm_set (Identifier acc) j m"] Cons.prems
  show ?case by (auto simp: x gm_get_set split: if_splits)
qed simp

lemma fold_index_complete:
  "gm_get m k \<noteq> None \<or> (\<exists>i acc. (i, acc) \<in> set xs \<and> Identifier acc = k \<and> k \<noteq> '''') \<Longrightarrow>
   gm_get (fold (\<lambda>(i, acc) m. if Identifier acc = '''' then m else gm_set (Identifier acc) i m) xs m) k \<noteq> None"
proof (induction xs arbitrary: m)
  case (Cons x xs)
  obtain i acc where x: "x = (i, acc)" by (cases x)
  let ?m = "if Identifier acc = '''' then m else gm_set (Identifier acc) i m"
  have "gm_get ?m k \<noteq> None \<or> (\<exists>i acc. (i, acc) \<in> set xs \<and> Identifier acc = k \<and> k \<noteq> '''')"
    using Cons.prems by (auto simp: x gm_get_set)
  from Cons.IH [OF this] show ?case by (simp add: x)
qed simp

lemma rebuildIndexes_simps [simp]:
  "cfgAccounts (rebuildIndexes s) = cfgAccounts s"
  "cfgKeys (rebuildIndexes s) = cfgKeys s"
  "cfgAPIKeys (rebuildIndexes s) = cfgAPIKeys s"
  "keyMap (rebuildIndexes s) = cfgKeys s"
  by (simp_all add: rebuildIndexes_def rebuild_fold_simps)

lemma rebuildIndexes_index_ok: "index_ok (rebuildIndexes s)"
proof -
  let ?xs = "enumerate 0 (cfgAccounts s)"
  have am: "accMap (rebuildIndexes s) =
      fold (\<lambda>(i, acc) m. if Identifier acc = '''' then m else gm_set (Identifier acc) i m) ?xs []"
    by (simp add: rebuildIndexes_def rebuild_fold_accMap)
  have mem: "(i, acc) \<in> set ?xs \<longleftrightarrow> i < length (cfgAccounts s) \<and> acc = cfgAccounts s ! i" for i acc
    by (auto simp: in_set_enumerate_eq)
  show ?thesis
    unfolding index_ok_def
  proof (intro conjI allI impI ballI)
    fix k i assume "gm_get (accMap (rebuildIndexes s)) k = Some i"
    then obtain acc where "(i, acc) \<in> set ?xs" "Identifier acc = k" "k \<noteq> ''''"
      unfolding am using fold_index_sound by fastforce
    then show "k \<noteq> ''''" "i < length (cfgAccounts (rebuildIndexes s))"
      "Identifier (cfgAccounts (rebuildIndexes s) ! i) = k \<or>
       Identifier (cfgAccounts (rebuildIndexes s) ! i) = CanonicalMobileKey k \<and> CanonicalMobileKey k \<noteq> '''' \<and>
       (\<forall>a \<in> set (cfgAccounts (rebuildIndexes s)). Identifier a \<noteq> k)"
      by (auto simp: mem)
  next
    fix a assume "a \<in> set (cfgAccounts (rebuildIndexes s))" "Identifier a \<noteq> ''''"
    then obtain i where "i < length (cfgAccounts s)" "a = cfgAccounts s ! i"
      by (auto simp: in_set_conv_nth)
    with \<open>Identifier a \<noteq> ''''\<close> show "gm_get (accMap (rebuildIndexes s)) (Identifier a) \<noteq> None"
      unfolding am by (intro fold_index_complete) (auto simp: mem)
  qed
qed

lemma find_indexed_Some:
  "find_indexed m n ks = Some i \<Longrightarrow> \<exists>k \<in> set ks. gm_get m k = Some i \<and> i < n"
  by (induction ks) (auto split: option.splits if_splits)

lemma find_scanned_Some:
  "find_scanned ks xs = Some i \<Longrightarrow> \<exists>acc. (i, acc) \<in> set xs \<and> Identifier acc \<in> set ks"
  by (induction xs) (auto split: if_splits)

lemma CanonicalMobileKey_idem [simp]: "CanonicalMobileKey (CanonicalMobileKey k) = CanonicalMobileKey k"
  by (simp add: CanonicalMobileKey_def)

lemma findAccountIndex_sound:
  assumes "index_ok s" "findAccountIndexLocked s k = Some i"
  shows "i < length (cfgAccounts s) \<and> Identifier (cfgAccounts s ! i) \<in> set (lookup_candidates k)"
proof (cases "find_indexed (accMap s) (length (cfgAccounts s)) (lookup_candidates k)")
  case None
  with assms(2) have "find_scanned (lookup_candidates k) (enumerate 0 (cfgAccounts s)) = Some i"
    by (simp add: findAccountIndexLocked_def)
  from find_scanned_Some [OF this] show ?thesis by (auto simp: in_set_enumerate_eq)
next
  case (Some j)
  with assms(2) have "j = i" by (simp add: findAccountIndexLocked_def)
  with find_indexed_Some [OF Some] obtain c where c: "c \<in> set (lookup_candidates k)" "gm_get (accMap s) c = Some i"
    by auto
  have "CanonicalMobileKey c \<in> set (lookup_candidates k) \<or> CanonicalMobileKey c = ''''"
    using c(1) by (auto simp: lookup_candidates_def Let_def split: if_splits)
  then show ?thesis using index_okD [OF assms(1) c(2)] c(1) by auto
qed

text \<open>An exact identifier is found through the index, whatever its spelling looks like.\<close>

lemma findAccountIndex_exact:
  assumes "index_ok s" "a \<in> set (cfgAccounts s)" "Identifier a \<noteq> ''''"
  shows "\<exists>i. findAccountIndexLocked s (Identifier a) = Some i \<and> i < length (cfgAccounts s) \<and>
     Identifier (cfgAccounts s ! i) = Identifier a \<and> gm_get (accMap s) (Identifier a) = Some i"
proof -
  obtain i where i: "gm_get (accMap s) (Identifier a) = Some i"
    using index_ok_bound [OF assms] by blast
  have "i < length (cfgAccounts s)" "Identifier (cfgAccounts s ! i) = Identifier a"
    using index_okD [OF assms(1) i] assms(2) by auto
  with i show ?thesis
    by (auto simp: findAccountIndexLocked_def lookup_candidates_def Let_def)
qed

lemma findAccountIndex_miss:
  assumes "index_ok s" "findAccountIndexLocked s k = None" "a \<in> set (cfgAccounts s)" "Identifier a \<noteq> ''''"
  shows "Identifier a \<notin> set (lookup_candidates k)"
proof
  assume m: "Identifier a \<in> set (lookup_candidates k)"
  have aux: "find_scanned ks xs = None \<Longrightarrow> (i, acc) \<in> set xs \<Longrightarrow> Identifier acc \<notin> set ks" for ks xs i acc
    by (induction xs) (auto split: if_splits)
  from assms(2) have "find_scanned (lookup_candidates k) (enumerate 0 (cfgAccounts s)) = None"
    by (auto simp: findAccountIndexLocked_def Let_def split: option.splits)
  with aux m assms(3) show False
    by (metis in_set_conv_nth in_set_enumerate_eq length_enumerate nth_enumerate_eq add_0 nth_mem)
qed

lemma FindAccount_sound:
  "index_ok s \<Longrightarrow> FindAccount s k = Some a \<Longrightarrow>
     a \<in> set (Accounts s) \<and> Identifier a \<in> set (lookup_candidates (TrimSpace k))"
  using findAccountIndex_sound [of s "TrimSpace k"] by (auto simp: FindAccount_def Accounts_def)

lemma FindAccount_exact:
  "index_ok s \<Longrightarrow> a \<in> set (Accounts s) \<Longrightarrow> Identifier a \<noteq> '''' \<Longrightarrow>
     \<exists>b. FindAccount s (Identifier a) = Some b \<and> Identifier b = Identifier a"
  using findAccountIndex_exact [of s a] by (auto simp: FindAccount_def Accounts_def)

section \<open>The directory interface\<close>

text \<open>
  What the account pool relies on when it asks the store for accounts: an answer is one of
  the listed accounts, and an account can be found by its identifier.
\<close>

locale account_directory =
  fixes find :: "'s \<Rightarrow> string \<Rightarrow> 'a option"
    and members :: "'s \<Rightarrow> 'a list"
    and ident :: "'a \<Rightarrow> string"
    and ok :: "'s \<Rightarrow> bool"
  assumes find_member: "ok s \<Longrightarrow> find s k = Some a \<Longrightarrow> a \<in> set (members s)"
    and find_ident: "ok s \<Longrightarrow> a \<in> set (members s) \<Longrightarrow> ident a \<noteq> '''' \<Longrightarrow>
      \<exists>b. find s (ident a) = Some b \<and> ident b = ident a"
begin

definition unambiguous :: "'s \<Rightarrow> bool" where
  "unambiguous s \<longleftrightarrow> distinct (map ident (members s))"

lemma find_unique:
  "ok s \<Longrightarrow> unambiguous s \<Longrightarrow> a \<in> set (members s) \<Longrightarrow> ident a \<noteq> '''' \<Longrightarrow> find s (ident a) = Some a"
  using find_ident [of s a] find_member [of s "ident a"]
  by (auto simp: unambiguous_def distinct_map inj_on_def)

lemma find_same_ident:
  "ok s \<Longrightarrow> a \<in> set (members s) \<Longrightarrow> ident a \<noteq> '''' \<Longrightarrow> find s (ident a) = Some b \<Longrightarrow> ident b = ident a"
  using find_ident [of s a] by auto

end

interpretation dir: account_directory FindAccount Accounts Identifier index_ok
  by unfold_locales (auto dest: FindAccount_sound FindAccount_exact)

section \<open>Token updates\<close>

lemma UpdateAccountToken_found:
  assumes "findAccountIndexLocked s (TrimSpace k) = Some i"
  shows "UpdateAccountToken io k tok s = (map_option StorageFailed io,
     s\<lparr>cfgAccounts := (cfgAccounts s)[i := (cfgAccounts s ! i)\<lparr>Token := tok\<rparr>],
       accMap := set_nonempty (Identifier (cfgAccounts s ! i)) i
         (set_nonempty (Identifier (cfgAccounts s ! i)) i (set_nonempty (TrimSpace k) i (accMap s)))\<rparr>)"
  using assms by (cases "i < length (cfgAccounts s)") (simp_all add: UpdateAccountToken_def Let_def list_update_beyond)

lemma UpdateAccountToken_index_ok:
  assumes ok: "index_ok s"
  shows "index_ok (snd (UpdateAccountToken io k tok s))"
proof (cases "findAccountIndexLocked s (TrimSpace k)")
  case None
  then show ?thesis using ok by (simp add: UpdateAccountToken_def)
next
  case (Some i)
  let ?k = "TrimSpace k" and ?a = "cfgAccounts s ! i"
  let ?cs = "(cfgAccounts s)[i := ?a\<lparr>Token := tok\<rparr>]"
  have i: "i < length (cfgAccounts s)" and cand: "Identifier ?a \<in> set (lookup_candidates ?k)"
    using findAccountIndex_sound [OF ok Some] by auto
  have ids: "j < length (cfgAccounts s) \<Longrightarrow> Identifier (?cs ! j) = Identifier (cfgAccounts s ! j)" for j
    using i by (cases "j = i") auto
  have idset: "Identifier ` set ?cs = Identifier ` set (cfgAccounts s)"
  proof -
    have "map Identifier ?cs = map Identifier (cfgAccounts s)"
      using i by (simp add: map_update list_update_same_conv)
    from arg_cong [OF this, of set] show ?thesis by (simp only: list.set_map)
  qed
  have exact: "Identifier ?a = ?k" if "b \<in> set (cfgAccounts s)" "Identifier b = ?k" "?k \<noteq> ''''" for b
    using findAccountIndex_exact [OF ok that(1)] that Some by auto
  have via: "Identifier ?a = ?k \<or> Identifier ?a = CanonicalMobileKey ?k \<and> CanonicalMobileKey ?k \<noteq> ''''"
    using cand by (auto simp: lookup_candidates_def Let_def split: if_splits)
  let ?t = "snd (UpdateAccountToken io k tok s)"
  have cfg: "cfgAccounts ?t = ?cs" and am: "gm_get (accMap ?t) x =
     (if x \<noteq> '''' \<and> (x = Identifier ?a \<or> x = ?k) then Some i else gm_get (accMap s) x)" for x
    unfolding UpdateAccountToken_found [OF Some] by (auto simp: set_nonempty_def gm_get_set)
  have bex: "(\<forall>a \<in> set ?cs. Identifier a \<noteq> x) \<longleftrightarrow> (\<forall>a \<in> set (cfgAccounts s). Identifier a \<noteq> x)" for x
  proof -
    have "(\<forall>a \<in> S. Identifier a \<noteq> x) \<longleftrightarrow> x \<notin> Identifier ` S" for S by auto
    then show ?thesis using idset by simp
  qed
  show ?thesis
    unfolding index_ok_def
  proof (intro conjI allI impI ballI)
    fix x j assume b: "gm_get (accMap ?t) x = Some j"
    consider "x \<noteq> ''''" "x = Identifier ?a" "j = i" | "x \<noteq> ''''" "x = ?k" "j = i" | "gm_get (accMap s) x = Some j"
      using b unfolding am by (metis option.inject)
    then have "x \<noteq> '''' \<and> j < length (cfgAccounts s) \<and>
      (Identifier (cfgAccounts s ! j) = x \<or>
       Identifier (cfgAccounts s ! j) = CanonicalMobileKey x \<and> CanonicalMobileKey x \<noteq> '''' \<and>
       (\<forall>a \<in> set (cfgAccounts s). Identifier a \<noteq> x))"
    proof cases
      case 1
      with i show ?thesis by simp
    next
      case 2
      with i via exact show ?thesis by metis
    next
      case 3
      with index_okD [OF ok 3] show ?thesis by simp
    qed
    then show "x \<noteq> ''''" "j < length (cfgAccounts ?t)"
      "Identifier (cfgAccounts ?t ! j) = x \<or>
       Identifier (cfgAccounts ?t ! j) = CanonicalMobileKey x \<and> CanonicalMobileKey x \<noteq> '''' \<and>
       (\<forall>a \<in> set (cfgAccounts ?t). Identifier a \<noteq> x)"
      unfolding cfg bex by (simp_all add: ids)
  next
    fix a assume "a \<in> set (cfgAccounts ?t)" "Identifier a \<noteq> ''''"
    moreover then have "gm_get (accMap s) (Identifier a) \<noteq> None"
      using bex [of "Identifier a"] ok unfolding cfg index_ok_def by metis
    ultimately show "gm_get (accMap ?t) (Identifier a) \<noteq> None" by (simp add: am)
  qed
qed

lemma UpdateAccountToken_lookup:
  assumes ok: "index_ok s" and f: "FindAccount s k = Some a"
  shows "FindAccount (snd (UpdateAccountToken io k tok s)) k = Some (a\<lparr>Token := tok\<rparr>)"
proof -
  let ?k = "TrimSpace k" and ?t = "snd (UpdateAccountToken io k tok s)"
  from f obtain i where i: "findAccountIndexLocked s ?k = Some i" and a: "a = cfgAccounts s ! i"
    by (auto simp: FindAccount_def)
  have lt: "i < length (cfgAccounts s)" and cand: "Identifier a \<in> set (lookup_candidates ?k)"
    using findAccountIndex_sound [OF ok i] a by auto
  have "findAccountIndexLocked ?t ?k = Some i"
  proof (cases "?k = ''''")
    case True
    have "gm_get (accMap s) [] = None"
      using index_okD(1) [OF ok, of "[]"] by (cases "gm_get (accMap s) []") auto
    have empty: "Identifier a = ''''" using cand True
      by (auto simp: lookup_candidates_def CanonicalMobileKey_def)
    have ids: "find_scanned ks (enumerate n (xs[j := (xs ! j)\<lparr>Token := tok\<rparr>])) = find_scanned ks (enumerate n xs)" for ks n xs j
    proof (induction xs arbitrary: n j)
      case (Cons x xs)
      then show ?case by (cases j) auto
    qed simp
    show ?thesis
      using i True lt empty a ids \<open>gm_get (accMap s) [] = None\<close>
      by (simp add: UpdateAccountToken_found [OF i] findAccountIndexLocked_def set_nonempty_def
          lookup_candidates_def CanonicalMobileKey_def)
  next
    case False
    then have "gm_get (accMap ?t) ?k = Some i"
      by (simp add: UpdateAccountToken_found [OF i] set_nonempty_def gm_get_set)
    then show ?thesis
      using lt by (simp add: UpdateAccountToken_found [OF i] findAccountIndexLocked_def lookup_candidates_def Let_def)
  qed
  then show ?thesis using lt a
    by (simp add: FindAccount_def UpdateAccountToken_found [OF i])
qed

lemma UpdateAccountToken_others:
  "b \<in> set (Accounts (snd (UpdateAccountToken io k tok s))) \<Longrightarrow> Token b \<noteq> tok \<Longrightarrow> b \<in> set (Accounts s)"
  by (auto simp: UpdateAccountToken_def Accounts_def Let_def split: option.splits dest: set_update_subset_insert [THEN subsetD])

section \<open>API key lists\<close>

lemma normalize_api_keys_loop_keys:
  "map Key (normalize_api_keys_loop seen xs) = normalize_keys_loop seen (map Key xs)"
  by (induction xs arbitrary: seen) (auto simp: Let_def)

lemma api_keys_from_strings_loop_keys:
  "map Key (api_keys_from_strings_loop meta seen ks) = normalize_keys_loop seen ks"
  by (induction ks arbitrary: seen) (auto simp: Let_def split: option.splits)

lemma normalize_keys_loop_props:
  "distinct (normalize_keys_loop seen ks) \<and>
   (\<forall>k \<in> set (normalize_keys_loop seen ks). k \<noteq> '''' \<and> TrimSpace k = k \<and> k \<notin> set seen \<and> k \<in> TrimSpace ` set ks)"
proof (induction ks arbitrary: seen)
  case (Cons k ks)
  show ?case using Cons.IH [of seen] Cons.IH [of "TrimSpace k # seen"] by (auto simp: Let_def)
qed simp

lemma normalize_keys_loop_complete:
  "k \<in> set ks \<Longrightarrow> TrimSpace k \<noteq> '''' \<Longrightarrow> TrimSpace k \<in> set (normalize_keys_loop seen ks) \<union> set seen"
proof (induction ks arbitrary: seen)
  case (Cons x ks)
  show ?case using Cons.IH [of seen] Cons.IH [of "TrimSpace x # seen"] Cons.prems by (auto simp: Let_def)
qed simp

definition clean_keys :: "string list \<Rightarrow> bool" where
  "clean_keys ks \<longleftrightarrow> distinct ks \<and> (\<forall>k \<in> set ks. k \<noteq> '''' \<and> TrimSpace k = k)"

lemma normalizeKeys_clean: "clean_keys (normalizeKeys ks)"
  using normalize_keys_loop_props [of "[]" ks] by (auto simp: clean_keys_def normalizeKeys_def)

lemma normalize_keys_loop_id:
  "clean_keys ks \<Longrightarrow> set ks \<inter> set seen = {} \<Longrightarrow> normalize_keys_loop seen ks = ks"
  by (induction ks arbitrary: seen) (auto simp: clean_keys_def Let_def)

lemma normalizeKeys_id: "clean_keys ks \<Longrightarrow> normalizeKeys ks = ks"
  by (simp add: normalizeKeys_def normalize_keys_loop_id)

lemma normalizeAPIKeys_keys: "map Key (normalizeAPIKeys xs) = normalizeKeys (map Key xs)"
  by (simp add: normalizeAPIKeys_def normalizeKeys_def normalize_api_keys_loop_keys)

lemma apiKeysFromStrings_keys: "map Key (apiKeysFromStrings ks meta) = normalizeKeys ks"
  by (simp add: apiKeysFromStrings_def normalizeKeys_def api_keys_from_strings_loop_keys)

lemma apiKeysToStrings_clean: "clean_keys (map Key xs) \<Longrightarrow> apiKeysToStrings xs = map Key xs"
  by (induction xs) (auto simp: apiKeysToStrings_def clean_keys_def)

lemma NormalizeCredentials_keys:
  "cfgKeys (NormalizeCredentials tab now c) = map Key (cfgAPIKeys (NormalizeCredentials tab now c)) \<and>
   clean_keys (cfgKeys (NormalizeCredentials tab now c))"
  by (simp add: NormalizeCredentials_def Let_def normalizeAPIKeys_keys apiKeysFromStrings_keys
      apiKeysToStrings_clean normalizeKeys_clean normalizeKeys_id)

section \<open>Reachable stores\<close>

text \<open>
  The operations that change the store, one constructor each, and their sequences. A store is
  loaded by indexing a configuration.
\<close>

datatype store_op =
    OpReplace Config
  | OpUpdate "Config \<Rightarrow> store_error + Config"
  | OpDisable string bool string
  | OpCooldown string string time
  | OpClearCooldown string
  | OpToken string string
  | OpTestStatus string string
  | OpTestResult string AccountTestResult
  | OpSessionCount string int

definition or_same :: "Store \<Rightarrow> store_error + Store \<Rightarrow> Store" where
  "or_same s r = (case r of Inl _ \<Rightarrow> s | Inr s' \<Rightarrow> s')"

fun apply_store_op :: "case_table \<Rightarrow> time \<Rightarrow> storage \<Rightarrow> store_op \<Rightarrow> Store \<Rightarrow> Store" where
  "apply_store_op tab now st (OpReplace cfg) s = snd (Replace tab now st cfg s)"
| "apply_store_op tab now st (OpUpdate m) s = snd (Update tab now st m s)"
| "apply_store_op tab now st (OpDisable k d r) s = snd (SetAccountDisabled tab now st k d r s)"
| "apply_store_op tab now st (OpCooldown k c u) s = snd (SetAccountCooldown tab now st k c u s)"
| "apply_store_op tab now st (OpClearCooldown k) s = snd (ClearAccountCooldown tab now st k s)"
| "apply_store_op tab now st (OpToken k t) s = snd (UpdateAccountToken (snd st) k t s)"
| "apply_store_op tab now st (OpTestStatus k v) s = or_same s (UpdateAccountTestStatus k v s)"
| "apply_store_op tab now st (OpTestResult k r) s = or_same s (UpdateAccountTestResult now k r s)"
| "apply_store_op tab now st (OpSessionCount k n) s = or_same s (UpdateAccountSessionCount k n s)"

inductive store_reach :: "Store \<Rightarrow> bool" where
  loaded: "store_reach (rebuildIndexes s)"
| step: "store_reach s \<Longrightarrow> store_reach (apply_store_op tab now st op s)"

lemma index_ok_cong:
  "accMap t = accMap s \<Longrightarrow> cfgAccounts t = cfgAccounts s \<Longrightarrow> index_ok s \<Longrightarrow> index_ok t"
  by (simp add: index_ok_def)

lemma setAccount_index_ok [simp]:
  "index_ok (setAccountTestStatusLocked acc v h s) = index_ok s"
  "index_ok (setAccountTestResultLocked acc r h s) = index_ok s"
  "index_ok (setAccountSessionCountLocked acc n h s) = index_ok s"
  by (simp_all add: index_ok_def setAccountTestStatusLocked_def setAccountTestResultLocked_def
      setAccountSessionCountLocked_def Let_def)

lemma install_config_index_ok: "index_ok s \<Longrightarrow> index_ok (snd (install_config st cfg s))"
  by (auto simp: install_config_def rebuildIndexes_index_ok split: prod.splits sum.splits)

lemma Update_index_ok: "index_ok s \<Longrightarrow> index_ok (snd (Update tab now st m s))"
  by (auto simp: Update_def Let_def install_config_index_ok split: sum.splits prod.splits)

lemma SetAccountCooldown_index_ok: "index_ok s \<Longrightarrow> index_ok (snd (SetAccountCooldown tab now st k c u s))"
  by (auto simp: SetAccountCooldown_def Let_def Update_index_ok split: prod.splits)

lemma apply_store_op_index_ok: "index_ok s \<Longrightarrow> index_ok (apply_store_op tab now st op s)"
  by (cases op)
    (auto simp: Replace_def SetAccountDisabled_def ClearAccountCooldown_def Let_def or_same_def
      install_config_index_ok Update_index_ok SetAccountCooldown_index_ok UpdateAccountToken_index_ok
      UpdateAccountTestStatus_def UpdateAccountTestResult_def UpdateAccountSessionCount_def
      split: sum.splits option.splits)

lemma store_reach_index_ok: "store_reach s \<Longrightarrow> index_ok s"
  by (induction rule: store_reach.induct) (auto intro: rebuildIndexes_index_ok apply_store_op_index_ok)

lemma CanonicalMobileKey_TrimSpace [simp]: "CanonicalMobileKey (TrimSpace k) = CanonicalMobileKey k"
  by (simp add: CanonicalMobileKey_def NormalizeMobileForStorage_def extractMobileDigits_def)

lemma install_config_ok:
  assumes "install_config st cfg s = (None, t)"
  shows "\<exists>as. cfgKeys t = cfgKeys cfg \<and> cfgAPIKeys t = cfgAPIKeys cfg \<and> keyMap t = cfgKeys cfg \<and>
     fst st (cfgAccounts cfg) = Inr as \<and> cfgAccounts t = as"
  using assms by (auto simp: install_config_def Config.extend_def split: prod.splits sum.splits)

lemma Update_install:
  "Update tab now st m s = (None, t) \<Longrightarrow> \<exists>c. install_config st (NormalizeCredentials tab now c) s = (None, t)"
  by (auto simp: Update_def Let_def split: sum.splits prod.splits)

lemma filter_is_digit_id: "list_all is_digit ds \<Longrightarrow> filter is_digit ds = ds"
  by (simp add: list_all_iff filter_id_conv)

lemma mobile_has_plus_digits: "list_all is_digit ds \<Longrightarrow> \<not> mobile_has_plus ds"
  by (cases ds) auto

lemma NormalizeMobile_mainland:
  assumes "list_all is_digit d" "isChinaMainlandMobileDigits d"
  shows "NormalizeMobileForStorage d = ''+86'' @ d" "NormalizeMobileForStorage (''86'' @ d) = ''+86'' @ d"
    "NormalizeMobileForStorage (''+86'' @ d) = ''+86'' @ d"
proof -
  have "d \<noteq> ''''" and l: "length d = 11" using assms(2) by (auto simp: isChinaMainlandMobileDigits_def)
  have 86: "list_all is_digit (''86'' @ d)" using assms(1) by (simp add: is_digit_86)
  show "NormalizeMobileForStorage d = ''+86'' @ d"
    using assms \<open>d \<noteq> ''''\<close> l
    by (simp add: NormalizeMobileForStorage_def extractMobileDigits_def TrimSpace_digits filter_is_digit_id
        mobile_has_plus_digits isChinaMobileWithCountryCode_def)
  show "NormalizeMobileForStorage (''86'' @ d) = ''+86'' @ d"
    unfolding NormalizeMobileForStorage_def extractMobileDigits_def
    using assms l TrimSpace_digits [OF 86] filter_is_digit_id [OF 86] mobile_has_plus_digits [OF 86]
    by (simp add: isChinaMobileWithCountryCode_def)
  have "stored_mobile (''+86'' @ d)" using 86 unfolding stored_mobile_def by auto
  then show "NormalizeMobileForStorage (''+86'' @ d) = ''+86'' @ d" by (rule NormalizeMobile_of_stored)
qed

section \<open>Identifiers survive updates\<close>

definition idents :: "Store \<Rightarrow> string set" where
  "idents s = {i. i \<noteq> '''' \<and> (\<exists>a \<in> set (Accounts s). Identifier a = i)}"

definition id_set :: "Account list \<Rightarrow> string set" where
  "id_set as = Identifier ` set as - {''''}"

lemma idents_id_set: "idents s = id_set (cfgAccounts s)"
  by (auto simp: idents_def id_set_def Accounts_def)

text \<open>
  What updates rely on of the account table: it stores the accounts it is given, so that the
  identifiers are the same.
\<close>

definition storage_keeps :: "storage \<Rightarrow> bool" where
  "storage_keeps st \<longleftrightarrow> (\<forall>as bs. fst st as = Inr bs \<longrightarrow> id_set bs = id_set as)"

lemma Identifier_cong: "Email a = Email b \<Longrightarrow> Mobile a = Mobile b \<Longrightarrow> Identifier a = Identifier b"
  by (simp add: Identifier_def NormalizeAccountIdentity_def Let_def)

lemma Identifier_normalize_account [simp]: "Identifier (normalize_account tab now a) = Identifier a"
proof -
  have "Identifier (normalize_account tab now a) = Identifier (NormalizeAccountIdentity a)"
    by (rule Identifier_cong) (simp_all add: normalize_account_def Let_def split: prod.splits)
  then show ?thesis by (simp add: Identifier_normalized)
qed

lemma normalizeAccountConfig_identity:
  "Email (normalizeAccountConfig tab now a) = Email (NormalizeAccountIdentity a)"
  "Mobile (normalizeAccountConfig tab now a) = Mobile (NormalizeAccountIdentity a)"
  by (simp_all add: normalizeAccountConfig_def Let_def split: prod.splits)

lemma Identifier_normalizeAccountConfig [simp]: "Identifier (normalizeAccountConfig tab now a) = Identifier a"
  using Identifier_cong [OF normalizeAccountConfig_identity] by (simp add: Identifier_normalized)

lemma dedupe_key_of_identifier:
  "accountConfigDedupeKey (normalizeAccountConfig tab now a) = '''' \<longleftrightarrow> Identifier a = ''''"
  "accountConfigDedupeKey (normalizeAccountConfig tab now a) = accountConfigDedupeKey (normalizeAccountConfig tab now b) \<Longrightarrow>
     Identifier a = Identifier b"
proof -
  have mob: "Mobile (NormalizeAccountIdentity x) = NormalizeMobileForStorage (Mobile (NormalizeAccountIdentity x))" for x
    by (simp add: NormalizeAccountIdentity_def Let_def)
  have id: "Identifier x = (if TrimSpace (Email (NormalizeAccountIdentity x)) \<noteq> '''' then TrimSpace (Email (NormalizeAccountIdentity x))
     else CanonicalMobileKey (Mobile (NormalizeAccountIdentity x)))" for x
  proof -
    have "CanonicalMobileKey (Mobile (NormalizeAccountIdentity x)) = Mobile (NormalizeAccountIdentity x)"
      using mob [of x] by (simp add: CanonicalMobileKey_def)
    moreover have "TrimSpace (Mobile (NormalizeAccountIdentity x)) = Mobile (NormalizeAccountIdentity x)"
      using mob [of x] by (metis NormalizeMobile_trimmed)
    ultimately show ?thesis by (simp add: Identifier_def Let_def)
  qed
  show "accountConfigDedupeKey (normalizeAccountConfig tab now a) = '''' \<longleftrightarrow> Identifier a = ''''"
    by (simp add: accountConfigDedupeKey_def normalizeAccountConfig_identity id)
  show "accountConfigDedupeKey (normalizeAccountConfig tab now a) = accountConfigDedupeKey (normalizeAccountConfig tab now b) \<Longrightarrow>
     Identifier a = Identifier b"
    by (auto simp: accountConfigDedupeKey_def normalizeAccountConfig_identity id split: if_splits)
qed

lemma dedupe_accounts_from:
  "b \<in> set (dedupe_accounts tab now seen as) \<Longrightarrow> \<exists>a \<in> set as. Identifier b = Identifier a"
  by (induction as arbitrary: seen) (force simp: Let_def split: if_splits)+

lemma dedupe_accounts_keep:
  "a \<in> set as \<Longrightarrow> Identifier a \<noteq> '''' \<Longrightarrow> accountConfigDedupeKey (normalizeAccountConfig tab now a) \<notin> set seen \<Longrightarrow>
     \<exists>b \<in> set (dedupe_accounts tab now seen as). Identifier b = Identifier a"
proof (induction as arbitrary: seen)
  case (Cons x as)
  let ?key = "\<lambda>a. accountConfigDedupeKey (normalizeAccountConfig tab now a)"
  show ?case
  proof (cases "a = x")
    case True
    then show ?thesis using Cons.prems by (simp add: Let_def dedupe_key_of_identifier(1))
  next
    case False
    then have a: "a \<in> set as" using Cons.prems(1) by simp
    show ?thesis
    proof (cases "?key x = '''' \<or> ?key x \<in> set seen")
      case True
      then show ?thesis using Cons.IH [OF a Cons.prems(2,3)] by (simp add: Let_def)
    next
      case False
      note new = this
      show ?thesis
      proof (cases "?key a = ?key x")
        case True
        with new show ?thesis using dedupe_key_of_identifier(2) [OF True] by (simp add: Let_def)
      next
        case False
        with new show ?thesis
          using Cons.IH [OF a Cons.prems(2), of "?key x # seen"] Cons.prems(3) by (auto simp: Let_def)
      qed
    qed
  qed
qed simp

lemma normalizeAndDedupe_ids: "id_set (normalizeAndDedupeAccountConfig tab now as) = id_set as"
proof (rule set_eqI)
  fix i
  let ?d = "dedupe_accounts tab now [] as"
  have "(\<exists>b \<in> set ?d. i = Identifier b) \<longleftrightarrow> (\<exists>a \<in> set as. i = Identifier a)" if "i \<noteq> ''''"
  proof
    assume "\<exists>b \<in> set ?d. i = Identifier b"
    then show "\<exists>a \<in> set as. i = Identifier a" using dedupe_accounts_from by metis
  next
    assume "\<exists>a \<in> set as. i = Identifier a"
    then show "\<exists>b \<in> set ?d. i = Identifier b"
      using dedupe_accounts_keep [of _ as tab now "[]"] that by (metis empty_iff list.set(1))
  qed
  then show "i \<in> id_set (normalizeAndDedupeAccountConfig tab now as) \<longleftrightarrow> i \<in> id_set as"
    unfolding id_set_def normalizeAndDedupeAccountConfig_def image_iff Diff_iff by (cases "i = ''''") simp_all
qed

lemma storage_keeps_db: "storage_keeps (accountsDB_replace tab now err, io)" "storage_keeps (Inr, io)"
  by (auto simp: storage_keeps_def accountsDB_replace_def normalizeAndDedupe_ids split: option.splits)

lemma install_config_ids:
  assumes "storage_keeps st" "id_set (cfgAccounts cfg) = idents s"
  shows "idents (snd (install_config st cfg s)) = idents s"
  using assms
  by (auto simp: install_config_def storage_keeps_def idents_id_set Config.extend_def split: prod.splits sum.splits)

lemma NormalizeCredentials_ids: "id_set (cfgAccounts (NormalizeCredentials tab now c)) = id_set (cfgAccounts c)"
  by (simp add: NormalizeCredentials_def Let_def id_set_def image_image)

lemma Update_ids:
  assumes "storage_keeps st" "\<And>c. mutator (Config.truncate s) = Inr c \<Longrightarrow> id_set (cfgAccounts c) = idents s"
  shows "idents (snd (Update tab now st mutator s)) = idents s"
  using assms by (auto simp: Update_def Let_def split: sum.splits prod.splits
      intro!: install_config_ids simp: NormalizeCredentials_ids)

lemma update_first_match_ids:
  "(\<And>a. Identifier (f a) = Identifier a) \<Longrightarrow> update_first_match k f as = Some bs \<Longrightarrow> id_set bs = id_set as"
proof (induction as arbitrary: bs)
  case (Cons a as)
  have cons: "id_set (x # xs) = ({Identifier x} - {''''}) \<union> id_set xs" for x xs by (auto simp: id_set_def)
  show ?case using Cons by (auto simp: cons split: if_splits)
qed simp

lemma match_mutator_ids:
  assumes "storage_keeps st" "\<And>a. Identifier (f a) = Identifier a"
  shows "idents (snd (Update tab now st (match_mutator k f) s)) = idents s"
  using assms(1)
proof (rule Update_ids)
  fix c assume "match_mutator k f (Config.truncate s) = Inr c"
  then obtain as where "update_first_match k f (cfgAccounts s) = Some as" "cfgAccounts c = as"
    by (auto simp: match_mutator_def Config.truncate_def split: option.splits)
  then show "id_set (cfgAccounts c) = idents s" using update_first_match_ids [OF assms(2)] by (simp add: idents_id_set)
qed

lemma SetAccountDisabled_ids:
  "storage_keeps st \<Longrightarrow> idents (snd (SetAccountDisabled tab now st k d r s)) = idents s"
  unfolding SetAccountDisabled_def by (rule match_mutator_ids) (auto intro: Identifier_cong)

lemma SetAccountCooldown_ids:
  assumes "storage_keeps st"
  shows "idents (snd (SetAccountCooldown tab now st k c u s)) = idents s"
proof -
  have "idents (snd (Update tab now st (match_mutator i (\<lambda>a. a\<lparr>CooldownState := x, CooldownUntilUnix := y\<rparr>)) s)) = idents s" for i x y
    using assms by (rule match_mutator_ids) (auto intro: Identifier_cong)
  then show ?thesis by (simp add: SetAccountCooldown_def Let_def split: prod.splits)
qed

lemma ClearAccountCooldown_ids:
  "storage_keeps st \<Longrightarrow> idents (snd (ClearAccountCooldown tab now st k s)) = idents s"
  using SetAccountCooldown_ids by (auto simp: ClearAccountCooldown_def Let_def)

lemma UpdateAccountToken_ids:
  assumes "index_ok s"
  shows "idents (snd (UpdateAccountToken io k tok s)) = idents s"
proof (cases "findAccountIndexLocked s (TrimSpace k)")
  case None
  then show ?thesis by (simp add: UpdateAccountToken_def)
next
  case (Some i)
  have i: "i < length (cfgAccounts s)" using findAccountIndex_sound [OF assms Some] by simp
  have "map Identifier ((cfgAccounts s)[i := (cfgAccounts s ! i)\<lparr>Token := tok\<rparr>]) = map Identifier (cfgAccounts s)"
    using i by (simp add: map_update list_update_same_conv)
  from arg_cong [OF this, of set] show ?thesis
    by (simp add: UpdateAccountToken_found [OF Some] idents_id_set id_set_def)
qed

section \<open>Properties\<close>

text \<open>A store with an e-mail account and an account given by a mobile number.\<close>

definition sample_store :: Store where
  "sample_store = rebuildIndexes \<lparr>cfgKeys = [''key-1''], cfgAPIKeys = [], cfgAccounts =
     [empty_account\<lparr>Email := ''a@b.c'', Token := ''t1''\<rparr>, empty_account\<lparr>Mobile := ''138-1234 5678''\<rparr>],
     cfgModelAliases = [], cfgAccountMaxInflight = 0, cfgAccountMaxQueue = 0, cfgGlobalMaxInflight = 0,
     cfgTokenRefreshIntervalHours = 0, keyMap = [], accMap = [], accTest = [], accTestResult = [], accSess = []\<rparr>"

lemma sample_store_reach: "store_reach sample_store"
  unfolding sample_store_def by (rule store_reach.loaded)

lemma sample_identifiers:
  "Identifier (empty_account\<lparr>Email := ''a@b.c''\<rparr>) = ''a@b.c''"
  "Identifier (empty_account\<lparr>Mobile := ''138-1234 5678''\<rparr>) = ''+8613812345678''"
  "CanonicalMobileKey ''+86 13812345678'' = ''+8613812345678''"
  "TrimSpace '' +86 13812345678'' = ''+86 13812345678''"
  "TrimSpace ''a@b.c'' = ''a@b.c''" "CanonicalMobileKey ''a@b.c'' = ''''"
  by code_simp+

lemma sample_store_find:
  "FindAccount sample_store '' +86 13812345678'' = Some (empty_account\<lparr>Mobile := ''138-1234 5678''\<rparr>)"
  "FindAccount sample_store ''a@b.c'' = Some (empty_account\<lparr>Email := ''a@b.c'', Token := ''t1''\<rparr>)"
  by (simp_all add: sample_store_def FindAccount_def findAccountIndexLocked_def lookup_candidates_def
      rebuildIndexes_def rebuild_fold_accMap rebuild_fold_simps sample_identifiers)

text \<open>C21: Looking an account up. In every store reachable by loading a configuration and any sequence of
  updates, replacements, disablings, cooldowns, token and test-result writes, \<^verbatim>\<open>FindAccount\<close> with an
  account's identifier returns an account with that identifier (the account itself when
  identifiers are distinct), and whatever it returns for any query is a configured account whose
  identifier is the trimmed query or the query read as a mobile number.\<close>
theorem find_account_correct:
  assumes "store_reach s"
  shows "(\<forall>a \<in> set (Accounts s). Identifier a \<noteq> '''' \<longrightarrow>
            (\<exists>b. FindAccount s (Identifier a) = Some b \<and> Identifier b = Identifier a \<and>
                 (distinct (map Identifier (Accounts s)) \<longrightarrow> b = a))) \<and>
         (\<forall>k c. FindAccount s k = Some c \<longrightarrow>
            c \<in> set (Accounts s) \<and> (Identifier c = TrimSpace k \<or> Identifier c = CanonicalMobileKey k))"
proof -
  have ok: "index_ok s" using assms by (rule store_reach_index_ok)
  have "FindAccount s k = Some c \<Longrightarrow>
          c \<in> set (Accounts s) \<and> (Identifier c = TrimSpace k \<or> Identifier c = CanonicalMobileKey k)" for k c
    using FindAccount_sound [OF ok, of k c] by (auto simp: lookup_candidates_def Let_def split: if_splits)
  then show ?thesis
    using dir.find_unique [OF ok] dir.find_ident [OF ok] by (metis dir.unambiguous_def option.inject)
qed

theorem find_account_correct_witness:
  "Identifier (empty_account\<lparr>Mobile := ''138-1234 5678''\<rparr>) = CanonicalMobileKey '' +86 13812345678''"
proof -
  have "Identifier (empty_account\<lparr>Mobile := ''138-1234 5678''\<rparr>) \<noteq> TrimSpace '' +86 13812345678'' \<or>
    Identifier (empty_account\<lparr>Mobile := ''138-1234 5678''\<rparr>) = CanonicalMobileKey '' +86 13812345678''"
    by code_simp
  then show ?thesis
    using find_account_correct [OF sample_store_reach] sample_store_find by blast
qed

text \<open>C35: Writing a token and reading it back. In a reachable store, after \<^verbatim>\<open>UpdateAccountToken\<close> for a
  query that finds an account, the same query finds that account with the new token and
  nothing else changed, every other account is untouched, and the store stays reachable; a query that
  finds nothing is reported and changes nothing.\<close>
theorem token_update_read_back:
  assumes "store_reach s"
  shows "case FindAccount s k of
      None \<Rightarrow> UpdateAccountToken io k tok s = (Some AccountNotFound, s)
    | Some a \<Rightarrow>
        (let (e, t) = UpdateAccountToken io k tok s in
           e = map_option StorageFailed io \<and> FindAccount t k = Some (a\<lparr>Token := tok\<rparr>) \<and>
           length (Accounts t) = length (Accounts s) \<and> index_ok t \<and>
           (\<exists>i < length (Accounts s). Accounts s ! i = a \<and>
              (\<forall>j < length (Accounts s). j \<noteq> i \<longrightarrow> Accounts t ! j = Accounts s ! j)))"
proof (cases "findAccountIndexLocked s (TrimSpace k)")
  case None
  then show ?thesis by (simp add: FindAccount_def UpdateAccountToken_def)
next
  case (Some i)
  have ok: "index_ok s" using assms by (rule store_reach_index_ok)
  have f: "FindAccount s k = Some (cfgAccounts s ! i)" using Some by (simp add: FindAccount_def)
  have "i < length (cfgAccounts s)" using findAccountIndex_sound [OF ok Some] by simp
  then show ?thesis
    using UpdateAccountToken_lookup [OF ok f, of io tok] UpdateAccountToken_index_ok [OF ok, of io k tok]
    by (auto simp: f UpdateAccountToken_found [OF Some] Accounts_def Let_def)
qed

theorem token_update_read_back_witness:
  "FindAccount (snd (UpdateAccountToken None ''a@b.c'' ''t2'' sample_store)) ''a@b.c'' =
     Some (empty_account\<lparr>Email := ''a@b.c'', Token := ''t2''\<rparr>)"
proof -
  note sample_store_find(2)
  with token_update_read_back [OF sample_store_reach, where k = "''a@b.c''" and io = None and tok = "''t2''"]
  show ?thesis by (auto simp: Let_def split: prod.splits)
qed

text \<open>API keys after a configuration change. When \<^verbatim>\<open>Update\<close> or \<^verbatim>\<open>Replace\<close> succeeds, the accepted
  keys are exactly the keys of the API-key records, without duplicates, without surrounding
  white space and without the empty key; \<^verbatim>\<open>HasAPIKey\<close> accepts exactly them, so it never accepts the
  empty key. A failing mutator or account table leaves the store unchanged.\<close>
theorem config_change_keys:
  "(case mutator (Config.truncate s) of Inl e \<Rightarrow> Update tab now st mutator s = (Some e, s) | Inr c \<Rightarrow> True) \<and>
   (Update tab now st mutator s = (None, t) \<or> Replace tab now st cfg s = (None, t) \<longrightarrow>
     Keys t = map Key (cfgAPIKeys t) \<and> distinct (Keys t) \<and>
     (\<forall>k. HasAPIKey t k \<longleftrightarrow> k \<in> Key ` set (cfgAPIKeys t)) \<and>
     (\<forall>k. HasAPIKey t k \<longrightarrow> k \<noteq> '''' \<and> TrimSpace k = k))"
proof -
  have "install_config st (NormalizeCredentials tab now c) s = (None, t) \<Longrightarrow>
     Keys t = map Key (cfgAPIKeys t) \<and> clean_keys (Keys t) \<and> keyMap t = Keys t" for c
    using install_config_ok [of st "NormalizeCredentials tab now c" s t] NormalizeCredentials_keys [of tab now c]
    by (auto simp: Keys_def)
  then have "Update tab now st mutator s = (None, t) \<or> Replace tab now st cfg s = (None, t) \<Longrightarrow>
     Keys t = map Key (cfgAPIKeys t) \<and> clean_keys (Keys t) \<and> keyMap t = Keys t"
    using Update_install [of tab now st mutator s t] unfolding Replace_def by metis
  then show ?thesis
    by (auto simp: HasAPIKey_def clean_keys_def Update_def Let_def split: sum.splits)
qed

theorem config_change_keys_witness:
  "distinct (Keys (snd (Replace id 0 (Inr, None) (Config.truncate sample_store) sample_store)))"
proof -
  let ?r = "Replace id 0 (Inr, None) (Config.truncate sample_store) sample_store"
  have "?r = (None, snd ?r)" by (simp add: Replace_def install_config_def)
  then show ?thesis
    using config_change_keys [where s = sample_store and tab = id and now = 0 and st = "(Inr, None)" and t = "snd ?r"
        and cfg = "Config.truncate sample_store"]
    by blast
qed

text \<open>One spelling per mobile number. Normalising is idempotent, yields the empty string or a plus
  sign followed by digits, ignores surrounding white space, and maps an eleven-digit mainland number
  with no prefix, with 86 and with +86 to the same spelling.\<close>
theorem mobile_normal_form:
  "NormalizeMobileForStorage (NormalizeMobileForStorage raw) = NormalizeMobileForStorage raw \<and>
   (NormalizeMobileForStorage raw = '''' \<or>
    (\<exists>ds. ds \<noteq> '''' \<and> list_all is_digit ds \<and> NormalizeMobileForStorage raw = ''+'' @ ds)) \<and>
   NormalizeMobileForStorage (TrimSpace raw) = NormalizeMobileForStorage raw \<and>
   (list_all is_digit d \<and> isChinaMainlandMobileDigits d \<longrightarrow>
      NormalizeMobileForStorage d = ''+86'' @ d \<and> NormalizeMobileForStorage (''86'' @ d) = ''+86'' @ d \<and>
      NormalizeMobileForStorage (''+86'' @ d) = ''+86'' @ d)"
  using NormalizeMobile_stored [of raw] NormalizeMobile_mainland [of d] CanonicalMobileKey_TrimSpace [of raw]
  unfolding stored_mobile_def CanonicalMobileKey_def by simp

theorem mobile_normal_form_witness:
  "NormalizeMobileForStorage ''8613812345678'' = NormalizeMobileForStorage ''13812345678''"
proof -
  have "list_all is_digit ''13812345678'' \<and> isChinaMainlandMobileDigits ''13812345678''" by code_simp
  then show ?thesis using mobile_normal_form [of "''''" "''13812345678''"] by simp
qed

text \<open>
  Matching an identifier reads it as a mobile number whatever its shape. An e-mail address whose
  only digits are a mainland number matches the account with that mobile number, and disabling
  the e-mail account disables the other one when it comes first.
\<close>

definition collision_accounts :: "Account list" where
  "collision_accounts = [empty_account\<lparr>Mobile := ''+8613812345678''\<rparr>, empty_account\<lparr>Email := ''13812345678@qq.com''\<rparr>]"

lemma disable_reaches_other_account:
  "map Disabled (the (update_first_match ''13812345678@qq.com'' (\<lambda>a. a\<lparr>Disabled := True\<rparr>) collision_accounts)) = [True, False]"
  by code_simp

end
