(* ===== verification/Account_Pool.thy ===== *)
theory Account_Pool
  imports Account_Store Affinity "HOL-Library.Char_ord" "HOL-Library.List_Lexorder" "HOL-Library.Multiset"
begin

text \<open>
  The account pool, \<^verbatim>\<open>internal/account/pool_*.go\<close> and \<^verbatim>\<open>health.go\<close>: a rotating queue of account
  identifiers, in-flight counters with a per-account and a global limit, a FIFO of parked
  requests, and the health state of accounts. A channel is a number; \<open>closed\<close> collects the
  channels on which \<^verbatim>\<open>close\<close> was called. Counters are far below the 64-bit range and are integers.
\<close>

section \<open>State\<close>

record Health =
  hState :: string
  hUntil :: time
  hReason :: string
  hUpdatedAt :: time

definition HealthHealthy :: string where "HealthHealthy = ''healthy''"
definition HealthDisabled :: string where "HealthDisabled = ''disabled''"
definition HealthRateLimited :: string where "HealthRateLimited = ''rate_limited''"
definition HealthTemporarilyMuted :: string where "HealthTemporarilyMuted = ''temporarily_muted''"
definition HealthInvalidCredentials :: string where "HealthInvalidCredentials = ''invalid_credentials''"
definition HealthPermanentlyBanned :: string where "HealthPermanentlyBanned = ''permanently_banned''"

definition defaultMuteCooldown :: int where "defaultMuteCooldown = 7 * 24 * hour_ns"
definition defaultRateLimitCooldown :: int where "defaultRateLimitCooldown = minute_ns"

record Pool =
  store :: Store
  queue :: "string list"
  inUse :: "(string, int) gomap"
  waiters :: "nat list"
  closed :: "nat list"
  nextChan :: nat
  health :: "(string, Health) gomap"
  maxInflightPerAccount :: int
  recommendedConcurrency :: int
  maxQueueSize :: int
  globalMaxInflight :: int
  affinity :: Affinity

section \<open>Waiters\<close>

definition canQueueLocked :: "string \<Rightarrow> string list \<Rightarrow> Pool \<Rightarrow> bool" where
  "canQueueLocked target exclude p \<longleftrightarrow>
     (target \<noteq> '''' \<longrightarrow> target \<notin> set exclude \<and> FindAccount (store p) target \<noteq> None) \<and>
     0 < maxQueueSize p \<and> int (length (waiters p)) < maxQueueSize p"

definition notifyWaiterLocked :: "Pool \<Rightarrow> Pool" where
  "notifyWaiterLocked p = (case waiters p of
     [] \<Rightarrow> p | w # ws \<Rightarrow> p\<lparr>waiters := ws, closed := w # closed p\<rparr>)"

definition removeWaiterLocked :: "nat \<Rightarrow> Pool \<Rightarrow> bool \<times> Pool" where
  "removeWaiterLocked w p = (w \<in> set (waiters p), p\<lparr>waiters := remove1 w (waiters p)\<rparr>)"

definition drainWaitersLocked :: "Pool \<Rightarrow> Pool" where
  "drainWaitersLocked p = p\<lparr>waiters := [], closed := rev (waiters p) @ closed p\<rparr>"

section \<open>Health\<close>

definition isTransientHealth :: "string \<Rightarrow> bool" where
  "isTransientHealth state \<longleftrightarrow> state = HealthTemporarilyMuted \<or> state = HealthRateLimited"

definition health_expired :: "time \<Rightarrow> Health \<Rightarrow> bool" where
  "health_expired now h \<longleftrightarrow> isTransientHealth (hState h) \<and> \<not> now < hUntil h"

definition accountHealthLocked :: "time \<Rightarrow> string \<Rightarrow> Pool \<Rightarrow> Health option \<times> Pool" where
  "accountHealthLocked now accountID p = (case gm_get (health p) accountID of
     None \<Rightarrow> (None, p)
   | Some h \<Rightarrow> if health_expired now h then (None, p\<lparr>health := gm_del accountID (health p)\<rparr>) else (Some h, p))"

definition AccountHealth :: "time \<Rightarrow> string \<Rightarrow> Pool \<Rightarrow> Health option \<times> Pool" where
  "AccountHealth now accountID p = (if accountID = '''' then (None, p) else accountHealthLocked now accountID p)"

definition setHealthLocked :: "string \<Rightarrow> Health \<Rightarrow> Pool \<Rightarrow> Pool" where
  "setHealthLocked accountID h p = p\<lparr>health := gm_set accountID h (health p)\<rparr>"

definition ClearHealth :: "string \<Rightarrow> Pool \<Rightarrow> Pool" where
  "ClearHealth accountID p = (if accountID = '''' then p
     else notifyWaiterLocked (p\<lparr>health := gm_del accountID (health p)\<rparr>))"

definition forgetAffinity :: "string \<Rightarrow> Pool \<Rightarrow> Pool" where
  "forgetAffinity accountID p = p\<lparr>affinity := ForgetAccount accountID (affinity p)\<rparr>"

definition markTransientAccount :: "time \<Rightarrow> string \<Rightarrow> string \<Rightarrow> time \<Rightarrow> string \<Rightarrow> Pool \<Rightarrow> Pool" where
  "markTransientAccount now accountID state until reason p =
     (if accountID = '''' then p
      else if \<not> now < until then ClearHealth accountID p
      else notifyWaiterLocked (forgetAffinity accountID
             (setHealthLocked accountID \<lparr>hState = state, hUntil = until, hReason = reason, hUpdatedAt = now\<rparr> p)))"

definition MarkRateLimited :: "time \<Rightarrow> string \<Rightarrow> time \<Rightarrow> string \<Rightarrow> Pool \<Rightarrow> Pool" where
  "MarkRateLimited now accountID until reason =
     markTransientAccount now accountID HealthRateLimited
       (if until = zero_time then now + defaultRateLimitCooldown else until) reason"

definition MarkTemporaryMute :: "time \<Rightarrow> string \<Rightarrow> time \<Rightarrow> string \<Rightarrow> Pool \<Rightarrow> Pool" where
  "MarkTemporaryMute now accountID until reason =
     markTransientAccount now accountID HealthTemporarilyMuted
       (if until = zero_time then now + defaultMuteCooldown else until) reason"

definition markBlockedAccount :: "time \<Rightarrow> string \<Rightarrow> string \<Rightarrow> string \<Rightarrow> Pool \<Rightarrow> Pool" where
  "markBlockedAccount now accountID state reason p =
     (if accountID = '''' then p
      else notifyWaiterLocked (forgetAffinity accountID
             (setHealthLocked accountID \<lparr>hState = state, hUntil = zero_time, hReason = reason, hUpdatedAt = now\<rparr> p)))"

definition MarkPermanentlyBanned :: "time \<Rightarrow> string \<Rightarrow> string \<Rightarrow> Pool \<Rightarrow> Pool" where
  "MarkPermanentlyBanned now accountID reason = markBlockedAccount now accountID HealthPermanentlyBanned reason"

definition MarkInvalidCredentials :: "time \<Rightarrow> string \<Rightarrow> string \<Rightarrow> Pool \<Rightarrow> Pool" where
  "MarkInvalidCredentials now accountID reason = markBlockedAccount now accountID HealthInvalidCredentials reason"

section \<open>Limits\<close>

definition maxInflightFromEnv :: "(string \<Rightarrow> string) \<Rightarrow> int" where
  "maxInflightFromEnv getenv =
     (case env_positive getenv ''DEEPSEEK_WEB_TO_API_ACCOUNT_MAX_INFLIGHT'' of Some n \<Rightarrow> n | None \<Rightarrow> 2)"

definition maxQueueFromEnv :: "(string \<Rightarrow> string) \<Rightarrow> int \<Rightarrow> int" where
  "maxQueueFromEnv getenv defaultSize =
     (case env_nonnegative getenv ''DEEPSEEK_WEB_TO_API_ACCOUNT_MAX_QUEUE'' of
        Some n \<Rightarrow> n | None \<Rightarrow> if defaultSize < 0 then 0 else defaultSize)"

definition defaultRecommendedConcurrency :: "int \<Rightarrow> int \<Rightarrow> int" where
  "defaultRecommendedConcurrency accountCount maxPer =
     (if accountCount \<le> 0 then 0 else accountCount * (if maxPer \<le> 0 then 2 else maxPer))"

definition currentInUseLocked :: "Pool \<Rightarrow> int" where
  "currentInUseLocked p = gm_sum (inUse p)"

definition canAcquireIDLocked :: "time \<Rightarrow> string \<Rightarrow> Pool \<Rightarrow> bool \<times> Pool" where
  "canAcquireIDLocked now accountID p =
     (if accountID = '''' then (False, p)
      else case FindAccount (store p) accountID of
        None \<Rightarrow> (False, p)
      | Some acc \<Rightarrow>
          if Disabled acc then (False, p)
          else (case accountHealthLocked now accountID p of
              (Some h, p1) \<Rightarrow> (False, p1)
            | (None, p1) \<Rightarrow>
                if maxInflightPerAccount p1 \<le> gm_count (inUse p1) accountID then (False, p1)
                else if 0 < globalMaxInflight p1 \<and> globalMaxInflight p1 \<le> currentInUseLocked p1 then (False, p1)
                else (True, p1)))"

definition ApplyRuntimeLimits :: "int \<Rightarrow> int \<Rightarrow> int \<Rightarrow> Pool \<Rightarrow> Pool" where
  "ApplyRuntimeLimits maxPer0 maxQueue0 global0 p =
     (let maxPer = (if maxPer0 \<le> 0 then 1 else maxPer0);
          maxQueue = (if maxQueue0 < 0 then 0 else maxQueue0);
          accountCount = int (length (Accounts (store p)));
          global = (if 0 < global0 then global0
                    else if maxPer * accountCount \<le> 0 then maxPer else maxPer * accountCount)
      in notifyWaiterLocked (p\<lparr>maxInflightPerAccount := maxPer, maxQueueSize := maxQueue,
           globalMaxInflight := global,
           recommendedConcurrency := defaultRecommendedConcurrency (int (length (queue p))) maxPer\<rparr>))"

section \<open>Acquiring and releasing\<close>

definition bumpQueue :: "string \<Rightarrow> string list \<Rightarrow> string list" where
  "bumpQueue accountID q = (if accountID \<in> set q then remove1 accountID q @ [accountID] else q)"

definition take_slot :: "string \<Rightarrow> Pool \<Rightarrow> Pool" where
  "take_slot accountID p = p\<lparr>inUse := gm_set accountID (gm_count (inUse p) accountID + 1) (inUse p),
     queue := bumpQueue accountID (queue p)\<rparr>"

fun try_ids :: "time \<Rightarrow> string list \<Rightarrow> string list \<Rightarrow> Pool \<Rightarrow> Account option \<times> Pool" where
  "try_ids now exclude [] p = (None, p)"
| "try_ids now exclude (i # ids) p =
     (if i \<in> set exclude then try_ids now exclude ids p
      else case canAcquireIDLocked now i p of
        (False, p1) \<Rightarrow> try_ids now exclude ids p1
      | (True, p1) \<Rightarrow> (case FindAccount (store p1) i of
          None \<Rightarrow> try_ids now exclude ids p1
        | Some acc \<Rightarrow> (Some acc, take_slot i p1)))"

definition tryAcquire :: "time \<Rightarrow> string list \<Rightarrow> Pool \<Rightarrow> Account option \<times> Pool" where
  "tryAcquire now exclude p = try_ids now exclude (queue p) p"

definition acquireLocked :: "time \<Rightarrow> string \<Rightarrow> string list \<Rightarrow> Pool \<Rightarrow> Account option \<times> Pool" where
  "acquireLocked now target exclude p =
     (if target \<noteq> '''' then
        if target \<in> set exclude then (None, p)
        else case canAcquireIDLocked now target p of
          (False, p1) \<Rightarrow> (None, p1)
        | (True, p1) \<Rightarrow> (case FindAccount (store p1) target of
            None \<Rightarrow> (None, p1) | Some acc \<Rightarrow> (Some acc, take_slot target p1))
      else tryAcquire now exclude p)"

definition acquirePreferredLocked :: "time \<Rightarrow> string \<Rightarrow> string list \<Rightarrow> Pool \<Rightarrow> Account option \<times> Pool" where
  "acquirePreferredLocked now preferred exclude p =
     (if preferred \<noteq> '''' then (case acquireLocked now preferred exclude p of
          (Some acc, p1) \<Rightarrow> (Some acc, p1) | (None, p1) \<Rightarrow> tryAcquire now exclude p1)
      else tryAcquire now exclude p)"

definition Acquire :: "time \<Rightarrow> string \<Rightarrow> string list \<Rightarrow> Pool \<Rightarrow> Account option \<times> Pool" where
  "Acquire = acquireLocked"

definition Release :: "string \<Rightarrow> Pool \<Rightarrow> Pool" where
  "Release accountID p =
     (if accountID = '''' then p
      else let count = gm_count (inUse p) accountID in
        if count \<le> 0 then p
        else if count = 1 then notifyWaiterLocked (p\<lparr>inUse := gm_del accountID (inUse p)\<rparr>)
        else notifyWaiterLocked (p\<lparr>inUse := gm_set accountID (count - 1) (inUse p)\<rparr>))"

definition AccountInUse :: "string \<Rightarrow> Pool \<Rightarrow> bool" where
  "AccountInUse accountID p \<longleftrightarrow> accountID \<noteq> '''' \<and> 0 < gm_count (inUse p) accountID"

section \<open>Initialising and resetting\<close>

definition persistedCooldownHealth :: "time \<Rightarrow> Account \<Rightarrow> Health option" where
  "persistedCooldownHealth now acc =
     (let until = time_unix (CooldownUntilUnix acc); state = CooldownState acc in
      if \<not> now < until then None
      else if state \<noteq> HealthRateLimited \<and> state \<noteq> HealthTemporarilyMuted then None
      else Some \<lparr>hState = state, hUntil = until, hReason = ''restored persisted cooldown'', hUpdatedAt = now\<rparr>)"

text \<open>
  \<^verbatim>\<open>sort.SliceStable\<close> with the token comparison puts the accounts with a token first and keeps
  the order otherwise: within equal keys the comparison only holds for ascending positions, and the
  stable sort compares a later element with an earlier one.
\<close>

definition reset_accounts :: "Store \<Rightarrow> Account list" where
  "reset_accounts s = filter (\<lambda>a. \<not> Disabled a \<and> Identifier a \<noteq> '''')
     (sort_key (\<lambda>a. if Token a \<noteq> '''' then 0 else 1 :: nat) (Accounts s))"

definition reset_persisted :: "time \<Rightarrow> Account list \<Rightarrow> (string, Health) gomap" where
  "reset_persisted now accs = fold (\<lambda>a m. case persistedCooldownHealth now a of
     Some h \<Rightarrow> gm_set (Identifier a) h m | None \<Rightarrow> m) accs []"

definition reset_health :: "time \<Rightarrow> string list \<Rightarrow> (string, Health) gomap \<Rightarrow> (string, Health) gomap \<Rightarrow> (string, Health) gomap" where
  "reset_health now ids persisted old = fold (\<lambda>(i, h). gm_set i h) persisted
     (filter (\<lambda>(i, h). i \<in> set ids \<and> \<not> (gm_get persisted i = None \<and> health_expired now h))
        (map (\<lambda>(i, h). (i, case gm_get persisted i of Some h' \<Rightarrow> h' | None \<Rightarrow> h)) old))"

definition Reset :: "(string \<Rightarrow> string) \<Rightarrow> time \<Rightarrow> Pool \<Rightarrow> Pool" where
  "Reset getenv now p =
     (let accs = reset_accounts (store p); ids = map Identifier accs; persisted = reset_persisted now accs;
          maxPer = RuntimeAccountMaxInflight getenv (store p);
          recommended = defaultRecommendedConcurrency (int (length ids)) maxPer
      in (drainWaitersLocked p)\<lparr>queue := ids, inUse := [],
           health := reset_health now ids persisted (health p),
           maxInflightPerAccount := maxPer, recommendedConcurrency := recommended,
           maxQueueSize := RuntimeAccountMaxQueue getenv (store p) recommended,
           globalMaxInflight := RuntimeGlobalMaxInflight getenv (store p) recommended\<rparr>)"

definition NewPool :: "(string \<Rightarrow> string) \<Rightarrow> time \<Rightarrow> Store \<Rightarrow> Pool" where
  "NewPool getenv now s = Reset getenv now \<lparr>store = s, queue = [], inUse = [], waiters = [], closed = [], nextChan = 0,
     health = [], maxInflightPerAccount = RuntimeAccountMaxInflight getenv s, recommendedConcurrency = 0,
     maxQueueSize = 0, globalMaxInflight = 0, affinity = NewAffinity getenv\<rparr>"

section \<open>What an attempt sees and changes\<close>

text \<open>The health entries that still count at a time; reading the health purges the others.\<close>

definition health_view :: "time \<Rightarrow> Pool \<Rightarrow> string \<Rightarrow> Health option" where
  "health_view now p i = (case gm_get (health p) i of
     Some h \<Rightarrow> if health_expired now h then None else Some h | None \<Rightarrow> None)"

definition purged :: "time \<Rightarrow> Pool \<Rightarrow> Pool \<Rightarrow> bool" where
  "purged now p q \<longleftrightarrow> q = p\<lparr>health := health q\<rparr> \<and> health_view now q = health_view now p"

definition eligible :: "time \<Rightarrow> Pool \<Rightarrow> string \<Rightarrow> bool" where
  "eligible now p i \<longleftrightarrow> i \<noteq> '''' \<and> (\<exists>acc. FindAccount (store p) i = Some acc \<and> \<not> Disabled acc) \<and>
     health_view now p i = None \<and> gm_count (inUse p) i < maxInflightPerAccount p \<and>
     (0 < globalMaxInflight p \<longrightarrow> gm_sum (inUse p) < globalMaxInflight p)"

lemma purged_refl [simp]: "purged now p p"
  by (simp add: purged_def)

lemma purged_fields:
  assumes "purged now p q"
  shows "store q = store p" "queue q = queue p" "inUse q = inUse p" "waiters q = waiters p" "closed q = closed p"
    "nextChan q = nextChan p" "maxInflightPerAccount q = maxInflightPerAccount p"
    "maxQueueSize q = maxQueueSize p" "globalMaxInflight q = globalMaxInflight p" "affinity q = affinity p"
    "recommendedConcurrency q = recommendedConcurrency p"
  using assms unfolding purged_def by (metis Pool.select_convs Pool.surjective Pool.update_convs)+

lemma purged_trans: "purged now p q \<Longrightarrow> purged now q r \<Longrightarrow> purged now p r"
  unfolding purged_def by (metis Pool.surjective Pool.update_convs(7))

lemma purged_eligible: "purged now p q \<Longrightarrow> eligible now q i = eligible now p i"
  by (simp add: eligible_def purged_fields) (simp add: purged_def)

lemma accountHealthLocked_view:
  "fst (accountHealthLocked now i p) = health_view now p i \<and> purged now p (snd (accountHealthLocked now i p))"
  by (auto simp: accountHealthLocked_def health_view_def purged_def fun_eq_iff gm_get_del split: option.splits)

lemma canAcquireIDLocked_spec:
  "fst (canAcquireIDLocked now i p) = eligible now p i \<and> purged now p (snd (canAcquireIDLocked now i p))"
proof -
  obtain r q where h: "accountHealthLocked now i p = (r, q)" by fastforce
  then have q: "r = health_view now p i" "purged now p q" using accountHealthLocked_view [of now i p] by auto
  show ?thesis
    using q purged_fields [OF q(2)]
    by (auto simp: canAcquireIDLocked_def eligible_def h currentInUseLocked_def split: option.splits)
qed

definition candidate :: "time \<Rightarrow> string list \<Rightarrow> Pool \<Rightarrow> string \<Rightarrow> bool" where
  "candidate now exclude p i \<longleftrightarrow> i \<notin> set exclude \<and> eligible now p i"

definition attempt_result :: "time \<Rightarrow> Pool \<Rightarrow> string option \<Rightarrow> Account option \<times> Pool \<Rightarrow> bool" where
  "attempt_result now p choice r = (case choice of
     None \<Rightarrow> fst r = None \<and> purged now p (snd r)
   | Some i \<Rightarrow> \<exists>acc p1. FindAccount (store p) i = Some acc \<and> \<not> Disabled acc \<and> purged now p p1 \<and> r = (Some acc, take_slot i p1))"

lemma attempt_result_purged: "purged now p q \<Longrightarrow> attempt_result now q c r \<Longrightarrow> attempt_result now p c r"
  by (auto simp: attempt_result_def purged_fields split: option.splits intro: purged_trans)

lemma attempt_one:
  assumes "eligible now p i"
  shows "\<exists>acc. FindAccount (store (snd (canAcquireIDLocked now i p))) i = Some acc \<and>
     attempt_result now p (Some i) (Some acc, take_slot i (snd (canAcquireIDLocked now i p)))"
  using assms canAcquireIDLocked_spec [of now i p] purged_fields(1) [of now p "snd (canAcquireIDLocked now i p)"]
  by (auto simp: attempt_result_def eligible_def)

lemma try_ids_spec: "attempt_result now p (List.find (candidate now exclude p) ids) (try_ids now exclude ids p)"
proof (induction ids arbitrary: p)
  case Nil
  then show ?case by (simp add: attempt_result_def)
next
  case (Cons i ids)
  obtain b q where c: "canAcquireIDLocked now i p = (b, q)" by fastforce
  then have b: "b = eligible now p i" and q: "purged now p q" using canAcquireIDLocked_spec [of now i p] by auto
  have cand: "candidate now exclude q = candidate now exclude p"
    by (simp add: fun_eq_iff candidate_def purged_eligible [OF q])
  show ?case
    using Cons.IH [of p] attempt_result_purged [OF q Cons.IH [of q]] attempt_one [of now p i] b
    by (auto simp: c cand candidate_def)
qed

lemma tryAcquire_spec:
  "attempt_result now p (List.find (candidate now exclude p) (queue p)) (tryAcquire now exclude p)"
  by (simp add: tryAcquire_def try_ids_spec)

definition acquire_choice :: "time \<Rightarrow> string \<Rightarrow> string list \<Rightarrow> Pool \<Rightarrow> string option" where
  "acquire_choice now target exclude p =
     (if target = '''' then List.find (candidate now exclude p) (queue p)
      else if candidate now exclude p target then Some target else None)"

lemma acquireLocked_spec:
  "attempt_result now p (acquire_choice now target exclude p) (acquireLocked now target exclude p)"
proof (cases "target = ''''")
  case True
  then show ?thesis using tryAcquire_spec by (simp add: acquire_choice_def acquireLocked_def)
next
  case False
  obtain b q where c: "canAcquireIDLocked now target p = (b, q)" by fastforce
  then have b: "b = eligible now p target" and q: "purged now p q"
    using canAcquireIDLocked_spec [of now target p] by auto
  show ?thesis
    using attempt_one [of now p target] b q False
    by (auto simp: acquireLocked_def acquire_choice_def candidate_def c) (auto simp: attempt_result_def)
qed

lemma acquirePreferredLocked_spec:
  "attempt_result now p
     (if preferred \<noteq> '''' \<and> candidate now exclude p preferred then Some preferred
      else List.find (candidate now exclude p) (queue p))
     (acquirePreferredLocked now preferred exclude p)"
proof -
  obtain r q where a: "acquireLocked now preferred exclude p = (r, q)" by fastforce
  have s: "attempt_result now p (acquire_choice now preferred exclude p) (r, q)"
    using acquireLocked_spec [of now p preferred exclude] a by simp
  show ?thesis
  proof (cases "preferred \<noteq> '''' \<and> candidate now exclude p preferred")
    case True
    with s show ?thesis by (auto simp: acquirePreferredLocked_def a acquire_choice_def attempt_result_def)
  next
    case False
    show ?thesis
    proof (cases "preferred = ''''")
      case True
      then show ?thesis using tryAcquire_spec by (simp add: acquirePreferredLocked_def)
    next
      case ne: False
      with s False have r: "r = None" and q: "purged now p q" by (auto simp: acquire_choice_def attempt_result_def)
      have "candidate now exclude q = candidate now exclude p"
        by (simp add: fun_eq_iff candidate_def purged_eligible [OF q])
      then have "attempt_result now p (List.find (candidate now exclude p) (queue p)) (tryAcquire now exclude q)"
        using attempt_result_purged [OF q tryAcquire_spec [of now q exclude]] purged_fields(2) [OF q] by simp
      then show ?thesis using False ne by (simp add: acquirePreferredLocked_def a r)
    qed
  qed
qed

section \<open>Concurrent requests\<close>

text \<open>
  \<^verbatim>\<open>AcquireWait\<close> and \<^verbatim>\<open>AcquireWaitPreferred\<close> as a step relation: a request is about to try, is parked
  on a channel, holds an account under the identifier it will release, or has ended. Each step is
  one critical section of the pool's mutex; a parked request continues when its channel is closed
  or its context is cancelled, and when both are ready the select picks either.
\<close>

record Request =
  rTarget :: string
  rPreferred :: bool
  rExclude :: "string list"

datatype request_state = Trying Request | Parked Request nat | Holding string | Ended

definition attempt_acquire :: "time \<Rightarrow> Request \<Rightarrow> Pool \<Rightarrow> Account option \<times> Pool" where
  "attempt_acquire now r = (if rPreferred r then acquirePreferredLocked now (rTarget r) (rExclude r)
     else acquireLocked now (rTarget r) (rExclude r))"

definition attempt_queue_target :: "Request \<Rightarrow> string" where
  "attempt_queue_target r = (if rPreferred r then '''' else rTarget r)"

definition AcquireWait_section :: "time \<Rightarrow> Request \<Rightarrow> Pool \<Rightarrow> request_state \<times> Pool" where
  "AcquireWait_section now r p = (case attempt_acquire now r p of
     (Some acc, p1) \<Rightarrow> (Holding (Identifier acc), p1)
   | (None, p1) \<Rightarrow>
       if \<not> canQueueLocked (attempt_queue_target r) (rExclude r) p1 then (Ended, p1)
       else let w = nextChan p1 in
         (Parked r w, p1\<lparr>waiters := waiters p1 @ [w], nextChan := Suc w\<rparr>))"

record System =
  pool :: Pool
  requests :: "nat \<Rightarrow> request_state option"

definition set_request :: "nat \<Rightarrow> request_state \<Rightarrow> Pool \<Rightarrow> System \<Rightarrow> System" where
  "set_request g st p s = \<lparr>pool = p, requests = (requests s)(g \<mapsto> st)\<rparr>"

text \<open>
  The events: a request arrives or moves on, an account's health changes, the limits are set, the configuration is replaced by any
  other one, and \<^verbatim>\<open>Reset\<close>, which the configuration handlers and the proxy monitor call at any time. \<^verbatim>\<open>Reset\<close> reads the accounts before it
  locks the pool, so the accounts it queues are those of an event's own configuration.
\<close>

datatype pool_event = Arrive_event Request | Request_event | Health_event | Limits_event | Store_event Store | Reset_event Store

inductive health_change :: "Pool \<Rightarrow> Pool \<Rightarrow> bool" where
  "health_change p (MarkRateLimited now i until reason p)"
| "health_change p (MarkTemporaryMute now i until reason p)"
| "health_change p (MarkPermanentlyBanned now i reason p)"
| "health_change p (MarkInvalidCredentials now i reason p)"
| "health_change p (ClearHealth i p)"
| "health_change p (snd (AccountHealth now i p))"

inductive pool_step :: "System \<Rightarrow> pool_event \<Rightarrow> System \<Rightarrow> bool" where
  arrive: "requests s g = None \<Longrightarrow>
     pool_step s (Arrive_event r) (set_request g (Trying r) (pool s) s)"
| attempt: "requests s g = Some (Trying r) \<Longrightarrow> AcquireWait_section now r (pool s) = (st, p) \<Longrightarrow>
     pool_step s Request_event (set_request g st p s)"
| give_up: "requests s g = Some (Trying r) \<Longrightarrow>
     pool_step s Request_event (set_request g Ended (pool s) s)"
| wake: "requests s g = Some (Parked r w) \<Longrightarrow> w \<in> set (closed (pool s)) \<Longrightarrow>
     pool_step s Request_event (set_request g (Trying r) (pool s) s)"
| cancel: "requests s g = Some (Parked r w) \<Longrightarrow>
     pool_step s Request_event (set_request g Ended (snd (removeWaiterLocked w (pool s))) s)"
| release: "requests s g = Some (Holding i) \<Longrightarrow>
     pool_step s Request_event (set_request g Ended (Release i (pool s)) s)"
| health: "health_change (pool s) p \<Longrightarrow> pool_step s Health_event (s\<lparr>pool := p\<rparr>)"
| limits: "pool_step s Limits_event (s\<lparr>pool := ApplyRuntimeLimits a b c (pool s)\<rparr>)"
| store_change: "index_ok t \<Longrightarrow> pool_step s (Store_event t) (s\<lparr>pool := (pool s)\<lparr>store := t\<rparr>\<rparr>)"
| reset: "index_ok t \<Longrightarrow>
     pool_step s (Reset_event t) (s\<lparr>pool := (Reset getenv now ((pool s)\<lparr>store := t\<rparr>))\<lparr>store := store (pool s)\<rparr>\<rparr>)"

inductive pool_run :: "System \<Rightarrow> pool_event list \<Rightarrow> System \<Rightarrow> bool" where
  start: "pool_run s [] s"
| more: "pool_run s es t \<Longrightarrow> pool_step t e u \<Longrightarrow> pool_run s (es @ [e]) u"

text \<open>
  The pool counts an account under the name it was asked for and releases it under its identifier. In a run the two agree when each name
  in use, a target of a request or an identifier of a configuration, denotes in every configuration of the run no account but the one with
  that identifier. A target spelled differently, such as a mobile number without its country code, breaks this.
\<close>

fun event_stores :: "pool_event \<Rightarrow> Store list" where
  "event_stores (Store_event t) = [t]"
| "event_stores (Reset_event t) = [t]"
| "event_stores _ = []"

fun event_targets :: "pool_event \<Rightarrow> string list" where
  "event_targets (Arrive_event r) = [rTarget r]"
| "event_targets _ = []"

fun is_reset :: "pool_event \<Rightarrow> bool" where
  "is_reset (Reset_event _) = True"
| "is_reset _ = False"

definition run_stores :: "Store \<Rightarrow> pool_event list \<Rightarrow> Store list" where
  "run_stores s es = s # concat (map event_stores es)"

definition run_names :: "Store \<Rightarrow> pool_event list \<Rightarrow> string list" where
  "run_names s es = concat (map (\<lambda>t. map Identifier (Accounts t)) (run_stores s es)) @ concat (map event_targets es)"

definition names_account :: "Store \<Rightarrow> string \<Rightarrow> bool" where
  "names_account t i \<longleftrightarrow> (case FindAccount t i of Some acc \<Rightarrow> Identifier acc = i | None \<Rightarrow> True)"

definition clear_names :: "Store \<Rightarrow> pool_event list \<Rightarrow> bool" where
  "clear_names s es = list_all (\<lambda>t. list_all (\<lambda>i. i = '''' \<or> names_account t i) (run_names s es)) (run_stores s es)"

definition no_reset :: "pool_event list \<Rightarrow> bool" where
  "no_reset es = list_all (\<lambda>e. \<not> is_reset e) es"

definition fresh_system :: "(string \<Rightarrow> string) \<Rightarrow> time \<Rightarrow> Store \<Rightarrow> System" where
  "fresh_system getenv now s = \<lparr>pool = NewPool getenv now s, requests = (\<lambda>_. None)\<rparr>"

section \<open>Accounting\<close>

definition holders :: "System \<Rightarrow> string \<Rightarrow> nat set" where
  "holders s i = {g. requests s g = Some (Holding i)}"

text \<open>
  The counter of an account against its holders: never above, since a holder may have been forgotten by a reset, and equal while there
  was none. \<open>N\<close> are the names of a run and \<open>T\<close> its configurations.
\<close>

definition count_ok :: "bool \<Rightarrow> int \<Rightarrow> int \<Rightarrow> bool" where
  "count_ok exact c k \<longleftrightarrow> c \<le> k \<and> (exact \<longrightarrow> c = k)"

definition names_ok :: "string set \<Rightarrow> Store set \<Rightarrow> bool" where
  "names_ok N T \<longleftrightarrow> (\<forall>t \<in> T. index_ok t \<and> idents t \<subseteq> N \<and> (\<forall>i \<in> N. i = '''' \<or> names_account t i))"

definition pool_inv :: "string set \<Rightarrow> Store set \<Rightarrow> bool \<Rightarrow> System \<Rightarrow> bool" where
  "pool_inv N T exact s \<longleftrightarrow> finite (dom (requests s)) \<and> store (pool s) \<in> T \<and> gm_wf (inUse (pool s)) \<and>
     set (queue (pool s)) \<subseteq> N \<and>
     (\<forall>i. count_ok exact (gm_count (inUse (pool s)) i) (int (card (holders s i)))) \<and>
     (\<forall>i. holders s i \<noteq> {} \<longrightarrow> i \<noteq> '''') \<and>
     (\<forall>g r. requests s g = Some (Trying r) \<or> (\<exists>w. requests s g = Some (Parked r w)) \<longrightarrow> rTarget r \<in> N)"

definition waiters_inv :: "System \<Rightarrow> bool" where
  "waiters_inv s \<longleftrightarrow> distinct (waiters (pool s)) \<and> distinct (closed (pool s)) \<and>
     set (waiters (pool s)) \<inter> set (closed (pool s)) = {} \<and>
     (\<forall>w \<in> set (waiters (pool s)) \<union> set (closed (pool s)). w < nextChan (pool s)) \<and>
     (\<forall>g r w. requests s g = Some (Parked r w) \<longrightarrow> w \<in> set (waiters (pool s)) \<union> set (closed (pool s))) \<and>
     (\<forall>g g' r r' w. requests s g = Some (Parked r w) \<longrightarrow> requests s g' = Some (Parked r' w) \<longrightarrow> g = g') \<and>
     (\<forall>w \<in> set (waiters (pool s)). \<exists>g r. requests s g = Some (Parked r w))"

lemma find_candidate:
  "List.find (candidate now ex p) (queue p) = Some i \<Longrightarrow> candidate now ex p i \<and> i \<in> set (queue p)"
  by (auto simp: find_Some_iff)

lemma attempt_acquire_spec:
  "\<exists>choice. attempt_result now p choice (attempt_acquire now r p) \<and>
     (\<forall>i. choice = Some i \<longrightarrow> candidate now (rExclude r) p i \<and> (i \<in> set (queue p) \<or> i = rTarget r))"
proof (cases "rPreferred r")
  case True
  define c where "c = (if rTarget r \<noteq> '''' \<and> candidate now (rExclude r) p (rTarget r) then Some (rTarget r)
      else List.find (candidate now (rExclude r) p) (queue p))"
  have "c = Some i \<Longrightarrow> candidate now (rExclude r) p i \<and> (i \<in> set (queue p) \<or> i = rTarget r)" for i
    by (auto simp: c_def split: if_splits dest: find_candidate)
  moreover have "attempt_result now p c (attempt_acquire now r p)"
    using True acquirePreferredLocked_spec [of now p "rTarget r" "rExclude r"]
    by (simp only: attempt_acquire_def c_def if_True)
  ultimately show ?thesis by blast
next
  case False
  have "acquire_choice now (rTarget r) (rExclude r) p = Some i \<Longrightarrow>
      candidate now (rExclude r) p i \<and> (i \<in> set (queue p) \<or> i = rTarget r)" for i
    by (auto simp: acquire_choice_def split: if_splits dest: find_candidate)
  moreover have "attempt_result now p (acquire_choice now (rTarget r) (rExclude r) p) (attempt_acquire now r p)"
    using False acquireLocked_spec by (simp only: attempt_acquire_def if_False)
  ultimately show ?thesis by blast
qed

lemma attempt_outcomes:
  obtains (got) acc i p1 where "attempt_acquire now r p = (Some acc, take_slot i p1)" "purged now p p1"
      "candidate now (rExclude r) p i" "FindAccount (store p) i = Some acc" "\<not> Disabled acc" "i \<in> set (queue p) \<or> i = rTarget r"
  | (none) p1 where "attempt_acquire now r p = (None, p1)" "purged now p p1"
proof -
  obtain choice where c: "attempt_result now p choice (attempt_acquire now r p)"
    and cand: "\<And>i. choice = Some i \<Longrightarrow> candidate now (rExclude r) p i \<and> (i \<in> set (queue p) \<or> i = rTarget r)"
    using attempt_acquire_spec by blast
  show thesis
  proof (cases choice)
    case None
    with c none show thesis by (cases "attempt_acquire now r p") (auto simp: attempt_result_def)
  next
    case (Some i)
    with c obtain acc p1 where a: "FindAccount (store p) i = Some acc" "\<not> Disabled acc" "purged now p p1"
        "attempt_acquire now r p = (Some acc, take_slot i p1)" by (auto simp: attempt_result_def)
    then show thesis using got [of acc i p1] cand [OF Some] by blast
  qed
qed

lemma attempt_named:
  assumes "\<forall>i \<in> insert (rTarget r) (set (queue p)). i = '''' \<or> names_account (store p) i" "index_ok (store p)"
  obtains (got) acc p1 where "attempt_acquire now r p = (Some acc, take_slot (Identifier acc) p1)" "purged now p p1"
      "candidate now (rExclude r) p (Identifier acc)" "acc \<in> set (Accounts (store p))" "\<not> Disabled acc"
  | (none) p1 where "attempt_acquire now r p = (None, p1)" "purged now p p1"
proof (cases rule: attempt_outcomes [of now r p])
  case (got acc i p1)
  have "i \<noteq> ''''" using got(3) by (simp add: candidate_def eligible_def)
  then have "Identifier acc = i" using assms(1) got(4,6) by (auto simp: names_account_def)
  then show thesis using that(1) [of acc p1] got dir.find_member [OF assms(2) got(4)] by simp
qed (use that(2) in blast)

text \<open>An account's identifier names it.\<close>

lemma idents_name: "index_ok t \<Longrightarrow> i \<in> idents t \<Longrightarrow> names_account t i"
proof -
  assume ok: "index_ok t" and "i \<in> idents t"
  then obtain b where "b \<in> set (Accounts t)" "Identifier b = i" "Identifier b \<noteq> ''''" unfolding idents_def by blast
  then have "Identifier acc = i" if "FindAccount t i = Some acc" for acc using that dir.find_same_ident [OF ok] by metis
  then show ?thesis by (simp add: names_account_def split: option.split)
qed

lemma bumpQueue_mset [simp]: "mset (bumpQueue i q) = mset q"
  by (simp add: bumpQueue_def)

lemma bumpQueue_set [simp]: "set (bumpQueue i q) = set q"
  using mset_eq_setD [OF bumpQueue_mset] .

lemma take_slot_simps [simp]:
  "gm_count (inUse (take_slot i p)) j = gm_count (inUse p) j + (if j = i then 1 else 0)"
  "store (take_slot i p) = store p" "waiters (take_slot i p) = waiters p" "closed (take_slot i p) = closed p"
  "nextChan (take_slot i p) = nextChan p" "health (take_slot i p) = health p"
  "set (queue (take_slot i p)) = set (queue p)" "gm_wf (inUse p) \<Longrightarrow> gm_wf (inUse (take_slot i p))"
  "gm_sum (inUse (take_slot i p)) = gm_sum (inUse p) + 1"
  "maxInflightPerAccount (take_slot i p) = maxInflightPerAccount p" "globalMaxInflight (take_slot i p) = globalMaxInflight p"
  "maxQueueSize (take_slot i p) = maxQueueSize p"
  by (simp_all add: take_slot_def gm_count_set gm_sum_set)

lemma notify_simps [simp]:
  "inUse (notifyWaiterLocked p) = inUse p" "store (notifyWaiterLocked p) = store p"
  "queue (notifyWaiterLocked p) = queue p" "health (notifyWaiterLocked p) = health p"
  "nextChan (notifyWaiterLocked p) = nextChan p" "affinity (notifyWaiterLocked p) = affinity p"
  "maxInflightPerAccount (notifyWaiterLocked p) = maxInflightPerAccount p"
  "globalMaxInflight (notifyWaiterLocked p) = globalMaxInflight p" "maxQueueSize (notifyWaiterLocked p) = maxQueueSize p"
  by (simp_all add: notifyWaiterLocked_def split: list.splits)

lemma Release_counts:
  assumes "gm_wf (inUse p)"
  shows "gm_count (inUse (Release i p)) j =
     gm_count (inUse p) j - (if j = i \<and> i \<noteq> '''' \<and> 0 < gm_count (inUse p) i then 1 else 0)"
    "gm_wf (inUse (Release i p))"
    "gm_sum (inUse (Release i p)) = gm_sum (inUse p) - (if i \<noteq> '''' \<and> 0 < gm_count (inUse p) i then 1 else 0)"
  using assms by (simp_all add: Release_def Let_def gm_count_set gm_count_del gm_sum_set gm_sum_del)

lemma Release_simps [simp]:
  "store (Release i p) = store p" "queue (Release i p) = queue p"
  "maxInflightPerAccount (Release i p) = maxInflightPerAccount p" "globalMaxInflight (Release i p) = globalMaxInflight p"
  "maxQueueSize (Release i p) = maxQueueSize p" "health (Release i p) = health p"
  by (simp_all add: Release_def Let_def)

lemma health_change_frame:
  "health_change p q \<Longrightarrow> inUse q = inUse p \<and> store q = store p \<and> queue q = queue p \<and>
     maxInflightPerAccount q = maxInflightPerAccount p \<and> globalMaxInflight q = globalMaxInflight p \<and>
     maxQueueSize q = maxQueueSize p"
  by (erule health_change.cases)
    (simp_all add: MarkRateLimited_def MarkTemporaryMute_def MarkPermanentlyBanned_def MarkInvalidCredentials_def
      markTransientAccount_def markBlockedAccount_def ClearHealth_def AccountHealth_def accountHealthLocked_def
      setHealthLocked_def forgetAffinity_def split: option.splits)

lemma ApplyRuntimeLimits_simps [simp]:
  "inUse (ApplyRuntimeLimits a b c p) = inUse p" "store (ApplyRuntimeLimits a b c p) = store p"
  "queue (ApplyRuntimeLimits a b c p) = queue p"
  by (simp_all add: ApplyRuntimeLimits_def Let_def)

definition held :: "request_state option \<Rightarrow> string \<Rightarrow> int" where
  "held x i = (if x = Some (Holding i) then 1 else 0)"

lemma card_holders_upd:
  assumes "finite (dom (requests s))"
  shows "int (card (holders (set_request g st p s) i)) =
     int (card (holders s i)) - held (requests s g) i + held (Some st) i"
proof -
  define R where "R = holders s i - {g}"
  have g: "g \<notin> R" by (simp add: R_def)
  have fin: "finite (holders s i)"
    by (rule finite_subset [OF _ assms]) (auto simp: holders_def)
  then have finR: "finite R" by (simp add: R_def)
  have new: "holders (set_request g st p s) i = (if st = Holding i then insert g R else R)"
    by (auto simp: holders_def set_request_def R_def)
  have "int (card (holders s i)) = int (card R) + held (requests s g) i"
  proof (cases "g \<in> holders s i")
    case True
    then show ?thesis using card.remove [OF fin True] by (simp add: held_def holders_def R_def)
  next
    case False
    then show ?thesis by (simp add: held_def holders_def R_def)
  qed
  then show ?thesis using finR g by (simp add: new held_def)
qed

lemma pool_inv_set_request:
  assumes inv: "pool_inv N T b s" and st: "store p = store (pool s)" and q: "set (queue p) = set (queue (pool s))"
    and wf: "gm_wf (inUse p)"
    and count: "\<And>i. count_ok b (gm_count (inUse (pool s)) i) (int (card (holders s i))) \<Longrightarrow>
      count_ok b (gm_count (inUse p) i) (int (card (holders s i)) - held (requests s g) i + held (Some st') i)"
    and ne: "st' \<noteq> Holding ''''"
    and can: "\<And>r w. st' = Trying r \<or> st' = Parked r w \<Longrightarrow> rTarget r \<in> N"
  shows "pool_inv N T b (set_request g st' p s)"
proof -
  have fin: "finite (dom (requests s))" using inv by (simp add: pool_inv_def)
  have "count_ok b (gm_count (inUse p) i) (int (card (holders (set_request g st' p s) i)))" for i
    using count [of i] inv unfolding card_holders_upd [OF fin] pool_inv_def by simp
  moreover have "holders (set_request g st' p s) i \<noteq> {} \<Longrightarrow> i \<noteq> ''''" for i
    using inv ne unfolding pool_inv_def by (auto simp: holders_def set_request_def split: if_splits)
  ultimately show ?thesis
    using inv st q wf can unfolding pool_inv_def by (auto simp: set_request_def)
qed

lemma AcquireWait_section_inv:
  assumes inv: "pool_inv N T b s" and names: "names_ok N T" and g: "requests s g = Some (Trying r)"
    and a: "AcquireWait_section now r (pool s) = (st, p)"
  shows "pool_inv N T b (set_request g st p s)"
proof -
  have r: "rTarget r \<in> N" and st_in: "store (pool s) \<in> T" and wf: "gm_wf (inUse (pool s))" and q: "set (queue (pool s)) \<subseteq> N"
    using inv g unfolding pool_inv_def by blast+
  have ok: "index_ok (store (pool s))" and nm: "\<And>i. i \<in> N \<Longrightarrow> i = '''' \<or> names_account (store (pool s)) i"
    using names st_in unfolding names_ok_def by blast+
  have "\<forall>i \<in> insert (rTarget r) (set (queue (pool s))). i = '''' \<or> names_account (store (pool s)) i"
    using r q nm by blast
  from this ok show ?thesis
  proof (cases rule: attempt_named [where now = now])
    case (got acc p1)
    note f = purged_fields [OF got(2)]
    have st: "st = Holding (Identifier acc)" "p = take_slot (Identifier acc) p1"
      using a got(1) by (auto simp: AcquireWait_section_def)
    show ?thesis
      by (rule pool_inv_set_request [OF inv])
        (use got wf g in \<open>simp_all add: st f held_def candidate_def eligible_def count_ok_def\<close>)
  next
    case (none p1)
    note f = purged_fields [OF none(2)]
    show ?thesis
    proof (cases "canQueueLocked (attempt_queue_target r) (rExclude r) p1")
      case True
      then have st: "st = Parked r (nextChan p1)"
          "p = p1\<lparr>waiters := waiters p1 @ [nextChan p1], nextChan := Suc (nextChan p1)\<rparr>"
        using a none(1) by (auto simp: AcquireWait_section_def Let_def)
      show ?thesis
        by (rule pool_inv_set_request [OF inv]) (use wf g r in \<open>simp_all add: st f held_def\<close>)
    next
      case False
      then have st: "st = Ended" "p = p1" using a none(1) by (auto simp: AcquireWait_section_def)
      show ?thesis
        by (rule pool_inv_set_request [OF inv]) (use wf g in \<open>simp_all add: st f held_def\<close>)
    qed
  qed
qed

lemma Reset_simps [simp]:
  "inUse (Reset getenv now p) = []" "waiters (Reset getenv now p) = []" "nextChan (Reset getenv now p) = nextChan p"
  "store (Reset getenv now p) = store p" "queue (Reset getenv now p) = map Identifier (reset_accounts (store p))"
  "maxInflightPerAccount (Reset getenv now p) = RuntimeAccountMaxInflight getenv (store p)"
  by (simp_all add: Reset_def drainWaitersLocked_def Let_def)

lemma reset_accounts_set: "set (reset_accounts s) = {a \<in> set (Accounts s). \<not> Disabled a \<and> Identifier a \<noteq> ''''}"
  by (auto simp: reset_accounts_def)

lemma pool_step_inv:
  assumes inv: "pool_inv N T b s" and names: "names_ok N T" and step: "pool_step s e u"
    and e: "set (event_stores e) \<subseteq> T" "set (event_targets e) \<subseteq> N"
  shows "pool_inv N T (b \<and> \<not> is_reset e) u"
  using step
proof cases
  case (arrive g r)
  then have "rTarget r \<in> N" using e(2) by simp
  then have "pool_inv N T b u"
    unfolding arrive(2) by (intro pool_inv_set_request [OF inv]) (use inv arrive(3) in \<open>auto simp: pool_inv_def held_def\<close>)
  then show ?thesis using arrive(1) by simp
next
  case (attempt g r now st p)
  then show ?thesis using AcquireWait_section_inv [OF inv names] by simp
next
  case (give_up g r)
  then show ?thesis
    by (simp, intro pool_inv_set_request [OF inv]) (use inv in \<open>auto simp: pool_inv_def held_def\<close>)
next
  case (wake g r w)
  then have "rTarget r \<in> N" using inv unfolding pool_inv_def by blast
  then show ?thesis using wake
    by (simp, intro pool_inv_set_request [OF inv]) (use inv wake(3) in \<open>auto simp: pool_inv_def held_def\<close>)
next
  case (cancel g r w)
  then show ?thesis
    by (simp, intro pool_inv_set_request [OF inv])
      (use inv in \<open>auto simp: pool_inv_def held_def removeWaiterLocked_def\<close>)
next
  case (release g i)
  have fin: "finite (holders s i)"
    by (rule finite_subset [of _ "dom (requests s)"]) (use inv in \<open>auto simp: holders_def pool_inv_def\<close>)
  have "g \<in> holders s i" using release by (simp add: holders_def)
  then have pos: "0 < card (holders s i)" and ne: "i \<noteq> ''''"
    using fin inv by (auto simp: card_gt_0_iff pool_inv_def)
  have wf: "gm_wf (inUse (pool s))" using inv by (auto simp: pool_inv_def)
  have "pool_inv N T b u" unfolding release(2)
    by (intro pool_inv_set_request [OF inv])
      (use release pos ne in \<open>auto simp: Release_counts [OF wf] held_def count_ok_def\<close>)
  then show ?thesis using release(1) by simp
next
  case (health p)
  then show ?thesis using inv health_change_frame [OF health(3)] by (simp add: pool_inv_def holders_def)
next
  case (limits a b c)
  then show ?thesis using inv by (simp add: pool_inv_def holders_def)
next
  case (store_change t)
  then show ?thesis using inv e(1) by (simp add: pool_inv_def holders_def)
next
  case (reset t getenv now)
  have "set (map Identifier (reset_accounts t)) \<subseteq> N"
    using names e(1) reset by (auto simp: names_ok_def reset_accounts_set idents_def)
  then show ?thesis using inv reset by (auto simp: pool_inv_def holders_def count_ok_def)
qed

section \<open>Waiting and waking\<close>

text \<open>Every pool operation other than parking and cancelling closes at most the first waiter's channel.\<close>

definition notifies :: "Pool \<Rightarrow> Pool \<Rightarrow> bool" where
  "notifies p q \<longleftrightarrow> nextChan q = nextChan p \<and>
     (waiters q = waiters p \<and> closed q = closed p \<or>
      (\<exists>w. waiters p = w # waiters q \<and> closed q = w # closed p))"

lemma notifyWaiterLocked_notifies:
  "waiters q = waiters p \<Longrightarrow> closed q = closed p \<Longrightarrow> nextChan q = nextChan p \<Longrightarrow> notifies p (notifyWaiterLocked q)"
  by (auto simp: notifies_def notifyWaiterLocked_def split: list.splits)

lemma same_notifies:
  "waiters q = waiters p \<Longrightarrow> closed q = closed p \<Longrightarrow> nextChan q = nextChan p \<Longrightarrow> notifies p q"
  by (simp add: notifies_def)

lemma Release_notifies: "notifies p (Release i p)"
  by (simp add: Release_def Let_def notifyWaiterLocked_notifies same_notifies)

lemma ApplyRuntimeLimits_notifies: "notifies p (ApplyRuntimeLimits a b c p)"
  by (simp add: ApplyRuntimeLimits_def Let_def notifyWaiterLocked_notifies)

lemma health_change_notifies: "health_change p q \<Longrightarrow> notifies p q"
  by (erule health_change.cases)
    (simp_all add: MarkRateLimited_def MarkTemporaryMute_def MarkPermanentlyBanned_def MarkInvalidCredentials_def
      markTransientAccount_def markBlockedAccount_def ClearHealth_def AccountHealth_def accountHealthLocked_def
      setHealthLocked_def forgetAffinity_def notifyWaiterLocked_notifies same_notifies split: option.splits)

definition parked_on :: "request_state option \<Rightarrow> nat \<Rightarrow> bool" where
  "parked_on x w \<longleftrightarrow> (\<exists>r. x = Some (Parked r w))"

lemma waiters_inv_alt:
  "waiters_inv s \<longleftrightarrow> distinct (waiters (pool s)) \<and> distinct (closed (pool s)) \<and>
     set (waiters (pool s)) \<inter> set (closed (pool s)) = {} \<and>
     (\<forall>w \<in> set (waiters (pool s)) \<union> set (closed (pool s)). w < nextChan (pool s)) \<and>
     (\<forall>g w. parked_on (requests s g) w \<longrightarrow> w \<in> set (waiters (pool s)) \<union> set (closed (pool s))) \<and>
     (\<forall>g g' w. parked_on (requests s g) w \<longrightarrow> parked_on (requests s g') w \<longrightarrow> g = g') \<and>
     (\<forall>w \<in> set (waiters (pool s)). \<exists>g. parked_on (requests s g) w)"
  unfolding waiters_inv_def parked_on_def by blast

lemma waiters_inv_notifies:
  assumes "waiters_inv s" "notifies (pool s) p"
  shows "waiters_inv (s\<lparr>pool := p\<rparr>)"
proof -
  consider "waiters p = waiters (pool s)" "closed p = closed (pool s)" "nextChan p = nextChan (pool s)"
    | w where "waiters (pool s) = w # waiters p" "closed p = w # closed (pool s)" "nextChan p = nextChan (pool s)"
    using assms(2) by (auto simp: notifies_def)
  then show ?thesis
  proof cases
    case 1
    then show ?thesis using assms(1) by (simp add: waiters_inv_alt)
  next
    case 2
    then show ?thesis using assms(1) unfolding waiters_inv_alt by auto
  qed
qed

lemma waiters_inv_request:
  assumes "waiters_inv s" "\<And>w. parked_on (requests s g) w \<Longrightarrow> w \<notin> set (waiters (pool s))" "\<And>w. \<not> parked_on (Some st) w"
  shows "waiters_inv (set_request g st (pool s) s)"
proof -
  have eq: "parked_on (((requests s)(g \<mapsto> st)) g') w \<longleftrightarrow> g' \<noteq> g \<and> parked_on (requests s g') w" for g' w
    using assms(3) by auto
  have "\<exists>g'. g' \<noteq> g \<and> parked_on (requests s g') w" if "w \<in> set (waiters (pool s))" for w
    using assms(1,2) that unfolding waiters_inv_alt by metis
  then show ?thesis using assms(1) unfolding waiters_inv_alt by (auto simp: set_request_def eq simp del: fun_upd_apply)
qed

lemma parked_on_simps [simp]:
  "\<not> parked_on (Some (Trying r)) w" "\<not> parked_on (Some Ended) w" "\<not> parked_on (Some (Holding i)) w" "\<not> parked_on None w"
  "parked_on (Some (Parked r w')) w \<longleftrightarrow> w' = w"
  by (auto simp: parked_on_def)

lemma waiters_inv_cancel:
  assumes inv: "waiters_inv s" and g: "requests s g = Some (Parked r w)"
  shows "waiters_inv (set_request g Ended (snd (removeWaiterLocked w (pool s))) s)"
proof -
  have eq: "parked_on (((requests s)(g \<mapsto> Ended)) g') v \<longleftrightarrow> g' \<noteq> g \<and> parked_on (requests s g') v" for g' v by auto
  have mine: "parked_on (requests s g') w \<Longrightarrow> g' = g" for g' using inv g unfolding waiters_inv_alt by auto
  have d: "distinct (waiters (pool s))" using inv by (simp add: waiters_inv_alt)
  have "\<exists>g'. g' \<noteq> g \<and> parked_on (requests s g') v" if "v \<in> set (waiters (pool s))" "v \<noteq> w" for v
    using inv g that unfolding waiters_inv_alt by (metis parked_on_simps(5))
  moreover have "v \<noteq> w" if "g' \<noteq> g" "parked_on (requests s g') v" for g' v using mine that by blast
  ultimately show ?thesis
    using inv unfolding waiters_inv_alt
    by (auto simp: set_request_def removeWaiterLocked_def eq set_remove1_eq [OF d] simp del: fun_upd_apply)
qed

lemma waiters_inv_park:
  assumes inv: "waiters_inv s" and g: "requests s g = Some (Trying r')"
    and p: "waiters p = waiters (pool s) @ [nextChan (pool s)]" "closed p = closed (pool s)" "nextChan p = Suc (nextChan (pool s))"
  shows "waiters_inv (set_request g (Parked r (nextChan (pool s))) p s)"
proof -
  let ?w = "nextChan (pool s)"
  have new: "\<not> parked_on (requests s g') ?w" for g' using inv unfolding waiters_inv_alt by blast
  have eq: "parked_on (((requests s)(g \<mapsto> Parked r ?w)) g') v \<longleftrightarrow> (if g' = g then v = ?w else parked_on (requests s g') v)" for g' v
    by auto
  have lt: "w < Suc ?w" "w \<noteq> ?w" if "w \<in> set (waiters (pool s)) \<union> set (closed (pool s))" for w
    using inv that unfolding waiters_inv_alt by (blast intro: less_SucI, blast)
  have "\<exists>g'. if g' = g then w = ?w else parked_on (requests s g') w" if "w \<in> set (waiters (pool s))" for w
    using inv that g unfolding waiters_inv_alt by (metis parked_on_simps(1))
  then show ?thesis
    using inv new lt unfolding waiters_inv_alt
    by (auto simp: set_request_def p eq simp del: fun_upd_apply less_Suc_eq split: if_splits)
qed

lemma set_request_pool: "set_request g st p s = set_request g st (pool (s\<lparr>pool := p\<rparr>)) (s\<lparr>pool := p\<rparr>)"
  by (simp add: set_request_def)

text \<open>The outcomes of one attempt.\<close>

lemma AcquireWait_section_cases:
  assumes a: "AcquireWait_section now r p = (st, q)"
  obtains (got) acc i p1 where "purged now p p1" "st = Holding (Identifier acc)" "q = take_slot i p1" "eligible now p i"
  | (park) p1 where "purged now p p1" "st = Parked r (nextChan p)"
      "q = p1\<lparr>waiters := waiters p @ [nextChan p], nextChan := Suc (nextChan p)\<rparr>" "int (length (waiters p)) < maxQueueSize p"
  | (fail) "purged now p q" "st = Ended"
proof (cases rule: attempt_outcomes [of now r p])
  case (got acc i p1)
  then show thesis using a that(1) [of p1 acc i] by (simp add: AcquireWait_section_def candidate_def)
next
  case (none p1)
  note f = purged_fields [OF none(2)]
  show thesis
  proof (cases "canQueueLocked (attempt_queue_target r) (rExclude r) p1")
    case True
    then show thesis using that(2) [OF none(2)] a none(1)
      by (simp add: AcquireWait_section_def Let_def f) (simp add: canQueueLocked_def f)
  next
    case False
    then show thesis using that(3) a none by (simp add: AcquireWait_section_def)
  qed
qed

lemma waiters_inv_reset:
  assumes "waiters_inv s" "waiters p = []" "closed p = rev (waiters (pool s)) @ closed (pool s)" "nextChan p = nextChan (pool s)"
  shows "waiters_inv (s\<lparr>pool := p\<rparr>)"
  using assms unfolding waiters_inv_alt by auto

lemma pool_step_waiters:
  assumes w: "waiters_inv s" and step: "pool_step s e u"
  shows "waiters_inv u"
  using step
proof cases
  case (attempt g r now st p)
  from attempt(4) show ?thesis
  proof (cases rule: AcquireWait_section_cases)
    case (got acc i p1)
    have "waiters_inv (s\<lparr>pool := p\<rparr>)"
      using w by (rule waiters_inv_notifies) (simp add: got purged_fields [OF got(1)] same_notifies)
    from waiters_inv_request [OF this, of g st] show ?thesis
      unfolding attempt(2) set_request_pool [of g st p s] using attempt(3) got(2) by simp
  next
    case (park p1)
    show ?thesis unfolding attempt(2) park(2)
      by (rule waiters_inv_park [OF w attempt(3)]) (simp_all add: park(3) purged_fields [OF park(1)])
  next
    case fail
    have "waiters_inv (s\<lparr>pool := p\<rparr>)"
      using w by (rule waiters_inv_notifies) (simp add: purged_fields [OF fail(1)] same_notifies)
    from waiters_inv_request [OF this, of g st] show ?thesis
      unfolding attempt(2) set_request_pool [of g st p s] using attempt(3) fail(2) by simp
  qed
next
  case (wake g r v)
  have "v \<notin> set (waiters (pool s))" using w wake(4) unfolding waiters_inv_alt by blast
  then show ?thesis unfolding wake(2) using w wake(3) by (intro waiters_inv_request) auto
next
  case (cancel g r v)
  then show ?thesis using waiters_inv_cancel [OF w] by simp
next
  case (release g i)
  have "waiters_inv (s\<lparr>pool := Release i (pool s)\<rparr>)" using w Release_notifies by (rule waiters_inv_notifies)
  from waiters_inv_request [OF this, of g Ended] show ?thesis
    unfolding release(2) set_request_pool [of g Ended "Release i (pool s)" s] using release(3) by simp
next
  case (health p)
  then show ?thesis using w health_change_notifies waiters_inv_notifies by blast
next
  case (limits a b c)
  then show ?thesis using w ApplyRuntimeLimits_notifies waiters_inv_notifies by blast
next
  case (store_change t)
  then show ?thesis using w by (simp add: waiters_inv_alt)
next
  case (reset t getenv now)
  then show ?thesis using waiters_inv_reset [OF w] by (simp add: Reset_def drainWaitersLocked_def Let_def)
qed (use w in \<open>auto intro!: waiters_inv_request\<close>)

section \<open>Limits\<close>

definition limits_inv :: "Pool \<Rightarrow> bool" where
  "limits_inv p \<longleftrightarrow> (\<forall>i. gm_count (inUse p) i \<le> maxInflightPerAccount p) \<and>
     (0 < globalMaxInflight p \<longrightarrow> gm_sum (inUse p) \<le> globalMaxInflight p) \<and>
     int (length (waiters p)) \<le> max 0 (maxQueueSize p)"

lemma notifies_length: "notifies p q \<Longrightarrow> length (waiters q) \<le> length (waiters p)"
  by (auto simp: notifies_def)

lemma limits_inv_mono:
  "limits_inv p \<Longrightarrow> (\<And>i. gm_count (inUse q) i \<le> gm_count (inUse p) i) \<Longrightarrow> gm_sum (inUse q) \<le> gm_sum (inUse p) \<Longrightarrow>
   length (waiters q) \<le> length (waiters p) \<Longrightarrow> maxInflightPerAccount q = maxInflightPerAccount p \<Longrightarrow>
   globalMaxInflight q = globalMaxInflight p \<Longrightarrow> maxQueueSize q = maxQueueSize p \<Longrightarrow> limits_inv q"
  unfolding limits_inv_def by (smt (verit, ccfv_threshold) int_ops(1) nat_int_comparison(3) of_nat_le_iff)

lemma env_positive_pos: "env_positive getenv v = Some n \<Longrightarrow> 0 < n"
  by (auto simp: env_positive_def Let_def split: if_splits option.splits)

lemma RuntimeAccountMaxInflight_pos: "0 < RuntimeAccountMaxInflight getenv s"
  using env_positive_pos by (auto simp: RuntimeAccountMaxInflight_def split: option.splits)

lemma limits_inv_reset: "limits_inv ((Reset getenv now p)\<lparr>store := t\<rparr>)" "limits_inv (Reset getenv now p)"
  using RuntimeAccountMaxInflight_pos [of getenv "store p"] by (simp_all add: limits_inv_def)

lemma pool_step_limits:
  assumes wf: "gm_wf (inUse (pool s))" and l: "limits_inv (pool s)" and step: "pool_step s e u" and e: "e \<noteq> Limits_event"
  shows "limits_inv (pool u) \<and> gm_wf (inUse (pool u))"
  using step
proof cases
  case (attempt g r now st p)
  from attempt(4) show ?thesis
  proof (cases rule: AcquireWait_section_cases)
    case (got acc i p1)
    then show ?thesis
      using l wf unfolding attempt(2) by (auto simp: set_request_def limits_inv_def eligible_def purged_fields [OF got(1)])
  next
    case (park p1)
    then show ?thesis
      using l wf unfolding attempt(2) by (auto simp: set_request_def limits_inv_def purged_fields [OF park(1)])
  next
    case fail
    then show ?thesis using l wf unfolding attempt(2) by (auto simp: set_request_def limits_inv_def purged_fields [OF fail(1)])
  qed
next
  case (cancel g r v)
  have "limits_inv (pool u)" unfolding cancel(2)
    by (rule limits_inv_mono [OF l]) (simp_all add: set_request_def removeWaiterLocked_def length_remove1)
  then show ?thesis using wf cancel(2) by (simp add: set_request_def removeWaiterLocked_def)
next
  case (release g i)
  have "limits_inv (pool u)" unfolding release(2)
    by (rule limits_inv_mono [OF l]) (simp_all add: set_request_def Release_counts [OF wf] notifies_length [OF Release_notifies])
  then show ?thesis using release(2) by (simp add: set_request_def Release_counts [OF wf])
next
  case (health p)
  have "limits_inv (pool u)" unfolding health(2)
    by (rule limits_inv_mono [OF l])
      (simp_all add: health_change_frame [OF health(3)] notifies_length [OF health_change_notifies [OF health(3)]])
  then show ?thesis using health wf health_change_frame [OF health(3)] by simp
next
  case (reset t getenv now)
  then show ?thesis by (simp add: limits_inv_reset)
qed (use l wf e in \<open>auto simp: set_request_def limits_inv_def\<close>)

section \<open>Runs\<close>

lemma fresh_system_inv:
  assumes "names_ok N T" "s \<in> T"
  shows "pool_inv N T True (fresh_system getenv now s)"
proof -
  have "set (map Identifier (reset_accounts s)) \<subseteq> N"
    using assms by (auto simp: names_ok_def reset_accounts_set idents_def)
  then show ?thesis using assms(2)
    by (auto simp: pool_inv_def fresh_system_def holders_def NewPool_def count_ok_def)
qed

lemma fresh_system_waiters: "waiters_inv (fresh_system getenv now s)"
  by (simp add: waiters_inv_def fresh_system_def NewPool_def) (simp add: Reset_def drainWaitersLocked_def Let_def)

lemma fresh_system_limits: "limits_inv (pool (fresh_system getenv now s))" "gm_wf (inUse (pool (fresh_system getenv now s)))"
  by (simp_all add: fresh_system_def NewPool_def limits_inv_reset)

lemma pool_run_waiters: "pool_run s es t \<Longrightarrow> waiters_inv s \<Longrightarrow> waiters_inv t"
  by (induction rule: pool_run.induct) (auto dest: pool_step_waiters)

lemma pool_run_limits:
  "pool_run s es t \<Longrightarrow> Limits_event \<notin> set es \<Longrightarrow> limits_inv (pool s) \<Longrightarrow> gm_wf (inUse (pool s)) \<Longrightarrow>
     limits_inv (pool t) \<and> gm_wf (inUse (pool t))"
  by (induction rule: pool_run.induct) (auto dest: pool_step_limits)

lemma pool_run_inv:
  "pool_run s es t \<Longrightarrow> names_ok N T \<Longrightarrow> pool_inv N T True s \<Longrightarrow> set (concat (map event_stores es)) \<subseteq> T \<Longrightarrow>
     set (concat (map event_targets es)) \<subseteq> N \<Longrightarrow> pool_inv N T (no_reset es) t"
proof (induction rule: pool_run.induct)
  case (more s es t e u)
  then have "pool_inv N T (no_reset es) t" by auto
  from pool_step_inv [OF this more.prems(1) more.hyps(2)] more.prems show ?case by (auto simp: no_reset_def)
qed (simp add: no_reset_def)

lemma run_stores_ok: "pool_run s es t \<Longrightarrow> index_ok u \<Longrightarrow> \<forall>v \<in> set (run_stores u es). index_ok v"
proof (induction rule: pool_run.induct)
  case (more s es t e v)
  then have "\<forall>w \<in> set (event_stores e). index_ok w" by (auto elim: pool_step.cases)
  then show ?case using more by (auto simp: run_stores_def)
qed (simp add: run_stores_def)

lemma clear_names_ok:
  assumes "\<forall>v \<in> set (run_stores s es). index_ok v" "clear_names s es"
  shows "names_ok (insert '''' (set (run_names s es))) (set (run_stores s es))"
proof -
  have "idents v \<subseteq> set (run_names s es)" if "v \<in> set (run_stores s es)" for v
    using that by (auto simp: run_names_def idents_def)
  then show ?thesis using assms by (auto simp: names_ok_def clear_names_def list_all_iff)
qed

lemma gm_sum_counts: "gm_wf m \<Longrightarrow> gm_sum m = (\<Sum>i \<in> fst ` set m. gm_count m i)"
proof (induction m)
  case (Cons x m)
  obtain k v where x: "x = (k, v)" by (cases x)
  have wf: "gm_wf m" and k: "k \<notin> fst ` set m" using Cons.prems by (auto simp: x gm_wf_def)
  have "(\<Sum>i \<in> fst ` set m. gm_count (x # m) i) = (\<Sum>i \<in> fst ` set m. gm_count m i)"
    by (rule sum.cong) (use k in \<open>auto simp: x gm_count_def\<close>)
  then show ?case using Cons.IH [OF wf] k by (simp add: x gm_sum_def gm_count_def)
qed (simp add: gm_sum_def)

lemma holders_sum:
  assumes "pool_inv N T True s"
  shows "gm_sum (inUse (pool s)) = int (card {g. \<exists>i. requests s g = Some (Holding i)})"
proof -
  let ?K = "fst ` set (inUse (pool s))"
  have inv: "finite (dom (requests s))" "gm_wf (inUse (pool s))"
    and c: "\<And>i. gm_count (inUse (pool s)) i = int (card (holders s i))"
    using assms by (auto simp: pool_inv_def count_ok_def)
  have fin: "finite (holders s i)" for i by (rule finite_subset [OF _ inv(1)]) (auto simp: holders_def)
  have "i \<in> ?K" if "g \<in> holders s i" for g i
  proof (rule ccontr)
    assume "i \<notin> ?K"
    then have "gm_get (inUse (pool s)) i = None" using map_of_eq_None_iff [of "inUse (pool s)" i] by blast
    then have "gm_count (inUse (pool s)) i = 0" by (simp add: gm_count_def)
    then show False using c [of i] fin [of i] that by auto
  qed
  then have "{g. \<exists>i. requests s g = Some (Holding i)} = (\<Union>i \<in> ?K. holders s i)" by (auto simp: holders_def)
  moreover have "card (\<Union>i \<in> ?K. holders s i) = (\<Sum>i \<in> ?K. card (holders s i))"
    using fin by (intro card_UN_disjoint) (auto simp: holders_def)
  ultimately show ?thesis by (simp add: gm_sum_counts [OF inv(2)] c)
qed

lemma pool_run_accounts:
  assumes "store_reach s" "pool_run (fresh_system getenv now s) es t" "clear_names s es"
  shows "pool_inv (insert '''' (set (run_names s es))) (set (run_stores s es)) (no_reset es) t"
proof -
  have ok: "\<forall>v \<in> set (run_stores s es). index_ok v"
    using run_stores_ok [OF assms(2) store_reach_index_ok [OF assms(1)]] .
  note names = clear_names_ok [OF ok assms(3)]
  have "s \<in> set (run_stores s es)" by (simp add: run_stores_def)
  from pool_run_inv [OF assms(2) names fresh_system_inv [OF names this]] show ?thesis
    by (auto simp: run_stores_def run_names_def)
qed

section \<open>Properties\<close>

definition solo_account :: Account where
  "solo_account = empty_account\<lparr>Email := ''a@b.c'', Token := ''t''\<rparr>"

definition solo_store :: Store where
  "solo_store = rebuildIndexes \<lparr>cfgKeys = [], cfgAPIKeys = [], cfgAccounts = [solo_account],
     cfgModelAliases = [], cfgAccountMaxInflight = 1, cfgAccountMaxQueue = 5, cfgGlobalMaxInflight = 0,
     cfgTokenRefreshIntervalHours = 0, keyMap = [], accMap = [], accTest = [], accTestResult = [], accSess = []\<rparr>"

lemma solo_ident: "Identifier solo_account = ''a@b.c''" "TrimSpace ''a@b.c'' = ''a@b.c''" "CanonicalMobileKey ''a@b.c'' = ''''"
  by code_simp+

lemma solo_store_facts:
  "Accounts solo_store = [solo_account]" "FindAccount solo_store ''a@b.c'' = Some solo_account"
  "cfgAccountMaxInflight solo_store = 1" "cfgAccountMaxQueue solo_store = 5" "cfgGlobalMaxInflight solo_store = 0"
  by (simp_all add: solo_store_def Accounts_def FindAccount_def findAccountIndexLocked_def
      lookup_candidates_def rebuildIndexes_def rebuild_step_def solo_ident)

lemma solo_store_index: "index_ok solo_store"
  by (simp add: solo_store_def rebuildIndexes_index_ok)

definition no_env :: "string \<Rightarrow> string" where
  "no_env = (\<lambda>_. '''')"

lemma solo_pool:
  "NewPool no_env 0 solo_store = \<lparr>store = solo_store, queue = [''a@b.c''], inUse = [], waiters = [], closed = [], nextChan = 0,
     health = [], maxInflightPerAccount = 1, recommendedConcurrency = 1, maxQueueSize = 5, globalMaxInflight = 1,
     affinity = NewAffinity no_env\<rparr>"
  by (simp add: NewPool_def Reset_def reset_accounts_def solo_store_facts drainWaitersLocked_def reset_health_def
      reset_persisted_def persistedCooldownHealth_def RuntimeAccountMaxInflight_def RuntimeAccountMaxQueue_def
      RuntimeGlobalMaxInflight_def defaultRecommendedConcurrency_def env_positive_def no_env_def solo_ident
      time_unix_def Let_def insort_key.simps) (simp add: solo_account_def empty_account_def)

section \<open>A run of the smallest pool\<close>

text \<open>One account, one slot, a queue of five; requests that name no account.\<close>

definition any_request :: Request where
  "any_request = \<lparr>rTarget = '''', rPreferred = False, rExclude = []\<rparr>"

definition solo_state :: "(string, int) gomap \<Rightarrow> nat list \<Rightarrow> nat list \<Rightarrow> nat \<Rightarrow> Pool" where
  "solo_state use ws cs n = \<lparr>store = solo_store, queue = [''a@b.c''], inUse = use, waiters = ws, closed = cs, nextChan = n,
     health = [], maxInflightPerAccount = 1, recommendedConcurrency = 1, maxQueueSize = 5, globalMaxInflight = 1,
     affinity = NewAffinity no_env\<rparr>"

definition solo_sys :: "(nat \<Rightarrow> request_state option) \<Rightarrow> (string, int) gomap \<Rightarrow> nat list \<Rightarrow> nat list \<Rightarrow> nat \<Rightarrow> System" where
  "solo_sys R use ws cs n = \<lparr>pool = solo_state use ws cs n, requests = R\<rparr>"

lemma solo_enabled: "\<not> Disabled solo_account"
  by (simp add: solo_account_def empty_account_def)

lemma solo_got:
  "AcquireWait_section now any_request (solo_state [] ws cs n) =
     (Holding ''a@b.c'', solo_state [(''a@b.c'', 1)] ws cs n)"
  by (simp add: AcquireWait_section_def attempt_acquire_def any_request_def acquireLocked_def tryAcquire_def
      canAcquireIDLocked_def solo_state_def solo_store_facts solo_enabled accountHealthLocked_def
      currentInUseLocked_def take_slot_def bumpQueue_def solo_ident)

lemma solo_parked:
  "length ws < 5 \<Longrightarrow> AcquireWait_section now any_request (solo_state [(''a@b.c'', 1)] ws cs n) =
     (Parked any_request n, solo_state [(''a@b.c'', 1)] (ws @ [n]) cs (Suc n))"
  by (simp add: AcquireWait_section_def attempt_acquire_def any_request_def acquireLocked_def tryAcquire_def
      canAcquireIDLocked_def solo_state_def solo_store_facts solo_enabled accountHealthLocked_def
      currentInUseLocked_def canQueueLocked_def attempt_queue_target_def gm_count_def)

lemma solo_fresh: "fresh_system no_env 0 solo_store = solo_sys (\<lambda>_. None) [] [] [] 0"
  by (simp add: fresh_system_def solo_sys_def solo_state_def solo_pool)

lemma solo_arrive:
  assumes "pool_run s es (solo_sys R use ws cs n)" "R g = None"
  shows "pool_run s (es @ [Arrive_event any_request]) (solo_sys (R(g \<mapsto> Trying any_request)) use ws cs n)"
  using pool_run.more [OF assms(1) pool_step.arrive [of "solo_sys R use ws cs n" g any_request]] assms(2)
  by (simp add: solo_sys_def set_request_def)

lemma solo_attempt_got:
  assumes "pool_run s es (solo_sys R [] ws cs n)" "R g = Some (Trying any_request)"
  shows "pool_run s (es @ [Request_event]) (solo_sys (R(g \<mapsto> Holding ''a@b.c'')) [(''a@b.c'', 1)] ws cs n)"
  using pool_run.more [OF assms(1) pool_step.attempt [of "solo_sys R [] ws cs n" g any_request]] solo_got [of 0 ws cs n] assms(2)
  by (simp add: solo_sys_def set_request_def)

lemma solo_attempt_park:
  assumes "pool_run s es (solo_sys R [(''a@b.c'', 1)] ws cs n)" "R g = Some (Trying any_request)" "length ws < 5"
  shows "pool_run s (es @ [Request_event])
     (solo_sys (R(g \<mapsto> Parked any_request n)) [(''a@b.c'', 1)] (ws @ [n]) cs (Suc n))"
  using pool_run.more [OF assms(1) pool_step.attempt [of "solo_sys R [(''a@b.c'', 1)] ws cs n" g any_request]]
    solo_parked [of ws 0 cs n] assms(2,3)
  by (simp add: solo_sys_def set_request_def)

lemma solo_release:
  assumes "pool_run s es (solo_sys R [(''a@b.c'', 1)] (w # ws) cs n)" "R g = Some (Holding ''a@b.c'')"
  shows "pool_run s (es @ [Request_event]) (solo_sys (R(g \<mapsto> Ended)) [] ws (w # cs) n)"
  using pool_run.more [OF assms(1) pool_step.release [of "solo_sys R [(''a@b.c'', 1)] (w # ws) cs n" g "''a@b.c''"]] assms(2)
  by (simp add: solo_sys_def set_request_def Release_def solo_state_def gm_count_def notifyWaiterLocked_def)

lemma solo_cancel:
  assumes "pool_run s es (solo_sys R use ws cs n)" "R g = Some (Parked any_request w)"
  shows "pool_run s (es @ [Request_event]) (solo_sys (R(g \<mapsto> Ended)) use (remove1 w ws) cs n)"
  using pool_run.more [OF assms(1) pool_step.cancel [of "solo_sys R use ws cs n" g any_request w]] assms(2)
  by (simp add: solo_sys_def set_request_def removeWaiterLocked_def solo_state_def)

lemma solo_reset:
  assumes "pool_run s es (solo_sys R use [] cs n)"
  shows "pool_run s (es @ [Reset_event solo_store]) (solo_sys R [] [] cs n)"
proof -
  have "(Reset no_env 0 ((solo_state use [] cs n)\<lparr>store := solo_store\<rparr>))\<lparr>store := solo_store\<rparr> = solo_state [] [] cs n"
    by (simp add: Reset_def reset_accounts_def solo_state_def solo_store_facts drainWaitersLocked_def reset_health_def
      reset_persisted_def persistedCooldownHealth_def RuntimeAccountMaxInflight_def RuntimeAccountMaxQueue_def
      RuntimeGlobalMaxInflight_def defaultRecommendedConcurrency_def env_positive_def no_env_def solo_ident
      time_unix_def Let_def insort_key.simps) (simp add: solo_account_def empty_account_def)
  then show ?thesis
    using pool_run.more [OF assms(1) pool_step.reset [OF solo_store_index, of "solo_sys R use [] cs n" no_env 0]]
    by (simp add: solo_sys_def) (simp add: solo_state_def)
qed

text \<open>The first request holds the account, the second and third are parked.\<close>

definition three_requests :: "nat \<Rightarrow> request_state option" where
  "three_requests = [1 \<mapsto> Holding ''a@b.c'', 2 \<mapsto> Parked any_request 0, 3 \<mapsto> Parked any_request 1]"

definition solo_events :: "pool_event list" where
  "solo_events = concat (replicate 3 [Arrive_event any_request, Request_event])"

lemma solo_names: "clear_names solo_store solo_events" "no_reset solo_events"
  by (simp_all add: clear_names_def run_names_def run_stores_def solo_events_def solo_store_facts names_account_def solo_ident
      numeral_eq_Suc any_request_def no_reset_def)

lemma solo_run:
  "pool_run (fresh_system no_env 0 solo_store) solo_events
     (solo_sys three_requests [(''a@b.c'', 1)] [0, 1] [] 2)"
proof -
  have 0: "pool_run (fresh_system no_env 0 solo_store) [] (solo_sys (\<lambda>_. None) [] [] [] 0)"
    unfolding solo_fresh by (rule pool_run.start)
  note 2 = solo_attempt_got [OF solo_arrive [OF 0, of 1], of 1, simplified]
  note 4 = solo_attempt_park [OF solo_arrive [OF 2, of 2], of 2, simplified]
  note 6 = solo_attempt_park [OF solo_arrive [OF 4, of 3], of 3, simplified]
  show ?thesis using 6 by (simp add: numeral_eq_Suc three_requests_def solo_events_def)
qed

text \<open>
  A lost wake-up. The first request releases while the second one's context is cancelled: the
  notification goes to the second request, which leaves without passing it on, and the third stays
  parked although the account is free and nobody holds it.
\<close>

lemma lost_wakeup:
  "\<exists>es t. pool_run (fresh_system no_env 0 solo_store) es t \<and> requests t 3 = Some (Parked any_request 1) \<and>
     1 \<notin> set (closed (pool t)) \<and> (\<forall>g i. requests t g \<noteq> Some (Holding i)) \<and> eligible now (pool t) ''a@b.c''"
proof -
  let ?t = "solo_sys [3 \<mapsto> Parked any_request 1, 1 \<mapsto> Ended, 2 \<mapsto> Ended] [] [1] [0] 2"
  note r = solo_release [OF solo_run [unfolded three_requests_def], of 1, simplified]
  note c = solo_cancel [OF r, of 2 0, simplified]
  have "eligible now (solo_state [] [1] [0] 2) ''a@b.c''"
    by (simp add: eligible_def solo_state_def solo_store_facts solo_enabled health_view_def)
  then have "eligible now (pool ?t) ''a@b.c''" by (simp add: solo_sys_def)
  moreover have "\<exists>es. pool_run (fresh_system no_env 0 solo_store) es ?t" using c by auto
  moreover have "requests ?t 3 = Some (Parked any_request 1)" "1 \<notin> set (closed (pool ?t))"
      "\<forall>g i. requests ?t g \<noteq> Some (Holding i)"
    by (auto simp: solo_sys_def solo_state_def)
  ultimately show ?thesis by blast
qed

text \<open>
  A reset while a request holds the account forgets that request: with a limit of one, a second request gets the same account.
\<close>

lemma reset_exceeds_limit:
  "\<exists>es t. pool_run (fresh_system no_env 0 solo_store) es t \<and> Limits_event \<notin> set es \<and> maxInflightPerAccount (pool t) = 1 \<and>
     requests t 1 = Some (Holding ''a@b.c'') \<and> requests t 2 = Some (Holding ''a@b.c'')"
proof -
  have 0: "pool_run (fresh_system no_env 0 solo_store) [] (solo_sys (\<lambda>_. None) [] [] [] 0)"
    unfolding solo_fresh by (rule pool_run.start)
  note 2 = solo_attempt_got [OF solo_arrive [OF 0, of 1], of 1, simplified]
  note 3 = solo_attempt_got [OF solo_arrive [OF solo_reset [OF 2], of 2], of 2, simplified]
  show ?thesis by (intro exI conjI, rule 3) (simp_all add: solo_sys_def solo_state_def)
qed

text \<open>
  A target given as another spelling of the account's mobile number is counted under that spelling
  but released under the canonical identifier: the slot is never returned, and the account's limit
  does not apply to it.
\<close>

definition mobile_store :: Store where
  "mobile_store = rebuildIndexes \<lparr>cfgKeys = [], cfgAPIKeys = [],
     cfgAccounts = [empty_account\<lparr>Mobile := ''+8613812345678''\<rparr>],
     cfgModelAliases = [], cfgAccountMaxInflight = 1, cfgAccountMaxQueue = 5, cfgGlobalMaxInflight = 9,
     cfgTokenRefreshIntervalHours = 0, keyMap = [], accMap = [], accTest = [], accTestResult = [], accSess = []\<rparr>"

lemma mobile_ident:
  "Identifier (empty_account\<lparr>Mobile := ''+8613812345678''\<rparr>) = ''+8613812345678''"
  "TrimSpace ''13812345678'' = ''13812345678''" "CanonicalMobileKey ''13812345678'' = ''+8613812345678''"
  by code_simp+

lemma mobile_store_find:
  "FindAccount mobile_store ''13812345678'' = Some (empty_account\<lparr>Mobile := ''+8613812345678''\<rparr>)"
  by (simp add: mobile_store_def FindAccount_def findAccountIndexLocked_def
      lookup_candidates_def rebuildIndexes_def rebuild_step_def mobile_ident)

lemma alias_target_leaks_slot:
  assumes "store p = mobile_store" "inUse p = []" "health p = []" "maxInflightPerAccount p = 1" "globalMaxInflight p = 9"
  shows "\<exists>acc q. acquireLocked now ''13812345678'' [] p = (Some acc, q) \<and>
     Identifier acc = ''+8613812345678'' \<and>
     inUse (Release (Identifier acc) q) = [(''13812345678'', 1)]"
  using assms mobile_store_find
  by (simp add: acquireLocked_def canAcquireIDLocked_def accountHealthLocked_def currentInUseLocked_def take_slot_def
      Release_def mobile_ident gm_count_def) (simp add: empty_account_def)

section \<open>Correctness of the pool\<close>

lemma solo_store_reach: "store_reach solo_store"
  unfolding solo_store_def by (rule store_reach.loaded)







text \<open>Which account is handed out. Without a target, the pool takes the first identifier of the
  queue that is not excluded and eligible (configured, enabled, healthy at this time, below its
  limit, with the global limit not reached), returns its account, counts it and moves it to the
  end of the queue; it fails exactly when there is none, and then nothing but expired health
  entries changes.\<close>
theorem try_acquire_first_eligible:
  "case List.find (\<lambda>i. i \<notin> set exclude \<and> eligible now p i) (queue p) of
     None \<Rightarrow> fst (acquireLocked now '''' exclude p) = None \<and> purged now p (snd (acquireLocked now '''' exclude p))
   | Some i \<Rightarrow> \<exists>acc p'. acquireLocked now '''' exclude p = (Some acc, p') \<and>
       FindAccount (store p) i = Some acc \<and> \<not> Disabled acc \<and> store p' = store p \<and>
       queue p' = remove1 i (queue p) @ [i] \<and>
       (\<forall>j. gm_count (inUse p') j = gm_count (inUse p) j + (if j = i then 1 else 0)) \<and>
       health_view now p' = health_view now p"
proof -
  have eq: "(\<lambda>i. i \<notin> set exclude \<and> eligible now p i) = candidate now exclude p"
    by (simp add: fun_eq_iff candidate_def)
  have spec: "attempt_result now p (List.find (candidate now exclude p) (queue p)) (acquireLocked now '''' exclude p)"
    using acquireLocked_spec [of now p "''''" exclude] by (simp add: acquire_choice_def)
  show ?thesis
  proof (cases "List.find (candidate now exclude p) (queue p)")
    case None
    then show ?thesis using spec by (simp add: eq attempt_result_def)
  next
    case (Some i)
    with spec obtain acc p1 where a: "FindAccount (store p) i = Some acc" "\<not> Disabled acc" "purged now p p1"
        "acquireLocked now '''' exclude p = (Some acc, take_slot i p1)" by (auto simp: attempt_result_def)
    have q: "queue (take_slot i p1) = remove1 i (queue p) @ [i]"
      using find_candidate [OF Some] purged_fields(2) [OF a(3)] by (simp add: take_slot_def bumpQueue_def)
    have "health_view now (take_slot i p1) = health_view now p"
      using a(3) by (simp add: fun_eq_iff health_view_def purged_def)
    then show ?thesis using a q purged_fields [OF a(3)] by (auto simp: eq Some)
  qed
qed

text \<open>Cooldowns and bans. After \<^verbatim>\<open>MarkRateLimited\<close> or \<^verbatim>\<open>MarkTemporaryMute\<close> the account is blocked
  exactly until the given instant (one minute or seven days when none is given), after
  \<^verbatim>\<open>MarkPermanentlyBanned\<close> or \<^verbatim>\<open>MarkInvalidCredentials\<close> at every time; \<^verbatim>\<open>ClearHealth\<close> unblocks it; other
  accounts are not affected, and a blocked account's session bindings are gone.\<close>
theorem health_blocks_account:
  assumes "i \<noteq> ''''" "affinity_wf (affinity p)"
  shows "let u = (if until = zero_time then now + minute_ns else until);
             v = (if until = zero_time then now + 168 * hour_ns else until);
             rl = MarkRateLimited now i until reason p; tm = MarkTemporaryMute now i until reason p;
             pb = MarkPermanentlyBanned now i reason p; ic = MarkInvalidCredentials now i reason p in
      (\<forall>t \<ge> now. (health_view t rl i \<noteq> None \<longleftrightarrow> t < u) \<and> (health_view t tm i \<noteq> None \<longleftrightarrow> t < v)) \<and>
      (\<forall>t. health_view t pb i \<noteq> None \<and> health_view t ic i \<noteq> None \<and>
           \<not> eligible t pb i \<and> \<not> eligible t ic i \<and> health_view t (ClearHealth i pb) i = None) \<and>
      (\<forall>t j. j \<noteq> i \<longrightarrow> health_view t rl j = health_view t p j \<and> health_view t tm j = health_view t p j \<and>
           health_view t pb j = health_view t p j \<and> health_view t ic j = health_view t p j) \<and>
      (\<forall>k. bound_to (affinity pb) k \<noteq> Some i \<and> bound_to (affinity ic) k \<noteq> Some i \<and>
           (now < u \<longrightarrow> bound_to (affinity rl) k \<noteq> Some i) \<and> (now < v \<longrightarrow> bound_to (affinity tm) k \<noteq> Some i))"
  using assms aff.forgotten [OF assms(2,1)]
  by (auto simp: Let_def MarkRateLimited_def MarkTemporaryMute_def MarkPermanentlyBanned_def MarkInvalidCredentials_def
      markTransientAccount_def markBlockedAccount_def ClearHealth_def setHealthLocked_def forgetAffinity_def
      health_view_def health_expired_def isTransientHealth_def eligible_def gm_get_set gm_get_del
      HealthRateLimited_def HealthTemporarilyMuted_def HealthPermanentlyBanned_def HealthInvalidCredentials_def
      defaultMuteCooldown_def defaultRateLimitCooldown_def minute_ns_def hour_ns_def sec_ns_def)

theorem health_blocks_account_witness:
  "health_view 5 (MarkRateLimited 0 ''a@b.c'' 10 ''slow down'' (solo_state [] [] [] 0)) ''a@b.c'' \<noteq> None"
  using health_blocks_account [where i = "''a@b.c''" and p = "solo_state [] [] [] 0" and until = 10 and now = 0 and reason = "''slow down''"]
    affinity_wf_New [of no_env]
  by (simp add: solo_state_def Let_def zero_time_def)

lemma insort_key_between:
  "\<forall>y \<in> set xs. f y < f x \<Longrightarrow> \<forall>y \<in> set ys. f x \<le> f y \<Longrightarrow> insort_key f x (xs @ ys) = xs @ x # ys"
  by (induction xs) (auto simp: insort_is_Cons)

lemma sort_key_two:
  "(\<And>x. f x = 0 \<or> f x = Suc 0) \<Longrightarrow> sort_key f xs = filter (\<lambda>x. f x = 0) xs @ filter (\<lambda>x. f x = Suc 0) xs"
proof (induction xs)
  case (Cons x xs)
  let ?a = "filter (\<lambda>x. f x = 0) xs" and ?b = "filter (\<lambda>x. f x = Suc 0) xs"
  have IH: "sort_key f xs = ?a @ ?b" using Cons by simp
  show ?case
  proof (cases "f x = 0")
    case True
    then show ?thesis using insort_key_between [of "[]" f x "?a @ ?b"] IH by simp
  next
    case False
    then have "f x = Suc 0" using Cons.prems [of x] by simp
    then show ?thesis using insort_key_between [of ?a f x ?b] IH by simp
  qed
qed simp

lemma gm_get_fold_set:
  "gm_wf ps \<Longrightarrow> gm_get (fold (\<lambda>(i, h). gm_set i h) ps m) i = (case gm_get ps i of Some h \<Rightarrow> Some h | None \<Rightarrow> gm_get m i)"
proof (induction ps arbitrary: m)
  case (Cons x ps)
  obtain j h where x: "x = (j, h)" by (cases x)
  have "gm_wf ps" "gm_get ps j = None" using Cons.prems by (auto simp: x gm_wf_def map_of_eq_None_iff)
  then show ?case using Cons.IH by (auto simp: x gm_get_set split: option.splits)
qed simp

lemma reset_persisted_wf: "gm_wf (reset_persisted now accs)"
proof -
  have "gm_wf m \<Longrightarrow> gm_wf (fold (\<lambda>a m. case persistedCooldownHealth now a of
     Some h \<Rightarrow> gm_set (Identifier a) h m | None \<Rightarrow> m) accs m)" for m
    by (induction accs arbitrary: m) (auto split: option.splits)
  then show ?thesis by (simp add: reset_persisted_def)
qed

lemma reset_persisted_from:
  "gm_get (reset_persisted now accs) i = Some h \<Longrightarrow>
     \<exists>a \<in> set accs. Identifier a = i \<and> persistedCooldownHealth now a = Some h"
proof -
  have "gm_get (fold (\<lambda>a m. case persistedCooldownHealth now a of
     Some h \<Rightarrow> gm_set (Identifier a) h m | None \<Rightarrow> m) accs m) i = Some h \<Longrightarrow>
     gm_get m i = Some h \<or> (\<exists>a \<in> set accs. Identifier a = i \<and> persistedCooldownHealth now a = Some h)" for m
  proof (induction accs arbitrary: m)
    case (Cons a accs)
    then show ?case
      by (cases "persistedCooldownHealth now a") (fastforce simp: gm_get_set split: if_splits)+
  qed simp
  then show "gm_get (reset_persisted now accs) i = Some h \<Longrightarrow> ?thesis" by (fastforce simp: reset_persisted_def)
qed

lemma reset_health_get:
  assumes "gm_wf old" "gm_wf ps"
  shows "gm_get (reset_health now ids ps old) i = (case gm_get ps i of Some h \<Rightarrow> Some h
     | None \<Rightarrow> (case gm_get old i of Some h \<Rightarrow> if i \<in> set ids \<and> \<not> health_expired now h then Some h else None | None \<Rightarrow> None))"
proof -
  let ?up = "map (\<lambda>(i, h). (i, case gm_get ps i of Some h' \<Rightarrow> h' | None \<Rightarrow> h)) old"
  have wf: "gm_wf ?up" using assms(1) by (simp add: gm_wf_def case_prod_unfold comp_def)
  have up: "gm_get ?up i = map_option (\<lambda>h. case gm_get ps i of Some h' \<Rightarrow> h' | None \<Rightarrow> h) (gm_get old i)"
    by (induction old) (auto split: option.splits)
  show ?thesis
    unfolding reset_health_def gm_get_fold_set [OF assms(2)] gm_get_filter [OF wf] up
    by (simp split: option.splits)
qed

text \<open>Resetting. \<^verbatim>\<open>Reset\<close> rebuilds the queue from the enabled accounts that have an identifier, those
  with a token first and otherwise in configuration order, wakes every parked request, and keeps
  for each queued account its persisted cooldown, else its unexpired or permanent block; blocks of
  accounts no longer queued are dropped.\<close>
theorem reset_rebuilds:
  assumes "gm_wf (health p)"
  shows "let q = Reset getenv now p; accs = filter (\<lambda>a. \<not> Disabled a \<and> Identifier a \<noteq> '''') (Accounts (store p)) in
    queue q = map Identifier (filter (\<lambda>a. Token a \<noteq> '''') accs) @ map Identifier (filter (\<lambda>a. Token a = '''') accs) \<and>
    inUse q = [] \<and> waiters q = [] \<and> set (closed q) = set (waiters p) \<union> set (closed p) \<and>
    (\<forall>i. i \<notin> set (queue q) \<longrightarrow> health_view now q i = None) \<and>
    (\<forall>i. i \<in> set (queue q) \<and> (\<forall>a \<in> set accs. Identifier a = i \<longrightarrow> persistedCooldownHealth now a = None) \<longrightarrow>
       health_view now q i = health_view now p i)"
proof -
  let ?q = "Reset getenv now p" and ?accs = "filter (\<lambda>a. \<not> Disabled a \<and> Identifier a \<noteq> '''') (Accounts (store p))"
  let ?ra = "reset_accounts (store p)" and ?ps = "reset_persisted now (reset_accounts (store p))"
  have ra: "?ra = filter (\<lambda>a. Token a \<noteq> '''') ?accs @ filter (\<lambda>a. Token a = '''') ?accs"
    unfolding reset_accounts_def
    by (subst sort_key_two) (auto simp: filter_filter intro: arg_cong2 [where f = append] filter_cong)
  have h: "health ?q = reset_health now (map Identifier ?ra) ?ps (health p)" and q: "queue ?q = map Identifier ?ra"
    and rest: "inUse ?q = []" "waiters ?q = []" "set (closed ?q) = set (waiters p) \<union> set (closed p)"
    by (auto simp: Reset_def Let_def drainWaitersLocked_def)
  note get = reset_health_get [OF assms reset_persisted_wf]
  have out: "health_view now ?q i = None" if "i \<notin> set (queue ?q)" for i
    using that reset_persisted_from [of now ?ra i] unfolding health_view_def h get q
    by (fastforce split: option.splits)
  have keep: "health_view now ?q i = health_view now p i"
    if "i \<in> set (queue ?q)" "\<forall>a \<in> set ?accs. Identifier a = i \<longrightarrow> persistedCooldownHealth now a = None" for i
  proof -
    have "gm_get ?ps i = None"
      using reset_persisted_from [of now ?ra i] that(2) reset_accounts_set [of "store p"]
      by (cases "gm_get ?ps i") fastforce+
    then show ?thesis using that(1) unfolding health_view_def h get q by (simp split: option.splits)
  qed
  have "queue ?q = map Identifier (filter (\<lambda>a. Token a \<noteq> '''') ?accs) @ map Identifier (filter (\<lambda>a. Token a = '''') ?accs)"
    unfolding q ra by simp
  then show ?thesis unfolding Let_def using out keep rest by blast
qed

theorem reset_rebuilds_witness:
  "queue (Reset no_env 0 (solo_state [(''a@b.c'', 1)] [0, 1] [] 2)) = [''a@b.c''] \<and>
   set (closed (Reset no_env 0 (solo_state [(''a@b.c'', 1)] [0, 1] [] 2))) = {0, 1}"
proof -
  have "gm_wf (health (solo_state [(''a@b.c'', 1)] [0, 1] [] 2))" by (simp add: solo_state_def)
  from reset_rebuilds [OF this, of no_env 0] show ?thesis
    by (auto simp: Let_def solo_state_def solo_store_facts solo_enabled solo_ident)
qed

end
