(* ===== verification/Request_Auth.thy ===== *)
theory Request_Auth
  imports Account_Pool
begin

text \<open>
  Request authentication, \<^verbatim>\<open>internal/auth/request.go\<close> and \<^verbatim>\<open>account_health.go\<close>, with the conversation
  identity of \<^verbatim>\<open>internal/requestmeta\<close>: which caller a request belongs to, which account serves it,
  how its upstream token is refreshed, and how upstream account errors reach the pool and the
  store. Logging in to the upstream is the argument \<open>Login\<close> (one outcome per call), hashing and JSON
  decoding are arguments. The resolver's functions are sequential; a request that the pool cannot
  serve at once parks, and run alone it stays parked until its context ends, which the model takes
  as the pool's refusal (the interleavings of parked requests are the subject of \<open>Account_Pool\<close>).
\<close>

section \<open>Conversation identity\<close>

record HttpRequest =
  Header :: "string \<Rightarrow> string"
  Query :: "string \<Rightarrow> string"
  UrlPath :: string

definition ConversationIDHeaders :: "string list" where
  "ConversationIDHeaders = [''X-DeepSeek-Web-To-API-Conversation-ID'', ''X-Ds2-Conversation-ID'', ''X-Conversation-ID'',
     ''Conversation-ID'', ''X-Codex-Conversation-ID'', ''X-Codex-Session-ID'', ''X-OpenCode-Conversation-ID'',
     ''X-OpenCode-Session-ID'', ''OpenAI-Conversation-ID'', ''Anthropic-Conversation-ID'', ''X-OpenClaw-Session-Id'',
     ''X-Client-Request-Id'', ''X-Session-Affinity'', ''Session-Id'']"

definition conversationIDBodyKeys :: "string list" where
  "conversationIDBodyKeys = [''conversation_id'', ''conversationid'', ''chat_id'', ''chatid'', ''thread_id'', ''threadid'',
     ''session_id'', ''sessionid'', ''parent_id'', ''parentid'', ''openclaw_session_id'', ''openclawsessionid'']"

definition canonicalIDKey :: "case_table \<Rightarrow> string \<Rightarrow> string" where
  "canonicalIDKey tab key = ToLower tab
     (map (\<lambda>c. if c = CHR ''-'' \<or> c = CHR '' '' then CHR ''_'' else c) (TrimSpace key))"

text \<open>The decoder keeps numbers as their text; \<open>JStr\<close> stands for both.\<close>

definition normalizeID :: "json \<Rightarrow> string" where
  "normalizeID v = (case v of JStr raw0 \<Rightarrow>
       (let raw = TrimSpace raw0 in
        if raw = '''' \<or> 256 < length raw then ''''
        else if list_ex (\<lambda>r. r < 32 \<or> r = 127) (runes raw) then '''' else raw)
     | _ \<Rightarrow> '''')"

fun first_nonempty :: "string list \<Rightarrow> string" where
  "first_nonempty [] = ''''"
| "first_nonempty (x # xs) = (if x \<noteq> '''' then x else first_nonempty xs)"

text \<open>
  The depth is counted down: the code starts at 0 and gives up beyond 3. The loop over the
  object's keys runs in Go's unspecified map order, here the order of the list.
\<close>

fun conversationIDFromJSON :: "case_table \<Rightarrow> nat \<Rightarrow> json \<Rightarrow> string" where
  "conversationIDFromJSON tab 0 val = ''''"
| "conversationIDFromJSON tab (Suc d) val = (case val of
     JObj v \<Rightarrow>
       first_nonempty
         (map (\<lambda>(key, item). if canonicalIDKey tab key \<in> set conversationIDBodyKeys then normalizeID item else '''') v @
          map (\<lambda>key. case gm_get v key of Some nested \<Rightarrow> conversationIDFromJSON tab d nested | None \<Rightarrow> '''')
            [''metadata'', ''conversation'', ''session'', ''thread''])
   | _ \<Rightarrow> '''')"

definition ConversationID :: "case_table \<Rightarrow> json_decoder \<Rightarrow> HttpRequest \<Rightarrow> string \<Rightarrow> string" where
  "ConversationID tab decode_numbers r body =
     (let h = first_nonempty (map (\<lambda>name. normalizeID (JStr (Header r name))) ConversationIDHeaders) in
      if h \<noteq> '''' then h
      else if body = '''' then ''''
      else case decode_numbers body of Some v \<Rightarrow> conversationIDFromJSON tab 4 v | None \<Rightarrow> '''')"

section \<open>Callers\<close>

definition TargetAccountHeader :: string where "TargetAccountHeader = ''X-DeepSeek-Web-To-API-Target-Account''"
definition LegacyTargetAccountHeader :: string where "LegacyTargetAccountHeader = ''X-Ds2-Target-Account''"
definition SessionAffinityHeader :: string where "SessionAffinityHeader = ''X-DeepSeek-Web-To-API-Session-Affinity-Key''"
definition LegacySessionAffinityHeader :: string where "LegacySessionAffinityHeader = ''X-Ds2-Session-Affinity-Key''"

definition requestHeader :: "HttpRequest \<Rightarrow> string \<Rightarrow> string list \<Rightarrow> string" where
  "requestHeader req primary legacy = first_nonempty (map (\<lambda>name. TrimSpace (Header req name)) (primary # legacy))"

definition ParseBool :: "string \<Rightarrow> bool option" where
  "ParseBool s = (if s \<in> {''1'', ''t'', ''T'', ''true'', ''TRUE'', ''True''} then Some True
     else if s \<in> {''0'', ''f'', ''F'', ''false'', ''FALSE'', ''False''} then Some False else None)"

definition allowQueryTokenAuth :: "(string \<Rightarrow> string) \<Rightarrow> bool" where
  "allowQueryTokenAuth getenv = (let v = TrimSpace (getenv ''DEEPSEEK_WEB_TO_API_ALLOW_QUERY_AUTH'') in
     if v = '''' then False else case ParseBool v of Some b \<Rightarrow> b | None \<Rightarrow> False)"

definition extractCallerToken :: "case_table \<Rightarrow> (string \<Rightarrow> string) \<Rightarrow> HttpRequest \<Rightarrow> string" where
  "extractCallerToken tab getenv req =
     (let authHeader = TrimSpace (Header req ''Authorization'');
          bearer = (if prefix ''bearer '' (ToLower tab authHeader) then TrimSpace (drop 7 authHeader) else '''')
      in if bearer \<noteq> '''' then bearer
         else if TrimSpace (Header req ''x-api-key'') \<noteq> '''' then TrimSpace (Header req ''x-api-key'')
         else if TrimSpace (Header req ''x-goog-api-key'') \<noteq> '''' then TrimSpace (Header req ''x-goog-api-key'')
         else if \<not> allowQueryTokenAuth getenv then ''''
         else if TrimSpace (Query req ''key'') \<noteq> '''' then TrimSpace (Query req ''key'')
         else TrimSpace (Query req ''api_key''))"

definition callerTokenID :: "(string \<Rightarrow> string) \<Rightarrow> string \<Rightarrow> string" where
  "callerTokenID hash token0 = (let token = TrimSpace token0 in
     if token = '''' then '''' else ''caller:'' @ short_hex hash token)"

definition sessionKeyFromRequest :: "case_table \<Rightarrow> (string \<Rightarrow> string) \<Rightarrow> json_decoder \<Rightarrow> json_decoder \<Rightarrow> HttpRequest \<Rightarrow> string \<Rightarrow> string \<Rightarrow> string" where
  "sessionKeyFromRequest tab hash decode decode_numbers req callerHash body =
     (let scope = requestHeader req SessionAffinityHeader [LegacySessionAffinityHeader] in
      if scope \<noteq> '''' then ScopedSessionKey hash callerHash scope
      else let conversationID = ConversationID tab decode_numbers req body in
        if conversationID \<noteq> '''' then ScopedSessionKey hash callerHash (''conversation:'' @ conversationID)
        else let bodyKey = SessionKey tab hash decode callerHash body in
          if bodyKey = '''' then ''''
          else if TrimSpace (UrlPath req) \<noteq> ''''
            then ScopedSessionKey hash callerHash (''http:'' @ TrimSpace (UrlPath req) @ '':body:'' @ bodyKey)
          else bodyKey)"

section \<open>The resolver\<close>

record AccountHealthError =
  ahState :: string
  ahUntil :: time
  ahCode :: int
  ahMessage :: string

datatype auth_error =
    ErrUnauthorized
  | ErrNoAccount
  | ErrInvalidDirectToken
  | HealthError AccountHealthError
  | LoginError string
  | StoreError store_error

definition AccountHealthError_Error :: "(time \<Rightarrow> string) \<Rightarrow> AccountHealthError \<Rightarrow> string" where
  "AccountHealthError_Error rfc3339 e =
     (if ahMessage e \<noteq> '''' then ahMessage e
      else if ahState e = HealthTemporarilyMuted then
        (if ahUntil e \<noteq> zero_time then ''account temporarily muted until '' @ rfc3339 (ahUntil e) else ''account temporarily muted'')
      else if ahState e = HealthRateLimited then
        (if ahUntil e \<noteq> zero_time then ''account rate limited until '' @ rfc3339 (ahUntil e) else ''account rate limited'')
      else if ahState e = HealthPermanentlyBanned then ''account permanently banned''
      else if ahState e = HealthInvalidCredentials then ''account credentials rejected''
      else ''account health rejected'')"

record RequestAuth =
  UseConfigToken :: bool
  DeepSeekToken :: string
  CallerID :: string
  AccountID :: string
  raAccount :: Account
  TriedAccounts :: "string list"
  raSessionKey :: string

record Resolver =
  rpool :: Pool
  tokenRefreshedAt :: "(string, time) gomap"
  invalidDirectAt :: "(string, time) gomap"
  logins :: nat

text \<open>What the environment supplies.\<close>

record Env =
  eTab :: case_table
  eNow :: time
  eStorage :: storage
  eFormat :: "time \<Rightarrow> string"
  eLogin :: "nat \<Rightarrow> Account \<Rightarrow> auth_error + string"

abbreviation rstore :: "Resolver \<Rightarrow> Store" where
  "rstore r \<equiv> store (rpool r)"

definition with_store :: "Store \<Rightarrow> Resolver \<Rightarrow> Resolver" where
  "with_store s r = r\<lparr>rpool := (rpool r)\<lparr>store := s\<rparr>\<rparr>"

definition with_pool :: "(Pool \<Rightarrow> Pool) \<Rightarrow> Resolver \<Rightarrow> Resolver" where
  "with_pool f r = r\<lparr>rpool := f (rpool r)\<rparr>"

subsection \<open>Rejected direct tokens\<close>

definition invalidDirectTokenTTL :: int where "invalidDirectTokenTTL = 10 * minute_ns"
definition maxInvalidDirectTokenKeys :: nat where "maxInvalidDirectTokenKeys = 4096"

definition directTokenBlocked :: "string \<Rightarrow> time \<Rightarrow> Resolver \<Rightarrow> bool \<times> Resolver" where
  "directTokenBlocked callerID0 now r = (let callerID = TrimSpace callerID0 in
     if callerID = '''' then (False, r)
     else case gm_get (invalidDirectAt r) callerID of
       None \<Rightarrow> (False, r)
     | Some markedAt \<Rightarrow> if invalidDirectTokenTTL \<le> now - markedAt
         then (False, r\<lparr>invalidDirectAt := gm_del callerID (invalidDirectAt r)\<rparr>) else (True, r))"

definition pruneInvalidDirectLocked :: "time \<Rightarrow> (string, time) gomap \<Rightarrow> (string, time) gomap" where
  "pruneInvalidDirectLocked now m = filter (\<lambda>(callerID, markedAt). \<not> invalidDirectTokenTTL \<le> now - markedAt) m"

fun oldest_entry :: "(string, time) gomap \<Rightarrow> string \<Rightarrow> time \<Rightarrow> string" where
  "oldest_entry [] oldestCallerID oldestMarkedAt = oldestCallerID"
| "oldest_entry ((callerID, markedAt) # m) oldestCallerID oldestMarkedAt =
     (if oldestCallerID = '''' \<or> markedAt < oldestMarkedAt then oldest_entry m callerID markedAt
      else oldest_entry m oldestCallerID oldestMarkedAt)"

definition evictOldestInvalidDirectLocked :: "(string, time) gomap \<Rightarrow> (string, time) gomap" where
  "evictOldestInvalidDirectLocked m = (let c = oldest_entry m '''' zero_time in
     if c \<noteq> '''' then gm_del c m else m)"

definition MarkDirectTokenInvalid :: "time \<Rightarrow> RequestAuth \<Rightarrow> Resolver \<Rightarrow> Resolver" where
  "MarkDirectTokenInvalid now a r = (let callerID = TrimSpace (CallerID a) in
     if UseConfigToken a \<or> callerID = '''' then r
     else let m = pruneInvalidDirectLocked now (invalidDirectAt r);
              m' = (if maxInvalidDirectTokenKeys \<le> length m then evictOldestInvalidDirectLocked m else m)
          in r\<lparr>invalidDirectAt := gm_set callerID now m'\<rparr>)"

subsection \<open>Account health\<close>

definition resolvedAccountCooldownUntil :: "time \<Rightarrow> string \<Rightarrow> time \<Rightarrow> time" where
  "resolvedAccountCooldownUntil now state requested =
     (if requested \<noteq> zero_time then requested
      else if state = HealthTemporarilyMuted then now + 7 * 24 * hour_ns
      else if state = HealthRateLimited then now + minute_ns
      else zero_time)"

definition persistAccountCooldown :: "Env \<Rightarrow> string \<Rightarrow> string \<Rightarrow> time \<Rightarrow> Resolver \<Rightarrow> Resolver" where
  "persistAccountCooldown env accountID state until r =
     with_store (snd (SetAccountCooldown (eTab env) (eNow env) (eStorage env) accountID state until (rstore r))) r"

definition persistAutomaticAccountDisable :: "Env \<Rightarrow> string \<Rightarrow> string \<Rightarrow> Resolver \<Rightarrow> Resolver" where
  "persistAutomaticAccountDisable env accountID reason r =
     (if (case FindAccount (rstore r) accountID of
            Some current \<Rightarrow> Disabled current \<and> DisabledReason current = reason | None \<Rightarrow> False) then r
      else with_store (snd (SetAccountDisabled (eTab env) (eNow env) (eStorage env) accountID True reason (rstore r))) r)"

definition mark_cooldown :: "Env \<Rightarrow> (time \<Rightarrow> string \<Rightarrow> time \<Rightarrow> string \<Rightarrow> Pool \<Rightarrow> Pool) \<Rightarrow> string \<Rightarrow> AccountHealthError \<Rightarrow> Resolver \<Rightarrow> Resolver" where
  "mark_cooldown env mark accountID e r =
     (let until0 = resolvedAccountCooldownUntil (eNow env) (ahState e) (ahUntil e);
          p1 = mark (eNow env) accountID until0 (AccountHealthError_Error (eFormat env) e) (rpool r);
          (current, p2) = AccountHealth (eNow env) accountID p1;
          until = (case current of Some h \<Rightarrow> if hState h = ahState e then hUntil h else until0 | None \<Rightarrow> until0)
      in persistAccountCooldown env accountID (ahState e) until (r\<lparr>rpool := p2\<rparr>))"

definition recordAccountHealth :: "Env \<Rightarrow> string \<Rightarrow> auth_error \<Rightarrow> Resolver \<Rightarrow> Resolver" where
  "recordAccountHealth env accountID err r = (if accountID = '''' then r else case err of
     HealthError e \<Rightarrow>
       (let reason = AccountHealthError_Error (eFormat env) e in
        if ahState e = HealthRateLimited then mark_cooldown env MarkRateLimited accountID e r
        else if ahState e = HealthTemporarilyMuted then mark_cooldown env MarkTemporaryMute accountID e r
        else if ahState e = HealthInvalidCredentials then
          persistAutomaticAccountDisable env accountID AccountDisabledInvalidCredentials
            (with_pool (MarkInvalidCredentials (eNow env) accountID reason) r)
        else if ahState e = HealthPermanentlyBanned then
          persistAutomaticAccountDisable env accountID AccountDisabledUpstreamBanned
            (with_pool (MarkPermanentlyBanned (eNow env) accountID reason) r)
        else r)
   | _ \<Rightarrow> r)"

subsection \<open>Tokens\<close>

definition markTokenRefreshedNow :: "time \<Rightarrow> string \<Rightarrow> Resolver \<Rightarrow> Resolver" where
  "markTokenRefreshedNow now accountID r = (if TrimSpace accountID = '''' then r
     else r\<lparr>tokenRefreshedAt := gm_set accountID now (tokenRefreshedAt r)\<rparr>)"

definition clearTokenRefreshMark :: "string \<Rightarrow> Resolver \<Rightarrow> Resolver" where
  "clearTokenRefreshMark accountID r = (if TrimSpace accountID = '''' then r
     else r\<lparr>tokenRefreshedAt := gm_del accountID (tokenRefreshedAt r)\<rparr>)"

definition shouldForceRefresh :: "time \<Rightarrow> string \<Rightarrow> Resolver \<Rightarrow> bool \<times> Resolver" where
  "shouldForceRefresh now accountID r =
     (if TrimSpace accountID = '''' then (False, r)
      else let intervalHours = RuntimeTokenRefreshIntervalHours (rstore r) in
        if intervalHours \<le> 0 then (False, r)
        else case gm_get (tokenRefreshedAt r) accountID of
          Some last_at \<Rightarrow> if last_at = zero_time
            then (False, r\<lparr>tokenRefreshedAt := gm_set accountID now (tokenRefreshedAt r)\<rparr>)
            else (int64_wrap (intervalHours * hour_ns) \<le> now - last_at, r)
        | None \<Rightarrow> (False, r\<lparr>tokenRefreshedAt := gm_set accountID now (tokenRefreshedAt r)\<rparr>))"

definition loginAndPersist :: "Env \<Rightarrow> RequestAuth \<Rightarrow> Resolver \<Rightarrow> auth_error option \<times> RequestAuth \<times> Resolver" where
  "loginAndPersist env a r0 = (let r = r0\<lparr>logins := Suc (logins r0)\<rparr> in
     case eLogin env (logins r0) (raAccount a) of
       Inl err \<Rightarrow> (Some err, a, recordAccountHealth env (AccountID a) err r)
     | Inr token \<Rightarrow>
         (let a' = a\<lparr>raAccount := (raAccount a)\<lparr>Token := token\<rparr>, DeepSeekToken := token\<rparr>;
              r1 = with_pool (ClearHealth (AccountID a)) (markTokenRefreshedNow (eNow env) (AccountID a) r);
              (err, s) = UpdateAccountToken (snd (eStorage env)) (AccountID a) token (rstore r1);
              r2 = with_store s r1
          in case err of
            Some e \<Rightarrow> (Some (StoreError e), a', r2)
          | None \<Rightarrow> (None, a', with_store
              (snd (ClearAccountCooldown (eTab env) (eNow env) (eStorage env) (AccountID a) (rstore r2))) r2)))"

definition ensureManagedToken :: "Env \<Rightarrow> RequestAuth \<Rightarrow> Resolver \<Rightarrow> auth_error option \<times> RequestAuth \<times> Resolver" where
  "ensureManagedToken env a r =
     (if TrimSpace (Token (raAccount a)) = '''' then loginAndPersist env a r
      else case shouldForceRefresh (eNow env) (AccountID a) r of
        (True, r1) \<Rightarrow> loginAndPersist env a r1
      | (False, r1) \<Rightarrow> (None, a\<lparr>DeepSeekToken := Token (raAccount a)\<rparr>, r1))"

definition RefreshToken :: "Env \<Rightarrow> RequestAuth \<Rightarrow> Resolver \<Rightarrow> bool \<times> RequestAuth \<times> Resolver" where
  "RefreshToken env a r =
     (if \<not> UseConfigToken a \<or> AccountID a = '''' then (False, a, r)
      else if TrimSpace (Password (raAccount a)) = '''' then
        (False, a, recordAccountHealth env (AccountID a) (HealthError \<lparr>ahState = HealthInvalidCredentials,
           ahUntil = zero_time, ahCode = 0,
           ahMessage = ''stored token was rejected and no password is available for refresh''\<rparr>) r)
      else let r1 = with_store (snd (UpdateAccountToken (snd (eStorage env)) (AccountID a) '''' (rstore r))) r;
               (err, a', r2) = loginAndPersist env (a\<lparr>raAccount := (raAccount a)\<lparr>Token := ''''\<rparr>\<rparr>) r1
           in (err = None, a', r2))"

definition MarkTokenInvalid :: "Env \<Rightarrow> RequestAuth \<Rightarrow> Resolver \<Rightarrow> RequestAuth \<times> Resolver" where
  "MarkTokenInvalid env a r =
     (if \<not> UseConfigToken a \<or> AccountID a = '''' then (a, r)
      else let r1 = clearTokenRefreshMark (AccountID a) r in
        (a\<lparr>raAccount := (raAccount a)\<lparr>Token := ''''\<rparr>, DeepSeekToken := ''''\<rparr>,
         with_store (snd (UpdateAccountToken (snd (eStorage env)) (AccountID a) '''' (rstore r1))) r1))"

subsection \<open>Acquiring an account\<close>

text \<open>
  The two loops run on fuel, one unit per round; None means the fuel ran out. A round that fails
  to get a token adds the account to the tried ones and releases it.
\<close>

fun acquireManagedRequestAuth ::
  "nat \<Rightarrow> Env \<Rightarrow> string \<Rightarrow> string \<Rightarrow> bool \<Rightarrow> string list \<Rightarrow> auth_error option \<Rightarrow> Resolver \<Rightarrow>
   ((auth_error + RequestAuth) \<times> Resolver) option" where
  "acquireManagedRequestAuth 0 env callerID target allowOverflow tried lastErr r = None"
| "acquireManagedRequestAuth (Suc n) env callerID target allowOverflow tried lastErr r =
     (let giveUp = (case lastErr of Some e \<Rightarrow> e | None \<Rightarrow> ErrNoAccount) in
      if (target = '''' \<or> allowOverflow) \<and> length (Accounts (rstore r)) \<le> length tried then Some (Inl giveUp, r)
      else case attempt_acquire (eNow env) \<lparr>rTarget = target, rPreferred = allowOverflow, rExclude = tried\<rparr> (rpool r) of
        (None, p) \<Rightarrow> Some (Inl giveUp, r\<lparr>rpool := p\<rparr>)
      | (Some acc, p) \<Rightarrow>
          (let a = \<lparr>UseConfigToken = True, DeepSeekToken = '''', CallerID = callerID, AccountID = Identifier acc,
                    raAccount = acc, TriedAccounts = tried, raSessionKey = ''''\<rparr>
           in case ensureManagedToken env a (r\<lparr>rpool := p\<rparr>) of
             (None, a', r1) \<Rightarrow> Some (Inr a', r1)
           | (Some err, a', r1) \<Rightarrow>
               (let tried' = List.insert (AccountID a) tried; r2 = with_pool (Release (AccountID a)) r1 in
                if target \<noteq> '''' \<and> \<not> allowOverflow then Some (Inl err, r2)
                else acquireManagedRequestAuth n env callerID target allowOverflow tried' (Some err) r2)))"

definition bindSessionAffinity :: "time \<Rightarrow> RequestAuth \<Rightarrow> Resolver \<Rightarrow> Resolver" where
  "bindSessionAffinity now a r = (if raSessionKey a = '''' \<or> AccountID a = '''' then r
     else with_pool (\<lambda>p. p\<lparr>affinity := Bind now (raSessionKey a) (AccountID a) (affinity p)\<rparr>) r)"

fun switch_loop :: "nat \<Rightarrow> Env \<Rightarrow> RequestAuth \<Rightarrow> Resolver \<Rightarrow> (bool \<times> RequestAuth \<times> Resolver) option" where
  "switch_loop 0 env a r = None"
| "switch_loop (Suc n) env a r =
     (case attempt_acquire (eNow env) \<lparr>rTarget = '''', rPreferred = False, rExclude = TriedAccounts a\<rparr> (rpool r) of
        (None, p) \<Rightarrow> Some (False, a, r\<lparr>rpool := p\<rparr>)
      | (Some acc, p) \<Rightarrow>
          (case ensureManagedToken env (a\<lparr>raAccount := acc, AccountID := Identifier acc\<rparr>) (r\<lparr>rpool := p\<rparr>) of
             (None, a', r1) \<Rightarrow> Some (True, a', bindSessionAffinity (eNow env) a' r1)
           | (Some err, a', r1) \<Rightarrow>
               switch_loop n env (a'\<lparr>TriedAccounts := List.insert (AccountID a') (TriedAccounts a')\<rparr>)
                 (with_pool (Release (AccountID a')) r1)))"

definition SwitchAccount :: "nat \<Rightarrow> Env \<Rightarrow> RequestAuth \<Rightarrow> Resolver \<Rightarrow> (bool \<times> RequestAuth \<times> Resolver) option" where
  "SwitchAccount n env a r =
     (if \<not> UseConfigToken a then Some (False, a, r)
      else if AccountID a = '''' then switch_loop n env a r
      else switch_loop n env (a\<lparr>TriedAccounts := List.insert (AccountID a) (TriedAccounts a)\<rparr>)
             (with_pool (Release (AccountID a)) r))"

definition Resolver_Release :: "RequestAuth \<Rightarrow> Resolver \<Rightarrow> Resolver" where
  "Resolver_Release a r = (if \<not> UseConfigToken a \<or> AccountID a = '''' then r else with_pool (Release (AccountID a)) r)"

subsection \<open>Entry points\<close>

text \<open>The hashing and decoding functions of the environment.\<close>

record Codec =
  cHash :: "string \<Rightarrow> string"
  cDecode :: json_decoder
  cDecodeNumbers :: json_decoder
  cGetenv :: "string \<Rightarrow> string"

definition direct_auth :: "string \<Rightarrow> string \<Rightarrow> string \<Rightarrow> RequestAuth" where
  "direct_auth token callerID sessionKey = \<lparr>UseConfigToken = False, DeepSeekToken = token, CallerID = callerID,
     AccountID = '''', raAccount = empty_account, TriedAccounts = [], raSessionKey = sessionKey\<rparr>"

definition Determine :: "nat \<Rightarrow> Env \<Rightarrow> Codec \<Rightarrow> HttpRequest \<Rightarrow> Resolver \<Rightarrow> ((auth_error + RequestAuth) \<times> Resolver) option" where
  "Determine n env cd req r = (let callerKey = extractCallerToken (eTab env) (cGetenv cd) req in
     if callerKey = '''' then Some (Inl ErrUnauthorized, r)
     else let callerID = callerTokenID (cHash cd) callerKey in
       if \<not> HasAPIKey (rstore r) callerKey then
         (case directTokenBlocked callerID (eNow env) r of
            (True, r1) \<Rightarrow> Some (Inl ErrInvalidDirectToken, r1)
          | (False, r1) \<Rightarrow> Some (Inr (direct_auth callerKey callerID ''''), r1))
       else acquireManagedRequestAuth n env callerID (requestHeader req TargetAccountHeader [LegacyTargetAccountHeader]) False [] None r)"

definition determineWithSessionKey ::
  "nat \<Rightarrow> Env \<Rightarrow> Codec \<Rightarrow> HttpRequest \<Rightarrow> string \<Rightarrow> string \<Rightarrow> Resolver \<Rightarrow> ((auth_error + RequestAuth) \<times> Resolver) option" where
  "determineWithSessionKey n env cd req body inheritedSessionKey r =
     (let callerKey = extractCallerToken (eTab env) (cGetenv cd) req in
      if callerKey = '''' then Some (Inl ErrUnauthorized, r)
      else
        let callerID = callerTokenID (cHash cd) callerKey;
            sessionKey = (if inheritedSessionKey = '''' \<and> body \<noteq> ''''
              then sessionKeyFromRequest (eTab env) (cHash cd) (cDecode cd) (cDecodeNumbers cd) req (CallerHash (cHash cd) callerKey) body
              else inheritedSessionKey)
        in if \<not> HasAPIKey (rstore r) callerKey then
             (case directTokenBlocked callerID (eNow env) r of
                (True, r1) \<Rightarrow> Some (Inl ErrInvalidDirectToken, r1)
              | (False, r1) \<Rightarrow> Some (Inr (direct_auth callerKey callerID sessionKey), r1))
           else
             let target0 = requestHeader req TargetAccountHeader [LegacyTargetAccountHeader];
                 explicitTarget = (target0 \<noteq> '''');
                 (bound, aff) = (if body \<noteq> '''' \<and> sessionKey \<noteq> '''' \<and> target0 = ''''
                   then Lookup (eNow env) sessionKey (affinity (rpool r)) else ('''', affinity (rpool r)));
                 target = (if bound \<noteq> '''' then bound else target0)
             in case acquireManagedRequestAuth n env callerID target (sessionKey \<noteq> '''' \<and> \<not> explicitTarget) [] None
                       (with_pool (\<lambda>p. p\<lparr>affinity := aff\<rparr>) r) of
                  None \<Rightarrow> None
                | Some (Inl e, r1) \<Rightarrow> Some (Inl e, r1)
                | Some (Inr a, r1) \<Rightarrow>
                    (let a' = a\<lparr>raSessionKey := sessionKey\<rparr> in
                     Some (Inr a', if sessionKey \<noteq> '''' \<and> UseConfigToken a' \<and> AccountID a' \<noteq> ''''
                       then with_pool (\<lambda>p. p\<lparr>affinity := Bind (eNow env) sessionKey (AccountID a') (affinity p)\<rparr>) r1 else r1)))"

definition DetermineCaller :: "Env \<Rightarrow> Codec \<Rightarrow> HttpRequest \<Rightarrow> Resolver \<Rightarrow> (auth_error + RequestAuth) \<times> Resolver" where
  "DetermineCaller env cd req r = (let callerKey = extractCallerToken (eTab env) (cGetenv cd) req in
     if callerKey = '''' then (Inl ErrUnauthorized, r)
     else let callerID = callerTokenID (cHash cd) callerKey in
       if \<not> HasAPIKey (rstore r) callerKey then
         (case directTokenBlocked callerID (eNow env) r of
            (True, r1) \<Rightarrow> (Inl ErrInvalidDirectToken, r1)
          | (False, r1) \<Rightarrow> (Inr (direct_auth callerKey callerID ''''), r1))
       else (Inr (direct_auth '''' callerID ''''), r))"

section \<open>What token handling leaves alone\<close>

definition same_use :: "Resolver \<Rightarrow> Resolver \<Rightarrow> bool" where
  "same_use r r' \<longleftrightarrow> inUse (rpool r') = inUse (rpool r) \<and> queue (rpool r') = queue (rpool r) \<and>
     idents (rstore r') = idents (rstore r) \<and> (index_ok (rstore r) \<longrightarrow> index_ok (rstore r'))"

lemma same_use_refl [simp]: "same_use r r"
  by (simp add: same_use_def)

lemma same_use_trans: "same_use r s \<Longrightarrow> same_use s t \<Longrightarrow> same_use r t"
  by (simp add: same_use_def)

lemma same_use_health:
  "health_change (rpool r) q \<Longrightarrow> same_use r (r\<lparr>rpool := q\<rparr>)"
  using health_change_frame [of "rpool r" q] by (simp add: same_use_def)

lemma same_use_with_store:
  "idents s = idents (rstore r) \<Longrightarrow> (index_ok (rstore r) \<longrightarrow> index_ok s) \<Longrightarrow> same_use r (with_store s r)"
  by (simp add: same_use_def with_store_def)

lemma SetAccountDisabled_index_ok: "index_ok s \<Longrightarrow> index_ok (snd (SetAccountDisabled tab now st k d reason s))"
  by (simp add: SetAccountDisabled_def Update_index_ok)

lemma ClearAccountCooldown_index_ok: "index_ok s \<Longrightarrow> index_ok (snd (ClearAccountCooldown tab now st k s))"
  by (simp add: ClearAccountCooldown_def Let_def SetAccountCooldown_index_ok)

lemma same_use_persistAccountCooldown:
  "storage_keeps (eStorage env) \<Longrightarrow> same_use r (persistAccountCooldown env i state until r)"
  unfolding persistAccountCooldown_def
  by (rule same_use_with_store) (simp_all add: SetAccountCooldown_ids SetAccountCooldown_index_ok)

lemma same_use_persistAutomaticAccountDisable:
  "storage_keeps (eStorage env) \<Longrightarrow> same_use r (persistAutomaticAccountDisable env i reason r)"
  unfolding persistAutomaticAccountDisable_def
  by (auto intro!: same_use_with_store simp: SetAccountDisabled_ids SetAccountDisabled_index_ok)

lemma same_use_mark_cooldown:
  assumes "storage_keeps (eStorage env)" "\<And>until reason. health_change (rpool r) (mark (eNow env) i until reason (rpool r))"
  shows "same_use r (mark_cooldown env mark i e r)"
proof -
  let ?u = "resolvedAccountCooldownUntil (eNow env) (ahState e) (ahUntil e)"
  let ?p1 = "mark (eNow env) i ?u (AccountHealthError_Error (eFormat env) e) (rpool r)"
  have 1: "same_use r (r\<lparr>rpool := ?p1\<rparr>)" using assms(2) by (rule same_use_health)
  have "health_change ?p1 (snd (AccountHealth (eNow env) i ?p1))" by (rule health_change.intros(6))
  then have 2: "same_use (r\<lparr>rpool := ?p1\<rparr>) (r\<lparr>rpool := snd (AccountHealth (eNow env) i ?p1)\<rparr>)"
    using same_use_health [of "r\<lparr>rpool := ?p1\<rparr>"] by simp
  show ?thesis
    using same_use_trans [OF same_use_trans [OF 1 2] same_use_persistAccountCooldown [OF assms(1)]]
    by (simp add: mark_cooldown_def Let_def case_prod_beta)
qed

lemma same_use_recordAccountHealth:
  assumes "storage_keeps (eStorage env)"
  shows "same_use r (recordAccountHealth env i err r)"
proof -
  have d: "same_use r (persistAutomaticAccountDisable env i reason (with_pool f r))"
    if "health_change (rpool r) (f (rpool r))" for f reason
    using same_use_trans [OF same_use_health [OF that] same_use_persistAutomaticAccountDisable [OF assms]]
    by (simp add: with_pool_def)
  show ?thesis
    by (auto simp: recordAccountHealth_def Let_def split: auth_error.splits
        intro!: d same_use_mark_cooldown [OF assms] intro: health_change.intros)
qed

lemma same_use_loginAndPersist:
  assumes st: "storage_keeps (eStorage env)" and ok: "index_ok (rstore r)"
    and l: "loginAndPersist env a r = (err, a', r')"
  shows "same_use r r' \<and> AccountID a' = AccountID a \<and> UseConfigToken a' = UseConfigToken a \<and>
    TriedAccounts a' = TriedAccounts a \<and> (err = None \<longrightarrow> DeepSeekToken a' = Token (raAccount a'))"
proof -
  let ?r0 = "r\<lparr>logins := Suc (logins r)\<rparr>"
  have r0: "same_use r ?r0" by (simp add: same_use_def)
  show ?thesis
  proof (cases "eLogin env (logins r) (raAccount a)")
    case (Inl e)
    then show ?thesis
      using l same_use_trans [OF r0 same_use_recordAccountHealth [OF st]] by (auto simp: loginAndPersist_def Let_def)
  next
    case (Inr token)
    let ?r1 = "with_pool (ClearHealth (AccountID a)) (markTokenRefreshedNow (eNow env) (AccountID a) ?r0)"
    let ?u = "UpdateAccountToken (snd (eStorage env)) (AccountID a) token (rstore ?r1)"
    let ?r2 = "with_store (snd ?u) ?r1"
    have m: "same_use ?r0 (markTokenRefreshedNow (eNow env) (AccountID a) ?r0)"
      by (simp add: same_use_def markTokenRefreshedNow_def)
    have "same_use (markTokenRefreshedNow (eNow env) (AccountID a) ?r0) ?r1"
      unfolding with_pool_def by (rule same_use_health) (rule health_change.intros(5))
    then have 1: "same_use r ?r1" using same_use_trans r0 m by blast
    then have ok1: "index_ok (rstore ?r1)" using ok by (simp add: same_use_def)
    have "same_use ?r1 ?r2"
      by (rule same_use_with_store) (simp_all add: UpdateAccountToken_ids [OF ok1] UpdateAccountToken_index_ok)
    then have 2: "same_use r ?r2" using 1 same_use_trans by blast
    have "same_use ?r2 (with_store (snd (ClearAccountCooldown (eTab env) (eNow env) (eStorage env) (AccountID a) (rstore ?r2))) ?r2)"
      by (rule same_use_with_store) (simp_all add: ClearAccountCooldown_ids [OF st] ClearAccountCooldown_index_ok)
    then have 3: "same_use r (with_store (snd (ClearAccountCooldown (eTab env) (eNow env) (eStorage env) (AccountID a) (rstore ?r2))) ?r2)"
      using 2 same_use_trans by blast
    show ?thesis
      using l Inr 2 3 by (auto simp: loginAndPersist_def Let_def case_prod_beta split: option.splits)
  qed
qed

lemma same_use_ensureManagedToken:
  assumes st: "storage_keeps (eStorage env)" and ok: "index_ok (rstore r)"
    and l: "ensureManagedToken env a r = (err, a', r')"
  shows "same_use r r' \<and> AccountID a' = AccountID a \<and> UseConfigToken a' = UseConfigToken a \<and>
    TriedAccounts a' = TriedAccounts a \<and> (err = None \<longrightarrow> DeepSeekToken a' = Token (raAccount a'))"
proof (cases "TrimSpace (Token (raAccount a)) = ''''")
  case True
  then show ?thesis using l same_use_loginAndPersist [OF st ok] by (simp add: ensureManagedToken_def)
next
  case False
  obtain b r1 where f: "shouldForceRefresh (eNow env) (AccountID a) r = (b, r1)" by fastforce
  have s: "same_use r r1"
    using f by (auto simp: shouldForceRefresh_def Let_def same_use_def split: if_splits option.splits)
  then have ok1: "index_ok (rstore r1)" using ok by (simp add: same_use_def)
  show ?thesis
  proof (cases b)
    case True
    then have "loginAndPersist env a r1 = (err, a', r')" using l False f by (simp add: ensureManagedToken_def)
    from same_use_loginAndPersist [OF st ok1 this] show ?thesis using same_use_trans [OF s] by blast
  next
    case no: False
    then show ?thesis using l False f s by (auto simp: ensureManagedToken_def)
  qed
qed

section \<open>Slots\<close>

definition slots :: "Resolver \<Rightarrow> string \<Rightarrow> int" where
  "slots r i = gm_count (inUse (rpool r)) i"

definition resolver_ok :: "Resolver \<Rightarrow> bool" where
  "resolver_ok r \<longleftrightarrow> index_ok (rstore r) \<and> set (queue (rpool r)) \<subseteq> idents (rstore r) \<and> gm_wf (inUse (rpool r)) \<and>
     (\<forall>i. 0 \<le> slots r i)"

lemma same_use_ok: "same_use r r' \<Longrightarrow> resolver_ok r \<Longrightarrow> resolver_ok r' \<and> slots r' = slots r \<and> idents (rstore r') = idents (rstore r)"
  by (auto simp: same_use_def resolver_ok_def slots_def fun_eq_iff)

lemma Release_ok:
  assumes "resolver_ok r"
  shows "resolver_ok (with_pool (Release i) r)"
    "i \<noteq> '''' \<Longrightarrow> slots (with_pool (Release i) r) j = slots r j - (if j = i \<and> 0 < slots r i then 1 else 0)"
    "idents (rstore (with_pool (Release i) r)) = idents (rstore r)"
  using assms Release_counts [of "rpool r"] by (auto simp: resolver_ok_def slots_def with_pool_def)

lemma attempt_slots:
  assumes ok: "resolver_ok r" and can: "target = '''' \<or> target \<in> idents (rstore r)"
    and a: "attempt_acquire now \<lparr>rTarget = target, rPreferred = pref, rExclude = tried\<rparr> (rpool r) = (res, p)"
  shows "case res of
      None \<Rightarrow> resolver_ok (r\<lparr>rpool := p\<rparr>) \<and> slots (r\<lparr>rpool := p\<rparr>) = slots r \<and> idents (store p) = idents (rstore r)
    | Some acc \<Rightarrow> resolver_ok (r\<lparr>rpool := p\<rparr>) \<and>
        (\<forall>i. slots (r\<lparr>rpool := p\<rparr>) i = slots r i + (if i = Identifier acc then 1 else 0)) \<and>
        Identifier acc \<in> idents (rstore r) - set tried \<and> idents (store p) = idents (rstore r)"
proof -
  let ?req = "\<lparr>rTarget = target, rPreferred = pref, rExclude = tried\<rparr>"
  have ix: "index_ok (rstore r)" "set (queue (rpool r)) \<subseteq> idents (rstore r)"
    using ok by (auto simp: resolver_ok_def)
  then have "\<forall>i \<in> insert (rTarget ?req) (set (queue (rpool r))). i = '''' \<or> names_account (rstore r) i"
    using can idents_name by auto
  from this ix(1) show ?thesis
  proof (cases rule: attempt_named [where now = now])
    case (got acc p1)
    note f = purged_fields [OF got(2)]
    have "Identifier acc \<noteq> ''''" "Identifier acc \<notin> set tried"
      using got(3) by (auto simp: candidate_def eligible_def)
    then have "Identifier acc \<in> idents (rstore r) - set tried" using got(4) by (auto simp: idents_def)
    then show ?thesis using a got(1) ok by (auto simp: resolver_ok_def slots_def f)
  next
    case (none p1)
    note f = purged_fields [OF none(2)]
    have p: "res = None" "p = p1" using a none(1) by simp_all
    show ?thesis unfolding p using ok by (simp add: resolver_ok_def slots_def f fun_eq_iff)
  qed
qed

lemma finite_idents [simp]: "finite (idents s)"
  unfolding idents_id_set id_set_def by simp

lemma card_idents: "card (idents s) \<le> length (Accounts s)"
proof -
  have "card (idents s) \<le> card (Identifier ` set (Accounts s))"
    by (rule card_mono) (auto simp: idents_def)
  also have "\<dots> \<le> length (Accounts s)" by (metis card_image_le card_length finite_set le_trans)
  finally show ?thesis .
qed

text \<open>
  The outcome of the acquisition loop: no error leaves a slot behind, a success takes exactly one,
  and one round per configured identifier is enough.
\<close>

definition acquire_outcome :: "Resolver \<Rightarrow> string set \<Rightarrow> (auth_error + RequestAuth) \<times> Resolver \<Rightarrow> bool" where
  "acquire_outcome r tried = (\<lambda>(res, r'). resolver_ok r' \<and> idents (rstore r') = idents (rstore r) \<and>
     (case res of
        Inl e \<Rightarrow> slots r' = slots r
      | Inr a \<Rightarrow> UseConfigToken a \<and> AccountID a \<in> idents (rstore r) - tried \<and> DeepSeekToken a = Token (raAccount a) \<and>
          (\<forall>i. slots r' i = slots r i + (if i = AccountID a then 1 else 0))))"

lemma acquireManaged_outcome:
  assumes "storage_keeps (eStorage env)" "resolver_ok r" "target = '''' \<or> target \<in> idents (rstore r)"
    "card (idents (rstore r) - set tried) < n"
  shows "\<exists>out. acquireManagedRequestAuth n env callerID target overflow tried lastErr r = Some out \<and>
     acquire_outcome r (set tried) out"
  using assms(2-4)
proof (induction n arbitrary: tried lastErr r)
  case (Suc n)
  obtain res p where a: "attempt_acquire (eNow env) \<lparr>rTarget = target, rPreferred = overflow, rExclude = tried\<rparr> (rpool r) = (res, p)"
    by fastforce
  note sl = attempt_slots [OF Suc.prems(1,2) a]
  show ?case
  proof (cases res)
    case None
    then show ?thesis using sl a Suc.prems(1) by (auto simp: acquire_outcome_def Let_def)
  next
    case (Some acc)
    let ?a = "\<lparr>UseConfigToken = True, DeepSeekToken = '''', CallerID = callerID, AccountID = Identifier acc,
        raAccount = acc, TriedAccounts = tried, raSessionKey = ''''\<rparr>"
    let ?r0 = "r\<lparr>rpool := p\<rparr>" and ?i = "Identifier acc"
    obtain err a' r1 where e: "ensureManagedToken env ?a ?r0 = (err, a', r1)" by (metis surj_pair)
    have ok0: "resolver_ok ?r0" and s0: "\<And>i. slots ?r0 i = slots r i + (if i = ?i then 1 else 0)"
      and i: "?i \<in> idents (rstore r) - set tried" and id0: "idents (rstore ?r0) = idents (rstore r)"
      using sl Some by auto
    have "index_ok (rstore ?r0)" using ok0 by (simp add: resolver_ok_def)
    from same_use_ensureManagedToken [OF assms(1) this e]
    have su: "same_use ?r0 r1" and a': "AccountID a' = ?i" "UseConfigToken a'" "err = None \<longrightarrow> DeepSeekToken a' = Token (raAccount a')"
      by auto
    have ok1: "resolver_ok r1" and s1: "slots r1 = slots ?r0" and id1: "idents (rstore r1) = idents (rstore r)"
      using same_use_ok [OF su ok0] id0 by auto
    show ?thesis
    proof (cases err)
      case None
      then show ?thesis using a Some e ok1 s1 s0 id1 i a' Suc.prems(1) by (auto simp: acquire_outcome_def Let_def)
    next
      case (Some x)
      let ?r2 = "with_pool (Release ?i) r1"
      have ne: "?i \<noteq> ''''" using i by (simp add: idents_def)
      have "0 \<le> slots r ?i" using Suc.prems(1) by (simp add: resolver_ok_def)
      then have s2: "slots ?r2 = slots r"
        using Release_ok(2) [OF ok1 ne] s1 s0 by (auto simp: fun_eq_iff)
      have ok2: "resolver_ok ?r2" and id2: "idents (rstore ?r2) = idents (rstore r)"
        using Release_ok(1,3) [OF ok1] id1 by auto
      show ?thesis
      proof (cases "target \<noteq> '''' \<and> \<not> overflow")
        case True
        then show ?thesis using a \<open>res = Some acc\<close> e Some ok2 s2 id2 Suc.prems(1)
          by (auto simp: acquire_outcome_def Let_def)
      next
        case False
        have "idents (rstore r) - set (List.insert ?i tried) = idents (rstore r) - set tried - {?i}" by auto
        then have "card (idents (rstore ?r2) - set (List.insert ?i tried)) < n"
          using Suc.prems(3) card_Diff1_less [of "idents (rstore r) - set tried" ?i] i id2 by simp
        then obtain out where "acquireManagedRequestAuth n env callerID target overflow (List.insert ?i tried) (Some x) ?r2 = Some out"
            "acquire_outcome ?r2 (set (List.insert ?i tried)) out"
          using Suc.IH [OF ok2] Suc.prems(2) id2 by metis
        moreover then have "acquire_outcome r (set tried) out"
          by (cases out) (auto simp: acquire_outcome_def s2 id2 split: sum.splits)
        moreover have "acquire_outcome r (set tried) (Inl y, r)" for y
          using Suc.prems(1) by (simp add: acquire_outcome_def)
        ultimately show ?thesis
          using a \<open>res = Some acc\<close> e Some False
          by (cases "length (Accounts (rstore r)) \<le> length tried"; cases out) (simp_all add: Let_def, blast)
      qed
    qed
  qed
qed simp

definition switch_outcome :: "Resolver \<Rightarrow> RequestAuth \<Rightarrow> bool \<times> RequestAuth \<times> Resolver \<Rightarrow> bool" where
  "switch_outcome r a = (\<lambda>(done, a', r'). resolver_ok r' \<and> idents (rstore r') = idents (rstore r) \<and>
     (if done then AccountID a' \<in> idents (rstore r) - set (TriedAccounts a) \<and> DeepSeekToken a' = Token (raAccount a') \<and>
        (\<forall>i. slots r' i = slots r i + (if i = AccountID a' then 1 else 0))
      else slots r' = slots r))"

lemma slots_bindSessionAffinity:
  "resolver_ok (bindSessionAffinity now a r) = resolver_ok r" "slots (bindSessionAffinity now a r) = slots r"
  "rstore (bindSessionAffinity now a r) = rstore r"
  by (simp_all add: bindSessionAffinity_def with_pool_def resolver_ok_def slots_def fun_eq_iff)

lemma switch_loop_outcome:
  assumes "storage_keeps (eStorage env)" "resolver_ok r" "card (idents (rstore r) - set (TriedAccounts a)) < n"
  shows "\<exists>out. switch_loop n env a r = Some out \<and> switch_outcome r a out"
  using assms(2-3)
proof (induction n arbitrary: a r)
  case (Suc n)
  let ?tried = "TriedAccounts a"
  obtain res p where at: "attempt_acquire (eNow env) \<lparr>rTarget = '''', rPreferred = False, rExclude = ?tried\<rparr> (rpool r) = (res, p)"
    by fastforce
  note sl = attempt_slots [OF Suc.prems(1) disjI1 [OF refl] at]
  show ?case
  proof (cases res)
    case None
    then show ?thesis using sl at by (auto simp: switch_outcome_def)
  next
    case (Some acc)
    let ?a = "a\<lparr>raAccount := acc, AccountID := Identifier acc\<rparr>" and ?r0 = "r\<lparr>rpool := p\<rparr>" and ?i = "Identifier acc"
    obtain err a' r1 where e: "ensureManagedToken env ?a ?r0 = (err, a', r1)" by (metis surj_pair)
    have ok0: "resolver_ok ?r0" and s0: "\<And>i. slots ?r0 i = slots r i + (if i = ?i then 1 else 0)"
      and i: "?i \<in> idents (rstore r) - set ?tried" and id0: "idents (rstore ?r0) = idents (rstore r)"
      using sl Some by auto
    have "index_ok (rstore ?r0)" using ok0 by (simp add: resolver_ok_def)
    from same_use_ensureManagedToken [OF assms(1) this e]
    have su: "same_use ?r0 r1" and a': "AccountID a' = ?i" "TriedAccounts a' = ?tried"
        "err = None \<longrightarrow> DeepSeekToken a' = Token (raAccount a')" by auto
    have ok1: "resolver_ok r1" and s1: "slots r1 = slots ?r0" and id1: "idents (rstore r1) = idents (rstore r)"
      using same_use_ok [OF su ok0] id0 by auto
    show ?thesis
    proof (cases err)
      case None
      then show ?thesis using at Some e ok1 s1 s0 id1 i a' by (auto simp: switch_outcome_def slots_bindSessionAffinity)
    next
      case (Some x)
      let ?r2 = "with_pool (Release ?i) r1" and ?a2 = "a'\<lparr>TriedAccounts := List.insert ?i ?tried\<rparr>"
      have ne: "?i \<noteq> ''''" using i by (simp add: idents_def)
      have "0 \<le> slots r ?i" using Suc.prems(1) by (simp add: resolver_ok_def)
      then have s2: "slots ?r2 = slots r"
        using Release_ok(2) [OF ok1 ne] s1 s0 by (auto simp: fun_eq_iff)
      have ok2: "resolver_ok ?r2" and id2: "idents (rstore ?r2) = idents (rstore r)"
        using Release_ok(1,3) [OF ok1] id1 by auto
      have "idents (rstore r) - set (List.insert ?i ?tried) = idents (rstore r) - set ?tried - {?i}" by auto
      then have "card (idents (rstore ?r2) - set (TriedAccounts ?a2)) < n"
        using Suc.prems(2) card_Diff1_less [of "idents (rstore r) - set ?tried" ?i] i id2 by simp
      then obtain out where o: "switch_loop n env ?a2 ?r2 = Some out" "switch_outcome ?r2 ?a2 out"
        using Suc.IH [OF ok2] by blast
      then have "switch_outcome r a out"
        by (cases out) (auto simp: switch_outcome_def s2 id2 split: if_splits)
      then show ?thesis using at \<open>res = Some acc\<close> e Some o(1) a' by (simp add: Let_def)
    qed
  qed
qed simp

section \<open>The table of rejected direct tokens\<close>

lemma oldest_entry_spec:
  assumes "\<forall>(c, t) \<in> set m. c \<noteq> ''''" "c0 \<noteq> '''' \<or> m \<noteq> []"
  shows "\<exists>t. (oldest_entry m c0 t0, t) \<in> insert (c0, t0) (set m) \<and> oldest_entry m c0 t0 \<noteq> '''' \<and>
     (\<forall>(c, u) \<in> set m. t \<le> u) \<and> (c0 \<noteq> '''' \<longrightarrow> t \<le> t0)"
  using assms
proof (induction m arbitrary: c0 t0)
  case (Cons x m)
  obtain c u where x: "x = (c, u)" by (cases x)
  have c: "c \<noteq> ''''" using Cons.prems(1) x by auto
  show ?case
  proof (cases "c0 = '''' \<or> u < t0")
    case True
    with Cons.IH [of c u] Cons.prems(1) c obtain t where
      "(oldest_entry m c u, t) \<in> insert (c, u) (set m)" "oldest_entry m c u \<noteq> ''''" "\<forall>(c, u) \<in> set m. t \<le> u" "t \<le> u"
      by (auto simp: x)
    then show ?thesis using True by (intro exI [of _ t]) (auto simp: x)
  next
    case False
    with Cons.IH [of c0 t0] Cons.prems(1) obtain t where
      "(oldest_entry m c0 t0, t) \<in> insert (c0, t0) (set m)" "oldest_entry m c0 t0 \<noteq> ''''" "\<forall>(c, u) \<in> set m. t \<le> u" "t \<le> t0"
      by (auto simp: x)
    then show ?thesis using False by (intro exI [of _ t]) (auto simp: x)
  qed
qed auto

definition direct_wf :: "Resolver \<Rightarrow> bool" where
  "direct_wf r \<longleftrightarrow> gm_wf (invalidDirectAt r) \<and> (\<forall>(c, t) \<in> set (invalidDirectAt r). c \<noteq> '''') \<and>
     length (invalidDirectAt r) \<le> maxInvalidDirectTokenKeys"

lemma length_gm_set: "gm_wf m \<Longrightarrow> length (gm_set k v m) = length m + (if gm_get m k = None then 1 else 0)"
  by (induction m) (auto simp: gm_wf_def map_of_eq_None_iff)

lemma length_gm_del: "gm_wf m \<Longrightarrow> gm_get m k \<noteq> None \<Longrightarrow> length (gm_del k m) < length m"
proof -
  assume "gm_get m k \<noteq> None"
  then obtain v where "(k, v) \<in> set m" by (auto dest: map_of_SomeD)
  then show ?thesis by (auto simp: AList.delete_eq intro: length_filter_less)
qed

lemma MarkDirectTokenInvalid_wf:
  assumes "direct_wf r"
  shows "direct_wf (MarkDirectTokenInvalid now a r)"
proof (cases "UseConfigToken a \<or> TrimSpace (CallerID a) = ''''")
  case True
  then show ?thesis using assms by (simp add: MarkDirectTokenInvalid_def)
next
  case False
  let ?m = "pruneInvalidDirectLocked now (invalidDirectAt r)"
  let ?m' = "if maxInvalidDirectTokenKeys \<le> length ?m then evictOldestInvalidDirectLocked ?m else ?m"
  have wf: "gm_wf ?m" and ne: "\<forall>(c, t) \<in> set ?m. c \<noteq> ''''" and len: "length ?m \<le> maxInvalidDirectTokenKeys"
    using assms by (auto simp: direct_wf_def pruneInvalidDirectLocked_def intro: order_trans [OF length_filter_le])
  have ev: "length (evictOldestInvalidDirectLocked ?m) < length ?m" if some: "?m \<noteq> []"
  proof -
    obtain t where t: "(oldest_entry ?m '''' zero_time, t) \<in> insert ('''', zero_time) (set ?m)" "oldest_entry ?m '''' zero_time \<noteq> ''''"
      using oldest_entry_spec [OF ne, of "''''" zero_time] some by auto
    then have "gm_get ?m (oldest_entry ?m '''' zero_time) = Some t" using gm_get_mem [OF wf] by auto
    then show ?thesis using t(2) length_gm_del [OF wf] by (simp add: evictOldestInvalidDirectLocked_def)
  qed
  have "?m \<noteq> []" if "maxInvalidDirectTokenKeys \<le> length ?m" using that by (auto simp: maxInvalidDirectTokenKeys_def)
  then have "length ?m' < maxInvalidDirectTokenKeys" using ev len by auto
  moreover have "gm_wf ?m'" using wf by (simp add: evictOldestInvalidDirectLocked_def Let_def)
  moreover have "\<forall>(c, t) \<in> set ?m'. c \<noteq> ''''"
    using ne by (auto simp: evictOldestInvalidDirectLocked_def Let_def gm_del_values split: if_splits)
  ultimately show ?thesis
    using False length_gm_set [of ?m' "TrimSpace (CallerID a)" now]
    by (auto simp: MarkDirectTokenInvalid_def direct_wf_def Let_def dest!: gm_set_values)
qed

section \<open>Properties\<close>

definition solo_env :: Env where
  "solo_env = \<lparr>eTab = id, eNow = 0, eStorage = (Inr, None), eFormat = (\<lambda>_. ''''), eLogin = (\<lambda>_ _. Inr ''fresh'')\<rparr>"

definition solo_resolver :: Resolver where
  "solo_resolver = \<lparr>rpool = NewPool no_env 0 solo_store, tokenRefreshedAt = [], invalidDirectAt = [], logins = 0\<rparr>"

lemma solo_resolver_ok: "resolver_ok solo_resolver"
  by (simp add: resolver_ok_def solo_resolver_def solo_pool solo_store_index slots_def idents_def solo_store_facts solo_ident)

lemma solo_storage: "storage_keeps (eStorage solo_env)"
  by (simp add: solo_env_def storage_keeps_db)

lemma solo_idents: "idents (rstore solo_resolver) = {''a@b.c''}"
  by (auto simp: idents_def solo_resolver_def solo_pool solo_store_facts solo_ident)

text \<open>C19: Authenticating takes one slot or none. From a consistent resolver, with a target that is empty or a configured identifier
  (another spelling of the target can leave a slot behind, \<open>alias_target_leaks_slot\<close>), and whatever accounts were tried before:
  a success holds exactly one slot of a configured account that was not yet tried and carries its token, an error holds none;
  releasing the result restores every counter. One round per configured identifier is enough. A wait for a busy account counts as
  the refusal with which the request's context ends it; a wait that is served takes the loop up again on the pool as it is
  then, which is why the accounts tried and the last error are arbitrary.\<close>
theorem managed_acquire_balanced:
  assumes "storage_keeps (eStorage env)" "resolver_ok r" "target = '''' \<or> target \<in> idents (rstore r)"
    "length (Accounts (rstore r)) < n"
  shows "\<exists>res r'. acquireManagedRequestAuth n env callerID target overflow tried lastErr r = Some (res, r') \<and> resolver_ok r' \<and>
    (case res of
       Inl e \<Rightarrow> slots r' = slots r
     | Inr a \<Rightarrow> AccountID a \<in> idents (rstore r) - set tried \<and> DeepSeekToken a = Token (raAccount a) \<and>
         (\<forall>i. slots r' i = slots r i + (if i = AccountID a then 1 else 0)) \<and> slots (Resolver_Release a r') = slots r)"
proof -
  have "card (idents (rstore r) - set tried) \<le> card (idents (rstore r))" by (rule card_mono) auto
  then have "card (idents (rstore r) - set tried) < n" using card_idents [of "rstore r"] assms(4) by simp
  from acquireManaged_outcome [OF assms(1-3) this, of callerID overflow lastErr]
  obtain res r' where f: "acquireManagedRequestAuth n env callerID target overflow tried lastErr r = Some (res, r')"
    and o: "acquire_outcome r (set tried) (res, r')" by auto
  have ok: "resolver_ok r'" using o by (simp add: acquire_outcome_def)
  have "slots (Resolver_Release a r') = slots r" if a: "res = Inr a" for a
  proof -
    have i: "AccountID a \<noteq> ''''" "UseConfigToken a"
      and s: "\<And>i. slots r' i = slots r i + (if i = AccountID a then 1 else 0)" "0 \<le> slots r (AccountID a)"
      using o a assms(2) by (auto simp: acquire_outcome_def idents_def resolver_ok_def)
    show ?thesis using Release_ok(2) [OF ok i(1)] s i by (simp add: Resolver_Release_def fun_eq_iff)
  qed
  then show ?thesis using f o ok by (auto simp: acquire_outcome_def split: sum.splits)
qed

theorem managed_acquire_balanced_witness:
  "\<exists>res r'. acquireManagedRequestAuth 2 solo_env ''caller:1'' ''a@b.c'' False [] None solo_resolver = Some (res, r') \<and> resolver_ok r'"
proof -
  have "length (Accounts (rstore solo_resolver)) < 2" by (simp add: solo_resolver_def solo_pool solo_store_facts)
  then show ?thesis
    using managed_acquire_balanced [OF solo_storage solo_resolver_ok, of "''a@b.c''" 2 "''caller:1''" False "[]" None] solo_idents by auto
qed

text \<open>C24: Switching accounts. \<^verbatim>\<open>SwitchAccount\<close> of a request that holds an account gives that slot back, and
  within one round per identifier it either holds exactly one slot of an account that was never
  tried for this request, or holds none.\<close>
theorem switch_account_balanced:
  assumes "storage_keeps (eStorage env)" "resolver_ok r" "UseConfigToken a" "AccountID a \<noteq> ''''" "0 < slots r (AccountID a)"
    "length (Accounts (rstore r)) < n"
  shows "\<exists>done a' r'. SwitchAccount n env a r = Some (done, a', r') \<and> resolver_ok r' \<and>
    (if done then AccountID a' \<notin> insert (AccountID a) (set (TriedAccounts a)) \<and> AccountID a' \<in> idents (rstore r) \<and>
       (\<forall>i. slots r' i = slots r i - (if i = AccountID a then 1 else 0) + (if i = AccountID a' then 1 else 0))
     else (\<forall>i. slots r' i = slots r i - (if i = AccountID a then 1 else 0)))"
proof -
  let ?r = "with_pool (Release (AccountID a)) r" and ?a = "a\<lparr>TriedAccounts := List.insert (AccountID a) (TriedAccounts a)\<rparr>"
  have rel: "slots ?r i = slots r i - (if i = AccountID a then 1 else 0)" for i
    using Release_ok(2) [OF assms(2,4)] assms(5) by auto
  have "card (idents (rstore ?r) - set (TriedAccounts ?a)) \<le> card (idents (rstore ?r))" by (rule card_mono) auto
  then have "card (idents (rstore ?r) - set (TriedAccounts ?a)) < n"
    using card_idents [of "rstore r"] assms(6) Release_ok(3) [OF assms(2)] by simp
  from switch_loop_outcome [OF assms(1) Release_ok(1) [OF assms(2)] this]
  obtain out where "switch_loop n env ?a ?r = Some out" "switch_outcome ?r ?a out" by blast
  then show ?thesis
    using assms(3,4) Release_ok(3) [OF assms(2)]
    by (cases out) (auto simp: SwitchAccount_def switch_outcome_def rel)
qed

definition solo_held :: Resolver where
  "solo_held = \<lparr>rpool = solo_state [(''a@b.c'', 1)] [] [] 0, tokenRefreshedAt = [], invalidDirectAt = [], logins = 0\<rparr>"

definition solo_auth :: RequestAuth where
  "solo_auth = \<lparr>UseConfigToken = True, DeepSeekToken = ''t'', CallerID = ''c'', AccountID = ''a@b.c'',
     raAccount = solo_account, TriedAccounts = [], raSessionKey = ''''\<rparr>"

theorem switch_account_balanced_witness:
  "\<exists>done a' r'. SwitchAccount 2 solo_env solo_auth solo_held = Some (done, a', r') \<and> resolver_ok r'"
proof -
  have "resolver_ok solo_held"
    by (auto simp: resolver_ok_def solo_held_def solo_state_def solo_store_index slots_def idents_def solo_store_facts
        solo_ident gm_wf_def gm_count_def split: option.splits if_splits)
  moreover have "0 < slots solo_held (AccountID solo_auth)"
    by (simp add: slots_def solo_held_def solo_state_def solo_auth_def gm_count_def)
  moreover have "length (Accounts (rstore solo_held)) < 2" by (simp add: solo_held_def solo_state_def solo_store_facts)
  ultimately show ?thesis
    using switch_account_balanced [OF solo_storage, of solo_held solo_auth 2] by (auto simp: solo_auth_def)
qed

text \<open>
  A failed switch leaves the account identifier in the request, so the handler's deferred
  \<^verbatim>\<open>Release\<close> returns the slot a second time; another request holding the same account loses its slot.
\<close>

lemma failed_switch_releases_twice:
  assumes "rpool r = (solo_state [(''a@b.c'', 2)] [] [] 0)\<lparr>maxInflightPerAccount := 2, globalMaxInflight := 2\<rparr>"
  shows "\<exists>a' r'. SwitchAccount (Suc n) env solo_auth r = Some (False, a', r') \<and> slots (Resolver_Release a' r') ''a@b.c'' = 0"
  using assms
  by (simp add: SwitchAccount_def solo_auth_def with_pool_def attempt_acquire_def acquireLocked_def tryAcquire_def
      solo_state_def Release_def notifyWaiterLocked_def gm_count_def Resolver_Release_def slots_def)

text \<open>
  A request that has tried every account parks as long as the queue has room: no event can serve it.
\<close>

lemma exhausted_request_parks:
  assumes "set (queue p) \<subseteq> set tried" "0 < maxQueueSize p" "int (length (waiters p)) < maxQueueSize p"
  shows "fst (AcquireWait_section now \<lparr>rTarget = '''', rPreferred = False, rExclude = tried\<rparr> p) =
     Parked \<lparr>rTarget = '''', rPreferred = False, rExclude = tried\<rparr> (nextChan p)"
proof -
  have "try_ids now tried ids p = (None, p)" if "set ids \<subseteq> set tried" for ids
    using that by (induction ids) auto
  then have "attempt_acquire now \<lparr>rTarget = '''', rPreferred = False, rExclude = tried\<rparr> p = (None, p)"
    using assms(1) by (simp add: attempt_acquire_def acquireLocked_def tryAcquire_def)
  then show ?thesis using assms by (simp add: AcquireWait_section_def canQueueLocked_def attempt_queue_target_def Let_def)
qed

text \<open>
  The conversation identity depends on the iteration order of the body's map: two orders of the
  same map give two identities.
\<close>

lemma conversation_id_order_dependent:
  "conversationIDFromJSON id 4 (JObj [(''session_id'', JStr ''s1''), (''parent_id'', JStr ''p7'')]) = ''s1''"
  "conversationIDFromJSON id 4 (JObj [(''parent_id'', JStr ''p7''), (''session_id'', JStr ''s1'')]) = ''p7''"
proof -
  have t: "TrimSpace ''session_id'' = ''session_id''" "TrimSpace ''parent_id'' = ''parent_id''"
      "TrimSpace ''s1'' = ''s1''" "TrimSpace ''p7'' = ''p7''" by code_simp+
  have k: "canonicalIDKey id ''session_id'' = ''session_id''" "canonicalIDKey id ''parent_id'' = ''parent_id''"
    by (simp_all add: canonicalIDKey_def t ascii_eval)
  have v: "normalizeID (JStr ''s1'') = ''s1''" "normalizeID (JStr ''p7'') = ''p7''"
    by (simp_all add: normalizeID_def t ascii_eval)
  show "conversationIDFromJSON id 4 (JObj [(''session_id'', JStr ''s1''), (''parent_id'', JStr ''p7'')]) = ''s1''"
    "conversationIDFromJSON id 4 (JObj [(''parent_id'', JStr ''p7''), (''session_id'', JStr ''s1'')]) = ''p7''"
    by (simp_all add: numeral_eq_Suc k v conversationIDBodyKeys_def)
qed

text \<open>Rejected direct tokens. A caller whose direct token was rejected is blocked for the next ten
  minutes and no longer; other callers are not blocked by it; and the table never exceeds its bound of 4096 callers.\<close>
theorem direct_token_block:
  assumes "direct_wf r" "\<not> UseConfigToken a" "TrimSpace (CallerID a) \<noteq> ''''"
  shows "direct_wf (MarkDirectTokenInvalid now a r) \<and>
    (\<forall>t \<ge> now. fst (directTokenBlocked (CallerID a) t (MarkDirectTokenInvalid now a r)) \<longleftrightarrow> t - now < 10 * minute_ns) \<and>
    (\<forall>c t. TrimSpace c \<noteq> TrimSpace (CallerID a) \<and> fst (directTokenBlocked c t (MarkDirectTokenInvalid now a r)) \<longrightarrow>
       fst (directTokenBlocked c t r))"
proof -
  let ?m = "pruneInvalidDirectLocked now (invalidDirectAt r)"
  have wf: "gm_wf (invalidDirectAt r)" using assms(1) by (simp add: direct_wf_def)
  have sub: "gm_get ?m k = Some v \<Longrightarrow> gm_get (invalidDirectAt r) k = Some v" for k v
    using gm_get_filter [OF wf, of "\<lambda>c t. \<not> invalidDirectTokenTTL \<le> now - t"]
    by (auto simp: pruneInvalidDirectLocked_def split: option.splits if_splits)
  then have sub': "gm_get (if b then evictOldestInvalidDirectLocked ?m else ?m) k = Some v \<Longrightarrow>
      gm_get (invalidDirectAt r) k = Some v" for k v b
    by (auto simp: evictOldestInvalidDirectLocked_def Let_def gm_get_del split: if_splits)
  have "fst (directTokenBlocked c t r)"
    if "TrimSpace c \<noteq> TrimSpace (CallerID a)" "fst (directTokenBlocked c t (MarkDirectTokenInvalid now a r))" for c t
    using that assms(2,3) sub' unfolding directTokenBlocked_def MarkDirectTokenInvalid_def Let_def
    by (fastforce simp: gm_get_set split: if_splits option.splits)
  moreover have "fst (directTokenBlocked (CallerID a) t (MarkDirectTokenInvalid now a r)) \<longleftrightarrow> t - now < 10 * minute_ns" for t
    using assms(2,3) by (simp add: directTokenBlocked_def MarkDirectTokenInvalid_def Let_def gm_get_set invalidDirectTokenTTL_def)
  ultimately show ?thesis using MarkDirectTokenInvalid_wf [OF assms(1)] by blast
qed

theorem direct_token_block_witness:
  "fst (directTokenBlocked ''caller:1'' 5 (MarkDirectTokenInvalid 0 (direct_auth ''tok'' ''caller:1'' '''') solo_resolver))"
proof -
  have "direct_wf solo_resolver" by (simp add: direct_wf_def solo_resolver_def)
  moreover have "TrimSpace ''caller:1'' \<noteq> ''''" by code_simp
  ultimately show ?thesis
    using direct_token_block [of solo_resolver "direct_auth ''tok'' ''caller:1'' ''''" 0]
    by (simp add: direct_auth_def minute_ns_def sec_ns_def)
qed

text \<open>Entry points. A request without a token is refused, one whose token is no API key passes
  through with its own token (unless that token was recently rejected) and never takes an account
  slot, and resolving only the caller never takes one either.\<close>
theorem direct_requests_take_no_slot:
  "let key = extractCallerToken (eTab env) (cGetenv cd) req in
   (key = '''' \<longrightarrow> Determine n env cd req r = Some (Inl ErrUnauthorized, r) \<and>
      determineWithSessionKey n env cd req body inh r = Some (Inl ErrUnauthorized, r)) \<and>
   (key \<noteq> '''' \<and> \<not> HasAPIKey (rstore r) key \<longrightarrow>
      (\<exists>res r'. Determine n env cd req r = Some (res, r') \<and> rpool r' = rpool r \<and>
         (case res of Inl e \<Rightarrow> e = ErrInvalidDirectToken
          | Inr a \<Rightarrow> \<not> UseConfigToken a \<and> DeepSeekToken a = key \<and> Resolver_Release a r' = r')) \<and>
      (\<exists>res r'. determineWithSessionKey n env cd req body inh r = Some (res, r') \<and> rpool r' = rpool r \<and>
         (case res of Inl e \<Rightarrow> e = ErrInvalidDirectToken
          | Inr a \<Rightarrow> \<not> UseConfigToken a \<and> DeepSeekToken a = key \<and> Resolver_Release a r' = r'))) \<and>
   rpool (snd (DetermineCaller env cd req r)) = rpool r"
proof -
  have b: "rpool (snd (directTokenBlocked c t r)) = rpool r" for c t
    by (simp add: directTokenBlocked_def Let_def split: option.splits)
  show ?thesis
    using b [of "callerTokenID (cHash cd) (extractCallerToken (eTab env) (cGetenv cd) req)" "eNow env"]
    by (auto simp: Let_def Determine_def determineWithSessionKey_def DetermineCaller_def direct_auth_def Resolver_Release_def
        split: prod.splits bool.splits)
qed

definition plain_codec :: Codec where
  "plain_codec = \<lparr>cHash = (\<lambda>s. s), cDecode = (\<lambda>_. None), cDecodeNumbers = (\<lambda>_. None), cGetenv = no_env\<rparr>"

theorem direct_requests_take_no_slot_witness:
  "Determine 2 solo_env plain_codec \<lparr>Header = (\<lambda>_. ''''), Query = (\<lambda>_. ''''), UrlPath = ''''\<rparr> solo_resolver =
     Some (Inl ErrUnauthorized, solo_resolver)"
proof -
  let ?req = "\<lparr>Header = (\<lambda>_. ''''), Query = (\<lambda>_. ''''), UrlPath = ''''\<rparr>"
  have "extractCallerToken (eTab solo_env) (cGetenv plain_codec) ?req = ''''"
    by (simp add: extractCallerToken_def Let_def ascii_eval allowQueryTokenAuth_def)
  then show ?thesis
    using direct_requests_take_no_slot [where env = solo_env and cd = plain_codec and req = ?req and n = 2 and r = solo_resolver]
    by (simp add: Let_def)
qed

end
