(* ===== verification/Upstream_Status.thy ===== *)
theory Upstream_Status
  imports Request_Auth GoText
begin

text \<open>
  How the client reads the upstream service's answers (\<^verbatim>\<open>deepseek/client/account_health.go\<close>, \<^verbatim>\<open>account_health_stream.go\<close>, \<^verbatim>\<open>errors.go\<close> and
  the status functions of \<^verbatim>\<open>client_auth.go\<close>): which answers mean a banned, muted or rate-limited account, a rejected token or a full
  conversation, how long an account cools down, and the reader that watches a stream for such reports.

  The case table, \<^verbatim>\<open>time.Parse\<close> with the HTTP format and \<^verbatim>\<open>strconv.ParseFloat\<close> are arguments. Seconds in JSON are rationals; the rounding of
  their fraction to a float is not modelled.
\<close>

section \<open>Codes and patterns\<close>

definition loginUserBannedCode :: int where "loginUserBannedCode = 10"
definition upstreamUserBannedCode :: int where "upstreamUserBannedCode = 40012"
definition upstreamAccountDisabledCode :: int where "upstreamAccountDisabledCode = 90008"
definition upstreamMutedCode :: int where "upstreamMutedCode = 50006"
definition defaultMuteMessage :: string where "defaultMuteMessage = ''account temporarily muted by upstream''"
definition defaultBannedMessage :: string where "defaultBannedMessage = ''account permanently banned by upstream''"
definition defaultInvalidCredentialsMessage :: string where "defaultInvalidCredentialsMessage = ''account credentials rejected by upstream''"
definition defaultRateLimitMessage :: string where "defaultRateLimitMessage = ''account temporarily rate limited by upstream''"
definition maxRateLimitCooldown :: int where "maxRateLimitCooldown = 15 * minute_ns"
definition defaultRateLimitStateCooldown :: int where "defaultRateLimitStateCooldown = minute_ns"

text \<open>The patterns; the Chinese ones as their UTF-8 bytes.\<close>

definition ban_patterns :: "string list" where
  "ban_patterns =
     [''user is banned'',
      ''account is banned'',
      ''user has been banned'',
      ''account has been banned'',
      [CHR 0xE7, CHR 0x94, CHR 0xA8, CHR 0xE6, CHR 0x88, CHR 0xB7, CHR 0xE5, CHR 0xB7, CHR 0xB2, CHR 0xE8, CHR 0xA2, CHR 0xAB, CHR 0xE5, CHR 0xB0, CHR 0x81, CHR 0xE7, CHR 0xA6, CHR 0x81],
      [CHR 0xE8, CHR 0xB4, CHR 0xA6, CHR 0xE5, CHR 0x8F, CHR 0xB7, CHR 0xE5, CHR 0xB7, CHR 0xB2, CHR 0xE8, CHR 0xA2, CHR 0xAB, CHR 0xE5, CHR 0xB0, CHR 0x81, CHR 0xE7, CHR 0xA6, CHR 0x81],
      [CHR 0xE8, CHR 0xB4, CHR 0xA6, CHR 0xE6, CHR 0x88, CHR 0xB7, CHR 0xE5, CHR 0xB7, CHR 0xB2, CHR 0xE8, CHR 0xA2, CHR 0xAB, CHR 0xE5, CHR 0xB0, CHR 0x81, CHR 0xE7, CHR 0xA6, CHR 0x81]]"

definition mute_patterns :: "string list" where
  "mute_patterns =
     [''user is muted'',
      ''account is muted'',
      ''user has been muted'',
      ''account has been muted'',
      [CHR 0xE7, CHR 0x94, CHR 0xA8, CHR 0xE6, CHR 0x88, CHR 0xB7, CHR 0xE5, CHR 0xB7, CHR 0xB2, CHR 0xE8, CHR 0xA2, CHR 0xAB, CHR 0xE7, CHR 0xA6, CHR 0x81, CHR 0xE8, CHR 0xA8, CHR 0x80],
      [CHR 0xE8, CHR 0xB4, CHR 0xA6, CHR 0xE5, CHR 0x8F, CHR 0xB7, CHR 0xE5, CHR 0xB7, CHR 0xB2, CHR 0xE8, CHR 0xA2, CHR 0xAB, CHR 0xE7, CHR 0xA6, CHR 0x81, CHR 0xE8, CHR 0xA8, CHR 0x80],
      [CHR 0xE8, CHR 0xB4, CHR 0xA6, CHR 0xE6, CHR 0x88, CHR 0xB7, CHR 0xE5, CHR 0xB7, CHR 0xB2, CHR 0xE8, CHR 0xA2, CHR 0xAB, CHR 0xE7, CHR 0xA6, CHR 0x81, CHR 0xE8, CHR 0xA8, CHR 0x80]]"

definition credential_patterns :: "string list" where
  "credential_patterns =
     [''password or user name is wrong'',
      ''username or password is wrong'',
      ''user name or password is wrong'',
      ''account or password is wrong'',
      ''email or password is wrong'',
      ''invalid password'',
      ''incorrect password'',
      ''wrong password'',
      [CHR 0xE7, CHR 0x94, CHR 0xA8, CHR 0xE6, CHR 0x88, CHR 0xB7, CHR 0xE5, CHR 0x90, CHR 0x8D, CHR 0xE6, CHR 0x88, CHR 0x96, CHR 0xE5, CHR 0xAF, CHR 0x86, CHR 0xE7, CHR 0xA0, CHR 0x81],
      [CHR 0xE8, CHR 0xB4, CHR 0xA6, CHR 0xE5, CHR 0x8F, CHR 0xB7, CHR 0xE6, CHR 0x88, CHR 0x96, CHR 0xE5, CHR 0xAF, CHR 0x86, CHR 0xE7, CHR 0xA0, CHR 0x81],
      [CHR 0xE8, CHR 0xB4, CHR 0xA6, CHR 0xE6, CHR 0x88, CHR 0xB7, CHR 0xE6, CHR 0x88, CHR 0x96, CHR 0xE5, CHR 0xAF, CHR 0x86, CHR 0xE7, CHR 0xA0, CHR 0x81],
      [CHR 0xE5, CHR 0xAF, CHR 0x86, CHR 0xE7, CHR 0xA0, CHR 0x81, CHR 0xE9, CHR 0x94, CHR 0x99, CHR 0xE8, CHR 0xAF, CHR 0xAF],
      [CHR 0xE5, CHR 0xAF, CHR 0x86, CHR 0xE7, CHR 0xA0, CHR 0x81, CHR 0xE4, CHR 0xB8, CHR 0x8D, CHR 0xE6, CHR 0xAD, CHR 0xA3, CHR 0xE7, CHR 0xA1, CHR 0xAE]]"

definition capacity_patterns :: "string list" where
  "capacity_patterns =
     [''conversation context'',
      ''conversation limit'',
      ''conversation turn'',
      ''conversation has reached'',
      ''session context'',
      ''session limit'',
      ''session turn'',
      ''session has reached'',
      ''maximum turns'',
      ''maximum messages'',
      ''too many messages'',
      ''context window'',
      ''context length'',
      ''prompt is too long'',
      ''input is too long'',
      [CHR 0xE4, CHR 0xBC, CHR 0x9A, CHR 0xE8, CHR 0xAF, CHR 0x9D, CHR 0xE4, CHR 0xB8, CHR 0x8A, CHR 0xE4, CHR 0xB8, CHR 0x8B, CHR 0xE6, CHR 0x96, CHR 0x87],
      [CHR 0xE4, CHR 0xBC, CHR 0x9A, CHR 0xE8, CHR 0xAF, CHR 0x9D, CHR 0xE8, CHR 0xBD, CHR 0xAE, CHR 0xE6, CHR 0xAC, CHR 0xA1],
      [CHR 0xE4, CHR 0xBC, CHR 0x9A, CHR 0xE8, CHR 0xAF, CHR 0x9D, CHR 0xE8, CHR 0xBE, CHR 0xBE, CHR 0xE5, CHR 0x88, CHR 0xB0, CHR 0xE4, CHR 0xB8, CHR 0x8A, CHR 0xE9, CHR 0x99, CHR 0x90],
      [CHR 0xE4, CHR 0xBC, CHR 0x9A, CHR 0xE8, CHR 0xAF, CHR 0x9D, CHR 0xE5, CHR 0xB7, CHR 0xB2, CHR 0xE8, CHR 0xBE, CHR 0xBE, CHR 0xE5, CHR 0x88, CHR 0xB0, CHR 0xE4, CHR 0xB8, CHR 0x8A, CHR 0xE9, CHR 0x99, CHR 0x90],
      [CHR 0xE5, CHR 0xAF, CHR 0xB9, CHR 0xE8, CHR 0xAF, CHR 0x9D, CHR 0xE4, CHR 0xB8, CHR 0x8A, CHR 0xE4, CHR 0xB8, CHR 0x8B, CHR 0xE6, CHR 0x96, CHR 0x87],
      [CHR 0xE5, CHR 0xAF, CHR 0xB9, CHR 0xE8, CHR 0xAF, CHR 0x9D, CHR 0xE8, CHR 0xBD, CHR 0xAE, CHR 0xE6, CHR 0xAC, CHR 0xA1],
      [CHR 0xE5, CHR 0xAF, CHR 0xB9, CHR 0xE8, CHR 0xAF, CHR 0x9D, CHR 0xE8, CHR 0xBE, CHR 0xBE, CHR 0xE5, CHR 0x88, CHR 0xB0, CHR 0xE4, CHR 0xB8, CHR 0x8A, CHR 0xE9, CHR 0x99, CHR 0x90],
      [CHR 0xE4, CHR 0xB8, CHR 0x8A, CHR 0xE4, CHR 0xB8, CHR 0x8B, CHR 0xE6, CHR 0x96, CHR 0x87, CHR 0xE9, CHR 0x95, CHR 0xBF, CHR 0xE5, CHR 0xBA, CHR 0xA6],
      [CHR 0xE4, CHR 0xB8, CHR 0x8A, CHR 0xE4, CHR 0xB8, CHR 0x8B, CHR 0xE6, CHR 0x96, CHR 0x87, CHR 0xE8, CHR 0xB6, CHR 0x85, CHR 0xE9, CHR 0x99, CHR 0x90]]"

definition auth_keywords :: "string list" where
  "auth_keywords =
     [''auth'',
      ''authorization'',
      ''credential'',
      ''expired'',
      ''invalid jwt'',
      ''jwt'',
      ''login'',
      ''not login'',
      ''session expired'',
      ''token'',
      ''unauthorized'',
      [CHR 0xE7, CHR 0x99, CHR 0xBB, CHR 0xE5, CHR 0xBD, CHR 0x95],
      [CHR 0xE6, CHR 0x9C, CHR 0xAA, CHR 0xE7, CHR 0x99, CHR 0xBB, CHR 0xE5, CHR 0xBD, CHR 0x95],
      [CHR 0xE8, CHR 0xAE, CHR 0xA4, CHR 0xE8, CHR 0xAF, CHR 0x81],
      [CHR 0xE5, CHR 0x87, CHR 0xAD, CHR 0xE8, CHR 0xAF, CHR 0x81],
      [CHR 0xE4, CHR 0xBC, CHR 0x9A, CHR 0xE8, CHR 0xAF, CHR 0x9D, CHR 0xE8, CHR 0xBF, CHR 0x87, CHR 0xE6, CHR 0x9C, CHR 0x9F],
      [CHR 0xE4, CHR 0xBB, CHR 0xA4, CHR 0xE7, CHR 0x89, CHR 0x8C]]"

definition contains_any :: "string list \<Rightarrow> string \<Rightarrow> bool" where
  "contains_any ps s \<longleftrightarrow> list_ex (\<lambda>p. Contains s p) ps"

definition dashes_to_spaces :: "string \<Rightarrow> string" where
  "dashes_to_spaces s = map (\<lambda>c. if c = CHR ''_'' \<or> c = CHR ''-'' then CHR '' '' else c) s"

definition normalizedAccountFailureMessage :: "case_table \<Rightarrow> string \<Rightarrow> string" where
  "normalizedAccountFailureMessage low message = ToLower low (TrimSpace (dashes_to_spaces message))"

definition explicitPermanentBanMessage :: "case_table \<Rightarrow> string \<Rightarrow> bool" where
  "explicitPermanentBanMessage low message = contains_any ban_patterns (normalizedAccountFailureMessage low message)"

definition explicitMuteMessage :: "case_table \<Rightarrow> string \<Rightarrow> bool" where
  "explicitMuteMessage low message = contains_any mute_patterns (normalizedAccountFailureMessage low message)"

definition loginCredentialsRejected :: "case_table \<Rightarrow> string \<Rightarrow> string \<Rightarrow> bool" where
  "loginCredentialsRejected low msg bizMsg =
     contains_any credential_patterns (dashes_to_spaces (ToLower low (TrimSpace msg @ '' '' @ TrimSpace bizMsg)))"

fun firstNonZero :: "int list \<Rightarrow> int" where
  "firstNonZero [] = 0"
| "firstNonZero (v # vs) = (if v \<noteq> 0 then v else firstNonZero vs)"

definition or_message :: "string \<Rightarrow> string \<Rightarrow> string" where
  "or_message m fallback = (if m = '''' then fallback else m)"

section \<open>Account state in an answer\<close>

definition accountHealthErrorFromCodes :: "case_table \<Rightarrow> int \<Rightarrow> int \<Rightarrow> string \<Rightarrow> string \<Rightarrow> bool \<Rightarrow> AccountHealthError option" where
  "accountHealthErrorFromCodes low code bizCode msg bizMsg includeLoginBan =
     (let message = or_message (TrimSpace bizMsg) (TrimSpace msg); c = firstNonZero [bizCode, code] in
      if (includeLoginBan \<and> (code = loginUserBannedCode \<or> bizCode = loginUserBannedCode)) \<or>
         code = upstreamUserBannedCode \<or> bizCode = upstreamUserBannedCode \<or>
         code = upstreamAccountDisabledCode \<or> bizCode = upstreamAccountDisabledCode \<or> explicitPermanentBanMessage low message
      then Some \<lparr>ahState = HealthPermanentlyBanned, ahUntil = zero_time, ahCode = c, ahMessage = or_message message defaultBannedMessage\<rparr>
      else if includeLoginBan \<and> loginCredentialsRejected low msg bizMsg
      then Some \<lparr>ahState = HealthInvalidCredentials, ahUntil = zero_time, ahCode = c, ahMessage = or_message message defaultInvalidCredentialsMessage\<rparr>
      else if code = upstreamMutedCode \<or> bizCode = upstreamMutedCode \<or> explicitMuteMessage low message
      then Some \<lparr>ahState = HealthTemporarilyMuted, ahUntil = zero_time, ahCode = c, ahMessage = or_message message defaultMuteMessage\<rparr>
      else None)"

definition accountHealthErrorFromResponse :: "case_table \<Rightarrow> int \<Rightarrow> int \<Rightarrow> string \<Rightarrow> string \<Rightarrow> AccountHealthError option" where
  "accountHealthErrorFromResponse low code bizCode msg bizMsg = accountHealthErrorFromCodes low code bizCode msg bizMsg False"

definition loginAccountHealthErrorFromResponse :: "case_table \<Rightarrow> int \<Rightarrow> int \<Rightarrow> string \<Rightarrow> string \<Rightarrow> AccountHealthError option" where
  "loginAccountHealthErrorFromResponse low code bizCode msg bizMsg = accountHealthErrorFromCodes low code bizCode msg bizMsg True"

section \<open>Rate limits\<close>

definition rateLimitUntil :: "(string \<Rightarrow> time option) \<Rightarrow> time \<Rightarrow> string \<Rightarrow> time" where
  "rateLimitUntil parse now retryAfter0 =
     (let retryAfter = TrimSpace retryAfter0;
          from_date = (case parse retryAfter of
            Some parsed \<Rightarrow>
              if now < parsed then (if maxRateLimitCooldown < parsed - now then now + maxRateLimitCooldown else parsed)
              else now + defaultRateLimitStateCooldown
          | None \<Rightarrow> now + defaultRateLimitStateCooldown)
      in case Atoi retryAfter of
        Some seconds \<Rightarrow>
          if 0 < seconds then
            (let cooldown = int64_wrap (seconds * sec_ns) in
             now + (if maxRateLimitCooldown < cooldown then maxRateLimitCooldown else cooldown))
          else from_date
      | None \<Rightarrow> from_date)"

definition accountRateLimitError ::
  "(string \<Rightarrow> time option) \<Rightarrow> time \<Rightarrow> int \<Rightarrow> int \<Rightarrow> int \<Rightarrow> string \<Rightarrow> string \<Rightarrow> string \<Rightarrow> AccountHealthError option" where
  "accountRateLimitError parse now status code bizCode msg bizMsg retryAfter =
     (if status \<noteq> 429 \<and> code \<noteq> 429 \<and> bizCode \<noteq> 429 then None
      else Some \<lparr>ahState = HealthRateLimited, ahUntil = rateLimitUntil parse now retryAfter, ahCode = 429,
        ahMessage = or_message (or_message (TrimSpace bizMsg) (TrimSpace msg)) defaultRateLimitMessage\<rparr>)"

definition isSessionCapacityRateLimit :: "case_table \<Rightarrow> int \<Rightarrow> int \<Rightarrow> int \<Rightarrow> string \<Rightarrow> string \<Rightarrow> string list \<Rightarrow> bool" where
  "isSessionCapacityRateLimit low status code bizCode msg bizMsg extraMessages =
     (if status \<noteq> 429 \<and> code \<noteq> 429 \<and> bizCode \<noteq> 429 then False
      else let message = normalizedAccountFailureMessage low (str_join '' '' ([TrimSpace msg, TrimSpace bizMsg] @ extraMessages))
        in message \<noteq> '''' \<and> contains_any capacity_patterns message)"

datatype RateLimitScope = NoScope | AccountScope | SessionCapacity

definition rateLimitScopeFromResponse :: "case_table \<Rightarrow> int \<Rightarrow> int \<Rightarrow> int \<Rightarrow> string \<Rightarrow> string \<Rightarrow> string list \<Rightarrow> RateLimitScope" where
  "rateLimitScopeFromResponse low status code bizCode msg bizMsg extraMessages =
     (if isSessionCapacityRateLimit low status code bizCode msg bizMsg extraMessages then SessionCapacity
      else if status = 429 \<or> code = 429 \<or> bizCode = 429 then AccountScope else NoScope)"

section \<open>Marking the account of a request\<close>

definition markAccountHealth :: "Env \<Rightarrow> RequestAuth \<Rightarrow> int \<Rightarrow> int \<Rightarrow> string \<Rightarrow> string \<Rightarrow> Resolver \<Rightarrow> AccountHealthError option \<times> Resolver" where
  "markAccountHealth env a code bizCode msg bizMsg r =
     (case accountHealthErrorFromResponse (eTab env) code bizCode msg bizMsg of
        None \<Rightarrow> (None, r)
      | Some e \<Rightarrow>
          if TrimSpace (AccountID a) = '''' then (Some e, r)
          else if \<not> UseConfigToken a \<and> FindAccount (rstore r) (AccountID a) = None then (Some e, r)
          else (Some e, recordAccountHealth env (AccountID a) (HealthError e) r))"

definition markAccountRateLimited ::
  "Env \<Rightarrow> (string \<Rightarrow> time option) \<Rightarrow> RequestAuth \<Rightarrow> int \<Rightarrow> int \<Rightarrow> int \<Rightarrow> string \<Rightarrow> string \<Rightarrow> string \<Rightarrow> string list \<Rightarrow> Resolver \<Rightarrow> Resolver" where
  "markAccountRateLimited env parse a status code bizCode msg bizMsg retryAfter extraMessages r =
     (if rateLimitScopeFromResponse (eTab env) status code bizCode msg bizMsg extraMessages = SessionCapacity then r
      else case accountRateLimitError parse (eNow env) status code bizCode msg bizMsg retryAfter of
        None \<Rightarrow> r
      | Some e \<Rightarrow>
          if TrimSpace (AccountID a) = '''' \<or> \<not> UseConfigToken a \<or> FindAccount (rstore r) (AccountID a) = None then r
          else recordAccountHealth env (AccountID a) (HealthError e) r)"

definition markLoginAccountHealth :: "Env \<Rightarrow> Account \<Rightarrow> AccountHealthError \<Rightarrow> Resolver \<Rightarrow> Resolver" where
  "markLoginAccountHealth env acc e r =
     (let accountID = TrimSpace (Identifier acc) in
      if accountID = '''' \<or> FindAccount (rstore r) accountID = None then r
      else recordAccountHealth env accountID (HealthError e) r)"

definition unixSeconds :: "(string \<Rightarrow> rat) \<Rightarrow> json \<Rightarrow> time" where
  "unixSeconds parseFloat value =
     (let seconds = (case value of JNum r \<Rightarrow> r | JStr s \<Rightarrow> parseFloat (TrimSpace s) | _ \<Rightarrow> 0) in
      if seconds \<le> 0 then zero_time
      else let whole = float_to_int seconds in whole * sec_ns + float_to_int ((seconds - of_int whole) * 1000000000))"

fun truthy :: "json \<Rightarrow> bool" where
  "truthy (JBool b) = b"
| "truthy (JNum r) = (r \<noteq> 0)"
| "truthy (JStr s) = (EqualFoldASCII (TrimSpace s) ''true'' \<or> TrimSpace s = ''1'')"
| "truthy _ = False"

definition accountHealthErrorFromUser :: "(string \<Rightarrow> rat) \<Rightarrow> json_object option \<Rightarrow> AccountHealthError option" where
  "accountHealthErrorFromUser parseFloat user = (case user of
     None \<Rightarrow> None
   | Some u \<Rightarrow>
       (let chat = (case as_obj (jfield u ''chat'') of Some m \<Rightarrow> m | None \<Rightarrow> []) in
        if \<not> truthy (jfield chat ''is_muted'') then None
        else Some \<lparr>ahState = HealthTemporarilyMuted, ahUntil = unixSeconds parseFloat (jfield chat ''mute_until''),
          ahCode = upstreamMutedCode, ahMessage = defaultMuteMessage\<rparr>))"

section \<open>The status of an answer\<close>

definition obj_or_empty :: "json \<Rightarrow> json_object" where
  "obj_or_empty v = (case as_obj v of Some m \<Rightarrow> m | None \<Rightarrow> [])"

record response_status =
  rsCode :: int
  rsBizCode :: int
  rsMsg :: string
  rsBizMsg :: string

definition extractResponseStatus :: "json_object \<Rightarrow> response_status" where
  "extractResponseStatus resp =
     (let data = obj_or_empty (jfield resp ''data''); bizMsg = as_str (jfield data ''biz_msg'') in
      \<lparr>rsCode = IntFrom (jfield resp ''code''), rsBizCode = IntFrom (jfield data ''biz_code''), rsMsg = as_str (jfield resp ''msg''),
       rsBizMsg = (if TrimSpace bizMsg = '''' then (case as_obj (jfield data ''biz_data'') of
           Some bizData \<Rightarrow> as_str (jfield bizData ''msg'') | None \<Rightarrow> bizMsg) else bizMsg)\<rparr>)"

definition extractCreateSessionID :: "json_object \<Rightarrow> string" where
  "extractCreateSessionID resp =
     (let bizData = obj_or_empty (jfield (obj_or_empty (jfield resp ''data'')) ''biz_data'');
          direct = TrimSpace (as_str (jfield bizData ''id'')) in
      if direct \<noteq> '''' then direct
      else case as_obj (jfield bizData ''chat_session'') of
        Some chatSession \<Rightarrow> TrimSpace (as_str (jfield chatSession ''id''))
      | None \<Rightarrow> '''')"

definition extractResponseUser :: "json_object \<Rightarrow> json_object option" where
  "extractResponseUser resp =
     (let data = obj_or_empty (jfield resp ''data'') in
      case as_obj (jfield (obj_or_empty (jfield data ''biz_data'')) ''user'') of
        Some user \<Rightarrow> Some user
      | None \<Rightarrow> as_obj (jfield data ''user''))"

definition isTokenInvalid :: "case_table \<Rightarrow> int \<Rightarrow> int \<Rightarrow> int \<Rightarrow> string \<Rightarrow> string \<Rightarrow> bool" where
  "isTokenInvalid low status code bizCode msg bizMsg =
     (let m = ToLower low (TrimSpace msg @ '' '' @ TrimSpace bizMsg) in
      status = 401 \<or> status = 403 \<or> code \<in> {40001, 40002, 40003} \<or> bizCode \<in> {40001, 40002, 40003} \<or>
      contains_any [''token'', ''unauthorized'', ''expired'', ''not login'', ''login required'', ''invalid jwt''] m)"

definition isAuthIndicativeBizFailure :: "case_table \<Rightarrow> string \<Rightarrow> string \<Rightarrow> bool" where
  "isAuthIndicativeBizFailure low msg bizMsg = contains_any auth_keywords (ToLower low (TrimSpace msg @ '' '' @ TrimSpace bizMsg))"

definition shouldAttemptRefresh :: "case_table \<Rightarrow> int \<Rightarrow> int \<Rightarrow> int \<Rightarrow> string \<Rightarrow> string \<Rightarrow> bool" where
  "shouldAttemptRefresh low status code bizCode msg bizMsg \<longleftrightarrow> isTokenInvalid low status code bizCode msg bizMsg \<or>
     (status = 200 \<and> code = 0 \<and> bizCode \<noteq> 0 \<and> isAuthIndicativeBizFailure low msg bizMsg)"

definition failureMessage :: "string \<Rightarrow> string \<Rightarrow> string \<Rightarrow> string" where
  "failureMessage msg bizMsg fallback = or_message (TrimSpace bizMsg) (or_message (TrimSpace msg) (TrimSpace fallback))"

section \<open>Failures\<close>

datatype FailureKind = FailureUnknown | FailureDirectUnauthorized | FailureManagedUnauthorized | FailureClientCancelled
  | FailureUpstreamTimeout | FailureUpstreamNetwork | FailureUpstreamStatus

text \<open>An error from below: what \<^verbatim>\<open>errors.Is\<close> and \<^verbatim>\<open>errors.As\<close> find in its chain, and its text.\<close>

record cause =
  isCanceled :: bool
  isDeadline :: bool
  isNetTimeout :: bool
  causeText :: string

record RequestFailure =
  rfOp :: string
  rfKind :: FailureKind
  rfMessage :: string
  rfStatusCode :: int
  rfScope :: RateLimitScope
  rfCause :: "cause option"

datatype client_error = Failed RequestFailure | Health AccountHealthError | Other cause

datatype ctx_state = Live | Canceled | DeadlineExceeded

definition authFailureKind :: "bool \<Rightarrow> FailureKind" where
  "authFailureKind useConfigToken = (if useConfigToken then FailureManagedUnauthorized else FailureDirectUnauthorized)"

definition plain_failure :: "string \<Rightarrow> FailureKind \<Rightarrow> string \<Rightarrow> cause option \<Rightarrow> RequestFailure" where
  "plain_failure op kind message c = \<lparr>rfOp = op, rfKind = kind, rfMessage = message, rfStatusCode = 0, rfScope = NoScope, rfCause = c\<rparr>"

definition ctx_cause :: "ctx_state \<Rightarrow> cause" where
  "ctx_cause ctx = \<lparr>isCanceled = (ctx = Canceled), isDeadline = (ctx = DeadlineExceeded), isNetTimeout = (ctx = DeadlineExceeded),
     causeText = (if ctx = Canceled then ''context canceled'' else ''context deadline exceeded'')\<rparr>"

definition firstError :: "cause option \<Rightarrow> cause \<Rightarrow> cause" where
  "firstError primary fallback = (case primary of Some e \<Rightarrow> e | None \<Rightarrow> fallback)"

definition requestContextFailure :: "string \<Rightarrow> ctx_state \<Rightarrow> cause option \<Rightarrow> RequestFailure option" where
  "requestContextFailure op ctx c =
     (if ctx = Canceled then Some (plain_failure op FailureClientCancelled ''client cancelled request'' (Some (firstError c (ctx_cause ctx))))
      else if ctx = DeadlineExceeded then Some (plain_failure op FailureUpstreamTimeout ''request timed out'' (Some (firstError c (ctx_cause ctx))))
      else case c of
        None \<Rightarrow> None
      | Some e \<Rightarrow>
          if isCanceled e then Some (plain_failure op FailureClientCancelled ''client cancelled request'' (Some e))
          else if isDeadline e then Some (plain_failure op FailureUpstreamTimeout ''request timed out'' (Some e))
          else None)"

definition transportFailure :: "string \<Rightarrow> ctx_state \<Rightarrow> cause \<Rightarrow> RequestFailure" where
  "transportFailure op ctx e = (case requestContextFailure op ctx (Some e) of
     Some failure \<Rightarrow> failure
   | None \<Rightarrow> plain_failure op (if isNetTimeout e then FailureUpstreamTimeout else FailureUpstreamNetwork) (causeText e) (Some e))"

definition chain_is :: "(cause \<Rightarrow> bool) \<Rightarrow> client_error \<Rightarrow> bool" where
  "chain_is P e = (case e of Failed f \<Rightarrow> (case rfCause f of Some c \<Rightarrow> P c | None \<Rightarrow> False) | Other c \<Rightarrow> P c | Health _ \<Rightarrow> False)"

definition has_kind :: "FailureKind \<Rightarrow> client_error \<Rightarrow> bool" where
  "has_kind k e = (case e of Failed f \<Rightarrow> rfKind f = k | _ \<Rightarrow> False)"

definition IsManagedUnauthorizedError :: "client_error \<Rightarrow> bool" where
  "IsManagedUnauthorizedError e = has_kind FailureManagedUnauthorized e"

definition IsDirectUnauthorizedError :: "client_error \<Rightarrow> bool" where
  "IsDirectUnauthorizedError e = has_kind FailureDirectUnauthorized e"

definition IsClientCancelledError :: "client_error \<Rightarrow> bool" where
  "IsClientCancelledError e \<longleftrightarrow> chain_is isCanceled e \<or> has_kind FailureClientCancelled e"

definition IsUpstreamTimeoutError :: "client_error \<Rightarrow> bool" where
  "IsUpstreamTimeoutError e \<longleftrightarrow> chain_is isDeadline e \<or> has_kind FailureUpstreamTimeout e"

definition IsSessionCapacityRateLimit :: "client_error \<Rightarrow> bool" where
  "IsSessionCapacityRateLimit e = (case e of Failed f \<Rightarrow> rfScope f = SessionCapacity | _ \<Rightarrow> False)"

definition completionFailureRetryable :: "client_error \<Rightarrow> bool" where
  "completionFailureRetryable e \<longleftrightarrow> \<not> IsClientCancelledError e \<and> \<not> IsUpstreamTimeoutError e"

definition requestFailureWithOp :: "string \<Rightarrow> client_error \<Rightarrow> client_error" where
  "requestFailureWithOp op e = (case e of Failed f \<Rightarrow> Failed (f\<lparr>rfOp := op\<rparr>) | _ \<Rightarrow> e)"

section \<open>Watching a stream\<close>

definition numericCode :: "json \<Rightarrow> int" where
  "numericCode value = (let code = IntFrom value in if code \<noteq> 0 then code
     else case value of JStr raw \<Rightarrow> (case Atoi (TrimSpace raw) of Some n \<Rightarrow> n | None \<Rightarrow> 0) | _ \<Rightarrow> 0)"

fun stringField :: "json_object \<Rightarrow> string list \<Rightarrow> string" where
  "stringField values [] = ''''"
| "stringField values (k # ks) = (let v = TrimSpace (as_str (jfield values k)) in if v \<noteq> '''' then v else stringField values ks)"

fun valueFromMaps :: "string \<Rightarrow> json_object list \<Rightarrow> json" where
  "valueFromMaps key [] = JNull"
| "valueFromMaps key (m # ms) = (case gm_get m key of Some v \<Rightarrow> v | None \<Rightarrow> valueFromMaps key ms)"

definition accountHealthErrorFromSSEChunk :: "case_table \<Rightarrow> (string \<Rightarrow> rat) \<Rightarrow> json_object \<Rightarrow> AccountHealthError option" where
  "accountHealthErrorFromSSEChunk low parseFloat chunk =
     (let code0 = numericCode (jfield chunk ''code''); message0 = stringField chunk [''msg'', ''message''];
          data = as_obj (jfield chunk ''data'');
          (code1, message1) = (case data of
             Some d \<Rightarrow> if code0 = 0 then (firstNonZero [numericCode (jfield d ''code''), numericCode (jfield d ''biz_code'')],
                 or_message message0 (stringField d [''biz_msg'', ''msg'', ''message''])) else (code0, message0)
           | None \<Rightarrow> (code0, message0));
          (code2, message2) = (case as_obj (jfield chunk ''error'') of
             Some errData \<Rightarrow> (if code1 = 0 then numericCode (jfield errData ''code'') else code1,
                 or_message message1 (stringField errData [''message'', ''msg'']))
           | None \<Rightarrow> (code1, message1));
          maps = (case data of Some d \<Rightarrow> [d, chunk] | None \<Rightarrow> [chunk])
      in case accountHealthErrorFromCodes low code2 0 message2 '''' False of
        None \<Rightarrow> None
      | Some e \<Rightarrow>
          if ahState e = HealthTemporarilyMuted then
            (let until = unixSeconds parseFloat (valueFromMaps ''mute_until'' maps) in
             Some (e\<lparr>ahUntil := (if until = zero_time then unixSeconds parseFloat (valueFromMaps ''end_at'' maps) else until)\<rparr>))
          else if ahState e = HealthPermanentlyBanned then Some e
          else None)"

record health_env =
  hDecode :: json_decoder
  hLow :: case_table
  hFloat :: "string \<Rightarrow> rat"

definition line_health :: "health_env \<Rightarrow> string \<Rightarrow> AccountHealthError option" where
  "line_health he line =
     (let trimmed = TrimSpace line in
      if \<not> prefix ''data:'' trimmed then None
      else let payload = TrimSpace (TrimPrefix trimmed ''data:'') in
        if payload = '''' \<or> payload = ''[DONE]'' then None
        else case hDecode he payload of
          Some (JObj chunk) \<Rightarrow> accountHealthErrorFromSSEChunk (hLow he) (hFloat he) chunk
        | _ \<Rightarrow> None)"

text \<open>The reader: the unfinished line, and the report once it is made.\<close>

record health_reader =
  pendingLine :: string
  reported :: "AccountHealthError option"

definition inspectLine :: "health_env \<Rightarrow> string \<Rightarrow> AccountHealthError option \<Rightarrow> AccountHealthError option" where
  "inspectLine he line rep = (case rep of Some e \<Rightarrow> Some e | None \<Rightarrow> line_health he line)"

definition maxAccountHealthSSELineBytes :: nat where
  "maxAccountHealthSSELineBytes = 64 * 1024"

function inspect_loop :: "health_env \<Rightarrow> string \<Rightarrow> AccountHealthError option \<Rightarrow> health_reader" where
  "inspect_loop he pend rep = (case str_index pend [CHR 0x0A] of
     None \<Rightarrow> \<lparr>pendingLine = (if maxAccountHealthSSELineBytes < length pend then '''' else pend), reported = rep\<rparr>
   | Some newline \<Rightarrow> inspect_loop he (drop (Suc newline) pend) (inspectLine he (take newline pend) rep))"
  by pat_completeness auto
termination
  by (relation "measure (\<lambda>(he, pend, rep). length pend)") (auto dest: str_index_Some)

declare inspect_loop.simps [simp del]

definition inspect :: "health_env \<Rightarrow> string \<Rightarrow> health_reader \<Rightarrow> health_reader" where
  "inspect he chunk r = inspect_loop he (pendingLine r @ chunk) (reported r)"

text \<open>The reads of a body: chunks, then its end.\<close>

definition inspect_eof :: "health_env \<Rightarrow> health_reader \<Rightarrow> health_reader" where
  "inspect_eof he r = (if pendingLine r = '''' then r else \<lparr>pendingLine = '''', reported = inspectLine he (pendingLine r) (reported r)\<rparr>)"

definition inspect_body :: "health_env \<Rightarrow> string list \<Rightarrow> AccountHealthError option" where
  "inspect_body he chunks = reported (inspect_eof he (fold (inspect he) (filter (\<lambda>c. c \<noteq> []) chunks) \<lparr>pendingLine = '''', reported = None\<rparr>))"

section \<open>Cool-down\<close>

lemma int64_wrap_small: "int64_min \<le> n \<Longrightarrow> n \<le> int64_max \<Longrightarrow> int64_wrap n = n"
  by (simp add: int64_wrap_def int64_min_def int64_max_def)

definition retry_in_range :: "string \<Rightarrow> bool" where
  "retry_in_range retryAfter = (case Atoi (TrimSpace retryAfter) of Some n \<Rightarrow> n \<le> 9223372036 | None \<Rightarrow> True)"

lemma health_with_store [simp]: "health (rpool (with_store s r)) = health (rpool r)"
  by (simp add: with_store_def)

lemma mark_cooldown_health:
  assumes "i \<noteq> ''''" "ahState e = HealthRateLimited" "ahUntil e \<noteq> zero_time" "eNow env < ahUntil e"
  shows "gm_get (health (rpool (mark_cooldown env MarkRateLimited i e r))) j =
    (if j = i then Some \<lparr>hState = HealthRateLimited, hUntil = ahUntil e, hReason = AccountHealthError_Error (eFormat env) e, hUpdatedAt = eNow env\<rparr>
     else gm_get (health (rpool r)) j)"
  using assms
  by (simp add: mark_cooldown_def resolvedAccountCooldownUntil_def MarkRateLimited_def markTransientAccount_def setHealthLocked_def
      forgetAffinity_def AccountHealth_def accountHealthLocked_def persistAccountCooldown_def health_expired_def Let_def gm_get_set)

text \<open>
  What the \<open>Retry-After\<close> header asks for: a positive number of seconds, or the time until a date that lies ahead; one minute when it
  gives neither.
\<close>

definition asked_wait :: "(string \<Rightarrow> time option) \<Rightarrow> time \<Rightarrow> string \<Rightarrow> time" where
  "asked_wait parse now header =
     (let h = TrimSpace header; date = (case parse h of Some d \<Rightarrow> if now < d then d - now else minute_ns | None \<Rightarrow> minute_ns) in
      case Atoi h of Some n \<Rightarrow> if 0 < n then n * sec_ns else date | None \<Rightarrow> date)"

lemma asked_wait_pos: "0 < asked_wait parse now header"
  by (simp add: asked_wait_def Let_def minute_ns_def sec_ns_def split: option.split)

lemma rateLimitUntil_asked:
  assumes "retry_in_range header"
  shows "rateLimitUntil parse now header = now + min (15 * minute_ns) (asked_wait parse now header)"
proof -
  have w: "int64_wrap (n * sec_ns) = n * sec_ns" if "0 < n" "n \<le> 9223372036" for n
    using that by (intro int64_wrap_small) (simp_all add: int64_min_def int64_max_def sec_ns_def)
  show ?thesis
    using assms w
    by (auto simp: rateLimitUntil_def asked_wait_def retry_in_range_def Let_def maxRateLimitCooldown_def defaultRateLimitStateCooldown_def
        minute_ns_def sec_ns_def min_def split: option.splits)
qed

text \<open>C37: A rate limit cools the account down for as long as the upstream asks. When the upstream answers a managed request with status or code 429, a
  message about the capacity of the conversation changes nothing. Any other message blocks the account of that request from now on
  for exactly the time the \<open>Retry-After\<close> header asks for, at most fifteen minutes, and leaves the health of every other account
  as it is. The header must not exceed the range of a duration (\<open>huge_retry_after_is_past\<close> shows what happens then).\<close>
theorem rate_limit_cools_down:
  assumes "UseConfigToken a" "TrimSpace (AccountID a) \<noteq> ''''" "FindAccount (rstore r) (AccountID a) \<noteq> None"
    and "status = 429 \<or> code = 429 \<or> bizCode = 429" and "retry_in_range retryAfter" and "zero_time \<le> eNow env"
  shows "let r' = markAccountRateLimited env parse a status code bizCode msg bizMsg retryAfter extra r in
      if isSessionCapacityRateLimit (eTab env) status code bizCode msg bizMsg extra then r' = r
      else (\<forall>t. (health_view t (rpool r') (AccountID a) \<noteq> None) = (t < eNow env + min (15 * minute_ns) (asked_wait parse (eNow env) retryAfter))) \<and>
        (\<forall>t j. j \<noteq> AccountID a \<longrightarrow> health_view t (rpool r') j = health_view t (rpool r) j)"
proof (cases "isSessionCapacityRateLimit (eTab env) status code bizCode msg bizMsg extra")
  case True
  then show ?thesis by (simp add: markAccountRateLimited_def rateLimitScopeFromResponse_def Let_def)
next
  case False
  let ?u = "rateLimitUntil parse (eNow env) retryAfter" let ?i = "AccountID a"
  obtain e where e: "accountRateLimitError parse (eNow env) status code bizCode msg bizMsg retryAfter = Some e"
    "ahState e = HealthRateLimited" "ahUntil e = ?u" using assms(4) by (auto simp: accountRateLimitError_def)
  note b = rateLimitUntil_asked [OF assms(5), where now = "eNow env" and parse = parse]
  have later: "eNow env < ?u" using asked_wait_pos [of parse "eNow env" retryAfter] unfolding b by (simp add: minute_ns_def sec_ns_def)
  have i: "?i \<noteq> ''''" using assms(2) by auto
  have r': "markAccountRateLimited env parse a status code bizCode msg bizMsg retryAfter extra r = mark_cooldown env MarkRateLimited ?i e r"
    using assms(1-3) False e i
    by (auto simp: markAccountRateLimited_def rateLimitScopeFromResponse_def recordAccountHealth_def Let_def)
  have "?u \<noteq> zero_time" using later assms(6) by simp
  then have h: "gm_get (health (rpool (mark_cooldown env MarkRateLimited ?i e r))) j =
    (if j = ?i then Some \<lparr>hState = HealthRateLimited, hUntil = ?u, hReason = AccountHealthError_Error (eFormat env) e, hUpdatedAt = eNow env\<rparr>
     else gm_get (health (rpool r)) j)" for j
    using mark_cooldown_health [OF i e(2), of env r j] e(3) later by simp
  show ?thesis using False unfolding Let_def r' b [symmetric]
    by (auto simp: health_view_def h health_expired_def isTransientHealth_def)
qed

theorem rate_limit_cools_down_witness:
  "let p = rpool (markAccountRateLimited solo_env (\<lambda>_. None) solo_auth 429 0 0 '''' '''' ''60'' [] solo_held) in
     health_view (60 * sec_ns - 1) p ''a@b.c'' \<noteq> None \<and> health_view (60 * sec_ns) p ''a@b.c'' = None"
proof -
  have f: "FindAccount (rstore solo_held) (AccountID solo_auth) \<noteq> None" "UseConfigToken solo_auth" "AccountID solo_auth = ''a@b.c''"
    by (simp_all add: solo_held_def solo_auth_def solo_state_def solo_store_facts)
  have "TrimSpace ''60'' = ''60''" "Atoi ''60'' = Some 60" by code_simp+
  then have u: "asked_wait (\<lambda>_. None) (eNow solo_env) ''60'' = 60 * sec_ns" "retry_in_range ''60''"
    by (simp_all add: asked_wait_def retry_in_range_def Let_def)
  have "TrimSpace (dashes_to_spaces (str_join '' '' [TrimSpace '''', TrimSpace ''''])) = ''''" by code_simp
  then have c: "\<not> isSessionCapacityRateLimit (eTab solo_env) 429 0 0 '''' '''' []"
    using ToLower_ascii [of "''''" "eTab solo_env"] by (simp add: isSessionCapacityRateLimit_def normalizedAccountFailureMessage_def ascii_def)
  let ?p = "rpool (markAccountRateLimited solo_env (\<lambda>_. None) solo_auth 429 0 0 '''' '''' ''60'' [] solo_held)"
  have "\<And>t. (health_view t ?p ''a@b.c'' \<noteq> None) = (t < 60 * sec_ns)"
    using rate_limit_cools_down [of solo_auth solo_held 429 0 0 "''60''" solo_env "\<lambda>_. None" "''''" "''''" "[]"] f u c
    by (simp add: Let_def solo_ident solo_env_def zero_time_def sec_ns_def minute_ns_def)
  from this [of "60 * sec_ns - 1"] this [of "60 * sec_ns"] show ?thesis by (simp add: Let_def)
qed

text \<open>
  A number of seconds beyond the range of a duration wraps to an instant in the past, and marking the account with it clears the
  health it had.
\<close>

lemma huge_retry_after_is_past: "rateLimitUntil parse now ''9223372037'' < now"
proof -
  have "TrimSpace ''9223372037'' = ''9223372037''" "Atoi ''9223372037'' = Some 9223372037" by code_simp+
  then show ?thesis by (simp add: rateLimitUntil_def int64_wrap_def sec_ns_def maxRateLimitCooldown_def minute_ns_def)
qed

lemma past_cooldown_clears: "\<not> now < until \<Longrightarrow> until \<noteq> zero_time \<Longrightarrow> i \<noteq> '''' \<Longrightarrow> health_view t (MarkRateLimited now i until reason p) i = None"
  by (simp add: MarkRateLimited_def markTransientAccount_def ClearHealth_def health_view_def gm_get_del)

section \<open>The watching reader\<close>

definition first_report :: "health_env \<Rightarrow> string list \<Rightarrow> AccountHealthError option" where
  "first_report he ls = (case find (\<lambda>l. line_health he l \<noteq> None) ls of Some l \<Rightarrow> line_health he l | None \<Rightarrow> None)"

definition short_lines :: "string \<Rightarrow> bool" where
  "short_lines s = list_all (\<lambda>l. length l \<le> maxAccountHealthSSELineBytes) (split_char (CHR 0x0A) s)"

lemma split_char_ne [simp]: "split_char d s \<noteq> []"
  by (induction s) (auto split: list.split)

lemma split_char_no_sep: "d \<notin> set s \<Longrightarrow> split_char d s = [s]"
  by (induction s) auto

lemma split_char_sep: "d \<notin> set u \<Longrightarrow> split_char d (u @ d # v) = u # split_char d v"
  by (induction u) auto

lemma split_char_append: "split_char d (a @ b) = butlast (split_char d a) @ split_char d (last (split_char d a) @ b)"
proof (induction a)
  case (Cons c a)
  obtain w ws where s: "split_char d a = w # ws" by (cases "split_char d a") auto
  then show ?case using Cons.IH by (cases ws) (auto split: list.split)
qed simp

lemma inspect_loop_split:
  assumes "short_lines s"
  shows "inspect_loop he s rep = \<lparr>pendingLine = last (split_char (CHR 0x0A) s), reported = fold (inspectLine he) (butlast (split_char (CHR 0x0A) s)) rep\<rparr>"
  using assms
proof (induction "length s" arbitrary: s rep rule: less_induct)
  case less
  show ?case
  proof (cases "CHR 0x0A \<in> set s")
    case False
    then have "str_index s [CHR 0x0A] = None" by (induction s) auto
    then show ?thesis using less.prems False by (simp add: inspect_loop.simps [of he s] split_char_no_sep short_lines_def)
  next
    case True
    then obtain u v where s: "s = u @ CHR 0x0A # v" and u: "CHR 0x0A \<notin> set u" by (meson split_list_first)
    have i: "str_index (w @ CHR 0x0A # v) [CHR 0x0A] = Some (length w)" if "CHR 0x0A \<notin> set w" for w
      using that by (induction w) auto
    have "short_lines v" using less.prems by (simp add: s split_char_sep [OF u] short_lines_def)
    then have "inspect_loop he v rep' = \<lparr>pendingLine = last (split_char (CHR 0x0A) v), reported = fold (inspectLine he) (butlast (split_char (CHR 0x0A) v)) rep'\<rparr>" for rep'
      using less.hyps [of v rep'] by (simp add: s)
    then show ?thesis unfolding inspect_loop.simps [of he s] by (simp add: s i [OF u] split_char_sep [OF u])
  qed
qed

lemma short_lines_prefix: "short_lines (a @ b) \<Longrightarrow> short_lines a"
proof -
  assume "short_lines (a @ b)"
  then have h: "list_all (\<lambda>l. length l \<le> maxAccountHealthSSELineBytes) (butlast (split_char (CHR 0x0A) a) @ split_char (CHR 0x0A) (last (split_char (CHR 0x0A) a) @ b))"
    unfolding short_lines_def split_char_append [of _ a] .
  have sep: "CHR 0x0A \<notin> set (last (split_char (CHR 0x0A) s))" for s
    by (induction s) (auto split: list.split)
  have "length w \<le> length (hd (split_char d (w @ b)))" if "d \<notin> set w" for w :: string and d
    using that by (induction w) (auto split: list.split)
  then have "length (last (split_char (CHR 0x0A) a)) \<le> length (hd (split_char (CHR 0x0A) (last (split_char (CHR 0x0A) a) @ b)))"
    using sep [of a] by blast
  moreover have "length (hd (split_char (CHR 0x0A) (last (split_char (CHR 0x0A) a) @ b))) \<le> maxAccountHealthSSELineBytes"
    using h hd_in_set [OF split_char_ne] by (auto simp: list_all_iff)
  ultimately have "length (last (split_char (CHR 0x0A) a)) \<le> maxAccountHealthSSELineBytes" by simp
  then show ?thesis using h append_butlast_last_id [OF split_char_ne, of "CHR 0x0A" a] unfolding short_lines_def
    by (metis list_all_append list.pred_inject)
qed

lemma inspect_append:
  assumes "short_lines (a @ b)"
  shows "inspect he b (inspect_loop he a rep) = inspect_loop he (a @ b) rep"
proof -
  have a: "short_lines a" by (rule short_lines_prefix [OF assms])
  have l: "short_lines (last (split_char (CHR 0x0A) a) @ b)"
    using assms unfolding short_lines_def split_char_append [of _ a] by simp
  show ?thesis unfolding inspect_def inspect_loop_split [OF a] inspect_loop_split [OF assms]
    by (simp add: inspect_loop_split [OF l] split_char_append [of _ a] butlast_append)
qed

lemma inspect_chunks:
  "short_lines (a @ concat chunks) \<Longrightarrow> fold (inspect he) chunks (inspect_loop he a rep) = inspect_loop he (a @ concat chunks) rep"
proof (induction chunks arbitrary: a)
  case (Cons c cs)
  have "short_lines (a @ c)" using short_lines_prefix [of "a @ c" "concat cs"] Cons.prems by simp
  then show ?case using Cons.IH [of "a @ c"] Cons.prems inspect_append [of a c] by simp
qed simp

lemma fold_inspectLine: "fold (inspectLine he) ls rep = (case rep of Some e \<Rightarrow> Some e | None \<Rightarrow> first_report he ls)"
  by (induction ls arbitrary: rep) (auto simp: inspectLine_def first_report_def split: option.splits)

lemma concat_filter_ne: "concat (filter (\<lambda>c. c \<noteq> []) cs) = concat cs"
  by (induction cs) auto

text \<open>The reader that watches a completion for account reports sees the lines of the body, however the reads cut it: while no line
  exceeds 64 KiB, what it reports is the first line of the body that reports a muted or banned account, and it reports once.\<close>
theorem health_reader_chunking:
  assumes "short_lines (concat chunks)"
  shows "inspect_body he chunks = first_report he (split_char (CHR 0x0A) (concat chunks))"
proof -
  let ?s = "concat chunks" let ?ls = "split_char (CHR 0x0A) ?s"
  have e: "(\<lparr>pendingLine = '''', reported = None\<rparr> :: health_reader) = inspect_loop he '''' None"
    by (simp add: inspect_loop.simps)
  have f: "fold (inspect he) (filter (\<lambda>c. c \<noteq> []) chunks) \<lparr>pendingLine = '''', reported = None\<rparr> = inspect_loop he ?s None"
    unfolding e using inspect_chunks [of "''''" "filter (\<lambda>c. c \<noteq> []) chunks"] assms by (simp add: concat_filter_ne)
  have empty: "line_health he '''' = None" by (simp add: line_health_def)
  obtain bs l where ls: "?ls = bs @ [l]" by (metis append_butlast_last_id split_char_ne)
  have "inspect_body he chunks = fold (inspectLine he) ?ls None"
    unfolding inspect_body_def f inspect_loop_split [OF assms] inspect_eof_def ls using empty
    by (auto simp: inspectLine_def split: option.split)
  then show ?thesis unfolding fold_inspectLine by simp
qed

theorem health_reader_chunking_witness:
  "inspect_body \<lparr>hDecode = (\<lambda>_. None), hLow = id, hFloat = (\<lambda>_. 0)\<rparr> [''da'', ''ta: x''] =
   first_report \<lparr>hDecode = (\<lambda>_. None), hLow = id, hFloat = (\<lambda>_. 0)\<rparr> [''data: x'']"
proof -
  have "split_char (CHR 0x0A) (concat [''da'', ''ta: x'']) = [''data: x'']" by simp
  then show ?thesis using health_reader_chunking [of "[''da'', ''ta: x'']" "\<lparr>hDecode = (\<lambda>_. None), hLow = id, hFloat = (\<lambda>_. 0)\<rparr>"]
    by (simp add: short_lines_def maxAccountHealthSSELineBytes_def)
qed

end
