(* ===== verification/Sse_Parse.thy ===== *)
theory Sse_Parse
  imports GoJson GoText
begin

text \<open>
  The upstream protocol's constants (\<^verbatim>\<open>deepseek/protocol/constants.go\<close>) and the parser of one line of the
  upstream event stream (\<^verbatim>\<open>sse/parser.go\<close>, \<^verbatim>\<open>sse/line.go\<close>, \<^verbatim>\<open>sse/content_filter_leak.go\<close>).

  A \<^verbatim>\<open>map[string]any\<close> chunk is a \<open>json_object\<close>; a mutable fragment type and part list passed by pointer are
  returned updated. Slicing a string beyond its length panics in Go: the functions that slice with a computed
  offset return \<open>None\<close> there. The regular expressions of the parser are the functions \<open>match_tag\<close> and
  \<open>find_tag\<close>. The JSON decoder, the case tables of the \<^verbatim>\<open>unicode\<close> package and the text form of a
  \<^verbatim>\<open>float64\<close> are arguments, collected in \<open>sse_env\<close>.
\<close>

record sse_env =
  jsonDecode :: json_decoder
  lowTab :: case_table
  upTab :: case_table
  fmtFloat :: "rat \<Rightarrow> string"

section \<open>Protocol constants\<close>

definition defaultSkipContainsPatterns :: "string list" where
  "defaultSkipContainsPatterns =
     [''quasi_status'', ''elapsed_secs'', ''token_usage'', ''pending_fragment'', ''conversation_mode'',
      ''fragments/-1/status'', ''fragments/-2/status'', ''fragments/-3/status'']"

definition defaultSkipExactPaths :: "string list" where
  "defaultSkipExactPaths = [''response/search_status'']"

definition defaultStaticBaseHeaders :: "(string, string) gomap" where
  "defaultStaticBaseHeaders =
     [(''Host'', ''chat.deepseek.com''), (''Accept'', ''application/json''),
      (''Content-Type'', ''application/json''), (''accept-charset'', ''UTF-8'')]"

record clientConstants =
  ccName :: string
  ccPlatform :: string
  ccVersion :: string
  ccAndroidAPILevel :: string
  ccLocale :: string

record sharedConstants =
  scClient :: clientConstants
  scBaseHeaders :: "(string, string) gomap"
  scSkipContainsPattern :: "string list"
  scSkipExactPaths :: "string list"

text \<open>The embedded \<^verbatim>\<open>constants_shared.json\<close>.\<close>

definition sharedConstantsJSON :: sharedConstants where
  "sharedConstantsJSON =
     \<lparr>scClient = \<lparr>ccName = ''DeepSeek'', ccPlatform = ''android'', ccVersion = ''2.0.4'',
        ccAndroidAPILevel = ''35'', ccLocale = ''zh_CN''\<rparr>,
      scBaseHeaders = [(''Host'', ''chat.deepseek.com''), (''Accept'', ''application/json''),
        (''Content-Type'', ''application/json''), (''accept-charset'', ''UTF-8'')],
      scSkipContainsPattern = [''quasi_status'', ''elapsed_secs'', ''pending_fragment'', ''conversation_mode'',
        ''fragments/-1/status'', ''fragments/-2/status'', ''fragments/-3/status''],
      scSkipExactPaths = [''response/search_status'']\<rparr>"

definition normalizeClientConstants :: "clientConstants \<Rightarrow> clientConstants" where
  "normalizeClientConstants c =
     \<lparr>ccName = (if ccName c = '''' then ''DeepSeek'' else ccName c),
      ccPlatform = (if ccPlatform c = '''' then ''android'' else ccPlatform c),
      ccVersion = ccVersion c,
      ccAndroidAPILevel = (if ccAndroidAPILevel c = '''' then ''35'' else ccAndroidAPILevel c),
      ccLocale = (if ccLocale c = '''' then ''zh_CN'' else ccLocale c)\<rparr>"

definition buildBaseHeaders :: "clientConstants \<Rightarrow> (string, string) gomap \<Rightarrow> (string, string) gomap" where
  "buildBaseHeaders client overrides =
     (let set_nonempty = (\<lambda>k v m. if k = '''' \<or> v = '''' then m else gm_set k v m);
          out = fold (\<lambda>(k, v). set_nonempty k v) overrides defaultStaticBaseHeaders;
          agent = ccName client @ ''/'' @ ccVersion client @
            (if ccPlatform client = ''android'' \<and> ccAndroidAPILevel client \<noteq> ''''
             then '' Android/'' @ ccAndroidAPILevel client else '''');
          out = (if ccName client \<noteq> '''' \<and> ccVersion client \<noteq> '''' then gm_set ''User-Agent'' agent out else out);
          out = set_nonempty ''x-client-platform'' (ccPlatform client) out;
          out = set_nonempty ''x-client-version'' (ccVersion client) out
      in set_nonempty ''x-client-locale'' (ccLocale client) out)"

definition toStringSet :: "string list \<Rightarrow> string list" where
  "toStringSet xs = filter (\<lambda>v. v \<noteq> '''') xs"

text \<open>The package variables after \<^verbatim>\<open>init\<close>.\<close>

record protocol_vars =
  ClientVersion :: string
  BaseHeaders :: "(string, string) gomap"
  SkipContainsPatterns :: "string list"
  SkipExactPathSet :: "string list"

definition applySharedConstants :: "sharedConstants \<Rightarrow> protocol_vars" where
  "applySharedConstants cfg = (let client = normalizeClientConstants (scClient cfg) in
     \<lparr>ClientVersion = ccVersion client,
      BaseHeaders = buildBaseHeaders client (scBaseHeaders cfg),
      SkipContainsPatterns =
        (if scSkipContainsPattern cfg = [] then defaultSkipContainsPatterns else scSkipContainsPattern cfg),
      SkipExactPathSet =
        toStringSet (if scSkipExactPaths cfg = [] then defaultSkipExactPaths else scSkipExactPaths cfg)\<rparr>)"

definition protocol :: protocol_vars where
  "protocol = applySharedConstants sharedConstantsJSON"

section \<open>Paths\<close>

definition isFragmentStatusPath :: "string \<Rightarrow> bool" where
  "isFragmentStatusPath path =
     (if path = '''' \<or> path = ''response/status'' then False
      else if \<not> prefix ''response/fragments/'' path \<or> \<not> suffix ''/status'' path then False
      else let mid = TrimSuffix (TrimPrefix path ''response/fragments/'') ''/status'' in
        if mid = '''' then False
        else let mid = TrimPrefix mid ''-'' in
          if mid = '''' then False else list_all is_digit mid)"

definition shouldSkipPath :: "string \<Rightarrow> bool" where
  "shouldSkipPath path \<longleftrightarrow> isFragmentStatusPath path \<or> path \<in> set (SkipExactPathSet protocol) \<or>
     list_ex (Contains path) (SkipContainsPatterns protocol)"

definition isStatusPath :: "string \<Rightarrow> bool" where
  "isStatusPath path \<longleftrightarrow> path \<in> set [''response/status'', ''status'', ''response/quasi_status'', ''quasi_status'']"

section \<open>The think tags\<close>

text \<open>
  The patterns \<^verbatim>\<open>(?i)</\s*think\s*>\<close> and \<^verbatim>\<open>(?i)<\s*think\s*>\<close>: \<^verbatim>\<open>\s\<close> is one of the five ASCII blanks, and case
  folding relates \<open>k\<close> to the Kelvin sign U+212A as well. A match is determined by its start, so the leftmost
  match is the first position where \<open>match_tag\<close> succeeds; it returns what follows the match.
\<close>

definition re_space :: "char \<Rightarrow> bool" where
  "re_space c \<longleftrightarrow> byte_of c \<in> {9, 10, 12, 13, 32}"

definition think_word :: "string list list" where
  "think_word = [[''t'', ''T''], [''h'', ''H''], [''i'', ''I''], [''n'', ''N''],
     [''k'', ''K'', [CHR 0xE2, CHR 0x84, CHR 0xAA]]]"

fun match_alts :: "string list list \<Rightarrow> string \<Rightarrow> string option" where
  "match_alts [] s = Some s"
| "match_alts (alts # rest) s = (case find (\<lambda>a. prefix a s) alts of
     None \<Rightarrow> None | Some a \<Rightarrow> match_alts rest (drop (length a) s))"

definition match_tag :: "string \<Rightarrow> string \<Rightarrow> string option" where
  "match_tag bracket s = (if \<not> prefix bracket s then None
     else case match_alts think_word (dropWhile re_space (drop (length bracket) s)) of
       None \<Rightarrow> None
     | Some r \<Rightarrow> (case dropWhile re_space r of c # after \<Rightarrow> if c = CHR ''>'' then Some after else None | [] \<Rightarrow> None))"

text \<open>\<^verbatim>\<open>FindStringIndex\<close>: the text before and after the leftmost match.\<close>

fun find_tag :: "string \<Rightarrow> string \<Rightarrow> (string \<times> string) option" where
  "find_tag bracket [] = None"
| "find_tag bracket (c # cs) = (case match_tag bracket (c # cs) of
     Some after \<Rightarrow> Some ([], after)
   | None \<Rightarrow> map_option (\<lambda>(before, after). (c # before, after)) (find_tag bracket cs))"

lemma match_alts_length: "match_alts as s = Some r \<Longrightarrow> length r \<le> length s"
  by (induction as s rule: match_alts.induct) (fastforce split: option.splits)+

lemma match_tag_length: "match_tag b s = Some r \<Longrightarrow> length r < length s"
proof -
  assume m: "match_tag b s = Some r"
  then obtain q where q: "match_alts think_word (dropWhile re_space (drop (length b) s)) = Some q" and
    r: "dropWhile re_space q = CHR ''>'' # r"
    by (auto simp: match_tag_def split: if_splits option.splits list.splits)
  have "length q \<le> length s"
    using match_alts_length [OF q] length_dropWhile_le [of re_space "drop (length b) s"] by simp
  moreover have "length r < length q" using length_dropWhile_le [of re_space q] r by simp
  ultimately show ?thesis by simp
qed

lemma find_tag_length: "find_tag b s = Some (x, r) \<Longrightarrow> length x + length r < length s"
proof (induction s arbitrary: x)
  case (Cons c cs)
  then show ?case by (cases "match_tag b (c # cs)") (auto dest: match_tag_length)
qed simp

text \<open>\<^verbatim>\<open>ReplaceAllString(s, "")\<close>: the matches do not overlap and are never empty.\<close>

function remove_tags :: "string \<Rightarrow> string \<Rightarrow> string" where
  "remove_tags bracket s = (case find_tag bracket s of
     None \<Rightarrow> s | Some (before, after) \<Rightarrow> before @ remove_tags bracket after)"
  by pat_completeness auto
termination by (relation "measure (\<lambda>(b, s). length s)") (auto dest: find_tag_length)

declare remove_tags.simps [simp del]

definition stripThinkTags :: "string \<Rightarrow> string" where
  "stripThinkTags s = remove_tags ''<'' (remove_tags ''</'' s)"

section \<open>Parts\<close>

record ContentPart =
  Text :: string
  PartType :: string

abbreviation part :: "string \<Rightarrow> string \<Rightarrow> ContentPart" where
  "part text kind \<equiv> \<lparr>Text = text, PartType = kind\<rparr>"

definition is_thinking :: "ContentPart \<Rightarrow> bool" where
  "is_thinking p \<longleftrightarrow> PartType p = ''thinking''"

definition appendContentPart :: "ContentPart list \<Rightarrow> string \<Rightarrow> string \<Rightarrow> ContentPart list" where
  "appendContentPart parts content kind = (if content = '''' then parts else parts @ [part content kind])"

definition selectThinkingParts :: "ContentPart list \<Rightarrow> ContentPart list" where
  "selectThinkingParts parts = filter is_thinking parts"

definition dropThinkingParts :: "ContentPart list \<Rightarrow> ContentPart list" where
  "dropThinkingParts parts = filter (\<lambda>p. \<not> is_thinking p) parts"

fun split_loop :: "ContentPart list \<Rightarrow> bool \<Rightarrow> ContentPart list \<times> bool" where
  "split_loop [] thinkingDone = ([], thinkingDone)"
| "split_loop (p # ps) thinkingDone =
     (if thinkingDone \<and> is_thinking p then
        (let (out, d) = split_loop ps thinkingDone in (appendContentPart [] (stripThinkTags (Text p)) ''text'' @ out, d))
      else if \<not> is_thinking p then
        (let (out, d) = split_loop ps thinkingDone in
         (appendContentPart [] (stripThinkTags (Text p)) (PartType p) @ out, d))
      else case find_tag ''</'' (Text p) of
        None \<Rightarrow> (let (out, d) = split_loop ps thinkingDone in (p # out, d))
      | Some (before, after) \<Rightarrow>
          (let (out, d) = split_loop ps True in
           (appendContentPart (appendContentPart [] before ''thinking'') (stripThinkTags after) ''text'' @ out, d)))"

definition splitThinkingParts :: "ContentPart list \<Rightarrow> ContentPart list \<times> bool" where
  "splitThinkingParts parts = split_loop parts False"

section \<open>One chunk\<close>

text \<open>\<^verbatim>\<open>parseFragmentTypeContent\<close>; its first and third results are the same string, so the fallback never differs.\<close>

definition parseFragmentTypeContent :: "case_table \<Rightarrow> json_object \<Rightarrow> string \<times> string \<times> string" where
  "parseFragmentTypeContent up m = (let typeName = as_str (jfield m ''type'') in
     (ToUpper up typeName, as_str (jfield m ''content''), ToUpper up typeName))"

text \<open>The \<^verbatim>\<open>switch typeName\<close> of the fragment loops: the fragment type it names, if any.\<close>

definition fragment_kind :: "string \<Rightarrow> string option" where
  "fragment_kind typeName =
     (if typeName = ''THINK'' \<or> typeName = ''THINKING'' then Some ''thinking''
      else if typeName = ''RESPONSE'' then Some ''text'' else None)"

definition updateTypeFromExplicitPath :: "string \<Rightarrow> bool \<Rightarrow> string \<Rightarrow> string" where
  "updateTypeFromExplicitPath path thinkingEnabled newType =
     (if path = ''response/content'' then ''text''
      else if path = ''response/thinking_content''
      then (if \<not> thinkingEnabled \<or> newType \<noteq> ''text'' then ''thinking'' else newType)
      else newType)"

text \<open>The loop over fragment objects that \<^verbatim>\<open>collectDirectFragments\<close> and \<^verbatim>\<open>appendWrappedFragments\<close> share; they differ in the default part type.\<close>

fun fragments_loop :: "case_table \<Rightarrow> string \<Rightarrow> json list \<Rightarrow> string \<times> ContentPart list \<Rightarrow> string \<times> ContentPart list" where
  "fragments_loop up defaultType [] st = st"
| "fragments_loop up defaultType (frag # frags) (newType, parts) = (case as_obj frag of
     None \<Rightarrow> fragments_loop up defaultType frags (newType, parts)
   | Some m \<Rightarrow>
       (let (typeName0, content, fragType) = parseFragmentTypeContent up m;
            typeName = (if typeName0 = '''' then fragType else typeName0)
        in case fragment_kind typeName of
          Some kind \<Rightarrow> fragments_loop up defaultType frags (kind, appendContentPart parts content kind)
        | None \<Rightarrow> fragments_loop up defaultType frags (newType, appendContentPart parts content defaultType)))"

definition collectDirectFragments ::
  "case_table \<Rightarrow> string \<Rightarrow> json_object \<Rightarrow> json \<Rightarrow> string \<times> ContentPart list \<Rightarrow> string \<times> ContentPart list" where
  "collectDirectFragments up path chunk v st =
     (if path \<noteq> ''response/fragments'' then st
      else if \<not> EqualFoldASCII (as_str (jfield chunk ''o'')) ''APPEND'' then st
      else case as_arr v of None \<Rightarrow> st | Some frags \<Rightarrow> fragments_loop up ''text'' frags st)"

definition nested_fragment_type :: "case_table \<Rightarrow> json \<Rightarrow> string \<Rightarrow> string" where
  "nested_fragment_type up frag newType = (case as_obj frag of
     None \<Rightarrow> newType
   | Some fm \<Rightarrow> (case fragment_kind (fst (parseFragmentTypeContent up fm)) of Some kind \<Rightarrow> kind | None \<Rightarrow> newType))"

definition nested_item_type :: "case_table \<Rightarrow> json \<Rightarrow> string \<Rightarrow> string" where
  "nested_item_type up it newType = (case as_obj it of
     None \<Rightarrow> newType
   | Some m \<Rightarrow>
       if jfield m ''p'' \<noteq> JStr ''fragments'' \<or> jfield m ''o'' \<noteq> JStr ''APPEND'' then newType
       else (case as_arr (jfield m ''v'') of None \<Rightarrow> newType | Some frags \<Rightarrow> fold (nested_fragment_type up) frags newType))"

definition updateTypeFromNestedResponse :: "case_table \<Rightarrow> string \<Rightarrow> json \<Rightarrow> string \<Rightarrow> string" where
  "updateTypeFromNestedResponse up path v newType =
     (if path \<noteq> ''response'' then newType
      else case as_arr v of None \<Rightarrow> newType | Some arr \<Rightarrow> fold (nested_item_type up) arr newType)"

definition resolvePartType :: "string \<Rightarrow> bool \<Rightarrow> string \<Rightarrow> string" where
  "resolvePartType path thinkingEnabled newType =
     (if path = ''response/thinking_content''
      then (if \<not> thinkingEnabled then ''thinking'' else if newType = ''text'' then ''text'' else ''thinking'')
      else if path = ''response/content'' then ''text''
      else if Contains path ''response/fragments'' \<and> Contains path ''/content'' then newType
      else if path = '''' then (if newType \<noteq> '''' then newType else ''text'')
      else ''text'')"

definition appendObjectContentByPath :: "string \<Rightarrow> json_object \<Rightarrow> string \<Rightarrow> ContentPart list \<Rightarrow> ContentPart list option" where
  "appendObjectContentByPath path val partType parts =
     (if path \<noteq> ''response/content'' \<and> path \<noteq> ''response/thinking_content'' \<and> path \<noteq> '''' then None
      else let text0 = as_str (jfield val ''text'');
               text = (if text0 = '''' then as_str (jfield val ''content'') else text0)
        in if text = '''' then None else Some (appendContentPart parts text partType))"

definition appendWrappedFragments ::
  "case_table \<Rightarrow> json_object \<Rightarrow> string \<Rightarrow> string \<times> ContentPart list \<Rightarrow> string \<times> ContentPart list" where
  "appendWrappedFragments up val partType st =
     (let resp = (case as_obj (jfield val ''response'') of Some wrapped \<Rightarrow> wrapped | None \<Rightarrow> val) in
      case as_arr (jfield resp ''fragments'') of None \<Rightarrow> st | Some frags \<Rightarrow> fragments_loop up partType frags st)"

text \<open>One element of a batch: \<open>None\<close> when it ends the response.\<close>

definition fragment_part :: "case_table \<Rightarrow> json_object \<Rightarrow> string \<Rightarrow> string \<Rightarrow> ContentPart" where
  "fragment_part up m content defaultType =
     part content (case fragment_kind (ToUpper up (as_str (jfield m ''type''))) of Some kind \<Rightarrow> kind | None \<Rightarrow> defaultType)"

definition inner_parts :: "case_table \<Rightarrow> string \<Rightarrow> json \<Rightarrow> ContentPart list" where
  "inner_parts up partType inner = (case inner of
     JObj x \<Rightarrow> (let ct = as_str (jfield x ''content'') in if ct = '''' then [] else [fragment_part up x ct partType])
   | JStr x \<Rightarrow> if x \<noteq> '''' then [part x partType] else []
   | _ \<Rightarrow> [])"

definition item_parts :: "case_table \<Rightarrow> string \<Rightarrow> json_object \<Rightarrow> ContentPart list option" where
  "item_parts up defaultType m =
     (let itemPath = as_str (jfield m ''p'') in
      case gm_get m ''v'' of
        None \<Rightarrow> Some []
      | Some itemV \<Rightarrow>
          if isStatusPath itemPath
          then (if EqualFoldASCII (TrimSpace (as_str itemV)) ''FINISHED'' then None else Some [])
          else if shouldSkipPath itemPath then Some []
          else let content = as_str (jfield m ''content'') in
            if content \<noteq> '''' then Some [fragment_part up m content defaultType]
            else let partType =
                (if Contains itemPath ''thinking'' then ''thinking''
                 else if Contains itemPath ''content'' \<or> itemPath = ''response'' \<or> itemPath = ''fragments'' then ''text''
                 else defaultType)
              in Some (case itemV of
                  JStr v \<Rightarrow> if v \<noteq> '''' \<and> v \<noteq> ''FINISHED'' then [part v partType] else []
                | JArr inners \<Rightarrow> concat (map (inner_parts up partType) inners)
                | _ \<Rightarrow> []))"

fun extractContentRecursive :: "case_table \<Rightarrow> json list \<Rightarrow> string \<Rightarrow> ContentPart list option" where
  "extractContentRecursive up [] defaultType = Some []"
| "extractContentRecursive up (it # items) defaultType =
     (case (case as_obj it of None \<Rightarrow> Some [] | Some m \<Rightarrow> item_parts up defaultType m) of
        None \<Rightarrow> None
      | Some ps \<Rightarrow> map_option (\<lambda>rest. ps @ rest) (extractContentRecursive up items defaultType))"

text \<open>\<open>None\<close> is the result \<open>finished\<close>.\<close>

definition appendChunkValueContent ::
  "case_table \<Rightarrow> json \<Rightarrow> string \<Rightarrow> string \<Rightarrow> string \<times> ContentPart list \<Rightarrow> (string \<times> ContentPart list) option" where
  "appendChunkValueContent up v partType path st = (case v of
     JStr val \<Rightarrow>
       if val = ''FINISHED'' \<and> (path = '''' \<or> path = ''status'') then None
       else if isStatusPath path then Some st
       else Some (fst st, appendContentPart (snd st) val partType)
   | JArr val \<Rightarrow> map_option (\<lambda>pp. (fst st, snd st @ pp)) (extractContentRecursive up val partType)
   | JObj val \<Rightarrow>
       (case appendObjectContentByPath path val partType (snd st) of
          Some parts \<Rightarrow> Some (fst st, parts)
        | None \<Rightarrow> Some (appendWrappedFragments up val partType st))
   | _ \<Rightarrow> Some st)"

record parsed_chunk =
  chunkParts :: "ContentPart list"
  chunkThinking :: "ContentPart list"
  chunkFinished :: bool
  chunkNextType :: string

abbreviation nothing_parsed :: "bool \<Rightarrow> string \<Rightarrow> parsed_chunk" where
  "nothing_parsed finished nextType \<equiv>
     \<lparr>chunkParts = [], chunkThinking = [], chunkFinished = finished, chunkNextType = nextType\<rparr>"

definition chunk_content :: "case_table \<Rightarrow> json_object \<Rightarrow> string \<Rightarrow> json \<Rightarrow> bool \<Rightarrow> string \<Rightarrow> parsed_chunk" where
  "chunk_content up chunk path v thinkingEnabled currentFragmentType =
     (let (newType, parts) = collectDirectFragments up path chunk v
            (updateTypeFromExplicitPath path thinkingEnabled currentFragmentType, []);
          newType = updateTypeFromNestedResponse up path v newType;
          partType = resolvePartType path thinkingEnabled newType
      in case appendChunkValueContent up v partType path (newType, parts) of
        None \<Rightarrow> nothing_parsed True newType
      | Some (newType, parts) \<Rightarrow>
          (let (parts, transitioned) = splitThinkingParts parts;
               newType = (if transitioned then ''text'' else newType)
           in \<lparr>chunkParts = (if thinkingEnabled then parts else dropThinkingParts parts),
               chunkThinking = selectThinkingParts parts, chunkFinished = False, chunkNextType = newType\<rparr>))"

definition ParseSSEChunkForContentDetailed :: "case_table \<Rightarrow> json_object \<Rightarrow> bool \<Rightarrow> string \<Rightarrow> parsed_chunk" where
  "ParseSSEChunkForContentDetailed up chunk thinkingEnabled currentFragmentType =
     (case gm_get chunk ''v'' of
        None \<Rightarrow> nothing_parsed False currentFragmentType
      | Some v \<Rightarrow>
          (let path = as_str (jfield chunk ''p'') in
           if shouldSkipPath path then nothing_parsed False currentFragmentType
           else case (isStatusPath path, v) of
             (True, JStr s) \<Rightarrow> nothing_parsed (EqualFoldASCII (TrimSpace s) ''FINISHED'') currentFragmentType
           | _ \<Rightarrow> chunk_content up chunk path v thinkingEnabled currentFragmentType))"

section \<open>The content filter\<close>

definition is_content_filter :: "string \<Rightarrow> bool" where
  "is_content_filter s = EqualFoldASCII (TrimSpace s) ''content_filter''"

fun hasContentFilterStatusValue :: "case_table \<Rightarrow> json \<Rightarrow> bool" where
  "hasContentFilterStatusValue low (JArr items) \<longleftrightarrow> (\<exists>item \<in> set items. hasContentFilterStatusValue low item)"
| "hasContentFilterStatusValue low (JObj x) \<longleftrightarrow>
     (Contains (ToLower low (as_str (jfield x ''p''))) ''status'' \<and> is_content_filter (as_str (jfield x ''v''))) \<or>
     is_content_filter (as_str (jfield x ''code'')) \<or>
     (\<exists>kv \<in> set x. hasContentFilterStatusValue low (snd kv))"
| "hasContentFilterStatusValue low _ \<longleftrightarrow> False"

definition hasContentFilterStatus :: "case_table \<Rightarrow> json_object \<Rightarrow> bool" where
  "hasContentFilterStatus low chunk \<longleftrightarrow>
     is_content_filter (as_str (jfield chunk ''code'')) \<or> hasContentFilterStatusValue low (JObj chunk)"

text \<open>
  The offset is found in the upper-cased text and used on the text itself; beyond its end the slice panics
  (\<open>None\<close>).
\<close>

definition stripLeakedContentFilterSuffix :: "case_table \<Rightarrow> string \<Rightarrow> (string \<times> bool) option" where
  "stripLeakedContentFilterSuffix up text =
     (if text = '''' then Some (text, False)
      else case str_index (ToUpper up text) ''CONTENT_FILTER'' of
        None \<Rightarrow> Some (text, False)
      | Some idx \<Rightarrow>
          if length text < idx then None
          else Some (TrimRightSet (take idx text) [CHR '' '', CHR 0x09, CHR 0x0D], True))"

definition shouldDropCleanedLeakedChunk :: "string \<Rightarrow> bool" where
  "shouldDropCleanedLeakedChunk cleaned =
     (if cleaned = '''' then True
      else if Contains cleaned [CHR 0x0A] then False
      else TrimSpace cleaned = '''')"

fun filterLeakedContentFilterParts :: "case_table \<Rightarrow> ContentPart list \<Rightarrow> ContentPart list option" where
  "filterLeakedContentFilterParts up [] = Some []"
| "filterLeakedContentFilterParts up (p # ps) = (case stripLeakedContentFilterSuffix up (Text p) of
     None \<Rightarrow> None
   | Some (cleaned, stripped) \<Rightarrow>
       map_option (\<lambda>out.
         if stripped \<and> shouldDropCleanedLeakedChunk cleaned then out
         else (if stripped then p\<lparr>Text := cleaned\<rparr> else p) # out)
       (filterLeakedContentFilterParts up ps))"

section \<open>One line\<close>

text \<open>\<^verbatim>\<open>fmt.Sprintf("%v", x)\<close> of a decoded value; \<^verbatim>\<open>fmt\<close> prints a map sorted by key.\<close>

fun sprint_value :: "(rat \<Rightarrow> string) \<Rightarrow> json \<Rightarrow> string" where
  "sprint_value ff JNull = ''<nil>''"
| "sprint_value ff (JBool b) = (if b then ''true'' else ''false'')"
| "sprint_value ff (JNum r) = ff r"
| "sprint_value ff (JStr s) = s"
| "sprint_value ff (JArr xs) = ''['' @ str_join '' '' (map (sprint_value ff) xs) @ '']''"
| "sprint_value ff (JObj m) =
     ''map['' @ str_join '' '' (map (\<lambda>kv. fst kv @ '':'' @ snd kv) (sort_key fst (map (map_prod id (sprint_value ff)) m))) @ '']''"

definition observeResponseMessageID :: "json_object \<Rightarrow> int \<Rightarrow> int" where
  "observeResponseMessageID chunk out0 =
     (let take_id = (\<lambda>m k out. let i = IntFrom (jfield m k) in if 0 < i then i else out);
          nested = (\<lambda>holder out. case as_obj holder of
            None \<Rightarrow> out
          | Some m \<Rightarrow> (case as_obj (jfield m ''response'') of None \<Rightarrow> out | Some response \<Rightarrow> take_id response ''message_id'' out))
      in nested (jfield chunk ''message'') (nested (jfield chunk ''v'') (take_id chunk ''response_message_id'' out0)))"

text \<open>
  \<^verbatim>\<open>json.Unmarshal\<close> into a \<^verbatim>\<open>map[string]any\<close>: an object, or null, which leaves a nil map. The results are the
  chunk, \<^verbatim>\<open>done\<close> and \<^verbatim>\<open>parsed\<close>.
\<close>

definition ParseDeepSeekSSELine :: "json_decoder \<Rightarrow> string \<Rightarrow> json_object \<times> bool \<times> bool" where
  "ParseDeepSeekSSELine dec raw = (let line = TrimSpace raw in
     if line = '''' \<or> \<not> prefix ''data:'' line then ([], False, False)
     else let dataStr = TrimSpace (TrimPrefix line ''data:'') in
       if dataStr = ''[DONE]'' then ([], True, True)
       else case dec dataStr of
         Some (JObj chunk) \<Rightarrow> (chunk, False, True)
       | Some JNull \<Rightarrow> ([], False, True)
       | _ \<Rightarrow> ([], False, False))"

record LineResult =
  Parsed :: bool
  Stop :: bool
  ContentFilter :: bool
  ErrorMessage :: string
  Parts :: "ContentPart list"
  ToolDetectionThinkingParts :: "ContentPart list"
  NextType :: string
  ResponseMessageID :: int

definition line_result :: "bool \<Rightarrow> bool \<Rightarrow> string \<Rightarrow> LineResult" where
  "line_result parsed stop nextType =
     \<lparr>Parsed = parsed, Stop = stop, ContentFilter = False, ErrorMessage = '''', Parts = [],
      ToolDetectionThinkingParts = [], NextType = nextType, ResponseMessageID = 0\<rparr>"

definition content_line :: "sse_env \<Rightarrow> json_object \<Rightarrow> bool \<Rightarrow> string \<Rightarrow> LineResult option" where
  "content_line env chunk thinkingEnabled currentType =
     (let pc = ParseSSEChunkForContentDetailed (upTab env) chunk thinkingEnabled currentType in
      case (filterLeakedContentFilterParts (upTab env) (chunkParts pc),
            filterLeakedContentFilterParts (upTab env) (chunkThinking pc)) of
        (Some parts, Some thinking) \<Rightarrow>
          Some ((line_result True (chunkFinished pc) (chunkNextType pc))
            \<lparr>Parts := parts, ToolDetectionThinkingParts := thinking, ResponseMessageID := observeResponseMessageID chunk 0\<rparr>)
      | _ \<Rightarrow> None)"

definition ParseDeepSeekContentLine :: "sse_env \<Rightarrow> string \<Rightarrow> bool \<Rightarrow> string \<Rightarrow> LineResult option" where
  "ParseDeepSeekContentLine env raw thinkingEnabled currentType =
     (case ParseDeepSeekSSELine (jsonDecode env) raw of (chunk, is_done, parsed) \<Rightarrow>
        if \<not> parsed then Some (line_result False False currentType)
        else if is_done then Some (line_result True True currentType)
        else case gm_get chunk ''error'' of
          Some errObj \<Rightarrow> Some ((line_result True True currentType)\<lparr>ErrorMessage := sprint_value (fmtFloat env) errObj\<rparr>)
        | None \<Rightarrow>
            if as_str (jfield chunk ''code'') = ''content_filter'' \<or> hasContentFilterStatus (lowTab env) chunk
            then Some ((line_result True True currentType)\<lparr>ContentFilter := True\<rparr>)
            else content_line env chunk thinkingEnabled currentType)"

definition IsCitation :: "string \<Rightarrow> bool" where
  "IsCitation text = prefix ''[citation:'' (TrimSpace text)"

section \<open>Types of the parts\<close>

definition frag_type :: "string \<Rightarrow> bool" where
  "frag_type s \<longleftrightarrow> s = ''text'' \<or> s = ''thinking''"

definition part_ok :: "ContentPart \<Rightarrow> bool" where
  "part_ok p \<longleftrightarrow> Text p \<noteq> '''' \<and> frag_type (PartType p)"

definition state_ok :: "string \<times> ContentPart list \<Rightarrow> bool" where
  "state_ok st \<longleftrightarrow> frag_type (fst st) \<and> list_all part_ok (snd st)"

lemma frag_type_simps [simp]: "frag_type ''text''" "frag_type ''thinking''"
  by (simp_all add: frag_type_def)

lemma frag_type_nonempty: "frag_type s \<Longrightarrow> s \<noteq> ''''"
  by (auto simp: frag_type_def)

lemma fragment_kind_type: "fragment_kind t = Some k \<Longrightarrow> frag_type k"
  by (auto simp: fragment_kind_def split: if_splits)

lemma append_part_ok: "list_all part_ok ps \<Longrightarrow> frag_type k \<Longrightarrow> list_all part_ok (appendContentPart ps t k)"
  by (simp add: appendContentPart_def part_ok_def)

lemma fragments_loop_step:
  "fragments_loop up d (frag # frags) (ty, ps) = fragments_loop up d frags
     (case as_obj frag of None \<Rightarrow> (ty, ps)
      | Some m \<Rightarrow> (case fragment_kind (ToUpper up (as_str (jfield m ''type''))) of
          Some k \<Rightarrow> (k, appendContentPart ps (as_str (jfield m ''content'')) k)
        | None \<Rightarrow> (ty, appendContentPart ps (as_str (jfield m ''content'')) d)))"
  by (simp add: parseFragmentTypeContent_def Let_def split: option.splits)

lemma fragments_loop_ok: "frag_type d \<Longrightarrow> state_ok st \<Longrightarrow> state_ok (fragments_loop up d frags st)"
proof (induction frags arbitrary: st)
  case (Cons frag frags)
  obtain ty ps where st: "st = (ty, ps)" by (cases st)
  show ?case unfolding st fragments_loop_step
  proof (rule Cons.IH [OF Cons.prems(1)])
    show "state_ok (case as_obj frag of None \<Rightarrow> (ty, ps)
      | Some m \<Rightarrow> (case fragment_kind (ToUpper up (as_str (jfield m ''type''))) of
          Some k \<Rightarrow> (k, appendContentPart ps (as_str (jfield m ''content'')) k)
        | None \<Rightarrow> (ty, appendContentPart ps (as_str (jfield m ''content'')) d)))"
      using Cons.prems unfolding st
      by (auto simp: state_ok_def append_part_ok split: option.splits dest: fragment_kind_type)
  qed
qed simp

lemma collectDirectFragments_ok: "state_ok st \<Longrightarrow> state_ok (collectDirectFragments up path chunk v st)"
  by (simp add: collectDirectFragments_def fragments_loop_ok split: option.splits)

lemma fold_frag_type: "(\<And>x t. frag_type t \<Longrightarrow> frag_type (f x t)) \<Longrightarrow> frag_type t \<Longrightarrow> frag_type (fold f xs t)"
  by (induction xs arbitrary: t) simp_all

lemma nested_fragment_type_ok: "frag_type t \<Longrightarrow> frag_type (nested_fragment_type up frag t)"
  by (auto simp: nested_fragment_type_def split: option.splits dest: fragment_kind_type)

lemma nested_item_type_ok: "frag_type t \<Longrightarrow> frag_type (nested_item_type up it t)"
  by (auto simp: nested_item_type_def split: option.splits intro!: fold_frag_type nested_fragment_type_ok)

lemma updateTypeFromNestedResponse_ok: "frag_type t \<Longrightarrow> frag_type (updateTypeFromNestedResponse up path v t)"
  by (auto simp: updateTypeFromNestedResponse_def split: option.splits intro!: fold_frag_type nested_item_type_ok)

lemma updateTypeFromExplicitPath_ok: "frag_type t \<Longrightarrow> frag_type (updateTypeFromExplicitPath path te t)"
  by (simp add: updateTypeFromExplicitPath_def)

lemma resolvePartType_ok: "frag_type t \<Longrightarrow> frag_type (resolvePartType path te t)"
  by (simp add: resolvePartType_def frag_type_nonempty)

lemma fragment_part_ok: "content \<noteq> '''' \<Longrightarrow> frag_type d \<Longrightarrow> part_ok (fragment_part up m content d)"
  by (auto simp: fragment_part_def part_ok_def split: option.splits dest: fragment_kind_type)

lemma inner_parts_ok:
  assumes "frag_type d" shows "list_all part_ok (inner_parts up d inner)"
proof (cases inner)
  case (JObj x)
  then show ?thesis using assms by (simp add: inner_parts_def fragment_part_ok Let_def)
qed (use assms in \<open>simp_all add: inner_parts_def part_ok_def\<close>)

lemma list_all_concat_map: "(\<And>x. list_all P (f x)) \<Longrightarrow> list_all P (concat (map f xs))"
  by (induction xs) simp_all

lemma item_parts_ok:
  assumes "frag_type d" and "item_parts up d m = Some ps" shows "list_all part_ok ps"
proof -
  have "list_all part_ok (case itemV of JStr v \<Rightarrow> if v \<noteq> '''' \<and> v \<noteq> ''FINISHED'' then [part v t] else []
      | JArr inners \<Rightarrow> concat (map (inner_parts up t) inners) | _ \<Rightarrow> [])" if "frag_type t" for t itemV
    using that by (cases itemV) (simp_all add: part_ok_def inner_parts_ok list_all_concat_map)
  then show ?thesis using assms
    by (auto simp: item_parts_def Let_def fragment_part_ok split: option.splits if_splits)
qed

lemma extractContentRecursive_ok:
  "frag_type d \<Longrightarrow> extractContentRecursive up items d = Some ps \<Longrightarrow> list_all part_ok ps"
proof (induction items arbitrary: ps)
  case (Cons it items)
  then obtain a b where a: "(case as_obj it of None \<Rightarrow> Some [] | Some m \<Rightarrow> item_parts up d m) = Some a" and
    b: "extractContentRecursive up items d = Some b" and ps: "ps = a @ b" by (auto split: option.splits)
  have "list_all part_ok a" using a item_parts_ok [OF Cons.prems(1)] by (cases "as_obj it") auto
  then show ?case using Cons.IH [OF Cons.prems(1) b] ps by simp
qed simp

lemma appendChunkValueContent_ok:
  assumes "frag_type d" "state_ok st" "appendChunkValueContent up v d path st = Some st'"
  shows "state_ok st'"
proof (cases v)
  case (JStr s)
  then show ?thesis using assms by (auto simp: appendChunkValueContent_def state_ok_def append_part_ok split: if_splits)
next
  case (JArr xs)
  then show ?thesis using assms extractContentRecursive_ok [OF assms(1)]
    by (auto simp: appendChunkValueContent_def state_ok_def)
next
  case (JObj m)
  have "state_ok (appendWrappedFragments up m d st)"
    using assms by (auto simp: appendWrappedFragments_def Let_def fragments_loop_ok split: option.splits)
  moreover have "list_all part_ok ps" if "appendObjectContentByPath path m d (snd st) = Some ps" for ps
    using that assms by (auto simp: appendObjectContentByPath_def Let_def state_ok_def append_part_ok split: if_splits)
  ultimately show ?thesis using assms(2,3) unfolding JObj appendChunkValueContent_def
    by (auto simp: state_ok_def split: option.splits)
qed (use assms in \<open>auto simp: appendChunkValueContent_def\<close>)

lemma split_loop_ok: "list_all part_ok ps \<Longrightarrow> list_all part_ok (fst (split_loop ps d))"
proof (induction ps arbitrary: d)
  case (Cons p ps)
  have IH: "list_all part_ok (fst (split_loop ps e))" for e using Cons by simp
  have p: "part_ok p" and f: "frag_type (PartType p)" using Cons.prems by (simp_all add: part_ok_def)
  show ?case using IH [of True] IH [of d] p f
    by (auto simp: append_part_ok split: option.splits prod.splits)
qed simp

lemma chunk_content_ok:
  assumes "frag_type ct" and "pc = chunk_content up chunk path v te ct"
  shows "frag_type (chunkNextType pc) \<and> list_all part_ok (chunkParts pc) \<and> list_all part_ok (chunkThinking pc)"
proof -
  obtain ty ps where c: "collectDirectFragments up path chunk v (updateTypeFromExplicitPath path te ct, []) = (ty, ps)"
    by fastforce
  have st: "state_ok (ty, ps)"
    using collectDirectFragments_ok [of "(updateTypeFromExplicitPath path te ct, [])" up path chunk v]
      updateTypeFromExplicitPath_ok [OF assms(1)] unfolding c by (simp add: state_ok_def)
  define ty2 where "ty2 = updateTypeFromNestedResponse up path v ty"
  have ty2: "frag_type ty2" using st unfolding ty2_def state_ok_def by (simp add: updateTypeFromNestedResponse_ok)
  define d where "d = resolvePartType path te ty2"
  have d: "frag_type d" unfolding d_def by (rule resolvePartType_ok [OF ty2])
  show ?thesis
  proof (cases "appendChunkValueContent up v d path (ty2, ps)")
    case None
    then have "pc = nothing_parsed True ty2"
      using assms(2) c by (simp add: chunk_content_def Let_def ty2_def d_def)
    then show ?thesis using ty2 by simp
  next
    case (Some st')
    obtain ty3 ps3 where st': "st' = (ty3, ps3)" by (cases st')
    have "state_ok (ty2, ps)" using st ty2 by (simp add: state_ok_def)
    then have ok: "state_ok (ty3, ps3)" using appendChunkValueContent_ok [OF d _ Some] st' by blast
    obtain ps4 tr where sp: "splitThinkingParts ps3 = (ps4, tr)" by fastforce
    have ps4: "list_all part_ok ps4"
      using split_loop_ok [of ps3 False] ok sp by (simp add: splitThinkingParts_def state_ok_def)
    have "pc = \<lparr>chunkParts = (if te then ps4 else dropThinkingParts ps4), chunkThinking = selectThinkingParts ps4,
        chunkFinished = False, chunkNextType = (if tr then ''text'' else ty3)\<rparr>"
      using assms(2) c Some st' sp by (simp add: chunk_content_def Let_def ty2_def d_def)
    then show ?thesis using ps4 ok by (auto simp: dropThinkingParts_def selectThinkingParts_def state_ok_def list_all_iff)
  qed
qed

lemma chunk_content_thinking:
  "chunkThinking (chunk_content up chunk path v te ct) = filter is_thinking (chunkThinking (chunk_content up chunk path v te ct)) \<and>
   (if te then chunkThinking (chunk_content up chunk path v te ct) = filter is_thinking (chunkParts (chunk_content up chunk path v te ct))
    else filter is_thinking (chunkParts (chunk_content up chunk path v te ct)) = [])"
  by (simp add: chunk_content_def Let_def selectThinkingParts_def dropThinkingParts_def split: prod.split option.split)

lemma chunk_content_finished:
  "chunkFinished (chunk_content up chunk path v te ct) \<Longrightarrow> chunkParts (chunk_content up chunk path v te ct) = []
    \<and> chunkThinking (chunk_content up chunk path v te ct) = []"
  by (auto simp: chunk_content_def Let_def split: prod.splits option.splits)

text \<open>A chunk either contributes nothing or goes through \<open>chunk_content\<close>.\<close>

lemma chunk_detailed_cases:
  "(\<exists>b. ParseSSEChunkForContentDetailed up chunk te ct = nothing_parsed b ct) \<or>
   (\<exists>path v. ParseSSEChunkForContentDetailed up chunk te ct = chunk_content up chunk path v te ct)"
proof (cases "gm_get chunk ''v''")
  case (Some v)
  then show ?thesis
    by (cases v; cases "isStatusPath (as_str (jfield chunk ''p''))")
      (auto simp: ParseSSEChunkForContentDetailed_def Let_def split: if_splits)
qed (auto simp: ParseSSEChunkForContentDetailed_def)

section \<open>Leaked filter markers\<close>

lemma filterLeaked_ok:
  "filterLeakedContentFilterParts up ps = Some qs \<Longrightarrow> list_all part_ok ps \<Longrightarrow> list_all part_ok qs"
proof (induction ps arbitrary: qs)
  case (Cons p ps)
  then obtain cleaned stripped out where s: "stripLeakedContentFilterSuffix up (Text p) = Some (cleaned, stripped)" and
    out: "filterLeakedContentFilterParts up ps = Some out" and
    qs: "qs = (if stripped \<and> shouldDropCleanedLeakedChunk cleaned then out
      else (if stripped then p\<lparr>Text := cleaned\<rparr> else p) # out)" by (auto split: option.splits)
  have "list_all part_ok out" using Cons out by simp
  moreover have "\<not> shouldDropCleanedLeakedChunk cleaned \<Longrightarrow> cleaned \<noteq> ''''" by (auto simp: shouldDropCleanedLeakedChunk_def)
  then have "stripped \<Longrightarrow> \<not> shouldDropCleanedLeakedChunk cleaned \<Longrightarrow> part_ok (p\<lparr>Text := cleaned\<rparr>)"
    using Cons.prems(2) by (simp add: part_ok_def)
  ultimately show ?case using Cons.prems(2) qs by auto
qed simp

lemma filterLeaked_thinking:
  "filterLeakedContentFilterParts up ps = Some qs \<Longrightarrow>
   filterLeakedContentFilterParts up (filter is_thinking ps) = Some (filter is_thinking qs)"
proof (induction ps arbitrary: qs)
  case (Cons p ps)
  then obtain cleaned stripped out where s: "stripLeakedContentFilterSuffix up (Text p) = Some (cleaned, stripped)" and
    out: "filterLeakedContentFilterParts up ps = Some out" and
    qs: "qs = (if stripped \<and> shouldDropCleanedLeakedChunk cleaned then out
      else (if stripped then p\<lparr>Text := cleaned\<rparr> else p) # out)" by (auto split: option.splits)
  show ?case using Cons.IH [OF out] s qs by (simp add: is_thinking_def)
qed simp

text \<open>Text that upper-casing does not lengthen is cut within its bounds.\<close>

lemma strip_within: "length (ToUpper up t) \<le> length t \<Longrightarrow> \<exists>r. stripLeakedContentFilterSuffix up t = Some r"
  by (auto simp: stripLeakedContentFilterSuffix_def split: option.split dest: str_index_Some)

lemma filterLeaked_within:
  "\<forall>p \<in> set ps. length (ToUpper up (Text p)) \<le> length (Text p) \<Longrightarrow> \<exists>qs. filterLeakedContentFilterParts up ps = Some qs"
proof (induction ps)
  case (Cons p ps)
  then obtain r qs where "stripLeakedContentFilterSuffix up (Text p) = Some r" "filterLeakedContentFilterParts up ps = Some qs"
    using strip_within by fastforce
  then show ?case by (cases r) simp
qed simp

text \<open>
  Upper-casing U+0250 (two bytes) gives U+2C6F (three bytes): after sixteen of them the marker's offset in the
  upper-cased text lies beyond the end of the text.
\<close>

lemma upper_marker: "concat (map (\<lambda>r. encode_rune (upper_rune up r)) (map byte_of ''CONTENT_FILTER'')) = ''CONTENT_FILTER''"
proof -
  have "encode_rune (upper_rune up (byte_of c)) = [c]" if "byte_of c < 97" for c
    using that by (simp add: upper_rune_def encode_rune_ascii) (simp add: byte_of_def)
  then have "concat (map (\<lambda>c. encode_rune (upper_rune up (byte_of c))) s) = s" if "list_all (\<lambda>c. byte_of c < 97) s" for s
    using that by (induction s) simp_all
  moreover have "list_all (\<lambda>c. byte_of c < 97) ''CONTENT_FILTER''" by (simp add: byte_of_def)
  ultimately show ?thesis unfolding map_map comp_def by blast
qed

lemma leaked_marker_panics:
  assumes "up 0x250 = 0x2C6F"
  shows "filterLeakedContentFilterParts up
    [part (concat (replicate 16 [CHR 0xC9, CHR 0x90]) @ ''CONTENT_FILTER'') ''text''] = None"
proof -
  define t where "t = concat (replicate 16 [CHR 0xC9, CHR 0x90]) @ ''CONTENT_FILTER''"
  have r: "rune_chunks t = replicate 16 (0x250, [CHR 0xC9, CHR 0x90]) @ map (\<lambda>c. (byte_of c, [c])) ''CONTENT_FILTER''"
    unfolding t_def by code_simp
  have "char_of (226 :: nat) = CHR 0xE2" "char_of (177 :: nat) = CHR 0xB1" "char_of (175 :: nat) = CHR 0xAF"
    by (simp_all add: char_of_def bit_0)
  then have "encode_rune 0x2C6F = [CHR 0xE2, CHR 0xB1, CHR 0xAF]" by (simp add: encode_rune_def rune_error_def)
  then have e: "encode_rune (upper_rune up 0x250) = [CHR 0xE2, CHR 0xB1, CHR 0xAF]" using assms by (simp add: upper_rune_def)
  have "runes t = replicate 16 0x250 @ map byte_of ''CONTENT_FILTER''" unfolding runes_def r by (simp add: comp_def)
  then have "ToUpper up t = concat (replicate 16 [CHR 0xE2, CHR 0xB1, CHR 0xAF]) @ ''CONTENT_FILTER''"
    unfolding ToUpper_def map_runes_def using upper_marker [of up] by (simp only: map_append concat_append map_replicate e)
  moreover have "str_index (concat (replicate 16 [CHR 0xE2, CHR 0xB1, CHR 0xAF]) @ ''CONTENT_FILTER'') ''CONTENT_FILTER'' = Some 48"
    by code_simp
  moreover have "t \<noteq> ''''" "length t < 48" by (simp_all add: t_def length_concat sum_list_replicate)
  ultimately have "stripLeakedContentFilterSuffix up t = None" by (simp add: stripLeakedContentFilterSuffix_def)
  then show ?thesis by (simp add: t_def)
qed

section \<open>Lines\<close>

definition line_ok :: "bool \<Rightarrow> LineResult \<Rightarrow> bool" where
  "line_ok te r \<longleftrightarrow> frag_type (NextType r) \<and> list_all part_ok (Parts r) \<and> list_all part_ok (ToolDetectionThinkingParts r) \<and>
     list_all is_thinking (ToolDetectionThinkingParts r) \<and>
     (if te then ToolDetectionThinkingParts r = filter is_thinking (Parts r) else filter is_thinking (Parts r) = []) \<and>
     (Stop r \<longrightarrow> Parts r = [] \<and> ToolDetectionThinkingParts r = [])"

lemma line_result_ok: "frag_type ct \<Longrightarrow> line_ok te (line_result a b ct)"
  by (simp add: line_ok_def line_result_def)

lemma content_line_ok:
  assumes "frag_type ct" and "content_line env chunk te ct = Some r" shows "line_ok te r"
proof -
  define pc where "pc = ParseSSEChunkForContentDetailed (upTab env) chunk te ct"
  obtain ps ts where ps: "filterLeakedContentFilterParts (upTab env) (chunkParts pc) = Some ps" and
    ts: "filterLeakedContentFilterParts (upTab env) (chunkThinking pc) = Some ts" and
    r: "r = (line_result True (chunkFinished pc) (chunkNextType pc))
      \<lparr>Parts := ps, ToolDetectionThinkingParts := ts, ResponseMessageID := observeResponseMessageID chunk 0\<rparr>"
    using assms(2) by (auto simp: content_line_def pc_def Let_def split: option.splits)
  consider (none) b where "pc = nothing_parsed b ct" | (some) path v where "pc = chunk_content (upTab env) chunk path v te ct"
    using chunk_detailed_cases unfolding pc_def by blast
  then show ?thesis
  proof cases
    case none
    then show ?thesis using ps ts r assms(1) by (simp add: line_ok_def line_result_def)
  next
    case some
    note ok = chunk_content_ok [OF assms(1) some]
    note th = chunk_content_thinking [of "upTab env" chunk path v te ct, folded some]
    note fin = chunk_content_finished [of "upTab env" chunk path v te ct, folded some]
    have "list_all part_ok ps" "list_all part_ok ts" using filterLeaked_ok [OF ps] filterLeaked_ok [OF ts] ok by blast+
    moreover have "ts = filter is_thinking ts" using filterLeaked_thinking [OF ts] th ts by simp
    then have "list_all is_thinking ts" unfolding list_all_iff by (metis filter_id_conv)
    moreover have "if te then ts = filter is_thinking ps else filter is_thinking ps = []"
      using filterLeaked_thinking [OF ps] th ts by (cases te) simp_all
    moreover have "chunkFinished pc \<Longrightarrow> ps = [] \<and> ts = []" using fin ps ts by simp
    ultimately show ?thesis using r ok by (simp add: line_ok_def line_result_def)
  qed
qed

lemma parse_line_ok:
  assumes "frag_type ct" and "ParseDeepSeekContentLine env raw te ct = Some r" shows "line_ok te r"
proof -
  obtain chunk is_done parsed where l: "ParseDeepSeekSSELine (jsonDecode env) raw = (chunk, is_done, parsed)" by (cases "ParseDeepSeekSSELine (jsonDecode env) raw") auto
  show ?thesis using assms content_line_ok [OF assms(1), of env chunk te r] line_result_ok [OF assms(1)] unfolding ParseDeepSeekContentLine_def l
    by (auto simp: line_ok_def line_result_def split: if_splits option.splits)
qed

text \<open>C27: Parsing one upstream line with a fragment type that is text or thinking, the next fragment type is again one of the two and every part has a type among them and a non-empty text; when thinking is disabled no thinking part reaches the client, when it is enabled the parts kept for tool detection are exactly the thinking parts, and a line that ends the response carries no part.\<close>
theorem sse_line_parts:
  assumes "currentType \<in> {''text'', ''thinking''}"
    and "ParseDeepSeekContentLine env raw thinkingEnabled currentType = Some r"
  shows "NextType r \<in> {''text'', ''thinking''} \<and>
    (\<forall>p \<in> set (Parts r @ ToolDetectionThinkingParts r). Text p \<noteq> '''' \<and> PartType p \<in> {''text'', ''thinking''}) \<and>
    (\<not> thinkingEnabled \<longrightarrow> (\<forall>p \<in> set (Parts r). PartType p = ''text'')) \<and>
    (thinkingEnabled \<longrightarrow> ToolDetectionThinkingParts r = filter (\<lambda>p. PartType p = ''thinking'') (Parts r)) \<and>
    (Stop r \<longrightarrow> Parts r = [] \<and> ToolDetectionThinkingParts r = [])"
proof -
  have ok: "line_ok thinkingEnabled r" using assms by (intro parse_line_ok) (auto simp: frag_type_def)
  have parts: "\<forall>p \<in> set (Parts r @ ToolDetectionThinkingParts r). Text p \<noteq> '''' \<and> PartType p \<in> {''text'', ''thinking''}"
    using ok by (auto simp: line_ok_def list_all_iff part_ok_def frag_type_def)
  moreover have "\<forall>p \<in> set (Parts r). PartType p = ''text''" if "\<not> thinkingEnabled"
    using ok parts that by (auto simp: line_ok_def is_thinking_def filter_empty_conv)
  moreover have "ToolDetectionThinkingParts r = filter (\<lambda>p. PartType p = ''thinking'') (Parts r)" if "thinkingEnabled"
    using ok that by (simp add: line_ok_def is_thinking_def [abs_def])
  ultimately show ?thesis using ok by (simp add: line_ok_def frag_type_def)
qed

definition sample_sse_env :: sse_env where
  "sample_sse_env =
     \<lparr>jsonDecode = (\<lambda>s. if s = ''x'' then Some (JObj [(''p'', JStr ''response/thinking_content''), (''v'', JStr ''a</think>b'')]) else None),
      lowTab = id, upTab = id, fmtFloat = (\<lambda>_. '''')\<rparr>"

lemma sample_sse_paths:
  "shouldSkipPath ''response/thinking_content'' = False" "isStatusPath ''response/thinking_content'' = False"
  "find_tag ''</'' ''a</think>b'' = Some (''a'', ''b'')" "stripThinkTags ''b'' = ''b''"
  "TrimSpace ''data: x'' = ''data: x''" "TrimSpace '' x'' = ''x''"
  by code_simp+

lemma sample_sse_strip:
  "stripLeakedContentFilterSuffix id ''a'' = Some (''a'', False)" "stripLeakedContentFilterSuffix id ''b'' = Some (''b'', False)"
  by (simp_all add: stripLeakedContentFilterSuffix_def ascii_eval)

lemma sample_sse_filter: "is_content_filter ''a</think>b'' = False" "is_content_filter '''' = False"
  by code_simp+

lemma sample_sse_chunk:
  "ParseSSEChunkForContentDetailed id [(''p'', JStr ''response/thinking_content''), (''v'', JStr ''a</think>b'')] True ''thinking'' =
   \<lparr>chunkParts = [part ''a'' ''thinking'', part ''b'' ''text''], chunkThinking = [part ''a'' ''thinking''],
    chunkFinished = False, chunkNextType = ''text''\<rparr>"
  by (simp add: ParseSSEChunkForContentDetailed_def jfield_def sample_sse_paths chunk_content_def
      updateTypeFromExplicitPath_def collectDirectFragments_def updateTypeFromNestedResponse_def resolvePartType_def
      appendChunkValueContent_def appendContentPart_def splitThinkingParts_def is_thinking_def selectThinkingParts_def
      del: find_tag.simps)

lemma sample_sse_line:
  "ParseDeepSeekContentLine sample_sse_env ''data: x'' True ''thinking'' =
   Some ((line_result True False ''text'')\<lparr>Parts := [part ''a'' ''thinking'', part ''b'' ''text''],
     ToolDetectionThinkingParts := [part ''a'' ''thinking'']\<rparr>)"
proof -
  have p: "ParseDeepSeekSSELine (jsonDecode sample_sse_env) ''data: x'' =
     ([(''p'', JStr ''response/thinking_content''), (''v'', JStr ''a</think>b'')], False, True)"
    by (simp add: ParseDeepSeekSSELine_def sample_sse_paths TrimPrefix_def sample_sse_env_def)
  show ?thesis unfolding ParseDeepSeekContentLine_def p
    by (simp add: jfield_def hasContentFilterStatus_def sample_sse_filter content_line_def sample_sse_env_def
        sample_sse_chunk sample_sse_strip observeResponseMessageID_def line_result_def)
qed

theorem sse_line_parts_witness:
  "\<exists>r. ParseDeepSeekContentLine sample_sse_env ''data: x'' True ''thinking'' = Some r \<and> NextType r \<in> {''text'', ''thinking''} \<and>
     list_all (\<lambda>p. Text p \<noteq> '''' \<and> PartType p \<in> {''text'', ''thinking''}) (Parts r @ ToolDetectionThinkingParts r) \<and>
     ToolDetectionThinkingParts r = filter (\<lambda>p. PartType p = ''thinking'') (Parts r) \<and> Parts r \<noteq> []"
  using sse_line_parts [OF _ sample_sse_line] sample_sse_line by (auto simp: line_result_def)

end
