(* ===== verification/Sse_Stream.thy ===== *)
theory Sse_Stream
  imports Sse_Parse
begin

text \<open>
  What is done with the parsed lines: citation links (\<^verbatim>\<open>sse/citation_links.go\<close>), the non-streaming collector
  (\<^verbatim>\<open>sse/consumer.go\<close>, \<^verbatim>\<open>sse/dedupe.go\<close>), the line pump of the streaming adapters (\<^verbatim>\<open>sse/stream.go\<close>) and the engine that
  consumes it (\<^verbatim>\<open>stream/engine.go\<close>, \<^verbatim>\<open>stream/terminal_failure.go\<close>).

  The pump's goroutine and the engine's loop are step functions over events, one per case of their \<^verbatim>\<open>select\<close>: every
  interleaving of lines, timer ticks, sends and cancellation is a list of events. A step returns \<open>None\<close> when the
  parser panics.
\<close>

section \<open>Reading lines\<close>

text \<open>The lines \<^verbatim>\<open>ReadBytes('\n')\<close> returns for a body, each with its newline; the last one may lack it.\<close>

fun read_lines :: "string \<Rightarrow> string list" where
  "read_lines [] = []"
| "read_lines (c # cs) = (if c = CHR 0x0A then [c] # read_lines cs
     else case read_lines cs of [] \<Rightarrow> [[c]] | l # ls \<Rightarrow> (c # l) # ls)"

text \<open>\<^verbatim>\<open>ScanSSELines\<close>: the callback is called per line until it returns false.\<close>

fun ScanSSELines :: "(string \<Rightarrow> 's \<Rightarrow> (bool \<times> 's) option) \<Rightarrow> string list \<Rightarrow> 's \<Rightarrow> 's option" where
  "ScanSSELines onLine [] s = Some s"
| "ScanSSELines onLine (l # ls) s = (case onLine l s of
     None \<Rightarrow> None | Some (go_on, s') \<Rightarrow> if go_on then ScanSSELines onLine ls s' else Some s')"

section \<open>Citation links\<close>

record citationLinkCollector =
  ordered :: "string list"
  explicitRaw :: "(int, string) gomap"
  hasZeroIdx :: bool

definition newCitationLinkCollector :: citationLinkCollector where
  "newCitationLinkCollector = \<lparr>ordered = [], explicitRaw = [], hasZeroIdx = False\<rparr>"

fun citationIndexFromAny :: "json \<Rightarrow> int option" where
  "citationIndexFromAny (JNum r) = Some (float_to_int r)"
| "citationIndexFromAny (JStr x) = (let s = TrimSpace x in if s = '''' then None else Atoi s)"
| "citationIndexFromAny _ = None"

definition isWebURL :: "case_table \<Rightarrow> string \<Rightarrow> bool" where
  "isWebURL low v = (let v = ToLower low (TrimSpace v) in prefix ''http://'' v \<or> prefix ''https://'' v)"

definition addOrdered :: "string \<Rightarrow> citationLinkCollector \<Rightarrow> citationLinkCollector" where
  "addOrdered url c = c\<lparr>ordered := ordered c @ [url]\<rparr>"

definition captureURLAndIndex :: "case_table \<Rightarrow> json_object \<Rightarrow> citationLinkCollector \<Rightarrow> citationLinkCollector" where
  "captureURLAndIndex low m c0 = (let url = TrimSpace (as_str (jfield m ''url'')) in
     if \<not> isWebURL low url then c0
     else let c = addOrdered url c0 in
       case citationIndexFromAny (jfield m ''cite_index'') of
         None \<Rightarrow> c
       | Some idx \<Rightarrow>
           if idx < 0 then c
           else let c = (if idx = 0 then c\<lparr>hasZeroIdx := True\<rparr> else c) in
             case gm_get (explicitRaw c) idx of
               Some existing \<Rightarrow> if TrimSpace existing \<noteq> '''' then c else c\<lparr>explicitRaw := gm_set idx url (explicitRaw c)\<rparr>
             | None \<Rightarrow> c\<lparr>explicitRaw := gm_set idx url (explicitRaw c)\<rparr>)"

fun walkValue :: "case_table \<Rightarrow> json \<Rightarrow> citationLinkCollector \<Rightarrow> citationLinkCollector" where
  "walkValue low (JArr items) c = fold (walkValue low) items c"
| "walkValue low (JObj x) c = fold (\<lambda>kv. walkValue low (snd kv)) x (captureURLAndIndex low x c)"
| "walkValue low _ c = c"

definition ingestChunk :: "case_table \<Rightarrow> json_object \<Rightarrow> citationLinkCollector \<Rightarrow> citationLinkCollector" where
  "ingestChunk low chunk c = (if chunk = [] then c else walkValue low (JObj chunk) c)"

definition preferURLForIndex :: "citationLinkCollector \<Rightarrow> int \<Rightarrow> string \<Rightarrow> string \<Rightarrow> string" where
  "preferURLForIndex c idx current candidate =
     (if idx \<le> 0 \<or> int (length (ordered c)) < idx then current
      else let expected = ordered c ! nat (idx - 1) in
        if TrimSpace expected = '''' then current
        else if candidate = expected \<and> current \<noteq> expected then candidate
        else current)"

text \<open>The index arithmetic is on 64-bit integers.\<close>

definition keep_positive :: "int \<times> string \<Rightarrow> (int, string) gomap \<Rightarrow> (int, string) gomap" where
  "keep_positive iu out = (case iu of (idx, u) \<Rightarrow> if idx \<le> 0 \<or> TrimSpace u = '''' then out else gm_set idx u out)"

definition add_shifted :: "citationLinkCollector \<Rightarrow> int \<times> string \<Rightarrow> (int, string) gomap \<Rightarrow> (int, string) gomap" where
  "add_shifted c iu out = (case iu of (rawIdx, u) \<Rightarrow>
     if rawIdx < 0 \<or> TrimSpace u = '''' then out
     else let normalized = int64_wrap (rawIdx + 1) in
       case gm_get out normalized of
         None \<Rightarrow> gm_set normalized u out
       | Some existing \<Rightarrow> if preferURLForIndex c normalized existing u = u then gm_set normalized u out else out)"

definition buildNormalizedExplicit :: "citationLinkCollector \<Rightarrow> (int, string) gomap" where
  "buildNormalizedExplicit c = (let out = fold keep_positive (explicitRaw c) [] in
     if \<not> hasZeroIdx c then out else fold (add_shifted c) (explicitRaw c) out)"

definition fill_ordered :: "nat \<times> string \<Rightarrow> (int, string) gomap \<Rightarrow> (int, string) gomap" where
  "fill_ordered iu out = (case iu of (i, u) \<Rightarrow>
     (let idx = int i + 1 in case gm_get out idx of Some _ \<Rightarrow> out | None \<Rightarrow> gm_set idx u out))"

definition build :: "citationLinkCollector \<Rightarrow> (int, string) gomap" where
  "build c = fold fill_ordered (enumerate 0 (ordered c)) (fold (\<lambda>(idx, u). gm_set idx u) (buildNormalizedExplicit c) [])"

section \<open>The non-streaming collector\<close>

definition minContinuationSnapshotLen :: nat where
  "minContinuationSnapshotLen = 32"

definition TrimContinuationOverlap :: "string \<Rightarrow> string \<Rightarrow> string" where
  "TrimContinuationOverlap existing incoming =
     (if incoming = '''' then ''''
      else if existing = '''' then incoming
      else if minContinuationSnapshotLen \<le> length incoming \<and> prefix existing incoming then drop (length existing) incoming
      else if minContinuationSnapshotLen \<le> length incoming \<and> prefix incoming existing then ''''
      else incoming)"

record CollectResult =
  crText :: string
  crThinking :: string
  crToolDetectionThinking :: string
  crContentFilter :: bool
  crCitationLinks :: "(int, string) gomap"
  crResponseMessageID :: int

text \<open>The variables the callback of \<^verbatim>\<open>CollectStream\<close> captures.\<close>

record collect_state =
  csText :: string
  csThinking :: string
  csDetection :: string
  csFilter :: bool
  csStopped :: bool
  csCollector :: citationLinkCollector
  csMessageID :: int
  csType :: string

definition write_part :: "ContentPart \<Rightarrow> collect_state \<Rightarrow> collect_state" where
  "write_part p s = (if is_thinking p
     then s\<lparr>csThinking := csThinking s @ TrimContinuationOverlap (csThinking s) (Text p)\<rparr>
     else s\<lparr>csText := csText s @ TrimContinuationOverlap (csText s) (Text p)\<rparr>)"

definition write_detection :: "ContentPart \<Rightarrow> collect_state \<Rightarrow> collect_state" where
  "write_detection p s = s\<lparr>csDetection := csDetection s @ TrimContinuationOverlap (csDetection s) (Text p)\<rparr>"

definition collect_line :: "sse_env \<Rightarrow> bool \<Rightarrow> string \<Rightarrow> collect_state \<Rightarrow> (bool \<times> collect_state) option" where
  "collect_line env thinkingEnabled line s0 =
     (case ParseDeepSeekSSELine (jsonDecode env) line of (chunk, is_done, parsed) \<Rightarrow>
        let s = (if parsed \<and> \<not> is_done
                 then s0\<lparr>csCollector := ingestChunk (lowTab env) chunk (csCollector s0),
                   csMessageID := observeResponseMessageID chunk (csMessageID s0)\<rparr> else s0) in
        if is_done then Some (False, s)
        else if csStopped s then Some (True, s)
        else case ParseDeepSeekContentLine env line thinkingEnabled (csType s) of
          None \<Rightarrow> None
        | Some result \<Rightarrow>
            (let s = s\<lparr>csType := NextType result\<rparr> in
             if \<not> Parsed result then Some (True, s)
             else if Stop result
             then Some (True, s\<lparr>csFilter := csFilter s \<or> ContentFilter result, csStopped := True\<rparr>)
             else Some (True, fold write_detection (ToolDetectionThinkingParts result) (fold write_part (Parts result) s))))"

definition initial_type :: "bool \<Rightarrow> string" where
  "initial_type thinkingEnabled = (if thinkingEnabled then ''thinking'' else ''text'')"

definition collect_start :: "bool \<Rightarrow> collect_state" where
  "collect_start thinkingEnabled =
     \<lparr>csText = '''', csThinking = '''', csDetection = '''', csFilter = False, csStopped = False,
      csCollector = newCitationLinkCollector, csMessageID = 0, csType = initial_type thinkingEnabled\<rparr>"

definition CollectStream :: "sse_env \<Rightarrow> string \<Rightarrow> bool \<Rightarrow> CollectResult option" where
  "CollectStream env body thinkingEnabled =
     map_option (\<lambda>s. \<lparr>crText = csText s, crThinking = csThinking s, crToolDetectionThinking = csDetection s,
        crContentFilter = csFilter s, crCitationLinks = build (csCollector s), crResponseMessageID = csMessageID s\<rparr>)
     (ScanSSELines (collect_line env thinkingEnabled) (read_lines body) (collect_start thinkingEnabled))"

section \<open>The line pump\<close>

definition minFlushChars :: nat where
  "minFlushChars = 160"

datatype pump_error = ContextError | ReadError string | ErrUnexpectedEOF

text \<open>
  The local variables of the pump's goroutine, what it has sent on \<^verbatim>\<open>out\<close>, and what it has sent on \<^verbatim>\<open>done\<close>
  before returning (\<open>None\<close> while it runs).
\<close>

record Pump_State =
  currentType :: string
  pending :: "LineResult option"
  pendingChars :: nat
  terminalSeen :: bool
  parsedSeen :: bool
  sent :: "LineResult list"
  doneErr :: "pump_error option option"

definition pump_start :: "string \<Rightarrow> Pump_State" where
  "pump_start initialType =
     \<lparr>currentType = initialType, pending = None, pendingChars = 0, terminalSeen = False, parsedSeen = False, sent = [], doneErr = None\<rparr>"

text \<open>
  The cases of the \<^verbatim>\<open>select\<close>. A send waits for room in \<^verbatim>\<open>out\<close> or for the context: the Booleans of an event say
  which won, for its flush and for the result itself. A closed line channel acts as an end without an error.
\<close>

datatype pump_event =
    PCancel
  | PTick bool
  | PLine string bool bool
  | PEnd "string option" bool

definition sendResult :: "bool \<Rightarrow> LineResult \<Rightarrow> Pump_State \<Rightarrow> bool \<times> Pump_State" where
  "sendResult room r st = (if room then (True, st\<lparr>sent := sent st @ [r]\<rparr>) else (False, st\<lparr>doneErr := Some (Some ContextError)\<rparr>))"

definition flushPending :: "bool \<Rightarrow> Pump_State \<Rightarrow> bool \<times> Pump_State" where
  "flushPending room st = (case pending st of
     None \<Rightarrow> (True, st)
   | Some r \<Rightarrow> (case sendResult room r st of
       (False, st') \<Rightarrow> (False, st')
     | (True, st') \<Rightarrow> (True, st'\<lparr>pending := None, pendingChars := 0\<rparr>)))"

definition is_terminal :: "LineResult \<Rightarrow> bool" where
  "is_terminal r \<longleftrightarrow> Stop r \<or> ErrorMessage r \<noteq> '''' \<or> ContentFilter r"

definition canAccumulate :: "LineResult \<Rightarrow> bool" where
  "canAccumulate r \<longleftrightarrow> Parsed r \<and> \<not> Stop r \<and> ErrorMessage r = '''' \<and> \<not> ContentFilter r \<and> ResponseMessageID r = 0"

definition lineChars :: "LineResult \<Rightarrow> nat" where
  "lineChars r = sum_list (map (\<lambda>p. length (Text p)) (Parts r)) + sum_list (map (\<lambda>p. length (Text p)) (ToolDetectionThinkingParts r))"

definition merge_pending :: "LineResult option \<Rightarrow> LineResult \<Rightarrow> LineResult" where
  "merge_pending p r = (case p of
     None \<Rightarrow> r
   | Some q \<Rightarrow> q\<lparr>Parts := Parts q @ Parts r, ToolDetectionThinkingParts := ToolDetectionThinkingParts q @ ToolDetectionThinkingParts r,
                 NextType := NextType r\<rparr>)"

definition pump_result :: "LineResult \<Rightarrow> bool \<Rightarrow> bool \<Rightarrow> Pump_State \<Rightarrow> Pump_State" where
  "pump_result r room1 room2 st0 =
     (let st = st0\<lparr>currentType := NextType r, parsedSeen := parsedSeen st0 \<or> Parsed r, terminalSeen := terminalSeen st0 \<or> is_terminal r\<rparr> in
      if canAccumulate r \<and> 0 < lineChars r then
        (let st = st\<lparr>pending := Some (merge_pending (pending st) r), pendingChars := pendingChars st + lineChars r\<rparr> in
         if pendingChars st < minFlushChars then st else snd (flushPending room1 st))
      else case flushPending room1 st of
        (False, st) \<Rightarrow> st
      | (True, st) \<Rightarrow> snd (sendResult room2 r st))"

definition pump_end :: "string option \<Rightarrow> bool \<Rightarrow> Pump_State \<Rightarrow> Pump_State" where
  "pump_end err room st0 = (case flushPending room st0 of
     (False, st) \<Rightarrow> st
   | (True, st) \<Rightarrow> st\<lparr>doneErr := Some (case err of
        Some e \<Rightarrow> Some (ReadError e)
      | None \<Rightarrow> if parsedSeen st \<and> \<not> terminalSeen st then Some ErrUnexpectedEOF else None)\<rparr>)"

definition pump_step :: "sse_env \<Rightarrow> bool \<Rightarrow> pump_event \<Rightarrow> Pump_State \<Rightarrow> Pump_State option" where
  "pump_step env thinkingEnabled ev st =
     (if doneErr st \<noteq> None then Some st
      else case ev of
        PCancel \<Rightarrow> Some (st\<lparr>doneErr := Some (Some ContextError)\<rparr>)
      | PTick room \<Rightarrow> Some (snd (flushPending room st))
      | PEnd err room \<Rightarrow> Some (pump_end err room st)
      | PLine line room1 room2 \<Rightarrow>
          map_option (\<lambda>r. pump_result r room1 room2 st) (ParseDeepSeekContentLine env line thinkingEnabled (currentType st)))"

fun pump_run :: "sse_env \<Rightarrow> bool \<Rightarrow> pump_event list \<Rightarrow> Pump_State \<Rightarrow> Pump_State option" where
  "pump_run env te [] st = Some st"
| "pump_run env te (ev # evs) st = (case pump_step env te ev st of None \<Rightarrow> None | Some st' \<Rightarrow> pump_run env te evs st')"

section \<open>The engine\<close>

datatype StopReason =
    StopReasonNone
  | StopReasonContextCancelled
  | StopReasonNoContentTimeout
  | StopReasonIdleTimeout
  | StopReasonUpstreamCompleted
  | StopReasonHandlerRequested

record ConsumeConfig =
  cfgThinkingEnabled :: bool
  cfgInitialType :: string
  cfgIdleTimeout :: int
  cfgMaxKeepAliveNoInput :: int

record ParsedDecision =
  pdStop :: bool
  pdStopReason :: StopReason
  pdContentSeen :: bool

text \<open>
  The engine's variables and the calls of its hooks. \<^verbatim>\<open>OnParsed\<close> is a function of the handler's own state \<open>hook\<close>;
  \<open>finished\<close> records the call of \<^verbatim>\<open>OnFinalize\<close> or \<^verbatim>\<open>OnContextDone\<close> with which \<^verbatim>\<open>ConsumeSSE\<close> returns.
\<close>

datatype engine_outcome = ContextDone | Finalized StopReason "pump_error option"

record 'h Engine =
  hook :: 'h
  hasContent :: bool
  lastContent :: time
  keepaliveCount :: int
  keepAlives :: nat
  finished :: "engine_outcome option"

definition engine_initial_type :: "ConsumeConfig \<Rightarrow> string" where
  "engine_initial_type cfg = (if cfgInitialType cfg = ''''
     then (if cfgThinkingEnabled cfg then ''thinking'' else ''text'') else cfgInitialType cfg)"

definition engine_start :: "'h \<Rightarrow> time \<Rightarrow> 'h Engine" where
  "engine_start h now = \<lparr>hook = h, hasContent = False, lastContent = now, keepaliveCount = 0, keepAlives = 0, finished = None\<rparr>"

text \<open>The cases of the loop; \<open>ECancelled\<close> is any iteration in which \<^verbatim>\<open>contextDone\<close> finds the context cancelled.\<close>

datatype engine_event = ECancelled | ETick time | EParsed LineResult time | EClosed "pump_error option"

definition engine_tick :: "ConsumeConfig \<Rightarrow> time \<Rightarrow> 'h Engine \<Rightarrow> 'h Engine" where
  "engine_tick cfg now e0 =
     (let e = (if hasContent e0 then e0 else e0\<lparr>keepaliveCount := keepaliveCount e0 + 1\<rparr>) in
      if \<not> hasContent e \<and> 0 < cfgMaxKeepAliveNoInput cfg \<and> cfgMaxKeepAliveNoInput cfg \<le> keepaliveCount e
      then e\<lparr>finished := Some (Finalized StopReasonNoContentTimeout None)\<rparr>
      else if hasContent e \<and> 0 < cfgIdleTimeout cfg \<and> cfgIdleTimeout cfg < now - lastContent e
      then e\<lparr>finished := Some (Finalized StopReasonIdleTimeout None)\<rparr>
      else e\<lparr>keepAlives := Suc (keepAlives e)\<rparr>)"

definition engine_parsed :: "('h \<Rightarrow> LineResult \<Rightarrow> ParsedDecision \<times> 'h) \<Rightarrow> LineResult \<Rightarrow> time \<Rightarrow> 'h Engine \<Rightarrow> 'h Engine" where
  "engine_parsed onParsed r now e0 = (case onParsed (hook e0) r of (decision, h) \<Rightarrow>
     let e = e0\<lparr>hook := h\<rparr>;
         e = (if pdContentSeen decision then e\<lparr>hasContent := True, lastContent := now, keepaliveCount := 0\<rparr> else e)
     in if pdStop decision
        then e\<lparr>finished := Some (Finalized
          (if pdStopReason decision = StopReasonNone then StopReasonHandlerRequested else pdStopReason decision) None)\<rparr>
        else e)"

definition engine_step :: "ConsumeConfig \<Rightarrow> ('h \<Rightarrow> LineResult \<Rightarrow> ParsedDecision \<times> 'h) \<Rightarrow> engine_event \<Rightarrow> 'h Engine \<Rightarrow> 'h Engine" where
  "engine_step cfg onParsed ev e = (if finished e \<noteq> None then e else case ev of
     ECancelled \<Rightarrow> e\<lparr>finished := Some ContextDone\<rparr>
   | ETick now \<Rightarrow> engine_tick cfg now e
   | EParsed r now \<Rightarrow> engine_parsed onParsed r now e
   | EClosed err \<Rightarrow> e\<lparr>finished := Some (Finalized StopReasonUpstreamCompleted err)\<rparr>)"

record TerminalFailure =
  tfStatus :: int
  tfCode :: string
  tfMessage :: string

definition ClassifyTerminalFailure :: "StopReason \<Rightarrow> pump_error option \<Rightarrow> TerminalFailure option" where
  "ClassifyTerminalFailure reason scannerErr = (case scannerErr of
     Some _ \<Rightarrow> Some \<lparr>tfStatus = 502, tfCode = ''upstream_stream_error'',
       tfMessage = ''Upstream stream ended unexpectedly; the request did not complete.''\<rparr>
   | None \<Rightarrow> (case reason of
       StopReasonNoContentTimeout \<Rightarrow> Some \<lparr>tfStatus = 504, tfCode = ''upstream_stream_timeout'',
         tfMessage = ''Upstream stream timed out before it produced content.''\<rparr>
     | StopReasonIdleTimeout \<Rightarrow> Some \<lparr>tfStatus = 504, tfCode = ''upstream_stream_timeout'',
         tfMessage = ''Upstream stream became idle before it completed.''\<rparr>
     | _ \<Rightarrow> None))"

section \<open>The pump delivers what the lines parse to\<close>

text \<open>The specification of the pump: the lines parsed one after the other, each with the type the previous one left.\<close>

fun parse_lines :: "sse_env \<Rightarrow> bool \<Rightarrow> string \<Rightarrow> string list \<Rightarrow> LineResult list option" where
  "parse_lines env te ty [] = Some []"
| "parse_lines env te ty (l # ls) = (case ParseDeepSeekContentLine env l te ty of
     None \<Rightarrow> None | Some r \<Rightarrow> map_option (\<lambda>rs. r # rs) (parse_lines env te (NextType r) ls))"

fun event_lines :: "pump_event \<Rightarrow> string list" where
  "event_lines (PLine l _ _) = [l]"
| "event_lines _ = []"

text \<open>An event of a run in which nobody cancels: a line or a tick, and every send finds room.\<close>

fun live :: "pump_event \<Rightarrow> bool" where
  "live (PLine _ room1 room2) \<longleftrightarrow> room1 \<and> room2"
| "live (PTick room) \<longleftrightarrow> room"
| "live _ \<longleftrightarrow> False"

definition pend_ok :: "Pump_State \<Rightarrow> bool" where
  "pend_ok st \<longleftrightarrow> (case pending st of
     None \<Rightarrow> pendingChars st = 0
   | Some q \<Rightarrow> canAccumulate q \<and> pendingChars st = lineChars q \<and> pendingChars st < minFlushChars)"

definition held :: "Pump_State \<Rightarrow> LineResult list" where
  "held st = (case pending st of None \<Rightarrow> [] | Some q \<Rightarrow> [q])"

lemma merge_pending_simps:
  "canAccumulate q \<Longrightarrow> canAccumulate (merge_pending (Some q) r)"
  "lineChars (merge_pending (Some q) r) = lineChars q + lineChars r"
  by (simp_all add: merge_pending_def canAccumulate_def lineChars_def)

lemma flush_room:
  "flushPending True st = (True, st\<lparr>sent := sent st @ held st, pending := None, pendingChars := (if pending st = None then pendingChars st else 0)\<rparr>)"
  by (simp add: flushPending_def sendResult_def held_def split: option.split)

lemma pump_result_flags:
  "currentType (pump_result r a b st) = NextType r" "parsedSeen (pump_result r a b st) = (parsedSeen st \<or> Parsed r)"
  "terminalSeen (pump_result r a b st) = (terminalSeen st \<or> is_terminal r)"
  by (simp_all add: pump_result_def Let_def flushPending_def sendResult_def split: option.splits)

lemma pump_result_room:
  assumes "pend_ok st"
  shows "pend_ok (pump_result r True True st)" "doneErr (pump_result r True True st) = doneErr st"
  using assms by (auto simp: pump_result_def Let_def flush_room sendResult_def pend_ok_def merge_pending_simps merge_pending_def [of None]
      minFlushChars_def split: option.splits)

lemma pump_result_delivers:
  assumes "pend_ok st"
  shows "sent (pump_result r True True st) @ held (pump_result r True True st) =
    (if canAccumulate r \<and> 0 < lineChars r then sent st @ [merge_pending (pending st) r] else sent st @ held st @ [r])"
  by (auto simp: pump_result_def Let_def flush_room sendResult_def held_def)

lemma pump_tick_room:
  assumes "pend_ok st"
  shows "pend_ok (snd (flushPending True st))" "sent (snd (flushPending True st)) @ held (snd (flushPending True st)) = sent st @ held st"
    "doneErr (snd (flushPending True st)) = doneErr st" "currentType (snd (flushPending True st)) = currentType st"
    "parsedSeen (snd (flushPending True st)) = parsedSeen st" "terminalSeen (snd (flushPending True st)) = terminalSeen st"
  using assms by (auto simp: flush_room pend_ok_def held_def split: option.splits)

lemma pump_run_live:
  "list_all live evs \<Longrightarrow> parse_lines env te (currentType st) (concat (map event_lines evs)) = Some rs \<Longrightarrow> doneErr st = None \<Longrightarrow> pend_ok st \<Longrightarrow>
   \<exists>st'. pump_run env te evs st = Some st' \<and> doneErr st' = None \<and> pend_ok st' \<and>
     parsedSeen st' = (parsedSeen st \<or> (\<exists>r \<in> set rs. Parsed r)) \<and> terminalSeen st' = (terminalSeen st \<or> (\<exists>r \<in> set rs. is_terminal r))"
proof (induction evs arbitrary: st rs)
  case (Cons ev evs)
  show ?case
  proof (cases ev)
    case (PTick room)
    then show ?thesis using Cons.IH [of "snd (flushPending True st)" rs] Cons.prems pump_tick_room [of st]
      by (simp add: pump_step_def)
  next
    case (PLine l a b)
    then obtain r rs' where r: "ParseDeepSeekContentLine env l te (currentType st) = Some r" and
      rs: "rs = r # rs'" "parse_lines env te (NextType r) (concat (map event_lines evs)) = Some rs'"
      using Cons.prems(2) by (auto split: option.splits)
    show ?thesis using Cons.IH [of "pump_result r True True st" rs'] Cons.prems PLine r rs
        pump_result_room [OF Cons.prems(4), of r] pump_result_flags [of r True True st]
      by (simp add: pump_step_def disj_assoc)
  qed (use Cons.prems in simp_all)
qed simp

text \<open>
  A view of the results that merging two accumulated results concatenates is preserved by the pump, whatever
  the grouping the ticks and the buffer make.
\<close>

locale pump_view =
  fixes view :: "LineResult \<Rightarrow> 'a list"
  assumes view_merge: "canAccumulate q \<Longrightarrow> canAccumulate r \<Longrightarrow> view (merge_pending (Some q) r) = view q @ view r"
begin

lemma view_result:
  assumes "pend_ok st" and "st' = pump_result r True True st"
  shows "concat (map view (sent st' @ held st')) = concat (map view (sent st @ held st)) @ view r"
proof (cases "canAccumulate r \<and> 0 < lineChars r")
  case True
  then show ?thesis using assms pump_result_delivers [OF assms(1), of r] view_merge
    by (cases "pending st") (auto simp: held_def pend_ok_def merge_pending_def [of None])
next
  case False
  then show ?thesis using assms pump_result_delivers [OF assms(1), of r] by auto
qed

lemma view_run:
  "list_all live evs \<Longrightarrow> parse_lines env te (currentType st) (concat (map event_lines evs)) = Some rs \<Longrightarrow> doneErr st = None \<Longrightarrow> pend_ok st \<Longrightarrow>
   pump_run env te evs st = Some st' \<Longrightarrow> concat (map view (sent st' @ held st')) = concat (map view (sent st @ held st)) @ concat (map view rs)"
proof (induction evs arbitrary: st rs)
  case (Cons ev evs)
  show ?case
  proof (cases ev)
    case (PTick room)
    then show ?thesis using Cons.IH [of "snd (flushPending True st)" rs] Cons.prems pump_tick_room [of st]
      by (simp add: pump_step_def)
  next
    case (PLine l a b)
    then obtain r rs' where r: "ParseDeepSeekContentLine env l te (currentType st) = Some r" and
      rs: "rs = r # rs'" "parse_lines env te (NextType r) (concat (map event_lines evs)) = Some rs'"
      using Cons.prems(2) by (auto split: option.splits)
    show ?thesis using Cons.IH [of "pump_result r True True st" rs'] Cons.prems PLine r rs
        pump_result_room [OF Cons.prems(4), of r] pump_result_flags [of r True True st] view_result [OF Cons.prems(4) refl, of r]
      by (simp add: pump_step_def)
  qed (use Cons.prems in simp_all)
qed simp

end

text \<open>The parts, the parts for tool detection, and both together with the results that stop the response.\<close>

definition stop_view :: "(LineResult \<Rightarrow> ContentPart list) \<Rightarrow> LineResult \<Rightarrow> (LineResult + ContentPart) list" where
  "stop_view f r = (if Stop r then [Inl r] else map Inr (f r))"

interpretation parts_view: pump_view Parts
  by unfold_locales (simp add: merge_pending_def)

interpretation detection_view: pump_view ToolDetectionThinkingParts
  by unfold_locales (simp add: merge_pending_def)

interpretation parts_stop: pump_view "stop_view Parts"
  by unfold_locales (simp add: stop_view_def merge_pending_def canAccumulate_def)

interpretation detection_stop: pump_view "stop_view ToolDetectionThinkingParts"
  by unfold_locales (simp add: stop_view_def merge_pending_def canAccumulate_def)

abbreviation until_stop :: "LineResult list \<Rightarrow> LineResult list" where
  "until_stop rs \<equiv> takeWhile (\<lambda>r. \<not> Stop r) rs"

lemma stop_view_parts:
  "takeWhile (\<lambda>x. \<not> isl x) (concat (map (stop_view f) rs)) = map Inr (concat (map f (until_stop rs)))"
proof (induction rs)
  case (Cons r rs)
  have "takeWhile (\<lambda>x. \<not> isl x) (map Inr ps @ ys) = map Inr ps @ takeWhile (\<lambda>x. \<not> isl x) ys" for ps and ys :: "(LineResult + ContentPart) list"
    by (rule takeWhile_append2) auto
  then show ?case using Cons by (cases "Stop r") (simp_all add: stop_view_def [of f r])
qed simp

lemma stop_view_stops: "filter isl (concat (map (stop_view f) rs)) = map Inl (filter Stop rs)"
  by (induction rs) (simp_all add: stop_view_def filter_map comp_def)

lemma stop_view_eq:
  assumes "concat (map (stop_view f) rs) = concat (map (stop_view f) qs)"
  shows "concat (map f (until_stop rs)) = concat (map f (until_stop qs))" and "filter Stop rs = filter Stop qs"
proof -
  have "map Inr (concat (map f (until_stop rs))) = (map Inr (concat (map f (until_stop qs))) :: (LineResult + ContentPart) list)"
    using assms unfolding stop_view_parts [symmetric] by simp
  then show "concat (map f (until_stop rs)) = concat (map f (until_stop qs))" by (simp add: inj_map_eq_map)
  have "map Inl (filter Stop rs) = (map Inl (filter Stop qs) :: (LineResult + ContentPart) list)"
    using assms unfolding stop_view_stops [of f, symmetric] by simp
  then show "filter Stop rs = filter Stop qs" by (simp add: inj_map_eq_map)
qed

lemma pump_start_ok: "pend_ok (pump_start ty)" "doneErr (pump_start ty) = None" "currentType (pump_start ty) = ty"
  "sent (pump_start ty) = []" "held (pump_start ty) = []" "parsedSeen (pump_start ty) = False" "terminalSeen (pump_start ty) = False"
  by (simp_all add: pump_start_def pend_ok_def held_def)

lemma pump_run_append: "pump_run env te (evs @ [ev]) st = (case pump_run env te evs st of None \<Rightarrow> None | Some st' \<Rightarrow> pump_step env te ev st')"
  by (induction evs arbitrary: st) (simp_all split: option.split)

text \<open>What \<^verbatim>\<open>done\<close> reports at the end of the input.\<close>

definition end_error :: "string option \<Rightarrow> LineResult list \<Rightarrow> pump_error option" where
  "end_error err rs = (case err of
     Some e \<Rightarrow> Some (ReadError e)
   | None \<Rightarrow> if (\<exists>r \<in> set rs. Parsed r) \<and> \<not> (\<exists>r \<in> set rs. is_terminal r) then Some ErrUnexpectedEOF else None)"

lemma pump_complete:
  assumes "list_all live evs" and "parse_lines env te ty (concat (map event_lines evs)) = Some rs"
  shows "\<exists>st. pump_run env te (evs @ [PEnd err True]) (pump_start ty) = Some st \<and> doneErr st = Some (end_error err rs) \<and>
    concat (map Parts (sent st)) = concat (map Parts rs) \<and>
    concat (map ToolDetectionThinkingParts (sent st)) = concat (map ToolDetectionThinkingParts rs) \<and>
    concat (map (stop_view Parts) (sent st)) = concat (map (stop_view Parts) rs) \<and>
    concat (map (stop_view ToolDetectionThinkingParts) (sent st)) = concat (map (stop_view ToolDetectionThinkingParts) rs)"
proof -
  have p: "parse_lines env te (currentType (pump_start ty)) (concat (map event_lines evs)) = Some rs" using assms(2) by (simp add: pump_start_ok)
  obtain st where run: "pump_run env te evs (pump_start ty) = Some st" and st: "doneErr st = None"
    "parsedSeen st = (\<exists>r \<in> set rs. Parsed r)" "terminalSeen st = (\<exists>r \<in> set rs. is_terminal r)"
    using pump_run_live [OF assms(1) p] pump_start_ok [of ty] by auto
  note views = parts_view.view_run [OF assms(1) p _ _ run] detection_view.view_run [OF assms(1) p _ _ run]
    parts_stop.view_run [OF assms(1) p _ _ run] detection_stop.view_run [OF assms(1) p _ _ run]
  have e: "pump_end err True st = (snd (flushPending True st))\<lparr>doneErr := Some (end_error err rs)\<rparr>"
    using st by (simp add: pump_end_def flush_room end_error_def split: option.split)
  have "sent (pump_end err True st) = sent st @ held st" "doneErr (pump_end err True st) = Some (end_error err rs)"
    unfolding e by (simp_all add: flush_room)
  moreover have "pump_run env te (evs @ [PEnd err True]) (pump_start ty) = Some (pump_end err True st)"
    using run st by (simp add: pump_run_append pump_step_def)
  ultimately show ?thesis using views pump_start_ok [of ty] by simp
qed

text \<open>A run that is cancelled at any point, or whose reader stops, has delivered an initial part of it.\<close>

lemma pump_run_done: "doneErr st \<noteq> None \<Longrightarrow> pump_run env te evs st = Some st"
  by (induction evs) (auto simp: pump_step_def)

lemma flush_any:
  assumes "doneErr st = None"
  shows "snd (flushPending a st) = snd (flushPending True st) \<or> (doneErr (snd (flushPending a st)) \<noteq> None \<and> sent (snd (flushPending a st)) = sent st)"
  by (cases a) (auto simp: flushPending_def sendResult_def split: option.split)

lemma pump_result_any:
  assumes "doneErr st = None" "st' = pump_result r a b st"
  shows "st' = pump_result r True True st \<or> (doneErr st' \<noteq> None \<and> (sent st' = sent st \<or> sent st' = sent st @ held st))"
  unfolding assms(2) by (cases a; cases b) (auto simp: pump_result_def Let_def flushPending_def sendResult_def held_def split: option.split)

lemma pump_end_any:
  "doneErr (pump_end err a st) \<noteq> None \<and> (sent (pump_end err a st) = sent st \<or> sent (pump_end err a st) = sent st @ held st)"
  by (cases a) (auto simp: pump_end_def flushPending_def sendResult_def held_def split: option.split)

context pump_view
begin

lemma view_prefix:
  "parse_lines env te (currentType st) (concat (map event_lines evs)) = Some rs \<Longrightarrow> doneErr st = None \<Longrightarrow> pend_ok st \<Longrightarrow>
   pump_run env te evs st = Some st' \<Longrightarrow>
   prefix (concat (map view (sent st'))) (concat (map view (sent st @ held st)) @ concat (map view rs))"
proof (induction evs arbitrary: st rs)
  case (Cons ev evs)
  obtain st1 where s1: "pump_step env te ev st = Some st1" "pump_run env te evs st1 = Some st'"
    using Cons.prems(4) by (auto split: option.splits)
  have fin: ?case if "doneErr st1 \<noteq> None" "sent st1 = sent st \<or> sent st1 = sent st @ held st"
    using that s1(2) pump_run_done [OF that(1)] by auto
  show ?case
  proof (cases ev)
    case PCancel
    then show ?thesis using fin s1 Cons.prems by (auto simp: pump_step_def)
  next
    case (PTick a)
    then have st1: "st1 = snd (flushPending a st)" using s1 Cons.prems by (simp add: pump_step_def)
    show ?thesis
    proof (cases "st1 = snd (flushPending True st)")
      case True
      then show ?thesis using Cons.IH [of st1 rs] Cons.prems s1 PTick pump_tick_room [of st] by simp
    next
      case False
      then show ?thesis using fin flush_any [OF Cons.prems(2), of a] st1 by auto
    qed
  next
    case (PEnd err a)
    then show ?thesis using fin s1 Cons.prems pump_end_any [of err a st] by (auto simp: pump_step_def)
  next
    case (PLine l a b)
    then obtain r rs' where r: "ParseDeepSeekContentLine env l te (currentType st) = Some r" and
      rs: "rs = r # rs'" "parse_lines env te (NextType r) (concat (map event_lines evs)) = Some rs'"
      using Cons.prems(1) by (auto split: option.splits)
    have st1: "st1 = pump_result r a b st" using s1 PLine r Cons.prems by (simp add: pump_step_def)
    show ?thesis
    proof (cases "st1 = pump_result r True True st")
      case True
      then have "prefix (concat (map view (sent st'))) (concat (map view (sent st1 @ held st1)) @ concat (map view rs'))"
        using Cons.IH [of st1 rs'] Cons.prems s1 rs pump_result_room [OF Cons.prems(3), of r] pump_result_flags [of r True True st]
        by simp
      then show ?thesis unfolding view_result [OF Cons.prems(3) True] rs by simp
    next
      case False
      then show ?thesis using fin pump_result_any [OF Cons.prems(2) st1] by auto
    qed
  qed
qed simp

end

lemma pump_delivers_prefix:
  assumes "parse_lines env te ty (concat (map event_lines evs)) = Some rs" and "pump_run env te evs (pump_start ty) = Some st"
  shows "prefix (concat (map Parts (sent st))) (concat (map Parts rs))"
  using parts_view.view_prefix [OF _ _ _ assms(2), of rs] assms(1) pump_start_ok [of ty] by simp

section \<open>The collector and the pump agree\<close>

text \<open>What a part adds to the text and the thinking collected so far, and to the text kept for tool detection.\<close>

definition absorb :: "ContentPart \<Rightarrow> string \<times> string \<Rightarrow> string \<times> string" where
  "absorb p tt = (case tt of (text, thinking) \<Rightarrow>
     if is_thinking p then (text, thinking @ TrimContinuationOverlap thinking (Text p))
     else (text @ TrimContinuationOverlap text (Text p), thinking))"

definition absorb_detection :: "ContentPart \<Rightarrow> string \<Rightarrow> string" where
  "absorb_detection p d = d @ TrimContinuationOverlap d (Text p)"

definition answer :: "collect_state \<Rightarrow> string \<times> string" where
  "answer s = (csText s, csThinking s)"

lemma answer_frame [simp]:
  "answer (s\<lparr>csType := t\<rparr>) = answer s" "answer (s\<lparr>csFilter := f\<rparr>) = answer s" "answer (s\<lparr>csStopped := b\<rparr>) = answer s"
  "answer (s\<lparr>csCollector := c\<rparr>) = answer s" "answer (s\<lparr>csMessageID := m\<rparr>) = answer s"
  by (simp_all add: answer_def)

lemma write_part_effect:
  "answer (write_part p s) = absorb p (answer s)" "csDetection (write_part p s) = csDetection s"
  "csStopped (write_part p s) = csStopped s" "csType (write_part p s) = csType s"
  by (simp_all add: write_part_def answer_def absorb_def)

lemma write_parts_effect:
  "answer (fold write_part ps s) = fold absorb ps (answer s)" "csDetection (fold write_part ps s) = csDetection s"
  "csStopped (fold write_part ps s) = csStopped s" "csType (fold write_part ps s) = csType s"
  by (induction ps arbitrary: s) (simp_all add: write_part_effect)

lemma write_detections_effect:
  "answer (fold write_detection ps s) = answer s" "csDetection (fold write_detection ps s) = fold absorb_detection ps (csDetection s)"
  "csStopped (fold write_detection ps s) = csStopped s" "csType (fold write_detection ps s) = csType s"
  by (induction ps arbitrary: s) (simp_all add: write_detection_def answer_def absorb_detection_def)

lemma line_of_done:
  "ParseDeepSeekSSELine (jsonDecode env) l = (chunk, True, parsed) \<Longrightarrow>
   ParseDeepSeekContentLine env l te ty = Some (line_result True True ty)"
  by (auto simp: ParseDeepSeekContentLine_def ParseDeepSeekSSELine_def Let_def split: if_splits option.splits json.splits)

lemma content_line_Parsed: "content_line env chunk te ty = Some r \<Longrightarrow> Parsed r"
  by (auto simp: content_line_def Let_def line_result_def split: option.splits)

lemma line_not_parsed:
  assumes "ParseDeepSeekContentLine env l te ty = Some r" "\<not> Parsed r" shows "r = line_result False False ty"
proof -
  obtain chunk is_done parsed where l: "ParseDeepSeekSSELine (jsonDecode env) l = (chunk, is_done, parsed)"
    by (cases "ParseDeepSeekSSELine (jsonDecode env) l") auto
  show ?thesis using assms unfolding ParseDeepSeekContentLine_def l
    by (auto simp: line_result_def split: if_splits option.splits dest: content_line_Parsed)
qed

lemma collect_line_stopped:
  assumes "csStopped s"
  shows "\<exists>b s1. collect_line env te l s = Some (b, s1) \<and> csStopped s1 \<and> answer s1 = answer s \<and> csDetection s1 = csDetection s"
proof -
  obtain chunk is_done parsed where "ParseDeepSeekSSELine (jsonDecode env) l = (chunk, is_done, parsed)"
    by (cases "ParseDeepSeekSSELine (jsonDecode env) l") auto
  then show ?thesis using assms by (cases is_done) (auto simp: collect_line_def Let_def)
qed

lemma collect_stopped:
  "csStopped s \<Longrightarrow> \<exists>s'. ScanSSELines (collect_line env te) ls s = Some s' \<and> answer s' = answer s \<and> csDetection s' = csDetection s"
proof (induction ls arbitrary: s)
  case (Cons l ls)
  obtain b s1 where l: "collect_line env te l s = Some (b, s1)" and
    s1: "csStopped s1" "answer s1 = answer s" "csDetection s1 = csDetection s"
    using collect_line_stopped [OF Cons.prems] by blast
  then show ?case using Cons.IH [OF s1(1)] by auto
qed simp

lemma collect_line_step:
  assumes "ParseDeepSeekContentLine env l te (csType s) = Some r" and "\<not> csStopped s"
  shows "\<exists>b s1. collect_line env te l s = Some (b, s1) \<and>
    (if Stop r then (b \<longrightarrow> csStopped s1) \<and> answer s1 = answer s \<and> csDetection s1 = csDetection s
     else b \<and> \<not> csStopped s1 \<and> csType s1 = NextType r \<and> answer s1 = fold absorb (Parts r) (answer s) \<and>
       csDetection s1 = fold absorb_detection (ToolDetectionThinkingParts r) (csDetection s))"
proof -
  obtain chunk is_done parsed where l: "ParseDeepSeekSSELine (jsonDecode env) l = (chunk, is_done, parsed)"
    by (cases "ParseDeepSeekSSELine (jsonDecode env) l") auto
  show ?thesis
  proof (cases is_done)
    case True
    then have "r = line_result True True (csType s)" using line_of_done [of env l chunk parsed te "csType s"] l assms(1) by simp
    then show ?thesis using True l by (auto simp: collect_line_def line_result_def)
  next
    case False
    then show ?thesis using l assms line_not_parsed [OF assms(1)]
      by (cases "Parsed r"; cases "Stop r")
        (auto simp: collect_line_def Let_def write_parts_effect write_detections_effect line_result_def)
  qed
qed

lemma collect_lines:
  "parse_lines env te (csType s) ls = Some rs \<Longrightarrow> \<not> csStopped s \<Longrightarrow>
   \<exists>s'. ScanSSELines (collect_line env te) ls s = Some s' \<and>
     answer s' = fold absorb (concat (map Parts (until_stop rs))) (answer s) \<and>
     csDetection s' = fold absorb_detection (concat (map ToolDetectionThinkingParts (until_stop rs))) (csDetection s)"
proof (induction ls arbitrary: s rs)
  case (Cons l ls)
  then obtain r rs' where r: "ParseDeepSeekContentLine env l te (csType s) = Some r" and
    rs: "rs = r # rs'" "parse_lines env te (NextType r) ls = Some rs'" by (auto split: option.splits)
  obtain b s1 where b: "collect_line env te l s = Some (b, s1)" and
    eff: "if Stop r then (b \<longrightarrow> csStopped s1) \<and> answer s1 = answer s \<and> csDetection s1 = csDetection s
     else b \<and> \<not> csStopped s1 \<and> csType s1 = NextType r \<and> answer s1 = fold absorb (Parts r) (answer s) \<and>
       csDetection s1 = fold absorb_detection (ToolDetectionThinkingParts r) (csDetection s)"
    using collect_line_step [OF r Cons.prems(2)] by auto
  show ?case
  proof (cases "Stop r")
    case True
    then show ?thesis using b eff rs collect_stopped [of s1 env te ls] by (cases b) auto
  next
    case False
    then show ?thesis using b eff rs Cons.IH [of s1 rs'] by auto
  qed
qed simp

text \<open>C23: The non-streaming collector and the streaming pump agree: on the same body, whatever ticks regroup the pump's output, both return, and the collected text, thinking and tool-detection text are what the parts delivered by the pump before the first stop accumulate to.\<close>
theorem collect_stream_agrees:
  assumes "list_all live evs" and "concat (map event_lines evs) = read_lines body"
    and "parse_lines env thinkingEnabled (initial_type thinkingEnabled) (read_lines body) = Some rs"
  shows "\<exists>st res. pump_run env thinkingEnabled (evs @ [PEnd err True]) (pump_start (initial_type thinkingEnabled)) = Some st \<and>
    CollectStream env body thinkingEnabled = Some res \<and>
    (crText res, crThinking res) = fold absorb (concat (map Parts (until_stop (sent st)))) ('''', '''') \<and>
    crToolDetectionThinking res = fold absorb_detection (concat (map ToolDetectionThinkingParts (until_stop (sent st)))) ''''"
proof -
  obtain st where st: "pump_run env thinkingEnabled (evs @ [PEnd err True]) (pump_start (initial_type thinkingEnabled)) = Some st" and
    views: "concat (map (stop_view Parts) (sent st)) = concat (map (stop_view Parts) rs)"
      "concat (map (stop_view ToolDetectionThinkingParts) (sent st)) = concat (map (stop_view ToolDetectionThinkingParts) rs)"
    using pump_complete [OF assms(1), of env thinkingEnabled "initial_type thinkingEnabled" rs err] assms(2,3) by auto
  have "parse_lines env thinkingEnabled (csType (collect_start thinkingEnabled)) (read_lines body) = Some rs" "\<not> csStopped (collect_start thinkingEnabled)"
    using assms(3) by (simp_all add: collect_start_def)
  from collect_lines [OF this] obtain s where s: "ScanSSELines (collect_line env thinkingEnabled) (read_lines body) (collect_start thinkingEnabled) = Some s"
    "answer s = fold absorb (concat (map Parts (until_stop rs))) ('''', '''')"
    "csDetection s = fold absorb_detection (concat (map ToolDetectionThinkingParts (until_stop rs))) ''''"
    by (auto simp: collect_start_def answer_def)
  then show ?thesis using st stop_view_eq(1) [OF views(1)] stop_view_eq(1) [OF views(2)] by (simp add: CollectStream_def answer_def)
qed

text \<open>C7: Whatever way lines and ticks interleave, the pump of a stream that is not cancelled returns; what it delivered carries the parts of all lines in order, for the client and for tool detection, each stopping result in its place among them, and it reports the reader's error, or an unexpected end exactly when reading did not fail, some line parsed and none ended the response; a stream without any parsed line ends with no error.\<close>
theorem pump_refines:
  assumes "list_all live evs" and "parse_lines env thinkingEnabled ty (concat (map event_lines evs)) = Some rs"
  shows "\<exists>st. pump_run env thinkingEnabled (evs @ [PEnd err True]) (pump_start ty) = Some st \<and>
    concat (map Parts (sent st)) = concat (map Parts rs) \<and>
    concat (map ToolDetectionThinkingParts (sent st)) = concat (map ToolDetectionThinkingParts rs) \<and>
    filter Stop (sent st) = filter Stop rs \<and>
    concat (map Parts (until_stop (sent st))) = concat (map Parts (until_stop rs)) \<and>
    doneErr st = Some (case err of Some e \<Rightarrow> Some (ReadError e)
      | None \<Rightarrow> if (\<exists>r \<in> set rs. Parsed r) \<and> \<not> (\<exists>r \<in> set rs. is_terminal r) then Some ErrUnexpectedEOF else None)"
  using pump_complete [OF assms, of err] stop_view_eq [of Parts _ rs] unfolding end_error_def by blast

section \<open>Citation links\<close>

definition collector_ok :: "case_table \<Rightarrow> citationLinkCollector \<Rightarrow> bool" where
  "collector_ok low c \<longleftrightarrow> gm_wf (explicitRaw c) \<and>
     (\<forall>i u. gm_get (explicitRaw c) i = Some u \<longrightarrow> 0 \<le> i \<and> i \<le> int64_max \<and> u \<in> set (ordered c)) \<and>
     (hasZeroIdx c \<longleftrightarrow> gm_get (explicitRaw c) 0 \<noteq> None) \<and> (\<forall>u \<in> set (ordered c). isWebURL low u)"

lemma isWebURL_nonblank: "isWebURL low u \<Longrightarrow> TrimSpace u \<noteq> ''''"
  by (auto simp: isWebURL_def ToLower_def map_runes_def runes_def)

lemma Atoi_range: "Atoi s = Some n \<Longrightarrow> int64_min \<le> n \<and> n \<le> int64_max"
  by (auto simp: Atoi_def Let_def split: if_splits prod.splits)

lemma citationIndex_range: "citationIndexFromAny v = Some i \<Longrightarrow> i \<le> int64_max"
  using float_to_int_range Atoi_range
  by (cases v) (auto simp: Let_def split: if_splits)

lemma capture_ok:
  assumes "collector_ok low c" shows "collector_ok low (captureURLAndIndex low m c)"
proof -
  define url where "url = TrimSpace (as_str (jfield m ''url''))"
  define c1 where "c1 = addOrdered url c"
  have c1: "collector_ok low c1" if "isWebURL low url" using that assms by (auto simp: collector_ok_def c1_def addOrdered_def)
  have put: "collector_ok low ((if i = 0 then c1\<lparr>hasZeroIdx := True\<rparr> else c1)\<lparr>explicitRaw := gm_set i url (explicitRaw c1)\<rparr>)"
    if "isWebURL low url" "0 \<le> i" "i \<le> int64_max" for i
    using c1 [OF that(1)] that by (auto simp: collector_ok_def gm_get_set c1_def addOrdered_def split: if_splits)
  have keep: "collector_ok low (if i = 0 then c1\<lparr>hasZeroIdx := True\<rparr> else c1)" if "isWebURL low url" "gm_get (explicitRaw c1) i = Some u" for i u
    using c1 [OF that(1)] that by (auto simp: collector_ok_def)

  show ?thesis
  proof (cases "isWebURL low url")
    case False
    then show ?thesis using assms by (simp add: captureURLAndIndex_def url_def)
  next
    case web: True
    show ?thesis
    proof (cases "\<exists>i. citationIndexFromAny (jfield m ''cite_index'') = Some i \<and> 0 \<le> i")
      case False
      then have "captureURLAndIndex low m c = c1"
        using web by (auto simp: captureURLAndIndex_def url_def c1_def Let_def not_less split: option.split)
      then show ?thesis using c1 [OF web] by simp
    next
      case True
      then obtain i where i: "citationIndexFromAny (jfield m ''cite_index'') = Some i" "0 \<le> i" by blast
      define c2 where "c2 = (if i = 0 then c1\<lparr>hasZeroIdx := True\<rparr> else c1)"
      have "captureURLAndIndex low m c = c2 \<and> gm_get (explicitRaw c1) i \<noteq> None \<or>
          captureURLAndIndex low m c = c2\<lparr>explicitRaw := gm_set i url (explicitRaw c1)\<rparr>"
        using web i unfolding captureURLAndIndex_def url_def [symmetric] c1_def [symmetric] Let_def c2_def [symmetric]
        by (auto simp: c2_def split: option.split)
      then show ?thesis using put [OF web i(2) citationIndex_range [OF i(1)]] keep [OF web, of i] unfolding c2_def by auto
    qed
  qed
qed

lemma fold_inv: "(\<And>x s. x \<in> set xs \<Longrightarrow> P s \<Longrightarrow> P (f x s)) \<Longrightarrow> P s \<Longrightarrow> P (fold f xs s)"
  by (induction xs arbitrary: s) simp_all

lemma walkValue_ok: "collector_ok low c \<Longrightarrow> collector_ok low (walkValue low v c)"
proof (induction low v c rule: walkValue.induct)
  case (1 low items c)
  then show ?case unfolding walkValue.simps by (intro fold_inv [where P = "collector_ok low"]) auto
next
  case (2 low x c)
  then show ?case unfolding walkValue.simps by (intro fold_inv [where P = "collector_ok low"]) (auto intro: capture_ok)
qed simp_all

lemma ingest_ok: "collector_ok low (fold (ingestChunk low) chunks newCitationLinkCollector)"
proof (rule fold_inv)
  show "collector_ok low (ingestChunk low x s)" if "collector_ok low s" for x s
    using walkValue_ok [OF that, of "JObj x"] that by (simp add: ingestChunk_def)
qed (simp add: newCitationLinkCollector_def collector_ok_def)

lemma fold_keep_positive:
  "gm_wf m \<Longrightarrow> (\<forall>(i, u) \<in> set m. TrimSpace u \<noteq> '''') \<Longrightarrow>
   gm_get (fold keep_positive m out) n = (case gm_get m n of Some u \<Rightarrow> if 0 < n then Some u else gm_get out n | None \<Rightarrow> gm_get out n)"
proof (induction m arbitrary: out)
  case (Cons iu m)
  obtain i u where iu: "iu = (i, u)" by (cases iu)
  have "gm_get m i = None" using Cons.prems(1) by (simp add: iu gm_wf_def map_of_eq_None_iff)
  then show ?case using Cons.IH [of "keep_positive iu out"] Cons.prems
    by (auto simp: iu gm_wf_def keep_positive_def gm_get_set split: option.split)
qed simp

lemma int64_wrap_id: "int64_min \<le> n \<Longrightarrow> n \<le> int64_max \<Longrightarrow> int64_wrap n = n"
  by (simp add: int64_wrap_def int64_min_def int64_max_def)

lemma int64_wrap_succ: "0 \<le> i \<Longrightarrow> i \<le> int64_max \<Longrightarrow> 1 \<le> n \<Longrightarrow> n \<le> int64_max \<Longrightarrow> int64_wrap (i + 1) = n \<longleftrightarrow> i = n - 1"
  by (cases "i = int64_max") (auto simp: int64_wrap_def int64_max_def)

lemma fold_add_shifted:
  assumes n: "1 \<le> n" "n \<le> int64_max"
  shows "gm_wf m \<Longrightarrow> (\<forall>(i, u) \<in> set m. 0 \<le> i \<and> i \<le> int64_max \<and> TrimSpace u \<noteq> '''') \<Longrightarrow>
   gm_get (fold (add_shifted c) m out) n = (case gm_get m (n - 1) of
     None \<Rightarrow> gm_get out n
   | Some b \<Rightarrow> Some (case gm_get out n of None \<Rightarrow> b | Some a \<Rightarrow> preferURLForIndex c n a b))"
proof (induction m arbitrary: out)
  case (Cons iu m)
  obtain i u where iu: "iu = (i, u)" by (cases iu)
  have i: "0 \<le> i" "i \<le> int64_max" "TrimSpace u \<noteq> ''''" using Cons.prems(2) by (simp_all add: iu)
  have nw: "gm_get m i = None" using Cons.prems(1) by (simp add: iu gm_wf_def map_of_eq_None_iff)
  have IH: "gm_get (fold (add_shifted c) m (add_shifted c iu out)) n = (case gm_get m (n - 1) of
     None \<Rightarrow> gm_get (add_shifted c iu out) n
   | Some b \<Rightarrow> Some (case gm_get (add_shifted c iu out) n of None \<Rightarrow> b | Some a \<Rightarrow> preferURLForIndex c n a b))"
    using Cons.prems by (intro Cons.IH) (auto simp: gm_wf_def)
  show ?case
  proof (cases "i = n - 1")
    case True
    then have "int64_wrap (i + 1) = n" using int64_wrap_succ [OF i(1,2) n] by simp
    moreover have "preferURLForIndex c n a u \<noteq> u \<Longrightarrow> a = preferURLForIndex c n a u" for a
      by (auto simp: preferURLForIndex_def Let_def split: if_splits)
    ultimately have "gm_get (add_shifted c iu out) n = Some (case gm_get out n of None \<Rightarrow> u | Some a \<Rightarrow> preferURLForIndex c n a u)"
      using i by (auto simp: iu add_shifted_def gm_get_set split: option.split)
    then show ?thesis using IH [unfolded iu] True nw by (simp add: iu)
  next
    case False
    then have "int64_wrap (i + 1) \<noteq> n" using int64_wrap_succ [OF i(1,2) n] by simp
    then have e: "gm_get (add_shifted c iu out) n = gm_get out n"
      by (auto simp: iu add_shifted_def Let_def gm_get_set split: option.split)
    show ?thesis using IH [unfolded e] False by (simp add: iu)
  qed
qed simp

lemma fold_fill_ordered:
  "gm_get (fold fill_ordered (enumerate k us) out) n = (case gm_get out n of Some u \<Rightarrow> Some u
   | None \<Rightarrow> if int k < n \<and> n \<le> int k + int (length us) then Some (us ! nat (n - int k - 1)) else None)"
proof (induction us arbitrary: k out)
  case (Cons u us)
  have e: "gm_get (fill_ordered (k, u) out) n = (case gm_get out n of Some v \<Rightarrow> Some v | None \<Rightarrow> if n = int k + 1 then Some u else None)"
    by (auto simp: fill_ordered_def Let_def gm_get_set split: option.split)
  have "nat (n - int k - 1) = Suc (nat (n - int (Suc k) - 1))" if "int (Suc k) < n" using that by simp
  then show ?case using Cons.IH [of "Suc k" "fill_ordered (k, u) out"] e by (auto split: option.split)
qed (simp split: option.split)

lemma fold_copy: "gm_wf m \<Longrightarrow> gm_get (fold (\<lambda>(idx, u). gm_set idx u) m out) n = (case gm_get m n of Some u \<Rightarrow> Some u | None \<Rightarrow> gm_get out n)"
proof (induction m arbitrary: out)
  case (Cons iu m)
  obtain i u where iu: "iu = (i, u)" by (cases iu)
  have "gm_get m i = None" using Cons.prems by (simp add: iu gm_wf_def map_of_eq_None_iff)
  then show ?case using Cons.IH [of "gm_set i u out"] Cons.prems by (simp add: iu gm_wf_def gm_get_set split: option.split)
qed simp

lemma buildNormalizedExplicit_wf: "gm_wf (buildNormalizedExplicit c)"
proof -
  have "gm_wf (keep_positive iu out)" if "gm_wf out" for iu out using that by (simp add: keep_positive_def split: prod.split)
  then have a: "gm_wf (fold keep_positive m [])" for m by (intro fold_inv [where P = gm_wf]) simp_all
  have "gm_wf (add_shifted c iu out)" if "gm_wf out" for iu out using that by (simp add: add_shifted_def Let_def split: prod.split option.split)
  then have "gm_wf (fold (add_shifted c) m out)" if "gm_wf out" for m out using that by (intro fold_inv [where P = gm_wf]) simp_all
  with a show ?thesis by (simp add: buildNormalizedExplicit_def Let_def)
qed

text \<open>
  The link of marker \<open>n\<close>: the explicit index \<open>n\<close>; in a payload that also counts from zero, the index \<open>n - 1\<close> when
  there is no \<open>n\<close> or when it is the \<open>n\<close>-th link of the stream; and the \<open>n\<close>-th link when no index names it.
\<close>

definition citation_at :: "citationLinkCollector \<Rightarrow> int \<Rightarrow> string option" where
  "citation_at c n = (case (gm_get (explicitRaw c) n, if hasZeroIdx c then gm_get (explicitRaw c) (n - 1) else None) of
     (Some a, Some b) \<Rightarrow> Some (if n \<le> int (length (ordered c)) \<and> ordered c ! nat (n - 1) = b then b else a)
   | (Some a, None) \<Rightarrow> Some a
   | (None, Some b) \<Rightarrow> Some b
   | (None, None) \<Rightarrow> if n \<le> int (length (ordered c)) then Some (ordered c ! nat (n - 1)) else None)"

lemma build_citation_at:
  assumes ok: "collector_ok low c" and n: "1 \<le> n" "n \<le> int64_max"
  shows "gm_get (build c) n = citation_at c n"
proof -
  have wf: "gm_wf (explicitRaw c)" using ok by (simp add: collector_ok_def)
  have nb: "\<forall>(i, u) \<in> set (explicitRaw c). 0 \<le> i \<and> i \<le> int64_max \<and> TrimSpace u \<noteq> ''''"
    using ok isWebURL_nonblank by (fastforce simp: collector_ok_def gm_get_mem)
  then have nb': "\<forall>(i, u) \<in> set (explicitRaw c). TrimSpace u \<noteq> ''''" by auto
  have pref: "preferURLForIndex c n a b = (if n \<le> int (length (ordered c)) \<and> ordered c ! nat (n - 1) = b then b else a)" for a b
  proof (cases "n \<le> int (length (ordered c))")
    case True
    then have "ordered c ! nat (n - 1) \<in> set (ordered c)" using n by simp
    then have "TrimSpace (ordered c ! nat (n - 1)) \<noteq> ''''" using ok isWebURL_nonblank by (auto simp: collector_ok_def)
    then show ?thesis using True n by (auto simp: preferURLForIndex_def Let_def)
  qed (simp add: preferURLForIndex_def)
  have kp: "gm_get (fold keep_positive (explicitRaw c) []) n = gm_get (explicitRaw c) n"
    using fold_keep_positive [OF wf nb', of "[]" n] n by (simp split: option.split)
  have "gm_get (buildNormalizedExplicit c) n = (case (gm_get (explicitRaw c) n, if hasZeroIdx c then gm_get (explicitRaw c) (n - 1) else None) of
     (Some a, Some b) \<Rightarrow> Some (preferURLForIndex c n a b) | (Some a, None) \<Rightarrow> Some a | (None, b) \<Rightarrow> b)"
    using fold_add_shifted [OF n wf nb, of c "fold keep_positive (explicitRaw c) []"] kp
    by (simp add: buildNormalizedExplicit_def Let_def split: option.split)
  then show ?thesis using n
    by (simp add: build_def fold_fill_ordered fold_copy [OF buildNormalizedExplicit_wf] pref citation_at_def split: option.split)
qed

lemma citation_at_ordered: "collector_ok low c \<Longrightarrow> 1 \<le> n \<Longrightarrow> citation_at c n = Some u \<Longrightarrow> u \<in> set (ordered c)"
  by (auto simp: citation_at_def collector_ok_def split: option.splits if_splits)

text \<open>After any chunks of a stream, marker n of the answer links to the explicitly numbered URL (also when the numbers count from zero) and otherwise to the n-th URL seen, as citation_at specifies; each of the first markers up to the number of URLs has a link, and every link is a web URL that occurred in the stream.\<close>
theorem citation_links:
  assumes "c = fold (ingestChunk low) chunks newCitationLinkCollector" and "1 \<le> n" and "n \<le> int64_max"
  shows "gm_get (build c) n = citation_at c n \<and>
    (n \<le> int (length (ordered c)) \<longrightarrow> gm_get (build c) n \<noteq> None) \<and>
    (\<forall>u. gm_get (build c) n = Some u \<longrightarrow> u \<in> set (ordered c) \<and> isWebURL low u)"
proof -
  have ok: "collector_ok low c" unfolding assms(1) by (rule ingest_ok)
  have b: "gm_get (build c) n = citation_at c n" by (rule build_citation_at [OF ok assms(2,3)])
  moreover have "citation_at c n \<noteq> None" if "n \<le> int (length (ordered c))"
    using that by (simp add: citation_at_def split: option.split)
  moreover have "u \<in> set (ordered c) \<and> isWebURL low u" if "citation_at c n = Some u" for u
    using citation_at_ordered [OF ok assms(2) that] ok by (simp add: collector_ok_def)
  ultimately show ?thesis by simp
qed

section \<open>The engine\<close>

fun is_tick :: "engine_event \<Rightarrow> bool" where
  "is_tick (ETick _) = True"
| "is_tick _ = False"

fun is_input :: "engine_event \<Rightarrow> bool" where
  "is_input (ETick _) = True"
| "is_input (EParsed _ _) = True"
| "is_input _ = False"

lemma engine_step_simps [simp]:
  "finished e = None \<Longrightarrow> engine_step cfg onParsed (ETick now) e = engine_tick cfg now e"
  "finished e = None \<Longrightarrow> engine_step cfg onParsed (EParsed r now) e = engine_parsed onParsed r now e"
  "finished e = None \<Longrightarrow> engine_step cfg onParsed (EClosed err) e = e\<lparr>finished := Some (Finalized StopReasonUpstreamCompleted err)\<rparr>"
  by (simp_all add: engine_step_def)

lemma engine_done: "finished e \<noteq> None \<Longrightarrow> fold (engine_step cfg onParsed) evs e = e"
  by (induction evs) (simp_all add: engine_step_def)

lemma engine_waiting:
  assumes max: "0 < cfgMaxKeepAliveNoInput cfg"
    and quiet: "\<And>h r. \<not> pdStop (fst (onParsed h r)) \<and> \<not> pdContentSeen (fst (onParsed h r))"
  shows "list_all is_input evs \<Longrightarrow> finished e = None \<Longrightarrow> \<not> hasContent e \<Longrightarrow> keepaliveCount e < cfgMaxKeepAliveNoInput cfg \<Longrightarrow>
   finished (fold (engine_step cfg onParsed) evs e) =
     (if cfgMaxKeepAliveNoInput cfg \<le> keepaliveCount e + int (length (filter is_tick evs))
      then Some (Finalized StopReasonNoContentTimeout None) else None)"
proof (induction evs arbitrary: e)
  case (Cons ev evs)
  show ?case
  proof (cases ev)
    case (ETick now)
    show ?thesis
    proof (cases "cfgMaxKeepAliveNoInput cfg \<le> keepaliveCount e + 1")
      case True
      then have f: "finished (engine_step cfg onParsed ev e) = Some (Finalized StopReasonNoContentTimeout None)"
        using Cons.prems max ETick by (simp add: engine_tick_def)
      then show ?thesis using engine_done [of "engine_step cfg onParsed ev e"] True ETick by simp
    next
      case False
      then show ?thesis using Cons.IH [of "engine_step cfg onParsed ev e"] Cons.prems max ETick
        by (simp add: engine_tick_def add.assoc add.commute)
    qed
  next
    case (EParsed r now)
    obtain d h where d: "onParsed (hook e) r = (d, h)" by fastforce
    then have "engine_step cfg onParsed ev e = e\<lparr>hook := h\<rparr>"
      using quiet [of "hook e" r] Cons.prems EParsed by (simp add: engine_parsed_def)
    then show ?thesis using Cons.IH [of "e\<lparr>hook := h\<rparr>"] Cons.prems EParsed by simp
  qed (use Cons.prems in simp_all)
qed simp

text \<open>While the handler sees no content and asks for no stop, the engine keeps the client's connection for fewer than MaxKeepAliveNoInput keep-alive ticks and then, at that tick exactly, finalizes once with the no-content timeout, which is reported as status 504.\<close>
theorem no_content_timeout:
  assumes "0 < cfgMaxKeepAliveNoInput cfg"
    and "\<And>h r. \<not> pdStop (fst (onParsed h r)) \<and> \<not> pdContentSeen (fst (onParsed h r))"
    and "list_all is_input evs"
  shows "finished (fold (engine_step cfg onParsed) evs (engine_start h0 now)) =
      (if cfgMaxKeepAliveNoInput cfg \<le> int (length (filter is_tick evs)) then Some (Finalized StopReasonNoContentTimeout None) else None) \<and>
    map_option tfStatus (ClassifyTerminalFailure StopReasonNoContentTimeout None) = Some 504"
  using engine_waiting [OF assms, of "engine_start h0 now"] assms(1) by (simp add: engine_start_def ClassifyTerminalFailure_def)

text \<open>C33: When the engine is still running at the end of an upstream stream, it finalizes as upstream-completed with the pump's error, and the client is told of a failed stream (status 502) exactly when reading failed, or some line parsed and none was a terminal marker; a stream that ended with its marker, and a stream without any parsed line, is no failure.\<close>
theorem stream_end_reported:
  assumes "list_all live evs"
    and "parse_lines env (cfgThinkingEnabled cfg) (engine_initial_type cfg) (concat (map event_lines evs)) = Some rs"
    and "finished (fold (engine_step cfg onParsed) eevs (engine_start h0 now)) = None"
  shows "\<exists>st err. pump_run env (cfgThinkingEnabled cfg) (evs @ [PEnd readErr True]) (pump_start (engine_initial_type cfg)) = Some st \<and>
    doneErr st = Some err \<and>
    finished (engine_step cfg onParsed (EClosed err) (fold (engine_step cfg onParsed) eevs (engine_start h0 now))) =
      Some (Finalized StopReasonUpstreamCompleted err) \<and>
    map_option tfStatus (ClassifyTerminalFailure StopReasonUpstreamCompleted err) =
      (if readErr \<noteq> None \<or> (\<exists>r \<in> set rs. Parsed r) \<and> \<not> (\<exists>r \<in> set rs. is_terminal r) then Some 502 else None)"
proof -
  obtain st where st: "pump_run env (cfgThinkingEnabled cfg) (evs @ [PEnd readErr True]) (pump_start (engine_initial_type cfg)) = Some st"
    "doneErr st = Some (end_error readErr rs)"
    using pump_complete [OF assms(1,2), of readErr] by blast
  moreover have "map_option tfStatus (ClassifyTerminalFailure StopReasonUpstreamCompleted (end_error readErr rs)) =
      (if readErr \<noteq> None \<or> (\<exists>r \<in> set rs. Parsed r) \<and> \<not> (\<exists>r \<in> set rs. is_terminal r) then Some 502 else None)"
    by (simp add: ClassifyTerminalFailure_def end_error_def split: option.split)
  ultimately show ?thesis using assms(3) by simp
qed

section \<open>Examples\<close>

definition sample_event_line :: LineResult where
  "sample_event_line = (line_result True False ''text'')\<lparr>Parts := [part ''a'' ''thinking'', part ''b'' ''text''],
     ToolDetectionThinkingParts := [part ''a'' ''thinking'']\<rparr>"

definition sample_events :: "pump_event list" where
  "sample_events = [PTick True, PLine ''data: x'' True True, PTick True]"

lemma sample_parse: "parse_lines sample_sse_env True ''thinking'' [''data: x''] = Some [sample_event_line]"
  by (simp add: sample_sse_line sample_event_line_def)

lemma sample_live: "list_all live sample_events" "concat (map event_lines sample_events) = [''data: x'']"
  by (simp_all add: sample_events_def)

lemma sample_not_terminal: "Parsed sample_event_line" "\<not> is_terminal sample_event_line"
  "Parts sample_event_line = [part ''a'' ''thinking'', part ''b'' ''text'']"
  by (simp_all add: sample_event_line_def line_result_def is_terminal_def)

theorem pump_refines_witness:
  "\<exists>st. pump_run sample_sse_env True (sample_events @ [PEnd None True]) (pump_start ''thinking'') = Some st \<and>
     concat (map Parts (sent st)) = [part ''a'' ''thinking'', part ''b'' ''text''] \<and> doneErr st = Some (Some ErrUnexpectedEOF)"
  using pump_refines [where evs = sample_events and env = sample_sse_env and thinkingEnabled = True and ty = "''thinking''" and
      rs = "[sample_event_line]" and err = None] sample_live sample_parse sample_not_terminal by auto

theorem collect_stream_agrees_witness:
  "\<exists>res. CollectStream sample_sse_env ''data: x'' True = Some res \<and>
    list_all live sample_events \<and> concat (map event_lines sample_events) = read_lines ''data: x''"
  using collect_stream_agrees [where evs = sample_events and env = sample_sse_env and thinkingEnabled = True and
      rs = "[sample_event_line]" and err = None and body = "''data: x''"] sample_live sample_parse by (auto simp: initial_type_def)

definition sample_stream_cfg :: ConsumeConfig where
  "sample_stream_cfg = \<lparr>cfgThinkingEnabled = True, cfgInitialType = '''', cfgIdleTimeout = 0, cfgMaxKeepAliveNoInput = 2\<rparr>"

definition quiet_handler :: "nat \<Rightarrow> LineResult \<Rightarrow> ParsedDecision \<times> nat" where
  "quiet_handler h r = (\<lparr>pdStop = False, pdStopReason = StopReasonNone, pdContentSeen = False\<rparr>, Suc h)"

theorem no_content_timeout_witness:
  "finished (fold (engine_step sample_stream_cfg quiet_handler) [ETick 0, EParsed sample_event_line 1, ETick 2] (engine_start 0 0)) =
     Some (Finalized StopReasonNoContentTimeout None)"
  using no_content_timeout [of sample_stream_cfg quiet_handler "[ETick 0, EParsed sample_event_line 1, ETick 2]" 0 0]
  by (simp add: sample_stream_cfg_def quiet_handler_def)

theorem stream_end_reported_witness:
  "\<exists>st err. pump_run sample_sse_env True (sample_events @ [PEnd None True]) (pump_start ''thinking'') = Some st \<and>
     doneErr st = Some err \<and> map_option tfStatus (ClassifyTerminalFailure StopReasonUpstreamCompleted err) = Some 502"
  using stream_end_reported [where evs = sample_events and env = sample_sse_env and cfg = sample_stream_cfg and rs = "[sample_event_line]" and
      onParsed = quiet_handler and eevs = "[ETick 0]" and ?h0.0 = 0 and now = 0 and readErr = None] sample_live sample_parse sample_not_terminal
  by (auto simp: sample_stream_cfg_def engine_initial_type_def engine_start_def engine_tick_def)

definition sample_citation_chunk :: json_object where
  "sample_citation_chunk = [(''v'', JArr [JObj [(''url'', JStr ''http://a''), (''cite_index'', JNum 0)],
     JObj [(''url'', JStr ''http://b''), (''cite_index'', JNum 1)]])]"

lemma sample_citation_trims: "TrimSpace ''http://a'' = ''http://a''" "TrimSpace ''http://b'' = ''http://b''"
  by code_simp+

lemma sample_citation_urls: "isWebURL id ''http://a''" "isWebURL id ''http://b''" "\<not> isWebURL id ''''"
  by (simp_all add: isWebURL_def sample_citation_trims ascii_eval)

lemma sample_citation_state:
  "fold (ingestChunk id) [sample_citation_chunk] newCitationLinkCollector =
     \<lparr>ordered = [''http://a'', ''http://b''], explicitRaw = [(0, ''http://a''), (1, ''http://b'')], hasZeroIdx = True\<rparr>"
  by (simp add: sample_citation_chunk_def ingestChunk_def captureURLAndIndex_def jfield_def sample_citation_urls sample_citation_trims
      newCitationLinkCollector_def addOrdered_def float_to_int_def int64_min_def int64_max_def Let_def)

theorem citation_links_witness:
  "gm_get (build (fold (ingestChunk id) [sample_citation_chunk] newCitationLinkCollector)) 1 = Some ''http://a'' \<and>
   gm_get (build (fold (ingestChunk id) [sample_citation_chunk] newCitationLinkCollector)) 2 = Some ''http://b''"
  using citation_links [OF refl, of 1 id "[sample_citation_chunk]"] citation_links [OF refl, of 2 id "[sample_citation_chunk]"]
  unfolding sample_citation_state by (simp add: citation_at_def int64_max_def)

end
