(* ===== verification/Auto_Continue.thy ===== *)
theory Auto_Continue
  imports Sse_Stream
begin

text \<open>
  The automatic continuation of an incomplete answer (\<^verbatim>\<open>deepseek/client/client_continue.go\<close>): the lines of the upstream body
  are copied to a pipe while the status they report is observed; when the answer is incomplete a continue request is
  sent and the body of its response is copied after it. The reader sees one stream with one final sentinel.

  The environment of a run is a record: when the context is cancelled (before the \<open>n\<close>-th read), when writing to the pipe
  fails (the \<open>n\<close>-th write), the JSON decoder, the upper-case table and the formatting of numbers. The continue request
  is the argument \<open>request\<close>: the answer to the \<open>n\<close>-th request for a session and message, an error or a body. A body is its bytes and
  how it ends.
\<close>

section \<open>Environment and state\<close>

record continue_env =
  ctxErr :: "nat \<Rightarrow> string option"
  writeErr :: "nat \<Rightarrow> string option"
  decodeChunk :: json_decoder
  upperTable :: case_table
  sprintFloat :: "rat \<Rightarrow> string"

type_synonym body = "string \<times> string option"

type_synonym continue_open = "nat \<Rightarrow> string \<Rightarrow> int \<Rightarrow> string + body"

record continueState =
  sessionID :: string
  responseMessageID :: int
  lastStatus :: string
  finished :: bool

definition remove_nul :: "string \<Rightarrow> string" where
  "remove_nul s = filter (\<lambda>c. c \<noteq> CHR 0x00) s"

definition asString :: "continue_env \<Rightarrow> json \<Rightarrow> string" where
  "asString env v = (case v of
     JNull \<Rightarrow> ''''
   | JStr s \<Rightarrow> s
   | _ \<Rightarrow> (let s = TrimSpace (remove_nul (TrimSpace (sprint_value (sprintFloat env) v))) in if s = ''<nil>'' then '''' else s))"

definition setStatus :: "string \<Rightarrow> continueState \<Rightarrow> continueState" where
  "setStatus status s =
     (let normalized = TrimSpace status in
      if normalized = '''' then s
      else let s1 = s\<lparr>lastStatus := normalized\<rparr> in
        if EqualFoldASCII normalized ''FINISHED'' \<or> EqualFoldASCII normalized ''CONTENT_FILTER'' then s1\<lparr>finished := True\<rparr> else s1)"

definition trim_slashes :: "string \<Rightarrow> string" where
  "trim_slashes s = TrimRightSet (TrimLeftSet s ''/'') ''/''"

definition set_auto :: "json \<Rightarrow> continueState \<Rightarrow> continueState" where
  "set_auto v s = (if v = JBool True then s\<lparr>lastStatus := ''AUTO_CONTINUE''\<rparr> else s)"

definition status_paths :: "string list" where
  "status_paths = [''response/status'', ''status'', ''response/quasi_status'', ''quasi_status'']"

definition auto_paths :: "string list" where
  "auto_paths = [''response/auto_continue'', ''auto_continue'']"

definition observe_path :: "continue_env \<Rightarrow> string \<Rightarrow> json \<Rightarrow> continueState \<Rightarrow> continueState" where
  "observe_path env path value s =
     (let p = trim_slashes (TrimSpace path) in
      if p \<in> set status_paths then setStatus (asString env value) s
      else if p \<in> set auto_paths then set_auto value s else s)"

definition observeDirectPatch :: "continue_env \<Rightarrow> string \<Rightarrow> json \<Rightarrow> continueState \<Rightarrow> continueState" where
  "observeDirectPatch env path value s = observe_path env path value s"

definition observeResponseObject :: "continue_env \<Rightarrow> json \<Rightarrow> continueState \<Rightarrow> continueState" where
  "observeResponseObject env raw s = (case as_obj raw of
     None \<Rightarrow> s
   | Some response \<Rightarrow>
       (let i = IntFrom (jfield response ''message_id'');
            s1 = (if 0 < i then s\<lparr>responseMessageID := i\<rparr> else s)
        in set_auto (jfield response ''auto_continue'') (setStatus (asString env (jfield response ''status'')) s1)))"

definition observe_patch :: "continue_env \<Rightarrow> string \<Rightarrow> json \<Rightarrow> continueState \<Rightarrow> continueState" where
  "observe_patch env parentPath patch s = (case as_obj patch of
     None \<Rightarrow> s
   | Some m \<Rightarrow>
       (let path = TrimSpace (asString env (jfield m ''p'')) in
        if path = '''' then s
        else let parent = trim_slashes (TrimSpace parentPath);
                 fullPath = (if parent \<noteq> '''' \<and> \<not> Contains path ''/'' then parent @ ''/'' @ path else path)
          in observe_path env fullPath (jfield m ''v'') s))"

definition observeBatchPatches :: "continue_env \<Rightarrow> string \<Rightarrow> json \<Rightarrow> continueState \<Rightarrow> continueState" where
  "observeBatchPatches env parentPath raw s = (case as_arr raw of
     None \<Rightarrow> s | Some patches \<Rightarrow> fold (observe_patch env parentPath) patches s)"

definition observe :: "continue_env \<Rightarrow> string \<Rightarrow> continueState \<Rightarrow> continueState" where
  "observe env data s =
     (if TrimSpace data = '''' then s
      else case decodeChunk env data of
        Some (JObj chunk) \<Rightarrow>
          (let i = IntFrom (jfield chunk ''response_message_id'');
               s1 = (if 0 < i then s\<lparr>responseMessageID := i\<rparr> else s);
               s2 = observeDirectPatch env (asString env (jfield chunk ''p'')) (jfield chunk ''v'') s1;
               s3 = observeBatchPatches env (if jfield chunk ''p'' = JStr ''response'' then ''response'' else '''') (jfield chunk ''v'') s2;
               s4 = (case as_obj (jfield chunk ''v'') of None \<Rightarrow> s3 | Some v \<Rightarrow> observeResponseObject env (jfield v ''response'') s3)
           in case as_obj (jfield chunk ''message'') of None \<Rightarrow> s4 | Some message \<Rightarrow> observeResponseObject env (jfield message ''response'') s4)
      | _ \<Rightarrow> s)"

definition shouldContinue :: "continue_env \<Rightarrow> continueState \<Rightarrow> bool" where
  "shouldContinue env s \<longleftrightarrow> \<not> (finished s \<or> responseMessageID s \<le> 0 \<or> TrimSpace (sessionID s) = '''') \<and>
     (let u = ToUpper (upperTable env) (TrimSpace (lastStatus s)) in u = ''INCOMPLETE'' \<or> u = ''AUTO_CONTINUE'')"

definition prepareForNextRound :: "continueState \<Rightarrow> continueState" where
  "prepareForNextRound s = s\<lparr>finished := False, lastStatus := ''''\<rparr>"

section \<open>Copying a body\<close>

record pipe =
  reads :: nat
  written :: "string list"

definition pipe_write :: "continue_env \<Rightarrow> string \<Rightarrow> pipe \<Rightarrow> string option \<times> pipe" where
  "pipe_write env line io = (case writeErr env (length (written io)) of
     Some e \<Rightarrow> (Some e, io)
   | None \<Rightarrow> (None, io\<lparr>written := written io @ [line]\<rparr>))"

definition terminated :: "string \<Rightarrow> bool" where
  "terminated line \<longleftrightarrow> suffix [CHR 0x0A] line"

definition sse_data :: "string \<Rightarrow> string option" where
  "sse_data line = (let trimmed = TrimSpace line in
     if prefix ''data:'' trimmed then Some (TrimSpace (TrimPrefix trimmed ''data:'')) else None)"

definition is_done :: "string \<Rightarrow> bool" where
  "is_done line \<longleftrightarrow> sse_data line = Some ''[DONE]''"

definition observe_line :: "continue_env \<Rightarrow> string \<Rightarrow> continueState \<Rightarrow> continueState" where
  "observe_line env line s = (case sse_data line of None \<Rightarrow> s | Some d \<Rightarrow> observe env d s)"

definition with_newline :: "string \<Rightarrow> string" where
  "with_newline line = (if terminated line then line else line @ [CHR 0x0A])"

record copy_result =
  hadDone :: bool
  copyErr :: "string option"
  copyState :: continueState
  copyPipe :: pipe

text \<open>
  The loop over what \<^verbatim>\<open>ReadBytes\<close> returns: the lines of the body, the last of which may lack its line break and then comes with the
  end of the body; after a last complete line the end comes with no bytes.
\<close>

fun stream_lines :: "continue_env \<Rightarrow> string option \<Rightarrow> string list \<Rightarrow> bool \<Rightarrow> continueState \<Rightarrow> pipe \<Rightarrow> copy_result" where
  "stream_lines env ended [] done st io = (case ctxErr env (reads io) of
     Some e \<Rightarrow> \<lparr>hadDone = done, copyErr = Some e, copyState = st, copyPipe = io\<rparr>
   | None \<Rightarrow> \<lparr>hadDone = done, copyErr = ended, copyState = st, copyPipe = io\<lparr>reads := Suc (reads io)\<rparr>\<rparr>)"
| "stream_lines env ended (line # rest) done st io = (case ctxErr env (reads io) of
     Some e \<Rightarrow> \<lparr>hadDone = done, copyErr = Some e, copyState = st, copyPipe = io\<rparr>
   | None \<Rightarrow>
       (let io1 = io\<lparr>reads := Suc (reads io)\<rparr> in
        if TrimSpace line = '''' then
          if terminated line then stream_lines env ended rest done st io1
          else \<lparr>hadDone = done, copyErr = ended, copyState = st, copyPipe = io1\<rparr>
        else if is_done line then
          if terminated line then stream_lines env ended rest True st io1
          else \<lparr>hadDone = True, copyErr = ended, copyState = st, copyPipe = io1\<rparr>
        else let st1 = observe_line env line st in
          (case pipe_write env (with_newline line) io1 of
             (Some e, io2) \<Rightarrow> \<lparr>hadDone = done, copyErr = Some e, copyState = st1, copyPipe = io2\<rparr>
           | (None, io2) \<Rightarrow>
               if terminated line then stream_lines env ended rest done st1 io2
               else \<lparr>hadDone = done, copyErr = ended, copyState = st1, copyPipe = io2\<rparr>)))"

definition streamBodyWithContinueState :: "continue_env \<Rightarrow> body \<Rightarrow> continueState \<Rightarrow> pipe \<Rightarrow> copy_result" where
  "streamBodyWithContinueState env b st io = stream_lines env (snd b) (read_lines (fst b)) False st io"

section \<open>The rounds\<close>

text \<open>What the reader of the pipe gets, the continue requests that were sent, and the error the pipe is closed with.\<close>

record pump_outcome =
  pumpOut :: "string list"
  pumpCalls :: "(string \<times> int) list"
  pumpErr :: "string option"

definition done_line :: string where
  "done_line = ''data: [DONE]'' @ [CHR 0x0A]"

function pump_rounds :: "continue_env \<Rightarrow> continue_open \<Rightarrow> nat \<Rightarrow> nat \<Rightarrow> body \<Rightarrow> continueState \<Rightarrow> pipe \<Rightarrow> (string \<times> int) list \<Rightarrow> pump_outcome" where
  "pump_rounds env request maxRounds rounds current st io calls =
     (let r = streamBodyWithContinueState env current st io; st1 = copyState r; io1 = copyPipe r in
      case copyErr r of
        Some e \<Rightarrow> \<lparr>pumpOut = written io1, pumpCalls = calls, pumpErr = Some e\<rparr>
      | None \<Rightarrow>
          if shouldContinue env st1 \<and> rounds < maxRounds then
            (let calls1 = calls @ [(sessionID st1, responseMessageID st1)] in
             case request (Suc rounds) (sessionID st1) (responseMessageID st1) of
               Inl e \<Rightarrow> \<lparr>pumpOut = written io1, pumpCalls = calls1, pumpErr = Some e\<rparr>
             | Inr next \<Rightarrow> pump_rounds env request maxRounds (Suc rounds) next (prepareForNextRound st1) io1 calls1)
          else if hadDone r then
            (case pipe_write env done_line io1 of (e, io2) \<Rightarrow> \<lparr>pumpOut = written io2, pumpCalls = calls, pumpErr = e\<rparr>)
          else \<lparr>pumpOut = written io1, pumpCalls = calls, pumpErr = None\<rparr>)"
  by pat_completeness auto
termination
  by (relation "measure (\<lambda>(env, request, maxRounds, rounds, _). maxRounds - rounds)") auto

declare pump_rounds.simps [simp del]

definition pumpAutoContinue :: "continue_env \<Rightarrow> continue_open \<Rightarrow> nat \<Rightarrow> body \<Rightarrow> continueState \<Rightarrow> pump_outcome" where
  "pumpAutoContinue env request maxRounds initial st =
     pump_rounds env request maxRounds 0 initial st \<lparr>reads = 0, written = []\<rparr> []"

definition newContinueState :: "string \<Rightarrow> continueState" where
  "newContinueState sid = \<lparr>sessionID = sid, responseMessageID = 0, lastStatus = '''', finished = False\<rparr>"

text \<open>\<^verbatim>\<open>newAutoContinueBody\<close>: without a session the body is handed on as it is (\<open>None\<close>).\<close>

definition newAutoContinueBody :: "continue_env \<Rightarrow> continue_open \<Rightarrow> int \<Rightarrow> int \<Rightarrow> string \<Rightarrow> body \<Rightarrow> pump_outcome option" where
  "newAutoContinueBody env request defaultLimit maxRounds sid initial =
     (if TrimSpace sid = '''' then None
      else Some (pumpAutoContinue env request (nat (if maxRounds \<le> 0 then defaultLimit else maxRounds)) initial (newContinueState sid)))"

definition wrapCompletionWithAutoContinue :: "continue_env \<Rightarrow> continue_open \<Rightarrow> int \<Rightarrow> json_object \<Rightarrow> body \<Rightarrow> pump_outcome option" where
  "wrapCompletionWithAutoContinue env request defaultLimit payload initial =
     (let sid = TrimSpace (as_str (jfield payload ''chat_session_id'')) in
      if sid = '''' then None else newAutoContinueBody env request defaultLimit defaultLimit sid initial)"

text \<open>\<^verbatim>\<open>defaultAutoContinueLimit\<close> from the environment variable.\<close>

definition defaultAutoContinueLimit :: "string \<Rightarrow> int" where
  "defaultAutoContinueLimit v = (let t = TrimSpace v in
     if t = '''' then 16 else case Atoi t of Some n \<Rightarrow> if 0 < n then n else 16 | None \<Rightarrow> 16)"

section \<open>Blank space at the end of a line\<close>

lemma lead_seq_newline: "s \<noteq> [] \<Longrightarrow> lead_seq space_seqs (s @ [CHR 0x0A]) = lead_seq space_seqs s"
proof -
  assume s: "s \<noteq> []"
  have "prefix w (s @ [CHR 0x0A]) \<longleftrightarrow> prefix w s" if "w \<in> set space_seqs" for w
  proof -
    have "w = u @ [CHR 0x0A] \<Longrightarrow> u = []" for u using that by (auto simp: space_seqs_def append_eq_Cons_conv)
    then show ?thesis using s by (auto simp: prefix_snoc)
  qed
  then have "find (\<lambda>w. prefix w (s @ [CHR 0x0A])) space_seqs = find (\<lambda>w. prefix w s) space_seqs"
    by (intro find_cong) simp_all
  then show ?thesis by (simp add: lead_seq_def)
qed

lemma strip_newline:
  "strip_seqs space_seqs (s @ [CHR 0x0A]) = (if strip_seqs space_seqs s = [] then [] else strip_seqs space_seqs s @ [CHR 0x0A])"
proof (induction "length s" arbitrary: s rule: less_induct)
  case less
  show ?case
  proof (cases "s = []")
    case True
    have "lead_seq space_seqs [CHR 0x0A] = 1" by (simp add: lead_seq_def space_seqs_def)
    then show ?thesis using True by (simp add: strip_seqs.simps [of space_seqs "[CHR 0x0A]"] strip_seqs.simps [of space_seqs "[]"])
  next
    case False
    let ?k = "lead_seq space_seqs s"
    have k: "?k \<le> length s" by (auto simp: lead_seq_def find_Some_iff dest: prefix_length_le split: option.split)
    note u = strip_seqs.simps [of space_seqs s] strip_seqs.simps [of space_seqs "s @ [CHR 0x0A]"] lead_seq_newline [OF False]
    show ?thesis
    proof (cases "?k = 0")
      case True
      then show ?thesis using False by (simp add: u)
    next
      case k0: False
      then have "length (drop ?k s) < length s" using False by simp
      then show ?thesis using less [of "drop ?k s"] k0 k False by (simp add: u)
    qed
  qed
qed

lemma TrimRight_newline: "TrimRightSpace (s @ [CHR 0x0A]) = TrimRightSpace s"
proof -
  have "lead_seq (map rev space_seqs) (CHR 0x0A # r) = 1" for r by (simp add: lead_seq_def space_seqs_def)
  then show ?thesis by (simp add: TrimRightSpace_def strip_seqs.simps [of _ "CHR 0x0A # rev s"])
qed

lemma TrimSpace_newline: "TrimSpace (s @ [CHR 0x0A]) = TrimSpace s"
proof (cases "strip_seqs space_seqs s = []")
  case True
  then show ?thesis by (simp add: TrimSpace_def TrimLeftSpace_def strip_newline)
next
  case False
  then show ?thesis by (simp add: TrimSpace_def TrimLeftSpace_def strip_newline TrimRight_newline)
qed

lemma sse_data_with_newline [simp]: "sse_data (with_newline l) = sse_data l"
  by (simp add: with_newline_def sse_data_def TrimSpace_newline)

lemma is_done_with_newline [simp]: "is_done (with_newline l) = is_done l"
  by (simp add: is_done_def)

section \<open>What is copied\<close>

lemma read_lines_terminated: "list_all terminated (butlast (read_lines s))"
proof (induction s rule: read_lines.induct)
  case (2 c cs)
  then show ?case by (cases "read_lines cs") (auto simp: terminated_def suffix_Cons)
qed simp

definition forwarded :: "string \<Rightarrow> bool" where
  "forwarded line \<longleftrightarrow> TrimSpace line \<noteq> '''' \<and> \<not> is_done line"

text \<open>The lines of a body that are copied, and what was observed.\<close>

definition kept :: "string list \<Rightarrow> string list" where
  "kept ls = map with_newline (filter forwarded ls)"

definition observed :: "continue_env \<Rightarrow> string list \<Rightarrow> continueState \<Rightarrow> continueState" where
  "observed env ls st = fold (observe_line env) (filter forwarded ls) st"

text \<open>What a complete or a broken-off copy leaves behind.\<close>

definition copied :: "continue_env \<Rightarrow> string option \<Rightarrow> string list \<Rightarrow> bool \<Rightarrow> continueState \<Rightarrow> pipe \<Rightarrow> copy_result \<Rightarrow> bool" where
  "copied env ended ls d st io r \<longleftrightarrow>
     (\<exists>w. written (copyPipe r) = written io @ w \<and> prefix w (kept ls) \<and>
        (copyErr r = None \<longrightarrow> w = kept ls \<and> hadDone r = (d \<or> list_ex is_done ls) \<and> copyState r = observed env ls st \<and> ended = None))"

lemma is_done_not_blank: "is_done l \<Longrightarrow> TrimSpace l \<noteq> ''''"
  by (auto simp: is_done_def sse_data_def Let_def split: if_splits)

lemma kept_simps:
  "kept [] = []" "forwarded l \<Longrightarrow> kept (l # ls) = with_newline l # kept ls" "\<not> forwarded l \<Longrightarrow> kept (l # ls) = kept ls"
  by (simp_all add: kept_def)

lemma observed_simps:
  "observed env [] st = st" "forwarded l \<Longrightarrow> observed env (l # ls) st = observed env ls (observe_line env l st)"
  "\<not> forwarded l \<Longrightarrow> observed env (l # ls) st = observed env ls st"
  by (simp_all add: observed_def)

lemma copied_skip:
  assumes "copied env ended ls (d \<or> is_done l) st io r" "\<not> forwarded l" shows "copied env ended (l # ls) d st io r"
  using assms by (auto simp: copied_def kept_simps observed_simps)

lemma copied_write:
  assumes "copied env ended ls d (observe_line env l st) io2 r" "forwarded l" "written io2 = written io @ [with_newline l]"
  shows "copied env ended (l # ls) d st io r"
proof -
  have "\<not> is_done l" using assms(2) by (simp add: forwarded_def)
  then show ?thesis using assms unfolding copied_def by (auto simp: kept_simps observed_simps)
qed

lemma copied_stop: "copyErr r = Some e \<Longrightarrow> written (copyPipe r) = written io \<Longrightarrow> copied env ended ls d st io r"
  by (simp add: copied_def)

lemma copied_end: "copied env ended [] d st io \<lparr>hadDone = d, copyErr = ended, copyState = st, copyPipe = io\<lparr>reads := n\<rparr>\<rparr>"
  by (simp add: copied_def kept_simps observed_simps)

lemma copied_io: "copied env ended ls d st (io\<lparr>reads := n\<rparr>) r = copied env ended ls d st io r"
  by (simp add: copied_def)

lemma stream_lines_copied:
  "list_all terminated (butlast ls) \<Longrightarrow> copied env ended ls d st io (stream_lines env ended ls d st io)"
proof (induction ls arbitrary: d st io)
  case Nil
  then show ?case by (auto simp: copied_stop copied_end split: option.split)
next
  case (Cons line rest)
  let ?io1 = "io\<lparr>reads := Suc (reads io)\<rparr>"
  have rest: "list_all terminated (butlast rest)" using Cons.prems by (cases rest) simp_all
  have go: "copied env ended rest d' st' io' (if terminated line then stream_lines env ended rest d' st' io'
      else \<lparr>hadDone = d', copyErr = ended, copyState = st', copyPipe = io'\<rparr>)" for d' st' io'
    using Cons.IH [OF rest] Cons.prems copied_end [of env ended d' st' io' "reads io'"] by (cases rest) auto
  consider (cancelled) e where "ctxErr env (reads io) = Some e"
    | (skip) "ctxErr env (reads io) = None" "\<not> forwarded line"
    | (failed) e where "ctxErr env (reads io) = None" "forwarded line" "writeErr env (length (written io)) = Some e"
    | (wrote) "ctxErr env (reads io) = None" "forwarded line" "writeErr env (length (written io)) = None"
    by fastforce
  then show ?case
  proof cases
    case cancelled
    then show ?thesis by (simp add: copied_stop)
  next
    case skip
    have "stream_lines env ended (line # rest) d st io =
        (if terminated line then stream_lines env ended rest (d \<or> is_done line) st ?io1
         else \<lparr>hadDone = d \<or> is_done line, copyErr = ended, copyState = st, copyPipe = ?io1\<rparr>)"
      using skip is_done_not_blank [of line] by (cases "is_done line") (simp_all add: forwarded_def)
    then show ?thesis using copied_skip [OF go skip(2), of d st ?io1] by (simp add: copied_io)
  next
    case failed
    then show ?thesis by (simp add: forwarded_def pipe_write_def copied_stop)
  next
    case wrote
    let ?io2 = "?io1\<lparr>written := written io @ [with_newline line]\<rparr>"
    have "stream_lines env ended (line # rest) d st io =
        (if terminated line then stream_lines env ended rest d (observe_line env line st) ?io2
         else \<lparr>hadDone = d, copyErr = ended, copyState = observe_line env line st, copyPipe = ?io2\<rparr>)"
      using wrote by (simp add: forwarded_def pipe_write_def)
    moreover note copied_write [OF go [of d "observe_line env line st" ?io2] wrote(2), of io]
    ultimately show ?thesis by simp
  qed
qed

lemma stream_body_copied:
  "copied env (snd b) (read_lines (fst b)) False st io (streamBodyWithContinueState env b st io)"
  unfolding streamBodyWithContinueState_def by (rule stream_lines_copied [OF read_lines_terminated])

section \<open>The rounds as one stream\<close>

lemma setStatus_keeps [simp]:
  "sessionID (setStatus x s) = sessionID s" "responseMessageID (setStatus x s) = responseMessageID s" "finished s \<Longrightarrow> finished (setStatus x s)"
  by (simp_all add: setStatus_def Let_def)

lemma set_auto_keeps [simp]:
  "sessionID (set_auto v s) = sessionID s" "responseMessageID (set_auto v s) = responseMessageID s" "finished (set_auto v s) = finished s"
  by (simp_all add: set_auto_def)

lemma observe_path_keeps [simp]:
  "sessionID (observe_path env p v s) = sessionID s" "finished s \<Longrightarrow> finished (observe_path env p v s)"
  by (simp_all add: observe_path_def Let_def)

lemma observe_patch_keeps [simp]:
  "sessionID (observe_patch env p v s) = sessionID s" "finished s \<Longrightarrow> finished (observe_patch env p v s)"
  by (simp_all add: observe_patch_def Let_def split: option.split)

lemma observe_patches_keep:
  "sessionID (fold (observe_patch env p) vs s) = sessionID s" "finished s \<Longrightarrow> finished (fold (observe_patch env p) vs s)"
  by (induction vs arbitrary: s) simp_all

lemma observeBatchPatches_keeps [simp]:
  "sessionID (observeBatchPatches env p v s) = sessionID s" "finished s \<Longrightarrow> finished (observeBatchPatches env p v s)"
  by (simp_all add: observeBatchPatches_def observe_patches_keep split: option.split)

lemma observeResponseObject_keeps [simp]:
  "sessionID (observeResponseObject env v s) = sessionID s" "finished s \<Longrightarrow> finished (observeResponseObject env v s)"
  by (simp_all add: observeResponseObject_def Let_def split: option.split)

lemma observe_keeps [simp]: "sessionID (observe env d s) = sessionID s" "finished s \<Longrightarrow> finished (observe env d s)"
  by (simp_all add: observe_def observeDirectPatch_def Let_def split: option.split json.split)

lemma observe_line_keeps [simp]: "sessionID (observe_line env l s) = sessionID s" "finished s \<Longrightarrow> finished (observe_line env l s)"
  by (simp_all add: observe_line_def split: option.split)

lemma observed_keeps: "sessionID (observed env ls s) = sessionID s" "finished s \<Longrightarrow> finished (observed env ls s)"
  unfolding observed_def by (induction ls arbitrary: s) simp_all

text \<open>
  The message identifiers a line reports, positive ones only, and the last one reported when a stretch of lines has been read.
\<close>

definition positive_id :: "json \<Rightarrow> int list" where
  "positive_id v = (if 0 < IntFrom v then [IntFrom v] else [])"

definition nested_id :: "json \<Rightarrow> int list" where
  "nested_id v = (case as_obj v of
     None \<Rightarrow> []
   | Some outer \<Rightarrow> (case as_obj (jfield outer ''response'') of None \<Rightarrow> [] | Some response \<Rightarrow> positive_id (jfield response ''message_id'')))"

definition line_ids :: "continue_env \<Rightarrow> string \<Rightarrow> int list" where
  "line_ids env line = (case sse_data line of
     None \<Rightarrow> []
   | Some d \<Rightarrow>
       if TrimSpace d = '''' then []
       else case decodeChunk env d of
         Some (JObj chunk) \<Rightarrow>
           positive_id (jfield chunk ''response_message_id'') @ nested_id (jfield chunk ''v'') @ nested_id (jfield chunk ''message'')
       | _ \<Rightarrow> [])"

definition latest_id :: "continue_env \<Rightarrow> int \<Rightarrow> string list \<Rightarrow> int" where
  "latest_id env i ls = last (i # concat (map (line_ids env) ls))"

lemma observe_path_id [simp]: "responseMessageID (observe_path env p v s) = responseMessageID s"
  by (simp add: observe_path_def Let_def)

lemma observe_patch_id [simp]: "responseMessageID (observe_patch env p v s) = responseMessageID s"
  by (simp add: observe_patch_def Let_def split: option.split)

lemma observe_patches_id: "responseMessageID (fold (observe_patch env p) vs s) = responseMessageID s"
  by (induction vs arbitrary: s) simp_all

lemma observeBatchPatches_id [simp]: "responseMessageID (observeBatchPatches env p v s) = responseMessageID s"
  by (simp add: observeBatchPatches_def observe_patches_id split: option.split)

lemma observeResponseObject_id:
  "responseMessageID (observeResponseObject env v s) =
     (case as_obj v of None \<Rightarrow> responseMessageID s
      | Some response \<Rightarrow> if 0 < IntFrom (jfield response ''message_id'') then IntFrom (jfield response ''message_id'') else responseMessageID s)"
  by (simp add: observeResponseObject_def Let_def split: option.split)

lemma observeDirectPatch_id [simp]: "responseMessageID (observeDirectPatch env p v s) = responseMessageID s"
  by (simp add: observeDirectPatch_def Let_def split: option.split json.split)

lemma nested_observed_id:
  "responseMessageID (case as_obj v of None \<Rightarrow> s | Some outer \<Rightarrow> observeResponseObject env (jfield outer ''response'') s) =
     last (responseMessageID s # nested_id v)"
  by (simp add: nested_id_def positive_id_def observeResponseObject_id split: option.split)

lemma last_ids: "last (last (i # is) # js) = last (i # is @ js)"
  by simp

lemma observe_line_id: "responseMessageID (observe_line env l s) = last (responseMessageID s # line_ids env l)"
proof (cases "sse_data l")
  case (Some d)
  then have "observe_line env l s = observe env d s" by (simp add: observe_line_def)
  moreover have "responseMessageID (observe env d s) = last (responseMessageID s # line_ids env l)"
  proof (cases "TrimSpace d = '''' \<or> (\<nexists>chunk. decodeChunk env d = Some (JObj chunk))")
    case True
    then show ?thesis using Some by (auto simp: observe_def line_ids_def split: option.split json.split)
  next
    case False
    then obtain chunk where c: "decodeChunk env d = Some (JObj chunk)" "TrimSpace d \<noteq> ''''" by blast
    then have "line_ids env l = positive_id (jfield chunk ''response_message_id'') @ nested_id (jfield chunk ''v'') @ nested_id (jfield chunk ''message'')"
      using Some by (simp add: line_ids_def)
    then show ?thesis using c by (simp add: observe_def Let_def nested_observed_id last_ids positive_id_def)
  qed
  ultimately show ?thesis by simp
qed (simp add: observe_line_def line_ids_def)

lemma observed_id: "responseMessageID (observed env ls s) = latest_id env (responseMessageID s) (filter forwarded ls)"
  unfolding observed_def latest_id_def
proof (induction ls arbitrary: s)
  case (Cons l ls)
  then show ?case by (simp add: observe_line_id) (auto simp: last_append)
qed simp

text \<open>The bodies that the continue requests brought, numbered from the given round on.\<close>

fun replies :: "continue_open \<Rightarrow> nat \<Rightarrow> (string \<times> int) list \<Rightarrow> body list" where
  "replies request n [] = []"
| "replies request n ((sid, mid) # cs) = (case request (Suc n) sid mid of
     Inl _ \<Rightarrow> [] | Inr b \<Rightarrow> b # replies request (Suc n) cs)"

definition body_lines :: "body \<Rightarrow> string list" where
  "body_lines b = kept (read_lines (fst b))"

definition ends_with_done :: "body \<Rightarrow> bool" where
  "ends_with_done b \<longleftrightarrow> list_ex is_done (read_lines (fst b))"

text \<open>
  A pipe that carries the bodies in order: no more than their lines and the sentinel, and exactly these when it is closed without an
  error, the sentinel if the last body had it.
\<close>

definition carries :: "body list \<Rightarrow> string list \<Rightarrow> string option \<Rightarrow> bool" where
  "carries bodies out err \<longleftrightarrow> prefix out (concat (map body_lines bodies) @ [done_line]) \<and>
     (err = None \<longrightarrow> out = concat (map body_lines bodies) @ (if ends_with_done (last bodies) then [done_line] else []) \<and>
        list_all (\<lambda>b. snd b = None) bodies)"

lemma carries_Cons:
  assumes "carries (b # bs) out err" "snd a = None" shows "carries (a # b # bs) (body_lines a @ out) err"
  using assms by (simp add: carries_def)

lemma carries_broken: "prefix out (body_lines b) \<Longrightarrow> carries (b # bs) out (Some e)"
  by (auto simp: carries_def prefix_def)

text \<open>Each continue request names the identifier reported last in the bodies read until then.\<close>

fun ids_follow :: "continue_env \<Rightarrow> continue_open \<Rightarrow> nat \<Rightarrow> body \<Rightarrow> int \<Rightarrow> (string \<times> int) list \<Rightarrow> bool" where
  "ids_follow env request n b i [] \<longleftrightarrow> True"
| "ids_follow env request n b i ((sid, mid) # cs) \<longleftrightarrow> mid = latest_id env i (filter forwarded (read_lines (fst b))) \<and>
     (case request (Suc n) sid mid of Inl _ \<Rightarrow> cs = [] | Inr next_body \<Rightarrow> ids_follow env request (Suc n) next_body mid cs)"

definition spliced :: "continue_env \<Rightarrow> continue_open \<Rightarrow> nat \<Rightarrow> nat \<Rightarrow> body \<Rightarrow> string \<Rightarrow> int \<Rightarrow> string list \<Rightarrow> (string \<times> int) list \<Rightarrow> pump_outcome \<Rightarrow> bool" where
  "spliced env request maxRounds rounds current sid i out calls r \<longleftrightarrow>
     (\<exists>cs w. pumpCalls r = calls @ cs \<and> length cs \<le> maxRounds - rounds \<and> list_all (\<lambda>(s, i). s = sid \<and> 0 < i) cs \<and>
        ids_follow env request rounds current i cs \<and>
        pumpOut r = out @ w \<and> carries (current # replies request rounds cs) w (pumpErr r))"

lemma pump_rounds_spliced:
  "spliced env request maxRounds rounds current (sessionID st) (responseMessageID st) (written io) calls (pump_rounds env request maxRounds rounds current st io calls)"
proof (induction "maxRounds - rounds" arbitrary: rounds current st io calls rule: less_induct)
  case less
  define r where "r = streamBodyWithContinueState env current st io"
  obtain w where w: "written (copyPipe r) = written io @ w" "prefix w (body_lines current)" and
    full: "copyErr r = None \<Longrightarrow> w = body_lines current \<and> hadDone r = ends_with_done current \<and>
      copyState r = observed env (read_lines (fst current)) st \<and> snd current = None"
    using stream_body_copied [of env current st io] unfolding copied_def r_def body_lines_def ends_with_done_def by fastforce
  note unf = pump_rounds.simps [of env request maxRounds rounds current st io calls, folded r_def]
  let ?s = "sessionID (copyState r)" let ?i = "responseMessageID (copyState r)"
  show ?case
  proof (cases "copyErr r")
    case (Some e)
    have "carries (current # replies request rounds []) w (Some e)" by (rule carries_broken [OF w(2)])
    then show ?thesis unfolding spliced_def unf using Some w(1)
      by (intro exI [of _ "[]"] exI [of _ w]) (simp add: Let_def)
  next
    case None
    note f = full [OF None]
    have sid: "?s = sessionID st" using f observed_keeps by simp
    have mid: "?i = latest_id env (responseMessageID st) (filter forwarded (read_lines (fst current)))" using f observed_id by simp
    show ?thesis
    proof (cases "shouldContinue env (copyState r) \<and> rounds < maxRounds")
      case True
      then have i: "0 < ?i" by (simp add: shouldContinue_def)
      show ?thesis
      proof (cases "request (Suc rounds) ?s ?i")
        case (Inl e)
        have "carries (current # replies request rounds [(?s, ?i)]) w (Some e)" by (rule carries_broken [OF w(2)])
        then show ?thesis unfolding spliced_def unf using None True Inl w(1) sid i mid
          by (intro exI [of _ "[(?s, ?i)]"] exI [of _ w]) (auto simp: Let_def)
      next
        case (Inr b)
        let ?r = "pump_rounds env request maxRounds (Suc rounds) b (prepareForNextRound (copyState r)) (copyPipe r) (calls @ [(?s, ?i)])"
        have "spliced env request maxRounds (Suc rounds) b (sessionID st) ?i (written io @ w) (calls @ [(?s, ?i)]) ?r"
          using less [of "Suc rounds" b "prepareForNextRound (copyState r)" "copyPipe r" "calls @ [(?s, ?i)]"] True sid w(1)
          by (auto simp: prepareForNextRound_def)
        then obtain cs v where c: "pumpCalls ?r = calls @ [(?s, ?i)] @ cs" "length cs \<le> maxRounds - Suc rounds"
          "list_all (\<lambda>(s, i). s = sessionID st \<and> 0 < i) cs" "pumpOut ?r = written io @ w @ v" "carries (b # replies request (Suc rounds) cs) v (pumpErr ?r)"
          "ids_follow env request (Suc rounds) b ?i cs"
          unfolding spliced_def by auto
        have "carries (current # replies request rounds ((?s, ?i) # cs)) (w @ v) (pumpErr ?r)"
          using carries_Cons [OF c(5), of current] f Inr by simp
        moreover have "pump_rounds env request maxRounds rounds current st io calls = ?r" unfolding unf using None True Inr by (simp add: Let_def)
        moreover have "ids_follow env request rounds current (responseMessageID st) ((?s, ?i) # cs)"
          unfolding ids_follow.simps using mid Inr c(6) by (simp only: sum.case simp_thms)
        moreover have "list_all (\<lambda>(s, i). s = sessionID st \<and> 0 < i) ((?s, ?i) # cs)" using c(3) sid i by simp
        moreover have "length ((?s, ?i) # cs) \<le> maxRounds - rounds" using c(2) conjunct2 [OF True] by simp
        moreover have "pumpCalls ?r = calls @ ((?s, ?i) # cs)" "pumpOut ?r = written io @ (w @ v)" using c(1,4) by simp_all
        ultimately show ?thesis unfolding spliced_def by metis
      qed
    next
      case False
      have out: "carries [current] (w @ (if ends_with_done current then [done_line] else [])) None" "carries [current] w (Some e)" for e
        using f by (simp_all add: carries_def)
      then show ?thesis unfolding spliced_def unf using None False w(1) f
        by (rule_tac x = "[]" in exI) (auto simp: Let_def pipe_write_def split: option.split)
    qed
  qed
qed

section \<open>Properties\<close>

lemma done_line_is_done: "is_done done_line"
proof -
  have "TrimSpace ''data: [DONE]'' = ''data: [DONE]''" "TrimSpace '' [DONE]'' = ''[DONE]''" by code_simp+
  then show ?thesis unfolding done_line_def is_done_def sse_data_def TrimSpace_newline Let_def by (simp add: TrimPrefix_def)
qed

lemma body_lines_no_done: "list_all (\<lambda>l. \<not> is_done l) (concat (map body_lines bs))"
  by (induction bs) (auto simp: body_lines_def kept_def forwarded_def list_all_iff)

lemma filter_no_done: "list_all (\<lambda>l. \<not> is_done l) ls \<Longrightarrow> filter is_done ls = []"
  by (simp add: list_all_iff filter_empty_conv)

text \<open>C10: The reader of a completion sees one stream, whatever the upstream answers, whenever the context ends and the pipe breaks. It is
  made of the lines of the first body and of the bodies of the continue requests, in order, without blank lines and sentinels;
  when the pipe is closed without an error it is all of them, every body was read to its end, and a single sentinel follows exactly
  if the last body had one. There are at most \<open>maxRounds\<close> continue requests, all for the session of the completion, each for the
  positive message identifier that the bodies read so far reported last.\<close>
theorem continue_splices:
  "let r = pumpAutoContinue env request maxRounds initial st in
     length (pumpCalls r) \<le> maxRounds \<and> list_all (\<lambda>(s, i). s = sessionID st \<and> 0 < i) (pumpCalls r) \<and>
     ids_follow env request 0 initial (responseMessageID st) (pumpCalls r) \<and>
     carries (initial # replies request 0 (pumpCalls r)) (pumpOut r) (pumpErr r) \<and>
     filter is_done (pumpOut r) = (if done_line \<in> set (pumpOut r) then [done_line] else [])"
proof -
  define r where "r = pumpAutoContinue env request maxRounds initial st"
  obtain cs w where c: "pumpCalls r = cs" "length cs \<le> maxRounds" "list_all (\<lambda>(s, i). s = sessionID st \<and> 0 < i) cs"
    "pumpOut r = w" "carries (initial # replies request 0 cs) w (pumpErr r)" "ids_follow env request 0 initial (responseMessageID st) cs"
    using pump_rounds_spliced [of env request maxRounds 0 initial st "\<lparr>reads = 0, written = []\<rparr>" "[]"]
    unfolding r_def pumpAutoContinue_def spliced_def by auto
  let ?ls = "concat (map body_lines (initial # replies request 0 cs))"
  note nd = body_lines_no_done [of "initial # replies request 0 cs"]
  have "w = ?ls @ [done_line] \<or> prefix w ?ls" using c(5) unfolding carries_def prefix_snoc by blast
  then have "filter is_done w = (if done_line \<in> set w then [done_line] else [])"
  proof
    assume "w = ?ls @ [done_line]"
    then show ?thesis using filter_no_done [OF nd] done_line_is_done by simp
  next
    assume p: "prefix w ?ls"
    then have "list_all (\<lambda>l. \<not> is_done l) w" using nd set_mono_prefix [OF p] by (auto simp: list_all_iff)
    then show ?thesis using filter_no_done [of w] done_line_is_done by (auto simp: list_all_iff)
  qed
  then show ?thesis using c unfolding r_def [symmetric] by (simp add: Let_def)
qed

lemma observed_finished:
  assumes "l \<in> set ls" "forwarded l" "\<And>s. finished (observe_line env l s)" shows "finished (observed env ls st)"
  using assms(1)
proof (induction ls arbitrary: st)
  case (Cons a ls)
  then show ?case using assms(2,3) observed_keeps(2) [of "observe_line env l st" env ls]
    by (cases "forwarded a") (auto simp: observed_simps)
qed simp

lemma status_path_finished: "finished (observeDirectPatch env ''response/status'' (JStr ''FINISHED'') s)"
proof -
  have "trim_slashes (TrimSpace ''response/status'') \<in> set status_paths" "TrimSpace ''FINISHED'' = ''FINISHED''"
    "EqualFoldASCII ''FINISHED'' ''FINISHED''" by code_simp+
  then show ?thesis unfolding observeDirectPatch_def observe_path_def Let_def by (simp add: asString_def setStatus_def)
qed

lemma observe_finished:
  assumes "TrimSpace d \<noteq> ''''" "decodeChunk env d = Some (JObj chunk)"
    and status: "jfield chunk ''p'' = JStr ''response/status''" "jfield chunk ''v'' = JStr ''FINISHED''"
  shows "finished (observe env d s)"
proof -
  have "asString env (JStr t) = t" for t by (simp add: asString_def)
  then show ?thesis using assms(1,2)
    by (simp add: observe_def Let_def status status_path_finished split: option.split)
qed

text \<open>An answer that the upstream reports as finished is not continued: after a line that sets the status to \<open>FINISHED\<close>, in any
  position of the body, no continue request is sent.\<close>
theorem finished_not_continued:
  assumes line: "line \<in> set (read_lines (fst initial))" and data: "sse_data line = Some d" "d \<noteq> ''''" "d \<noteq> ''[DONE]''"
    and chunk: "decodeChunk env d = Some (JObj chunk)"
    and status: "jfield chunk ''p'' = JStr ''response/status''" "jfield chunk ''v'' = JStr ''FINISHED''"
  shows "pumpCalls (pumpAutoContinue env request maxRounds initial st) = []"
proof -
  have "TrimSpace d = d" and fw: "forwarded line"
    using data by (auto simp: sse_data_def forwarded_def is_done_def Let_def split: if_splits)
  then have "finished (observe_line env line s)" for s
    using observe_finished [OF _ chunk status] data by (simp add: observe_line_def)
  then have fin: "finished (observed env (read_lines (fst initial)) st)" by (rule observed_finished [OF line fw])
  have "shouldContinue env (copyState r) = False" if "r = streamBodyWithContinueState env initial st io" "copyErr r = None" for r io
    using stream_body_copied [of env initial st io] that fin by (auto simp: copied_def shouldContinue_def)
  then show ?thesis unfolding pumpAutoContinue_def pump_rounds.simps [of _ _ _ 0]
    by (auto simp: Let_def split: option.split prod.split)
qed

definition sample_env :: continue_env where
  "sample_env = \<lparr>ctxErr = (\<lambda>_. None), writeErr = (\<lambda>_. None),
     decodeChunk = (\<lambda>d. if d = ''x'' then Some (JObj [(''p'', JStr ''response/status''), (''v'', JStr ''FINISHED'')]) else None),
     upperTable = id, sprintFloat = (\<lambda>_. '''')\<rparr>"

theorem finished_not_continued_witness:
  "pumpCalls (pumpAutoContinue sample_env (\<lambda>_ _ _. Inl ''refused'') 16 (''data: x'', None) (newContinueState ''s'')) = []"
proof (rule finished_not_continued [of "''data: x''" "(''data: x'', None)" "''x''" sample_env "[(''p'', JStr ''response/status''), (''v'', JStr ''FINISHED'')]"])
  show "sse_data ''data: x'' = Some ''x''" by code_simp
qed (simp_all add: sample_env_def jfield_def)

end
