(* ===== verification/Upstream_Calls.thy ===== *)
theory Upstream_Calls
  imports Upstream_Status Auto_Continue
begin

text \<open>
  The calls to the upstream service with their retries (\<^verbatim>\<open>deepseek/client/client_auth.go\<close>, \<^verbatim>\<open>client_completion.go\<close>): creating a
  session, obtaining a proof of work and the completion itself. A failed call refreshes the token, moves to another account or is
  repeated; the account pool and the resolver are those of \<^verbatim>\<open>Request_Auth\<close>.

  The upstream is a pair of functions from the number of the call and the call to its answer; \<open>uCtx\<close> is the state of the request's context at each
  moment, \<open>uPow\<close> the header computed from a challenge (\<^verbatim>\<open>ComputePow\<close>, which may fail, then \<^verbatim>\<open>BuildPowHeader\<close>, whose JSON always encodes). The HTTP transport with its
  fallback and the proxies is behind these functions. The marks that the watching reader makes while the body is read later
  are not part of the call. A call carries the account whose proxy it goes through (\<open>callRoute\<close>, chosen by \<^verbatim>\<open>requestClientsForAuth\<close>) and
  the identifier of the request's account at that moment (\<open>callAccount\<close>), against which its outcome is recorded.
\<close>

section \<open>The world of a request\<close>

datatype endpoint = CreateSessionURL | CreatePowURL string | CompletionURL | ContinueURL

record call =
  callTo :: endpoint
  callRoute :: Account
  callAccount :: string
  callToken :: string
  callPow :: string
  callSession :: string
  callMessage :: int

datatype stream_answer = StreamError cause | StreamReply int body string

record upstream =
  uEnv :: Env
  uHealth :: health_env
  uParse :: "string \<Rightarrow> time option"
  uJson :: "nat \<Rightarrow> call \<Rightarrow> client_error + (int \<times> json_object)"
  uStream :: "nat \<Rightarrow> call \<Rightarrow> stream_answer"
  uCtx :: "nat \<Rightarrow> ctx_state"
  uPow :: "json_object \<Rightarrow> cause + string"
  uStatusText :: "int \<Rightarrow> string"
  uSwitchFuel :: nat

record world =
  wRes :: Resolver
  wAuth :: RequestAuth
  wCalls :: "call list"
  wTick :: nat

definition maxRetries :: int where "maxRetries = 3"

text \<open>
  The record of a request: \<open>callRoute\<close> and \<open>callToken\<close> are what it is sent with, \<open>callAccount\<close> is only the label under which the resolver
  books its outcome, the identifier of the request's account at that moment.
\<close>

definition call_for :: "Account \<Rightarrow> world \<Rightarrow> endpoint \<Rightarrow> string \<Rightarrow> string \<Rightarrow> call" where
  "call_for clients w url token powResp = \<lparr>callTo = url, callRoute = clients, callAccount = AccountID (wAuth w), callToken = token, callPow = powResp,
     callSession = '''', callMessage = 0\<rparr>"

definition made :: "call \<Rightarrow> world \<Rightarrow> world" where
  "made c w = w\<lparr>wCalls := wCalls w @ [c], wTick := Suc (wTick w)\<rparr>"

definition json_call :: "upstream \<Rightarrow> call \<Rightarrow> world \<Rightarrow> (client_error + (int \<times> json_object)) \<times> world" where
  "json_call up c w = (uJson up (length (wCalls w)) c, made c w)"

definition stream_call :: "upstream \<Rightarrow> call \<Rightarrow> world \<Rightarrow> stream_answer \<times> world" where
  "stream_call up c w = (uStream up (length (wCalls w)) c, made c w)"

text \<open>The operations of the resolver on the request's account.\<close>

definition rate_limited :: "upstream \<Rightarrow> int \<Rightarrow> response_status \<Rightarrow> string \<Rightarrow> string list \<Rightarrow> world \<Rightarrow> world" where
  "rate_limited up status rs retryAfter extra w =
     w\<lparr>wRes := markAccountRateLimited (uEnv up) (uParse up) (wAuth w) status (rsCode rs) (rsBizCode rs) (rsMsg rs) (rsBizMsg rs) retryAfter extra (wRes w)\<rparr>"

definition marked_health :: "upstream \<Rightarrow> response_status \<Rightarrow> world \<Rightarrow> AccountHealthError option \<times> world" where
  "marked_health up rs w =
     (case markAccountHealth (uEnv up) (wAuth w) (rsCode rs) (rsBizCode rs) (rsMsg rs) (rsBizMsg rs) (wRes w) of
        (h, r) \<Rightarrow> (h, w\<lparr>wRes := r\<rparr>))"

definition refresh :: "upstream \<Rightarrow> world \<Rightarrow> bool \<times> world" where
  "refresh up w = (case RefreshToken (uEnv up) (wAuth w) (wRes w) of (ok, a, r) \<Rightarrow> (ok, w\<lparr>wAuth := a, wRes := r\<rparr>))"

definition switch :: "upstream \<Rightarrow> world \<Rightarrow> (bool \<times> world) option" where
  "switch up w = (case SwitchAccount (uSwitchFuel up) (uEnv up) (wAuth w) (wRes w) of
     None \<Rightarrow> None | Some (ok, a, r) \<Rightarrow> Some (ok, w\<lparr>wAuth := a, wRes := r\<rparr>))"

abbreviation "token_rejected up status rs \<equiv>
  isTokenInvalid (eTab (uEnv up)) status (rsCode rs) (rsBizCode rs) (rsMsg rs) (rsBizMsg rs) \<or>
  isAuthIndicativeBizFailure (eTab (uEnv up)) (rsMsg rs) (rsBizMsg rs)"

definition is_rate_limited :: "int \<Rightarrow> response_status \<Rightarrow> bool" where
  "is_rate_limited status rs \<longleftrightarrow> status = 429 \<or> rsCode rs = 429 \<or> rsBizCode rs = 429"

section \<open>Creating a session, obtaining a proof of work\<close>

text \<open>
  The two loops differ in the call, in what they make of a successful answer, and in when they note the failure; these are the
  fields of a specification. A successful answer ends the loop, is retried, or counts as a failure.
\<close>

datatype ok_outcome = Ends string | Again cause | Unusable

record loop_spec =
  lsURL :: endpoint
  lsOp :: string
  lsFallback :: string
  lsOnOk :: "json_object \<Rightarrow> ok_outcome"
  lsNotesTransport :: bool
  lsNotesEarly :: bool

record loop_state =
  lClients :: Account
  lAttempts :: int
  lRefreshed :: bool
  lStatus :: int
  lKind :: FailureKind
  lMessage :: string

definition note_failure :: "upstream \<Rightarrow> loop_spec \<Rightarrow> int \<Rightarrow> response_status \<Rightarrow> world \<Rightarrow> loop_state \<Rightarrow> loop_state" where
  "note_failure up ls status rs w l =
     (if is_rate_limited status rs then l\<lparr>lStatus := 429, lKind := FailureUpstreamStatus\<rparr>
      else if token_rejected up status rs then l\<lparr>lKind := authFailureKind (UseConfigToken (wAuth w))\<rparr>
      else if 400 \<le> status then l\<lparr>lStatus := status, lKind := FailureUpstreamStatus\<rparr>
      else l\<lparr>lKind := FailureUnknown\<rparr>)"

definition RequestFailure_Error :: "RequestFailure \<Rightarrow> string" where
  "RequestFailure_Error e =
     (let op = TrimSpace (rfOp e); message = TrimSpace (rfMessage e) in
      if op \<noteq> '''' \<and> 0 < rfStatusCode e \<and> message \<noteq> '''' then op @ '' failed with HTTP '' @ FormatInt (rfStatusCode e) @ '': '' @ message
      else if op \<noteq> '''' \<and> 0 < rfStatusCode e then op @ '' failed with HTTP '' @ FormatInt (rfStatusCode e)
      else if op \<noteq> '''' \<and> message \<noteq> '''' then op @ '': '' @ message
      else if op \<noteq> '''' then op @ '' failed''
      else if message \<noteq> '''' then message
      else ''request failed'')"

definition error_text :: "upstream \<Rightarrow> client_error \<Rightarrow> string" where
  "error_text up e = (case e of Failed f \<Rightarrow> RequestFailure_Error f | Health h \<Rightarrow> AccountHealthError_Error (eFormat (uEnv up)) h | Other c \<Rightarrow> causeText c)"

text \<open>One turn: the loop ends with a result, or goes on with its state and the world. The outer option is the fuel of the switch.\<close>

type_synonym 'a turn = "('a + loop_state) \<times> world"

definition retry_after_failure :: "upstream \<Rightarrow> bool \<Rightarrow> int \<Rightarrow> response_status \<Rightarrow> loop_state \<Rightarrow> world \<Rightarrow> (client_error + string) turn option" where
  "retry_after_failure up allowSwitch status rs l w =
     (let next_try = l\<lparr>lAttempts := lAttempts l + 1\<rparr>;
          try_switch = (\<lambda>w. if allowSwitch \<and>
              rateLimitScopeFromResponse (eTab (uEnv up)) status (rsCode rs) (rsBizCode rs) (rsMsg rs) (rsBizMsg rs) [] \<noteq> SessionCapacity
            then (case switch up w of
                None \<Rightarrow> None
              | Some (True, w1) \<Rightarrow> Some (Inr ((if is_rate_limited status rs then l else next_try)\<lparr>lRefreshed := False, lClients := raAccount (wAuth w1)\<rparr>), w1)
              | Some (False, w1) \<Rightarrow> Some (Inr next_try, w1))
            else Some (Inr next_try, w))
      in if \<not> UseConfigToken (wAuth w) then Some (Inr next_try, w)
         else if \<not> lRefreshed l \<and> shouldAttemptRefresh (eTab (uEnv up)) status (rsCode rs) (rsBizCode rs) (rsMsg rs) (rsBizMsg rs)
         then (case refresh up w of (True, w1) \<Rightarrow> Some (Inr (l\<lparr>lRefreshed := True\<rparr>), w1) | (False, w1) \<Rightarrow> try_switch w1)
         else try_switch w)"

definition failed_turn :: "upstream \<Rightarrow> loop_spec \<Rightarrow> bool \<Rightarrow> int \<Rightarrow> response_status \<Rightarrow> loop_state \<Rightarrow> world \<Rightarrow> (client_error + string) turn option" where
  "failed_turn up ls allowSwitch status rs l0 w =
     (let l = (if lsNotesEarly ls then note_failure up ls status rs w l0 else l0) in
      case marked_health up rs w of
        (Some e, w1) \<Rightarrow>
          if allowSwitch \<and> UseConfigToken (wAuth w1) then
            (case switch up w1 of
               None \<Rightarrow> None
             | Some (True, w2) \<Rightarrow> Some (Inr (l\<lparr>lRefreshed := False, lAttempts := lAttempts l + 1, lClients := raAccount (wAuth w2)\<rparr>), w2)
             | Some (False, w2) \<Rightarrow> Some (Inl (Inl (Health e)), w2))
          else Some (Inl (Inl (Health e)), w1)
      | (None, w1) \<Rightarrow> retry_after_failure up allowSwitch status rs (if lsNotesEarly ls then l else note_failure up ls status rs w l) w1)"

definition loop_turn :: "upstream \<Rightarrow> loop_spec \<Rightarrow> bool \<Rightarrow> loop_state \<Rightarrow> world \<Rightarrow> (client_error + string) turn option" where
  "loop_turn up ls allowSwitch l w =
     (case json_call up (call_for (lClients l) w (lsURL ls) (DeepSeekToken (wAuth w)) '''') w of
        (Inl e, w1) \<Rightarrow>
          if IsClientCancelledError e \<or> IsUpstreamTimeoutError e then Some (Inl (Inl (requestFailureWithOp (lsOp ls) e)), w1)
          else Some (Inr ((if lsNotesTransport ls then l\<lparr>lKind := FailureUnknown, lMessage := error_text up e\<rparr> else l)
            \<lparr>lAttempts := lAttempts l + 1\<rparr>), w1)
      | (Inr (status, resp), w1) \<Rightarrow>
          (let rs = extractResponseStatus resp;
               l1 = l\<lparr>lStatus := 0, lMessage := failureMessage (rsMsg rs) (rsBizMsg rs) (lsFallback ls)\<rparr>;
               w2 = rate_limited up status rs '''' [] w1
           in case (if status = 200 \<and> rsCode rs = 0 \<and> rsBizCode rs = 0 then lsOnOk ls resp else Unusable) of
                Ends s \<Rightarrow> Some (Inl (Inr s), w2)
              | Again _ \<Rightarrow> Some (Inr (l1\<lparr>lAttempts := lAttempts l + 1\<rparr>), w2)
              | Unusable \<Rightarrow> failed_turn up ls allowSwitch status rs l1 w2))"

definition loop_failure :: "upstream \<Rightarrow> loop_spec \<Rightarrow> loop_state \<Rightarrow> client_error" where
  "loop_failure up ls l =
     (if lKind l \<noteq> FailureUnknown \<or> 0 < lStatus l
      then Failed \<lparr>rfOp = lsOp ls, rfKind = lKind l, rfMessage = lMessage l, rfStatusCode = lStatus l,
        rfScope = rateLimitScopeFromResponse (eTab (uEnv up)) (lStatus l) 0 0 (lMessage l) '''' [], rfCause = None\<rparr>
      else Other \<lparr>isCanceled = False, isDeadline = False, isNetTimeout = False, causeText = lsOp ls @ '' failed''\<rparr>)"

fun upstream_loop :: "nat \<Rightarrow> upstream \<Rightarrow> loop_spec \<Rightarrow> bool \<Rightarrow> int \<Rightarrow> loop_state \<Rightarrow> world \<Rightarrow> ((client_error + string) \<times> world) option" where
  "upstream_loop 0 up ls allowSwitch maxAttempts l w = None"
| "upstream_loop (Suc n) up ls allowSwitch maxAttempts l w =
     (if \<not> lAttempts l < maxAttempts then Some (Inl (loop_failure up ls l), w)
      else case loop_turn up ls allowSwitch l w of
        None \<Rightarrow> None
      | Some (Inl res, w1) \<Rightarrow> Some (res, w1)
      | Some (Inr l1, w1) \<Rightarrow> upstream_loop n up ls allowSwitch maxAttempts l1 w1)"

definition loop_start :: "world \<Rightarrow> loop_state" where
  "loop_start w = \<lparr>lClients = raAccount (wAuth w), lAttempts = 0, lRefreshed = False, lStatus = 0, lKind = FailureUnknown, lMessage = ''''\<rparr>"

definition session_spec :: loop_spec where
  "session_spec = \<lparr>lsURL = CreateSessionURL, lsOp = ''create session'', lsFallback = ''create session failed'',
     lsOnOk = (\<lambda>resp. let s = extractCreateSessionID resp in if s \<noteq> '''' then Ends s else Unusable),
     lsNotesTransport = False, lsNotesEarly = True\<rparr>"

definition createSession :: "nat \<Rightarrow> upstream \<Rightarrow> int \<Rightarrow> bool \<Rightarrow> world \<Rightarrow> ((client_error + string) \<times> world) option" where
  "createSession n up maxAttempts allowSwitch w =
     upstream_loop n up session_spec allowSwitch (if maxAttempts \<le> 0 then maxRetries else maxAttempts) (loop_start w) w"

definition challenge_of :: "json_object \<Rightarrow> json_object" where
  "challenge_of resp = obj_or_empty (jfield (obj_or_empty (jfield (obj_or_empty (jfield resp ''data'')) ''biz_data'')) ''challenge'')"

definition pow_spec :: "upstream \<Rightarrow> string \<Rightarrow> loop_spec" where
  "pow_spec up targetPath = \<lparr>lsURL = CreatePowURL targetPath, lsOp = ''get pow'', lsFallback = ''get pow failed'',
     lsOnOk = (\<lambda>resp. case uPow up (challenge_of resp) of Inr h \<Rightarrow> Ends h | Inl c \<Rightarrow> Again c),
     lsNotesTransport = True, lsNotesEarly = False\<rparr>"

definition DeepSeekCompletionTargetPath :: string where
  "DeepSeekCompletionTargetPath = ''/api/v0/chat/completion''"

definition getPowForTarget :: "nat \<Rightarrow> upstream \<Rightarrow> string \<Rightarrow> int \<Rightarrow> bool \<Rightarrow> world \<Rightarrow> ((client_error + string) \<times> world) option" where
  "getPowForTarget n up targetPath0 maxAttempts allowSwitch w =
     (let t = TrimSpace targetPath0; targetPath = (if t = '''' then DeepSeekCompletionTargetPath else t) in
      upstream_loop n up (pow_spec up targetPath) allowSwitch (if maxAttempts \<le> 0 then maxRetries else maxAttempts) (loop_start w) w)"

section \<open>The completion\<close>

definition cause_of :: "upstream \<Rightarrow> client_error \<Rightarrow> cause" where
  "cause_of up e = \<lparr>isCanceled = chain_is isCanceled e, isDeadline = chain_is isDeadline e, isNetTimeout = chain_is isNetTimeout e,
     causeText = error_text up e\<rparr>"

definition hasCompletionSwitchCandidate :: "world \<Rightarrow> bool" where
  "hasCompletionSwitchCandidate w =
     list_ex (\<lambda>acc. let candidate = TrimSpace (Identifier acc) in
       candidate \<noteq> '''' \<and> candidate \<noteq> TrimSpace (AccountID (wAuth w)) \<and> \<not> Disabled acc \<and> candidate \<notin> set (TriedAccounts (wAuth w)))
     (Accounts (rstore (wRes w)))"

text \<open>One call on the new account, without retries.\<close>

definition single_call :: "upstream \<Rightarrow> loop_spec \<Rightarrow> world \<Rightarrow> (client_error + string) \<times> world" where
  "single_call up ls w =
     (case json_call up (call_for (raAccount (wAuth w)) w (lsURL ls) (DeepSeekToken (wAuth w)) '''') w of
        (Inl e, w1) \<Rightarrow> (Inl (Failed (transportFailure (lsOp ls) (uCtx up (wTick w1)) (cause_of up e))), w1)
      | (Inr (status, resp), w1) \<Rightarrow>
          (let rs = extractResponseStatus resp; w2 = rate_limited up status rs '''' [] w1 in
           case (if status = 200 \<and> rsCode rs = 0 \<and> rsBizCode rs = 0 then lsOnOk ls resp else Unusable) of
             Ends s \<Rightarrow> (Inr s, w2)
           | Again c \<Rightarrow> (Inl (Failed (transportFailure (lsOp ls) (uCtx up (wTick w2)) c)), w2)
           | Unusable \<Rightarrow> (case marked_health up rs w2 of
               (Some e, w3) \<Rightarrow> (Inl (Health e), w3)
             | (None, w3) \<Rightarrow> (Inl (Failed \<lparr>rfOp = lsOp ls,
                 rfKind = (if token_rejected up status rs then authFailureKind (UseConfigToken (wAuth w3)) else FailureUpstreamStatus),
                 rfMessage = failureMessage (rsMsg rs) (rsBizMsg rs) (lsFallback ls), rfStatusCode = status, rfScope = NoScope, rfCause = None\<rparr>), w3))))"

definition createCompletionRetrySession :: "upstream \<Rightarrow> world \<Rightarrow> (client_error + string) \<times> world" where
  "createCompletionRetrySession up w = single_call up session_spec w"

definition getCompletionRetryPow :: "upstream \<Rightarrow> world \<Rightarrow> (client_error + string) \<times> world" where
  "getCompletionRetryPow up w = single_call up (pow_spec up DeepSeekCompletionTargetPath) w"

text \<open>The headers and the session of the next completion request.\<close>

record completion_state =
  cAttempts :: int
  cRefreshed :: bool
  cClients :: Account
  cToken :: string
  cPow :: string
  cSession :: string

datatype switch_result = Switched completion_state | NoCandidate | SwitchFailed client_error

definition switchCompletionAccount :: "upstream \<Rightarrow> completion_state \<Rightarrow> world \<Rightarrow> (switch_result \<times> world) option" where
  "switchCompletionAccount up s w =
     (if \<not> UseConfigToken (wAuth w) \<or> \<not> hasCompletionSwitchCandidate w then Some (NoCandidate, w)
      else case switch up w of
        None \<Rightarrow> None
      | Some (False, w1) \<Rightarrow> Some (case requestContextFailure ''completion'' (uCtx up (wTick w1)) None of
            Some f \<Rightarrow> SwitchFailed (Failed f) | None \<Rightarrow> NoCandidate, w1)
      | Some (True, w1) \<Rightarrow> (case createCompletionRetrySession up w1 of
            (Inl e, w2) \<Rightarrow> Some (SwitchFailed e, w2)
          | (Inr sid, w2) \<Rightarrow> (case getCompletionRetryPow up w2 of
                (Inl e, w3) \<Rightarrow> Some (SwitchFailed e, w3)
              | (Inr powResp, w3) \<Rightarrow> Some (Switched (s\<lparr>cClients := raAccount (wAuth w3), cToken := DeepSeekToken (wAuth w3), cPow := powResp, cSession := sid\<rparr>), w3))))"

definition completionFailureBodyLimit :: nat where "completionFailureBodyLimit = 4096"

definition failure_body :: "upstream \<Rightarrow> string \<Rightarrow> response_status option" where
  "failure_body up bytes =
     (case (case hDecode (uHealth up) bytes of Some (JObj m) \<Rightarrow> Some m | Some JNull \<Rightarrow> Some [] | _ \<Rightarrow> None) of
        None \<Rightarrow> None
      | Some parsed \<Rightarrow>
          (let rs = extractResponseStatus parsed in
           case as_obj (jfield parsed ''data'') of
             Some d \<Rightarrow> Some (rs\<lparr>rsCode := (if rsCode rs = 0 then IntFrom (jfield d ''code'') else rsCode rs),
                 rsBizCode := (if rsBizCode rs = 0 then IntFrom (jfield d ''biz_code'') else rsBizCode rs)\<rparr>)
           | None \<Rightarrow> Some rs))"

definition no_status :: response_status where
  "no_status = \<lparr>rsCode = 0, rsBizCode = 0, rsMsg = '''', rsBizMsg = ''''\<rparr>"

definition completionStatusFailure :: "upstream \<Rightarrow> int \<Rightarrow> body \<Rightarrow> string \<Rightarrow> world \<Rightarrow> client_error \<times> world" where
  "completionStatusFailure up status b retryAfter w =
     (case (if length (fst b) \<le> completionFailureBodyLimit then snd b else None) of
        Some e \<Rightarrow> (Failed \<lparr>rfOp = ''completion'', rfKind = FailureUpstreamNetwork, rfMessage = ''read upstream error body: '' @ e,
            rfStatusCode = status, rfScope = NoScope,
            rfCause = Some \<lparr>isCanceled = False, isDeadline = False, isNetTimeout = False, causeText = e\<rparr>\<rparr>, w)
      | None \<Rightarrow>
          (let bytes = take completionFailureBodyLimit (fst b);
               message = or_message (TrimSpace bytes) (uStatusText up status);
               rs = (case failure_body up bytes of Some rs \<Rightarrow> rs | None \<Rightarrow> no_status)
           in case (if failure_body up bytes = None then (None, w) else marked_health up rs w) of
                (Some e, w1) \<Rightarrow> (Health e, w1)
              | (None, w1) \<Rightarrow> (Failed \<lparr>rfOp = ''completion'',
                  rfKind = (if token_rejected up status rs then authFailureKind (UseConfigToken (wAuth w1)) else FailureUpstreamStatus),
                  rfMessage = message, rfStatusCode = status,
                  rfScope = rateLimitScopeFromResponse (eTab (uEnv up)) status (rsCode rs) (rsBizCode rs) (rsMsg rs) (rsBizMsg rs) [message],
                  rfCause = None\<rparr>, rate_limited up status rs retryAfter [message] w1)))"

subsection \<open>The first line of a stream\<close>

definition completionSSEPreludeLimit :: nat where "completionSSEPreludeLimit = 64 * 1024"

definition completionPreludePayload :: "string \<Rightarrow> string option" where
  "completionPreludePayload line0 = (let line = TrimSpace line0 in
     if prefix ''data:'' line then Some (TrimSpace (TrimPrefix line ''data:''))
     else if prefix ''{'' line then Some line else None)"

fun prelude_loop :: "health_env \<Rightarrow> string option \<Rightarrow> nat \<Rightarrow> string list \<Rightarrow> AccountHealthError option \<times> string option" where
  "prelude_loop he ended n [] = (if completionSSEPreludeLimit < n then (None, None) else (None, ended))"
| "prelude_loop he ended n (line # rest) =
     (if completionSSEPreludeLimit < n then (None, None)
      else case completionPreludePayload line of
        Some payload \<Rightarrow>
          (if payload = '''' \<or> payload = ''[DONE]'' then (None, None)
           else case hDecode he payload of
             Some (JObj chunk) \<Rightarrow> (accountHealthErrorFromSSEChunk (hLow he) (hFloat he) chunk, None)
           | _ \<Rightarrow> (None, None))
      | None \<Rightarrow> if terminated line then prelude_loop he ended (n + length line) rest else (None, ended))"

definition inspectCompletionSSEPrelude :: "upstream \<Rightarrow> body \<Rightarrow> world \<Rightarrow> (AccountHealthError option \<times> string option) \<times> world" where
  "inspectCompletionSSEPrelude up b w =
     (case prelude_loop (uHealth up) (snd b) 0 (read_lines (fst b)) of
        (Some e, err) \<Rightarrow> ((Some e, err), if UseConfigToken (wAuth w) \<and> TrimSpace (AccountID (wAuth w)) \<noteq> ''''
            then w\<lparr>wRes := recordAccountHealth (uEnv up) (AccountID (wAuth w)) (HealthError e) (wRes w)\<rparr> else w)
      | (None, err) \<Rightarrow> ((None, err), w))"

subsection \<open>The loop\<close>

text \<open>The result of a turn: the loop returns, gives up with the last error, or goes on. A delivered body comes with the session it belongs to.\<close>

datatype completion_step = Delivered string body | GivesUp client_error | GoesOn completion_state

definition sleep_retry :: "upstream \<Rightarrow> completion_state \<Rightarrow> world \<Rightarrow> completion_step \<times> world" where
  "sleep_retry up s w = (let w1 = w\<lparr>wTick := Suc (wTick w)\<rparr> in
     case requestContextFailure ''completion'' (uCtx up (wTick w1)) None of
       Some f \<Rightarrow> (GivesUp (Failed f), w1) | None \<Rightarrow> (GoesOn s, w1))"

text \<open>Moving to another account; without a candidate the given continuation decides.\<close>

definition switch_or :: "upstream \<Rightarrow> bool \<Rightarrow> completion_state \<Rightarrow> (world \<Rightarrow> (completion_step \<times> world) option) \<Rightarrow> world \<Rightarrow> (completion_step \<times> world) option" where
  "switch_or up allowSwitch s otherwise w =
     (if \<not> allowSwitch then otherwise w
      else case switchCompletionAccount up s w of
        None \<Rightarrow> None
      | Some (Switched s1, w1) \<Rightarrow> Some (GoesOn s1, w1)
      | Some (SwitchFailed e, w1) \<Rightarrow> Some (GivesUp e, w1)
      | Some (NoCandidate, w1) \<Rightarrow> otherwise w1)"

definition counted :: "int \<Rightarrow> client_error \<Rightarrow> (completion_state \<Rightarrow> world \<Rightarrow> (completion_step \<times> world) option) \<Rightarrow>
    completion_state \<Rightarrow> world \<Rightarrow> (completion_step \<times> world) option" where
  "counted maxAttempts lastErr k s w =
     (let s1 = s\<lparr>cAttempts := cAttempts s + 1\<rparr> in if maxAttempts \<le> cAttempts s1 then Some (GivesUp lastErr, w) else k s1 w)"

definition completion_transport :: "upstream \<Rightarrow> int \<Rightarrow> bool \<Rightarrow> bool \<Rightarrow> client_error \<Rightarrow> completion_state \<Rightarrow> world \<Rightarrow> (completion_step \<times> world) option" where
  "completion_transport up maxAttempts allowSwitch sleeps lastErr s w =
     (if \<not> completionFailureRetryable lastErr then Some (GivesUp lastErr, w)
      else counted maxAttempts lastErr (\<lambda>s1. switch_or up allowSwitch s1
             (\<lambda>w1. Some (if sleeps then sleep_retry up s1 w1 else (GoesOn s1, w1)))) s w)"

definition completion_health :: "upstream \<Rightarrow> bool \<Rightarrow> AccountHealthError \<Rightarrow> completion_state \<Rightarrow> world \<Rightarrow> (completion_step \<times> world) option" where
  "completion_health up allowSwitch e s w =
     (if allowSwitch \<and> UseConfigToken (wAuth w) \<and> hasCompletionSwitchCandidate w
      then switch_or up True s (\<lambda>w1. Some (GivesUp (Health e), w1)) w
      else Some (GivesUp (Health e), w))"

definition completion_status :: "upstream \<Rightarrow> int \<Rightarrow> bool \<Rightarrow> string \<Rightarrow> int \<Rightarrow> client_error \<Rightarrow> completion_state \<Rightarrow> world \<Rightarrow> (completion_step \<times> world) option" where
  "completion_status up maxAttempts allowSwitch powResp status lastErr s w =
     (let ordinary = counted maxAttempts lastErr (\<lambda>s1. switch_or up (allowSwitch \<and> \<not> IsSessionCapacityRateLimit lastErr) s1
            (\<lambda>w1. Some (sleep_retry up s1 w1)));
          fail_over = (\<lambda>w. if allowSwitch \<and> \<not> IsSessionCapacityRateLimit lastErr \<and> status = 429 \<and> UseConfigToken (wAuth w) \<and> hasCompletionSwitchCandidate w
            then switch_or up True s (ordinary s) w else ordinary s w)
      in case lastErr of
           Health e \<Rightarrow> completion_health up allowSwitch e s w
         | _ \<Rightarrow>
             if \<not> cRefreshed s \<and> IsManagedUnauthorizedError lastErr then
               (case refresh up w of
                  (True, w1) \<Rightarrow> Some (GoesOn (s\<lparr>cRefreshed := True, cClients := raAccount (wAuth w1), cToken := DeepSeekToken (wAuth w1), cPow := powResp\<rparr>), w1)
                | (False, w1) \<Rightarrow> fail_over w1)
             else fail_over w)"

definition completion_turn :: "upstream \<Rightarrow> int \<Rightarrow> bool \<Rightarrow> string \<Rightarrow> completion_state \<Rightarrow> world \<Rightarrow> (completion_step \<times> world) option" where
  "completion_turn up maxAttempts allowSwitch powResp s w =
     (case stream_call up ((call_for (cClients s) w CompletionURL (cToken s) (cPow s))\<lparr>callSession := cSession s\<rparr>) w of
        (StreamError c, w1) \<Rightarrow>
          completion_transport up maxAttempts allowSwitch True (Failed (transportFailure ''completion'' (uCtx up (wTick w1)) c)) s w1
      | (StreamReply status b retryAfter, w1) \<Rightarrow>
          if status = 200 then
            (case inspectCompletionSSEPrelude up b w1 of
               ((_, Some e), w2) \<Rightarrow>
                 completion_transport up maxAttempts allowSwitch False (Failed (transportFailure ''completion'' (uCtx up (wTick w2))
                   \<lparr>isCanceled = False, isDeadline = False, isNetTimeout = False, causeText = e\<rparr>)) s w2
             | ((Some e, None), w2) \<Rightarrow> completion_health up allowSwitch e s w2
             | ((None, None), w2) \<Rightarrow> Some (Delivered (cSession s) b, w2))
          else (case completionStatusFailure up status b retryAfter w1 of
              (lastErr, w2) \<Rightarrow> completion_status up maxAttempts allowSwitch powResp status lastErr s w2))"

fun completion_loop :: "nat \<Rightarrow> upstream \<Rightarrow> int \<Rightarrow> bool \<Rightarrow> string \<Rightarrow> completion_state \<Rightarrow> world \<Rightarrow> ((client_error + string \<times> body) \<times> world) option" where
  "completion_loop 0 up maxAttempts allowSwitch powResp s w = None"
| "completion_loop (Suc n) up maxAttempts allowSwitch powResp s w =
     (case completion_turn up maxAttempts allowSwitch powResp s w of
        None \<Rightarrow> None
      | Some (Delivered sid b, w1) \<Rightarrow> Some (Inr (sid, b), w1)
      | Some (GivesUp e, w1) \<Rightarrow> Some (Inl e, w1)
      | Some (GoesOn s1, w1) \<Rightarrow> completion_loop n up maxAttempts allowSwitch powResp s1 w1)"

definition callCompletion :: "nat \<Rightarrow> upstream \<Rightarrow> string \<Rightarrow> string \<Rightarrow> int \<Rightarrow> bool \<Rightarrow> world \<Rightarrow> ((client_error + string \<times> body) \<times> world) option" where
  "callCompletion n up sid powResp maxAttempts0 allowSwitch w =
     (let maxAttempts = (if maxAttempts0 \<le> 0 then maxRetries else maxAttempts0) in
      case requestContextFailure ''completion'' (uCtx up (wTick w)) None of
        Some f \<Rightarrow> Some (Inl (Failed f), w)
      | None \<Rightarrow> completion_loop n up maxAttempts allowSwitch powResp
          \<lparr>cAttempts = 0, cRefreshed = False, cClients = raAccount (wAuth w), cToken = DeepSeekToken (wAuth w), cPow = powResp, cSession = sid\<rparr> w)"

text \<open>The continue request, sent with the proof of work the completion was called with.\<close>

fun continue_attempts :: "nat \<Rightarrow> upstream \<Rightarrow> Account \<Rightarrow> string \<Rightarrow> int \<Rightarrow> string \<Rightarrow> bool \<Rightarrow> world \<Rightarrow> (client_error + body) \<times> world" where
  "continue_attempts 0 up clients sid mid powResp first w =
     (Inl (Other \<lparr>isCanceled = False, isDeadline = False, isNetTimeout = False, causeText = ''continue failed after token refresh''\<rparr>), w)"
| "continue_attempts (Suc n) up clients sid mid powResp first w =
     (case stream_call up ((call_for clients w ContinueURL (DeepSeekToken (wAuth w)) powResp)\<lparr>callSession := sid, callMessage := mid\<rparr>) w of
        (StreamError c, w1) \<Rightarrow> (Inl (Other c), w1)
      | (StreamReply status b retryAfter, w1) \<Rightarrow>
          if status = 200 then (Inr b, w1)
          else
            (let rs = extractResponseStatus (case hDecode (uHealth up) (take (64 * 1024) (fst b)) of Some (JObj m) \<Rightarrow> m | _ \<Rightarrow> []);
                 w2 = rate_limited up status rs retryAfter [] w1
             in case marked_health up rs w2 of
                  (Some e, w3) \<Rightarrow> (Inl (Health e), w3)
                | (None, w3) \<Rightarrow>
                    let err = Inl (Other \<lparr>isCanceled = False, isDeadline = False, isNetTimeout = False,
                      causeText = ''continue failed: HTTP '' @ FormatInt status @ '': '' @ failureMessage (rsMsg rs) (rsBizMsg rs) ''unknown upstream error''\<rparr>)
                    in if first \<and> UseConfigToken (wAuth w3) \<and>
                          shouldAttemptRefresh (eTab (uEnv up)) status (rsCode rs) (rsBizCode rs) (rsMsg rs) (rsBizMsg rs)
                       then (case refresh up w3 of (True, w4) \<Rightarrow> continue_attempts n up clients sid mid powResp False w4 | (False, w4) \<Rightarrow> (err, w4))
                       else (err, w3)))"

definition callContinue :: "upstream \<Rightarrow> string \<Rightarrow> int \<Rightarrow> string \<Rightarrow> world \<Rightarrow> (client_error + body) \<times> world" where
  "callContinue up sid mid powResp w =
     (if TrimSpace sid = '''' \<or> mid \<le> 0
      then (Inl (Other \<lparr>isCanceled = False, isDeadline = False, isNetTimeout = False, causeText = ''missing continue identifiers''\<rparr>), w)
      else continue_attempts 2 up (raAccount (wAuth w)) sid mid powResp True w)"

section \<open>What a step of a request keeps\<close>

text \<open>
  Calls, marks and refreshed tokens leave the slots of the pool and the request's account alone; only a switch moves to another account,
  and then to one that was not tried before.
\<close>

definition same_account :: "world \<Rightarrow> world \<Rightarrow> bool" where
  "same_account w w1 \<longleftrightarrow> same_use (wRes w) (wRes w1) \<and> AccountID (wAuth w1) = AccountID (wAuth w) \<and>
     UseConfigToken (wAuth w1) = UseConfigToken (wAuth w) \<and> TriedAccounts (wAuth w1) = TriedAccounts (wAuth w)"

definition fits :: "upstream \<Rightarrow> world \<Rightarrow> bool" where
  "fits up w \<longleftrightarrow> storage_keeps (eStorage (uEnv up)) \<and> resolver_ok (wRes w) \<and> card (idents (rstore (wRes w))) < uSwitchFuel up"

definition untried :: "world \<Rightarrow> nat" where
  "untried w = card (idents (rstore (wRes w)) - insert (AccountID (wAuth w)) (set (TriedAccounts (wAuth w))))"

lemma same_account_refl [simp]: "same_account w w"
  by (simp add: same_account_def)

lemma same_account_trans [trans]: "same_account w w1 \<Longrightarrow> same_account w1 w2 \<Longrightarrow> same_account w w2"
  using same_use_trans by (auto simp: same_account_def)

lemma same_account_fits: "same_account w w1 \<Longrightarrow> fits up w \<Longrightarrow> fits up w1 \<and> untried w1 = untried w"
  using same_use_ok by (auto simp: same_account_def fits_def untried_def)

lemma same_account_made [simp]: "same_account w (made c w)"
  by (simp add: same_account_def made_def)

lemma same_account_tick [simp]: "same_account w (w\<lparr>wTick := t\<rparr>)"
  by (simp add: same_account_def)

lemma same_account_recorded:
  "fits up w \<Longrightarrow> same_account w (w\<lparr>wRes := recordAccountHealth (uEnv up) i err (wRes w)\<rparr>)"
  by (simp add: same_account_def fits_def same_use_recordAccountHealth)

lemma same_account_rate_limited: "fits up w \<Longrightarrow> same_account w (rate_limited up status rs ra ex w)"
  by (auto simp: rate_limited_def markAccountRateLimited_def fits_def same_account_def same_use_recordAccountHealth split: option.splits)

lemma same_account_marked_health: "fits up w \<Longrightarrow> marked_health up rs w = (h, w1) \<Longrightarrow> same_account w w1"
  by (auto simp: marked_health_def markAccountHealth_def fits_def same_account_def same_use_recordAccountHealth split: option.splits if_splits)

lemma same_account_refresh:
  assumes "fits up w" "refresh up w = (ok, w1)"
  shows "same_account w w1"
proof -
  let ?st = "eStorage (uEnv up)"
  have ok: "storage_keeps ?st" "index_ok (rstore (wRes w))" using assms(1) by (simp_all add: fits_def resolver_ok_def)
  let ?r1 = "with_store (snd (UpdateAccountToken (snd ?st) (AccountID (wAuth w)) '''' (rstore (wRes w)))) (wRes w)"
  have r1: "same_use (wRes w) ?r1"
    by (rule same_use_with_store) (simp_all add: UpdateAccountToken_ids [OF ok(2)] UpdateAccountToken_index_ok)
  then have ok1: "index_ok (rstore ?r1)" using ok(2) by (simp add: same_use_def)
  obtain err a' r' where l: "loginAndPersist (uEnv up) ((wAuth w)\<lparr>raAccount := (raAccount (wAuth w))\<lparr>Token := ''''\<rparr>\<rparr>) ?r1 = (err, a', r')"
    by (metis surj_pair)
  note s = same_use_loginAndPersist [OF ok(1) ok1 l]
  have "same_account w (w\<lparr>wAuth := a', wRes := r'\<rparr>)" using s same_use_trans [OF r1] by (simp add: same_account_def)
  then show ?thesis
    using assms(2) l same_account_recorded [OF assms(1)] by (auto simp: refresh_def RefreshToken_def Let_def split: if_splits)
qed

lemma ensureManagedToken_auth:
  assumes "ensureManagedToken env a r = (err, a', r')"
  shows "UseConfigToken a' = UseConfigToken a \<and> TriedAccounts a' = TriedAccounts a"
proof -
  have l: "UseConfigToken b' = UseConfigToken a \<and> TriedAccounts b' = TriedAccounts a" if "loginAndPersist env a q = (e, b', q')" for q e b' q'
    using that by (auto simp: loginAndPersist_def Let_def split: sum.splits prod.splits option.splits)
  show ?thesis
    using assms l by (auto simp: ensureManagedToken_def split: if_splits prod.splits bool.splits)
qed

lemma switch_loop_tried:
  "switch_loop n env a r = Some (ok, a', r') \<Longrightarrow>
     UseConfigToken a' = UseConfigToken a \<and> set (TriedAccounts a) \<subseteq> set (TriedAccounts a')"
proof (induction n arbitrary: a r)
  case (Suc n)
  then show ?case
    by (auto split: prod.splits option.splits dest!: ensureManagedToken_auth Suc.IH)
qed simp

lemma switch_progress:
  assumes "fits up w" "UseConfigToken (wAuth w)"
  obtains ok w1 where "switch up w = Some (ok, w1)" "fits up w1" "untried w1 \<le> untried w" "UseConfigToken (wAuth w1)"
    "wCalls w1 = wCalls w" "wTick w1 = wTick w" "ok \<Longrightarrow> untried w1 < untried w"
proof -
  let ?a = "if AccountID (wAuth w) = '''' then wAuth w else (wAuth w)\<lparr>TriedAccounts := List.insert (AccountID (wAuth w)) (TriedAccounts (wAuth w))\<rparr>"
  let ?r = "if AccountID (wAuth w) = '''' then wRes w else with_pool (Release (AccountID (wAuth w))) (wRes w)"
  let ?ids = "idents (rstore (wRes w))"
  have sw: "SwitchAccount (uSwitchFuel up) (uEnv up) (wAuth w) (wRes w) = switch_loop (uSwitchFuel up) (uEnv up) ?a ?r"
    using assms(2) by (simp add: SwitchAccount_def)
  have ok: "resolver_ok ?r" "idents (rstore ?r) = ?ids"
    using assms(1) Release_ok by (auto simp: fits_def)
  have "card (idents (rstore ?r) - set (TriedAccounts ?a)) < uSwitchFuel up"
    using assms(1) le_less_trans [OF card_mono [OF finite_idents Diff_subset]] by (auto simp: fits_def ok(2))
  moreover have "storage_keeps (eStorage (uEnv up))" using assms(1) by (simp add: fits_def)
  ultimately obtain fin a' r' where out: "switch_loop (uSwitchFuel up) (uEnv up) ?a ?r = Some (fin, a', r')" "switch_outcome ?r ?a (fin, a', r')"
    using switch_loop_outcome [OF _ ok(1)] by (metis prod_cases3)
  let ?w1 = "w\<lparr>wAuth := a', wRes := r'\<rparr>"
  have s1: "switch up w = Some (fin, ?w1)" by (simp add: switch_def sw out(1))
  have ids: "idents (rstore r') = ?ids" "resolver_ok r'" using out(2) ok(2) by (simp_all add: switch_outcome_def)
  have f1: "fits up ?w1" using assms(1) ids by (simp add: fits_def)
  have t: "UseConfigToken a' = UseConfigToken ?a" "set (TriedAccounts ?a) \<subseteq> set (TriedAccounts a')"
    using switch_loop_tried [OF out(1)] by auto
  have ne: "'''' \<notin> ?ids" by (auto simp: idents_def)
  let ?S = "?ids - insert (AccountID (wAuth w)) (set (TriedAccounts (wAuth w)))"
  let ?S1 = "?ids - insert (AccountID a') (set (TriedAccounts a'))"
  have sub: "?S1 \<subseteq> ?S" using t(2) ne by (auto split: if_splits)
  have u: "untried w = card ?S" "untried ?w1 = card ?S1" using ids by (simp_all add: untried_def)
  have "untried ?w1 < untried w" if fin
  proof -
    have "AccountID a' \<in> ?S" using out(2) that ne ok(2) by (auto simp: switch_outcome_def split: if_splits)
    then have "?S1 \<subset> ?S" using sub by auto
    then show ?thesis unfolding u by (intro psubset_card_mono) simp_all
  qed
  moreover have "UseConfigToken a'" using assms(2) t(1) by (simp split: if_splits)
  moreover have "untried ?w1 \<le> untried w" unfolding u using sub by (intro card_mono) simp_all
  ultimately show ?thesis using that [OF s1 f1] by simp
qed

section \<open>The loops end\<close>

text \<open>
  Every turn of a retry loop spends an attempt, moves to an untried account, or uses up the one refresh that an account is allowed.
  A turn makes one call.
\<close>

definition loop_measure :: "int \<Rightarrow> loop_state \<Rightarrow> world \<Rightarrow> nat" where
  "loop_measure m l w = nat (m - lAttempts l) + 2 * untried w + (if lRefreshed l then 0 else 1)"

definition turn_ok :: "upstream \<Rightarrow> int \<Rightarrow> loop_state \<Rightarrow> world \<Rightarrow> 'a turn option \<Rightarrow> bool" where
  "turn_ok up m l w t \<longleftrightarrow> (\<exists>res w1. t = Some (res, w1) \<and> fits up w1 \<and> length (wCalls w1) = length (wCalls w) \<and>
     (\<forall>l1. res = Inr l1 \<longrightarrow> loop_measure m l1 w1 < loop_measure m l w))"

definition same_tries :: "loop_state \<Rightarrow> loop_state \<Rightarrow> bool" where
  "same_tries l l1 \<longleftrightarrow> lAttempts l1 = lAttempts l \<and> lRefreshed l1 = lRefreshed l"

lemma turn_ok_kept:
  assumes "turn_ok up m l1 w1 t" "same_account w w1" "fits up w" "same_tries l l1" "length (wCalls w1) = length (wCalls w)"
  shows "turn_ok up m l w t"
  using assms same_account_fits [OF assms(2,3)] by (auto simp: turn_ok_def loop_measure_def same_tries_def)

lemma calls_kept [simp]:
  "wCalls (rate_limited up status rs ra ex w) = wCalls w"
  by (simp add: rate_limited_def)

lemma marked_health_calls: "marked_health up rs w = (h, w1) \<Longrightarrow> wCalls w1 = wCalls w \<and> wTick w1 = wTick w \<and> wAuth w1 = wAuth w"
  by (auto simp: marked_health_def split: prod.splits)

lemma refresh_calls: "refresh up w = (ok, w1) \<Longrightarrow> wCalls w1 = wCalls w \<and> wTick w1 = wTick w"
  by (auto simp: refresh_def split: prod.splits)

lemma turn_ok_end: "fits up w \<Longrightarrow> turn_ok up m l w (Some (Inl x, w))"
  by (simp add: turn_ok_def)

lemma turn_ok_if: "(b \<Longrightarrow> turn_ok up m l w t1) \<Longrightarrow> (\<not> b \<Longrightarrow> turn_ok up m l w t2) \<Longrightarrow> turn_ok up m l w (if b then t1 else t2)"
  by simp

lemma turn_ok_attempt:
  "fits up w \<Longrightarrow> lAttempts l < m \<Longrightarrow> same_tries l l1 \<Longrightarrow> turn_ok up m l w (Some (Inr (l1\<lparr>lAttempts := lAttempts l + 1\<rparr>), w))"
  by (auto simp: turn_ok_def loop_measure_def same_tries_def)

lemma turn_ok_switch:
  assumes "fits up w" "UseConfigToken (wAuth w)" "lAttempts l < m"
    "\<And>w1. lAttempts l \<le> lAttempts (yes w1)" "\<And>w1. fits up w1 \<Longrightarrow> turn_ok up m l w1 (Some (no w1, w1))"
  shows "turn_ok up m l w (case switch up w of None \<Rightarrow> None | Some (True, w1) \<Rightarrow> Some (Inr (yes w1), w1) | Some (False, w1) \<Rightarrow> Some (no w1, w1))"
proof -
  obtain ok w1 where s: "switch up w = Some (ok, w1)" "fits up w1" "untried w1 \<le> untried w" "wCalls w1 = wCalls w" "ok \<Longrightarrow> untried w1 < untried w"
    using switch_progress [OF assms(1,2)] by metis
  show ?thesis
  proof (cases ok)
    case True
    then have "2 * untried w1 + 2 \<le> 2 * untried w" using s(5) by simp
    then show ?thesis using s True assms(3) assms(4) [of w1] by (auto simp: turn_ok_def loop_measure_def)
  next
    case False
    then show ?thesis using s assms(5) [OF s(2)] by (auto simp: turn_ok_def loop_measure_def)
  qed
qed

lemma retry_after_failure_ok:
  assumes "fits up w" "lAttempts l < m"
  shows "turn_ok up m l w (retry_after_failure up allowSwitch status rs l w)"
proof -
  let ?next = "l\<lparr>lAttempts := lAttempts l + 1\<rparr>"
  let ?t = "\<lambda>w. if allowSwitch \<and> rateLimitScopeFromResponse (eTab (uEnv up)) status (rsCode rs) (rsBizCode rs) (rsMsg rs) (rsBizMsg rs) [] \<noteq> SessionCapacity
    then (case switch up w of
        None \<Rightarrow> None
      | Some (True, w1) \<Rightarrow> Some (Inr ((if is_rate_limited status rs then l else ?next)\<lparr>lRefreshed := False, lClients := raAccount (wAuth w1)\<rparr>), w1)
      | Some (False, w1) \<Rightarrow> Some (Inr ?next, w1))
    else Some (Inr ?next :: (client_error + string) + loop_state, w)"
  have n: "turn_ok up m l w1 (Some (Inr ?next, w1) :: (client_error + string) turn option)" if "fits up w1" for w1 :: world
    by (rule turn_ok_attempt [OF that assms(2)]) (simp add: same_tries_def)
  have t: "turn_ok up m l w1 (?t w1)" if f: "fits up w1" "UseConfigToken (wAuth w1)" for w1
  proof -
    have "turn_ok up m l w1 (case switch up w1 of
        None \<Rightarrow> None
      | Some (True, w1) \<Rightarrow> Some (Inr ((if is_rate_limited status rs then l else ?next)\<lparr>lRefreshed := False, lClients := raAccount (wAuth w1)\<rparr>), w1)
      | Some (False, w1) \<Rightarrow> Some (Inr ?next :: (client_error + string) + loop_state, w1))"
      by (rule turn_ok_switch [OF f assms(2)]) (simp_all add: n)
    then show ?thesis by (intro turn_ok_if n [OF f(1)])
  qed
  obtain ok w1 where r: "refresh up w = (ok, w1)" by fastforce
  note k = same_account_refresh [OF assms(1) r]
  have f1: "fits up w1" "untried w1 = untried w" "UseConfigToken (wAuth w1) = UseConfigToken (wAuth w)" "length (wCalls w1) = length (wCalls w)"
    using same_account_fits [OF k assms(1)] k refresh_calls [OF r] by (simp_all add: same_account_def)
  have yes: "turn_ok up m l w (Some (Inr (l\<lparr>lRefreshed := True\<rparr>), w1))" if "\<not> lRefreshed l"
    using f1 that by (simp add: turn_ok_def loop_measure_def)
  have no: "turn_ok up m l w (?t w1)" if "UseConfigToken (wAuth w)"
    using turn_ok_kept [OF t [OF f1(1)] k assms(1)] that f1 by (simp add: same_tries_def)
  show ?thesis
    unfolding retry_after_failure_def Let_def r using n [OF assms(1)] t [OF assms(1)] yes no by (cases ok) auto
qed

lemma failed_turn_ok:
  assumes "fits up w" "lAttempts l < m"
  shows "turn_ok up m l w (failed_turn up ls allowSwitch status rs l w)"
proof -
  obtain h w1 where h: "marked_health up rs w = (h, w1)" by fastforce
  note k = same_account_marked_health [OF assms(1) h]
  have f1: "fits up w1" "length (wCalls w1) = length (wCalls w)" using same_account_fits [OF k assms(1)] marked_health_calls [OF h] by simp_all
  have st: "same_tries l (note_failure up ls status rs w l)" by (simp add: same_tries_def note_failure_def)
  let ?l = "if lsNotesEarly ls then note_failure up ls status rs w l else l"
  have st': "same_tries l ?l" "lAttempts ?l < m" using st assms(2) by (simp_all add: same_tries_def)
  have nf: "note_failure up ls status rs w l = note_failure up ls status rs w (if b then note_failure up ls status rs w l else l)" if "\<not> b" for b
    using that by simp
  show ?thesis
  proof (cases h)
    case None
    have "turn_ok up m (note_failure up ls status rs w l) w1 (retry_after_failure up allowSwitch status rs (note_failure up ls status rs w l) w1)"
      using retry_after_failure_ok [OF f1(1)] st assms(2) by (simp add: same_tries_def)
    from turn_ok_kept [OF this k assms(1) st f1(2)] show ?thesis
      by (simp add: failed_turn_def h None Let_def)
  next
    case (Some e)
    have "turn_ok up m ?l w1 (failed_turn up ls allowSwitch status rs l w)"
      unfolding failed_turn_def h Some Let_def prod.case option.case
      by (intro turn_ok_if turn_ok_switch [OF f1(1) _ st'(2)] turn_ok_end f1(1)) auto
    from turn_ok_kept [OF this k assms(1) st'(1) f1(2)] show ?thesis .
  qed
qed

lemma loop_turn_ok:
  assumes "fits up w" "lAttempts l < m"
  shows "\<exists>res w1. loop_turn up ls allowSwitch l w = Some (res, w1) \<and> fits up w1 \<and> length (wCalls w1) = Suc (length (wCalls w)) \<and>
    (\<forall>l1. res = Inr l1 \<longrightarrow> loop_measure m l1 w1 < loop_measure m l w)"
proof -
  define c where "c = call_for (lClients l) w (lsURL ls) (DeepSeekToken (wAuth w)) ''''"
  let ?w = "made c w"
  have f: "fits up ?w" "untried ?w = untried w" using same_account_fits [OF same_account_made assms(1)] by simp_all
  have "turn_ok up m l ?w (loop_turn up ls allowSwitch l w)"
  proof (cases "uJson up (length (wCalls w)) c")
    case (Inl e)
    show ?thesis
      unfolding loop_turn_def json_call_def c_def [symmetric] Inl prod.case sum.case
      by (intro turn_ok_if turn_ok_end turn_ok_attempt f(1) assms(2)) (simp_all add: same_tries_def)
  next
    case (Inr sr)
    obtain status resp where sr: "sr = (status, resp)" by fastforce
    let ?rs = "extractResponseStatus resp"
    let ?l = "l\<lparr>lStatus := 0, lMessage := failureMessage (rsMsg ?rs) (rsBizMsg ?rs) (lsFallback ls)\<rparr>"
    let ?w2 = "rate_limited up status ?rs '''' [] ?w"
    note k = same_account_rate_limited [OF f(1), of status ?rs "''''" "[]"]
    have f2: "fits up ?w2" using same_account_fits [OF k f(1)] by simp

    have "turn_ok up m ?l ?w2 (loop_turn up ls allowSwitch l w)"
    proof -
      define out where "out = (if status = 200 \<and> rsCode ?rs = 0 \<and> rsBizCode ?rs = 0 then lsOnOk ls resp else Unusable)"
      have t: "loop_turn up ls allowSwitch l w = (case out of
          Ends s \<Rightarrow> Some (Inl (Inr s), ?w2)
        | Again _ \<Rightarrow> Some (Inr (?l\<lparr>lAttempts := lAttempts l + 1\<rparr>), ?w2)
        | Unusable \<Rightarrow> failed_turn up ls allowSwitch status ?rs ?l ?w2)"
        by (simp add: loop_turn_def json_call_def c_def [symmetric] Inr sr Let_def out_def)
      have l: "lAttempts ?l < m" "same_tries ?l ?l" using assms(2) by (simp_all add: same_tries_def)
      show ?thesis
        unfolding t using failed_turn_ok [OF f2 l(1)] turn_ok_end [OF f2] turn_ok_attempt [OF f2 l]
        by (cases out) simp_all
    qed
    from turn_ok_kept [OF this k f(1)] show ?thesis by (simp add: same_tries_def)
  qed
  then show ?thesis using f(2) by (auto simp: turn_ok_def made_def loop_measure_def untried_def)
qed

lemma upstream_loop_ends:
  assumes "fits up w" "loop_measure m l w < n"
  shows "\<exists>res w1. upstream_loop n up ls allowSwitch m l w = Some (res, w1) \<and> fits up w1 \<and>
    length (wCalls w1) \<le> length (wCalls w) + loop_measure m l w"
  using assms
proof (induction n arbitrary: l w)
  case (Suc n)
  show ?case
  proof (cases "lAttempts l < m")
    case True
    obtain res w1 where t: "loop_turn up ls allowSwitch l w = Some (res, w1)" "fits up w1" "length (wCalls w1) = Suc (length (wCalls w))"
      "\<And>l1. res = Inr l1 \<Longrightarrow> loop_measure m l1 w1 < loop_measure m l w"
      using loop_turn_ok [OF Suc.prems(1) True] by blast
    have pos: "0 < loop_measure m l w" using True by (simp add: loop_measure_def)
    show ?thesis
    proof (cases res)
      case (Inl x)
      then show ?thesis using t pos True by simp
    next
      case (Inr l1)
      obtain r2 w2 where "upstream_loop n up ls allowSwitch m l1 w1 = Some (r2, w2)" "fits up w2"
        "length (wCalls w2) \<le> length (wCalls w1) + loop_measure m l1 w1"
        using Suc.IH [OF t(2), of l1] t(4) [OF Inr] Suc.prems(2) by auto
      then show ?thesis using t(1,3) t(4) [OF Inr] True Inr by auto
    qed
  qed (use Suc.prems in auto)
qed simp

text \<open>A result is what the last call was answered with, and that call carried the token of the account the request ends up with.\<close>

definition answered :: "upstream \<Rightarrow> loop_spec \<Rightarrow> string \<Rightarrow> world \<Rightarrow> bool" where
  "answered up ls s w \<longleftrightarrow> (\<exists>cs c resp. wCalls w = cs @ [c] \<and> callTo c = lsURL ls \<and> callAccount c = AccountID (wAuth w) \<and>
     callToken c = DeepSeekToken (wAuth w) \<and> uJson up (length cs) c = Inr (200, resp) \<and> lsOnOk ls resp = Ends s)"

lemma ended_turns:
  "retry_after_failure up allowSwitch status rs l w = Some (Inl x, w1) \<Longrightarrow> False"
  "failed_turn up ls allowSwitch status rs l w = Some (Inl x, w1) \<Longrightarrow> \<exists>e. x = Inl e"
proof -
  show r: False if "retry_after_failure up allowSwitch status rs l w = Some (Inl x, w1)" for l w w1 and x :: "client_error + string"
    using that by (auto simp: retry_after_failure_def Let_def split: if_splits option.splits prod.splits bool.splits)
  show "failed_turn up ls allowSwitch status rs l w = Some (Inl x, w1) \<Longrightarrow> \<exists>e. x = Inl e"
    by (auto simp: failed_turn_def Let_def split: if_splits option.splits prod.splits bool.splits dest: r)
qed

lemma loop_turn_answer:
  assumes "loop_turn up ls allowSwitch l w = Some (Inl (Inr s), w1)"
  shows "answered up ls s w1"
proof -
  define c where "c = call_for (lClients l) w (lsURL ls) (DeepSeekToken (wAuth w)) ''''"
  obtain status resp where j: "uJson up (length (wCalls w)) c = Inr (status, resp)"
    using assms by (cases "uJson up (length (wCalls w)) c") (auto simp: loop_turn_def json_call_def c_def [symmetric] split: if_splits)
  let ?rs = "extractResponseStatus resp"
  let ?w2 = "rate_limited up status ?rs '''' [] (made c w)"
  define out where "out = (if status = 200 \<and> rsCode ?rs = 0 \<and> rsBizCode ?rs = 0 then lsOnOk ls resp else Unusable)"
  have "out = Ends s \<and> w1 = ?w2"
    using assms by (cases out) (auto simp: loop_turn_def json_call_def c_def [symmetric] j Let_def out_def [symmetric] dest: ended_turns(2))
  then have "status = 200" "lsOnOk ls resp = Ends s" "w1 = ?w2" by (auto simp: out_def split: if_splits)
  then show ?thesis using j
    by (auto simp: answered_def c_def call_for_def made_def rate_limited_def)
qed

lemma upstream_loop_answer:
  "upstream_loop n up ls allowSwitch m l w = Some (Inr s, w1) \<Longrightarrow> answered up ls s w1"
  by (induction n arbitrary: l w) (auto split: if_splits option.splits prod.splits sum.splits dest: loop_turn_answer)

subsection \<open>The completion\<close>

definition completion_measure :: "int \<Rightarrow> completion_state \<Rightarrow> world \<Rightarrow> nat" where
  "completion_measure m s w = nat (m - cAttempts s) + untried w + (if cRefreshed s then 0 else 1)"

definition step_ok :: "upstream \<Rightarrow> int \<Rightarrow> completion_state \<Rightarrow> world \<Rightarrow> (completion_step \<times> world) option \<Rightarrow> bool" where
  "step_ok up m s w t \<longleftrightarrow> (\<exists>res w1. t = Some (res, w1) \<and> fits up w1 \<and> length (wCalls w1) \<le> length (wCalls w) + 2 \<and>
     (\<forall>s1. res = GoesOn s1 \<longrightarrow> cAttempts s1 < m \<and> completion_measure m s1 w1 < completion_measure m s w))"

lemma single_call_kept:
  assumes "fits up w" "single_call up ls w = (r, w1)"
  shows "same_account w w1" "length (wCalls w1) = Suc (length (wCalls w))" "wAuth w1 = wAuth w"
proof -
  define c where "c = call_for (raAccount (wAuth w)) w (lsURL ls) (DeepSeekToken (wAuth w)) ''''"
  let ?w = "made c w"
  have f: "fits up ?w" using same_account_fits [OF same_account_made assms(1)] by simp
  have rl: "same_account w (rate_limited up status rs ra ex ?w)" "fits up (rate_limited up status rs ra ex ?w)" for status rs ra ex
    using same_account_trans [OF same_account_made same_account_rate_limited [OF f]] same_account_fits [OF same_account_rate_limited [OF f] f] by blast+
  have mh: "same_account w w2 \<and> length (wCalls w2) = Suc (length (wCalls w)) \<and> wAuth w2 = wAuth w"
    if "marked_health up rs (rate_limited up status rs ra ex ?w) = (h, w2)" for status rs ra ex h w2
    using same_account_trans [OF rl(1) same_account_marked_health [OF rl(2) that]] marked_health_calls [OF that] by (simp add: made_def rate_limited_def)
  have base: "length (wCalls ?w) = Suc (length (wCalls w))" "wAuth ?w = wAuth w" "wAuth (rate_limited up status rs ra ex ?w) = wAuth w" for status rs ra ex
    by (simp_all add: made_def rate_limited_def)
  have "same_account w w1 \<and> length (wCalls w1) = Suc (length (wCalls w)) \<and> wAuth w1 = wAuth w"
    using assms(2) rl(1) base
    by (auto simp: single_call_def json_call_def c_def [symmetric] Let_def split: sum.splits prod.splits ok_outcome.splits option.splits dest!: mh)
  then show "same_account w w1" "length (wCalls w1) = Suc (length (wCalls w))" "wAuth w1 = wAuth w" by simp_all
qed

lemma switchCompletionAccount_ok:
  assumes "fits up w"
  shows "\<exists>r w1. switchCompletionAccount up s w = Some (r, w1) \<and> fits up w1 \<and> untried w1 \<le> untried w \<and>
    length (wCalls w1) \<le> length (wCalls w) + 2 \<and> (r = NoCandidate \<longrightarrow> length (wCalls w1) = length (wCalls w)) \<and>
    (\<forall>s1. r = Switched s1 \<longrightarrow> untried w1 < untried w \<and> cAttempts s1 = cAttempts s \<and> cRefreshed s1 = cRefreshed s)"
proof (cases "\<not> UseConfigToken (wAuth w) \<or> \<not> hasCompletionSwitchCandidate w")
  case True
  then show ?thesis using assms by (simp add: switchCompletionAccount_def)
next
  case False
  then obtain ok w1 where sw: "switch up w = Some (ok, w1)" "fits up w1" "untried w1 \<le> untried w" "wCalls w1 = wCalls w" "ok \<Longrightarrow> untried w1 < untried w"
    using switch_progress [OF assms] by metis
  show ?thesis
  proof (cases ok)
    case no: False
    then show ?thesis using False sw by (auto simp: switchCompletionAccount_def split: option.splits)
  next
    case True
    obtain r2 w2 where c: "single_call up session_spec w1 = (r2, w2)" by fastforce
    note k2 = single_call_kept [OF sw(2) c]
    have f2: "fits up w2" "untried w2 = untried w1" using same_account_fits [OF k2(1) sw(2)] by simp_all
    obtain r3 w3 where p: "single_call up (pow_spec up DeepSeekCompletionTargetPath) w2 = (r3, w3)" by fastforce
    note k3 = single_call_kept [OF f2(1) p]
    have f3: "fits up w3" "untried w3 = untried w1" using same_account_fits [OF k3(1) f2(1)] f2(2) by simp_all
    show ?thesis
      using False sw True f2 f3 k2(2) k3(2)
      by (cases r2; cases r3) (auto simp: switchCompletionAccount_def createCompletionRetrySession_def getCompletionRetryPow_def c p)
  qed
qed

lemma step_ok_le:
  assumes "step_ok up m s w1 t" "untried w1 \<le> untried w" "length (wCalls w1) = length (wCalls w)"
  shows "step_ok up m s w t"
  using assms by (fastforce simp: step_ok_def completion_measure_def)

lemma step_ok_kept:
  assumes "step_ok up m s w1 t" "same_account w w1" "fits up w" "length (wCalls w1) = length (wCalls w)"
  shows "step_ok up m s w t"
  using step_ok_le [OF assms(1) _ assms(4)] same_account_fits [OF assms(2,3)] by simp

lemma step_ok_end: "fits up w \<Longrightarrow> step_ok up m s w (Some (GivesUp e, w))"
  by (simp add: step_ok_def)

lemma step_ok_if: "(b \<Longrightarrow> step_ok up m s w t1) \<Longrightarrow> (\<not> b \<Longrightarrow> step_ok up m s w t2) \<Longrightarrow> step_ok up m s w (if b then t1 else t2)"
  by simp

lemma step_ok_switch_or:
  assumes "fits up w" "cAttempts s \<le> cAttempts s0" "cAttempts s0 < m" "cRefreshed s0 = cRefreshed s"
    and oth: "\<And>w1. fits up w1 \<Longrightarrow> untried w1 \<le> untried w \<Longrightarrow> step_ok up m s w1 (otherwise w1)"
  shows "step_ok up m s w (switch_or up allowSwitch s0 otherwise w)"
proof -
  obtain r w1 where r: "switchCompletionAccount up s0 w = Some (r, w1)" "fits up w1" "untried w1 \<le> untried w"
    "length (wCalls w1) \<le> length (wCalls w) + 2" "r = NoCandidate \<Longrightarrow> length (wCalls w1) = length (wCalls w)"
    "\<And>s1. r = Switched s1 \<Longrightarrow> untried w1 < untried w \<and> cAttempts s1 = cAttempts s0 \<and> cRefreshed s1 = cRefreshed s0"
    using switchCompletionAccount_ok [OF assms(1), of s0] by blast
  have no: "step_ok up m s w (otherwise w1)" if "r = NoCandidate"
    by (rule step_ok_le [OF oth [OF r(2,3)] r(3) r(5) [OF that]])
  have yes: "step_ok up m s w (Some (GoesOn s1, w1))" if "r = Switched s1" for s1
    using r(2,4) r(6) [OF that] assms(2-4) by (auto simp: step_ok_def completion_measure_def)
  have fail: "step_ok up m s w (Some (GivesUp e, w1))" for e using r(2,4) by (simp add: step_ok_def)
  show ?thesis
    unfolding switch_or_def r(1) using oth [OF assms(1)] no yes fail by (cases r) simp_all
qed

lemma step_ok_sleep:
  assumes "fits up w" "cAttempts s0 < m" "cAttempts s < cAttempts s0" "cRefreshed s0 = cRefreshed s"
  shows "step_ok up m s w (Some (sleep_retry up s0 w))" "step_ok up m s w (Some (GoesOn s0, w))"
proof -
  have f: "fits up (w\<lparr>wTick := Suc (wTick w)\<rparr>)" "untried (w\<lparr>wTick := Suc (wTick w)\<rparr>) = untried w"
    using same_account_fits [OF same_account_tick assms(1)] by simp_all
  have on: "step_ok up m s w (Some (GoesOn s0, w1))" if "fits up w1" "untried w1 = untried w" "wCalls w1 = wCalls w" for w1
    using that assms(2-4) by (auto simp: step_ok_def completion_measure_def)
  show "step_ok up m s w (Some (GoesOn s0, w))" by (rule on [OF assms(1) refl refl])
  show "step_ok up m s w (Some (sleep_retry up s0 w))"
    using f on [OF f] by (auto simp: sleep_retry_def Let_def step_ok_def split: option.splits)
qed

lemma step_ok_counted:
  assumes "fits up w" and "cAttempts s < m"
    and "\<And>s1 w1. s1 = s\<lparr>cAttempts := cAttempts s + 1\<rparr> \<Longrightarrow> cAttempts s1 < m \<Longrightarrow> step_ok up m s w (k s1 w)"
  shows "step_ok up m s w (counted m e k s w)"
  unfolding counted_def Let_def using step_ok_end [OF assms(1)] assms(3) by simp

lemma completion_transport_ok:
  assumes "fits up w" "cAttempts s < m"
  shows "step_ok up m s w (completion_transport up m allowSwitch sleeps e s w)"
  unfolding completion_transport_def
  by (intro step_ok_if step_ok_end assms step_ok_counted step_ok_switch_or) (auto intro: step_ok_sleep)

lemma completion_health_ok:
  assumes "fits up w" "cAttempts s < m"
  shows "step_ok up m s w (completion_health up allowSwitch e s w)"
  unfolding completion_health_def
  by (intro step_ok_if step_ok_end assms step_ok_switch_or) (auto intro: step_ok_end)

lemma completion_status_ok:
  assumes "fits up w" "cAttempts s < m"
  shows "step_ok up m s w (completion_status up m allowSwitch powResp status e s w)"
proof -
  let ?ordinary = "counted m e (\<lambda>s1. switch_or up (allowSwitch \<and> \<not> IsSessionCapacityRateLimit e) s1 (\<lambda>w1. Some (sleep_retry up s1 w1)))"
  let ?over = "\<lambda>w. if allowSwitch \<and> \<not> IsSessionCapacityRateLimit e \<and> status = 429 \<and> UseConfigToken (wAuth w) \<and> hasCompletionSwitchCandidate w
    then switch_or up True s (?ordinary s) w else ?ordinary s w"
  have o: "step_ok up m s w1 (?ordinary s w1)" if "fits up w1" for w1
    by (intro step_ok_counted step_ok_switch_or that assms(2)) (auto intro: step_ok_sleep)
  have v: "step_ok up m s w1 (?over w1)" if "fits up w1" for w1
    by (intro step_ok_if step_ok_switch_or o that assms(2)) auto
  obtain ok w1 where r: "refresh up w = (ok, w1)" by fastforce
  note k = same_account_refresh [OF assms(1) r]
  have f1: "fits up w1" "untried w1 = untried w" "length (wCalls w1) = length (wCalls w)"
    using same_account_fits [OF k assms(1)] refresh_calls [OF r] by simp_all
  have yes: "step_ok up m s w (Some (GoesOn (s\<lparr>cRefreshed := True, cClients := raAccount (wAuth w1), cToken := DeepSeekToken (wAuth w1), cPow := powResp\<rparr>), w1))"
    if "\<not> cRefreshed s"
    using f1 that assms(2) by (simp add: step_ok_def completion_measure_def)
  have no: "step_ok up m s w (?over w1)" by (rule step_ok_kept [OF v [OF f1(1)] k assms(1) f1(3)])
  show ?thesis
    unfolding completion_status_def Let_def r
    using completion_health_ok [OF assms] v [OF assms(1)] yes no by (cases e; cases ok) simp_all
qed

lemma completionStatusFailure_kept:
  assumes "fits up w" "completionStatusFailure up status b ra w = (e, w1)"
  shows "same_account w w1" "wCalls w1 = wCalls w" "wAuth w1 = wAuth w"
proof -
  have mh: "fits up w2 \<and> same_account w w2 \<and> wCalls w2 = wCalls w \<and> wAuth w2 = wAuth w" if "(if p then (None, w) else marked_health up rs w) = (h, w2)" for p rs h w2
    using that assms(1) same_account_marked_health [OF assms(1)] same_account_fits [OF _ assms(1)] marked_health_calls by (auto split: if_splits)
  have rl: "same_account w (rate_limited up status rs ra ex w2) \<and> wCalls (rate_limited up status rs ra ex w2) = wCalls w \<and> wAuth (rate_limited up status rs ra ex w2) = wAuth w"
    if "fits up w2" "same_account w w2" "wCalls w2 = wCalls w" "wAuth w2 = wAuth w" for rs ex w2
    using same_account_trans [OF that(2) same_account_rate_limited [OF that(1)]] that(3,4) by (simp add: rate_limited_def)
  define bytes where "bytes = take completionFailureBodyLimit (fst b)"
  define rs where "rs = (case failure_body up bytes of Some rs \<Rightarrow> rs | None \<Rightarrow> no_status)"
  obtain h w2 where h: "(if failure_body up bytes = None then (None, w) else marked_health up rs w) = (h, w2)" by fastforce
  have "same_account w w1 \<and> wCalls w1 = wCalls w \<and> wAuth w1 = wAuth w"
  proof (cases "if length (fst b) \<le> completionFailureBodyLimit then snd b else None")
    case None
    show ?thesis
      using assms(2) mh [OF h] rl [of w2]
      unfolding completionStatusFailure_def None option.case Let_def bytes_def [symmetric] rs_def [symmetric] h
      by (cases h) auto
  next
    case (Some x)
    then show ?thesis using assms(2) by (simp add: completionStatusFailure_def)
  qed
  then show "same_account w w1" "wCalls w1 = wCalls w" "wAuth w1 = wAuth w" by simp_all
qed

lemma inspectPrelude_kept:
  assumes "fits up w" "inspectCompletionSSEPrelude up b w = (r, w1)"
  shows "same_account w w1" "wCalls w1 = wCalls w" "wAuth w1 = wAuth w"
  using assms same_account_recorded [OF assms(1)]
  by (auto simp: inspectCompletionSSEPrelude_def split: prod.splits option.splits if_splits)

lemma completion_turn_ok:
  assumes "fits up w" "cAttempts s < m"
  shows "\<exists>res w1. completion_turn up m allowSwitch powResp s w = Some (res, w1) \<and> fits up w1 \<and> length (wCalls w1) \<le> length (wCalls w) + 3 \<and>
    (\<forall>s1. res = GoesOn s1 \<longrightarrow> cAttempts s1 < m \<and> completion_measure m s1 w1 < completion_measure m s w)"
proof -
  define c where "c = (call_for (cClients s) w CompletionURL (cToken s) (cPow s))\<lparr>callSession := cSession s\<rparr>"
  let ?w = "made c w"
  have f: "fits up ?w" "untried ?w = untried w" using same_account_fits [OF same_account_made assms(1)] by simp_all
  have "step_ok up m s ?w (completion_turn up m allowSwitch powResp s w)"
  proof (cases "uStream up (length (wCalls w)) c")
    case (StreamError x)
    then show ?thesis using completion_transport_ok [OF f(1) assms(2)] by (simp add: completion_turn_def stream_call_def c_def [symmetric])
  next
    case (StreamReply status b ra)
    show ?thesis
    proof (cases "status = 200")
      case True
      obtain h e w2 where i: "inspectCompletionSSEPrelude up b ?w = ((h, e), w2)" by (metis surj_pair)
      note k = inspectPrelude_kept [OF f(1) i]
      have f2: "fits up w2" using same_account_fits [OF k(1) f(1)] by simp
      have "step_ok up m s w2 (Some (Delivered (cSession s) b, w2))" using f2 by (simp add: step_ok_def)
      then have "step_ok up m s w2 (completion_turn up m allowSwitch powResp s w)"
        using completion_transport_ok [OF f2 assms(2)] completion_health_ok [OF f2 assms(2)]
        by (cases e; cases h) (simp_all add: completion_turn_def stream_call_def c_def [symmetric] StreamReply True i)
      from step_ok_kept [OF this k(1) f(1)] k(2) show ?thesis by simp
    next
      case False
      obtain e w2 where i: "completionStatusFailure up status b ra ?w = (e, w2)" by fastforce
      note k = completionStatusFailure_kept [OF f(1) i]
      have f2: "fits up w2" using same_account_fits [OF k(1) f(1)] by simp
      have "step_ok up m s w2 (completion_turn up m allowSwitch powResp s w)"
        using completion_status_ok [OF f2 assms(2)] by (simp add: completion_turn_def stream_call_def c_def [symmetric] StreamReply False i)
      from step_ok_kept [OF this k(1) f(1)] k(2) show ?thesis by simp
    qed
  qed
  then show ?thesis using f(2) by (fastforce simp: step_ok_def made_def completion_measure_def untried_def)
qed

lemma completion_loop_ends:
  assumes "fits up w" "cAttempts s < m" "completion_measure m s w < n"
  shows "\<exists>res w1. completion_loop n up m allowSwitch powResp s w = Some (res, w1) \<and> fits up w1 \<and>
    length (wCalls w1) \<le> length (wCalls w) + 3 * completion_measure m s w"
  using assms
proof (induction n arbitrary: s w)
  case (Suc n)
  obtain res w1 where t: "completion_turn up m allowSwitch powResp s w = Some (res, w1)" "fits up w1" "length (wCalls w1) \<le> length (wCalls w) + 3"
    "\<And>s1. res = GoesOn s1 \<Longrightarrow> cAttempts s1 < m \<and> completion_measure m s1 w1 < completion_measure m s w"
    using completion_turn_ok [OF Suc.prems(1,2)] by blast
  have pos: "0 < completion_measure m s w" using Suc.prems(2) by (simp add: completion_measure_def)
  show ?case
  proof (cases res)
    case (GoesOn s1)
    obtain r2 w2 where "completion_loop n up m allowSwitch powResp s1 w1 = Some (r2, w2)" "fits up w2"
      "length (wCalls w2) \<le> length (wCalls w1) + 3 * completion_measure m s1 w1"
      using Suc.IH [OF t(2), of s1] t(4) [OF GoesOn] Suc.prems(3) by auto
    then show ?thesis using t(1,3) t(4) [OF GoesOn] GoesOn by auto
  qed (use t pos in auto)
qed simp

section \<open>Properties\<close>

text \<open>A concrete upstream: it creates session \<^verbatim>\<open>s1\<close>, accepts every challenge and answers a completion with an empty stream.\<close>

definition session_reply :: json_object where
  "session_reply = [(''data'', JObj [(''biz_data'', JObj [(''id'', JStr ''s1'')])])]"

definition calm_upstream :: upstream where
  "calm_upstream = \<lparr>uEnv = solo_env, uHealth = \<lparr>hDecode = (\<lambda>_. None), hLow = id, hFloat = (\<lambda>_. 0)\<rparr>, uParse = (\<lambda>_. None),
     uJson = (\<lambda>_ _. Inr (200, session_reply)), uStream = (\<lambda>_ _. StreamReply 200 ([], None) ''''), uCtx = (\<lambda>_. Live),
     uPow = (\<lambda>_. Inr ''p1''), uStatusText = (\<lambda>_. ''''), uSwitchFuel = 2\<rparr>"

definition solo_world :: world where
  "solo_world = \<lparr>wRes = solo_held, wAuth = solo_auth, wCalls = [], wTick = 0\<rparr>"

lemma solo_held_idents: "idents (rstore solo_held) = {''a@b.c''}"
  by (auto simp: idents_def solo_held_def solo_state_def solo_store_facts solo_ident)

lemma solo_world_fits: "fits calm_upstream solo_world" "untried solo_world = 0"
proof -
  have "resolver_ok solo_held"
    by (auto simp: resolver_ok_def solo_held_def solo_state_def solo_store_index slots_def idents_def solo_store_facts
        solo_ident gm_wf_def gm_count_def split: option.splits if_splits)
  then show "fits calm_upstream solo_world"
    using solo_storage by (simp add: fits_def solo_world_def calm_upstream_def solo_held_idents)
  show "untried solo_world = 0" by (simp add: untried_def solo_world_def solo_held_idents solo_auth_def)
qed

text \<open>Creating a session ends, with a bounded number of upstream calls: one for each attempt, two for each account not yet
  tried and one for a refreshed token. A session it returns is the answer to its last call, and that call carried the token of the
  account the request now has.\<close>

theorem create_session_ends:
  assumes "fits up w" "m = (if maxAttempts \<le> 0 then maxRetries else maxAttempts)" "nat m + 2 * untried w + 1 < n"
  shows "\<exists>res w1. createSession n up maxAttempts allowSwitch w = Some (res, w1) \<and>
    length (wCalls w1) \<le> length (wCalls w) + nat m + 2 * untried w + 1 \<and> fits up w1 \<and>
    (case res of Inl e \<Rightarrow> True | Inr sid \<Rightarrow> answered up session_spec sid w1)"
proof -
  have "loop_measure m (loop_start w) w = nat m + 2 * untried w + 1" by (simp add: loop_measure_def loop_start_def)
  then obtain res w1 where r: "upstream_loop n up session_spec allowSwitch m (loop_start w) w = Some (res, w1)" "fits up w1"
    "length (wCalls w1) \<le> length (wCalls w) + nat m + 2 * untried w + 1"
    using upstream_loop_ends [OF assms(1), of m "loop_start w" n session_spec allowSwitch] assms(3) by auto
  show ?thesis
    using r upstream_loop_answer [of n up session_spec allowSwitch m "loop_start w" w _ w1] assms(2)
    by (cases res) (auto simp: createSession_def)
qed

theorem create_session_ends_witness:
  "\<exists>res w1. createSession 9 calm_upstream 0 True solo_world = Some (res, w1) \<and> length (wCalls w1) \<le> 4"
  using create_session_ends [OF solo_world_fits(1) refl, of 0 9 True]
  by (auto simp: solo_world_fits(2) maxRetries_def) (simp add: solo_world_def)

text \<open>A completion ends as well, with at most three calls for each attempt, each account not yet tried and a refreshed token,
  whatever the upstream answers; logins are not counted, and a wait for a free slot that nothing ends is not part of the model
  (see \<open>switch_loop\<close>).\<close>

theorem completion_ends:
  assumes "fits up w" "m = (if maxAttempts \<le> 0 then maxRetries else maxAttempts)" "nat m + untried w + 1 < n"
  shows "\<exists>res w1. callCompletion n up sid powResp maxAttempts allowSwitch w = Some (res, w1) \<and> fits up w1 \<and>
    length (wCalls w1) \<le> length (wCalls w) + 3 * (nat m + untried w + 1)"
proof -
  let ?s = "\<lparr>cAttempts = 0, cRefreshed = False, cClients = raAccount (wAuth w), cToken = DeepSeekToken (wAuth w), cPow = powResp, cSession = sid\<rparr>"
  have "cAttempts ?s < m" using assms(2) by (simp add: maxRetries_def)
  moreover have "completion_measure m ?s w = nat m + untried w + 1" by (simp add: completion_measure_def)
  ultimately obtain res w1 where "completion_loop n up m allowSwitch powResp ?s w = Some (res, w1)" "fits up w1"
    "length (wCalls w1) \<le> length (wCalls w) + 3 * (nat m + untried w + 1)"
    using completion_loop_ends [OF assms(1), of ?s m n allowSwitch powResp] assms(3) by auto
  then show ?thesis
    using assms by (cases "requestContextFailure ''completion'' (uCtx up (wTick w)) None") (auto simp: callCompletion_def)
qed

theorem completion_ends_witness:
  "\<exists>res w1. callCompletion 9 calm_upstream ''s1'' ''p1'' 0 True solo_world = Some (res, w1) \<and> length (wCalls w1) \<le> 12"
  using completion_ends [OF solo_world_fits(1) refl, of 0 9 "''s1''" "''p1''" True]
  by (auto simp: solo_world_fits(2) maxRetries_def) (simp add: solo_world_def)

end
