(* ===== verification/Upstream_Accounts.thy ===== *)
theory Upstream_Accounts
  imports Upstream_Calls
begin

text \<open>
  Which account the calls of \<^verbatim>\<open>Upstream_Calls\<close> are made for. Pinned calls stay on the account of the request; a completion that fails over
  brings its own session along and sends it with the token of the account that created it, provided that no login fails during the fail-over. What happens otherwise is at the end of the theory.
\<close>

section \<open>Which account a call is made for\<close>

text \<open>The calls a step adds to the log, and what holds of each of them.\<close>

definition adds :: "(call \<Rightarrow> bool) \<Rightarrow> world \<Rightarrow> world \<Rightarrow> bool" where
  "adds P w w1 \<longleftrightarrow> (\<exists>cs. wCalls w1 = wCalls w @ cs \<and> (\<forall>c \<in> set cs. P c))"

lemma adds_refl: "wCalls w1 = wCalls w \<Longrightarrow> adds P w w1"
  by (simp add: adds_def)

lemma adds_trans: "adds P w w1 \<Longrightarrow> adds P w1 w2 \<Longrightarrow> adds P w w2"
  by (fastforce simp: adds_def)

lemma adds_made: "P c \<Longrightarrow> wCalls w1 = wCalls (made c w) \<Longrightarrow> adds P w w1"
  by (auto simp: adds_def made_def)

definition pinned :: "(call \<Rightarrow> bool) \<Rightarrow> upstream \<Rightarrow> world \<Rightarrow> world \<Rightarrow> bool" where
  "pinned P up w w1 \<longleftrightarrow> fits up w1 \<and> same_account w w1 \<and> adds (\<lambda>c. P c \<and> callAccount c = AccountID (wAuth w)) w w1"

lemma pinned_trans: "pinned P up w w1 \<Longrightarrow> pinned P up w1 w2 \<Longrightarrow> pinned P up w w2"
  unfolding pinned_def using same_account_trans [of w w1 w2] adds_trans [of "\<lambda>c. P c \<and> callAccount c = AccountID (wAuth w)" w w1 w2]
  by (auto simp: same_account_def)

lemma pinned_silent: "fits up w \<Longrightarrow> same_account w w1 \<Longrightarrow> wCalls w1 = wCalls w \<Longrightarrow> pinned P up w w1"
  using same_account_fits [of w w1 up] by (simp add: pinned_def adds_refl)

lemma pinned_made: "fits up w \<Longrightarrow> P c \<Longrightarrow> callAccount c = AccountID (wAuth w) \<Longrightarrow> pinned P up w (made c w)"
  using same_account_fits [OF same_account_made, of up w c] by (simp add: pinned_def adds_made)

lemma retry_pinned:
  assumes "fits up w" "retry_after_failure up False status rs l w = Some (res, w1)"
  shows "same_account w w1 \<and> wCalls w1 = wCalls w"
  using assms(2)
  by (auto simp: retry_after_failure_def Let_def split: if_splits prod.splits bool.splits
      dest: same_account_refresh [OF assms(1)] refresh_calls)

lemma loop_turn_pinned:
  assumes "fits up w" "loop_turn up ls False l w = Some (res, w1)"
  shows "pinned (\<lambda>c. callTo c = lsURL ls) up w w1"
proof -
  define c where "c = call_for (lClients l) w (lsURL ls) (DeepSeekToken (wAuth w)) ''''"
  let ?P = "\<lambda>c. callTo c = lsURL ls"
  have p1: "pinned ?P up w (made c w)" by (rule pinned_made [OF assms(1)]) (simp_all add: c_def call_for_def)
  have f1: "fits up (made c w)" using p1 by (simp add: pinned_def)
  have p2: "pinned ?P up w (rate_limited up st rs ra ex (made c w))" "fits up (rate_limited up st rs ra ex (made c w))" for st rs ra ex
    using pinned_trans [OF p1 pinned_silent [OF f1 same_account_rate_limited [OF f1]]] same_account_fits [OF same_account_rate_limited [OF f1] f1]
    by auto
  have p3: "pinned ?P up w w3" if "failed_turn up ls False st rs l2 w2 = Some (r, w3)" "pinned ?P up w w2" for st rs l2 r w2 w3
  proof -
    have f2: "fits up w2" using that(2) by (simp add: pinned_def)
    obtain h w4 where h: "marked_health up rs w2 = (h, w4)" by fastforce
    note k = same_account_marked_health [OF f2 h]
    have p4: "pinned ?P up w w4" using pinned_trans [OF that(2) pinned_silent [OF f2 k]] marked_health_calls [OF h] by simp
    have f4: "fits up w4" using p4 by (simp add: pinned_def)
    show ?thesis
      using that(1) p4 retry_pinned [OF f4] pinned_trans [OF p4 pinned_silent [OF f4]]
      by (auto simp: failed_turn_def h Let_def split: option.splits if_splits)
  qed
  show ?thesis
    using assms(2) p1 p2(1) p3 [OF _ p2(1)]
    by (auto simp: loop_turn_def json_call_def c_def [symmetric] Let_def split: sum.splits prod.splits if_splits ok_outcome.splits)
qed

lemma upstream_loop_pinned:
  "fits up w \<Longrightarrow> upstream_loop n up ls False m l w = Some (res, w1) \<Longrightarrow> pinned (\<lambda>c. callTo c = lsURL ls) up w w1"
proof (induction n arbitrary: l w)
  case (Suc n)
  then show ?case
  proof (cases "lAttempts l < m")
    case True
    then obtain r w2 where t: "loop_turn up ls False l w = Some (r, w2)" using Suc.prems by (auto split: option.splits)
    note p = loop_turn_pinned [OF Suc.prems(1) t]
    show ?thesis using Suc.prems(2) True t p Suc.IH [of w2] pinned_trans [OF p] by (auto simp: pinned_def split: sum.splits)
  qed (auto simp: pinned_silent)
qed simp

subsection \<open>Pinned calls\<close>

lemma silent_step_pinned:
  assumes "fits up w"
  shows "completion_transport up m False sl e s w = Some (r, w1) \<Longrightarrow>
      pinned P up w w1 \<and> wAuth w1 = wAuth w \<and> (\<forall>s1. r = GoesOn s1 \<longrightarrow> cPow s1 = cPow s \<and> cSession s1 = cSession s) \<and> (\<forall>x b. r \<noteq> Delivered x b)"
    "completion_health up False he s w = Some (r, w1) \<Longrightarrow> pinned P up w w1 \<and> (\<exists>x. r = GivesUp x)"
    "completion_status up m False powResp status e s w = Some (r, w1) \<Longrightarrow>
      pinned P up w w1 \<and> (\<forall>s1. r = GoesOn s1 \<longrightarrow> cPow s1 \<in> {powResp, cPow s} \<and> cSession s1 = cSession s) \<and> (\<forall>x b. r \<noteq> Delivered x b)"
proof -
  have sleep: "pinned P up w1 w2 \<and> wAuth w2 = wAuth w1 \<and> (\<forall>s1. r = GoesOn s1 \<longrightarrow> s1 = s0) \<and> (\<forall>x b. r \<noteq> Delivered x b)"
    if "fits up w1" "sleep_retry up s0 w1 = (r, w2)" for w1 w2 r s0
    using that by (auto simp: sleep_retry_def Let_def intro!: pinned_silent split: option.splits)
  have self: "pinned P up w1 w1" if "fits up w1" for w1 by (rule pinned_silent [OF that]) simp_all
  show "completion_transport up m False sl e s w = Some (r, w1) \<Longrightarrow>
      pinned P up w w1 \<and> wAuth w1 = wAuth w \<and> (\<forall>s1. r = GoesOn s1 \<longrightarrow> cPow s1 = cPow s \<and> cSession s1 = cSession s) \<and> (\<forall>x b. r \<noteq> Delivered x b)"
    using self [OF assms]
    by (auto simp: completion_transport_def counted_def switch_or_def Let_def split: if_splits dest!: sleep [OF assms])
  show h: "completion_health up False he s w = Some (r, w1) \<Longrightarrow> pinned P up w w1 \<and> (\<exists>x. r = GivesUp x)" for he r w1
    using self [OF assms] by (auto simp: completion_health_def)
  obtain ok w2 where rf: "refresh up w = (ok, w2)" by fastforce
  have p2: "pinned P up w w2" using pinned_silent [OF assms same_account_refresh [OF assms rf]] refresh_calls [OF rf] by simp
  have f2: "fits up w2" using p2 by (simp add: pinned_def)
  have ord: "pinned P up v w1 \<and> (\<forall>s1. r = GoesOn s1 \<longrightarrow> cPow s1 = cPow s \<and> cSession s1 = cSession s) \<and> (\<forall>x b. r \<noteq> Delivered x b)"
    if "counted m e (\<lambda>s1. switch_or up False s1 (\<lambda>w1. Some (sleep_retry up s1 w1))) s v = Some (r, w1)" "fits up v" for v
    using that self [OF that(2)] by (auto simp: counted_def switch_or_def Let_def split: if_splits dest!: sleep [OF that(2)])
  show "completion_status up m False powResp status e s w = Some (r, w1) \<Longrightarrow>
      pinned P up w w1 \<and> (\<forall>s1. r = GoesOn s1 \<longrightarrow> cPow s1 \<in> {powResp, cPow s} \<and> cSession s1 = cSession s) \<and> (\<forall>x b. r \<noteq> Delivered x b)"
    using ord [OF _ assms] ord [OF _ f2] p2 pinned_trans [OF p2]
    by (cases e; cases ok) (auto simp: completion_status_def rf Let_def split: if_splits dest!: h)
qed

lemma completion_turn_pinned:
  assumes "fits up w" "completion_turn up m False powResp s w = Some (res, w1)" "cPow s = powResp"
  shows "pinned (\<lambda>c. callTo c = CompletionURL \<and> callSession c = cSession s \<and> callPow c = powResp) up w w1 \<and>
    (\<forall>s1. res = GoesOn s1 \<longrightarrow> cPow s1 = powResp \<and> cSession s1 = cSession s) \<and> (\<forall>x b. res = Delivered x b \<longrightarrow> x = cSession s)"
proof -
  define c where "c = (call_for (cClients s) w CompletionURL (cToken s) (cPow s))\<lparr>callSession := cSession s\<rparr>"
  let ?P = "\<lambda>c. callTo c = CompletionURL \<and> callSession c = cSession s \<and> callPow c = powResp"
  have p1: "pinned ?P up w (made c w)" by (rule pinned_made [OF assms(1)]) (simp_all add: c_def call_for_def assms(3))
  have f1: "fits up (made c w)" using p1 by (simp add: pinned_def)
  show ?thesis
  proof (cases "uStream up (length (wCalls w)) c")
    case (StreamError x)
    then show ?thesis
      using assms(2,3) silent_step_pinned(1) [OF f1, where P = ?P] pinned_trans [OF p1]
      by (fastforce simp: completion_turn_def stream_call_def c_def [symmetric])
  next
    case (StreamReply status b ra)
    show ?thesis
    proof (cases "status = 200")
      case True
      obtain h e w2 where i: "inspectCompletionSSEPrelude up b (made c w) = ((h, e), w2)" by (metis surj_pair)
      note k = inspectPrelude_kept [OF f1 i]
      have p2: "pinned ?P up w w2" using pinned_trans [OF p1 pinned_silent [OF f1 k(1)]] k(2) by simp
      have f2: "fits up w2" using p2 by (simp add: pinned_def)
      show ?thesis
        using assms(2,3) silent_step_pinned(1,2) [OF f2, where P = ?P] pinned_trans [OF p2] p2
        by (cases e; cases h) (fastforce simp: completion_turn_def stream_call_def c_def [symmetric] StreamReply True i)+
    next
      case False
      obtain e w2 where i: "completionStatusFailure up status b ra (made c w) = (e, w2)" by fastforce
      note k = completionStatusFailure_kept [OF f1 i]
      have p2: "pinned ?P up w w2" using pinned_trans [OF p1 pinned_silent [OF f1 k(1)]] k(2) by simp
      have f2: "fits up w2" using p2 by (simp add: pinned_def)
      show ?thesis
        using assms(2,3) silent_step_pinned(3) [OF f2, where P = ?P] pinned_trans [OF p2]
        by (fastforce simp: completion_turn_def stream_call_def c_def [symmetric] StreamReply False i)
    qed
  qed
qed

lemma completion_loop_pinned:
  "fits up w \<Longrightarrow> completion_loop n up m False powResp s w = Some (res, w1) \<Longrightarrow> cPow s = powResp \<Longrightarrow>
    pinned (\<lambda>c. callTo c = CompletionURL \<and> callSession c = cSession s \<and> callPow c = powResp) up w w1 \<and>
    (\<forall>x b. res = Inr (x, b) \<longrightarrow> x = cSession s)"
proof (induction n arbitrary: s w)
  case (Suc n)
  then obtain r w2 where t: "completion_turn up m False powResp s w = Some (r, w2)" by (auto split: option.splits)
  note p = completion_turn_pinned [OF Suc.prems(1) t Suc.prems(3)]
  then have f2: "fits up w2" by (simp add: pinned_def)
  show ?case
  proof (cases r)
    case (GoesOn s1)
    then show ?thesis using p pinned_trans [OF conjunct1 [OF p]] Suc.IH [OF f2, of s1] Suc.prems(2) t by auto
  qed (use p Suc.prems t in auto)
qed simp

subsection \<open>Fail-over\<close>

text \<open>When every login succeeds and is stored, a switch that finds no account leaves the request with the one it had.\<close>

definition logins_succeed :: "Env \<Rightarrow> bool" where
  "logins_succeed env \<longleftrightarrow> (\<forall>k acc. \<exists>t. eLogin env k acc = Inr t) \<and> snd (eStorage env) = None"

lemma ensureManagedToken_succeeds:
  assumes "logins_succeed env" "AccountID a \<in> idents (rstore r)" "index_ok (rstore r)" "ensureManagedToken env a r = (err, a', r')"
  shows "err = None"
proof -
  have "fst (loginAndPersist env a q) = None" if "rstore q = rstore r" for q
  proof -
    obtain t where t: "eLogin env (logins q) (raAccount a) = Inr t" using assms(1) by (auto simp: logins_succeed_def)
    obtain acc where acc: "acc \<in> set (cfgAccounts (rstore r))" "Identifier acc = AccountID a" "AccountID a \<noteq> ''''"
      using assms(2) by (auto simp: idents_def Accounts_def)
    then obtain i where "findAccountIndexLocked (rstore r) (AccountID a) = Some i"
      using findAccountIndex_exact [OF assms(3)] by metis
    then have "findAccountIndexLocked (rstore r) (TrimSpace (AccountID a)) = Some i" using acc(2) Identifier_trimmed by metis
    then obtain s where s: "UpdateAccountToken None (AccountID a) t (rstore r) = (None, s)" by (simp add: UpdateAccountToken_found)
    let ?r1 = "with_pool (ClearHealth (AccountID a)) (markTokenRefreshedNow (eNow env) (AccountID a) (q\<lparr>logins := Suc (logins q)\<rparr>))"
    have "rstore ?r1 = rstore r" by (simp add: with_pool_def markTokenRefreshedNow_def ClearHealth_def Let_def that)
    then show ?thesis using t assms(1) s by (simp add: loginAndPersist_def Let_def logins_succeed_def)
  qed
  moreover have "rstore (snd (shouldForceRefresh now i r)) = rstore r" for now i
    by (simp add: shouldForceRefresh_def Let_def split: option.splits)
  ultimately show ?thesis
    using assms(4) by (auto simp: ensureManagedToken_def split: if_splits prod.splits bool.splits) (metis fst_conv snd_conv)+
qed

text \<open>The request holds its account as the pool handed it out, and the token it sends is that account's.\<close>

definition credentials :: "RequestAuth \<Rightarrow> bool" where
  "credentials a \<longleftrightarrow> Identifier (raAccount a) = AccountID a \<and> Token (raAccount a) = DeepSeekToken a"

lemma loginAndPersist_credentials:
  "loginAndPersist env a r = (err, a', r') \<Longrightarrow> eLogin env (logins r) (raAccount a) = Inr t \<Longrightarrow> Identifier (raAccount a) = AccountID a \<Longrightarrow> credentials a'"
  by (auto simp: loginAndPersist_def credentials_def Let_def split: prod.splits option.splits)

lemma ensureManagedToken_credentials:
  assumes "ensureManagedToken env a r = (None, a', r')" "Identifier (raAccount a) = AccountID a"
  shows "credentials a'"
proof -
  have "credentials a'" if "loginAndPersist env a r1 = (None, a', r')" for r1
  proof (cases "eLogin env (logins r1) (raAccount a)")
    case (Inr t)
    then show ?thesis using loginAndPersist_credentials [OF that] assms(2) by blast
  qed (use that in \<open>simp add: loginAndPersist_def Let_def\<close>)
  then show ?thesis using assms by (auto simp: ensureManagedToken_def credentials_def split: if_splits prod.splits bool.splits)
qed

lemma refresh_credentials:
  assumes "logins_succeed (uEnv up)" "refresh up w = (ok, w1)" "credentials (wAuth w)"
  shows "credentials (wAuth w1)"
proof -
  have "credentials a'" if "loginAndPersist (uEnv up) ((wAuth w)\<lparr>raAccount := (raAccount (wAuth w))\<lparr>Token := ''''\<rparr>\<rparr>) r = (err, a', r')" for r err a' r'
  proof -
    obtain t where t: "eLogin (uEnv up) (logins r) ((raAccount (wAuth w))\<lparr>Token := ''''\<rparr>) = Inr t" using assms(1) by (auto simp: logins_succeed_def)
    show ?thesis by (rule loginAndPersist_credentials [OF that, of t]) (use t assms(3) in \<open>simp_all add: credentials_def\<close>)
  qed
  then show ?thesis using assms(2,3) by (auto simp: refresh_def RefreshToken_def Let_def split: if_splits prod.splits)
qed

lemma switch_loop_credentials: "switch_loop n env a r = Some (True, a', r') \<Longrightarrow> credentials a'"
proof (induction n arbitrary: a r)
  case (Suc n)
  then show ?case by (auto split: prod.splits option.splits dest: ensureManagedToken_credentials)
qed simp

lemma switch_credentials: "switch up w = Some (True, w1) \<Longrightarrow> credentials (wAuth w1)"
  by (auto simp: switch_def SwitchAccount_def split: option.splits if_splits dest: switch_loop_credentials)

text \<open>A managed request starts that way.\<close>

lemma acquire_credentials:
  "acquireManagedRequestAuth n env callerID target allowOverflow tried lastErr r = Some (Inr a, r') \<Longrightarrow> credentials a"
proof (induction n arbitrary: tried lastErr r)
  case (Suc n)
  then show ?case by (auto simp: Let_def split: prod.splits option.splits if_splits dest: ensureManagedToken_credentials)
qed simp

lemma failed_switch_keeps_account:
  assumes "logins_succeed (uEnv up)" "fits up w" "switch up w = Some (False, w1)"
  shows "AccountID (wAuth w1) = AccountID (wAuth w)" "wCalls w1 = wCalls w" "credentials (wAuth w1) = credentials (wAuth w)"
proof -
  have loop: "a' = a" if "switch_loop n (uEnv up) a r = Some (False, a', r')" "resolver_ok r" for n a r a' r'
  proof (cases n)
    case (Suc k)
    obtain res p where at: "attempt_acquire (eNow (uEnv up)) \<lparr>rTarget = '''', rPreferred = False, rExclude = TriedAccounts a\<rparr> (rpool r) = (res, p)"
      by fastforce
    note sl = attempt_slots [OF that(2) disjI1 [OF refl] at]
    show ?thesis
    proof (cases res)
      case None
      then show ?thesis using that(1) Suc at by simp
    next
      case (Some acc)
      let ?a = "a\<lparr>raAccount := acc, AccountID := Identifier acc\<rparr>"
      obtain err a2 r2 where e: "ensureManagedToken (uEnv up) ?a (r\<lparr>rpool := p\<rparr>) = (err, a2, r2)" by (metis surj_pair)
      have "err = None"
        by (rule ensureManagedToken_succeeds [OF assms(1) _ _ e]) (use sl Some in \<open>auto simp: resolver_ok_def\<close>)
      then show ?thesis using that(1) Suc at Some e by simp
    qed
  qed (use that in simp)
  have "resolver_ok (wRes w)" using assms(2) by (simp add: fits_def)
  then show "AccountID (wAuth w1) = AccountID (wAuth w)" "wCalls w1 = wCalls w" "credentials (wAuth w1) = credentials (wAuth w)"
    using assms(3) Release_ok(1) by (auto simp: switch_def SwitchAccount_def credentials_def split: option.splits if_splits dest!: loop)
qed

text \<open>
  A call goes out through the account it is recorded for, with that account's token: \<open>callAccount\<close> is the record the resolver keeps,
  \<open>callRoute\<close> and \<open>callToken\<close> are what the request is sent with.
\<close>

definition own_credentials :: "call \<Rightarrow> bool" where
  "own_credentials c \<longleftrightarrow> Identifier (callRoute c) = callAccount c \<and> Token (callRoute c) = callToken c"

text \<open>The session was created with the credentials of the account by an earlier call.\<close>

definition created :: "upstream \<Rightarrow> call list \<Rightarrow> string \<Rightarrow> string \<Rightarrow> bool" where
  "created up cs account sid \<longleftrightarrow> (\<exists>i < length cs. callTo (cs ! i) = CreateSessionURL \<and> callAccount (cs ! i) = account \<and> own_credentials (cs ! i) \<and>
     (\<exists>resp. uJson up i (cs ! i) = Inr (200, resp) \<and> extractCreateSessionID resp = sid))"

definition log_aligned :: "upstream \<Rightarrow> string \<Rightarrow> string \<Rightarrow> nat \<Rightarrow> world \<Rightarrow> bool" where
  "log_aligned up account sid n w \<longleftrightarrow> (\<forall>i < length (wCalls w). let c = wCalls w ! i in n \<le> i \<longrightarrow> own_credentials c \<and>
     (callTo c = CompletionURL \<longrightarrow> callAccount c = account \<and> callSession c = sid \<or> created up (take i (wCalls w)) (callAccount c) (callSession c)))"

definition home :: "upstream \<Rightarrow> string \<Rightarrow> string \<Rightarrow> string \<Rightarrow> world \<Rightarrow> bool" where
  "home up account sid s w \<longleftrightarrow> AccountID (wAuth w) = account \<and> s = sid \<or> created up (wCalls w) (AccountID (wAuth w)) s"

lemma created_append: "created up cs account sid \<Longrightarrow> created up (cs @ ds) account sid"
  unfolding created_def by (auto simp: nth_append)

lemma log_aligned_made:
  assumes "log_aligned up account sid n w" "own_credentials c" "callTo c = CompletionURL \<Longrightarrow> home up account sid (callSession c) w \<and> callAccount c = AccountID (wAuth w)"
    "wCalls w1 = wCalls w @ [c]"
  shows "log_aligned up account sid n w1"
  using assms by (auto simp: log_aligned_def home_def nth_append less_Suc_eq Let_def)

lemma home_cong: "AccountID (wAuth w1) = AccountID (wAuth w) \<Longrightarrow> wCalls w1 = wCalls w @ cs \<Longrightarrow> home up account sid s w \<Longrightarrow> home up account sid s w1"
  by (auto simp: home_def created_append)

lemma log_aligned_cong: "wCalls w1 = wCalls w \<Longrightarrow> log_aligned up account sid n w1 = log_aligned up account sid n w"
  by (simp add: log_aligned_def)

lemma single_call_log:
  assumes "single_call up ls w = (r, w1)"
  shows "\<exists>c. wCalls w1 = wCalls w @ [c] \<and> callTo c = lsURL ls \<and> callAccount c = AccountID (wAuth w) \<and> wAuth w1 = wAuth w \<and>
    (credentials (wAuth w) \<longrightarrow> own_credentials c) \<and> (\<forall>s. r = Inr s \<longrightarrow> (\<exists>resp. uJson up (length (wCalls w)) c = Inr (200, resp) \<and> lsOnOk ls resp = Ends s))"
proof -
  define c where "c = call_for (raAccount (wAuth w)) w (lsURL ls) (DeepSeekToken (wAuth w)) ''''"
  have b: "wCalls (made c w) = wCalls w @ [c]" "wAuth (made c w) = wAuth w" by (simp_all add: made_def)
  have rl: "wAuth (rate_limited up st rs ra ex (made c w)) = wAuth w" for st rs ra ex by (simp add: rate_limited_def made_def)
  have c: "callTo c = lsURL ls" "callAccount c = AccountID (wAuth w)" "credentials (wAuth w) \<longrightarrow> own_credentials c"
    by (simp_all add: c_def call_for_def credentials_def own_credentials_def)
  have "wCalls w1 = wCalls w @ [c] \<and> wAuth w1 = wAuth w \<and>
    (\<forall>s. r = Inr s \<longrightarrow> (\<exists>resp. uJson up (length (wCalls w)) c = Inr (200, resp) \<and> lsOnOk ls resp = Ends s))"
  proof (cases "uJson up (length (wCalls w)) c")
    case (Inl e)
    then show ?thesis using assms b by (auto simp: single_call_def json_call_def c_def [symmetric])
  next
    case (Inr sr)
    obtain status resp where sr: "sr = (status, resp)" by fastforce
    let ?rs = "extractResponseStatus resp"
    let ?w2 = "rate_limited up status ?rs '''' [] (made c w)"
    define out where "out = (if status = 200 \<and> rsCode ?rs = 0 \<and> rsBizCode ?rs = 0 then lsOnOk ls resp else Unusable)"
    obtain h w3 where h: "marked_health up ?rs ?w2 = (h, w3)" by fastforce
    have "status = 200 \<and> lsOnOk ls resp = Ends s" if "out = Ends s" for s using that by (simp add: out_def split: if_splits)
    then show ?thesis
      using assms b rl marked_health_calls [OF h] unfolding single_call_def json_call_def c_def [symmetric] Inr sr prod.case sum.case Let_def out_def [symmetric] h
      by (cases out; cases h) (auto simp: Inr sr)
  qed
  then show ?thesis using c by blast
qed

text \<open>The next completion request will go out with the credentials of the request's account and a session of that account.\<close>

definition sends_own :: "completion_state \<Rightarrow> world \<Rightarrow> bool" where
  "sends_own s w \<longleftrightarrow> credentials (wAuth w) \<and> Identifier (cClients s) = AccountID (wAuth w) \<and> Token (cClients s) = cToken s"

definition aligned :: "upstream \<Rightarrow> string \<Rightarrow> string \<Rightarrow> nat \<Rightarrow> completion_state \<Rightarrow> world \<Rightarrow> bool" where
  "aligned up account sid n s w \<longleftrightarrow> fits up w \<and> log_aligned up account sid n w \<and> home up account sid (cSession s) w \<and> sends_own s w"

definition aligned_after :: "upstream \<Rightarrow> string \<Rightarrow> string \<Rightarrow> nat \<Rightarrow> completion_step \<Rightarrow> world \<Rightarrow> bool" where
  "aligned_after up account sid n r w \<longleftrightarrow> log_aligned up account sid n w \<and>
     (case r of GoesOn s \<Rightarrow> aligned up account sid n s w | Delivered s b \<Rightarrow> home up account sid s w | GivesUp e \<Rightarrow> True)"

lemma aligned_silent:
  "aligned up account sid n s w \<Longrightarrow> same_account w w1 \<Longrightarrow> wCalls w1 = wCalls w \<Longrightarrow> credentials (wAuth w1) \<Longrightarrow> aligned up account sid n s w1"
  using same_account_fits [of w w1 up] home_cong [of w1 w "[]" up account sid "cSession s"] log_aligned_cong [of w1 w]
  by (simp add: aligned_def same_account_def sends_own_def)

lemma aligned_credentials: "aligned up account sid n s w \<Longrightarrow> credentials (wAuth w)"
  by (simp add: aligned_def sends_own_def)

lemma aligned_attempt [simp]: "aligned up account sid n (s\<lparr>cAttempts := k\<rparr>) w = aligned up account sid n s w"
  by (simp add: aligned_def sends_own_def)

lemma aligned_after_goes: "aligned up account sid n s w \<Longrightarrow> aligned_after up account sid n (GoesOn s) w"
  "aligned up account sid n s' w \<Longrightarrow> aligned_after up account sid n (GivesUp e) w"
  by (simp_all add: aligned_after_def aligned_def)

lemma aligned_switch:
  assumes ls: "logins_succeed (uEnv up)" and al: "aligned up account sid n s w" and sw: "switchCompletionAccount up s w = Some (r, w1)"
  shows "log_aligned up account sid n w1 \<and>
    (case r of Switched s1 \<Rightarrow> aligned up account sid n s1 w1 | NoCandidate \<Rightarrow> aligned up account sid n s w1 | SwitchFailed e \<Rightarrow> True)"
proof (cases "\<not> UseConfigToken (wAuth w) \<or> \<not> hasCompletionSwitchCandidate w")
  case True
  then show ?thesis using sw al by (auto simp: switchCompletionAccount_def aligned_def)
next
  case False
  have f: "fits up w" "log_aligned up account sid n w" using al by (simp_all add: aligned_def)
  obtain ok w2 where s2: "switch up w = Some (ok, w2)" "fits up w2" "wCalls w2 = wCalls w"
    using switch_progress [OF f(1)] False by metis
  have l2: "log_aligned up account sid n w2" using f(2) log_aligned_cong [OF s2(3)] by simp
  show ?thesis
  proof (cases ok)
    case no: False
    have "AccountID (wAuth w2) = AccountID (wAuth w)" "credentials (wAuth w2) = credentials (wAuth w)"
      using failed_switch_keeps_account [OF ls f(1)] s2(1) no by simp_all
    then have "aligned up account sid n s w2"
      using l2 s2(2) home_cong [of w2 w "[]" up account sid "cSession s"] s2(3) al by (simp add: aligned_def sends_own_def)
    then show ?thesis using sw False s2(1) no l2 by (auto simp: switchCompletionAccount_def split: option.splits)
  next
    case True
    obtain r3 w3 where c3: "single_call up session_spec w2 = (r3, w3)" by fastforce
    obtain r4 w4 where c4: "single_call up (pow_spec up DeepSeekCompletionTargetPath) w3 = (r4, w4)" by fastforce
    from single_call_log [OF c3] obtain c where c: "wCalls w3 = wCalls w2 @ [c]" "callTo c = CreateSessionURL" "callAccount c = AccountID (wAuth w2)"
      "wAuth w3 = wAuth w2" "credentials (wAuth w2) \<Longrightarrow> own_credentials c" "\<And>s. r3 = Inr s \<Longrightarrow> \<exists>resp. uJson up (length (wCalls w2)) c = Inr (200, resp) \<and> extractCreateSessionID resp = s"
      by (auto simp: session_spec_def Let_def split: if_splits)
    from single_call_log [OF c4] obtain d where d: "wCalls w4 = wCalls w3 @ [d]" "callTo d = CreatePowURL DeepSeekCompletionTargetPath" "wAuth w4 = wAuth w3"
      "credentials (wAuth w3) \<Longrightarrow> own_credentials d"
      by (auto simp: pow_spec_def)
    have cr: "credentials (wAuth w2)" using switch_credentials s2(1) True by simp
    have l3: "log_aligned up account sid n w3" by (rule log_aligned_made [OF l2 c(5) _ c(1)]) (simp_all add: c(2) cr)
    have l4: "log_aligned up account sid n w4" by (rule log_aligned_made [OF l3 d(4) _ d(1)]) (simp_all add: d(2) c(4) cr)
    have own: "sends_own (s\<lparr>cClients := raAccount (wAuth w4), cToken := DeepSeekToken (wAuth w4), cPow := q, cSession := x\<rparr>) w4" for q x
      using cr c(4) d(3) by (simp add: sends_own_def credentials_def)
    have f3: "fits up w3" using same_account_fits [OF single_call_kept(1) [OF s2(2) c3] s2(2)] by simp
    have f4: "fits up w4" using same_account_fits [OF single_call_kept(1) [OF f3 c4] f3] by simp
    have "home up account sid x w3" if "r3 = Inr x" for x
      using c(1-4) c(5) [OF cr] c(6) [OF that] by (auto simp: home_def created_def)
    then have h4: "home up account sid x w4" if "r3 = Inr x" for x
      using home_cong [of w4 w3 "[d]" up account sid x] that d(1,3) by simp
    show ?thesis
      using sw False s2(1) True l3 l4 f4 h4 own
      by (auto simp: switchCompletionAccount_def createCompletionRetrySession_def getCompletionRetryPow_def c3 c4 aligned_def split: sum.splits)
  qed
qed

lemma aligned_switch_or:
  assumes "logins_succeed (uEnv up)" "aligned up account sid n s w" "switch_or up allowSwitch s otherwise w = Some (r, w1)"
    and oth: "\<And>w2. aligned up account sid n s w2 \<Longrightarrow> otherwise w2 = Some (r, w1) \<Longrightarrow> aligned_after up account sid n r w1"
  shows "aligned_after up account sid n r w1"
proof (cases allowSwitch)
  case True
  then obtain x w2 where x: "switchCompletionAccount up s w = Some (x, w2)" using assms(3) by (auto simp: switch_or_def split: option.splits)
  show ?thesis
    using aligned_switch [OF assms(1,2) x] assms(3) True x oth by (cases x) (auto simp: switch_or_def aligned_after_def aligned_def)
qed (use assms(3) oth [OF assms(2)] in \<open>auto simp: switch_or_def\<close>)

lemma aligned_sleep:
  "aligned up account sid n s w \<Longrightarrow> sleep_retry up s w = (r, w1) \<Longrightarrow> aligned_after up account sid n r w1"
  using aligned_silent [of up account sid n s w "w\<lparr>wTick := Suc (wTick w)\<rparr>"] aligned_credentials [of up account sid n s w]
  by (auto simp: sleep_retry_def Let_def aligned_after_def aligned_def split: option.splits)

lemma aligned_counted:
  assumes "aligned up account sid n s w" "counted m e k s w = Some (r, w1)"
    and "\<And>s1. aligned up account sid n s1 w \<Longrightarrow> k s1 w = Some (r, w1) \<Longrightarrow> aligned_after up account sid n r w1"
  shows "aligned_after up account sid n r w1"
  using assms(1,2) assms(3) [of "s\<lparr>cAttempts := cAttempts s + 1\<rparr>"] by (auto simp: counted_def Let_def aligned_after_goes split: if_splits)

lemma aligned_transport:
  assumes "logins_succeed (uEnv up)" "aligned up account sid n s w" "completion_transport up m allowSwitch sl e s w = Some (r, w1)"
  shows "aligned_after up account sid n r w1"
proof (cases "completionFailureRetryable e")
  case True
  let ?k = "\<lambda>s1. switch_or up allowSwitch s1 (\<lambda>w1. Some (if sl then sleep_retry up s1 w1 else (GoesOn s1, w1)))"
  have "counted m e ?k s w = Some (r, w1)" using assms(3) True by (simp add: completion_transport_def)
  then show ?thesis
  proof (rule aligned_counted [OF assms(2)])
    fix s1 assume s1: "aligned up account sid n s1 w" and k: "?k s1 w = Some (r, w1)"
    show ?thesis
      by (rule aligned_switch_or [OF assms(1) s1 k]) (auto simp: aligned_after_goes split: if_splits intro: aligned_sleep [of _ _ _ _ s1])
  qed
qed (use assms in \<open>auto simp: completion_transport_def aligned_after_goes\<close>)

lemma aligned_health:
  assumes "logins_succeed (uEnv up)" "aligned up account sid n s w" "completion_health up allowSwitch e s w = Some (r, w1)"
  shows "aligned_after up account sid n r w1"
proof -
  have "aligned_after up account sid n r w1" if "switch_or up True s (\<lambda>w1. Some (GivesUp (Health e), w1)) w = Some (r, w1)"
    by (rule aligned_switch_or [OF assms(1,2) that]) (auto simp: aligned_after_goes)
  then show ?thesis using assms(2,3) by (auto simp: completion_health_def aligned_after_goes split: if_splits)
qed

lemma aligned_status:
  assumes ls: "logins_succeed (uEnv up)" and al: "aligned up account sid n s w"
    and st: "completion_status up m allowSwitch powResp status e s w = Some (r, w1)"
  shows "aligned_after up account sid n r w1"
proof -
  let ?k = "\<lambda>s1. switch_or up (allowSwitch \<and> \<not> IsSessionCapacityRateLimit e) s1 (\<lambda>w1. Some (sleep_retry up s1 w1))"
  let ?over = "\<lambda>w. if allowSwitch \<and> \<not> IsSessionCapacityRateLimit e \<and> status = 429 \<and> UseConfigToken (wAuth w) \<and> hasCompletionSwitchCandidate w
    then switch_or up True s (counted m e ?k s) w else counted m e ?k s w"
  have o: ?thesis if al2: "aligned up account sid n s w2" and c: "counted m e ?k s w2 = Some (r, w1)" for w2
  proof (rule aligned_counted [OF al2 c])
    fix s1 assume s1: "aligned up account sid n s1 w2" and k: "?k s1 w2 = Some (r, w1)"
    show ?thesis by (rule aligned_switch_or [OF ls s1 k]) (auto intro: aligned_sleep [of _ _ _ _ s1])
  qed
  have v: ?thesis if al2: "aligned up account sid n s w2" and c: "?over w2 = Some (r, w1)" for w2
    using c o [OF al2] aligned_switch_or [OF ls al2] o by (auto split: if_splits)
  obtain ok w2 where rf: "refresh up w = (ok, w2)" by fastforce
  have f: "fits up w" using al by (simp add: aligned_def)
  note cr = refresh_credentials [OF ls rf aligned_credentials [OF al]]
  have al2: "aligned up account sid n s w2"
    using aligned_silent [OF al same_account_refresh [OF f rf] _ cr] refresh_calls [OF rf] by simp
  then have al3: "aligned up account sid n (s\<lparr>cRefreshed := True, cClients := raAccount (wAuth w2), cToken := DeepSeekToken (wAuth w2), cPow := powResp\<rparr>) w2"
    using cr by (simp add: aligned_def sends_own_def credentials_def)
  have h: ?thesis if "e = Health x" for x using st aligned_health [OF ls al] that by (simp add: completion_status_def Let_def)
  show ?thesis
  proof (cases "\<not> cRefreshed s \<and> IsManagedUnauthorizedError e \<and> (\<forall>x. e \<noteq> Health x)")
    case True
    then show ?thesis
      using st al3 v [OF al2] by (cases e; cases ok) (auto simp: completion_status_def Let_def rf aligned_after_goes)
  next
    case False
    then show ?thesis using st h v [OF al] by (cases e) (auto simp: completion_status_def Let_def)
  qed
qed

lemma aligned_turn:
  assumes ls: "logins_succeed (uEnv up)" and al: "aligned up account sid n s w"
    and t: "completion_turn up m allowSwitch powResp s w = Some (r, w1)"
  shows "aligned_after up account sid n r w1"
proof -
  define c where "c = (call_for (cClients s) w CompletionURL (cToken s) (cPow s))\<lparr>callSession := cSession s\<rparr>"
  let ?w = "made c w"
  have f: "fits up ?w" using same_account_fits [OF same_account_made, of up w c] al by (simp add: aligned_def)
  have cc: "wCalls ?w = wCalls w @ [c]" "AccountID (wAuth ?w) = AccountID (wAuth w)" "callSession c = cSession s" "callAccount c = AccountID (wAuth w)"
    "own_credentials c" "wAuth ?w = wAuth w"
    using al by (simp_all add: made_def c_def call_for_def own_credentials_def aligned_def sends_own_def)
  have a1: "aligned up account sid n s ?w"
    using log_aligned_made [OF _ _ _ cc(1)] home_cong [OF cc(2,1)] f al cc(3-6) by (simp add: aligned_def sends_own_def)
  show ?thesis
  proof (cases "uStream up (length (wCalls w)) c")
    case (StreamError x)
    then show ?thesis using t aligned_transport [OF ls a1] by (simp add: completion_turn_def stream_call_def c_def [symmetric])
  next
    case (StreamReply status b ra)
    show ?thesis
    proof (cases "status = 200")
      case True
      obtain h e w2 where i: "inspectCompletionSSEPrelude up b ?w = ((h, e), w2)" by (metis surj_pair)
      note k = inspectPrelude_kept [OF f i]
      have a2: "aligned up account sid n s w2" by (rule aligned_silent [OF a1 k(1,2)]) (simp add: k(3) aligned_credentials [OF a1])
      show ?thesis
        using t aligned_transport [OF ls a2] aligned_health [OF ls a2] a2
        by (cases e; cases h) (auto simp: completion_turn_def stream_call_def c_def [symmetric] StreamReply True i aligned_after_def aligned_def)
    next
      case False
      obtain e w2 where i: "completionStatusFailure up status b ra ?w = (e, w2)" by fastforce
      note k = completionStatusFailure_kept [OF f i]
      have a2: "aligned up account sid n s w2" by (rule aligned_silent [OF a1 k(1,2)]) (simp add: k(3) aligned_credentials [OF a1])
      show ?thesis
        using t aligned_status [OF ls a2] by (simp add: completion_turn_def stream_call_def c_def [symmetric] StreamReply False i)
    qed
  qed
qed

lemma aligned_loop:
  assumes "logins_succeed (uEnv up)"
  shows "aligned up account sid n s w \<Longrightarrow> completion_loop k up m allowSwitch powResp s w = Some (res, w1) \<Longrightarrow>
    log_aligned up account sid n w1 \<and> (\<forall>x b. res = Inr (x, b) \<longrightarrow> home up account sid x w1)"
proof (induction k arbitrary: s w)
  case (Suc k)
  then obtain r w2 where t: "completion_turn up m allowSwitch powResp s w = Some (r, w2)" by (auto split: option.splits)
  note a = aligned_turn [OF assms Suc.prems(1) t]
  show ?case
    using a Suc.prems(2) t Suc.IH by (cases r) (auto simp: aligned_after_def)
qed simp

section \<open>Properties\<close>

definition CreateSessionPinned :: "nat \<Rightarrow> upstream \<Rightarrow> world \<Rightarrow> ((client_error + string) \<times> world) option" where
  "CreateSessionPinned n up w = createSession n up 3 False w"

definition GetPowPinned :: "nat \<Rightarrow> upstream \<Rightarrow> world \<Rightarrow> ((client_error + string) \<times> world) option" where
  "GetPowPinned n up w = getPowForTarget n up DeepSeekCompletionTargetPath 3 False w"

definition CallCompletionPinned :: "nat \<Rightarrow> upstream \<Rightarrow> string \<Rightarrow> string \<Rightarrow> world \<Rightarrow> ((client_error + string \<times> body) \<times> world) option" where
  "CallCompletionPinned n up sid powResp w = callCompletion n up sid powResp 1 False w"

definition CallCompletion :: "nat \<Rightarrow> upstream \<Rightarrow> string \<Rightarrow> string \<Rightarrow> int \<Rightarrow> world \<Rightarrow> ((client_error + string \<times> body) \<times> world) option" where
  "CallCompletion n up sid powResp maxAttempts w = callCompletion n up sid powResp maxAttempts True w"

lemma callCompletion_cases:
  assumes "callCompletion n up sid powResp m0 allowSwitch w = Some (res, w1)"
  obtains (early) e where "res = Inl e" "w1 = w"
  | (loop) m s where "completion_loop n up m allowSwitch powResp s w = Some (res, w1)" "cPow s = powResp" "cSession s = sid"
      "cClients s = raAccount (wAuth w)" "cToken s = DeepSeekToken (wAuth w)"
  using assms by (fastforce simp: callCompletion_def Let_def split: option.splits)

text \<open>C9: The pinned calls stay together. A session, a proof of work and a completion that are obtained one after the other with the pinned
  calls are all requested for the account the request had at the start; no slot is taken or returned; and every completion request carries
  that session and that proof of work.\<close>

theorem pinned_calls_aligned:
  assumes "fits up w" "CreateSessionPinned n up w = Some (Inr sid, w1)" "GetPowPinned n up w1 = Some (Inr powResp, w2)"
    "CallCompletionPinned n up sid powResp w2 = Some (res, w3)"
  shows "AccountID (wAuth w3) = AccountID (wAuth w) \<and> slots (wRes w3) = slots (wRes w) \<and>
    adds (\<lambda>c. callAccount c = AccountID (wAuth w) \<and> (callTo c = CompletionURL \<longrightarrow> callSession c = sid \<and> callPow c = powResp)) w w3 \<and>
    answered up session_spec sid w1"
proof -
  let ?P = "\<lambda>c. callTo c = CompletionURL \<longrightarrow> callSession c = sid \<and> callPow c = powResp"
  have weak: "pinned ?P up v v1" if "pinned Q up v v1" "\<And>c. Q c \<Longrightarrow> ?P c" for Q v v1
    using that by (fastforce simp: pinned_def adds_def)
  have "pinned (\<lambda>c. callTo c = CreateSessionURL) up w w1"
    using upstream_loop_pinned [OF assms(1), where ls = session_spec] assms(2)
    by (auto simp: CreateSessionPinned_def createSession_def session_spec_def)
  then have p1: "pinned ?P up w w1" by (rule weak) simp
  then have f1: "fits up w1" by (simp add: pinned_def)
  have "\<exists>t. pinned (\<lambda>c. callTo c = CreatePowURL t) up w1 w2"
    using upstream_loop_pinned [OF f1, where ls = "pow_spec up t" for t] assms(3)
    by (fastforce simp: GetPowPinned_def getPowForTarget_def Let_def pow_spec_def)
  then obtain t where "pinned (\<lambda>c. callTo c = CreatePowURL t) up w1 w2" by blast
  then have p2: "pinned ?P up w1 w2" by (rule weak) simp
  then have f2: "fits up w2" by (simp add: pinned_def)
  have p3: "pinned ?P up w2 w3"
    using assms(4) unfolding CallCompletionPinned_def
  proof (cases rule: callCompletion_cases)
    case early
    then show ?thesis using f2 by (simp add: pinned_silent)
  next
    case (loop m s)
    from completion_loop_pinned [OF f2 loop(1,2)]
    have "pinned (\<lambda>c. callTo c = CompletionURL \<and> callSession c = sid \<and> callPow c = powResp) up w2 w3" using loop(3) by simp
    then show ?thesis by (rule weak) simp
  qed
  have p: "pinned ?P up w w3" using pinned_trans [OF pinned_trans [OF p1 p2] p3] .
  have "slots (wRes w3) = slots (wRes w)"
    using p same_use_ok [of "wRes w" "wRes w3"] assms(1) by (simp add: pinned_def same_account_def fits_def)
  moreover have "answered up session_spec sid w1"
    using assms(2) upstream_loop_answer by (auto simp: CreateSessionPinned_def createSession_def)
  ultimately show ?thesis using p by (auto simp: pinned_def same_account_def adds_def)
qed

lemma calm_turn:
  assumes "lsOnOk ls session_reply = Ends x"
  shows "loop_turn calm_upstream ls False l w =
    Some (Inl (Inr x), made (call_for (lClients l) w (lsURL ls) (DeepSeekToken (wAuth w)) '''') w)"
proof -
  have "extractResponseStatus session_reply = no_status" by code_simp
  then show ?thesis
    using assms by (simp add: loop_turn_def json_call_def calm_upstream_def Let_def no_status_def rate_limited_def markAccountRateLimited_def
        accountRateLimitError_def rateLimitScopeFromResponse_def isSessionCapacityRateLimit_def)
qed

theorem pinned_calls_aligned_witness:
  "\<exists>w1 w2 w3. CreateSessionPinned 3 calm_upstream solo_world = Some (Inr ''s1'', w1) \<and> GetPowPinned 3 calm_upstream w1 = Some (Inr ''p1'', w2) \<and>
     CallCompletionPinned 3 calm_upstream ''s1'' ''p1'' w2 = Some (Inr (''s1'', [], None), w3) \<and> AccountID (wAuth w3) = ''a@b.c''"
proof -
  have "extractCreateSessionID session_reply = ''s1''" "TrimSpace DeepSeekCompletionTargetPath \<noteq> ''''" by code_simp+
  then have s: "lsOnOk session_spec session_reply = Ends ''s1''" and p: "\<And>t. lsOnOk (pow_spec calm_upstream t) session_reply = Ends ''p1''"
    by (simp_all add: session_spec_def pow_spec_def calm_upstream_def)
  obtain w1 where 1: "CreateSessionPinned 3 calm_upstream solo_world = Some (Inr ''s1'', w1)"
    by (simp add: CreateSessionPinned_def createSession_def numeral_3_eq_3 calm_turn [OF s] loop_start_def)
  obtain w2 where 2: "GetPowPinned 3 calm_upstream w1 = Some (Inr ''p1'', w2)"
    by (simp add: GetPowPinned_def getPowForTarget_def Let_def numeral_3_eq_3 calm_turn [OF p] loop_start_def)
  obtain w3 where 3: "CallCompletionPinned 3 calm_upstream ''s1'' ''p1'' w2 = Some (Inr (''s1'', [], None), w3)"
    by (simp add: CallCompletionPinned_def callCompletion_def Let_def numeral_3_eq_3 completion_turn_def stream_call_def
        calm_upstream_def requestContextFailure_def inspectCompletionSSEPrelude_def completionSSEPreludeLimit_def)
  from pinned_calls_aligned [OF solo_world_fits(1) 1 2 3] show ?thesis
    using 1 2 3 by (auto simp: solo_world_def solo_auth_def)
qed

text \<open>C6: Fail-over keeps session, token and account together. A request that starts with the credentials of its account and whose logins
  succeed sends every call of a completion with fail-over through the account it is recorded for and with that account's token; every
  completion request belongs to the account and session the call started with, or carries a session that an earlier call created
  with the credentials of the very account the request is sent with; and the session handed back with the answer belongs to the account
  the request ends with. Nothing is said of the proof of work, which a refreshed token resets to the first one
  (\<open>refresh_restores_first_pow\<close>).\<close>

theorem failover_aligned:
  assumes "fits up w" "logins_succeed (uEnv up)" "credentials (wAuth w)" "CallCompletion n up sid powResp maxAttempts w = Some (res, w1)"
  shows "log_aligned up (AccountID (wAuth w)) sid (length (wCalls w)) w1 \<and>
    (case res of Inl e \<Rightarrow> True | Inr (s, b) \<Rightarrow> home up (AccountID (wAuth w)) sid s w1)"
  using assms(4) unfolding CallCompletion_def
proof (cases rule: callCompletion_cases)
  case early
  then show ?thesis by (simp add: log_aligned_def Let_def)
next
  case (loop m s)
  have "aligned up (AccountID (wAuth w)) sid (length (wCalls w)) s w"
    using assms(1,3) loop(3-5) by (simp add: aligned_def log_aligned_def home_def sends_own_def credentials_def Let_def)
  from aligned_loop [OF assms(2) this loop(1)] show ?thesis by (auto split: sum.split)
qed

theorem failover_aligned_witness:
  "\<exists>w1. CallCompletion 3 calm_upstream ''s1'' ''p1'' 3 solo_world = Some (Inr (''s1'', [], None), w1) \<and>
     log_aligned calm_upstream ''a@b.c'' ''s1'' 0 w1 \<and> home calm_upstream ''a@b.c'' ''s1'' ''s1'' w1"
proof -
  obtain w1 where 1: "CallCompletion 3 calm_upstream ''s1'' ''p1'' 3 solo_world = Some (Inr (''s1'', [], None), w1)"
    by (simp add: CallCompletion_def callCompletion_def Let_def numeral_3_eq_3 completion_turn_def stream_call_def
        calm_upstream_def requestContextFailure_def inspectCompletionSSEPrelude_def completionSSEPreludeLimit_def)
  have "logins_succeed (uEnv calm_upstream)" by (simp add: logins_succeed_def calm_upstream_def solo_env_def)
  moreover have "Token solo_account = ''t''" by (simp add: solo_account_def)
  then have "credentials (wAuth solo_world)" by (simp add: credentials_def solo_world_def solo_auth_def solo_ident)
  ultimately show ?thesis using failover_aligned [OF solo_world_fits(1) _ _ 1] 1 by (simp add: solo_world_def solo_auth_def)
qed

section \<open>What fail-over gets wrong\<close>

text \<open>
  A switch during which a login fails and no other account is left reports that there is no account, but the request is now
  recorded for the account whose login failed, while its token is still that of the first account. The completion loop goes on
  with that request: the health of the wrong account is marked, and a rejected token is then refreshed for it.
\<close>

definition blank_store :: Store where
  "blank_store = rebuildIndexes \<lparr>cfgKeys = [], cfgAPIKeys = [], cfgAccounts = [solo_account\<lparr>Token := ''''\<rparr>],
     cfgModelAliases = [], cfgAccountMaxInflight = 1, cfgAccountMaxQueue = 5, cfgGlobalMaxInflight = 0,
     cfgTokenRefreshIntervalHours = 0, keyMap = [], accMap = [], accTest = [], accTestResult = [], accSess = []\<rparr>"

definition refusing_env :: Env where
  "refusing_env = solo_env\<lparr>eLogin := (\<lambda>_ _. Inl (LoginError ''refused''))\<rparr>"

lemma failed_switch_moves_request:
  "\<exists>a r. SwitchAccount 2 refusing_env (solo_auth\<lparr>AccountID := ''x@y.z''\<rparr>) (solo_held\<lparr>rpool := (solo_state [] [] [] 0)\<lparr>store := blank_store\<rparr>\<rparr>) =
     Some (False, a, r) \<and> AccountID a = ''a@b.c'' \<and> DeepSeekToken a = DeepSeekToken solo_auth"
proof -
  let ?b = "solo_account\<lparr>Token := ''''\<rparr>"
  have id: "Identifier ?b = ''a@b.c''" "TrimSpace (Token ?b) = ''''" by code_simp+
  have f: "FindAccount blank_store ''a@b.c'' = Some ?b" "Accounts blank_store = [?b]"
    by (simp_all add: blank_store_def Accounts_def FindAccount_def findAccountIndexLocked_def lookup_candidates_def rebuildIndexes_def rebuild_step_def id solo_ident)
  have d: "\<not> Disabled ?b" by (simp add: solo_account_def empty_account_def)
  show ?thesis
    by (simp add: numeral_2_eq_2 SwitchAccount_def solo_auth_def with_pool_def attempt_acquire_def acquireLocked_def tryAcquire_def
        solo_state_def solo_held_def Release_def notifyWaiterLocked_def gm_count_def canAcquireIDLocked_def f d accountHealthLocked_def
        currentInUseLocked_def take_slot_def bumpQueue_def solo_ident id ensureManagedToken_def loginAndPersist_def refusing_env_def
        recordAccountHealth_def Let_def)
qed

text \<open>
  A token refreshed after a fail-over puts the proof of work of the first account back into the headers, although the session and the
  token are those of the new account.
\<close>

lemma refresh_restores_first_pow:
  assumes "completion_status up m allowSwitch powResp status (Failed f) s w = Some (GoesOn s1, w1)" "\<not> cRefreshed s" "cRefreshed s1"
  shows "cPow s1 = powResp \<and> cSession s1 = cSession s \<and> cToken s1 = DeepSeekToken (wAuth w1)"
proof -
  have c: "\<not> cRefreshed s2" if "counted m e (\<lambda>s1. switch_or up b s1 (\<lambda>w1. Some (sleep_retry up s1 w1))) s v = Some (GoesOn s2, v1)" for e b v v1 s2
    using that assms(2)
    by (auto simp: counted_def switch_or_def sleep_retry_def switchCompletionAccount_def Let_def
        split: if_splits option.splits prod.splits switch_result.splits bool.splits sum.splits)
  have v: "\<not> cRefreshed s2" if "switch_or up True s k v = Some (GoesOn s2, v1)" "\<And>v. k v = Some (GoesOn s2, v1) \<Longrightarrow> \<not> cRefreshed s2" for k v v1 s2
    using that assms(2)
    by (auto simp: switch_or_def switchCompletionAccount_def split: if_splits option.splits prod.splits switch_result.splits bool.splits sum.splits)
  have cv: "\<not> cRefreshed s2" if "switch_or up True s (counted m e (\<lambda>s1. switch_or up b s1 (\<lambda>w1. Some (sleep_retry up s1 w1))) s) v = Some (GoesOn s2, v1)" for e b v v1 s2
    by (rule v [OF that c])
  show ?thesis
    using assms by (auto simp: completion_status_def Let_def split: if_splits prod.splits bool.splits dest: c cv)
qed

end
