(* ===== verification/Chat_History.thy ===== *)
theory Chat_History
  imports GoText GoJson "HOL-Library.Product_Lexorder" "HOL-Library.Multiset"
begin

text \<open>
  The file-backed history of chat requests (\<^verbatim>\<open>chathistory/store.go\<close>): an index of summaries, one detail file per entry, and
  the operations that start, update, delete, list and prune entries, save the changes and recover them after a restart.

  The store is one record that includes the files. A file holds what decoding gives for it: an entry or \<open>None\<close> for a detail file, and for the
  index the three views the loader takes of the text (as a legacy file, as the bare keys of the items, as an index). What the JSON
  encoder writes is an argument (\<open>cEntry\<close>, \<open>cIndex\<close>), and so are the failures of file operations (\<open>heIO\<close>), the clock, the generated identifier and
  \<^verbatim>\<open>sort.Slice\<close>, which may order equal entries in any way. An operation runs under the mutex, at one instant.
  The SQLite back end and the copying of values are not modelled.
\<close>

section \<open>Data\<close>

definition FileVersion :: int where "FileVersion = 2"
definition DisabledLimit :: int where "DisabledLimit = 0"
definition DefaultLimit :: int where "DefaultLimit = 20000"
definition MaxLimit :: int where "MaxLimit = 20000"
definition BurstPruneRetainedLimit :: int where "BurstPruneRetainedLimit = 500"
definition defaultPreviewAt :: int where "defaultPreviewAt = 160"

definition allowedLimits :: "int list" where
  "allowedLimits = [DisabledLimit, 10, 20, 50, MaxLimit]"

record Message =
  Role :: string
  MsgContent :: string

record CurrentInputUpdate =
  FileApplied :: bool
  PrefixHash :: string
  PrefixReused :: bool
  PrefixChars :: int
  TailChars :: int
  TailEntries :: int
  CheckpointRefresh :: bool

record Entry =
  eID :: string
  eRevision :: int
  eCreatedAt :: int
  eUpdatedAt :: int
  eCompletedAt :: int
  eStatus :: string
  eCallerID :: string
  eAccountID :: string
  eRequestIP :: string
  eConversationID :: string
  eModel :: string
  eStream :: bool
  eUserInput :: string
  eMessages :: "Message list"
  eHistoryText :: string
  eFinalPrompt :: string
  eReasoningContent :: string
  eContent :: string
  eError :: string
  eStatusCode :: int
  eElapsedMs :: int
  eFinishReason :: string
  eUsage :: "json_object option"
  eCurrentInput :: CurrentInputUpdate

record SummaryEntry =
  sID :: string
  sRevision :: int
  sCreatedAt :: int
  sUpdatedAt :: int
  sCompletedAt :: int
  sStatus :: string
  sCallerID :: string
  sAccountID :: string
  sRequestIP :: string
  sConversationID :: string
  sModel :: string
  sStream :: bool
  sUserInput :: string
  sPreview :: string
  sStatusCode :: int
  sElapsedMs :: int
  sFinishReason :: string
  sDetailRevision :: int
  sUsage :: "json_object option"
  sCurrentInput :: CurrentInputUpdate

record HistoryFile =
  fVersion :: int
  fLimit :: int
  fRevision :: int
  fItems :: "SummaryEntry list"

record StartParams =
  spCallerID :: string
  spAccountID :: string
  spRequestIP :: string
  spConversationID :: string
  spStatus :: string
  spModel :: string
  spStream :: bool
  spUserInput :: string
  spMessages :: "Message list"
  spHistoryText :: string
  spFinalPrompt :: string

record UpdateParams =
  upCallerID :: string
  upAccountID :: string
  upStatus :: string
  upHistoryText :: string
  upReasoningContent :: string
  upContent :: string
  upError :: string
  upStatusCode :: int
  upElapsedMs :: int
  upFinishReason :: string
  upUsage :: "json_object option"
  upCompleted :: bool
  upCurrentInput :: "CurrentInputUpdate option"

text \<open>The files, the encoder, and what an operation finds in its environment.\<close>

record index_raw =
  legacyView :: "(int \<times> Entry list) option"
  probeKeys :: "string list list option"
  indexView :: "HistoryFile option"

record HistoryCodec =
  cEntry :: "Entry \<Rightarrow> Entry"
  cIndex :: "HistoryFile \<Rightarrow> index_raw"

datatype disk_op = MkdirParent | MkdirDetail | ReadIndex | ReadDetail string | RemoveDetail string
  | EncodeDetail string | WriteDetail string | EncodeIndex | WriteIndex

record HistoryEnv =
  heMilli :: int
  heNano :: int
  heUUID :: string
  heIO :: "disk_op \<Rightarrow> string option"
  heSort :: "SummaryEntry list \<Rightarrow> SummaryEntry list"
  heCodec :: HistoryCodec

record HistoryStore =
  hState :: HistoryFile
  hDetails :: "(string, Entry) gomap"
  hDirty :: "string list"
  hDeleted :: "string list"
  hErr :: "string option"
  dIndex :: "index_raw option"
  dDetails :: "(string, Entry option) gomap"

abbreviation items :: "HistoryStore \<Rightarrow> SummaryEntry list" where
  "items s \<equiv> fItems (hState s)"

definition with_items :: "SummaryEntry list \<Rightarrow> HistoryStore \<Rightarrow> HistoryStore" where
  "with_items xs s = s\<lparr>hState := (hState s)\<lparr>fItems := xs\<rparr>\<rparr>"

section \<open>Identifiers, limits, previews\<close>

definition id_char :: "char \<Rightarrow> bool" where
  "id_char c = (let b = byte_of c in 97 \<le> b \<and> b \<le> 122 \<or> 65 \<le> b \<and> b \<le> 90 \<or> 48 \<le> b \<and> b \<le> 57 \<or> c = CHR ''_'' \<or> c = CHR ''-'')"

definition isSafeDetailID :: "string \<Rightarrow> bool" where
  "isSafeDetailID id0 = (let ident = TrimSpace id0 in
     \<not> (ident = '''' \<or> 128 < length ident \<or> Contains ident ''..'' \<or> prefix ''/'' ident) \<and> list_all id_char ident)"

definition isAllowedLimit :: "int \<Rightarrow> bool" where
  "isAllowedLimit limit = (limit \<in> set allowedLimits)"

definition retainedHistoryCountAfterPrune :: "int \<Rightarrow> int \<Rightarrow> int" where
  "retainedHistoryCountAfterPrune n limit0 =
     (if limit0 = DisabledLimit then -1
      else let limit = (if isAllowedLimit limit0 then limit0 else DefaultLimit) in
        if limit = MaxLimit then (if MaxLimit \<le> n then BurstPruneRetainedLimit else MaxLimit) else limit)"

text \<open>\<^verbatim>\<open>util.TruncateRunes\<close>: ranging over a string visits the first byte of each rune.\<close>

definition TruncateRunes :: "string \<Rightarrow> int \<Rightarrow> string \<times> bool" where
  "TruncateRunes t limit =
     (if limit < 0 then (t, False)
      else if limit = 0 then ('''', t \<noteq> '''')
      else let chunks = map snd (rune_chunks t) in
        if limit < int (length chunks) then (concat (take (nat limit) chunks), True) else (t, False))"

definition buildPreview :: "Entry \<Rightarrow> string" where
  "buildPreview item =
     (let c1 = TrimSpace (eContent item);
          c2 = (if c1 = '''' then TrimSpace (eReasoningContent item) else c1);
          c3 = (if c2 = '''' then TrimSpace (eError item) else c2);
          candidate = (if c3 = '''' then TrimSpace (eUserInput item) else c3)
      in case TruncateRunes candidate defaultPreviewAt of (truncated, ok) \<Rightarrow> if ok then truncated @ ''...'' else candidate)"

definition summaryFromEntry :: "Entry \<Rightarrow> SummaryEntry" where
  "summaryFromEntry item = \<lparr>sID = eID item, sRevision = eRevision item, sCreatedAt = eCreatedAt item, sUpdatedAt = eUpdatedAt item,
     sCompletedAt = eCompletedAt item, sStatus = eStatus item, sCallerID = eCallerID item, sAccountID = eAccountID item,
     sRequestIP = eRequestIP item, sConversationID = eConversationID item, sModel = eModel item, sStream = eStream item,
     sUserInput = eUserInput item, sPreview = buildPreview item, sStatusCode = eStatusCode item, sElapsedMs = eElapsedMs item,
     sFinishReason = eFinishReason item, sDetailRevision = eRevision item, sUsage = eUsage item, sCurrentInput = eCurrentInput item\<rparr>"

definition no_input :: CurrentInputUpdate where
  "no_input = \<lparr>FileApplied = False, PrefixHash = '''', PrefixReused = False, PrefixChars = 0, TailChars = 0, TailEntries = 0, CheckpointRefresh = False\<rparr>"

definition entryFromSummary :: "SummaryEntry \<Rightarrow> Entry" where
  "entryFromSummary item = \<lparr>eID = sID item, eRevision = sDetailRevision item, eCreatedAt = sCreatedAt item, eUpdatedAt = sUpdatedAt item,
     eCompletedAt = sCompletedAt item, eStatus = sStatus item, eCallerID = sCallerID item, eAccountID = sAccountID item, eRequestIP = '''',
     eConversationID = '''', eModel = sModel item, eStream = sStream item, eUserInput = sUserInput item, eMessages = [], eHistoryText = '''',
     eFinalPrompt = '''', eReasoningContent = '''', eContent = '''', eError = sPreview item, eStatusCode = sStatusCode item,
     eElapsedMs = sElapsedMs item, eFinishReason = sFinishReason item, eUsage = sUsage item, eCurrentInput = no_input\<rparr>"

definition shouldKeepDetailCached :: "Entry \<Rightarrow> bool" where
  "shouldKeepDetailCached item = (TrimSpace (eStatus item) \<in> {''queued'', ''streaming''})"

section \<open>The index\<close>

definition markDetailDirtyLocked :: "string \<Rightarrow> HistoryStore \<Rightarrow> HistoryStore" where
  "markDetailDirtyLocked id0 s = (let ident = TrimSpace id0 in
     if ident = '''' then s else s\<lparr>hDirty := List.insert ident (hDirty s), hDeleted := removeAll ident (hDeleted s)\<rparr>)"

definition markDetailDeletedLocked :: "string \<Rightarrow> HistoryStore \<Rightarrow> HistoryStore" where
  "markDetailDeletedLocked id0 s = (let ident = TrimSpace id0 in
     if ident = '''' then s else s\<lparr>hDeleted := List.insert ident (hDeleted s), hDirty := removeAll ident (hDirty s)\<rparr>)"

definition findSummaryLocked :: "string \<Rightarrow> HistoryStore \<Rightarrow> SummaryEntry option" where
  "findSummaryLocked id0 s = (let ident = TrimSpace id0 in if ident = '''' then None else find (\<lambda>x. sID x = ident) (items s))"

fun upsert_items :: "SummaryEntry \<Rightarrow> SummaryEntry list \<Rightarrow> SummaryEntry list" where
  "upsert_items x [] = [x]"
| "upsert_items x (y # ys) = (if sID y = sID x then x # ys else y # upsert_items x ys)"

definition upsertSummaryLocked :: "Entry \<Rightarrow> HistoryStore \<Rightarrow> HistoryStore" where
  "upsertSummaryLocked item s = (let summary = summaryFromEntry item in
     if TrimSpace (sID summary) = '''' then s else with_items (upsert_items summary (items s)) s)"

definition removeSummaryLocked :: "string \<Rightarrow> HistoryStore \<Rightarrow> HistoryStore" where
  "removeSummaryLocked id0 s = (let ident = TrimSpace id0 in
     if ident = '''' \<or> items s = [] then s else with_items (filter (\<lambda>x. sID x \<noteq> ident) (items s)) s)"

fun clean_items :: "string list \<Rightarrow> SummaryEntry list \<Rightarrow> SummaryEntry list" where
  "clean_items seen [] = []"
| "clean_items seen (x # xs) = (let ident = TrimSpace (sID x) in
     if ident = '''' \<or> ident \<in> set seen then clean_items seen xs else x\<lparr>sID := ident\<rparr> # clean_items (ident # seen) xs)"

text \<open>The comparison given to \<^verbatim>\<open>sort.Slice\<close>.\<close>

definition newer :: "SummaryEntry \<Rightarrow> SummaryEntry \<Rightarrow> bool" where
  "newer a b = (if sUpdatedAt a = sUpdatedAt b then sCreatedAt b < sCreatedAt a else sUpdatedAt b < sUpdatedAt a)"

definition drop_entry :: "SummaryEntry \<Rightarrow> HistoryStore \<Rightarrow> HistoryStore" where
  "drop_entry x s = (let s1 = markDetailDeletedLocked (sID x) s in s1\<lparr>hDetails := gm_del (sID x) (hDetails s1)\<rparr>)"

definition fix_header :: "HistoryStore \<Rightarrow> HistoryStore" where
  "fix_header s = s\<lparr>hState := (hState s)\<lparr>fVersion := FileVersion,
     fLimit := (if isAllowedLimit (fLimit (hState s)) then fLimit (hState s) else DefaultLimit)\<rparr>\<rparr>"

definition normalizeIndexLocked :: "HistoryEnv \<Rightarrow> HistoryStore \<Rightarrow> HistoryStore" where
  "normalizeIndexLocked env s0 =
     (let s = fix_header s0;
          summaries = heSort env (clean_items [] (items s));
          retain = retainedHistoryCountAfterPrune (int (length summaries)) (fLimit (hState s))
      in if 0 \<le> retain \<and> retain < int (length summaries)
         then with_items (take (nat retain) summaries) (fold drop_entry (drop (nat retain) summaries) s)
         else with_items summaries s)"

definition rebuildIndexLocked :: "HistoryEnv \<Rightarrow> HistoryStore \<Rightarrow> HistoryStore" where
  "rebuildIndexLocked env s = normalizeIndexLocked env (fold (\<lambda>(_, item). upsertSummaryLocked item) (hDetails s) s)"

definition nextRevisionLocked :: "HistoryEnv \<Rightarrow> HistoryStore \<Rightarrow> int \<times> HistoryStore" where
  "nextRevisionLocked env s =
     (let rv = (if heNano env \<le> fRevision (hState s) then fRevision (hState s) + 1 else heNano env) in
      (rv, s\<lparr>hState := (hState s)\<lparr>fRevision := rv\<rparr>\<rparr>))"

section \<open>Saving\<close>

text \<open>The pending changes are applied to the index once more before anything is written.\<close>

definition apply_pending :: "HistoryEnv \<Rightarrow> HistoryStore \<Rightarrow> HistoryStore" where
  "apply_pending env s0 =
     (let s1 = fix_header s0;
          s2 = fold (\<lambda>ident s. case gm_get (hDetails s) ident of Some item \<Rightarrow> upsertSummaryLocked item s | None \<Rightarrow> s) (sort (hDirty s1)) s1;
          s3 = fold (\<lambda>ident s. (removeSummaryLocked ident s)\<lparr>hDetails := gm_del ident (hDetails s)\<rparr>) (sort (hDeleted s2)) s2
      in normalizeIndexLocked env s3)"

fun remove_files :: "HistoryEnv \<Rightarrow> string list \<Rightarrow> HistoryStore \<Rightarrow> string option \<times> HistoryStore" where
  "remove_files env [] s = (None, s)"
| "remove_files env (ident # rest) s =
     (if \<not> isSafeDetailID ident then (Some (''invalid chat history detail id: '' @ ident), s)
      else case heIO env (RemoveDetail ident) of
        Some e \<Rightarrow> (Some (''remove stale chat history detail: '' @ e), s)
      | None \<Rightarrow> remove_files env rest (s\<lparr>dDetails := gm_del ident (dDetails s)\<rparr>))"

fun write_details :: "HistoryEnv \<Rightarrow> string list \<Rightarrow> HistoryStore \<Rightarrow> string option \<times> HistoryStore" where
  "write_details env [] s = (None, s)"
| "write_details env (ident # rest) s =
     (if ident \<in> set (hDeleted s) then write_details env rest s
      else case gm_get (hDetails s) ident of
        None \<Rightarrow> write_details env rest s
      | Some item \<Rightarrow>
          if \<not> isSafeDetailID ident then (Some (''invalid chat history detail id: '' @ ident), s)
          else case heIO env (EncodeDetail ident) of
            Some e \<Rightarrow> (Some (''encode chat history detail: '' @ e), s)
          | None \<Rightarrow> (case heIO env (WriteDetail ident) of
              Some e \<Rightarrow> (Some e, s)
            | None \<Rightarrow> write_details env rest (s\<lparr>dDetails := gm_set ident (Some (cEntry (heCodec env) item)) (dDetails s),
                hDetails := (if shouldKeepDetailCached item then hDetails s else gm_del ident (hDetails s))\<rparr>)))"

definition saveLocked :: "HistoryEnv \<Rightarrow> HistoryStore \<Rightarrow> string option \<times> HistoryStore" where
  "saveLocked env s0 =
     (let s = apply_pending env s0 in
      case heIO env MkdirDetail of
        Some e \<Rightarrow> (Some (''create chat history detail dir: '' @ e), s)
      | None \<Rightarrow> (case remove_files env (sort (hDeleted s)) s of
          (Some e, s1) \<Rightarrow> (Some e, s1)
        | (None, s1) \<Rightarrow> (case write_details env (sort (hDirty s1)) s1 of
            (Some e, s2) \<Rightarrow> (Some e, s2)
          | (None, s2) \<Rightarrow> (case heIO env EncodeIndex of
              Some e \<Rightarrow> (Some (''encode chat history index: '' @ e), s2)
            | None \<Rightarrow> (case heIO env WriteIndex of
                Some e \<Rightarrow> (Some e, s2)
              | None \<Rightarrow> (None, s2\<lparr>dIndex := Some (cIndex (heCodec env) (hState s2)), hDirty := [], hDeleted := []\<rparr>))))))"

section \<open>Reading entries\<close>

definition readDetailFile :: "HistoryEnv \<Rightarrow> string \<Rightarrow> HistoryStore \<Rightarrow> string + Entry" where
  "readDetailFile env ident s =
     (if \<not> isSafeDetailID ident then Inl (''invalid chat history detail path for id: '' @ ident)
      else case heIO env (ReadDetail ident) of
        Some e \<Rightarrow> Inl (''read chat history detail: '' @ e)
      | None \<Rightarrow> (case gm_get (dDetails s) ident of
          None \<Rightarrow> Inl ''read chat history detail: file does not exist''
        | Some None \<Rightarrow> Inl ''decode chat history detail''
        | Some (Some item) \<Rightarrow> Inr item))"

definition readDetailLocked :: "HistoryEnv \<Rightarrow> string \<Rightarrow> HistoryStore \<Rightarrow> string + Entry" where
  "readDetailLocked env id0 s = (let ident = TrimSpace id0 in
     if ident = '''' then Inl ''history id is required''
     else case gm_get (hDetails s) ident of
       Some item \<Rightarrow> Inr item
     | None \<Rightarrow> if findSummaryLocked ident s = None then Inl ''chat history entry not found'' else readDetailFile env ident s)"

definition loadDetailForUpdateLocked :: "HistoryEnv \<Rightarrow> string \<Rightarrow> HistoryStore \<Rightarrow> (string + Entry) \<times> HistoryStore" where
  "loadDetailForUpdateLocked env ident s = (case readDetailLocked env ident s of
     Inl e \<Rightarrow> (Inl e, s) | Inr item \<Rightarrow> (Inr item, s\<lparr>hDetails := gm_set (eID item) item (hDetails s)\<rparr>))"

definition Snapshot :: "HistoryStore \<Rightarrow> string + HistoryFile" where
  "Snapshot s = (case hErr s of Some e \<Rightarrow> Inl e | None \<Rightarrow> Inr (hState s))"

text \<open>A page; the length given to \<^verbatim>\<open>make\<close> panics when it is negative.\<close>

datatype page_result = PageError string | PagePanic | Page HistoryFile int

definition SnapshotPage :: "int \<Rightarrow> int \<Rightarrow> HistoryStore \<Rightarrow> page_result" where
  "SnapshotPage offset0 limit s = (case hErr s of Some e \<Rightarrow> PageError e | None \<Rightarrow>
     (let total = int (length (items s));
          offset = (let o1 = (if offset0 < 0 then 0 else offset0) in if total < o1 then total else o1);
          end_at = (let e = int64_wrap (offset + limit) in if total < e then total else e)
      in if end_at < offset then PagePanic
         else Page ((hState s)\<lparr>fItems := take (nat (end_at - offset)) (drop (nat offset) (items s))\<rparr>) total))"

definition Revision :: "HistoryStore \<Rightarrow> string + int" where
  "Revision s = (case hErr s of Some e \<Rightarrow> Inl e | None \<Rightarrow> Inr (fRevision (hState s)))"

definition Enabled :: "HistoryStore \<Rightarrow> bool" where
  "Enabled s = (hErr s = None \<and> fLimit (hState s) \<noteq> DisabledLimit)"

definition GetEntry :: "HistoryEnv \<Rightarrow> string \<Rightarrow> HistoryStore \<Rightarrow> string + Entry" where
  "GetEntry env id0 s = (case hErr s of Some e \<Rightarrow> Inl e | None \<Rightarrow>
     (let target = TrimSpace id0 in if target = '''' then Inl ''history id is required'' else readDetailLocked env target s))"

definition DetailRevision :: "string \<Rightarrow> HistoryStore \<Rightarrow> string + int" where
  "DetailRevision id0 s = (case hErr s of Some e \<Rightarrow> Inl e | None \<Rightarrow>
     (case findSummaryLocked (TrimSpace id0) s of None \<Rightarrow> Inl ''chat history entry not found'' | Some x \<Rightarrow> Inr (sDetailRevision x)))"

section \<open>Changing entries\<close>

definition new_entry :: "HistoryEnv \<Rightarrow> StartParams \<Rightarrow> int \<Rightarrow> Entry" where
  "new_entry env params revision =
     (let status0 = TrimSpace (spStatus params);
          status = (if status0 = '''' then ''streaming'' else status0)
      in \<lparr>eID = ''chat_'' @ heUUID env, eRevision = revision, eCreatedAt = heMilli env, eUpdatedAt = heMilli env, eCompletedAt = 0,
        eStatus = status, eCallerID = TrimSpace (spCallerID params), eAccountID = TrimSpace (spAccountID params),
        eRequestIP = TrimSpace (spRequestIP params), eConversationID = TrimSpace (spConversationID params),
        eModel = TrimSpace (spModel params), eStream = spStream params, eUserInput = TrimSpace (spUserInput params),
        eMessages = spMessages params, eHistoryText = spHistoryText params, eFinalPrompt = TrimSpace (spFinalPrompt params),
        eReasoningContent = '''', eContent = '''', eError = '''', eStatusCode = 0, eElapsedMs = 0, eFinishReason = '''',
        eUsage = None, eCurrentInput = no_input\<rparr>)"

text \<open>A started entry is returned together with the error of saving it.\<close>

definition StartEntry :: "HistoryEnv \<Rightarrow> StartParams \<Rightarrow> HistoryStore \<Rightarrow> (string + Entry \<times> string option) \<times> HistoryStore" where
  "StartEntry env params s = (case hErr s of Some e \<Rightarrow> (Inl e, s) | None \<Rightarrow>
     if fLimit (hState s) = DisabledLimit then (Inl ''chat history disabled'', s)
     else
       (let (revision, s1) = nextRevisionLocked env s;
            entry = new_entry env params revision;
            s2 = s1\<lparr>hDetails := gm_set (eID entry) entry (hDetails s1)\<rparr>;
            s3 = rebuildIndexLocked env (markDetailDirtyLocked (eID entry) s2);
            (err, s4) = saveLocked env s3
        in (Inr (entry, err), s4)))"

definition merge_update :: "HistoryEnv \<Rightarrow> UpdateParams \<Rightarrow> int \<Rightarrow> Entry \<Rightarrow> Entry" where
  "merge_update env params rv item = item\<lparr>
     eRevision := rv,
     eUpdatedAt := heMilli env,
     eCallerID := (if upCallerID params \<noteq> '''' then TrimSpace (upCallerID params) else eCallerID item),
     eAccountID := (if upAccountID params \<noteq> '''' then TrimSpace (upAccountID params) else eAccountID item),
     eStatus := (if upStatus params \<noteq> '''' then upStatus params else eStatus item),
     eHistoryText := (if upHistoryText params \<noteq> '''' then upHistoryText params else eHistoryText item),
     eReasoningContent := (if upReasoningContent params \<noteq> '''' \<or> eReasoningContent item = '''' then upReasoningContent params else eReasoningContent item),
     eContent := (if upContent params \<noteq> '''' \<or> eContent item = '''' then upContent params else eContent item),
     eError := TrimSpace (upError params),
     eStatusCode := upStatusCode params,
     eCurrentInput := (case upCurrentInput params of Some ci \<Rightarrow> ci\<lparr>PrefixHash := TrimSpace (PrefixHash ci)\<rparr> | None \<Rightarrow> eCurrentInput item),
     eElapsedMs := upElapsedMs params,
     eFinishReason := TrimSpace (upFinishReason params),
     eUsage := (case upUsage params of Some u \<Rightarrow> Some u | None \<Rightarrow> eUsage item),
     eCompletedAt := (if upCompleted params then heMilli env else eCompletedAt item)\<rparr>"

definition UpdateEntry :: "HistoryEnv \<Rightarrow> string \<Rightarrow> UpdateParams \<Rightarrow> HistoryStore \<Rightarrow> (string + Entry) \<times> HistoryStore" where
  "UpdateEntry env id0 params s = (case hErr s of Some e \<Rightarrow> (Inl e, s) | None \<Rightarrow>
     (let target = TrimSpace id0 in
      if target = '''' then (Inl ''history id is required'', s)
      else case loadDetailForUpdateLocked env target s of
        (Inl e, s1) \<Rightarrow> (Inl e, s1)
      | (Inr item0, s1) \<Rightarrow>
          (let (rv, s2) = nextRevisionLocked env s1;
               item = merge_update env params rv item0;
               s3 = upsertSummaryLocked item (markDetailDirtyLocked target (s2\<lparr>hDetails := gm_set target item (hDetails s2)\<rparr>))
           in case saveLocked env s3 of (Some e, s4) \<Rightarrow> (Inl e, s4) | (None, s4) \<Rightarrow> (Inr item, s4))))"

definition DeleteEntry :: "HistoryEnv \<Rightarrow> string \<Rightarrow> HistoryStore \<Rightarrow> string option \<times> HistoryStore" where
  "DeleteEntry env id0 s = (case hErr s of Some e \<Rightarrow> (Some e, s) | None \<Rightarrow>
     (let target = TrimSpace id0 in
      if target = '''' then (Some ''history id is required'', s)
      else if findSummaryLocked target s = None then (Some ''chat history entry not found'', s)
      else if \<not> isSafeDetailID target then (Some ''chat history entry id is invalid'', s)
      else let s1 = markDetailDeletedLocked target s;
               s2 = removeSummaryLocked target (s1\<lparr>hDetails := gm_del target (hDetails s1)\<rparr>)
           in saveLocked env (snd (nextRevisionLocked env s2))))"

definition ClearAll :: "HistoryEnv \<Rightarrow> HistoryStore \<Rightarrow> string option \<times> HistoryStore" where
  "ClearAll env s = (case hErr s of Some e \<Rightarrow> (Some e, s) | None \<Rightarrow>
     (let s1 = fold (\<lambda>x. markDetailDeletedLocked (sID x)) (items s) s;
          s2 = fold (\<lambda>(ident, _). markDetailDeletedLocked ident) (hDetails s1) s1
      in saveLocked env (snd (nextRevisionLocked env (with_items [] (s2\<lparr>hDetails := []\<rparr>))))))"

definition SetLimit :: "HistoryEnv \<Rightarrow> int \<Rightarrow> HistoryStore \<Rightarrow> (string + HistoryFile) \<times> HistoryStore" where
  "SetLimit env limit s = (case hErr s of Some e \<Rightarrow> (Inl e, s) | None \<Rightarrow>
     if \<not> isAllowedLimit limit then (Inl (''unsupported chat history limit: '' @ FormatInt limit), s)
     else case saveLocked env (normalizeIndexLocked env (snd (nextRevisionLocked env (s\<lparr>hState := (hState s)\<lparr>fLimit := limit\<rparr>\<rparr>)))) of
       (Some e, s1) \<Rightarrow> (Inl e, s1) | (None, s1) \<Rightarrow> (Inr (hState s1), s1))"

section \<open>Loading\<close>

definition parseLegacy :: "index_raw \<Rightarrow> (int \<times> Entry list) option" where
  "parseLegacy raw = (case legacyView raw of
     None \<Rightarrow> None
   | Some (limit, legacy_items) \<Rightarrow>
       if legacy_items = [] then None
       else case probeKeys raw of
         Some keys \<Rightarrow> if list_ex (\<lambda>ks. ''detail_revision'' \<in> set ks) keys then None else Some (limit, legacy_items)
       | None \<Rightarrow> Some (limit, legacy_items))"

definition legacy_revision :: "HistoryEnv \<Rightarrow> Entry \<Rightarrow> Entry" where
  "legacy_revision env item = (if eRevision item = 0
     then item\<lparr>eRevision := (if 0 < eUpdatedAt item then eUpdatedAt item else heNano env)\<rparr> else item)"

definition loadLegacyLocked :: "HistoryEnv \<Rightarrow> int \<times> Entry list \<Rightarrow> HistoryStore \<Rightarrow> HistoryStore" where
  "loadLegacyLocked env legacy s =
     (let entries = map (legacy_revision env) (filter (\<lambda>item. TrimSpace (eID item) \<noteq> '''') (snd legacy));
          s0 = s\<lparr>hState := (hState s)\<lparr>fVersion := FileVersion, fLimit := (if isAllowedLimit (fst legacy) then fst legacy else DefaultLimit)\<rparr>,
            hDetails := [], hDirty := [], hDeleted := []\<rparr>;
          s1 = fold (\<lambda>item t. markDetailDirtyLocked (eID item) (t\<lparr>hDetails := gm_set (eID item) item (hDetails t)\<rparr>)) entries s0;
          maxRevision = fold (\<lambda>item m. max m (eRevision item)) entries 0
      in rebuildIndexLocked env (s1\<lparr>hState := (hState s1)\<lparr>fRevision := maxRevision\<rparr>\<rparr>))"

definition unfinished :: "SummaryEntry \<Rightarrow> bool" where
  "unfinished x = (sStatus x = ''streaming'' \<or> sStatus x = ''queued'')"

definition stopped_entry :: "HistoryEnv \<Rightarrow> string \<Rightarrow> int \<Rightarrow> Entry \<Rightarrow> Entry" where
  "stopped_entry env reason rv item = item\<lparr>eRevision := rv, eUpdatedAt := heMilli env,
     eCompletedAt := (if eCompletedAt item = 0 then heMilli env else eCompletedAt item),
     eElapsedMs := (if eElapsedMs item \<le> 0 \<and> 0 < eCreatedAt item \<and> eCreatedAt item \<le> heMilli env then heMilli env - eCreatedAt item else eElapsedMs item),
     eStatus := ''stopped'', eFinishReason := ''server_restart'',
     eError := (if TrimSpace (eError item) = '''' then reason else eError item)\<rparr>"

definition stop_one :: "HistoryEnv \<Rightarrow> string \<Rightarrow> SummaryEntry \<Rightarrow> HistoryStore \<Rightarrow> HistoryStore" where
  "stop_one env reason summary s =
     (if \<not> unfinished summary then s
      else let (res, s1) = loadDetailForUpdateLocked env (sID summary) s;
               item0 = (case res of Inr item \<Rightarrow> item | Inl _ \<Rightarrow> entryFromSummary summary);
               (rv, s2) = nextRevisionLocked env s1;
               item = stopped_entry env reason rv item0
           in upsertSummaryLocked item (markDetailDirtyLocked (sID summary) (s2\<lparr>hDetails := gm_set (sID summary) item (hDetails s2)\<rparr>)))"

definition stopUnfinishedLocked :: "HistoryEnv \<Rightarrow> string \<Rightarrow> HistoryStore \<Rightarrow> HistoryStore" where
  "stopUnfinishedLocked env reason s = fold (stop_one env reason) (items s) s"

definition restart_reason :: string where
  "restart_reason = ''server restarted before request completed''"

definition loadLocked :: "HistoryEnv \<Rightarrow> string \<Rightarrow> HistoryStore \<Rightarrow> string option \<times> HistoryStore" where
  "loadLocked env path s =
     (if TrimSpace path = [] then (Some ''chat history path is required'', s) else
      case heIO env MkdirParent of Some e \<Rightarrow> (Some (''create chat history dir: '' @ e), s) | None \<Rightarrow>
      case heIO env MkdirDetail of Some e \<Rightarrow> (Some (''create chat history detail dir: '' @ e), s) | None \<Rightarrow>
      case heIO env ReadIndex of Some e \<Rightarrow> (Some (''read chat history index: '' @ e), s) | None \<Rightarrow>
      case dIndex s of
        None \<Rightarrow> (None, snd (saveLocked env s))
      | Some raw \<Rightarrow>
          (case parseLegacy raw of
             Some legacy \<Rightarrow> (None, snd (saveLocked env (stopUnfinishedLocked env restart_reason (loadLegacyLocked env legacy s))))
           | None \<Rightarrow> (case indexView raw of
               None \<Rightarrow> (Some ''decode chat history index'', s)
             | Some f0 \<Rightarrow>
                 (let f = f0\<lparr>fVersion := (if fVersion f0 = 0 then FileVersion else fVersion f0),
                        fLimit := (if isAllowedLimit (fLimit f0) then fLimit f0 else DefaultLimit)\<rparr>;
                      s1 = normalizeIndexLocked env (s\<lparr>hState := f, hDetails := []\<rparr>)
                  in (None, snd (saveLocked env (stopUnfinishedLocked env restart_reason s1)))))))"

definition empty_file :: HistoryFile where
  "empty_file = \<lparr>fVersion = FileVersion, fLimit = DefaultLimit, fRevision = 0, fItems = []\<rparr>"

definition NewStore :: "HistoryEnv \<Rightarrow> string \<Rightarrow> index_raw option \<Rightarrow> (string, Entry option) gomap \<Rightarrow> HistoryStore" where
  "NewStore env path index_file detail_files =
     (case loadLocked env (TrimSpace path) \<lparr>hState = empty_file, hDetails = [], hDirty = [], hDeleted = [], hErr = None,
        dIndex = index_file, dDetails = detail_files\<rparr> of (err, s) \<Rightarrow> s\<lparr>hErr := err\<rparr>)"

section \<open>The index is well-formed\<close>

definition sorts :: "(SummaryEntry list \<Rightarrow> SummaryEntry list) \<Rightarrow> bool" where
  "sorts f \<longleftrightarrow> (\<forall>xs. mset (f xs) = mset xs \<and> sorted_wrt (\<lambda>a b. \<not> newer b a) (f xs))"

definition within_limit :: "int \<Rightarrow> nat \<Rightarrow> bool" where
  "within_limit limit n \<longleftrightarrow> limit = DisabledLimit \<or> int n \<le> limit \<and> int n < MaxLimit"

definition index_wf :: "HistoryFile \<Rightarrow> bool" where
  "index_wf f \<longleftrightarrow> fVersion f = FileVersion \<and> isAllowedLimit (fLimit f) \<and> distinct (map sID (fItems f)) \<and>
     (\<forall>x \<in> set (fItems f). sID x \<noteq> '''' \<and> TrimSpace (sID x) = sID x) \<and>
     sorted_wrt (\<lambda>a b. \<not> newer b a) (fItems f) \<and> within_limit (fLimit f) (length (fItems f))"

lemma clean_items_ids:
  "(\<forall>x \<in> set (clean_items seen xs). sID x \<noteq> '''' \<and> TrimSpace (sID x) = sID x \<and> sID x \<notin> set seen) \<and> distinct (map sID (clean_items seen xs))"
proof (induction xs arbitrary: seen)
  case (Cons x xs)
  show ?case
    using Cons.IH [of seen] Cons.IH [of "TrimSpace (sID x) # seen"] by (auto simp: Let_def)
qed simp

lemma drop_entry_state [simp]: "hState (fold drop_entry xs s) = hState s"
  by (induction xs arbitrary: s) (auto simp: drop_entry_def markDetailDeletedLocked_def Let_def)

lemma with_items_simps [simp]:
  "hState (with_items xs s) = (hState s)\<lparr>fItems := xs\<rparr>" "hDetails (with_items xs s) = hDetails s" "hDirty (with_items xs s) = hDirty s"
  "hDeleted (with_items xs s) = hDeleted s" "dIndex (with_items xs s) = dIndex s" "dDetails (with_items xs s) = dDetails s" "hErr (with_items xs s) = hErr s"
  by (simp_all add: with_items_def)

lemma allowed_default [simp]: "isAllowedLimit DefaultLimit"
  by (simp add: isAllowedLimit_def allowedLimits_def DefaultLimit_def MaxLimit_def)

lemma retained_within:
  assumes "isAllowedLimit limit"
  shows "within_limit limit (if 0 \<le> retainedHistoryCountAfterPrune (int n) limit \<and> retainedHistoryCountAfterPrune (int n) limit < int n
    then nat (retainedHistoryCountAfterPrune (int n) limit) else n)"
  using assms
  by (auto simp: within_limit_def retainedHistoryCountAfterPrune_def isAllowedLimit_def allowedLimits_def DisabledLimit_def MaxLimit_def
      BurstPruneRetainedLimit_def Let_def)

lemma normalize_wf:
  assumes "sorts (heSort env)"
  shows "index_wf (hState (normalizeIndexLocked env s))"
proof -
  let ?s = "fix_header s"
  define ys where "ys = heSort env (clean_items [] (items ?s))"
  define n where "n = (if 0 \<le> retainedHistoryCountAfterPrune (int (length ys)) (fLimit (hState ?s)) \<and>
    retainedHistoryCountAfterPrune (int (length ys)) (fLimit (hState ?s)) < int (length ys)
    then nat (retainedHistoryCountAfterPrune (int (length ys)) (fLimit (hState ?s))) else length ys)"
  have st: "hState (normalizeIndexLocked env s) = (hState ?s)\<lparr>fItems := take n ys\<rparr>"
    by (simp add: normalizeIndexLocked_def Let_def ys_def [symmetric] n_def)
  have ms: "mset ys = mset (clean_items [] (items ?s))" and so: "sorted_wrt (\<lambda>a b. \<not> newer b a) ys"
    using assms by (auto simp: sorts_def ys_def)
  have set_ys: "set ys = set (clean_items [] (items ?s))" using ms mset_eq_setD by blast
  have "mset (map sID ys) = mset (map sID (clean_items [] (items ?s)))" using ms by (metis mset_map)
  then have d: "distinct (map sID ys)" using clean_items_ids mset_eq_imp_distinct_iff by blast
  have lim: "isAllowedLimit (fLimit (hState ?s))" by (simp add: fix_header_def)
  have "n \<le> length ys" by (auto simp: n_def)
  then have ln: "length (take n ys) = n" by simp
  have w: "within_limit (fLimit (hState ?s)) (length (take n ys))"
    using retained_within [OF lim, of "length ys"] unfolding ln unfolding n_def .
  have "sID x \<noteq> '''' \<and> TrimSpace (sID x) = sID x" if "x \<in> set (take n ys)" for x
    using in_set_takeD [OF that] clean_items_ids [of "[]" "items ?s"] set_ys by auto
  then show ?thesis
    using d so lim w unfolding st index_wf_def
    by (simp add: fix_header_def take_map [symmetric] sorted_wrt_take)
qed

definition pending_ok :: "HistoryStore \<Rightarrow> bool" where
  "pending_ok s \<longleftrightarrow> set (hDirty s) \<inter> set (hDeleted s) = {} \<and> distinct (hDirty s) \<and> distinct (hDeleted s)"

lemma pending_marks:
  "pending_ok s \<Longrightarrow> pending_ok (markDetailDirtyLocked i s)" "pending_ok s \<Longrightarrow> pending_ok (markDetailDeletedLocked i s)"
  by (auto simp: pending_ok_def markDetailDirtyLocked_def markDetailDeletedLocked_def Let_def distinct_removeAll)

lemma pending_cong: "hDirty s' = hDirty s \<Longrightarrow> hDeleted s' = hDeleted s \<Longrightarrow> pending_ok s' = pending_ok s"
  by (simp add: pending_ok_def)

lemma fold_keeps: "(\<And>x t. x \<in> set xs \<Longrightarrow> P t \<Longrightarrow> P (f x t)) \<Longrightarrow> P s \<Longrightarrow> P (fold f xs s)"
  by (induction xs arbitrary: s) auto

lemma fold_field: "(\<And>x t. g (f x t) = g t) \<Longrightarrow> g (fold f xs s) = g s"
  by (induction xs arbitrary: s) auto

lemma upsert_simps [simp]:
  "hDetails (upsertSummaryLocked e s) = hDetails s" "hDirty (upsertSummaryLocked e s) = hDirty s" "hDeleted (upsertSummaryLocked e s) = hDeleted s"
  "dIndex (upsertSummaryLocked e s) = dIndex s" "dDetails (upsertSummaryLocked e s) = dDetails s" "hErr (upsertSummaryLocked e s) = hErr s"
  by (simp_all add: upsertSummaryLocked_def Let_def)

lemma removeSummary_simps [simp]:
  "hDetails (removeSummaryLocked i s) = hDetails s" "hDirty (removeSummaryLocked i s) = hDirty s" "hDeleted (removeSummaryLocked i s) = hDeleted s"
  "dIndex (removeSummaryLocked i s) = dIndex s" "dDetails (removeSummaryLocked i s) = dDetails s" "hErr (removeSummaryLocked i s) = hErr s"
  by (simp_all add: removeSummaryLocked_def Let_def)

lemma mark_simps [simp]:
  "hState (markDetailDirtyLocked i s) = hState s" "hDetails (markDetailDirtyLocked i s) = hDetails s" "dIndex (markDetailDirtyLocked i s) = dIndex s"
  "dDetails (markDetailDirtyLocked i s) = dDetails s" "hErr (markDetailDirtyLocked i s) = hErr s"
  "hState (markDetailDeletedLocked i s) = hState s" "hDetails (markDetailDeletedLocked i s) = hDetails s" "dIndex (markDetailDeletedLocked i s) = dIndex s"
  "dDetails (markDetailDeletedLocked i s) = dDetails s" "hErr (markDetailDeletedLocked i s) = hErr s"
  by (simp_all add: markDetailDirtyLocked_def markDetailDeletedLocked_def Let_def)

lemma fix_header_simps [simp]:
  "items (fix_header s) = items s" "hDetails (fix_header s) = hDetails s" "hDirty (fix_header s) = hDirty s" "hDeleted (fix_header s) = hDeleted s"
  "dIndex (fix_header s) = dIndex s" "dDetails (fix_header s) = dDetails s" "hErr (fix_header s) = hErr s" "fRevision (hState (fix_header s)) = fRevision (hState s)"
  by (simp_all add: fix_header_def)

lemma pending_drops: "pending_ok s \<Longrightarrow> pending_ok (fold drop_entry xs s)"
proof (rule fold_keeps [where P = pending_ok])
  show "pending_ok (drop_entry x t)" if "pending_ok t" for x t
    using pending_marks(2) [OF that, of "sID x"] by (simp add: drop_entry_def Let_def pending_ok_def)
qed

lemma normalize_pending: "pending_ok s \<Longrightarrow> pending_ok (normalizeIndexLocked env s)"
  using pending_drops [of "fix_header s"] by (simp add: normalizeIndexLocked_def Let_def pending_ok_def)

lemma apply_pending_pending: "pending_ok s \<Longrightarrow> pending_ok (apply_pending env s)"
proof -
  assume p: "pending_ok s"
  let ?u = "\<lambda>ident s. case gm_get (hDetails s) ident of Some item \<Rightarrow> upsertSummaryLocked item s | None \<Rightarrow> s"
  let ?r = "\<lambda>ident s. (removeSummaryLocked ident s)\<lparr>hDetails := gm_del ident (hDetails s)\<rparr>"
  have u: "pending_ok (fold ?u xs t)" if "pending_ok t" for xs t
    by (rule fold_keeps [where P = pending_ok]) (use that in \<open>auto simp: pending_ok_def split: option.splits\<close>)
  have r: "pending_ok (fold ?r xs t)" if "pending_ok t" for xs t
    by (rule fold_keeps [where P = pending_ok]) (use that in \<open>auto simp: pending_ok_def\<close>)
  have "pending_ok (fix_header s)" using p by (simp add: pending_ok_def)
  then show ?thesis unfolding apply_pending_def Let_def by (intro normalize_pending r u)
qed

lemma remove_files_simps:
  "hState (snd (remove_files env xs s)) = hState s" "hDirty (snd (remove_files env xs s)) = hDirty s" "hDeleted (snd (remove_files env xs s)) = hDeleted s"
  "hDetails (snd (remove_files env xs s)) = hDetails s" "hErr (snd (remove_files env xs s)) = hErr s" "dIndex (snd (remove_files env xs s)) = dIndex s"
  by (induction env xs s rule: remove_files.induct) (auto split: option.splits)

lemma write_details_simps:
  "hState (snd (write_details env xs s)) = hState s" "hDirty (snd (write_details env xs s)) = hDirty s" "hDeleted (snd (write_details env xs s)) = hDeleted s"
  "hErr (snd (write_details env xs s)) = hErr s" "dIndex (snd (write_details env xs s)) = dIndex s"
  by (induction env xs s rule: write_details.induct) (auto split: option.splits)

lemma saveLocked_state: "hState (snd (saveLocked env s)) = hState (apply_pending env s)"
  using remove_files_simps(1) [of env "sort (hDeleted (apply_pending env s))" "apply_pending env s"]
    write_details_simps(1) [of env]
  by (auto simp: saveLocked_def Let_def split: option.splits prod.splits) (metis snd_conv)+

lemma saveLocked_wf: "sorts (heSort env) \<Longrightarrow> index_wf (hState (snd (saveLocked env s)))"
  unfolding saveLocked_state apply_pending_def Let_def by (rule normalize_wf)

lemma saveLocked_pending: "pending_ok s \<Longrightarrow> pending_ok (snd (saveLocked env s))"
proof -
  assume "pending_ok s"
  then have p: "pending_ok (apply_pending env s)" by (rule apply_pending_pending)
  obtain e1 s1 where r: "remove_files env (sort (hDeleted (apply_pending env s))) (apply_pending env s) = (e1, s1)" by fastforce
  obtain e2 s2 where w: "write_details env (sort (hDirty s1)) s1 = (e2, s2)" by fastforce
  have "pending_ok s1" using p remove_files_simps(2,3) [of env] r by (metis pending_cong snd_conv)
  moreover have "pending_ok s2" using calculation write_details_simps(2,3) [of env] w by (metis pending_cong snd_conv)
  ultimately show ?thesis using p by (auto simp: saveLocked_def Let_def r w pending_ok_def split: option.splits)
qed

lemma next_revision_fields [simp]:
  "items (snd (nextRevisionLocked env s)) = items s" "hDetails (snd (nextRevisionLocked env s)) = hDetails s" "hDirty (snd (nextRevisionLocked env s)) = hDirty s"
  "hDeleted (snd (nextRevisionLocked env s)) = hDeleted s" "dDetails (snd (nextRevisionLocked env s)) = dDetails s" "hErr (snd (nextRevisionLocked env s)) = hErr s"
  "fLimit (hState (snd (nextRevisionLocked env s))) = fLimit (hState s)" "dIndex (snd (nextRevisionLocked env s)) = dIndex s"
  by (simp_all add: nextRevisionLocked_def Let_def)

lemma pending_next [simp]: "pending_ok (snd (nextRevisionLocked env s)) = pending_ok s"
  by (simp add: pending_ok_def)

lemma pending_details [simp]: "pending_ok (s\<lparr>hDetails := d\<rparr>) = pending_ok s" "pending_ok (s\<lparr>hState := f\<rparr>) = pending_ok s"
  "pending_ok (s\<lparr>hErr := er\<rparr>) = pending_ok s" "pending_ok (with_items xs s) = pending_ok s" "pending_ok (upsertSummaryLocked e s) = pending_ok s"
  "pending_ok (removeSummaryLocked i s) = pending_ok s"
  by (simp_all add: pending_ok_def)

lemma rebuild_pending: "pending_ok s \<Longrightarrow> pending_ok (rebuildIndexLocked env s)"
  unfolding rebuildIndexLocked_def by (intro normalize_pending fold_keeps [where P = pending_ok]) auto

section \<open>Sequences of operations\<close>

datatype history_op = OpStart StartParams | OpUpdate string UpdateParams | OpDelete string | OpClear | OpSetLimit int

fun history_step :: "HistoryEnv \<Rightarrow> history_op \<Rightarrow> HistoryStore \<Rightarrow> HistoryStore" where
  "history_step env (OpStart params) s = snd (StartEntry env params s)"
| "history_step env (OpUpdate ident params) s = snd (UpdateEntry env ident params s)"
| "history_step env (OpDelete ident) s = snd (DeleteEntry env ident s)"
| "history_step env OpClear s = snd (ClearAll env s)"
| "history_step env (OpSetLimit limit) s = snd (SetLimit env limit s)"

text \<open>A store opened over any files whatever, and then changed.\<close>

inductive history_any :: "HistoryStore \<Rightarrow> bool" where
  opened: "sorts (heSort env) \<Longrightarrow> history_any (NewStore env path index_file detail_files)"
| changed: "history_any s \<Longrightarrow> sorts (heSort env) \<Longrightarrow> history_any (history_step env op s)"

text \<open>An operation leaves the store alone, or ends by saving it.\<close>

lemma step_saves:
  assumes "pending_ok s"
  shows "history_step env op s = s \<or> (\<exists>t. pending_ok t \<and> history_step env op s = snd (saveLocked env t))"
proof (cases op)
  case (OpStart params)
  obtain rv s1 where r: "nextRevisionLocked env s = (rv, s1)" by fastforce
  have "pending_ok s1" using assms pending_next [of env s] r by simp
  then have "pending_ok (rebuildIndexLocked env (markDetailDirtyLocked i (s1\<lparr>hDetails := d\<rparr>)))" for i d
    by (intro rebuild_pending pending_marks) simp
  then show ?thesis using r by (auto simp: OpStart StartEntry_def Let_def case_prod_beta split: option.splits)
next
  case (OpUpdate i params)
  show ?thesis
  proof (cases "loadDetailForUpdateLocked env (TrimSpace i) s")
    case (Pair res s1)
    have s1: "pending_ok s1" "\<And>e. res = Inl e \<Longrightarrow> s1 = s"
      using Pair assms by (auto simp: loadDetailForUpdateLocked_def split: sum.splits)
    obtain rv s2 where r: "nextRevisionLocked env s1 = (rv, s2)" by fastforce
    have "pending_ok s2" using s1 pending_next [of env s1] r by simp
    then have p: "pending_ok (upsertSummaryLocked e (markDetailDirtyLocked k (s2\<lparr>hDetails := d\<rparr>)))" for e k d
      by (simp add: pending_marks)
    show ?thesis
    proof (cases res)
      case (Inr item)
      let ?e = "merge_update env params rv item"
      let ?t = "upsertSummaryLocked ?e (markDetailDirtyLocked (TrimSpace i) (s2\<lparr>hDetails := gm_set (TrimSpace i) ?e (hDetails s2)\<rparr>))"
      have "history_step env op s = s \<or> history_step env op s = snd (saveLocked env ?t)"
        using Inr Pair r by (auto simp: OpUpdate UpdateEntry_def Let_def split: option.splits prod.splits)
      then show ?thesis using p [of ?e "TrimSpace i" "gm_set (TrimSpace i) ?e (hDetails s2)"] by blast
    qed (use Pair s1 in \<open>auto simp: OpUpdate UpdateEntry_def Let_def split: option.splits\<close>)
  qed
next
  case (OpDelete i)
  let ?t = "snd (nextRevisionLocked env (removeSummaryLocked (TrimSpace i) ((markDetailDeletedLocked (TrimSpace i) s)\<lparr>hDetails := gm_del (TrimSpace i) (hDetails s)\<rparr>)))"
  have "pending_ok ?t" using assms by (simp add: pending_marks)
  moreover have "history_step env op s = s \<or> history_step env op s = snd (saveLocked env ?t)"
    unfolding OpDelete by (auto simp: DeleteEntry_def Let_def split: option.splits)
  ultimately show ?thesis by blast
next
  case OpClear
  let ?s1 = "fold (\<lambda>x. markDetailDeletedLocked (sID x)) (items s) s"
  have "pending_ok ?s1" by (rule fold_keeps [where P = pending_ok]) (simp_all add: pending_marks assms)
  then have "pending_ok (fold (\<lambda>(ident, _). markDetailDeletedLocked ident) d ?s1)" for d :: "(string, Entry) gomap"
    by (rule fold_keeps [where P = pending_ok, rotated]) (auto simp: pending_marks)
  then have "pending_ok (snd (nextRevisionLocked env (with_items [] ((fold (\<lambda>(ident, _). markDetailDeletedLocked ident) (hDetails ?s1) ?s1)\<lparr>hDetails := []\<rparr>))))"
    (is "pending_ok ?t") by simp
  moreover have "history_step env op s = s \<or> history_step env op s = snd (saveLocked env ?t)"
    unfolding OpClear by (cases "hErr s") (simp_all add: ClearAll_def Let_def)
  ultimately show ?thesis by blast
next
  case (OpSetLimit limit)
  let ?t = "normalizeIndexLocked env (snd (nextRevisionLocked env (s\<lparr>hState := (hState s)\<lparr>fLimit := limit\<rparr>\<rparr>)))"
  have "pending_ok ?t" using assms by (intro normalize_pending) simp
  moreover have "history_step env op s = s \<or> history_step env op s = snd (saveLocked env ?t)"
    unfolding OpSetLimit by (auto simp: SetLimit_def split: option.splits prod.splits)
  ultimately show ?thesis by blast
qed

lemma stop_one_pending: "pending_ok s \<Longrightarrow> pending_ok (stop_one env reason x s)"
proof -
  assume p: "pending_ok s"
  obtain res s1 where l: "loadDetailForUpdateLocked env (sID x) s = (res, s1)" by fastforce
  obtain rv s2 where r: "nextRevisionLocked env s1 = (rv, s2)" by fastforce
  have "pending_ok s1" using p l by (auto simp: loadDetailForUpdateLocked_def split: sum.splits)
  then have "pending_ok s2" using pending_next [of env s1] r by simp
  then show ?thesis using p l r by (simp add: stop_one_def Let_def pending_marks)
qed

lemma NewStore_pending: "pending_ok (NewStore env path index_file detail_files) \<and>
  (sorts (heSort env) \<longrightarrow> index_wf (hState (NewStore env path index_file detail_files)))"
proof -
  let ?s = "\<lparr>hState = empty_file, hDetails = [], hDirty = [], hDeleted = [], hErr = None, dIndex = index_file, dDetails = detail_files\<rparr>"
  let ?ok = "\<lambda>s. pending_ok s \<and> (sorts (heSort env) \<longrightarrow> index_wf (hState s))"
  have s: "?ok ?s" by (simp add: pending_ok_def empty_file_def index_wf_def within_limit_def DefaultLimit_def MaxLimit_def isAllowedLimit_def allowedLimits_def)
  have saved: "?ok (snd (saveLocked env t))" if "pending_ok t" for t using saveLocked_pending [OF that] saveLocked_wf by simp
  have stop: "pending_ok (stopUnfinishedLocked env reason t)" if "pending_ok t" for reason t
    unfolding stopUnfinishedLocked_def by (rule fold_keeps [where P = pending_ok]) (simp_all add: that stop_one_pending)
  have legacy: "pending_ok (loadLegacyLocked env l ?s)" for l
    unfolding loadLegacyLocked_def Let_def
    by (intro rebuild_pending, subst pending_details, rule fold_keeps [where P = pending_ok]) (simp_all add: pending_marks, simp add: pending_ok_def)
  have index: "pending_ok (normalizeIndexLocked env (?s\<lparr>hState := f, hDetails := []\<rparr>))" for f
    by (rule normalize_pending) (use s in \<open>simp add: pending_ok_def\<close>)
  have "?ok (snd (loadLocked env p ?s))" for p
    using s saved [OF stop [OF legacy]] saved [OF stop [OF index]] saved [of ?s]
    by (auto simp: loadLocked_def Let_def split: option.splits)
  then show ?thesis by (simp add: NewStore_def case_prod_beta)
qed

lemma history_any_wf:
  "history_any s \<Longrightarrow> index_wf (hState s) \<and> pending_ok s"
proof (induction rule: history_any.induct)
  case (opened env path index_file detail_files)
  then show ?case using NewStore_pending by simp
next
  case (changed s env op)
  then show ?case using step_saves [of s env op] saveLocked_wf saveLocked_pending by auto
qed

text \<open>C13: Whatever files the history store is opened over, and whatever operations follow, with whatever disk errors, its index has the current version and an
  allowed limit, lists each identifier once, non-empty and without surrounding space, newest entries first, and holds no more entries than the limit
  and fewer than the maximum; and no identifier waits both to be written and to be removed.\<close>

theorem history_index_wf:
  assumes "history_any s"
  shows "index_wf (hState s) \<and> pending_ok s"
  using assms by (rule history_any_wf)

text \<open>An environment whose encoder loses nothing, whose files can all be read and written, and whose sort is stable.\<close>

definition plain_codec :: HistoryCodec where
  "plain_codec = \<lparr>cEntry = (\<lambda>e. e), cIndex = (\<lambda>f. \<lparr>legacyView = None, probeKeys = None, indexView = Some f\<rparr>)\<rparr>"

definition newest_first :: "SummaryEntry list \<Rightarrow> SummaryEntry list" where
  "newest_first = sort_key (\<lambda>x. (- sUpdatedAt x, - sCreatedAt x))"

definition plain_env :: "int \<Rightarrow> string \<Rightarrow> HistoryEnv" where
  "plain_env now uuid = \<lparr>heMilli = now, heNano = now * 1000000, heUUID = uuid, heIO = (\<lambda>_. None), heSort = newest_first, heCodec = plain_codec\<rparr>"

definition plain_params :: StartParams where
  "plain_params = \<lparr>spCallerID = ''caller'', spAccountID = ''acc'', spRequestIP = '''', spConversationID = '''', spStatus = '''', spModel = ''m'', spStream = True,
     spUserInput = ''hello'', spMessages = [], spHistoryText = '''', spFinalPrompt = ''''\<rparr>"

lemma newest_first_sorts: "sorts newest_first"
proof -
  have "sorted_wrt (\<lambda>a b. \<not> newer b a) (newest_first xs)" for xs
  proof -
    have "sorted (map (\<lambda>x. (- sUpdatedAt x, - sCreatedAt x)) (newest_first xs))" by (simp add: newest_first_def)
    then have "sorted_wrt (\<lambda>a b. (- sUpdatedAt a, - sCreatedAt a) \<le> (- sUpdatedAt b, - sCreatedAt b)) (newest_first xs)" by (simp add: sorted_wrt_map)
    then show ?thesis by (rule sorted_wrt_mono_rel [rotated]) (auto simp: newer_def less_eq_prod_def split: if_splits)
  qed
  then show ?thesis by (simp add: sorts_def newest_first_def)
qed

lemma plain_env_sorts: "sorts (heSort (plain_env now uuid))"
  by (simp add: plain_env_def newest_first_sorts)

theorem history_index_wf_witness:
  "let s = history_step (plain_env 7 ''b'') (OpSetLimit 10) (history_step (plain_env 5 ''a'') (OpStart plain_params) (NewStore (plain_env 3 ''x'') ''h.json'' None []))
   in history_any s \<and> index_wf (hState s) \<and> pending_ok s"
  unfolding Let_def using history_index_wf history_any.intros plain_env_sorts by blast

end
