(* ===== verification/History_Index.thy ===== *)
theory History_Index
  imports Chat_History
begin

text \<open>
  What the chat history store promises (\<^verbatim>\<open>chathistory/store.go\<close>): the index describes the entries that can be read, each operation
  changes the entry it names and no other, and a restart recovers what was saved.
\<close>

section \<open>The index describes the entries\<close>

text \<open>The summary listed for an identifier.\<close>

definition listed :: "SummaryEntry list \<Rightarrow> string \<Rightarrow> SummaryEntry option" where
  "listed xs k = map_of (map (\<lambda>x. (sID x, x)) xs) k"

lemma listed_Cons [simp]: "listed [] k = None" "listed (x # xs) k = (if k = sID x then Some x else listed xs k)"
  by (simp_all add: listed_def)

lemma listed_id: "listed xs k = Some x \<Longrightarrow> sID x = k \<and> x \<in> set xs"
  by (induction xs) (auto split: if_splits)

lemma listed_find: "find (\<lambda>x. sID x = k) xs = listed xs k"
  by (induction xs) auto

lemma listed_None: "listed xs k = None \<longleftrightarrow> k \<notin> sID ` set xs"
  by (induction xs) auto

lemma listed_member: "distinct (map sID xs) \<Longrightarrow> x \<in> set xs \<Longrightarrow> listed xs (sID x) = Some x"
  by (induction xs) (auto simp: image_iff)

lemma listed_upsert: "listed (upsert_items x xs) k = (if k = sID x then Some x else listed xs k)"
  by (induction xs) auto

lemma listed_filter: "listed (filter (\<lambda>x. sID x \<noteq> i) xs) k = (if k = i then None else listed xs k)"
  by (induction xs) auto

lemma listed_perm:
  assumes "mset ys = mset xs" "distinct (map sID xs)"
  shows "listed ys k = listed xs k" "distinct (map sID ys)"
proof -
  have s: "set ys = set xs" using assms(1) mset_eq_setD by blast
  have "mset (map sID ys) = mset (map sID xs)" using assms(1) by (metis mset_map)
  then show d: "distinct (map sID ys)" using assms(2) mset_eq_imp_distinct_iff by blast
  show "listed ys k = listed xs k"
  proof (cases "listed xs k")
    case None
    then have "listed ys k = None" unfolding listed_None s .
    then show ?thesis using None by simp
  next
    case (Some x)
    then show ?thesis using listed_id [OF Some] listed_member [OF d, of x] s by auto
  qed
qed

lemma listed_take:
  assumes "distinct (map sID ys)"
  shows "listed (take n ys) k = (if k \<in> sID ` set (drop n ys) then None else listed ys k)"
proof -
  have d: "distinct (map sID (take n ys) @ map sID (drop n ys))" using assms by (metis append_take_drop_id map_append)
  show ?thesis
  proof (cases "listed (take n ys) k")
    case (Some x)
    then have x: "x \<in> set (take n ys)" "sID x = k" using listed_id by auto
    then have "k \<notin> sID ` set (drop n ys)" using d by (auto simp: image_iff)
    moreover have "listed ys k = Some x" using listed_member [OF assms, of x] x in_set_takeD by force
    ultimately show ?thesis using Some by simp
  next
    case None
    have "set ys = set (take n ys) \<union> set (drop n ys)" by (metis append_take_drop_id set_append)
    then have "listed ys k = None" if "k \<notin> sID ` set (drop n ys)" using that None by (simp add: listed_None image_Un)
    then show ?thesis using None by simp
  qed
qed

lemma upsert_ids: "sID ` set (upsert_items x xs) = insert (sID x) (sID ` set xs)" "distinct (map sID xs) \<Longrightarrow> distinct (map sID (upsert_items x xs))"
  by (induction xs) (auto simp: image_iff)

lemma clean_items_id:
  "distinct (map sID xs) \<Longrightarrow> \<forall>x \<in> set xs. sID x \<noteq> '''' \<and> TrimSpace (sID x) = sID x \<and> sID x \<notin> set seen \<Longrightarrow> clean_items seen xs = xs"
proof (induction xs arbitrary: seen)
  case (Cons x xs)
  have "clean_items (sID x # seen) xs = xs" by (rule Cons.IH) (use Cons.prems in \<open>auto simp: image_iff\<close>)
  then show ?case using Cons.prems by (simp add: Let_def)
qed simp

definition ids_ok :: "SummaryEntry list \<Rightarrow> bool" where
  "ids_ok xs \<longleftrightarrow> distinct (map sID xs) \<and> (\<forall>x \<in> set xs. sID x \<noteq> '''' \<and> TrimSpace (sID x) = sID x \<and> isSafeDetailID (sID x))"

definition coherent :: "HistoryCodec \<Rightarrow> HistoryStore \<Rightarrow> bool" where
  "coherent cd s \<longleftrightarrow> ids_ok (items s) \<and> pending_ok s \<and> gm_wf (hDetails s) \<and>
     (\<forall>k e. gm_get (hDetails s) k = Some e \<longrightarrow> eID e = k \<and> listed (items s) k = Some (summaryFromEntry e)) \<and>
     (\<forall>k x. listed (items s) k = Some x \<longrightarrow> gm_get (hDetails s) k = None \<longrightarrow>
        (\<exists>e. summaryFromEntry e = x \<and> gm_get (dDetails s) k = Some (Some (cEntry cd e)))) \<and>
     (\<forall>k \<in> set (hDeleted s). TrimSpace k = k \<and> listed (items s) k = None) \<and>
     (\<forall>k e. gm_get (hDetails s) k = Some e \<longrightarrow> k \<notin> set (hDirty s) \<longrightarrow> gm_get (dDetails s) k = Some (Some (cEntry cd e)))"

lemma coherentI:
  assumes "ids_ok (items s)" "pending_ok s" "gm_wf (hDetails s)"
    "\<And>k e. gm_get (hDetails s) k = Some e \<Longrightarrow> eID e = k \<and> listed (items s) k = Some (summaryFromEntry e)"
    "\<And>k x. listed (items s) k = Some x \<Longrightarrow> gm_get (hDetails s) k = None \<Longrightarrow>
       \<exists>e. summaryFromEntry e = x \<and> gm_get (dDetails s) k = Some (Some (cEntry cd e))"
    "\<And>k. k \<in> set (hDeleted s) \<Longrightarrow> TrimSpace k = k \<and> listed (items s) k = None"
    "\<And>k e. gm_get (hDetails s) k = Some e \<Longrightarrow> k \<notin> set (hDirty s) \<Longrightarrow> gm_get (dDetails s) k = Some (Some (cEntry cd e))"
  shows "coherent cd s"
  using assms unfolding coherent_def by blast

lemma coherentD:
  assumes "coherent cd s"
  shows "ids_ok (items s)" "pending_ok s" "gm_wf (hDetails s)"
    "gm_get (hDetails s) k = Some e \<Longrightarrow> eID e = k \<and> listed (items s) k = Some (summaryFromEntry e)"
    "listed (items s) k = Some x \<Longrightarrow> gm_get (hDetails s) k = None \<Longrightarrow>
       \<exists>e. summaryFromEntry e = x \<and> gm_get (dDetails s) k = Some (Some (cEntry cd e))"
    "k \<in> set (hDeleted s) \<Longrightarrow> TrimSpace k = k \<and> listed (items s) k = None"
    "gm_get (hDetails s) k = Some e \<Longrightarrow> k \<notin> set (hDirty s) \<Longrightarrow> gm_get (dDetails s) k = Some (Some (cEntry cd e))"
  using assms unfolding coherent_def by blast+

lemma ids_ok_listed: "ids_ok xs \<Longrightarrow> listed xs k = Some x \<Longrightarrow> sID x = k \<and> k \<noteq> '''' \<and> TrimSpace k = k \<and> isSafeDetailID k"
  using listed_id [of xs k x] by (auto simp: ids_ok_def)

lemma coherent_cong:
  "items s' = items s \<Longrightarrow> hDetails s' = hDetails s \<Longrightarrow> hDirty s' = hDirty s \<Longrightarrow> hDeleted s' = hDeleted s \<Longrightarrow> dDetails s' = dDetails s \<Longrightarrow>
    coherent cd s' = coherent cd s"
  by (simp add: coherent_def pending_ok_def)

lemma drop_entries:
  assumes "\<forall>x \<in> set xs. sID x \<noteq> '''' \<and> TrimSpace (sID x) = sID x"
  shows "gm_get (hDetails (fold drop_entry xs s)) k = (if k \<in> sID ` set xs then None else gm_get (hDetails s) k) \<and>
    (gm_wf (hDetails s) \<longrightarrow> gm_wf (hDetails (fold drop_entry xs s))) \<and> set (hDeleted (fold drop_entry xs s)) = set (hDeleted s) \<union> sID ` set xs \<and> set (hDirty (fold drop_entry xs s)) = set (hDirty s) - sID ` set xs \<and>
    dDetails (fold drop_entry xs s) = dDetails s"
  using assms
proof (induction xs arbitrary: s)
  case (Cons x xs)
  have "gm_get (hDetails (drop_entry x s)) k = (if k = sID x then None else gm_get (hDetails s) k)" for k
    by (simp add: drop_entry_def Let_def gm_get_del)
  moreover have "set (hDeleted (drop_entry x s)) = insert (sID x) (set (hDeleted s))" "set (hDirty (drop_entry x s)) = set (hDirty s) - {sID x}"
    "dDetails (drop_entry x s) = dDetails s" "gm_wf (hDetails s) \<longrightarrow> gm_wf (hDetails (drop_entry x s))"
    using Cons.prems by (auto simp: drop_entry_def Let_def markDetailDeletedLocked_def)
  ultimately show ?case using Cons.IH [of "drop_entry x s"] Cons.prems by auto
qed simp

lemma normalize_coherent:
  assumes "sorts (heSort env)" "coherent cd s"
  shows "coherent cd (normalizeIndexLocked env s)"
proof -
  let ?s = "fix_header s"
  have ok: "ids_ok (items ?s)" using assms(2) by (simp add: coherent_def)
  have cl: "clean_items [] (items ?s) = items ?s" by (rule clean_items_id) (use ok in \<open>auto simp: ids_ok_def\<close>)
  define ys where "ys = heSort env (items ?s)"
  have ms: "mset ys = mset (items ?s)" using assms(1) by (simp add: sorts_def ys_def)
  have d0: "distinct (map sID (items ?s))" using ok by (simp add: ids_ok_def)
  note p = listed_perm [OF ms d0]
  have ys_ok: "\<forall>x \<in> set ys. sID x \<noteq> '''' \<and> TrimSpace (sID x) = sID x \<and> isSafeDetailID (sID x)"
    using ok mset_eq_setD [OF ms] by (auto simp: ids_ok_def)
  define r where "r = retainedHistoryCountAfterPrune (int (length ys)) (fLimit (hState ?s))"
  have eq: "normalizeIndexLocked env s = (if 0 \<le> r \<and> r < int (length ys)
      then with_items (take (nat r) ys) (fold drop_entry (drop (nat r) ys) ?s) else with_items ys ?s)"
    unfolding normalizeIndexLocked_def Let_def cl ys_def [symmetric] r_def [symmetric] ..
  have whole: "coherent cd (with_items ys ?s)"
    using coherentD [OF assms(2)] p ys_ok by (intro coherentI) (simp_all add: ids_ok_def pending_ok_def)
  have "coherent cd (with_items (take n ys) (fold drop_entry (drop n ys) ?s))" for n
  proof -
    let ?D = "sID ` set (drop n ys)"
    have dr: "\<forall>x \<in> set (drop n ys). sID x \<noteq> '''' \<and> TrimSpace (sID x) = sID x" using ys_ok in_set_dropD by fast
    note e = drop_entries [OF dr, of ?s]
    have "distinct (map sID (take n ys))" using p(2) by (simp add: take_map [symmetric])
    then have "ids_ok (take n ys)" using ys_ok by (auto simp: ids_ok_def dest: in_set_takeD)
    moreover have "pending_ok (with_items (take n ys) (fold drop_entry (drop n ys) ?s))"
      using pending_drops [of ?s "drop n ys"] coherentD(2) [OF assms(2)] by (simp add: pending_ok_def)
    ultimately show ?thesis
      using e listed_take [OF p(2), of n] coherentD(3-7) [OF whole] dr
      by (intro coherentI) (auto split: if_splits)
  qed
  then show ?thesis using whole by (simp add: eq)
qed

lemma summary_id [simp]: "sID (summaryFromEntry e) = eID e"
  by (simp add: summaryFromEntry_def)

lemma upsert_same: "listed xs (sID x) = Some x \<Longrightarrow> upsert_items x xs = xs"
proof (induction xs)
  case (Cons y ys)
  then show ?case by (cases "sID x = sID y") simp_all
qed simp

lemma with_items_same [simp]: "with_items (items s) s = s"
  by (simp add: with_items_def)

lemma fold_id: "(\<And>x. x \<in> set xs \<Longrightarrow> f x s = s) \<Longrightarrow> fold f xs s = s"
  by (induction xs) auto

lemma coherent_not_listed: "coherent cd s \<Longrightarrow> listed (items s) k = None \<Longrightarrow> gm_get (hDetails s) k = None"
  using coherentD(4) [of cd s k] by (cases "gm_get (hDetails s) k") auto

lemma apply_pending_id:
  assumes "coherent cd s"
  shows "apply_pending env s = normalizeIndexLocked env (fix_header s)"
proof -
  let ?s = "fix_header s"
  have c: "coherent cd ?s" using assms coherent_cong [of ?s s cd] by simp
  have u: "(case gm_get (hDetails ?s) k of Some item \<Rightarrow> upsertSummaryLocked item ?s | None \<Rightarrow> ?s) = ?s" for k
  proof (cases "gm_get (hDetails ?s) k")
    case (Some e)
    then have "listed (items ?s) (sID (summaryFromEntry e)) = Some (summaryFromEntry e)" using coherentD(4) [OF c Some] by simp
    then show ?thesis using Some upsert_same [of "items ?s" "summaryFromEntry e"] with_items_same [of ?s] by (simp add: upsertSummaryLocked_def Let_def)
  qed simp
  have r: "(removeSummaryLocked k ?s)\<lparr>hDetails := gm_del k (hDetails ?s)\<rparr> = ?s" if k: "k \<in> set (hDeleted ?s)" for k
  proof -
    note l = coherentD(6) [OF c k]
    have "gm_get (hDetails ?s) k = None" using coherent_not_listed [OF c] l by simp
    then have d: "gm_del k (hDetails ?s) = hDetails ?s" by (simp add: gm_del_notin map_of_eq_None_iff)
    have "filter (\<lambda>x. sID x \<noteq> k) (items ?s) = items ?s" using l by (auto simp: listed_None filter_id_conv image_iff)
    then show ?thesis using l d with_items_same [of ?s] by (simp add: removeSummaryLocked_def Let_def)
  qed
  have "fold (\<lambda>ident s. case gm_get (hDetails s) ident of Some item \<Rightarrow> upsertSummaryLocked item s | None \<Rightarrow> s) ks ?s = ?s" for ks
    by (rule fold_id) (rule u)
  moreover have "fold (\<lambda>ident s. (removeSummaryLocked ident s)\<lparr>hDetails := gm_del ident (hDetails s)\<rparr>) (sort (hDeleted ?s)) ?s = ?s"
    by (rule fold_id) (use r in simp)
  ultimately show ?thesis unfolding apply_pending_def Let_def by simp
qed

lemma apply_pending_coherent: "sorts (heSort env) \<Longrightarrow> coherent cd s \<Longrightarrow> coherent cd (apply_pending env s)"
  using normalize_coherent [of env cd "fix_header s"] coherent_cong [of "fix_header s" s cd] by (simp add: apply_pending_id)

lemma remove_files_coherent:
  "coherent cd s \<Longrightarrow> set ks \<subseteq> set (hDeleted s) \<Longrightarrow> coherent cd (snd (remove_files env ks s))"
proof (induction env ks s rule: remove_files.induct)
  case (2 env k rest s)
  let ?s = "s\<lparr>dDetails := gm_del k (dDetails s)\<rparr>"
  have k: "listed (items s) k = None" using coherentD(6) [OF "2.prems"(1)] "2.prems"(2) by simp
  have "coherent cd ?s"
    using coherentD [OF "2.prems"(1)] k by (intro coherentI) (auto simp: gm_get_del pending_ok_def)
  then show ?case using "2.IH" "2.prems" by (auto split: option.splits)
qed simp

lemma write_details_coherent:
  "coherent (heCodec env) s \<Longrightarrow> coherent (heCodec env) (snd (write_details env ks s))"
proof (induction env ks s rule: write_details.induct)
  case (2 env k rest s)
  show ?case
  proof (cases "k \<in> set (hDeleted s)")
    case True
    then show ?thesis using 2 by simp
  next
    case False
    show ?thesis
    proof (cases "gm_get (hDetails s) k")
      case None
      then show ?thesis using 2 False by simp
    next
      case (Some item)
      let ?s = "s\<lparr>dDetails := gm_set k (Some (cEntry (heCodec env) item)) (dDetails s),
        hDetails := (if shouldKeepDetailCached item then hDetails s else gm_del k (hDetails s))\<rparr>"
      note c = coherentD [OF "2.prems"]
      have "coherent (heCodec env) ?s"
        using c(1-3,6,7) c(4) c(5) c(4) [OF Some] Some
        by (intro coherentI) (auto simp: gm_get_set gm_get_del pending_ok_def split: if_splits)
      then show ?thesis using "2.IH"(3) [OF False Some] "2.prems" False Some by (auto split: option.splits)
    qed
  qed
qed simp

lemma write_details_frame:
  assumes "k \<notin> set ks"
  shows "gm_get (hDetails (snd (write_details env ks s))) k = gm_get (hDetails s) k \<and> gm_get (dDetails (snd (write_details env ks s))) k = gm_get (dDetails s) k"
  using assms by (induction env ks s rule: write_details.induct) (auto simp: gm_get_set gm_get_del split: option.splits)

lemma write_details_written:
  assumes "distinct ks" "set ks \<inter> set (hDeleted s) = {}" "write_details env ks s = (None, s')" "k \<in> set ks" "gm_get (hDetails s') k = Some e"
  shows "gm_get (dDetails s') k = Some (Some (cEntry (heCodec env) e))"
  using assms
proof (induction env ks s rule: write_details.induct)
  case (2 env i rest s)
  have i: "i \<notin> set (hDeleted s)" using "2.prems"(2) by auto
  show ?case
  proof (cases "gm_get (hDetails s) i")
    case None
    then have w: "write_details env rest s = (None, s')" using "2.prems"(3) i by simp
    have "k \<noteq> i" using write_details_frame [of i rest env s] "2.prems"(1,5) w None by auto
    then show ?thesis using "2.IH"(2) [OF i None] "2.prems" w by auto
  next
    case (Some item)
    let ?s = "s\<lparr>dDetails := gm_set i (Some (cEntry (heCodec env) item)) (dDetails s),
      hDetails := (if shouldKeepDetailCached item then hDetails s else gm_del i (hDetails s))\<rparr>"
    have w: "isSafeDetailID i" "heIO env (EncodeDetail i) = None" "heIO env (WriteDetail i) = None" "write_details env rest ?s = (None, s')"
      using "2.prems"(3) i Some by (auto split: if_splits option.splits)
    show ?thesis
    proof (cases "k = i")
      case True
      then show ?thesis
        using write_details_frame [of i rest env ?s] "2.prems"(1,5) w(4) Some by (auto simp: gm_get_set gm_get_del split: if_splits)
    next
      case False
      then show ?thesis using "2.IH"(3) [OF i Some _ w(2,3)] w(1,4) "2.prems"(1,2,4,5) by simp
    qed
  qed
qed simp

lemma saveLocked_coherent:
  assumes "sorts (heSort env)" "coherent (heCodec env) s"
  shows "coherent (heCodec env) (snd (saveLocked env s))"
proof -
  let ?s = "apply_pending env s"
  have c: "coherent (heCodec env) ?s" by (rule apply_pending_coherent [OF assms])
  obtain e1 s1 where r: "remove_files env (sort (hDeleted ?s)) ?s = (e1, s1)" by fastforce
  have c1: "coherent (heCodec env) s1" using remove_files_coherent [OF c, of "sort (hDeleted ?s)" env] r by simp
  obtain e2 s2 where w: "write_details env (sort (hDirty s1)) s1 = (e2, s2)" by fastforce
  have c2: "coherent (heCodec env) s2" using write_details_coherent [OF c1] w by (metis snd_conv)
  have "coherent (heCodec env) (s2\<lparr>dIndex := i, hDirty := [], hDeleted := []\<rparr>)" if "e2 = None" for i
  proof -
    have dd: "hDirty s2 = hDirty s1" "hDeleted s2 = hDeleted s1" using write_details_simps(2,3) [of env "sort (hDirty s1)" s1] w by simp_all
    have "gm_get (dDetails s2) k = Some (Some (cEntry (heCodec env) e))" if g: "gm_get (hDetails s2) k = Some e" for k e
    proof (cases "k \<in> set (hDirty s1)")
      case True
      have "distinct (sort (hDirty s1))" "set (sort (hDirty s1)) \<inter> set (hDeleted s1) = {}"
        using coherentD(2) [OF c1] by (auto simp: pending_ok_def)
      from write_details_written [OF this, of env s2 k e] show ?thesis using w \<open>e2 = None\<close> True g by simp
    next
      case False
      then show ?thesis using coherentD(7) [OF c2 g] dd by simp
    qed
    then show ?thesis using coherentD(1-6) [OF c2] by (intro coherentI) (auto simp: pending_ok_def)
  qed
  then show ?thesis
    using c c1 c2 by (auto simp: saveLocked_def Let_def r w split: option.splits)
qed

lemma put_coherent:
  assumes c: "coherent cd s" and e: "eID e = i" and ids: "ids_ok (items s')" and wf: "gm_wf (hDetails s')" and pend: "pending_ok s'"
    and l: "\<And>k. listed (items s') k = (if k = i then Some (summaryFromEntry e) else listed (items s) k)"
    and d: "\<And>k. gm_get (hDetails s') k = (if k = i then Some e else gm_get (hDetails s) k)"
    and f: "dDetails s' = dDetails s" and del: "set (hDeleted s') \<subseteq> set (hDeleted s) - {i}" and dirty: "set (hDirty s') = insert i (set (hDirty s))"
  shows "coherent cd s'"
proof (rule coherentI [OF ids pend wf])
  fix k x assume "gm_get (hDetails s') k = Some x"
  then show "eID x = k \<and> listed (items s') k = Some (summaryFromEntry x)"
    using d l e coherentD(4) [OF c] by (auto split: if_splits)
next
  fix k x assume "listed (items s') k = Some x" "gm_get (hDetails s') k = None"
  then show "\<exists>e. summaryFromEntry e = x \<and> gm_get (dDetails s') k = Some (Some (cEntry cd e))"
    using d l f coherentD(5) [OF c] by (auto split: if_splits)
next
  fix k assume "k \<in> set (hDeleted s')"
  then show "TrimSpace k = k \<and> listed (items s') k = None" using l del coherentD(6) [OF c] by auto
next
  fix k x assume "gm_get (hDetails s') k = Some x" "k \<notin> set (hDirty s')"
  then show "gm_get (dDetails s') k = Some (Some (cEntry cd x))" using d f dirty coherentD(7) [OF c] by (auto split: if_splits)
qed

definition good_id :: "string \<Rightarrow> bool" where
  "good_id k \<longleftrightarrow> k \<noteq> '''' \<and> TrimSpace k = k \<and> isSafeDetailID k"

lemma ids_ok_upsert: "ids_ok xs \<Longrightarrow> good_id (sID x) \<Longrightarrow> ids_ok (upsert_items x xs)"
proof -
  assume a: "ids_ok xs" "good_id (sID x)"
  have "\<forall>y \<in> set (upsert_items x xs). y = x \<or> y \<in> set xs" by (induction xs) auto
  then show ?thesis using a upsert_ids(2) [of xs x] by (auto simp: ids_ok_def good_id_def)
qed

lemma upsert_items_of: "good_id (eID e) \<Longrightarrow> items (upsertSummaryLocked e s) = upsert_items (summaryFromEntry e) (items s)"
  by (simp add: upsertSummaryLocked_def Let_def good_id_def)

lemma fold_upsert:
  assumes "gm_wf xs" "\<forall>(k, e) \<in> set xs. eID e = k \<and> good_id k" "ids_ok (items t)"
  shows "ids_ok (items (fold (\<lambda>(_, e). upsertSummaryLocked e) xs t)) \<and>
    listed (items (fold (\<lambda>(_, e). upsertSummaryLocked e) xs t)) k = (case gm_get xs k of None \<Rightarrow> listed (items t) k | Some e \<Rightarrow> Some (summaryFromEntry e))"
  using assms
proof (induction xs arbitrary: t)
  case (Cons p xs)
  obtain j e where p: "p = (j, e)" by fastforce
  have g: "eID e = j" "good_id (eID e)" using Cons.prems(2) p by auto
  note u = upsert_items_of [OF g(2), of t]
  have i: "ids_ok (items (upsertSummaryLocked e t))" using ids_ok_upsert [OF Cons.prems(3), of "summaryFromEntry e"] g u by simp
  have w: "gm_wf xs" "gm_get xs j = None" using Cons.prems(1) p by (auto simp: gm_wf_def map_of_eq_None_iff)
  show ?case
    using Cons.IH [OF w(1) _ i] Cons.prems(2) p g(1) w(2) by (auto simp: u listed_upsert split: option.splits)
qed simp

lemma fold_upsert_fields:
  fixes xs :: "(string, Entry) gomap"
  shows "hDetails (fold (\<lambda>(_, e). upsertSummaryLocked e) xs t) = hDetails t" "hDirty (fold (\<lambda>(_, e). upsertSummaryLocked e) xs t) = hDirty t"
    "hDeleted (fold (\<lambda>(_, e). upsertSummaryLocked e) xs t) = hDeleted t" "dDetails (fold (\<lambda>(_, e). upsertSummaryLocked e) xs t) = dDetails t"
  by (rule fold_field; simp add: case_prod_beta)+

lemma mark_dirty_fields:
  "good_id i \<Longrightarrow> set (hDirty (markDetailDirtyLocked i s)) = insert i (set (hDirty s)) \<and> set (hDeleted (markDetailDirtyLocked i s)) = set (hDeleted s) - {i}"
  by (auto simp: markDetailDirtyLocked_def Let_def good_id_def)

definition good_env :: "HistoryCodec \<Rightarrow> HistoryEnv \<Rightarrow> bool" where
  "good_env cd env \<longleftrightarrow> heCodec env = cd \<and> sorts (heSort env) \<and> good_id (''chat_'' @ heUUID env)"

definition codec_keeps_id :: "HistoryCodec \<Rightarrow> bool" where
  "codec_keeps_id cd \<longleftrightarrow> (\<forall>e. good_id (eID e) \<longrightarrow> eID (cEntry cd e) = eID e)"

lemma coherent_good_id: "coherent cd s \<Longrightarrow> listed (items s) k = Some x \<Longrightarrow> good_id k"
  using ids_ok_listed [OF coherentD(1)] by (auto simp: good_id_def)

section \<open>The entries as a map\<close>

text \<open>What reading an entry gives, up to one pass through the encoder.\<close>

fun cached_or_file :: "HistoryCodec \<Rightarrow> Entry option \<Rightarrow> Entry option option \<Rightarrow> Entry option" where
  "cached_or_file cd (Some e) file = Some (cEntry cd e)"
| "cached_or_file cd None (Some d) = d"
| "cached_or_file cd None None = None"

definition entry_view :: "HistoryCodec \<Rightarrow> HistoryStore \<Rightarrow> string \<Rightarrow> Entry option" where
  "entry_view cd s k = (if listed (items s) k = None then None else cached_or_file cd (gm_get (hDetails s) k) (gm_get (dDetails s) k))"

lemma entry_view_listed:
  assumes "coherent cd s" "listed (items s) k = Some x"
  obtains e where "entry_view cd s k = Some (cEntry cd e)" "x = summaryFromEntry e" "eID e = k"
proof (cases "gm_get (hDetails s) k")
  case None
  then obtain e where e: "summaryFromEntry e = x" "gm_get (dDetails s) k = Some (Some (cEntry cd e))" using coherentD(5) [OF assms] by blast
  have "eID e = k" using listed_id [OF assms(2)] unfolding e(1) [symmetric] by simp
  then show ?thesis by (intro that [of e]) (use e None assms(2) in \<open>simp_all add: entry_view_def\<close>)
next
  case (Some e)
  note h = coherentD(4) [OF assms(1) Some]
  show ?thesis by (rule that [of e]) (use h assms(2) Some in \<open>simp_all add: entry_view_def\<close>)
qed

lemma normalize_frame:
  assumes "sorts (heSort env)" "coherent cd s"
  shows "dDetails (normalizeIndexLocked env s) = dDetails s"
    "listed (items (normalizeIndexLocked env s)) k = Some x \<Longrightarrow> listed (items s) k = Some x \<and> gm_get (hDetails (normalizeIndexLocked env s)) k = gm_get (hDetails s) k"
    "isAllowedLimit (fLimit (hState s)) \<Longrightarrow> within_limit (fLimit (hState s)) (length (items s)) \<Longrightarrow>
       listed (items (normalizeIndexLocked env s)) k = listed (items s) k \<and> hDetails (normalizeIndexLocked env s) = hDetails s \<and>
       length (items (normalizeIndexLocked env s)) = length (items s) \<and> hDeleted (normalizeIndexLocked env s) = hDeleted s"
proof -
  let ?s = "fix_header s"
  have ok: "ids_ok (items ?s)" using assms(2) by (simp add: coherent_def)
  have cl: "clean_items [] (items ?s) = items ?s" by (rule clean_items_id) (use ok in \<open>auto simp: ids_ok_def\<close>)
  define ys where "ys = heSort env (items ?s)"
  have ms: "mset ys = mset (items ?s)" using assms(1) by (simp add: sorts_def ys_def)
  have d0: "distinct (map sID (items ?s))" using ok by (simp add: ids_ok_def)
  note p = listed_perm [OF ms d0]
  have ys_ok: "\<forall>x \<in> set ys. sID x \<noteq> '''' \<and> TrimSpace (sID x) = sID x" using ok mset_eq_setD [OF ms] by (auto simp: ids_ok_def)
  define r where "r = retainedHistoryCountAfterPrune (int (length ys)) (fLimit (hState ?s))"
  have eq: "normalizeIndexLocked env s = (if 0 \<le> r \<and> r < int (length ys)
      then with_items (take (nat r) ys) (fold drop_entry (drop (nat r) ys) ?s) else with_items ys ?s)"
    unfolding normalizeIndexLocked_def Let_def cl ys_def [symmetric] r_def [symmetric] ..
  have dr: "\<forall>x \<in> set (drop (nat r) ys). sID x \<noteq> '''' \<and> TrimSpace (sID x) = sID x" using ys_ok in_set_dropD by fast
  note e = drop_entries [OF dr, of ?s]
  show "dDetails (normalizeIndexLocked env s) = dDetails s" using e by (simp add: eq)
  show "listed (items s) k = Some x \<and> gm_get (hDetails (normalizeIndexLocked env s)) k = gm_get (hDetails s) k"
    if "listed (items (normalizeIndexLocked env s)) k = Some x"
    using that e listed_take [OF p(2), of "nat r" k] p(1) [of k] by (auto simp: eq split: if_splits)
  assume l: "isAllowedLimit (fLimit (hState s))" "within_limit (fLimit (hState s)) (length (items s))"
  have len: "length ys = length (items s)" using mset_eq_length [OF ms] by simp
  have "\<not> (0 \<le> r \<and> r < int (length ys))"
    using l unfolding r_def len
    by (auto simp: fix_header_def within_limit_def retainedHistoryCountAfterPrune_def DisabledLimit_def MaxLimit_def BurstPruneRetainedLimit_def Let_def)
  then have eq': "normalizeIndexLocked env s = with_items ys ?s" unfolding eq by (rule if_not_P)
  show "listed (items (normalizeIndexLocked env s)) k = listed (items s) k \<and> hDetails (normalizeIndexLocked env s) = hDetails s \<and>
       length (items (normalizeIndexLocked env s)) = length (items s) \<and> hDeleted (normalizeIndexLocked env s) = hDeleted s"
    using p(1) [of k] len by (simp add: eq')
qed

lemma normalize_view:
  assumes "sorts (heSort env)" "coherent cd s" "isAllowedLimit (fLimit (hState s))" "within_limit (fLimit (hState s)) (length (items s))"
  shows "entry_view cd (normalizeIndexLocked env s) = entry_view cd s"
  using normalize_frame(1) [OF assms(1,2)] normalize_frame(3) [OF assms] by (simp add: entry_view_def fun_eq_iff)

lemma remove_files_frame: "k \<notin> set ks \<Longrightarrow> gm_get (dDetails (snd (remove_files env ks s))) k = gm_get (dDetails s) k"
  by (induction env ks s rule: remove_files.induct) (auto simp: gm_get_del split: option.splits)

lemma write_details_view: "entry_view (heCodec env) (snd (write_details env ks s)) k = entry_view (heCodec env) s k"
proof -
  have "cached_or_file (heCodec env) (gm_get (hDetails (snd (write_details env ks s))) k) (gm_get (dDetails (snd (write_details env ks s))) k) =
    cached_or_file (heCodec env) (gm_get (hDetails s) k) (gm_get (dDetails s) k)"
    by (induction env ks s rule: write_details.induct) (auto simp: gm_get_set gm_get_del split: option.splits)
  then show ?thesis by (simp add: entry_view_def write_details_simps(1))
qed

lemma entry_view_cong:
  "items s' = items s \<Longrightarrow> hDetails s' = hDetails s \<Longrightarrow> dDetails s' = dDetails s \<Longrightarrow> entry_view cd s' = entry_view cd s"
  by (simp add: entry_view_def fun_eq_iff)

lemma entry_view_put:
  assumes "\<And>k. listed (items s') k = (if k = i then Some x else listed (items s) k)" "dDetails s' = dDetails s"
    "\<And>k. gm_get (hDetails s') k = (if k = i then Some e else gm_get (hDetails s) k)"
  shows "entry_view cd s' = (entry_view cd s)(i \<mapsto> cEntry cd e)"
  unfolding fun_eq_iff entry_view_def assms by simp

lemma saveLocked_view:
  assumes "sorts (heSort env)" "coherent (heCodec env) s"
  shows "entry_view (heCodec env) (snd (saveLocked env s)) k =
    (if listed (items (normalizeIndexLocked env (fix_header s))) k = None then None else entry_view (heCodec env) s k)"
    "items (snd (saveLocked env s)) = items (normalizeIndexLocked env (fix_header s))"
proof -
  let ?n = "apply_pending env s" and ?cd = "heCodec env"
  have n: "?n = normalizeIndexLocked env (fix_header s)" by (rule apply_pending_id [OF assms(2)])
  have cf: "coherent ?cd (fix_header s)" using assms(2) coherent_cong [of "fix_header s" s ?cd] by simp
  have c: "coherent ?cd ?n" by (rule apply_pending_coherent [OF assms])
  note fr = normalize_frame [OF assms(1) cf]
  have v: "entry_view ?cd ?n k = (if listed (items ?n) k = None then None else entry_view ?cd s k)"
    using fr(1) fr(2) [of k] unfolding n by (cases "listed (items (normalizeIndexLocked env (fix_header s))) k") (auto simp: entry_view_def)
  obtain e1 s1 where r: "remove_files env (sort (hDeleted ?n)) ?n = (e1, s1)" by fastforce
  note s1 = remove_files_simps [of env "sort (hDeleted ?n)" ?n, unfolded r snd_conv]
  have v1: "entry_view ?cd s1 k = entry_view ?cd ?n k"
  proof (cases "k \<in> set (hDeleted ?n)")
    case True
    then show ?thesis using coherentD(6) [OF c True] s1(1) by (simp add: entry_view_def)
  next
    case False
    then show ?thesis using remove_files_frame [of k "sort (hDeleted ?n)" env ?n] r s1(1,4) by (simp add: entry_view_def)
  qed
  obtain e2 s2 where w: "write_details env (sort (hDirty s1)) s1 = (e2, s2)" by fastforce
  have v2: "entry_view ?cd s2 k = entry_view ?cd ?n k" using write_details_view [of env "sort (hDirty s1)" s1 k] w v1 by simp
  have v3: "entry_view ?cd (s2\<lparr>dIndex := i, hDirty := [], hDeleted := []\<rparr>) k = entry_view ?cd ?n k" for i
    using entry_view_cong [of "s2\<lparr>dIndex := i, hDirty := [], hDeleted := []\<rparr>" s2 ?cd] v2 by simp
  have "entry_view ?cd (snd (saveLocked env s)) k = entry_view ?cd ?n k"
    using v1 v2 v3 by (auto simp: saveLocked_def Let_def r w split: option.splits)
  then show "entry_view ?cd (snd (saveLocked env s)) k =
    (if listed (items (normalizeIndexLocked env (fix_header s))) k = None then None else entry_view ?cd s k)" using v n by simp
  show "items (snd (saveLocked env s)) = items (normalizeIndexLocked env (fix_header s))" using saveLocked_state [of env s] n by simp
qed

lemma saveLocked_keeps:
  assumes "sorts (heSort env)" "coherent (heCodec env) s" "isAllowedLimit (fLimit (hState s))" "within_limit (fLimit (hState s)) (length (items s))"
  shows "entry_view (heCodec env) (snd (saveLocked env s)) = entry_view (heCodec env) s" "listed (items (snd (saveLocked env s))) = listed (items s)"
proof -
  have cf: "coherent (heCodec env) (fix_header s)" using assms(2) coherent_cong [of "fix_header s" s "heCodec env"] by simp
  have "fLimit (hState (fix_header s)) = fLimit (hState s)" using assms(3) by (simp add: fix_header_def)
  then have l: "listed (items (normalizeIndexLocked env (fix_header s))) k = listed (items s) k" for k
    using normalize_frame(3) [OF assms(1) cf, of k] assms(3,4) by simp
  show "entry_view (heCodec env) (snd (saveLocked env s)) = entry_view (heCodec env) s"
    using saveLocked_view(1) [OF assms(1,2)] l by (auto simp: fun_eq_iff entry_view_def)
  show "listed (items (snd (saveLocked env s))) = listed (items s)" using saveLocked_view(2) [OF assms(1,2)] l by auto
qed

section \<open>The operations\<close>

lemma normalize_err [simp]: "hErr (normalizeIndexLocked env s) = hErr s"
proof -
  have "hErr (fold drop_entry xs t) = hErr t" for xs t by (rule fold_field) (simp add: drop_entry_def Let_def)
  then show ?thesis by (simp add: normalizeIndexLocked_def Let_def)
qed

lemma saveLocked_err: "hErr (snd (saveLocked env s)) = hErr s"
proof -
  let ?u = "\<lambda>ident s. case gm_get (hDetails s) ident of Some item \<Rightarrow> upsertSummaryLocked item s | None \<Rightarrow> s"
  let ?r = "\<lambda>ident s. (removeSummaryLocked ident s)\<lparr>hDetails := gm_del ident (hDetails s)\<rparr>"
  have "hErr (fold ?u xs t) = hErr t" for xs t by (rule fold_field [where g = hErr]) (simp split: option.splits)
  moreover have "hErr (fold ?r xs t) = hErr t" for xs t by (rule fold_field [where g = hErr]) simp
  ultimately have a: "hErr (apply_pending env s) = hErr s" by (simp add: apply_pending_def Let_def)
  obtain e1 s1 where r: "remove_files env (sort (hDeleted (apply_pending env s))) (apply_pending env s) = (e1, s1)" by fastforce
  obtain e2 s2 where w: "write_details env (sort (hDirty s1)) s1 = (e2, s2)" by fastforce
  have "hErr s1 = hErr s" using remove_files_simps(5) [of env "sort (hDeleted (apply_pending env s))" "apply_pending env s"] r a by simp
  moreover have "hErr s2 = hErr s1" using write_details_simps(4) [of env "sort (hDirty s1)" s1] w by simp
  ultimately show ?thesis using a by (auto simp: saveLocked_def Let_def r w split: option.splits)
qed

text \<open>Each operation prepares a store in which the entry it names is changed, and saves it.\<close>

lemma next_revision: "nextRevisionLocked env s = (rv, s1) \<Longrightarrow> fRevision (hState s) < rv \<and> heNano env \<le> rv \<and> fRevision (hState s1) = rv"
  by (auto simp: nextRevisionLocked_def Let_def)

lemma next_revision_later: "fRevision (hState s) < fRevision (hState (snd (nextRevisionLocked env s)))"
  by (auto simp: nextRevisionLocked_def Let_def)

lemma start_prepared:
  assumes "good_env cd env" "coherent cd s" "hErr s = None" "fLimit (hState s) \<noteq> DisabledLimit"
  obtains u rv e where "coherent cd u" "e = new_entry env params rv" "fRevision (hState s) < rv"
    "StartEntry env params s = (Inr (e, fst (saveLocked env (normalizeIndexLocked env u))), snd (saveLocked env (normalizeIndexLocked env u)))"
    "entry_view cd u = (entry_view cd s)(eID e \<mapsto> cEntry cd e)" "fLimit (hState u) = fLimit (hState s)"
    "\<And>k. listed (items u) k = (if k = eID e then Some (summaryFromEntry e) else listed (items s) k)" "hErr u = hErr s"
proof -
  obtain rv s1 where r: "nextRevisionLocked env s = (rv, s1)" by fastforce
  define e where "e = new_entry env params rv"
  let ?i = "''chat_'' @ heUUID env"
  have e: "eID e = ?i" by (simp add: e_def new_entry_def Let_def)
  have g: "good_id ?i" using assms(1) by (simp add: good_env_def)
  note f1 = next_revision_fields [of env s, unfolded r snd_conv]
  let ?t = "markDetailDirtyLocked (eID e) (s1\<lparr>hDetails := gm_set (eID e) e (hDetails s1)\<rparr>)"
  let ?u = "fold (\<lambda>(_, e). upsertSummaryLocked e) (hDetails ?t) ?t"
  have dt: "gm_get (hDetails ?t) k = (if k = ?i then Some e else gm_get (hDetails s) k)" for k using f1 e by (simp add: gm_get_set)
  have wf: "gm_wf (hDetails ?t)" using coherentD(3) [OF assms(2)] f1 by simp
  have "eID x = k \<and> good_id k" if "(k, x) \<in> set (hDetails ?t)" for k x
  proof -
    have "gm_get (hDetails ?t) k = Some x" using that gm_get_mem [OF wf, of k x] by simp
    then show ?thesis
      using dt [of k] coherentD(4) [OF assms(2), of k x] coherent_good_id [OF assms(2), of k "summaryFromEntry x"] e g
      by (cases "k = ?i") simp_all
  qed
  then have all: "\<forall>(k, x) \<in> set (hDetails ?t). eID x = k \<and> good_id k" by auto
  have ids: "ids_ok (items ?t)" using coherentD(1) [OF assms(2)] f1 by simp
  note fu = fold_upsert [OF wf all ids]
  note md = mark_dirty_fields [OF g, of "s1\<lparr>hDetails := gm_set (eID e) e (hDetails s1)\<rparr>"]
  have l: "listed (items ?u) k = (if k = ?i then Some (summaryFromEntry e) else listed (items s) k)" for k
  proof -
    have "listed (items ?u) k = (case gm_get (hDetails ?t) k of None \<Rightarrow> listed (items ?t) k | Some e \<Rightarrow> Some (summaryFromEntry e))" using fu by blast
    then show ?thesis using dt [of k] f1(1) coherentD(4) [OF assms(2), of k] by (cases "k = ?i"; cases "gm_get (hDetails s) k") simp_all
  qed
  have d: "gm_get (hDetails ?u) k = (if k = ?i then Some e else gm_get (hDetails s) k)" for k using dt by (simp add: fold_upsert_fields)
  have f: "dDetails ?u = dDetails s" using f1 by (simp add: fold_upsert_fields)
  have pend: "pending_ok ?u"
    using coherentD(2) [OF assms(2)] f1 pending_marks(1) [of "s1\<lparr>hDetails := gm_set (eID e) e (hDetails s1)\<rparr>" "eID e"]
    by (simp add: pending_ok_def fold_upsert_fields)
  show ?thesis
  proof (rule that [OF _ e_def])
    show "coherent cd ?u"
      by (rule put_coherent [OF assms(2) e _ _ pend l d f]) (use fu wf md f1 e in \<open>simp_all add: fold_upsert_fields\<close>)
    show "fRevision (hState s) < rv" using next_revision [OF r] by simp
    show "StartEntry env params s = (Inr (e, fst (saveLocked env (normalizeIndexLocked env ?u))), snd (saveLocked env (normalizeIndexLocked env ?u)))"
      using assms(3,4) r by (simp add: StartEntry_def Let_def e_def case_prod_beta rebuildIndexLocked_def)
    show "entry_view cd ?u = (entry_view cd s)(eID e \<mapsto> cEntry cd e)" using entry_view_put [OF l f d] e by simp
    show "fLimit (hState ?u) = fLimit (hState s)"
    proof -
      have "fLimit (hState (fold (\<lambda>(_, e). upsertSummaryLocked e) xs t)) = fLimit (hState t)" for xs :: "(string, Entry) gomap" and t
        by (rule fold_field [where g = "\<lambda>s. fLimit (hState s)"]) (simp add: case_prod_beta upsertSummaryLocked_def Let_def)
      then show ?thesis using f1(7) by simp
    qed
    show "listed (items ?u) k = (if k = eID e then Some (summaryFromEntry e) else listed (items s) k)" for k using l e by simp
    have "hErr (fold (\<lambda>(_, e). upsertSummaryLocked e) xs t) = hErr t" for xs :: "(string, Entry) gomap" and t
      by (rule fold_field [where g = hErr]) (simp add: case_prod_beta)
    then show "hErr ?u = hErr s" using f1(6) by simp
  qed
qed

lemma StartEntry_coherent:
  assumes "good_env cd env" "coherent cd s"
  shows "coherent cd (snd (StartEntry env params s))"
proof (cases "hErr s = None \<and> fLimit (hState s) \<noteq> DisabledLimit")
  case True
  have h: "hErr s = None" "fLimit (hState s) \<noteq> DisabledLimit" using True by simp_all
  obtain u rv e where "coherent cd u"
    "StartEntry env params s = (Inr (e, fst (saveLocked env (normalizeIndexLocked env u))), snd (saveLocked env (normalizeIndexLocked env u)))"
    by (rule start_prepared [OF assms h, of params])
  then show ?thesis using saveLocked_coherent [of env] normalize_coherent [of env cd u] assms(1) by (auto simp: good_env_def)
qed (use assms in \<open>auto simp: StartEntry_def split: option.splits\<close>)

lemma merge_update_id [simp]: "eID (merge_update env params rv e) = eID e"
  by (simp add: merge_update_def)

lemma read_detail_id:
  assumes "coherent cd s" "codec_keeps_id cd" "TrimSpace k = k" "readDetailLocked env k s = Inr e"
  shows "eID e = k \<and> good_id k \<and> listed (items s) k \<noteq> None"
proof (cases "gm_get (hDetails s) k")
  case (Some x)
  then have "e = x" using assms(3,4) by (auto simp: readDetailLocked_def Let_def split: if_splits)
  then show ?thesis using coherentD(4) [OF assms(1) Some] coherent_good_id [OF assms(1), of k "summaryFromEntry x"] by simp
next
  case None
  have k: "k \<noteq> ''''" using assms(3,4) by (auto simp: readDetailLocked_def)
  obtain x where x: "listed (items s) k = Some x"
    using assms(3,4) None k by (auto simp: readDetailLocked_def findSummaryLocked_def listed_find split: if_splits)
  obtain e0 where e0: "summaryFromEntry e0 = x" "gm_get (dDetails s) k = Some (Some (cEntry cd e0))" using coherentD(5) [OF assms(1) x None] by blast
  have g: "good_id k" by (rule coherent_good_id [OF assms(1) x])
  have "readDetailFile env k s = Inr e"
    using assms(3,4) None k x by (simp add: readDetailLocked_def Let_def findSummaryLocked_def listed_find)
  then have "e = cEntry cd e0" using e0(2) by (auto simp: readDetailFile_def split: if_splits option.splits)
  moreover have "eID e0 = k" using listed_id [OF x] e0(1) by auto
  ultimately show ?thesis using g x assms(2) by (simp add: codec_keeps_id_def)
qed

lemma update_prepared:
  assumes "good_env cd env" "codec_keeps_id cd" "coherent cd s" "hErr s = None" "readDetailLocked env (TrimSpace id0) s = Inr e0"
  obtains t rv e where "coherent cd t" "e = merge_update env params rv e0" "fRevision (hState s) < rv" "eID e0 = TrimSpace id0"
    "UpdateEntry env id0 params s = (case saveLocked env t of (Some m, s') \<Rightarrow> (Inl m, s') | (None, s') \<Rightarrow> (Inr e, s'))"
    "entry_view cd t = (entry_view cd s)(TrimSpace id0 \<mapsto> cEntry cd e)" "fLimit (hState t) = fLimit (hState s)"
    "\<And>k. listed (items t) k = (if k = TrimSpace id0 then Some (summaryFromEntry e) else listed (items s) k)" "length (items t) = length (items s)"
proof -
  let ?i = "TrimSpace id0"
  note i = read_detail_id [OF assms(3,2) TrimSpace_idem assms(5)]
  let ?s1 = "s\<lparr>hDetails := gm_set ?i e0 (hDetails s)\<rparr>"
  obtain rv s2 where r: "nextRevisionLocked env ?s1 = (rv, s2)" by fastforce
  note f2 = next_revision_fields [of env ?s1, unfolded r snd_conv]
  define e where "e = merge_update env params rv e0"
  have e: "eID e = ?i" using i by (simp add: e_def)
  let ?m = "s2\<lparr>hDetails := gm_set ?i e (hDetails s2)\<rparr>"
  let ?t = "upsertSummaryLocked e (markDetailDirtyLocked ?i ?m)"
  have g: "good_id ?i" using i by simp
  note md = mark_dirty_fields [OF g, of ?m]
  have u: "items ?t = upsert_items (summaryFromEntry e) (items s)" using upsert_items_of [of e "markDetailDirtyLocked ?i ?m"] e i f2(1) by simp
  have l: "listed (items ?t) k = (if k = ?i then Some (summaryFromEntry e) else listed (items s) k)" for k using u e by (simp add: listed_upsert)
  have d: "gm_get (hDetails ?t) k = (if k = ?i then Some e else gm_get (hDetails s) k)" for k using f2(2) by (simp add: gm_get_set)
  have f: "dDetails ?t = dDetails s" using f2(5) by simp
  have "pending_ok ?m" using coherentD(2) [OF assms(3)] f2(3,4) by (simp add: pending_ok_def)
  then have pend: "pending_ok ?t" using pending_marks(1) [of ?m ?i] by simp
  have ids: "ids_ok (items ?t)" using ids_ok_upsert [OF coherentD(1) [OF assms(3)], of "summaryFromEntry e"] u e i by simp
  show ?thesis
  proof (rule that [OF _ e_def])
    show "coherent cd ?t"
      by (rule put_coherent [OF assms(3) e ids _ pend l d f]) (use coherentD(3) [OF assms(3)] md f2 in simp_all)
    show "fRevision (hState s) < rv" using next_revision [OF r] by simp
    show "eID e0 = TrimSpace id0" using i by simp
    have "?i \<noteq> ''''" using g by (simp add: good_id_def)
    then show "UpdateEntry env id0 params s = (case saveLocked env ?t of (Some m, s') \<Rightarrow> (Inl m, s') | (None, s') \<Rightarrow> (Inr e, s'))"
      using assms(4,5) i r by (simp add: UpdateEntry_def Let_def loadDetailForUpdateLocked_def e_def split: prod.splits option.splits)
    show "entry_view cd ?t = (entry_view cd s)(?i \<mapsto> cEntry cd e)" by (rule entry_view_put [OF l f d])
    show "fLimit (hState ?t) = fLimit (hState s)" using f2(7) by (simp add: upsertSummaryLocked_def Let_def)
    show "listed (items ?t) k = (if k = ?i then Some (summaryFromEntry e) else listed (items s) k)" for k by (rule l)
    have "length (upsert_items x xs) = length xs" if "sID x \<in> sID ` set xs" for x xs using that by (induction xs) auto
    then show "length (items ?t) = length (items s)" using u e i by (auto simp: listed_None)
  qed
qed

lemma UpdateEntry_coherent:
  assumes "good_env cd env" "codec_keeps_id cd" "coherent cd s"
  shows "coherent cd (snd (UpdateEntry env id0 params s))"
proof (cases "hErr s = None \<and> TrimSpace id0 \<noteq> ''''")
  case True
  then have h: "hErr s = None" by simp
  show ?thesis
  proof (cases "readDetailLocked env (TrimSpace id0) s")
    case (Inl e)
    then show ?thesis using True assms(3) by (simp add: UpdateEntry_def Let_def loadDetailForUpdateLocked_def)
  next
    case (Inr e0)
    obtain t e where t: "coherent cd t" "UpdateEntry env id0 params s = (case saveLocked env t of (Some m, s') \<Rightarrow> (Inl m, s') | (None, s') \<Rightarrow> (Inr e, s'))"
      by (rule update_prepared [OF assms h Inr, of params])
    then have "snd (UpdateEntry env id0 params s) = snd (saveLocked env t)" by (simp split: prod.splits option.splits)
    then show ?thesis using saveLocked_coherent [of env t] t(1) assms(1) by (simp add: good_env_def)
  qed
qed (use assms(3) in \<open>auto simp: UpdateEntry_def Let_def split: option.splits\<close>)

text \<open>Removing one entry, or all of them.\<close>

lemma removal_coherent:
  assumes c: "coherent cd s" and wf: "gm_wf (hDetails s')" and f: "dDetails s' = dDetails s"
    and xs: "items s' = filter (\<lambda>x. sID x \<notin> K) (items s)"
    and d: "\<And>k. gm_get (hDetails s') k = (if k \<in> K then None else gm_get (hDetails s) k)"
    and del: "set (hDeleted s') = set (hDeleted s) \<union> K'" "K' \<subseteq> K" "\<And>k. k \<in> K' \<Longrightarrow> TrimSpace k = k" and pend: "pending_ok s'"
    and dirty: "set (hDirty s) - K \<subseteq> set (hDirty s')"
  shows "coherent cd s'"
proof (rule coherentI [OF _ pend wf])
  have l: "listed (items s') k = (if k \<in> K then None else listed (items s) k)" for k
  proof -
    have "listed (filter (\<lambda>x. sID x \<notin> K) ys) k = (if k \<in> K then None else listed ys k)" for ys by (induction ys) auto
    then show ?thesis by (simp add: xs)
  qed
  show "ids_ok (items s')" using coherentD(1) [OF c] by (auto simp: xs ids_ok_def distinct_map_filter)
  show "eID x = k \<and> listed (items s') k = Some (summaryFromEntry x)" if "gm_get (hDetails s') k = Some x" for k x
    using that d l coherentD(4) [OF c] by (auto split: if_splits)
  show "\<exists>e. summaryFromEntry e = x \<and> gm_get (dDetails s') k = Some (Some (cEntry cd e))" if "listed (items s') k = Some x" "gm_get (hDetails s') k = None" for k x
    using that d l f coherentD(5) [OF c] by (auto split: if_splits)
  show "TrimSpace k = k \<and> listed (items s') k = None" if "k \<in> set (hDeleted s')" for k
    using that del l coherentD(6) [OF c] by auto
  show "gm_get (dDetails s') k = Some (Some (cEntry cd x))" if "gm_get (hDetails s') k = Some x" "k \<notin> set (hDirty s')" for k x
    using that d f dirty coherentD(7) [OF c, of k x] by (auto split: if_splits)
qed

lemma mark_deleted_fields:
  "good_id i \<Longrightarrow> set (hDeleted (markDetailDeletedLocked i s)) = insert i (set (hDeleted s)) \<and> set (hDirty (markDetailDeletedLocked i s)) = set (hDirty s) - {i}"
  by (auto simp: markDetailDeletedLocked_def Let_def good_id_def)

definition can_delete :: "string \<Rightarrow> HistoryStore \<Rightarrow> bool" where
  "can_delete id0 s \<longleftrightarrow> hErr s = None \<and> TrimSpace id0 \<noteq> '''' \<and> listed (items s) (TrimSpace id0) \<noteq> None \<and> isSafeDetailID (TrimSpace id0)"

lemma delete_prepared:
  assumes "coherent cd s" "can_delete id0 s"
  obtains t where "coherent cd t" "DeleteEntry env id0 s = saveLocked env t" "entry_view cd t = (entry_view cd s)(TrimSpace id0 := None)"
    "fLimit (hState t) = fLimit (hState s)" "\<And>k. listed (items t) k = (if k = TrimSpace id0 then None else listed (items s) k)"
    "length (items t) \<le> length (items s)" "fRevision (hState s) < fRevision (hState t)"
proof -
  let ?i = "TrimSpace id0"
  have g: "good_id ?i" using assms(2) by (simp add: good_id_def can_delete_def)
  let ?s1 = "markDetailDeletedLocked ?i s"
  let ?s2 = "removeSummaryLocked ?i (?s1\<lparr>hDetails := gm_del ?i (hDetails ?s1)\<rparr>)"
  let ?t = "snd (nextRevisionLocked env ?s2)"
  note md = mark_deleted_fields [OF g, of s]
  have xs: "items ?s2 = filter (\<lambda>x. sID x \<notin> {?i}) (items s)"
    using assms(2) by (auto simp: removeSummaryLocked_def Let_def filter_empty_conv can_delete_def)
  have l: "listed (items ?t) k = (if k = ?i then None else listed (items s) k)" for k
    unfolding next_revision_fields xs using listed_filter [of ?i "items s" k] by simp
  have "pending_ok ?s2" using pending_marks(2) [OF coherentD(2) [OF assms(1)], of ?i] by (simp add: pending_ok_def)
  then have "coherent cd ?s2"
    by (intro removal_coherent [OF assms(1) _ _ xs, where K' = "{?i}"])
      (use coherentD(3) [OF assms(1)] md in \<open>auto simp: gm_get_del\<close>)
  then have c: "coherent cd ?t" using coherent_cong [of ?t ?s2 cd] by simp
  show ?thesis
  proof (rule that [OF c])
    show "DeleteEntry env id0 s = saveLocked env ?t"
      using assms(2) by (auto simp: DeleteEntry_def Let_def can_delete_def findSummaryLocked_def listed_find)
    show "entry_view cd ?t = (entry_view cd s)(?i := None)" unfolding fun_eq_iff entry_view_def l by (simp add: gm_get_del)
    show "fLimit (hState ?t) = fLimit (hState s)" by (simp add: removeSummaryLocked_def Let_def)
    show "listed (items ?t) k = (if k = ?i then None else listed (items s) k)" for k by (rule l)
    show "length (items ?t) \<le> length (items s)" unfolding next_revision_fields xs by simp
    have "fRevision (hState ?s2) = fRevision (hState s)" by (simp add: removeSummaryLocked_def Let_def)
    then show "fRevision (hState s) < fRevision (hState ?t)" using next_revision_later [of ?s2 env] by simp
  qed
qed

lemma DeleteEntry_coherent:
  assumes "good_env cd env" "coherent cd s"
  shows "coherent cd (snd (DeleteEntry env id0 s))"
proof (cases "can_delete id0 s")
  case True
  obtain t where "coherent cd t" "DeleteEntry env id0 s = saveLocked env t" by (rule delete_prepared [OF assms(2) True, of env])
  then show ?thesis using saveLocked_coherent [of env] assms(1) by (auto simp: good_env_def)
qed (use assms(2) in \<open>auto simp: DeleteEntry_def Let_def can_delete_def findSummaryLocked_def listed_find split: option.splits\<close>)

lemma mark_deleted_fold:
  fixes ks :: "string list"
  assumes "\<forall>k \<in> set ks. good_id k"
  shows "set (hDeleted (fold markDetailDeletedLocked ks s)) = set (hDeleted s) \<union> set ks \<and>
    set (hDirty (fold markDetailDeletedLocked ks s)) = set (hDirty s) - set ks \<and> hState (fold markDetailDeletedLocked ks s) = hState s \<and>
    hDetails (fold markDetailDeletedLocked ks s) = hDetails s \<and> dDetails (fold markDetailDeletedLocked ks s) = dDetails s"
  using assms
proof (induction ks arbitrary: s)
  case (Cons k ks)
  note m = mark_deleted_fields [of k s]
  show ?case using Cons.IH [of "markDetailDeletedLocked k s"] Cons.prems m by auto
qed simp

lemma clear_prepared:
  assumes "coherent cd s" "hErr s = None"
  obtains t where "coherent cd t" "ClearAll env s = saveLocked env t" "items t = []" "fLimit (hState t) = fLimit (hState s)"
proof -
  let ?ks = "map sID (items s) @ map fst (hDetails s)"
  have "good_id k" if "k \<in> fst ` set (hDetails s)" for k
  proof -
    have "gm_get (hDetails s) k \<noteq> None" using that by (simp add: map_of_eq_None_iff)
    then obtain e where "gm_get (hDetails s) k = Some e" by (cases "gm_get (hDetails s) k") simp_all
    then show ?thesis using coherentD(4) [OF assms(1), of k e] coherent_good_id [OF assms(1), of k "summaryFromEntry e"] by simp
  qed
  then have g: "\<forall>k \<in> set ?ks. good_id k" using coherentD(1) [OF assms(1)] by (auto simp: ids_ok_def good_id_def)
  note m = mark_deleted_fold [OF g, of s]
  let ?s1 = "fold (\<lambda>x. markDetailDeletedLocked (sID x)) (items s) s"
  have s1: "?s1 = fold markDetailDeletedLocked (map sID (items s)) s" by (simp add: fold_map comp_def)
  have g1: "\<forall>k \<in> set (map sID (items s)). good_id k" using g by auto
  have d1: "hDetails ?s1 = hDetails s" using mark_deleted_fold [OF g1, of s] unfolding s1 by simp
  have s2: "fold (\<lambda>(ident, _). markDetailDeletedLocked ident) (hDetails ?s1) ?s1 = fold markDetailDeletedLocked ?ks s"
    unfolding d1 by (simp add: fold_map comp_def case_prod_beta')
  let ?s3 = "with_items [] ((fold markDetailDeletedLocked ?ks s)\<lparr>hDetails := []\<rparr>)"
  have all: "gm_get (hDetails s) k = None" if "k \<notin> set ?ks" for k using that by (simp add: map_of_eq_None_iff)
  have "pending_ok (fold markDetailDeletedLocked ?ks s)"
    by (rule fold_keeps [where P = pending_ok]) (simp_all add: pending_marks coherentD(2) [OF assms(1)])
  then have "coherent cd ?s3"
    using coherentD(6) [OF assms(1)] m g by (intro coherentI) (auto simp: ids_ok_def pending_ok_def good_id_def)
  then have c: "coherent cd (snd (nextRevisionLocked env ?s3))"
    using coherent_cong [of "snd (nextRevisionLocked env ?s3)" ?s3 cd] by simp
  show ?thesis
    by (rule that [OF c]) (use m assms(2) in \<open>simp_all add: ClearAll_def Let_def s2 del: fold_append\<close>)
qed

lemma ClearAll_coherent:
  assumes "good_env cd env" "coherent cd s"
  shows "coherent cd (snd (ClearAll env s))"
proof (cases "hErr s")
  case None
  obtain t where "coherent cd t" "ClearAll env s = saveLocked env t" by (rule clear_prepared [OF assms(2) None, of env])
  then show ?thesis using saveLocked_coherent [of env] assms(1) by (auto simp: good_env_def)
qed (use assms(2) in \<open>simp add: ClearAll_def\<close>)

lemma SetLimit_coherent:
  assumes "good_env cd env" "coherent cd s"
  shows "coherent cd (snd (SetLimit env limit s))"
proof (cases "hErr s = None \<and> isAllowedLimit limit")
  case True
  let ?s1 = "snd (nextRevisionLocked env (s\<lparr>hState := (hState s)\<lparr>fLimit := limit\<rparr>\<rparr>))"
  have "coherent cd ?s1" using assms(2) coherent_cong [of ?s1 s cd] by simp
  then have "coherent cd (snd (saveLocked env (normalizeIndexLocked env ?s1)))"
    using normalize_coherent saveLocked_coherent [of env] assms(1) by (auto simp: good_env_def)
  then show ?thesis using True by (auto simp: SetLimit_def split: prod.splits option.splits)
qed (use assms(2) in \<open>auto simp: SetLimit_def split: option.splits\<close>)

lemma NewStore_coherent:
  assumes "good_env cd env"
  shows "coherent cd (NewStore env path None [])"
proof -
  let ?s = "\<lparr>hState = empty_file, hDetails = [], hDirty = [], hDeleted = [], hErr = None, dIndex = None, dDetails = []\<rparr>"
  have c: "coherent cd ?s" by (intro coherentI) (simp_all add: ids_ok_def empty_file_def pending_ok_def)
  have "coherent cd (snd (loadLocked env p ?s))" for p
    using c saveLocked_coherent [of env ?s] assms by (auto simp: loadLocked_def good_env_def split: option.splits)
  then have "coherent cd ((snd (loadLocked env (TrimSpace path) ?s))\<lparr>hErr := e\<rparr>)" for e
    using coherent_cong [of "(snd (loadLocked env (TrimSpace path) ?s))\<lparr>hErr := e\<rparr>" "snd (loadLocked env (TrimSpace path) ?s)" cd] by simp
  then show ?thesis by (simp add: NewStore_def case_prod_beta)
qed

section \<open>Restarting\<close>

definition saved :: "HistoryCodec \<Rightarrow> HistoryStore \<Rightarrow> bool" where
  "saved cd s \<longleftrightarrow> dIndex s = Some (cIndex cd (hState s)) \<and> hDirty s = [] \<and> hDeleted s = []"

text \<open>What is relied on of the JSON encoder: a second pass changes nothing, plain identifiers survive, an index is not taken for a legacy file, and
  the summary of a decoded entry is the decoded summary.\<close>

definition codec_laws :: "HistoryCodec \<Rightarrow> bool" where
  "codec_laws cd \<longleftrightarrow> codec_keeps_id cd \<and> (\<forall>e. cEntry cd (cEntry cd e) = cEntry cd e) \<and>
     (\<forall>f es. fItems f = map summaryFromEntry es \<longrightarrow> ids_ok (fItems f) \<longrightarrow>
        parseLegacy (cIndex cd f) = None \<and> indexView (cIndex cd f) = Some (f\<lparr>fItems := map (\<lambda>e. summaryFromEntry (cEntry cd e)) es\<rparr>))"

lemma choose_list: "\<forall>x \<in> set xs. \<exists>e. P x e \<Longrightarrow> \<exists>es. list_all2 P xs es"
  by (induction xs) (auto simp: list_all2_Cons1)

lemma saveLocked_saved: "saveLocked env s = (None, s') \<Longrightarrow> saved (heCodec env) s'"
  by (auto simp: saveLocked_def Let_def saved_def split: option.splits prod.splits)

lemma saved_files:
  assumes "coherent cd s" "saved cd s"
  obtains es where "list_all2 (\<lambda>x e. x = summaryFromEntry e \<and> gm_get (dDetails s) (sID x) = Some (Some (cEntry cd e))) (items s) es"
proof -
  have all: "\<exists>e. x = summaryFromEntry e \<and> gm_get (dDetails s) (sID x) = Some (Some (cEntry cd e))" if "x \<in> set (items s)" for x
  proof -
    have l: "listed (items s) (sID x) = Some x" using listed_member [OF _ that] coherentD(1) [OF assms(1)] by (simp add: ids_ok_def)
    show ?thesis
    proof (cases "gm_get (hDetails s) (sID x)")
      case None
      then show ?thesis using coherentD(5) [OF assms(1) l] by blast
    next
      case (Some e)
      have "Some x = Some (summaryFromEntry e)" using coherentD(4) [OF assms(1) Some] trans [OF sym [OF l]] by blast
      then have "x = summaryFromEntry e" by (rule option.inject [THEN iffD1])
      moreover have "gm_get (dDetails s) (sID x) = Some (Some (cEntry cd e))" using coherentD(7) [OF assms(1) Some] assms(2) by (simp add: saved_def)
      ultimately show ?thesis by (intro exI [of _ e] conjI)
    qed
  qed
  have "\<exists>es. list_all2 (\<lambda>x e. x = summaryFromEntry e \<and> gm_get (dDetails s) (sID x) = Some (Some (cEntry cd e))) (items s) es"
    by (rule choose_list) (use all in simp)
  then show ?thesis using that by (elim exE)
qed

lemma stop_one_prepared:
  assumes "good_env cd env" "codec_keeps_id cd" "coherent cd s" "good_id (sID x)" "unfinished x"
  obtains e where "coherent cd (stop_one env reason x s)" "eStatus e = ''stopped''" "eFinishReason e = ''server_restart''"
    "\<And>k. listed (items (stop_one env reason x s)) k = (if k = sID x then Some (summaryFromEntry e) else listed (items s) k)"
    "entry_view cd (stop_one env reason x s) = (entry_view cd s)(sID x \<mapsto> cEntry cd e)"
    "items (stop_one env reason x s) = upsert_items (summaryFromEntry e) (items s)"
    "fLimit (hState (stop_one env reason x s)) = fLimit (hState s)" "eID e = sID x"
proof -
  let ?i = "sID x"
  obtain res s1 where l: "loadDetailForUpdateLocked env ?i s = (res, s1)" by fastforce
  obtain rv s2 where r: "nextRevisionLocked env s1 = (rv, s2)" by fastforce
  define e0 where "e0 = (case res of Inr item \<Rightarrow> item | Inl _ \<Rightarrow> entryFromSummary x)"
  define e where "e = stopped_entry env reason rv e0"
  let ?m = "s2\<lparr>hDetails := gm_set ?i e (hDetails s2)\<rparr>"
  let ?t = "upsertSummaryLocked e (markDetailDirtyLocked ?i ?m)"
  have t: "stop_one env reason x s = ?t" using assms(5) l r by (simp add: stop_one_def Let_def e_def e0_def)
  have tr: "TrimSpace ?i = ?i" using assms(4) by (simp add: good_id_def)
  have rd: "eID item = ?i" if "readDetailLocked env ?i s = Inr item" for item using read_detail_id [OF assms(3,2) tr that] by simp
  have i0: "eID e0 = ?i"
    using l rd by (auto simp: loadDetailForUpdateLocked_def e0_def entryFromSummary_def split: sum.splits)
  have i: "eID e = ?i" using i0 by (simp add: e_def stopped_entry_def)
  have s1: "items s1 = items s" "dDetails s1 = dDetails s" "hDirty s1 = hDirty s" "hDeleted s1 = hDeleted s" "fLimit (hState s1) = fLimit (hState s)"
    "hDetails s1 = hDetails s \<or> (\<exists>y. hDetails s1 = gm_set ?i y (hDetails s))"
    using l rd by (auto simp: loadDetailForUpdateLocked_def split: sum.splits)
  note f2 = next_revision_fields [of env s1, unfolded r snd_conv]
  note md = mark_dirty_fields [OF assms(4), of ?m]
  have u: "items ?t = upsert_items (summaryFromEntry e) (items s)" using upsert_items_of [of e "markDetailDirtyLocked ?i ?m"] i assms(4) f2(1) s1(1) by simp
  have li: "listed (items ?t) k = (if k = ?i then Some (summaryFromEntry e) else listed (items s) k)" for k using u i by (simp add: listed_upsert)
  have d: "gm_get (hDetails ?t) k = (if k = ?i then Some e else gm_get (hDetails s) k)" for k using f2(2) s1(6) by (auto simp: gm_get_set)
  have f: "dDetails ?t = dDetails s" using f2(5) s1(2) by simp
  have "pending_ok ?m" using coherentD(2) [OF assms(3)] f2(3,4) s1(3,4) by (simp add: pending_ok_def)
  then have pend: "pending_ok ?t" using pending_marks(1) [of ?m ?i] by simp
  have ids: "ids_ok (items ?t)" using ids_ok_upsert [OF coherentD(1) [OF assms(3)], of "summaryFromEntry e"] u i assms(4) by simp
  have wf: "gm_wf (hDetails ?t)" using coherentD(3) [OF assms(3)] f2(2) s1(6) by auto
  show ?thesis
  proof (rule that [of e], unfold t)
    show "coherent cd ?t" by (rule put_coherent [OF assms(3) i ids wf pend li d f]) (use md f2 s1 in simp_all)
    show "eStatus e = ''stopped''" "eFinishReason e = ''server_restart''" by (simp_all add: e_def stopped_entry_def)
    show "listed (items ?t) k = (if k = ?i then Some (summaryFromEntry e) else listed (items s) k)" for k by (rule li)
    show "entry_view cd ?t = (entry_view cd s)(?i \<mapsto> cEntry cd e)" by (rule entry_view_put [OF li f d])
    show "items ?t = upsert_items (summaryFromEntry e) (items s)" by (rule u)
    show "fLimit (hState ?t) = fLimit (hState s)" using f2(7) s1(5) by (simp add: upsertSummaryLocked_def Let_def)
    show "eID e = ?i" by (rule i)
  qed
qed

lemma saved_view:
  assumes "coherent cd s" "saved cd s" "listed (items s) k \<noteq> None"
  shows "entry_view cd s k = cached_or_file cd None (gm_get (dDetails s) k)"
proof (cases "gm_get (hDetails s) k")
  case (Some e)
  then have "gm_get (dDetails s) k = Some (Some (cEntry cd e))" using coherentD(7) [OF assms(1) Some] assms(2) by (simp add: saved_def)
  then show ?thesis using assms(3) Some by (auto simp: entry_view_def)
qed (use assms(3) in \<open>auto simp: entry_view_def\<close>)

lemma loaded_listed:
  assumes "list_all2 (\<lambda>x e. x = summaryFromEntry e \<and> gm_get D (sID x) = Some (Some (cEntry cd e))) xs es" "\<forall>x \<in> set xs. good_id (sID x)" "codec_keeps_id cd"
  shows "map sID (map (\<lambda>e. summaryFromEntry (cEntry cd e)) es) = map sID xs \<and>
    (\<forall>k x. listed (map (\<lambda>e. summaryFromEntry (cEntry cd e)) es) k = Some x \<longrightarrow>
       (\<exists>e. x = summaryFromEntry (cEntry cd e) \<and> gm_get D k = Some (Some (cEntry cd e))))"
  using assms(1,2)
proof (induction rule: list_all2_induct)
  case (Cons x xs e es)
  have x: "sID x = eID e" using arg_cong [OF conjunct1 [OF Cons.hyps(1)], of sID] by simp
  then have i: "eID (cEntry cd e) = eID e" using Cons.prems assms(3) by (simp add: codec_keeps_id_def)
  have d: "gm_get D (eID e) = Some (Some (cEntry cd e))" using conjunct2 [OF Cons.hyps(1)] unfolding x .
  have "\<forall>x \<in> set xs. good_id (sID x)" using Cons.prems by simp
  note ih = Cons.IH [OF this]
  show ?case
  proof (intro conjI allI impI)
    show "map sID (map (\<lambda>e. summaryFromEntry (cEntry cd e)) (e # es)) = map sID (x # xs)" using conjunct1 [OF ih] i x by simp
    fix k y assume y: "listed (map (\<lambda>e. summaryFromEntry (cEntry cd e)) (e # es)) k = Some y"
    show "\<exists>e. y = summaryFromEntry (cEntry cd e) \<and> gm_get D k = Some (Some (cEntry cd e))"
    proof (cases "k = eID e")
      case True
      then show ?thesis using y i d by (intro exI [of _ e]) simp
    next
      case False
      then have "listed (map (\<lambda>e. summaryFromEntry (cEntry cd e)) es) k = Some y" using y i by simp
      then show ?thesis using conjunct2 [OF ih] by blast
    qed
  qed
qed simp

lemma loaded_coherent:
  assumes "coherent cd s" "saved cd s" "codec_laws cd"
    and es: "list_all2 (\<lambda>x e. x = summaryFromEntry e \<and> gm_get (dDetails s) (sID x) = Some (Some (cEntry cd e))) (items s) es"
    and t: "items t = map (\<lambda>e. summaryFromEntry (cEntry cd e)) es" "hDetails t = []" "hDirty t = []" "hDeleted t = []" "dDetails t = dDetails s"
  shows "coherent cd t" "entry_view cd t = entry_view cd s" "\<And>k. (listed (items t) k = None) = (listed (items s) k = None)" "length (items t) = length (items s)"
    "\<And>k x. listed (items t) k = Some x \<Longrightarrow> \<exists>d. gm_get (dDetails s) k = Some (Some d) \<and> x = summaryFromEntry d"
proof -
  have g: "\<forall>x \<in> set (items s). good_id (sID x)" using coherentD(1) [OF assms(1)] by (simp add: ids_ok_def good_id_def)
  have keep: "codec_keeps_id cd" and idem: "cEntry cd (cEntry cd e) = cEntry cd e" for e using assms(3) by (simp_all add: codec_laws_def)
  note l = loaded_listed [OF es g keep]
  have ids: "map sID (items t) = map sID (items s)" using l t(1) by simp
  then have sids: "sID ` set (items t) = sID ` set (items s)" by (metis set_map)
  have gid: "good_id i" if "i \<in> sID ` set (items t)" for i using that g unfolding sids by auto
  show n: "(listed (items t) k = None) = (listed (items s) k = None)" for k unfolding listed_None sids ..
  show "length (items t) = length (items s)" using arg_cong [OF ids, of length] by simp
  have "distinct (map sID (items t))" using coherentD(1) [OF assms(1)] ids by (simp add: ids_ok_def)
  then have "ids_ok (items t)" using gid by (auto simp: ids_ok_def good_id_def)
  moreover have "\<exists>e. summaryFromEntry e = x \<and> gm_get (dDetails t) k = Some (Some (cEntry cd e))" if x: "listed (items t) k = Some x" for k x
  proof -
    obtain e where "x = summaryFromEntry (cEntry cd e)" "gm_get (dDetails s) k = Some (Some (cEntry cd e))" using l x t(1) by auto
    then show ?thesis using idem t(5) by (intro exI [of _ "cEntry cd e"]) simp
  qed
  ultimately show "coherent cd t" using t by (intro coherentI) (simp_all add: pending_ok_def)
  show "\<exists>d. gm_get (dDetails s) k = Some (Some d) \<and> x = summaryFromEntry d" if "listed (items t) k = Some x" for k x
    using conjunct2 [OF l] that t(1) by (metis (lifting))
  show "entry_view cd t = entry_view cd s"
  proof
    fix k
    show "entry_view cd t k = entry_view cd s k"
    proof (cases "listed (items s) k = None")
      case False
      then have "entry_view cd t k = cached_or_file cd None (gm_get (dDetails s) k)" using n [of k] t(2,5) by (auto simp: entry_view_def)
      then show ?thesis using saved_view [OF assms(1,2) False] by simp
    qed (use n in \<open>simp add: entry_view_def\<close>)
  qed
qed

lemma stop_one_deleted: "hDeleted t = [] \<Longrightarrow> hDeleted (stop_one env reason x t) = []"
proof -
  assume d: "hDeleted t = []"
  obtain res s1 where l: "loadDetailForUpdateLocked env (sID x) t = (res, s1)" by fastforce
  obtain rv s2 where r: "nextRevisionLocked env s1 = (rv, s2)" by fastforce
  have "hDeleted s1 = []" using l d by (auto simp: loadDetailForUpdateLocked_def split: sum.splits)
  then have "hDeleted s2 = []" using next_revision_fields(4) [of env s1] r by simp
  then show ?thesis using d l r by (simp add: stop_one_def markDetailDirtyLocked_def Let_def)
qed

lemma stop_fold:
  assumes "good_env cd env" "codec_keeps_id cd" "\<forall>x \<in> set xs. good_id (sID x) \<and> sID x \<in> sID ` set (items t)" "coherent cd t"
  shows "coherent cd (fold (stop_one env reason) xs t) \<and> fLimit (hState (fold (stop_one env reason) xs t)) = fLimit (hState t) \<and>
    length (items (fold (stop_one env reason) xs t)) = length (items t) \<and>
    (hDeleted t = [] \<longrightarrow> hDeleted (fold (stop_one env reason) xs t) = []) \<and>
    (if \<exists>x \<in> set xs. unfinished x \<and> sID x = k
     then \<exists>e. eStatus e = ''stopped'' \<and> eFinishReason e = ''server_restart'' \<and> eID e = k \<and> listed (items (fold (stop_one env reason) xs t)) k = Some (summaryFromEntry e) \<and>
       entry_view cd (fold (stop_one env reason) xs t) k = Some (cEntry cd e)
     else listed (items (fold (stop_one env reason) xs t)) k = listed (items t) k \<and> entry_view cd (fold (stop_one env reason) xs t) k = entry_view cd t k)"
  using assms(3,4)
proof (induction xs arbitrary: t)
  case (Cons x xs)
  let ?t = "stop_one env reason x t"
  show ?case
  proof (cases "unfinished x")
    case False
    then have "?t = t" by (simp add: stop_one_def)
    then show ?thesis using Cons.IH [of t] Cons.prems False by simp
  next
    case True
    have g: "good_id (sID x)" using Cons.prems(1) by simp
    obtain e where e: "coherent cd ?t" "eStatus e = ''stopped''" "eFinishReason e = ''server_restart''"
      "\<And>k. listed (items ?t) k = (if k = sID x then Some (summaryFromEntry e) else listed (items t) k)"
      "entry_view cd ?t = (entry_view cd t)(sID x \<mapsto> cEntry cd e)" "items ?t = upsert_items (summaryFromEntry e) (items t)"
      "fLimit (hState ?t) = fLimit (hState t)" "eID e = sID x"
      by (rule stop_one_prepared [OF assms(1,2) Cons.prems(2) g True, of reason], rule that)
    have ids: "sID ` set (items ?t) = sID ` set (items t)" using e(6,8) Cons.prems(1) upsert_ids(1) [of "summaryFromEntry e" "items t"] by auto
    have len: "length (items ?t) = length (items t)"
    proof -
      have "length (upsert_items y ys) = length ys" if "sID y \<in> sID ` set ys" for y ys using that by (induction ys) auto
      then show ?thesis using e(6,8) Cons.prems(1) by simp
    qed
    have del: "hDeleted t = [] \<longrightarrow> hDeleted ?t = []" using stop_one_deleted by blast
    have pr: "\<forall>x \<in> set xs. good_id (sID x) \<and> sID x \<in> sID ` set (items ?t)" using Cons.prems(1) ids by simp
    note ih = Cons.IH [OF pr e(1)]
    show ?thesis
    proof (cases "\<exists>y \<in> set xs. unfinished y \<and> sID y = k")
      case True
      then show ?thesis using ih e(7) len del by simp
    next
      case False
      then show ?thesis using ih e(2,3,7,8) len del True by (auto simp: e(4,5))
    qed
  qed
qed simp

lemma stop_all:
  fixes reason :: string
  assumes "good_env cd env" "codec_keeps_id cd" "coherent cd n"
  defines "t \<equiv> stopUnfinishedLocked env reason n"
  shows "coherent cd t" "fLimit (hState t) = fLimit (hState n)" "length (items t) = length (items n)" "hDeleted n = [] \<Longrightarrow> hDeleted t = []"
    "(listed (items t) k = None) = (listed (items n) k = None)" "\<forall>x \<in> set (items t). \<not> unfinished x"
    "listed (items n) k = Some x \<Longrightarrow> unfinished x \<Longrightarrow>
       \<exists>e. entry_view cd t k = Some (cEntry cd e) \<and> eStatus e = ''stopped'' \<and> eFinishReason e = ''server_restart'' \<and> eID e = k"
    "listed (items n) k = Some x \<Longrightarrow> \<not> unfinished x \<Longrightarrow> entry_view cd t k = entry_view cd n k"
proof -
  have ids: "distinct (map sID (items n))" using coherentD(1) [OF assms(3)] by (simp add: ids_ok_def)
  have good: "\<forall>x \<in> set (items n). good_id (sID x) \<and> sID x \<in> sID ` set (items n)" using coherentD(1) [OF assms(3)] by (auto simp: ids_ok_def good_id_def)
  note st = stop_fold [OF assms(1,2) good assms(3), of reason, folded stopUnfinishedLocked_def, folded t_def]
  have mem: "(\<exists>x \<in> set (items n). unfinished x \<and> sID x = k) \<longleftrightarrow> (\<exists>x. listed (items n) k = Some x \<and> unfinished x)" for k
    using listed_member [OF ids] listed_id [of "items n" k] by auto
  show c: "coherent cd t" "fLimit (hState t) = fLimit (hState n)" "length (items t) = length (items n)" "hDeleted n = [] \<Longrightarrow> hDeleted t = []"
    using st by simp_all
  show "(listed (items t) k = None) = (listed (items n) k = None)" using st [of k] mem [of k] by (auto split: if_splits)
  show "\<forall>x \<in> set (items t). \<not> unfinished x"
  proof
    fix x assume x: "x \<in> set (items t)"
    have "distinct (map sID (items t))" using coherentD(1) [OF c(1)] by (simp add: ids_ok_def)
    then have "listed (items t) (sID x) = Some x" using x by (rule listed_member)
    then show "\<not> unfinished x" using st [of "sID x"] mem [of "sID x"] by (auto simp: unfinished_def summaryFromEntry_def split: if_splits)
  qed
  show "\<exists>e. entry_view cd t k = Some (cEntry cd e) \<and> eStatus e = ''stopped'' \<and> eFinishReason e = ''server_restart'' \<and> eID e = k"
    if "listed (items n) k = Some x" "unfinished x"
    using st [of k] mem [of k] that by auto
  show "entry_view cd t k = entry_view cd n k" if "listed (items n) k = Some x" "\<not> unfinished x"
    using st [of k] mem [of k] that by (auto split: if_splits)
qed

lemma write_details_ok:
  assumes "heIO env = (\<lambda>_. None)" "\<And>k e. gm_get (hDetails s) k = Some e \<Longrightarrow> isSafeDetailID k"
  shows "fst (write_details env ks s) = None"
  using assms
proof (induction env ks s rule: write_details.induct)
  case (2 env i rest s)
  show ?case
  proof (cases "gm_get (hDetails s) i")
    case None
    then show ?thesis using 2 by (cases "i \<in> set (hDeleted s)") simp_all
  next
    case (Some item)
    let ?s = "s\<lparr>dDetails := gm_set i (Some (cEntry (heCodec env) item)) (dDetails s),
      hDetails := (if shouldKeepDetailCached item then hDetails s else gm_del i (hDetails s))\<rparr>"
    have safe: "isSafeDetailID k" if "gm_get (hDetails ?s) k = Some e" for k e
      using that "2.prems"(2) [of k e] by (auto simp: gm_get_del split: if_splits)
    have "isSafeDetailID i" using "2.prems"(2) Some by blast
    then show ?thesis using "2.IH"(1) "2.IH"(3) [OF _ Some _ _ _ "2.prems"(1) safe] "2.prems" Some by (cases "i \<in> set (hDeleted s)") simp_all
  qed
qed simp

lemma saveLocked_ok:
  assumes "good_env cd env" "coherent cd t" "heIO env = (\<lambda>_. None)" "hDeleted t = []" "isAllowedLimit (fLimit (hState t))" "within_limit (fLimit (hState t)) (length (items t))"
  shows "saved cd (snd (saveLocked env t))"
proof -
  have cf: "coherent cd (fix_header t)" using assms(2) coherent_cong [of "fix_header t" t cd] by simp
  have so: "sorts (heSort env)" using assms(1) by (simp add: good_env_def)
  let ?n = "apply_pending env t"
  have "fLimit (hState (fix_header t)) = fLimit (hState t)" using assms(5) by (simp add: fix_header_def)
  then have del: "hDeleted ?n = []" using normalize_frame(3) [OF so cf] assms(4-6) apply_pending_id [OF assms(2), of env] by simp
  have c: "coherent cd ?n" by (rule apply_pending_coherent [OF so assms(2)])
  have safe: "isSafeDetailID k" if "gm_get (hDetails ?n) k = Some e" for k e
    using coherent_good_id [OF c] coherentD(4) [OF c that] by (auto simp: good_id_def)
  obtain s' where "write_details env (sort (hDirty ?n)) ?n = (None, s')"
    using write_details_ok [OF assms(3), of ?n "sort (hDirty ?n)"] safe by (cases "write_details env (sort (hDirty ?n)) ?n") simp
  then have "\<exists>s'. saveLocked env t = (None, s')" using del assms(3) by (simp add: saveLocked_def Let_def)
  then show ?thesis using saveLocked_saved [of env t] assms(1) by (auto simp: good_env_def)
qed

lemma restart_prepared:
  assumes env: "good_env cd env" and laws: "codec_laws cd" and s: "coherent cd s" "saved cd s" "index_wf (hState s)"
    and load: "heIO env MkdirParent = None" "heIO env MkdirDetail = None" "heIO env ReadIndex = None" "TrimSpace path \<noteq> ''''"
  obtains t where "coherent cd t" "NewStore env path (dIndex s) (dDetails s) = (snd (saveLocked env t))\<lparr>hErr := None\<rparr>" "hDeleted t = []"
    "isAllowedLimit (fLimit (hState t))" "within_limit (fLimit (hState t)) (length (items t))"
    "\<And>k. (listed (items t) k = None) = (listed (items s) k = None)"
    "\<And>k d. entry_view cd s k = Some d \<Longrightarrow> if eStatus d \<in> {''streaming'', ''queued''}
       then \<exists>e. entry_view cd t k = Some (cEntry cd e) \<and> eStatus e = ''stopped'' \<and> eFinishReason e = ''server_restart'' \<and> eID e = k
       else entry_view cd t k = Some d"
    "\<forall>x \<in> set (items t). \<not> unfinished x"
proof -
  have keep: "codec_keeps_id cd" using laws by (simp add: codec_laws_def)
  obtain es where es: "list_all2 (\<lambda>x e. x = summaryFromEntry e \<and> gm_get (dDetails s) (sID x) = Some (Some (cEntry cd e))) (items s) es"
    by (rule saved_files [OF s(1,2)])
  have "items s = map summaryFromEntry es"
    using es by (induction rule: list_all2_induct) simp_all
  then have raw: "parseLegacy (cIndex cd (hState s)) = None"
    "indexView (cIndex cd (hState s)) = Some ((hState s)\<lparr>fItems := map (\<lambda>e. summaryFromEntry (cEntry cd e)) es\<rparr>)"
    using laws coherentD(1) [OF s(1)] by (auto simp: codec_laws_def)
  have wf: "fVersion (hState s) = FileVersion" "isAllowedLimit (fLimit (hState s))" "within_limit (fLimit (hState s)) (length (items s))"
    using s(3) by (simp_all add: index_wf_def)
  let ?f = "(hState s)\<lparr>fItems := map (\<lambda>e. summaryFromEntry (cEntry cd e)) es\<rparr>"
  define l where "l = \<lparr>hState = ?f, hDetails = [], hDirty = [], hDeleted = [], hErr = None, dIndex = dIndex s, dDetails = dDetails s\<rparr>"
  have fv: "?f\<lparr>fVersion := (if fVersion ?f = 0 then FileVersion else fVersion ?f), fLimit := (if isAllowedLimit (fLimit ?f) then fLimit ?f else DefaultLimit)\<rparr> = ?f"
    using wf by (simp add: FileVersion_def)
  have so: "sorts (heSort env)" using env by (simp add: good_env_def)
  have "items l = map (\<lambda>e. summaryFromEntry (cEntry cd e)) es" "hDetails l = []" "hDirty l = []" "hDeleted l = []" "dDetails l = dDetails s"
    by (simp_all add: l_def)
  note l = loaded_coherent [OF s(1,2) laws es this]
  have lim: "isAllowedLimit (fLimit (hState l))" "within_limit (fLimit (hState l)) (length (items l))" using wf l(4) by (simp_all add: l_def)
  define n where "n = normalizeIndexLocked env l"
  note fr = normalize_frame(3) [OF so l(1) lim, folded n_def]
  have nc: "coherent cd n" unfolding n_def by (rule normalize_coherent [OF so l(1)])
  have nl: "fLimit (hState n) = fLimit (hState s)" "hDeleted n = []"
    using wf fr by (simp_all add: n_def l_def normalizeIndexLocked_def Let_def fix_header_def)
  have nv: "entry_view cd n = entry_view cd s" unfolding n_def using normalize_view [OF so l(1) lim] l(2) by (rule trans)
  note st = stop_all [OF env keep nc, where reason = restart_reason]
  show ?thesis
  proof (rule that [OF st(1) _ st(4) [OF nl(2)] _ _ _ _ st(6)])
    show "isAllowedLimit (fLimit (hState (stopUnfinishedLocked env restart_reason n)))"
      "within_limit (fLimit (hState (stopUnfinishedLocked env restart_reason n))) (length (items (stopUnfinishedLocked env restart_reason n)))"
      using st(2,3) nl wf fr l(4) by simp_all
    show "NewStore env path (dIndex s) (dDetails s) = (snd (saveLocked env (stopUnfinishedLocked env restart_reason n)))\<lparr>hErr := None\<rparr>"
      using load s(2) raw fv by (simp add: NewStore_def loadLocked_def saved_def Let_def n_def l_def empty_file_def)
    show "(listed (items (stopUnfinishedLocked env restart_reason n)) k = None) = (listed (items s) k = None)" for k
      using st(5) [of k] fr [of k] l(3) [of k] by simp
    fix k d assume d: "entry_view cd s k = Some d"
    then have ls: "listed (items s) k \<noteq> None" by (auto simp: entry_view_def split: if_splits)
    then obtain x where x: "listed (items l) k = Some x" using l(3) [of k] by (cases "listed (items l) k") auto
    have xd: "x = summaryFromEntry d" using l(5) [OF x] saved_view [OF s(1,2) ls] d by auto
    have un: "unfinished x \<longleftrightarrow> eStatus d \<in> {''streaming'', ''queued''}" unfolding xd by (auto simp: unfinished_def summaryFromEntry_def)
    have "listed (items n) k = Some x" using x fr [of k] by simp
    note s7 = st(7,8) [OF this]
    show "if eStatus d \<in> {''streaming'', ''queued''}
       then \<exists>e. entry_view cd (stopUnfinishedLocked env restart_reason n) k = Some (cEntry cd e) \<and> eStatus e = ''stopped'' \<and> eFinishReason e = ''server_restart'' \<and> eID e = k
       else entry_view cd (stopUnfinishedLocked env restart_reason n) k = Some d"
      using s7 nv d un by (cases "unfinished x") (simp_all only: if_True if_False simp_thms)
  qed
qed

text \<open>
  A store opened over an empty directory, changed under any disk errors, and reopened only at moments when everything is saved: a
  restart after a failed save is not a step of these runs, \<open>restart_lists_deleted_entry\<close> shows what it can bring.
\<close>

inductive history_run :: "HistoryCodec \<Rightarrow> HistoryStore \<Rightarrow> bool" for cd where
  fresh: "good_env cd env \<Longrightarrow> history_run cd (NewStore env path None [])"
| step: "history_run cd s \<Longrightarrow> good_env cd env \<Longrightarrow> history_run cd (history_step env op s)"
| reopen: "history_run cd s \<Longrightarrow> saved cd s \<Longrightarrow> good_env cd env \<Longrightarrow> history_run cd (NewStore env path (dIndex s) (dDetails s))"

lemma run_any: "history_run cd s \<Longrightarrow> history_any s"
  by (induction rule: history_run.induct) (auto intro: history_any.intros simp: good_env_def)

lemma run_wf: "history_run cd s \<Longrightarrow> index_wf (hState s)"
  using history_any_wf run_any by blast

lemma failed_load_coherent:
  assumes "good_env cd env" "coherent cd s" "codec_laws cd" "saved cd s" "index_wf (hState s)"
  shows "coherent cd (NewStore env path (dIndex s) (dDetails s))"
proof (cases "heIO env MkdirParent = None \<and> heIO env MkdirDetail = None \<and> heIO env ReadIndex = None \<and> TrimSpace path \<noteq> ''''")
  case True
  then have load: "heIO env MkdirParent = None" "heIO env MkdirDetail = None" "heIO env ReadIndex = None" "TrimSpace path \<noteq> ''''" by simp_all
  obtain t where t: "coherent cd t" "NewStore env path (dIndex s) (dDetails s) = (snd (saveLocked env t))\<lparr>hErr := None\<rparr>"
    by (rule restart_prepared [OF assms(1,3,2,4,5) load])
  have "coherent cd (snd (saveLocked env t))" using saveLocked_coherent [of env t] assms(1) t(1) by (simp add: good_env_def)
  then show ?thesis unfolding t(2) using coherent_cong [of "(snd (saveLocked env t))\<lparr>hErr := None\<rparr>" "snd (saveLocked env t)" cd] by simp
next
  case False
  have "coherent cd \<lparr>hState = empty_file, hDetails = [], hDirty = [], hDeleted = [], hErr = e, dIndex = i, dDetails = d\<rparr>" for e i d
    by (intro coherentI) (simp_all add: ids_ok_def empty_file_def pending_ok_def)
  then show ?thesis using False by (auto simp: NewStore_def loadLocked_def split: option.splits)
qed

lemma run_coherent:
  assumes "codec_laws cd" "history_run cd s"
  shows "coherent cd s"
  using assms(2)
proof (induction rule: history_run.induct)
  case (fresh env path)
  then show ?case by (rule NewStore_coherent)
next
  case (step s env op)
  have "codec_keeps_id cd" using assms(1) by (simp add: codec_laws_def)
  then show ?case
    using step.IH step.hyps(2) by (cases op) (simp_all add: StartEntry_coherent UpdateEntry_coherent DeleteEntry_coherent ClearAll_coherent SetLimit_coherent)
next
  case (reopen s env path)
  then show ?case using failed_load_coherent [OF reopen.hyps(3) reopen.IH assms(1) reopen.hyps(2)] run_wf [OF reopen.hyps(1)] by blast
qed

section \<open>Reading, starting, changing, restarting\<close>

lemma GetEntry_listed:
  assumes "codec_laws cd" "coherent cd s" "hErr s = None" "heIO env = (\<lambda>_. None)" "listed (items s) k = Some x"
  obtains r e where "GetEntry env k s = Inr r" "r = e \<or> r = cEntry cd e" "x = summaryFromEntry e" "entry_view cd s k = Some (cEntry cd e)"
proof -
  have g: "good_id k" by (rule coherent_good_id [OF assms(2,5)])
  have f: "findSummaryLocked k s = Some x" using g assms(5) by (simp add: findSummaryLocked_def good_id_def listed_find)
  show ?thesis
  proof (cases "gm_get (hDetails s) k")
    case (Some e)
    have "listed (items s) k = Some (summaryFromEntry e)" using coherentD(4) [OF assms(2) Some] by simp
    moreover have "GetEntry env k s = Inr e" using g assms(3) Some by (simp add: GetEntry_def readDetailLocked_def good_id_def)
    ultimately show ?thesis using that [of e e] assms(5) Some by (simp add: entry_view_def)
  next
    case None
    obtain e where e: "summaryFromEntry e = x" "gm_get (dDetails s) k = Some (Some (cEntry cd e))" using coherentD(5) [OF assms(2,5) None] by blast
    have "GetEntry env k s = Inr (cEntry cd e)" using g assms(3,4) None f e(2) by (simp add: GetEntry_def readDetailLocked_def good_id_def readDetailFile_def)
    then show ?thesis using that [of "cEntry cd e" e] e None assms(5) by (simp add: entry_view_def)
  qed
qed

text \<open>C11: Take a history store that was opened over an empty directory, and then changed by any operations under any disk errors and reopened only
  when everything was saved (not after a failed save, see \<open>restart_lists_deleted_entry\<close>). If its files can be read, then reading an identifier gives an entry exactly when the index lists it: the entry whose
  summary is listed, as it was stored or as its file decodes, with the listed revision; every other identifier is reported as missing.\<close>

theorem history_readable:
  assumes "codec_laws cd" "history_run cd s" "hErr s = None" "heIO env = (\<lambda>_. None)"
  shows "case find (\<lambda>x. sID x = TrimSpace k) (items s) of
      None \<Rightarrow> GetEntry env k s = Inl (if TrimSpace k = '''' then ''history id is required'' else ''chat history entry not found'') \<and>
        DetailRevision k s = Inl ''chat history entry not found''
    | Some x \<Rightarrow> \<exists>e. GetEntry env k s \<in> {Inr e, Inr (cEntry cd e)} \<and> summaryFromEntry e = x \<and> DetailRevision k s = Inr (eRevision e)"
proof -
  let ?k = "TrimSpace k"
  have c: "coherent cd s" by (rule run_coherent [OF assms(1,2)])
  have tr: "GetEntry env k s = GetEntry env ?k s" "DetailRevision k s = DetailRevision ?k s" using assms(3) by (simp_all add: GetEntry_def DetailRevision_def)
  show ?thesis
  proof (cases "listed (items s) ?k")
    case None
    have "gm_get (hDetails s) ?k = None" by (rule coherent_not_listed [OF c None])
    then have "GetEntry env k s = Inl (if ?k = '''' then ''history id is required'' else ''chat history entry not found'')"
      "DetailRevision k s = Inl ''chat history entry not found''"
      using None assms(3) by (simp_all add: GetEntry_def readDetailLocked_def findSummaryLocked_def DetailRevision_def listed_find Let_def)
    then show ?thesis using None by (simp add: listed_find)
  next
    case (Some x)
    obtain r e where r: "GetEntry env ?k s = Inr r" "r = e \<or> r = cEntry cd e" "x = summaryFromEntry e" by (rule GetEntry_listed [OF assms(1) c assms(3,4) Some])
    have "good_id ?k" by (rule coherent_good_id [OF c Some])
    then have "DetailRevision ?k s = Inr (sDetailRevision x)" using Some assms(3) by (simp add: DetailRevision_def findSummaryLocked_def listed_find good_id_def)
    moreover have "sDetailRevision x = eRevision e" unfolding r(3) by (simp add: summaryFromEntry_def)
    ultimately show ?thesis unfolding tr listed_find Some option.case using r by (intro exI [of _ e]) auto
  qed
qed

lemma sort_keeps_new:
  assumes "sorts f" "x \<in> set xs" "distinct xs" "length (filter (\<lambda>y. y \<noteq> x \<and> \<not> newer x y) xs) < r"
  shows "x \<in> set (take r (f xs))"
proof (rule ccontr)
  assume n: "x \<notin> set (take r (f xs))"
  let ?ys = "f xs" and ?P = "\<lambda>y. y \<noteq> x \<and> \<not> newer x y"
  have ms: "mset ?ys = mset xs" and so: "sorted_wrt (\<lambda>a b. \<not> newer b a) (take r ?ys @ drop r ?ys)" using assms(1) by (simp_all add: sorts_def)
  have x: "x \<in> set (drop r ?ys)" using n assms(2) mset_eq_setD [OF ms] by (metis Un_iff append_take_drop_id set_append)
  then have len: "r \<le> length ?ys" by (metis drop_all empty_iff empty_set nat_le_linear)
  have "\<not> newer x y" if "y \<in> set (take r ?ys)" for y using so x that unfolding sorted_wrt_append by blast
  then have "filter ?P (take r ?ys) = take r ?ys" using n by (auto simp: filter_id_conv)
  then have "r \<le> length (filter ?P (take r ?ys @ drop r ?ys))" using len unfolding filter_append length_append by (simp add: min_absorb2)
  moreover have "length (filter ?P ?ys) = length (filter ?P xs)" using arg_cong [OF ms, of "\<lambda>m. size (filter_mset ?P m)"] by (metis mset_filter size_mset)
  ultimately show False using assms(4) by simp
qed

lemma normalize_keeps_new:
  assumes "sorts (heSort env)" "coherent cd u" "listed (items u) k = Some x" "isAllowedLimit (fLimit (hState u))" "fLimit (hState u) \<noteq> DisabledLimit"
    "int (length (filter (\<lambda>y. y \<noteq> x \<and> \<not> newer x y) (items u))) < min (fLimit (hState u)) BurstPruneRetainedLimit"
  shows "listed (items (normalizeIndexLocked env u)) k = Some x"
proof -
  let ?u = "fix_header u"
  have ok: "ids_ok (items u)" by (rule coherentD(1) [OF assms(2)])
  have cl: "clean_items [] (items ?u) = items u" unfolding fix_header_simps by (rule clean_items_id) (use ok in \<open>auto simp: ids_ok_def\<close>)
  define r where "r = retainedHistoryCountAfterPrune (int (length (heSort env (items u)))) (fLimit (hState u))"
  have lim: "fLimit (hState ?u) = fLimit (hState u)" using assms(4) by (simp add: fix_header_def)
  have eq: "items (normalizeIndexLocked env u) = (if 0 \<le> r \<and> r < int (length (heSort env (items u))) then take (nat r) (heSort env (items u)) else heSort env (items u))"
    unfolding normalizeIndexLocked_def Let_def cl lim r_def [symmetric] by simp
  have x: "x \<in> set (items u)" "sID x = k" using listed_id [OF assms(3)] by simp_all
  have d: "distinct (items u)" using ok by (simp add: ids_ok_def distinct_map)
  have "min (fLimit (hState u)) BurstPruneRetainedLimit \<le> r"
    using assms(4,5) by (auto simp: r_def retainedHistoryCountAfterPrune_def Let_def isAllowedLimit_def allowedLimits_def BurstPruneRetainedLimit_def MaxLimit_def DisabledLimit_def)
  with assms(6) have "int (length (filter (\<lambda>y. y \<noteq> x \<and> \<not> newer x y) (items u))) < r" by (rule less_le_trans)
  then have "length (filter (\<lambda>y. y \<noteq> x \<and> \<not> newer x y) (items u)) < nat r" by linarith
  then have "x \<in> set (take (nat r) (heSort env (items u)))" by (rule sort_keeps_new [OF assms(1) x(1) d])
  then have "x \<in> set (items (normalizeIndexLocked env u))" using in_set_takeD by (auto simp: eq)
  moreover have "distinct (map sID (items (normalizeIndexLocked env u)))"
    using coherentD(1) [OF normalize_coherent [OF assms(1,2)]] by (simp add: ids_ok_def)
  ultimately show ?thesis using listed_member x(2) by blast
qed

lemma started_rank:
  assumes "ids_ok (items s)" "ids_ok (items u)" "sUpdatedAt x = now" "\<And>k. listed (items u) k = (if k = sID x then Some x else listed (items s) k)"
  shows "length (filter (\<lambda>y. y \<noteq> x \<and> \<not> newer x y) (items u)) \<le> length (filter (\<lambda>y. now \<le> sUpdatedAt y) (items s))"
proof -
  have d: "distinct (items s)" "distinct (items u)" using assms(1,2) by (simp_all add: ids_ok_def distinct_map)
  have sub: "set (filter (\<lambda>y. y \<noteq> x \<and> \<not> newer x y) (items u)) \<subseteq> set (filter (\<lambda>y. now \<le> sUpdatedAt y) (items s))"
  proof
    fix y assume "y \<in> set (filter (\<lambda>y. y \<noteq> x \<and> \<not> newer x y) (items u))"
    then have y: "y \<in> set (items u)" "y \<noteq> x" "\<not> newer x y" by simp_all
    have "listed (items u) (sID y) = Some y" using listed_member [OF _ y(1)] assms(2) by (simp add: ids_ok_def)
    then have "listed (items s) (sID y) = Some y" using assms(4) [of "sID y"] y(2) by (auto split: if_splits)
    then have "y \<in> set (items s)" using listed_id by blast
    moreover have "now \<le> sUpdatedAt y" using y(3) assms(3) by (auto simp: newer_def split: if_splits)
    ultimately show "y \<in> set (filter (\<lambda>y. now \<le> sUpdatedAt y) (items s))" by simp
  qed
  show ?thesis using card_mono [OF _ sub] distinct_card [OF distinct_filter [OF d(2)]] distinct_card [OF distinct_filter [OF d(1)]] by (metis List.finite_set)
qed

text \<open>C15: Starting an entry gives it a revision larger than the store's. If fewer entries than the store retains were updated at that millisecond or
  later, the entry can be read back at once, even when saving it failed: reading returns what was stored, up to a pass through the encoder, with
  its revision, and no other entry is changed, except by being pruned.\<close>

theorem history_start_reads_back:
  assumes "codec_laws cd" "history_run cd s" "good_env cd env" "hErr s = None" "fLimit (hState s) \<noteq> DisabledLimit"
    "int (length (filter (\<lambda>y. heMilli env \<le> sUpdatedAt y) (items s))) < min (fLimit (hState s)) BurstPruneRetainedLimit"
    and reads: "heIO env' = (\<lambda>_. None)"
  shows "\<exists>e err r s'. StartEntry env params s = (Inr (e, err), s') \<and> eID e = ''chat_'' @ heUUID env \<and> fRevision (hState s) < eRevision e \<and>
    GetEntry env' (eID e) s' = Inr r \<and> cEntry cd r = cEntry cd e \<and> DetailRevision (eID e) s' = Inr (eRevision e) \<and>
    (\<forall>k. k \<noteq> eID e \<longrightarrow> entry_view cd s' k = None \<or> entry_view cd s' k = entry_view cd s k)"
proof -
  have c: "coherent cd s" by (rule run_coherent [OF assms(1,2)])
  have so: "sorts (heSort env)" and cd: "heCodec env = cd" using assms(3) by (simp_all add: good_env_def)
  obtain u rv e where u: "coherent cd u" "e = new_entry env params rv" "fRevision (hState s) < rv"
    "StartEntry env params s = (Inr (e, fst (saveLocked env (normalizeIndexLocked env u))), snd (saveLocked env (normalizeIndexLocked env u)))"
    "entry_view cd u = (entry_view cd s)(eID e \<mapsto> cEntry cd e)" "fLimit (hState u) = fLimit (hState s)"
    "\<And>k. listed (items u) k = (if k = eID e then Some (summaryFromEntry e) else listed (items s) k)" "hErr u = hErr s"
    by (rule start_prepared [OF assms(3) c assms(4,5), of params], rule that)
  have e: "eID e = ''chat_'' @ heUUID env" "eRevision e = rv" "eUpdatedAt e = heMilli env" by (simp_all add: u(2) new_entry_def Let_def)
  let ?n = "normalizeIndexLocked env u" and ?x = "summaryFromEntry e"
  let ?s = "snd (saveLocked env ?n)"
  have wf: "isAllowedLimit (fLimit (hState s))" using run_wf [OF assms(2)] by (simp add: index_wf_def)
  have "length (filter (\<lambda>y. y \<noteq> ?x \<and> \<not> newer ?x y) (items u)) \<le> length (filter (\<lambda>y. heMilli env \<le> sUpdatedAt y) (items s))"
    by (rule started_rank [OF coherentD(1) [OF c] coherentD(1) [OF u(1)]]) (use e u(7) in \<open>simp_all add: summaryFromEntry_def\<close>)
  then have "int (length (filter (\<lambda>y. y \<noteq> ?x \<and> \<not> newer ?x y) (items u))) < min (fLimit (hState u)) BurstPruneRetainedLimit"
    using assms(6) u(6) by simp
  then have ln: "listed (items ?n) (eID e) = Some ?x" using normalize_keeps_new [OF so u(1)] u(6,7) wf assms(5) by simp
  have nc: "coherent cd ?n" by (rule normalize_coherent [OF so u(1)])
  have nwf: "index_wf (hState ?n)" by (rule normalize_wf [OF so])
  have sk: "entry_view cd ?s = entry_view cd ?n" "listed (items ?s) = listed (items ?n)"
    using saveLocked_keeps [OF so, of ?n] nc nwf cd by (simp_all add: index_wf_def)
  have sc: "coherent cd ?s" using saveLocked_coherent [OF so, of ?n] nc cd by simp
  have nv: "entry_view cd ?n k = None \<or> entry_view cd ?n k = entry_view cd u k" for k
    using normalize_frame(1) [OF so u(1)] normalize_frame(2) [OF so u(1), of k] by (cases "listed (items ?n) k") (auto simp: entry_view_def)
  have err: "hErr ?s = None" using u(8) assms(4) by (simp add: saveLocked_err)
  have ls: "listed (items ?s) (eID e) = Some ?x" using ln sk(2) by simp
  obtain r e' where r: "GetEntry env' (eID e) ?s = Inr r" "r = e' \<or> r = cEntry cd e'" "entry_view cd ?s (eID e) = Some (cEntry cd e')"
    by (rule GetEntry_listed [OF assms(1) sc err reads ls])
  have "entry_view cd ?n (eID e) = Some (cEntry cd e)" using nv [of "eID e"] u(5) r(3) sk(1) by auto
  then have "cEntry cd r = cEntry cd e" using r(2,3) sk(1) assms(1) by (auto simp: codec_laws_def)
  moreover have "DetailRevision (eID e) ?s = Inr (eRevision e)"
    using ls err coherent_good_id [OF sc ls] by (simp add: DetailRevision_def findSummaryLocked_def listed_find good_id_def summaryFromEntry_def)
  moreover have "entry_view cd ?s k = None \<or> entry_view cd ?s k = entry_view cd s k" if "k \<noteq> eID e" for k
    using nv [of k] u(5) that sk(1) by auto
  ultimately show ?thesis using u(3,4) e r(1) by blast
qed

text \<open>C14: An operation changes the entry it names and no other. Updating an entry that can be read replaces it by the merged one, with a larger revision;
  deleting a listed entry removes it; both whether or not saving succeeds. Clearing leaves no entry.\<close>

theorem history_changes_one:
  assumes "codec_laws cd" "history_run cd s" "good_env cd env" "hErr s = None"
  shows "(\<forall>e. GetEntry env k s = Inr e \<longrightarrow> (\<exists>rv > fRevision (hState s).
      entry_view cd (snd (UpdateEntry env k params s)) = (entry_view cd s)(TrimSpace k \<mapsto> cEntry cd (merge_update env params rv e)))) \<and>
    (find (\<lambda>x. sID x = TrimSpace k) (items s) \<noteq> None \<longrightarrow> entry_view cd (snd (DeleteEntry env k s)) = (entry_view cd s)(TrimSpace k := None)) \<and>
    entry_view cd (snd (ClearAll env s)) = Map.empty"
proof (intro conjI allI impI)
  have c: "coherent cd s" by (rule run_coherent [OF assms(1,2)])
  have so: "sorts (heSort env)" and cd: "heCodec env = cd" using assms(3) by (simp_all add: good_env_def)
  have keep: "codec_keeps_id cd" using assms(1) by (simp add: codec_laws_def)
  have wf: "isAllowedLimit (fLimit (hState s))" "within_limit (fLimit (hState s)) (length (items s))" using run_wf [OF assms(2)] by (simp_all add: index_wf_def)
  have sv: "entry_view cd (snd (saveLocked env t)) = entry_view cd t"
    if "coherent cd t" "fLimit (hState t) = fLimit (hState s)" "length (items t) \<le> length (items s)" for t
    by (rule saveLocked_keeps(1) [OF so, unfolded cd]) (use that wf cd in \<open>auto simp: within_limit_def\<close>)
  show "\<exists>rv > fRevision (hState s).
      entry_view cd (snd (UpdateEntry env k params s)) = (entry_view cd s)(TrimSpace k \<mapsto> cEntry cd (merge_update env params rv e))"
    if "GetEntry env k s = Inr e" for e
  proof -
    have rd: "readDetailLocked env (TrimSpace k) s = Inr e" using that assms(4) by (auto simp: GetEntry_def Let_def split: if_splits)
    obtain t rv e' where t: "coherent cd t" "e' = merge_update env params rv e" "fRevision (hState s) < rv"
      "UpdateEntry env k params s = (case saveLocked env t of (Some m, s') \<Rightarrow> (Inl m, s') | (None, s') \<Rightarrow> (Inr e', s'))"
      "entry_view cd t = (entry_view cd s)(TrimSpace k \<mapsto> cEntry cd e')" "fLimit (hState t) = fLimit (hState s)" "length (items t) = length (items s)"
      by (rule update_prepared [OF assms(3) keep c assms(4) rd, of params], rule that)
    have "snd (UpdateEntry env k params s) = snd (saveLocked env t)" unfolding t(4) by (simp split: prod.splits option.splits)
    then show ?thesis using sv [OF t(1,6)] t(2,3,5,7) by (intro exI [of _ rv]) simp
  qed
  show "entry_view cd (snd (DeleteEntry env k s)) = (entry_view cd s)(TrimSpace k := None)" if fd: "find (\<lambda>x. sID x = TrimSpace k) (items s) \<noteq> None"
  proof -
    obtain x where x: "listed (items s) (TrimSpace k) = Some x" using fd by (auto simp: listed_find)
    have cdl: "can_delete k s" using coherent_good_id [OF c x] x assms(4) by (simp add: can_delete_def good_id_def)
    obtain t where t: "coherent cd t" "DeleteEntry env k s = saveLocked env t" "entry_view cd t = (entry_view cd s)(TrimSpace k := None)"
      "fLimit (hState t) = fLimit (hState s)" "length (items t) \<le> length (items s)"
      by (rule delete_prepared [OF c cdl, of env], rule that)
    show ?thesis unfolding t(2) using sv [OF t(1,4,5)] t(3) by simp
  qed
  show "entry_view cd (snd (ClearAll env s)) = Map.empty"
  proof -
    obtain t where t: "coherent cd t" "ClearAll env s = saveLocked env t" "items t = []" "fLimit (hState t) = fLimit (hState s)"
      by (rule clear_prepared [OF c assms(4), of env], rule that)
    have "entry_view cd (snd (ClearAll env s)) = entry_view cd t" unfolding t(2) using sv [OF t(1,4)] t(3) by simp
    then show ?thesis using t(3) by (simp add: entry_view_def fun_eq_iff)
  qed
qed

text \<open>C12: Reopening a store whose changes are all saved, when its files can be read and written, succeeds and saves again: it lists the same
  identifiers, no request is listed as queued or streaming, every entry that was unfinished is now stopped by the restart, and every other entry
  reads exactly as it did.\<close>

theorem history_restart_recovers:
  assumes "codec_laws cd" "history_run cd s" "saved cd s" "good_env cd env" "heIO env = (\<lambda>_. None)" "TrimSpace path \<noteq> ''''"
    and s': "s' = NewStore env path (dIndex s) (dDetails s)"
  shows "hErr s' = None \<and> saved cd s' \<and> sID ` set (items s') = sID ` set (items s) \<and> (\<forall>x \<in> set (items s'). sStatus x \<notin> {''streaming'', ''queued''}) \<and>
    (\<forall>k d. entry_view cd s k = Some d \<longrightarrow> (if eStatus d \<in> {''streaming'', ''queued''}
       then \<exists>e. entry_view cd s' k = Some (cEntry cd e) \<and> eStatus e = ''stopped'' \<and> eFinishReason e = ''server_restart'' \<and> eID e = k
       else entry_view cd s' k = Some d))"
proof -
  have c: "coherent cd s" by (rule run_coherent [OF assms(1,2)])
  have so: "sorts (heSort env)" and cd: "heCodec env = cd" using assms(4) by (simp_all add: good_env_def)
  have io: "heIO env MkdirParent = None" "heIO env MkdirDetail = None" "heIO env ReadIndex = None" using assms(5) by simp_all
  obtain t where t: "coherent cd t" "NewStore env path (dIndex s) (dDetails s) = (snd (saveLocked env t))\<lparr>hErr := None\<rparr>" "hDeleted t = []"
    "isAllowedLimit (fLimit (hState t))" "within_limit (fLimit (hState t)) (length (items t))"
    "\<And>k. (listed (items t) k = None) = (listed (items s) k = None)"
    "\<And>k d. entry_view cd s k = Some d \<Longrightarrow> if eStatus d \<in> {''streaming'', ''queued''}
       then \<exists>e. entry_view cd t k = Some (cEntry cd e) \<and> eStatus e = ''stopped'' \<and> eFinishReason e = ''server_restart'' \<and> eID e = k
       else entry_view cd t k = Some d"
    "\<forall>x \<in> set (items t). \<not> unfinished x"
    by (rule restart_prepared [OF assms(4,1) c assms(3) run_wf [OF assms(2)] io assms(6)], rule that)
  let ?v = "snd (saveLocked env t)"
  have sk: "entry_view cd ?v = entry_view cd t" "listed (items ?v) = listed (items t)" using saveLocked_keeps [OF so, of t] t(1,4,5) cd by simp_all
  have sv: "saved cd ?v" by (rule saveLocked_ok [OF assms(4) t(1) assms(5) t(3-5)])
  have s'v: "items s' = items ?v" "entry_view cd s' = entry_view cd ?v" "hErr s' = None" "saved cd s'"
    using s' t(2) sv entry_view_cong [of s' ?v cd] by (simp_all add: saved_def)
  have "listed (items s') k = None \<longleftrightarrow> listed (items s) k = None" for k using t(6) [of k] sk(2) s'v(1) by simp
  then have ids: "sID ` set (items s') = sID ` set (items s)" by (auto simp: listed_None)
  have un: "\<not> unfinished x" if "x \<in> set (items s')" for x
  proof -
    have "distinct (map sID (items ?v))" using coherentD(1) [OF saveLocked_coherent [OF so, of t]] t(1) cd by (simp add: ids_ok_def)
    then have "listed (items ?v) (sID x) = Some x" using that s'v(1) listed_member by simp
    then have "x \<in> set (items t)" using sk(2) listed_id [of "items t" "sID x" x] by simp
    then show ?thesis using t(8) by simp
  qed
  show ?thesis
  proof (intro conjI allI impI ballI)
    show "sStatus x \<notin> {''streaming'', ''queued''}" if "x \<in> set (items s')" for x using un [OF that] by (simp add: unfinished_def)
    show "if eStatus d \<in> {''streaming'', ''queued''}
       then \<exists>e. entry_view cd s' k = Some (cEntry cd e) \<and> eStatus e = ''stopped'' \<and> eFinishReason e = ''server_restart'' \<and> eID e = k
       else entry_view cd s' k = Some d" if "entry_view cd s k = Some d" for k d
      unfolding s'v(2) sk(1) by (rule t(7) [OF that])
  qed (use s'v ids in simp_all)
qed

text \<open>A run in which one request is started and the store is reopened.\<close>

definition example_opened :: HistoryStore where "example_opened = NewStore (plain_env 3 ''x'') ''h.json'' None []"
definition example_started :: HistoryStore where "example_started = history_step (plain_env 5 ''a'') (OpStart plain_params) example_opened"

lemma plain_good: "good_env plain_codec (plain_env 3 ''x'')" "good_env plain_codec (plain_env 5 ''a'')" "good_env plain_codec (plain_env 7 ''b'')"
proof -
  have "good_id (''chat_'' @ ''x'')" "good_id (''chat_'' @ ''a'')" "good_id (''chat_'' @ ''b'')" by code_simp+
  then show "good_env plain_codec (plain_env 3 ''x'')" "good_env plain_codec (plain_env 5 ''a'')" "good_env plain_codec (plain_env 7 ''b'')"
    by (simp_all add: good_env_def plain_env_def newest_first_sorts)
qed

lemma plain_laws: "codec_laws plain_codec"
  by (simp add: codec_laws_def plain_codec_def codec_keeps_id_def parseLegacy_def)

lemma example_run: "history_run plain_codec example_opened" "history_run plain_codec example_started"
  unfolding example_started_def example_opened_def by (intro history_run.intros plain_good)+

definition example_dirty :: HistoryStore where
  "example_dirty = (let (revision, s1) = nextRevisionLocked (plain_env 5 ''a'') example_opened;
     entry = new_entry (plain_env 5 ''a'') plain_params revision in markDetailDirtyLocked (eID entry) (s1\<lparr>hDetails := gm_set (eID entry) entry (hDetails s1)\<rparr>))"

lemma example_facts:
  "hErr example_opened = None" "fLimit (hState example_opened) = 20000" "items example_opened = []" "fRevision (hState example_opened) = 0"
  by code_simp+

lemma example_started_eq:
  "example_started = snd (saveLocked (plain_env 5 ''a'') (rebuildIndexLocked (plain_env 5 ''a'') example_dirty))"
  by (simp add: example_started_def StartEntry_def example_dirty_def example_facts DisabledLimit_def Let_def case_prod_beta)

lemma example_started_facts:
  "hErr example_started = None" "map sID (items example_started) = [''chat_a'']" "map sStatus (items example_started) = [''streaming'']" 
  "map_option eStatus (entry_view plain_codec example_started ''chat_a'') = Some ''streaming''"
  unfolding example_started_eq by code_simp+
lemma example_started_saved:  "saved plain_codec example_started"
proof -
  have "fst (saveLocked (plain_env 5 ''a'') (rebuildIndexLocked (plain_env 5 ''a'') example_dirty)) = None" by code_simp
  then have "saveLocked (plain_env 5 ''a'') (rebuildIndexLocked (plain_env 5 ''a'') example_dirty) = (None, example_started)" unfolding example_started_eq by (simp add: prod_eq_iff)
  from saveLocked_saved [OF this] show ?thesis by (simp add: plain_env_def)
qed

theorem history_readable_witness:
  "\<exists>e. GetEntry (plain_env 7 ''b'') '' chat_a'' example_started = Inr e \<and> map summaryFromEntry [e] = items example_started"
proof -
  have f: "find (\<lambda>x. sID x = TrimSpace '' chat_a'') (items example_started) = Some (hd (items example_started))" "items example_started = [hd (items example_started)]"
    unfolding example_started_eq by code_simp+
  show ?thesis 
  using history_readable [OF plain_laws example_run(2) example_started_facts(1), of "plain_env 7 ''b''" " '' chat_a''"] f
  by (auto simp: plain_env_def plain_codec_def)
qed

theorem history_start_reads_back_witness:
  "\<exists>e r. GetEntry (plain_env 7 ''b'') ''chat_a'' example_started = Inr r \<and> r = e \<and> 0 < eRevision e \<and> DetailRevision ''chat_a'' example_started = Inr (eRevision e)"
  using history_start_reads_back [OF plain_laws example_run(1) plain_good(2) example_facts(1), of "plain_env 7 ''b''" plain_params]
  by (auto simp: example_facts DisabledLimit_def BurstPruneRetainedLimit_def example_started_def) (auto simp: plain_env_def plain_codec_def)

definition plain_update :: UpdateParams where
  "plain_update = \<lparr>upCallerID = '''', upAccountID = '''', upStatus = ''success'', upHistoryText = '''', upReasoningContent = '''', upContent = ''hi'', upError = '''',
     upStatusCode = 200, upElapsedMs = 2, upFinishReason = ''stop'', upUsage = None, upCompleted = True, upCurrentInput = None\<rparr>"

theorem history_changes_one_witness:
  "entry_view plain_codec example_started ''chat_a'' \<noteq> None \<and>
   entry_view plain_codec (snd (DeleteEntry (plain_env 7 ''b'') ''chat_a'' example_started)) ''chat_a'' = None \<and>
   (\<exists>d. entry_view plain_codec (snd (UpdateEntry (plain_env 7 ''b'') ''chat_a'' plain_update example_started)) ''chat_a'' = Some d \<and> eContent d = ''hi'')"
proof -
  note h = history_changes_one [OF plain_laws example_run(2) plain_good(3) example_started_facts(1), of "''chat_a''" plain_update]
  have t: "TrimSpace ''chat_a'' = ''chat_a''" by code_simp
  have f: "find (\<lambda>x. sID x = TrimSpace ''chat_a'') (items example_started) \<noteq> None" "\<not> isl (GetEntry (plain_env 7 ''b'') ''chat_a'' example_started)"
    unfolding example_started_eq by code_simp+
  then obtain e where e: "GetEntry (plain_env 7 ''b'') ''chat_a'' example_started = Inr e" by (metis sum.collapse(2))
  obtain rv where "entry_view plain_codec (snd (UpdateEntry (plain_env 7 ''b'') ''chat_a'' plain_update example_started)) ''chat_a'' =
      Some (cEntry plain_codec (merge_update (plain_env 7 ''b'') plain_update rv e))"
    using h e by (auto simp: t)
  moreover have "eContent (cEntry plain_codec (merge_update env plain_update rv e)) = ''hi''" for env by (simp add: merge_update_def plain_codec_def plain_update_def)
  moreover have "entry_view plain_codec (snd (DeleteEntry (plain_env 7 ''b'') ''chat_a'' example_started)) ''chat_a'' = None" using h f(1) by (simp add: t)
  moreover have "entry_view plain_codec example_started ''chat_a'' \<noteq> None" using example_started_facts(4) by auto
  ultimately show ?thesis by (intro conjI exI) assumption+
qed

theorem history_restart_recovers_witness:
  "let s = NewStore (plain_env 7 ''b'') ''h.json'' (dIndex example_started) (dDetails example_started) in
   saved plain_codec example_started \<and> hErr s = None \<and> sID ` set (items s) = {''chat_a''} \<and>
   (\<exists>d. entry_view plain_codec s ''chat_a'' = Some d \<and> eStatus d = ''stopped'')"
proof -
  have p: "TrimSpace ''h.json'' \<noteq> ''''" by code_simp
  have io: "heIO (plain_env 7 ''b'') = (\<lambda>_. None)" by (simp add: plain_env_def)
  obtain d where d: "entry_view plain_codec example_started ''chat_a'' = Some d" "eStatus d = ''streaming''"
    using example_started_facts(4) by auto
  have ids: "sID ` set (items example_started) = {''chat_a''}" using example_started_facts(2) by (metis empty_set list.simps(15) set_map)
  note r = history_restart_recovers [OF plain_laws example_run(2) example_started_saved plain_good(3) io p refl]
  obtain e where "entry_view plain_codec (NewStore (plain_env 7 ''b'') ''h.json'' (dIndex example_started) (dDetails example_started)) ''chat_a'' =
      Some (cEntry plain_codec e)" "eStatus e = ''stopped''"
    using r [THEN conjunct2, THEN conjunct2, THEN conjunct2, THEN conjunct2, rule_format, OF d(1)] d(2) by auto
  moreover have "cEntry plain_codec e = e" by (simp add: plain_codec_def)
  moreover note conjunct1 [OF r] r [THEN conjunct2, THEN conjunct2, THEN conjunct1] ids example_started_saved
  ultimately show ?thesis unfolding Let_def by simp
qed

text \<open>An identifier that cannot name a file, once it waits to be removed, makes this and every later attempt to save fail.\<close>

lemma unsafe_delete_blocks_saves:
  assumes "k \<in> set (hDeleted s)" "\<not> isSafeDetailID k"
  shows "fst (saveLocked env s) \<noteq> None \<and> k \<in> set (hDeleted (snd (saveLocked env s)))"
proof -
  have drop: "k \<in> set (hDeleted (fold drop_entry xs t))" if "k \<in> set (hDeleted t)" for xs t
    by (rule fold_keeps [where P = "\<lambda>t. k \<in> set (hDeleted t)"]) (use that in \<open>auto simp: drop_entry_def markDetailDeletedLocked_def Let_def\<close>)
  have norm: "k \<in> set (hDeleted (normalizeIndexLocked env t))" if "k \<in> set (hDeleted t)" for t
    using drop [of "fix_header t"] that by (simp add: normalizeIndexLocked_def Let_def)
  let ?u = "\<lambda>ident s. case gm_get (hDetails s) ident of Some item \<Rightarrow> upsertSummaryLocked item s | None \<Rightarrow> s"
  let ?r = "\<lambda>ident s. (removeSummaryLocked ident s)\<lparr>hDetails := gm_del ident (hDetails s)\<rparr>"
  have "hDeleted (fold ?u xs t) = hDeleted t" for xs t by (rule fold_field [where g = hDeleted]) (simp split: option.splits)
  moreover have "hDeleted (fold ?r xs t) = hDeleted t" for xs t by (rule fold_field [where g = hDeleted]) simp
  ultimately have n: "k \<in> set (hDeleted (apply_pending env s))" unfolding apply_pending_def Let_def using assms(1) by (intro norm) simp
  have "fst (remove_files env ks t) \<noteq> None" if "k \<in> set ks" for ks t
    using that assms(2) by (induction env ks t rule: remove_files.induct) (auto split: option.splits)
  then obtain e s1 where r: "remove_files env (sort (hDeleted (apply_pending env s))) (apply_pending env s) = (Some e, s1)" using n by (metis option.exhaust prod.collapse set_sort)
  have "hDeleted s1 = hDeleted (apply_pending env s)" using remove_files_simps(3) [of env "sort (hDeleted (apply_pending env s))" "apply_pending env s"] r by simp
  then show ?thesis using n by (simp add: saveLocked_def Let_def r split: option.splits)
qed

text \<open>
  Why a store may only be reopened when it is saved: when the detail file of a finished entry was removed and writing the index then failed,
  the entry is gone from the running store, but a restart lists it again and cannot read it.
\<close>

definition finished_entry :: Entry where
  "finished_entry = (new_entry (plain_env 5 ''a'') plain_params 5)\<lparr>eStatus := ''success''\<rparr>"

definition finished_file :: HistoryFile where
  "finished_file = \<lparr>fVersion = 2, fLimit = 20000, fRevision = 5, fItems = [summaryFromEntry finished_entry]\<rparr>"

definition finished_store :: HistoryStore where
  "finished_store = \<lparr>hState = finished_file, hDetails = [], hDirty = [], hDeleted = [], hErr = None,
     dIndex = Some \<lparr>legacyView = None, probeKeys = None, indexView = Some finished_file\<rparr>, dDetails = [(''chat_a'', Some finished_entry)]\<rparr>"

definition full_disk :: HistoryEnv where
  "full_disk = (plain_env 8 ''c'')\<lparr>heIO := (\<lambda>op. if op = WriteIndex then Some ''disk full'' else None)\<rparr>"

lemma half_deleted:
  "items (snd (DeleteEntry full_disk ''chat_a'' finished_store)) = []"
  "dDetails (snd (DeleteEntry full_disk ''chat_a'' finished_store)) = []"
  "dIndex (snd (DeleteEntry full_disk ''chat_a'' finished_store)) = dIndex finished_store"
  by code_simp+

lemma half_deleted_reopened:
  "hErr (NewStore (plain_env 9 ''d'') ''h.json'' (dIndex finished_store) []) = None"
  "map sID (items (NewStore (plain_env 9 ''d'') ''h.json'' (dIndex finished_store) [])) = [''chat_a'']"
  "GetEntry (plain_env 9 ''d'') ''chat_a'' (NewStore (plain_env 9 ''d'') ''h.json'' (dIndex finished_store) []) =
     Inl ''read chat history detail: file does not exist''"
  by code_simp+

lemma restart_lists_deleted_entry:
  "let t = snd (DeleteEntry full_disk ''chat_a'' finished_store); s = NewStore (plain_env 9 ''d'') ''h.json'' (dIndex t) (dDetails t) in
   items t = [] \<and> hErr s = None \<and> map sID (items s) = [''chat_a''] \<and>
   GetEntry (plain_env 9 ''d'') ''chat_a'' s = Inl ''read chat history detail: file does not exist''"
  by (simp add: Let_def half_deleted half_deleted_reopened)

end
