(* ===== verification/Prompt_Limits.thy ===== *)
theory Prompt_Limits
  imports Models GoJson
begin

text \<open>
  The size limits of a prompt and the dropping of old turns (\<^verbatim>\<open>promptcompat/prompt_compress.go\<close>, \<^verbatim>\<open>httpapi/openai/shared/prompt_compress.go\<close>,
  \<^verbatim>\<open>dynamic_prompt_limit.go\<close>). Sizes are counted in UTF-16 code units. Of a request only the fields these functions read or
  write are modelled; the assembling of a prompt from messages (\<^verbatim>\<open>BuildOpenAIPrompt\<close>) is an argument, and so are the unicode case tables and the
  limits the provider advertises.
\<close>

section \<open>Settings and requests\<close>

record PromptLimitSettings =
  plEnabled :: bool
  MaxCharsDefault :: int
  MaxCharsExpert :: int
  MaxCharsDefaultConfigured :: bool
  MaxCharsExpertConfigured :: bool
  AutoCompressEnable :: bool
  KeepRecentTurns :: int
  KeepSystemMessage :: bool
  ProFlashCompressionEnable :: bool
  ProFlashCompressionTarget :: int
  SessionChunkingEnable :: bool
  SessionChunkingTargetRatio :: rat
  SessionChunkingMaxChunks :: int
  SessionChunkingCommitTimeoutSeconds :: int

record ModelInputLimits =
  limDefault :: int
  limExpert :: int

datatype ToolChoiceMode = ToolChoiceAuto | ToolChoiceNone | ToolChoiceRequired | ToolChoiceForced

record ToolChoicePolicy =
  Mode :: ToolChoiceMode
  ForcedName :: string
  Allowed :: "string list"

definition IsNone :: "ToolChoicePolicy \<Rightarrow> bool" where
  "IsNone p = (Mode p = ToolChoiceNone)"

definition IsRequired :: "ToolChoicePolicy \<Rightarrow> bool" where
  "IsRequired p = (Mode p = ToolChoiceRequired \<or> Mode p = ToolChoiceForced)"

definition Allows :: "string \<Rightarrow> ToolChoicePolicy \<Rightarrow> bool" where
  "Allows name p = (Allowed p = [] \<or> name \<in> set (Allowed p))"

record StandardRequest =
  RequestedModel :: string
  ResolvedModel :: string
  rqMessages :: "json list"
  ToolsRaw :: json
  FinalPrompt :: string
  IncrementalFormatPrompt :: string
  ToolNames :: "string list"
  ToolChoice :: ToolChoicePolicy
  Thinking :: bool

section \<open>Sizes and limits\<close>

text \<open>The length \<^verbatim>\<open>utf16.Encode\<close> gives to a rune.\<close>

definition utf16_len :: "rune \<Rightarrow> int" where
  "utf16_len r = (if 65536 \<le> r \<and> r \<le> 1114111 then 2 else 1)"

definition units_of :: "rune list \<Rightarrow> int" where
  "units_of rs = sum_list (map utf16_len rs)"

definition PromptUnits :: "string \<Rightarrow> int" where
  "PromptUnits v = (if v = '''' then 0 else units_of (runes v))"

definition IsExpertModel :: "string \<Rightarrow> bool" where
  "IsExpertModel model = (GetModelType model = Some ''expert'')"

definition EffectiveModel :: "StandardRequest \<Rightarrow> string" where
  "EffectiveModel req = (let m = TrimSpace (ResolvedModel req) in if m \<noteq> '''' then m else TrimSpace (RequestedModel req))"

definition LimitForModel :: "PromptLimitSettings \<Rightarrow> string \<Rightarrow> int" where
  "LimitForModel cfg model = (if \<not> plEnabled cfg then 0 else if IsExpertModel model then MaxCharsExpert cfg else MaxCharsDefault cfg)"

definition LimitExceededMessage :: "PromptLimitSettings \<Rightarrow> string \<Rightarrow> string \<Rightarrow> string" where
  "LimitExceededMessage cfg prompt model =
     (let limit = LimitForModel cfg model; units = PromptUnits prompt in
      if limit \<le> 0 \<or> units \<le> limit then ''''
      else let tier = (if IsExpertModel model then ''expert'' else ''default'') in
        ''prompt size '' @ FormatInt units @ '' UTF-16 code units exceeds the '' @ tier @ '' model limit of '' @ FormatInt limit @
        '' by '' @ FormatInt (units - limit) @ '' units; shorten the conversation or raise prompt_limit.max_chars_'' @ tier)"

definition EnforcePromptLimit :: "PromptLimitSettings \<Rightarrow> StandardRequest \<Rightarrow> string" where
  "EnforcePromptLimit cfg req = (if \<not> plEnabled cfg then '''' else LimitExceededMessage cfg (FinalPrompt req) (EffectiveModel req))"

definition EnforcePromptLimitBeforeCIF :: "PromptLimitSettings \<Rightarrow> StandardRequest \<Rightarrow> bool \<Rightarrow> string" where
  "EnforcePromptLimitBeforeCIF cfg req remoteFileUploadEnabled =
     (if remoteFileUploadEnabled \<or> ProFlashCompressionEnable cfg \<or> SessionChunkingEnable cfg then '''' else EnforcePromptLimit cfg req)"

definition PromptLimitForModel :: "PromptLimitSettings \<Rightarrow> string \<Rightarrow> int \<times> bool" where
  "PromptLimitForModel cfg model = (if IsExpertModel model then (MaxCharsExpert cfg, True) else (MaxCharsDefault cfg, False))"

text \<open>The limits the provider advertises. \<open>provider\<close> is \<open>None\<close> when the client, the account or the lookup operation is missing.\<close>

definition overlay_limit :: "int \<Rightarrow> bool \<Rightarrow> int \<Rightarrow> int" where
  "overlay_limit advertised configured current =
     (if 0 < advertised \<and> (\<not> configured \<or> current \<le> 0 \<or> advertised < current) then advertised else current)"

definition ResolveDynamicPromptLimits :: "(string + ModelInputLimits) option \<Rightarrow> PromptLimitSettings \<Rightarrow> string + PromptLimitSettings \<times> bool" where
  "ResolveDynamicPromptLimits provider cfg =
     (if \<not> plEnabled cfg then Inr (cfg, False)
      else case provider of
        None \<Rightarrow> Inr (cfg, False)
      | Some (Inl e) \<Rightarrow> Inl (''dynamic prompt limit lookup: '' @ e)
      | Some (Inr limits) \<Rightarrow>
          (let cfg1 = cfg\<lparr>MaxCharsDefault := overlay_limit (limDefault limits) (MaxCharsDefaultConfigured cfg) (MaxCharsDefault cfg)\<rparr>;
               cfg2 = cfg1\<lparr>MaxCharsExpert := overlay_limit (limExpert limits) (MaxCharsExpertConfigured cfg1) (MaxCharsExpert cfg1)\<rparr>;
               cfg3 = (if MaxCharsExpert cfg2 < ProFlashCompressionTarget cfg2 then cfg2\<lparr>ProFlashCompressionTarget := MaxCharsExpert cfg2\<rparr> else cfg2)
           in Inr (cfg3, True)))"

section \<open>Dropping old turns\<close>

definition isToolResultRole :: "case_table \<Rightarrow> string \<Rightarrow> bool" where
  "isToolResultRole tab role = (ToLower tab (TrimSpace role) \<in> {''tool'', ''function''})"

definition messageRole :: "case_table \<Rightarrow> json \<Rightarrow> string" where
  "messageRole tab item = (case as_obj item of None \<Rightarrow> '''' | Some msg \<Rightarrow> ToLower tab (TrimSpace (as_str (jfield msg ''role''))))"

definition dropLeadingOrphanToolResults :: "case_table \<Rightarrow> json list \<Rightarrow> json list" where
  "dropLeadingOrphanToolResults tab messages = dropWhile (\<lambda>m. isToolResultRole tab (messageRole tab m)) messages"

fun split_leading_system :: "case_table \<Rightarrow> bool \<Rightarrow> json list \<Rightarrow> json list \<times> json list" where
  "split_leading_system tab keepSystem [] = ([], [])"
| "split_leading_system tab keepSystem (item # rest) =
     (if keepSystem \<and> messageRole tab item = ''system''
      then (case split_leading_system tab keepSystem rest of (sys, non) \<Rightarrow> (item # sys, non)) else ([], item # rest))"

definition turn_starts :: "case_table \<Rightarrow> json list \<Rightarrow> nat list" where
  "turn_starts tab ms = filter (\<lambda>i. messageRole tab (ms ! i) = ''user'') [0..<length ms]"

text \<open>The window that is kept, or the last message when nothing else is left of it.\<close>

definition keep_window :: "case_table \<Rightarrow> json list \<Rightarrow> nat \<Rightarrow> json list" where
  "keep_window tab nonSystem start =
     (let kept = dropLeadingOrphanToolResults tab (drop start nonSystem) in if kept = [] then drop (length nonSystem - 1) nonSystem else kept)"

definition CompressMessages :: "case_table \<Rightarrow> json list \<Rightarrow> bool \<Rightarrow> int \<Rightarrow> json list \<times> bool" where
  "CompressMessages tab messages keepSystem keepRecent0 =
     (if messages = [] then (messages, False)
      else let (systemMsgs, nonSystem) = split_leading_system tab keepSystem messages;
               keepRecent = (if keepRecent0 < 1 then 1 else keepRecent0);
               turnStarts = turn_starts tab nonSystem
           in if int (length turnStarts) \<le> keepRecent then (messages, False)
              else (systemMsgs @ keep_window tab nonSystem (turnStarts ! (length turnStarts - nat keepRecent)), True))"

definition count_turns :: "case_table \<Rightarrow> json list \<Rightarrow> int" where
  "count_turns tab ms = int (length (filter (\<lambda>m. messageRole tab m = ''user'') ms))"

definition CompactMessages :: "case_table \<Rightarrow> json list \<Rightarrow> bool \<Rightarrow> int \<Rightarrow> json list \<times> bool" where
  "CompactMessages tab messages keepSystem keepRecent0 =
     (let turns = count_turns tab messages in
      if turns \<le> 1 then (messages, False)
      else let k = (if keepRecent0 < 1 then 1 else keepRecent0);
               keepRecent = (if turns \<le> k then (if turns div 2 < 1 then 1 else turns div 2) else k)
           in CompressMessages tab messages keepSystem keepRecent)"

definition CompressMessagesForIncrementalRotation :: "case_table \<Rightarrow> json list \<Rightarrow> bool \<Rightarrow> int \<Rightarrow> json list \<times> bool" where
  "CompressMessagesForIncrementalRotation tab messages keepSystem keepRecent =
     (if messages = [] then (messages, False)
      else let (systemMsgs, nonSystem) = split_leading_system tab keepSystem messages;
               window = (let w = int64_wrap (keepRecent * 2) in if w < 2 then 2 else w)
           in if int (length nonSystem) \<le> window then (messages, False)
              else (systemMsgs @ keep_window tab nonSystem (length nonSystem - nat window), True))"

text \<open>\<^verbatim>\<open>CompressToFit\<close>: the number of kept turns is halved until the prompt fits.\<close>

type_synonym prompt_builder = "json list \<Rightarrow> json \<Rightarrow> ToolChoicePolicy \<Rightarrow> bool \<Rightarrow> string \<times> string list"

function compress_loop :: "case_table \<Rightarrow> prompt_builder \<Rightarrow> PromptLimitSettings \<Rightarrow> json list \<Rightarrow> int \<Rightarrow> int \<Rightarrow> StandardRequest \<Rightarrow> bool \<Rightarrow> StandardRequest \<times> bool" where
  "compress_loop tab build cfg original limit keep req changed =
     (if \<not> 1 \<le> keep then (req, changed)
      else case CompressMessages tab original (KeepSystemMessage cfg) keep of
        (compressed, False) \<Rightarrow> compress_loop tab build cfg original limit (keep div 2) req changed
      | (compressed, True) \<Rightarrow>
          (case build compressed (ToolsRaw req) (ToolChoice req) (Thinking req) of (prompt, toolNames) \<Rightarrow>
             (let req1 = req\<lparr>rqMessages := compressed, FinalPrompt := prompt, ToolNames := (if toolNames \<noteq> [] then toolNames else ToolNames req)\<rparr> in
              if PromptUnits prompt \<le> limit then (req1, True) else compress_loop tab build cfg original limit (keep div 2) req1 True)))"
  by pat_completeness auto
termination
  by (relation "measure (\<lambda>(tab, build, cfg, original, limit, keep, req, changed). nat keep)") auto

declare compress_loop.simps [simp del]

definition CompressToFit :: "case_table \<Rightarrow> prompt_builder \<Rightarrow> PromptLimitSettings \<Rightarrow> StandardRequest \<Rightarrow> StandardRequest \<times> bool" where
  "CompressToFit tab build cfg req =
     (if \<not> plEnabled cfg \<or> \<not> AutoCompressEnable cfg then (req, False)
      else let limit = LimitForModel cfg (EffectiveModel req) in
        if limit \<le> 0 \<or> PromptUnits (FinalPrompt req) \<le> limit then (req, False)
        else compress_loop tab build cfg (rqMessages req) limit (KeepRecentTurns cfg) req False)"

definition CompressPromptBeforeCIF :: "case_table \<Rightarrow> prompt_builder \<Rightarrow> PromptLimitSettings \<Rightarrow> StandardRequest \<Rightarrow> (int \<times> bool) \<times> StandardRequest" where
  "CompressPromptBeforeCIF tab build cfg req =
     (if \<not> plEnabled cfg then ((0, False), req)
      else case CompressToFit tab build cfg req of
        (compressed, False) \<Rightarrow> ((0, False), req)
      | (compressed, True) \<Rightarrow> ((int (length (rqMessages req)) - int (length (rqMessages compressed)), True), compressed))"

section \<open>What is kept\<close>

lemma split_leading_system_eq:
  "split_leading_system tab keepSystem ms =
     (if keepSystem then (takeWhile (\<lambda>m. messageRole tab m = ''system'') ms, dropWhile (\<lambda>m. messageRole tab m = ''system'') ms) else ([], ms))"
  by (induction tab keepSystem ms rule: split_leading_system.induct) auto

lemma filter_indices: "length (filter (\<lambda>i. P (xs ! i)) [a..<length xs]) = length (filter P (drop a xs))"
proof (cases "a \<le> length xs")
  case True
  have "map ((!) xs) [a..<length xs] = drop a xs"
    by (rule nth_equalityI) (use True in \<open>auto simp: nth_append\<close>)
  then have "filter P (drop a xs) = map ((!) xs) (filter (P \<circ> (!) xs) [a..<length xs])" by (metis filter_map)
  then show ?thesis by (simp add: comp_def)
qed simp

lemma turn_starts_length: "int (length (turn_starts tab ms)) = count_turns tab ms"
  using filter_indices [of "\<lambda>m. messageRole tab m = ''user''" ms 0] by (simp add: turn_starts_def count_turns_def)

lemma turn_starts_nth:
  assumes "m < length (turn_starts tab ms)"
  defines "i \<equiv> turn_starts tab ms ! m"
  shows "i < length ms" "messageRole tab (ms ! i) = ''user''" "length (turn_starts tab ms) - m = length (filter (\<lambda>x. messageRole tab x = ''user'') (drop i ms))"
proof -
  let ?Q = "\<lambda>i. messageRole tab (ms ! i) = ''user''"
  have "i \<in> set (turn_starts tab ms)" unfolding i_def using assms(1) by (rule nth_mem)
  then show i: "i < length ms" "?Q i" by (auto simp: turn_starts_def)
  have "[0..<length ms] = [0..<i] @ [i..<length ms]" using upt_add_eq_append [of 0 i "length ms - i"] i(1) by simp
  then have app: "turn_starts tab ms = filter ?Q [0..<i] @ filter ?Q [i..<length ms]" unfolding turn_starts_def by (metis filter_append)
  have "filter ?Q [i..<length ms] = i # filter ?Q [Suc i..<length ms]" using i by (simp add: upt_conv_Cons)
  then have "turn_starts tab ms ! length (filter ?Q [0..<i]) = i" "length (filter ?Q [0..<i]) < length (turn_starts tab ms)" unfolding app by (simp_all add: nth_append)
  moreover have "distinct (turn_starts tab ms)" by (simp add: turn_starts_def)
  ultimately have "length (filter ?Q [0..<i]) = m" using assms(1) i_def by (simp add: nth_eq_iff_index_eq)
  then have "length (turn_starts tab ms) - m = length (filter ?Q [i..<length ms])" unfolding app by simp
  then show "length (turn_starts tab ms) - m = length (filter (\<lambda>x. messageRole tab x = ''user'') (drop i ms))"
    using filter_indices [of "\<lambda>x. messageRole tab x = ''user''" ms i] by simp
qed

lemma user_is_no_tool_result: "messageRole tab m = ''user'' \<Longrightarrow> \<not> isToolResultRole tab (messageRole tab m)"
proof -
  assume u: "messageRole tab m = ''user''"
  have "TrimSpace ''user'' = ''user''" by code_simp
  moreover have "ToLower tab ''user'' = ''user''" by (simp add: ToLower_ascii ascii_def byte_of_def ascii_lower_def)
  ultimately show ?thesis unfolding u by (simp add: isToolResultRole_def)
qed

lemma CompressMessages_window:
  assumes "CompressMessages tab ms keepSystem n = (out, True)"
  obtains sys old kept where "ms = sys @ old @ kept" "out = sys @ kept" "sys = (if keepSystem then takeWhile (\<lambda>m. messageRole tab m = ''system'') ms else [])"
    "kept \<noteq> []" "messageRole tab (hd kept) = ''user''" "count_turns tab kept = max 1 n" "0 < count_turns tab old"
proof -
  obtain sys non where sp: "split_leading_system tab keepSystem ms = (sys, non)" by fastforce
  define k where "k = nat (max 1 n)"
  let ?ts = "turn_starts tab non"
  have len: "k < length ?ts" and out: "out = sys @ keep_window tab non (?ts ! (length ?ts - k))"
    using assms sp by (auto simp: CompressMessages_def Let_def k_def max_def split: if_splits)
  have k: "0 < k" by (simp add: k_def)
  define i where "i = ?ts ! (length ?ts - k)"
  have m: "length ?ts - k < length ?ts" using k len by simp
  note st = turn_starts_nth [OF m, folded i_def]
  define kept where "kept = drop i non"
  have kept: "kept \<noteq> []" "hd kept = non ! i" using st(1) by (simp_all add: kept_def hd_drop_conv_nth)
  have "\<not> isToolResultRole tab (messageRole tab (hd kept))" using user_is_no_tool_result [of tab "hd kept"] st(2) kept(2) by simp
  then have "dropLeadingOrphanToolResults tab kept = kept" using kept(1) by (cases kept) (simp_all add: dropLeadingOrphanToolResults_def)
  then have win: "keep_window tab non i = kept" using kept(1) by (simp add: keep_window_def Let_def kept_def)
  have ct: "count_turns tab kept = int k" using st(3) len by (simp add: count_turns_def kept_def)
  have ms: "ms = sys @ non" using sp by (cases keepSystem) (auto simp: split_leading_system_eq)
  have "count_turns tab (take i non @ kept) = count_turns tab (take i non) + count_turns tab kept" by (simp add: count_turns_def)
  then have "count_turns tab non = count_turns tab (take i non) + count_turns tab kept" by (simp add: kept_def)
  then have old: "0 < count_turns tab (take i non)" using ct len turn_starts_length [of tab non] by simp
  have "sys = (if keepSystem then takeWhile (\<lambda>m. messageRole tab m = ''system'') ms else [])"
    using sp by (auto simp: split_leading_system_eq split: if_splits)
  note sys = this
  show ?thesis
  proof (rule that [of sys "take i non" kept])
    show "ms = sys @ take i non @ kept" using ms by (simp add: kept_def)
    show "out = sys @ kept" using out win by (simp add: i_def)
    show "messageRole tab (hd kept) = ''user''" using st(2) kept(2) by simp
    show "count_turns tab kept = max 1 n" using ct by (simp add: k_def)
  qed (use kept(1) old sys in simp_all)
qed

lemma CompressMessages_same: "CompressMessages tab ms keepSystem n = (out, False) \<Longrightarrow> out = ms"
  by (auto simp: CompressMessages_def Let_def split: if_splits prod.splits)

definition window_of :: "case_table \<Rightarrow> PromptLimitSettings \<Rightarrow> json list \<Rightarrow> int \<Rightarrow> json list \<Rightarrow> bool" where
  "window_of tab cfg original keep ms \<longleftrightarrow> 1 \<le> keep \<and> CompressMessages tab original (KeepSystemMessage cfg) keep = (ms, True)"

lemma compress_loop_result:
  assumes "compress_loop tab build cfg original limit keep req changed = (req', changed')"
    "changed \<Longrightarrow> \<exists>n. keep < n \<and> n \<le> bound \<and> n div 2 = keep \<and> window_of tab cfg original n (rqMessages req) \<and> FinalPrompt req = fst (build (rqMessages req) T P K)"
    "\<not> changed \<Longrightarrow> req = req0" "ToolsRaw req = T" "ToolChoice req = P" "Thinking req = K" "keep \<le> bound"
  shows "(\<not> changed' \<longrightarrow> req' = req0 \<and> \<not> changed \<and> (1 \<le> keep \<longrightarrow> snd (CompressMessages tab original (KeepSystemMessage cfg) 1) = False)) \<and>
    (changed' \<longrightarrow> (\<exists>n. n \<le> bound \<and> window_of tab cfg original n (rqMessages req') \<and> FinalPrompt req' = fst (build (rqMessages req') T P K) \<and>
       (PromptUnits (FinalPrompt req') \<le> limit \<or> n = 1)))"
  using assms
proof (induction tab build cfg original limit keep req changed rule: compress_loop.induct)
  case (1 tab build cfg original limit keep req changed)
  show ?case
  proof (cases "1 \<le> keep")
    case False
    then have r: "req' = req" "changed' = changed" using "1.prems"(1) by (simp_all add: compress_loop.simps [of tab build cfg original limit keep])
    show ?thesis
    proof (cases changed)
      case True
      obtain n where n: "keep < n" "n \<le> bound" "n div 2 = keep" "window_of tab cfg original n (rqMessages req)" "FinalPrompt req = fst (build (rqMessages req) T P K)"
        using "1.prems"(2) True by blast
      have "n = 1" using False n(3,4) by (auto simp: window_of_def)
      then show ?thesis using True n r by auto
    qed (use r "1.prems"(3) False in auto)
  next
    case True
    obtain cs ok where c: "CompressMessages tab original (KeepSystemMessage cfg) keep = (cs, ok)" by fastforce
    show ?thesis
    proof (cases ok)
      case False
      then have c': "CompressMessages tab original (KeepSystemMessage cfg) keep = (cs, False)" using c by simp
      have step: "compress_loop tab build cfg original limit (keep div 2) req changed = (req', changed')"
        using "1.prems"(1) True c' by (simp add: compress_loop.simps [of tab build cfg original limit keep])
      have ch: "\<not> changed"
      proof
        assume changed
        then obtain n where n: "keep < n" "n div 2 = keep" "window_of tab cfg original n (rqMessages req)" using "1.prems"(2) by blast
        then show False using c' True by (auto simp: window_of_def CompressMessages_def Let_def split: if_splits prod.splits)
      qed
      have one: "snd (CompressMessages tab original (KeepSystemMessage cfg) 1) = False" if "keep = 1" using that c' by simp
      have "keep div 2 \<le> bound" using "1.prems"(7) True by linarith
      note ih = "1.IH"(2) [OF _ c' [symmetric] refl step _ "1.prems"(3-6) this]
      show ?thesis
      proof (cases "keep = 1")
        case k1: True
        then have "compress_loop tab build cfg original limit (keep div 2) req changed = (req, changed)" by (simp add: compress_loop.simps [of tab build cfg original limit 0])
        then show ?thesis using step ch one k1 "1.prems"(3) by auto
      next
        case False
        then have "1 \<le> keep div 2" using True by linarith
        then show ?thesis using ih True ch by simp
      qed
    next
      case ok: True
      then have c': "CompressMessages tab original (KeepSystemMessage cfg) keep = (cs, True)" using c by simp
      obtain prompt names where b: "build cs (ToolsRaw req) (ToolChoice req) (Thinking req) = (prompt, names)" by fastforce
      define req1 where "req1 = req\<lparr>rqMessages := cs, FinalPrompt := prompt, ToolNames := (if names \<noteq> [] then names else ToolNames req)\<rparr>"
      have w: "window_of tab cfg original keep (rqMessages req1)" "FinalPrompt req1 = fst (build (rqMessages req1) T P K)"
        using c' True b "1.prems"(4-6) by (simp_all add: req1_def window_of_def)
      show ?thesis
      proof (cases "PromptUnits prompt \<le> limit")
        case True': True
        have "req' = req1" "changed'"
          using "1.prems"(1) True c' b True' by (simp_all add: compress_loop.simps [of tab build cfg original limit keep] req1_def)
        moreover have "PromptUnits (FinalPrompt req1) \<le> limit" using True' by (simp add: req1_def)
        ultimately show ?thesis using w "1.prems"(7) by (intro conjI impI exI [of _ keep]) simp_all
      next
        case False
        have step: "compress_loop tab build cfg original limit (keep div 2) req1 True = (req', changed')"
          using "1.prems"(1) True c' b False by (simp add: compress_loop.simps [of tab build cfg original limit keep] req1_def)
        have ex: "\<exists>n. keep div 2 < n \<and> n \<le> bound \<and> n div 2 = keep div 2 \<and> window_of tab cfg original n (rqMessages req1) \<and> FinalPrompt req1 = fst (build (rqMessages req1) T P K)"
          using w True "1.prems"(7) by (intro exI [of _ keep]) auto
        have "ToolsRaw req1 = T" "ToolChoice req1 = P" "Thinking req1 = K" "keep div 2 \<le> bound" using "1.prems"(4-7) True by (simp_all add: req1_def)
        note fin = this
        have nt: "\<not> \<not> True" "1 \<le> keep" using True by simp_all
        show ?thesis
          using "1.IH"(1) [OF _ c' [symmetric] refl b [symmetric] req1_def False step ex _ fin] nt by simp
      qed
    qed
  qed
qed

text \<open>C39: Compressing a request to its model's limit changes nothing but the messages, the prompt built from them and the tool names, and only when
  the prompt is too long and old turns can be dropped. What is kept are the leading system messages, if they are to be kept, and a
  tail of the conversation that starts with a user message and holds at most the configured number of user turns, never a tool result without its call;
  if the prompt still does not fit, that tail is one single turn. A request that is too long and is left as it is has at most one turn.\<close>

theorem compress_to_fit:
  assumes "CompressToFit tab build cfg req = (req', changed)"
  shows "(changed \<longrightarrow> (\<exists>sys old kept. rqMessages req = sys @ old @ kept \<and> rqMessages req' = sys @ kept \<and>
      sys = (if KeepSystemMessage cfg then takeWhile (\<lambda>m. messageRole tab m = ''system'') (rqMessages req) else []) \<and>
      0 < count_turns tab old \<and> kept \<noteq> [] \<and> messageRole tab (hd kept) = ''user'' \<and> count_turns tab kept \<le> KeepRecentTurns cfg \<and>
      FinalPrompt req' = fst (build (rqMessages req') (ToolsRaw req) (ToolChoice req) (Thinking req)) \<and>
      (PromptUnits (FinalPrompt req') \<le> LimitForModel cfg (EffectiveModel req) \<or> count_turns tab kept = 1))) \<and>
    (\<not> changed \<longrightarrow> req' = req \<and>
      (plEnabled cfg \<and> AutoCompressEnable cfg \<and> 1 \<le> KeepRecentTurns cfg \<and> 0 < LimitForModel cfg (EffectiveModel req) \<longrightarrow>
        PromptUnits (FinalPrompt req) \<le> LimitForModel cfg (EffectiveModel req) \<or> snd (CompressMessages tab (rqMessages req) (KeepSystemMessage cfg) 1) = False))"
proof (cases "plEnabled cfg \<and> AutoCompressEnable cfg \<and> 0 < LimitForModel cfg (EffectiveModel req) \<and> LimitForModel cfg (EffectiveModel req) < PromptUnits (FinalPrompt req)")
  case False
  then have "req' = req \<and> \<not> changed" using assms by (auto simp: CompressToFit_def Let_def split: if_splits)
  then show ?thesis using False by auto
next
  case True
  define limit where "limit = LimitForModel cfg (EffectiveModel req)"
  have run: "compress_loop tab build cfg (rqMessages req) limit (KeepRecentTurns cfg) req False = (req', changed)"
    using assms True by (simp add: CompressToFit_def Let_def limit_def)
  have res: "(\<not> changed \<longrightarrow> req' = req \<and> \<not> False \<and> (1 \<le> KeepRecentTurns cfg \<longrightarrow> snd (CompressMessages tab (rqMessages req) (KeepSystemMessage cfg) 1) = False)) \<and>
    (changed \<longrightarrow> (\<exists>n. n \<le> KeepRecentTurns cfg \<and> window_of tab cfg (rqMessages req) n (rqMessages req') \<and>
       FinalPrompt req' = fst (build (rqMessages req') (ToolsRaw req) (ToolChoice req) (Thinking req)) \<and> (PromptUnits (FinalPrompt req') \<le> limit \<or> n = 1)))"
    by (rule compress_loop_result [OF run]) simp_all
  show ?thesis
  proof (intro conjI impI)
    assume changed
    then obtain n where n: "n \<le> KeepRecentTurns cfg" "window_of tab cfg (rqMessages req) n (rqMessages req')"
      "FinalPrompt req' = fst (build (rqMessages req') (ToolsRaw req) (ToolChoice req) (Thinking req))" "PromptUnits (FinalPrompt req') \<le> limit \<or> n = 1"
      using res by blast
    then have w: "CompressMessages tab (rqMessages req) (KeepSystemMessage cfg) n = (rqMessages req', True)" "1 \<le> n" by (simp_all add: window_of_def)
    obtain sys old kept where k: "rqMessages req = sys @ old @ kept" "rqMessages req' = sys @ kept"
      "sys = (if KeepSystemMessage cfg then takeWhile (\<lambda>m. messageRole tab m = ''system'') (rqMessages req) else [])" "kept \<noteq> []"
      "messageRole tab (hd kept) = ''user''" "count_turns tab kept = max 1 n" "0 < count_turns tab old"
      by (rule CompressMessages_window [OF w(1)])
    show "\<exists>sys old kept. rqMessages req = sys @ old @ kept \<and> rqMessages req' = sys @ kept \<and>
      sys = (if KeepSystemMessage cfg then takeWhile (\<lambda>m. messageRole tab m = ''system'') (rqMessages req) else []) \<and>
      0 < count_turns tab old \<and> kept \<noteq> [] \<and> messageRole tab (hd kept) = ''user'' \<and> count_turns tab kept \<le> KeepRecentTurns cfg \<and>
      FinalPrompt req' = fst (build (rqMessages req') (ToolsRaw req) (ToolChoice req) (Thinking req)) \<and>
      (PromptUnits (FinalPrompt req') \<le> LimitForModel cfg (EffectiveModel req) \<or> count_turns tab kept = 1)"
      using n(1,4) w(2) by (intro exI [of _ sys] exI [of _ old] exI [of _ kept] conjI k n(3)) (auto simp: k(6) limit_def)
  qed (use res in auto)
qed

definition example_message :: "string \<Rightarrow> json" where
  "example_message role = JObj [(''role'', JStr role), (''content'', JStr ''x'')]"

definition example_settings :: PromptLimitSettings where
  "example_settings = \<lparr>plEnabled = True, MaxCharsDefault = 3, MaxCharsExpert = 3, MaxCharsDefaultConfigured = True, MaxCharsExpertConfigured = False,
     AutoCompressEnable = True, KeepRecentTurns = 2, KeepSystemMessage = True, ProFlashCompressionEnable = False, ProFlashCompressionTarget = 9,
     SessionChunkingEnable = False, SessionChunkingTargetRatio = 1 / 2, SessionChunkingMaxChunks = 4, SessionChunkingCommitTimeoutSeconds = 30\<rparr>"

definition example_request :: StandardRequest where
  "example_request = \<lparr>RequestedModel = ''deepseek-v4-flash'', ResolvedModel = '''', rqMessages = map example_message [''system'', ''user'', ''tool'', ''user'', ''assistant'', ''user''],
     ToolsRaw = JNull, FinalPrompt = ''abcdef'', IncrementalFormatPrompt = '''', ToolNames = [],
     ToolChoice = \<lparr>Mode = ToolChoiceAuto, ForcedName = '''', Allowed = []\<rparr>, Thinking = False\<rparr>"

lemma example_roles:
  "messageRole tab (example_message ''system'') = ''system''" "messageRole tab (example_message ''user'') = ''user''"
  "messageRole tab (example_message ''tool'') = ''tool''" "messageRole tab (example_message ''assistant'') = ''assistant''"
proof -
  have "TrimSpace ''system'' = ''system''" "TrimSpace ''user'' = ''user''" "TrimSpace ''tool'' = ''tool''" "TrimSpace ''assistant'' = ''assistant''" by code_simp+
  then show "messageRole tab (example_message ''system'') = ''system''" "messageRole tab (example_message ''user'') = ''user''"
    "messageRole tab (example_message ''tool'') = ''tool''" "messageRole tab (example_message ''assistant'') = ''assistant''"
    by (simp_all add: messageRole_def example_message_def jfield_def ascii_eval)
qed

theorem compress_to_fit_witness:
  "\<exists>req' old. CompressToFit id (\<lambda>ms _ _ _. (replicate (length ms) (CHR ''p''), [])) example_settings example_request = (req', True) \<and>
     rqMessages req' = [example_message ''system'', example_message ''user''] \<and>
     rqMessages example_request = [example_message ''system''] @ old @ [example_message ''user''] \<and> 0 < count_turns id old"
proof -
  let ?build = "\<lambda>(ms :: json list) (_ :: json) (_ :: ToolChoicePolicy) (_ :: bool). (replicate (length ms) (CHR ''p''), [] :: string list)"
  have lim: "LimitForModel example_settings (EffectiveModel example_request) = 3" by code_simp
  have units: "PromptUnits (FinalPrompt example_request) = 6" "PromptUnits ''pppp'' = 4" "PromptUnits ''pp'' = 2"
    by (simp_all add: PromptUnits_def units_of_def ascii_eval utf16_len_def example_request_def)
  have ts: "turn_starts id [example_message ''user'', example_message ''tool'', example_message ''user'', example_message ''assistant'', example_message ''user''] = [0, 2, 4]"
    by (simp add: turn_starts_def upt_rec example_roles)
  have fields: "KeepRecentTurns example_settings = 2" "KeepSystemMessage example_settings" "plEnabled example_settings" "AutoCompressEnable example_settings"
    by (simp_all add: example_settings_def)
  let ?ms = "rqMessages example_request"
  have sp: "split_leading_system id True ?ms =
      ([example_message ''system''], [example_message ''user'', example_message ''tool'', example_message ''user'', example_message ''assistant'', example_message ''user''])"
    by (simp add: split_leading_system_eq example_request_def example_roles)
  have nt: "\<not> isToolResultRole id ''user''" using user_is_no_tool_result [OF example_roles(2), of id] by (simp add: example_roles)
  have win: "keep_window id [example_message ''user'', example_message ''tool'', example_message ''user'', example_message ''assistant'', example_message ''user''] 2 =
      [example_message ''user'', example_message ''assistant'', example_message ''user'']"
    "keep_window id [example_message ''user'', example_message ''tool'', example_message ''user'', example_message ''assistant'', example_message ''user''] 4 = [example_message ''user'']"
    by (simp_all add: keep_window_def dropLeadingOrphanToolResults_def example_roles nt numeral_eq_Suc)
  have ne: "?ms \<noteq> []" by (simp add: example_request_def)
  have c2: "CompressMessages id ?ms True 2 = ([example_message ''system'', example_message ''user'', example_message ''assistant'', example_message ''user''], True)"
    using ne win(1) ts by (simp add: CompressMessages_def sp Let_def)
  have c1: "CompressMessages id ?ms True 1 = ([example_message ''system'', example_message ''user''], True)"
    using ne win(2) ts by (simp add: CompressMessages_def sp Let_def)
  obtain req' where r: "CompressToFit id ?build example_settings example_request = (req', True)" "rqMessages req' = [example_message ''system'', example_message ''user'']"
    using lim units fields c1 c2 by (simp add: CompressToFit_def Let_def compress_loop.simps [of id ?build example_settings ?ms 3 2] compress_loop.simps [of id ?build example_settings ?ms 3 1] numeral_eq_Suc)
  have sys: "takeWhile (\<lambda>m. messageRole id m = ''system'') ?ms = [example_message ''system'']" by (simp add: example_request_def example_roles)
  obtain old kept where k: "?ms = [example_message ''system''] @ old @ kept" "rqMessages req' = [example_message ''system''] @ kept" "0 < count_turns id old"
    using compress_to_fit [OF r(1)] fields(2) sys by auto
  moreover have "kept = [example_message ''user'']" using k(2) r(2) by simp
  ultimately show ?thesis using r by blast
qed

text \<open>C40: After the provider's limits were taken over, no limit exceeds what the provider advertises for that tier, nor a limit the operator has set, and a
  tier that is advertised has a positive limit; the target of the compression is within the expert limit.\<close>

theorem dynamic_limits_bounded:
  assumes "ResolveDynamicPromptLimits (Some (Inr limits)) cfg = Inr (cfg', True)"
  shows "(0 < limDefault limits \<longrightarrow> 0 < MaxCharsDefault cfg' \<and> MaxCharsDefault cfg' \<le> limDefault limits) \<and>
    (0 < limExpert limits \<longrightarrow> 0 < MaxCharsExpert cfg' \<and> MaxCharsExpert cfg' \<le> limExpert limits) \<and>
    (MaxCharsDefaultConfigured cfg \<and> 0 < MaxCharsDefault cfg \<longrightarrow> MaxCharsDefault cfg' \<le> MaxCharsDefault cfg) \<and>
    (MaxCharsExpertConfigured cfg \<and> 0 < MaxCharsExpert cfg \<longrightarrow> MaxCharsExpert cfg' \<le> MaxCharsExpert cfg) \<and>
    ProFlashCompressionTarget cfg' \<le> MaxCharsExpert cfg' \<and> plEnabled cfg'"
  using assms by (auto simp: ResolveDynamicPromptLimits_def Let_def overlay_limit_def split: if_splits)

theorem dynamic_limits_bounded_witness:
  "\<exists>cfg'. ResolveDynamicPromptLimits (Some (Inr \<lparr>limDefault = 5, limExpert = 2\<rparr>)) example_settings = Inr (cfg', True) \<and> MaxCharsDefault cfg' \<le> 3 \<and> MaxCharsExpert cfg' \<le> 2"
proof -
  obtain cfg' where r: "ResolveDynamicPromptLimits (Some (Inr \<lparr>limDefault = 5, limExpert = 2\<rparr>)) example_settings = Inr (cfg', True)"
    by (simp add: ResolveDynamicPromptLimits_def Let_def example_settings_def)
  from dynamic_limits_bounded [OF r] r show ?thesis by (auto simp: example_settings_def)
qed

end
