(* ===== verification/GoUtf8.thy ===== *)
theory GoUtf8
  imports GoStrings
begin

text \<open>
  Strings as rune slices: \<^verbatim>\<open>[]rune(s)\<close> is \<open>runes\<close>, \<^verbatim>\<open>string(rs)\<close> is \<open>encode_runes\<close>. Decoding what was encoded gives the
  runes back; encoding what was decoded gives the string back when it was valid UTF-8.
\<close>

definition rune_ok :: "rune \<Rightarrow> bool" where
  "rune_ok r \<longleftrightarrow> r \<le> 1114111 \<and> \<not> (55296 \<le> r \<and> r \<le> 57343)"

definition encode_runes :: "rune list \<Rightarrow> string" where
  "encode_runes rs = concat (map encode_rune rs)"

definition valid_utf8 :: "string \<Rightarrow> bool" where
  "valid_utf8 s \<longleftrightarrow> list_all (\<lambda>(r, b). encode_rune r = b) (rune_chunks s)"

lemma byte_char [simp]: "n < 256 \<Longrightarrow> byte_of (char_of n) = n"
  by (simp add: byte_of_def)

lemma encode_rune_ok: "rune_ok r \<Longrightarrow> encode_rune r =
   (if r < 128 then [char_of r]
    else if r < 2048 then [char_of (192 + r div 64), char_of (128 + r mod 64)]
    else if r < 65536 then [char_of (224 + r div 4096), char_of (128 + r div 64 mod 64), char_of (128 + r mod 64)]
    else [char_of (240 + r div 262144), char_of (128 + r div 4096 mod 64), char_of (128 + r div 64 mod 64), char_of (128 + r mod 64)])"
  by (auto simp: encode_rune_def rune_ok_def Let_def)

lemma mod_shift: "x < m \<Longrightarrow> (k * m + x) mod m = (x :: nat)"
  by simp

lemma decode_two:
  assumes "128 \<le> r" "r < 2048"
  shows "decode_rune (char_of (192 + r div 64)) (char_of (128 + r mod 64) # s) = (r, 2)"
proof -
  define a b where "a = r div 64" and "b = r mod 64"
  have ab: "2 \<le> a" "a < 32" "b < 64" "r = a * 64 + b" using assms by (simp_all add: a_def b_def less_mult_imp_div_less)
  have m: "(192 + a) mod 32 = a" "(128 + b) mod 64 = b" using mod_shift [of a 32 6] mod_shift [of b 64 2] ab by simp_all
  have bs: "byte_of (char_of (192 + a)) = 192 + a" "byte_of (char_of (128 + b)) = 128 + b" using ab by simp_all
  have ok: "second_byte_ok (192 + a) (128 + b)" using ab by (auto simp: second_byte_ok_def cont_byte_def)
  show ?thesis unfolding a_def [symmetric] b_def [symmetric] decode_rune_def Let_def bs
    using ab by (simp add: decode2_def bs ok m)
qed

lemma decode_three:
  assumes "2048 \<le> r" "r < 65536" "rune_ok r"
  shows "decode_rune (char_of (224 + r div 4096)) (char_of (128 + r div 64 mod 64) # char_of (128 + r mod 64) # s) = (r, 3)"
proof -
  define a b c where "a = r div 4096" and "b = r div 64 mod 64" and "c = r mod 64"
  have q: "r div 64 = a * 64 + b" unfolding a_def b_def using div_mult2_eq [of r 64 64] by (simp add: div_mod_decomp)
  have r: "r = (a * 64 + b) * 64 + c" unfolding q [symmetric] c_def by simp
  have abc: "a < 16" "b < 64" "c < 64" using assms by (simp_all add: a_def b_def c_def less_mult_imp_div_less)
  have m: "(224 + a) mod 16 = a" "(128 + b) mod 64 = b" "(128 + c) mod 64 = c"
    using mod_shift [of a 16 14] mod_shift [of b 64 2] mod_shift [of c 64 2] abc by simp_all
  have bs: "byte_of (char_of (224 + a)) = 224 + a" "byte_of (char_of (128 + b)) = 128 + b" "byte_of (char_of (128 + c)) = 128 + c"
    using abc by simp_all
  have lo: "32 \<le> b" if "a = 0" using that assms(1) r abc by simp
  have hi: "b \<le> 31" if "a = 13" using that assms(3) r abc unfolding rune_ok_def by simp
  have ok: "second_byte_ok (224 + a) (128 + b)" using lo hi abc by (auto simp: second_byte_ok_def cont_byte_def)
  have cc: "cont_byte (128 + c)" using abc by (simp add: cont_byte_def)
  show ?thesis unfolding a_def [symmetric] b_def [symmetric] c_def [symmetric] decode_rune_def Let_def bs
    using abc r by (simp add: decode3_def bs m ok cc)
qed

lemma decode_four:
  assumes "65536 \<le> r" "rune_ok r"
  shows "decode_rune (char_of (240 + r div 262144)) (char_of (128 + r div 4096 mod 64) # char_of (128 + r div 64 mod 64) # char_of (128 + r mod 64) # s) = (r, 4)"
proof -
  define a b c d where "a = r div 262144" and "b = r div 4096 mod 64" and "c = r div 64 mod 64" and "d = r mod 64"
  have q1: "r div 4096 = a * 64 + b" unfolding a_def b_def using div_mult2_eq [of r 4096 64] by (simp add: div_mod_decomp)
  have q2: "r div 64 = (a * 64 + b) * 64 + c" unfolding q1 [symmetric] c_def using div_mult2_eq [of r 64 64] by (simp add: div_mod_decomp)
  have r: "r = ((a * 64 + b) * 64 + c) * 64 + d" unfolding q2 [symmetric] d_def by simp
  have le: "r \<le> 1114111" using assms(2) by (simp add: rune_ok_def)
  have bcd: "b < 64" "c < 64" "d < 64" by (simp_all add: b_def c_def d_def)
  have "a * 262144 \<le> 1114111" using le r by simp
  then have a: "a \<le> 4" by simp
  have m: "(240 + a) mod 8 = a" "(128 + b) mod 64 = b" "(128 + c) mod 64 = c" "(128 + d) mod 64 = d"
    using mod_shift [of a 8 30] mod_shift [of b 64 2] mod_shift [of c 64 2] mod_shift [of d 64 2] a bcd by simp_all
  have bs: "byte_of (char_of (240 + a)) = 240 + a" "byte_of (char_of (128 + b)) = 128 + b" "byte_of (char_of (128 + c)) = 128 + c" "byte_of (char_of (128 + d)) = 128 + d"
    using a bcd by simp_all
  have lo: "16 \<le> b" if "a = 0" using that assms(1) r bcd by simp
  have hi: "b \<le> 15" if "a = 4" using that le r bcd by simp
  have ok: "second_byte_ok (240 + a) (128 + b)" using lo hi a bcd by (auto simp: second_byte_ok_def cont_byte_def)
  have cc: "cont_byte (128 + c)" "cont_byte (128 + d)" using bcd by (simp_all add: cont_byte_def)
  show ?thesis unfolding a_def [symmetric] b_def [symmetric] c_def [symmetric] d_def [symmetric] decode_rune_def Let_def bs
    using a r by (simp add: decode4_def bs m ok cc)
qed

lemma rune_chunks_step: "decode_rune c t = (r, w) \<Longrightarrow> rune_chunks (c # t) = (r, take w (c # t)) # rune_chunks (drop (w - 1) t)"
  by simp

lemma rune_chunks_encode: "rune_ok r \<Longrightarrow> rune_chunks (encode_rune r @ s) = (r, encode_rune r) # rune_chunks s"
proof -
  assume ok: "rune_ok r"
  consider "r < 128" | "128 \<le> r" "r < 2048" | "2048 \<le> r" "r < 65536" | "65536 \<le> r" by linarith
  then show ?thesis
  proof cases
    case 1
    then have "decode_rune (char_of r) s = (r, 1)" by (simp add: decode_rune_def Let_def)
    then show ?thesis using 1 by (simp add: encode_rune_ok [OF ok])
  next
    case 2
    have e: "encode_rune r = [char_of (192 + r div 64), char_of (128 + r mod 64)]" using 2 by (simp only: encode_rune_ok [OF ok]) simp
    show ?thesis unfolding e append_Cons append_Nil rune_chunks_step [OF decode_two [OF 2, of s]] by (simp only: numeral_2_eq_2 take_Suc_Cons take_0 drop_Suc_Cons drop_0 diff_Suc_1)
  next
    case 3
    have e: "encode_rune r = [char_of (224 + r div 4096), char_of (128 + r div 64 mod 64), char_of (128 + r mod 64)]" using 3 by (simp only: encode_rune_ok [OF ok]) simp
    show ?thesis unfolding e append_Cons append_Nil rune_chunks_step [OF decode_three [OF 3 ok, of s]]
      by (simp only: numeral_3_eq_3 take_Suc_Cons take_0 drop_Suc_Cons drop_0 diff_Suc_1)
  next
    case 4
    have e: "encode_rune r = [char_of (240 + r div 262144), char_of (128 + r div 4096 mod 64), char_of (128 + r div 64 mod 64), char_of (128 + r mod 64)]"
      using 4 by (simp only: encode_rune_ok [OF ok]) simp
    have four: "(4 :: nat) = Suc (Suc (Suc (Suc 0)))" by simp
    show ?thesis unfolding e append_Cons append_Nil rune_chunks_step [OF decode_four [OF 4 ok, of s]]
      by (simp only: four take_Suc_Cons take_0 drop_Suc_Cons drop_0 diff_Suc_1)
  qed
qed

lemma runes_encode_runes: "list_all rune_ok rs \<Longrightarrow> runes (encode_runes rs) = rs"
  by (induction rs) (simp_all add: runes_def encode_runes_def rune_chunks_encode)

lemma decode2_ok: "rune_ok (fst (decode2 b0 s))"
proof -
  have "rune_ok ((b0 mod 32) * 64 + b1 mod 64)" for b1
  proof -
    have "b0 mod 32 < 32" "b1 mod 64 < 64" by simp_all
    then have "(b0 mod 32) * 64 + b1 mod 64 < 2048" by linarith
    then show ?thesis unfolding rune_ok_def by linarith
  qed
  moreover have "rune_ok rune_error" by (simp add: rune_ok_def rune_error_def)
  ultimately show ?thesis by (auto simp: decode2_def Let_def split: list.splits)
qed

lemma decode3_ok: "224 \<le> b0 \<Longrightarrow> b0 \<le> 239 \<Longrightarrow> rune_ok (fst (decode3 b0 s))"
proof -
  assume b: "224 \<le> b0" "b0 \<le> 239"
  define a where "a = b0 - 224"
  have a: "b0 = 14 * 16 + a" "a < 16" using b by (simp_all add: a_def)
  then have m: "b0 mod 16 = a" using mod_shift [of a 16 14] by simp
  have "rune_ok ((b0 mod 16) * 4096 + (b1 mod 64) * 64 + b2 mod 64)" if ok: "second_byte_ok b0 b1" for b1 b2
  proof (cases "a = 13")
    case True
    then have "b1 = 2 * 64 + (b1 - 128)" "b1 - 128 < 32" using ok a by (auto simp: second_byte_ok_def)
    then have "b1 mod 64 < 32" using mod_shift [of "b1 - 128" 64 2] by simp
    moreover have "b2 mod 64 < 64" by simp
    ultimately have "13 * 4096 + (b1 mod 64) * 64 + b2 mod 64 < 55296" by linarith
    then show ?thesis unfolding m True rune_ok_def by linarith
  next
    case False
    have b: "b1 mod 64 < 64" "b2 mod 64 < 64" by simp_all
    have "a \<le> 12 \<or> 14 \<le> a" using False by linarith
    then show ?thesis unfolding m rune_ok_def using b a(2) by (elim disjE) linarith+
  qed
  moreover have "rune_ok rune_error" by (simp add: rune_ok_def rune_error_def)
  ultimately show ?thesis by (auto simp: decode3_def Let_def split: list.splits)
qed

lemma decode4_ok: "240 \<le> b0 \<Longrightarrow> b0 \<le> 244 \<Longrightarrow> rune_ok (fst (decode4 b0 s))"
proof -
  assume b: "240 \<le> b0" "b0 \<le> 244"
  define a where "a = b0 - 240"
  have a: "b0 = 30 * 8 + a" "a \<le> 4" using b by (simp_all add: a_def)
  then have m: "b0 mod 8 = a" using mod_shift [of a 8 30] by simp
  have "rune_ok ((b0 mod 8) * 262144 + (b1 mod 64) * 4096 + (b2 mod 64) * 64 + b3 mod 64)" if ok: "second_byte_ok b0 b1" for b1 b2 b3
  proof -
    have r: "b2 mod 64 < 64" "b3 mod 64 < 64" "b1 mod 64 < 64" by simp_all
    have b1: "b1 = 2 * 64 + (b1 - 128)" "b1 - 128 < 64" using ok a by (auto simp: second_byte_ok_def cont_byte_def split: if_splits)
    then have c: "b1 mod 64 = b1 - 128" using mod_shift [of "b1 - 128" 64 2] by simp
    have lo: "16 \<le> b1 mod 64" if "a = 0" using ok a that c by (auto simp: second_byte_ok_def)
    have hi: "b1 mod 64 < 16" if "a = 4" using ok a that c by (auto simp: second_byte_ok_def)
    consider "a = 0" | "1 \<le> a" "a \<le> 3" | "a = 4" using a(2) by linarith
    then show ?thesis
    proof cases
      case 1
      then show ?thesis unfolding m rune_ok_def using lo r by linarith
    next
      case 2
      then show ?thesis unfolding m rune_ok_def using r by linarith
    next
      case 3
      then show ?thesis unfolding m rune_ok_def using hi r by linarith
    qed
  qed
  moreover have "rune_ok rune_error" by (simp add: rune_ok_def rune_error_def)
  ultimately show ?thesis by (auto simp: decode4_def Let_def split: list.splits)
qed

lemma decode_rune_ok: "rune_ok (fst (decode_rune c s))"
proof -
  have "rune_ok rune_error" by (simp add: rune_ok_def rune_error_def)
  moreover have "rune_ok b" if "b < 128" for b using that unfolding rune_ok_def by linarith
  ultimately show ?thesis using decode2_ok decode3_ok decode4_ok by (auto simp: decode_rune_def Let_def)
qed

lemma runes_ok: "list_all rune_ok (runes s)"
proof (induction s rule: rune_chunks.induct)
  case (2 c s)
  obtain r w where rw: "decode_rune c s = (r, w)" by (cases "decode_rune c s")
  show ?case using "2.IH" [OF rw [symmetric] refl] decode_rune_ok [of c s] rw by (simp add: runes_def)
qed (simp add: runes_def)

lemma runes_of_encode [simp]: "runes (encode_runes (runes s)) = runes s" "runes (encode_runes (take n (runes s))) = take n (runes s)"
  "runes (encode_runes (drop n (runes s))) = drop n (runes s)"
  using runes_ok [of s] runes_encode_runes [of "runes s"] runes_encode_runes [of "take n (runes s)"] runes_encode_runes [of "drop n (runes s)"]
  by (auto simp: list_all_iff dest: in_set_takeD in_set_dropD)

lemma encode_runes_append: "encode_runes (xs @ ys) = encode_runes xs @ encode_runes ys"
  by (simp add: encode_runes_def)

lemma valid_utf8_encode: "valid_utf8 s \<Longrightarrow> encode_runes (runes s) = s"
proof -
  assume "valid_utf8 s"
  then have "map encode_rune (runes s) = map snd (rune_chunks s)" by (auto simp: valid_utf8_def runes_def list_all_iff)
  then show ?thesis using rune_chunks_concat [of s] by (simp add: encode_runes_def)
qed

lemma encode_rune_nonempty: "encode_rune r \<noteq> []"
  by (simp add: encode_rune_def Let_def)

lemma encode_runes_empty: "encode_runes rs = [] \<longleftrightarrow> rs = []"
  by (cases rs) (simp_all add: encode_runes_def encode_rune_nonempty)

end
