(* ===== verification/Session_Chunks.thy ===== *)
theory Session_Chunks
  imports Prompt_Limits GoUtf8
begin

text \<open>
  Cutting an oversized prompt into fragments (\<^verbatim>\<open>httpapi/openai/shared/session_chunking.go\<close>): the prefix sums of UTF-16 lengths, the binary search in
  them, the choice of a cut by a planner or by a fixed list of boundaries, and the loop. The planner is an argument that
  carries its own state; it may pick anything or fail.

  Offsets are unbounded integers: a length that exceeds the budget also bounds the budget.
\<close>

section \<open>Definitions\<close>

definition sessionChunkPlannerLookbehindUnits :: int where "sessionChunkPlannerLookbehindUnits = 12000"
definition sessionChunkPlannerLookaheadUnits :: int where "sessionChunkPlannerLookaheadUnits = 4000"
definition sessionChunkEnvelopeReserveUnits :: int where "sessionChunkEnvelopeReserveUnits = 4096"
definition sessionChunkControlMaxAttempts :: nat where "sessionChunkControlMaxAttempts = 4"
definition sessionChunkFragmentMaxAttempts :: nat where "sessionChunkFragmentMaxAttempts = 2"

fun prefix_from :: "int \<Rightarrow> rune list \<Rightarrow> int list" where
  "prefix_from acc [] = [acc]"
| "prefix_from acc (r # rs) = acc # prefix_from (acc + utf16_len r) rs"

definition sessionChunkUTF16Prefix :: "string \<Rightarrow> rune list \<times> int list" where
  "sessionChunkUTF16Prefix s = (runes s, prefix_from 0 (runes s))"

function rune_search :: "int list \<Rightarrow> int \<Rightarrow> nat \<Rightarrow> nat \<Rightarrow> nat" where
  "rune_search psum units low high =
     (if low < high then (let mid = low + (high - low) div 2 in
        if psum ! mid \<le> units then rune_search psum units (mid + 1) high else rune_search psum units low mid)
      else low)"
  by pat_completeness auto
termination
  by (relation "measure (\<lambda>(psum, units, low, high). high - low)") auto

declare rune_search.simps [simp del]

definition runeIndexAtOrBelow :: "int list \<Rightarrow> int \<Rightarrow> int" where
  "runeIndexAtOrBelow psum units = int (rune_search psum units 0 (length psum)) - 1"

definition sessionChunkHasSuffix :: "rune list \<Rightarrow> nat \<Rightarrow> rune list \<Rightarrow> bool" where
  "sessionChunkHasSuffix rs end_at suff =
     (if suff = [] \<or> end_at < length suff \<or> length rs < end_at then False
      else let start = end_at - length suff in list_all (\<lambda>i. rs ! (start + i) = suff ! i) [0..<length suff])"

text \<open>\<^verbatim>\<open>for i := hardEnd; i > 0 && prefix[i] >= minUnits; i--\<close>, up to the first hit.\<close>

fun scan_down :: "(nat \<Rightarrow> bool) \<Rightarrow> int list \<Rightarrow> int \<Rightarrow> nat \<Rightarrow> nat option" where
  "scan_down hit psum minUnits 0 = None"
| "scan_down hit psum minUnits (Suc i) =
     (if psum ! Suc i < minUnits then None else if hit (Suc i) then Some (Suc i) else scan_down hit psum minUnits i)"

text \<open>Blank line, newline, the sentence ends of Latin and Chinese text.\<close>

definition chunk_boundaries :: "rune list list" where
  "chunk_boundaries = [[10, 10], [10], [46, 32], [33, 32], [63, 32], [12290], [65281], [65311], [59, 32], [65307]]"

fun first_hit :: "'a option list \<Rightarrow> 'a option" where
  "first_hit [] = None"
| "first_hit (x # xs) = (case x of Some v \<Rightarrow> Some v | None \<Rightarrow> first_hit xs)"

definition deterministicSessionChunkCut :: "rune list \<Rightarrow> int list \<Rightarrow> nat \<Rightarrow> int \<Rightarrow> nat" where
  "deterministicSessionChunkCut rs psum hardEnd minUnits =
     (case first_hit (map (\<lambda>boundary. scan_down (\<lambda>i. sessionChunkHasSuffix rs i boundary) psum minUnits hardEnd) chunk_boundaries) of
        Some i \<Rightarrow> i
      | None \<Rightarrow> (case scan_down (\<lambda>i. rs ! (i - 1) = 32 \<or> rs ! (i - 1) = 9) psum minUnits hardEnd of Some i \<Rightarrow> i | None \<Rightarrow> hardEnd))"

type_synonym 'p planner = "string \<Rightarrow> int \<Rightarrow> int \<Rightarrow> 'p \<Rightarrow> int option \<times> 'p"

definition chooseSessionChunkCut :: "'p planner option \<Rightarrow> string \<Rightarrow> int \<Rightarrow> 'p \<Rightarrow> int \<times> 'p" where
  "chooseSessionChunkCut planner s budget p =
     (let (rs, psum) = sessionChunkUTF16Prefix s; hardEnd = runeIndexAtOrBelow psum budget in
      if hardEnd \<le> 0 then (0, p)
      else let he = nat hardEnd;
               startUnits = max 0 (psum ! he - sessionChunkPlannerLookbehindUnits);
               windowStart = nat (runeIndexAtOrBelow psum startUnits);
               previewUnits = psum ! he + sessionChunkPlannerLookaheadUnits;
               windowEnd = (let w = runeIndexAtOrBelow psum previewUnits in if w \<le> hardEnd then he else nat w);
               minAbsoluteUnits = (let m = budget * 60 div 100 in if m < psum ! windowStart + 1 then psum ! windowStart + 1 else m);
               minOffset = minAbsoluteUnits - psum ! windowStart;
               maxOffset = psum ! he - psum ! windowStart;
               window = encode_runes (drop windowStart (take windowEnd rs));
               fixed = int (deterministicSessionChunkCut rs psum he minAbsoluteUnits)
           in case planner of
                None \<Rightarrow> (fixed, p)
              | Some pick \<Rightarrow> (case pick window minOffset maxOffset p of
                  (Some offset, p1) \<Rightarrow>
                    (let chosen = runeIndexAtOrBelow psum (psum ! windowStart + offset) in
                     if 0 < chosen \<and> chosen \<le> hardEnd then (chosen, p1) else (fixed, p1))
                | (None, p1) \<Rightarrow> (fixed, p1)))"

text \<open>The loop; \<open>left\<close> is how many more cuts the cap on the number of fragments allows.\<close>

fun chunk_loop :: "(string \<Rightarrow> 'p \<Rightarrow> int \<times> 'p) \<Rightarrow> int \<Rightarrow> int \<Rightarrow> nat \<Rightarrow> string \<Rightarrow> 'p \<Rightarrow> (string + string list) \<times> 'p" where
  "chunk_loop cutter budget maxChunks left remaining p =
     (if PromptUnits remaining \<le> budget then (Inr [remaining], p)
      else case left of
        0 \<Rightarrow> (Inl (''oversized prompt requires more than '' @ FormatInt maxChunks @ '' same-session chunks''), p)
      | Suc k \<Rightarrow> (case cutter remaining p of (cutRune, p1) \<Rightarrow>
          (let rs = runes remaining in
           if cutRune \<le> 0 \<or> int (length rs) \<le> cutRune then (Inl ''could not find a safe chunk boundary'', p1)
           else case chunk_loop cutter budget maxChunks k (encode_runes (drop (nat cutRune) rs)) p1 of
             (Inl e, p2) \<Rightarrow> (Inl e, p2)
           | (Inr chunks, p2) \<Rightarrow> (Inr (encode_runes (take (nat cutRune) rs) # chunks), p2))))"

declare chunk_loop.simps [simp del]

definition splitSessionChunks :: "'p planner option \<Rightarrow> string \<Rightarrow> int \<Rightarrow> int \<Rightarrow> 'p \<Rightarrow> (string + string list) \<times> 'p" where
  "splitSessionChunks planner prompt contentBudget maxChunks0 p =
     (let maxChunks = (if maxChunks0 \<le> 0 then 16 else maxChunks0) in
      chunk_loop (\<lambda>s. chooseSessionChunkCut planner s contentBudget) contentBudget maxChunks (nat (maxChunks - 1)) prompt p)"

section \<open>The prefix sums and the search\<close>

lemma prefix_from_nth: "i \<le> length rs \<Longrightarrow> prefix_from acc rs ! i = acc + units_of (take i rs)"
proof (induction rs arbitrary: acc i)
  case (Cons r rs)
  then show ?case by (cases i) (simp_all add: units_of_def)
qed (simp add: units_of_def)

lemma prefix_from_length [simp]: "length (prefix_from acc rs) = Suc (length rs)"
  by (induction rs arbitrary: acc) simp_all

lemma utf16_len_pos: "1 \<le> utf16_len r" "utf16_len r \<le> 2"
  by (simp_all add: utf16_len_def)

lemma units_of_append [simp]: "units_of (xs @ ys) = units_of xs + units_of ys"
  by (simp add: units_of_def)

lemma units_of_Nil [simp]: "units_of [] = 0"
  by (simp add: units_of_def)

lemma units_of_ge: "int (length rs) \<le> units_of rs"
proof (induction rs)
  case (Cons r rs)
  then show ?case using utf16_len_pos(1) [of r] by (simp add: units_of_def)
qed simp

lemma units_of_nonneg: "0 \<le> units_of rs"
  using units_of_ge [of rs] by linarith

lemma units_take_mono: "i \<le> j \<Longrightarrow> units_of (take i rs) \<le> units_of (take j rs)"
proof -
  assume "i \<le> j"
  then obtain d where "j = i + d" using le_Suc_ex by blast
  then have "take j rs = take i rs @ take d (drop i rs)" by (simp add: take_add)
  then show ?thesis using units_of_nonneg [of "take d (drop i rs)"] by simp
qed

lemma units_take_strict: "i < j \<Longrightarrow> j \<le> length rs \<Longrightarrow> units_of (take i rs) < units_of (take j rs)"
proof -
  assume a: "i < j" "j \<le> length rs"
  have "take (Suc i) rs = take i rs @ [rs ! i]" using a by (simp add: take_Suc_conv_app_nth)
  then have "units_of (take i rs) < units_of (take (Suc i) rs)" using utf16_len_pos(1) [of "rs ! i"] by (simp add: units_of_def)
  also have "\<dots> \<le> units_of (take j rs)" using a by (intro units_take_mono) simp
  finally show ?thesis .
qed

lemma PromptUnits_runes: "PromptUnits s = units_of (runes s)"
  by (simp add: PromptUnits_def runes_def)

text \<open>The search returns the last index whose prefix sum is at most the given number of units.\<close>

lemma rune_search_correct:
  assumes "\<forall>i j. i \<le> j \<longrightarrow> j < length psum \<longrightarrow> psum ! i \<le> psum ! j" "high \<le> length psum" "low \<le> high"
    "\<forall>i < low. psum ! i \<le> units" "\<forall>i. high \<le> i \<longrightarrow> i < length psum \<longrightarrow> units < psum ! i"
  shows "let k = rune_search psum units low high in k \<le> length psum \<and> (\<forall>i < k. psum ! i \<le> units) \<and> (\<forall>i. k \<le> i \<longrightarrow> i < length psum \<longrightarrow> units < psum ! i)"
  using assms
proof (induction psum units low high rule: rune_search.induct)
  case (1 psum units low high)
  show ?case
  proof (cases "low < high")
    case False
    then have "rune_search psum units low high = low" by (simp add: rune_search.simps)
    then show ?thesis using "1.prems" False by (simp add: Let_def)
  next
    case True
    define mid where "mid = low + (high - low) div 2"
    have mid: "low \<le> mid" "mid < high" using True by (auto simp: mid_def)
    show ?thesis
    proof (cases "psum ! mid \<le> units")
      case le: True
      have "\<forall>i < mid + 1. psum ! i \<le> units"
      proof (intro allI impI)
        fix i assume "i < mid + 1"
        then show "psum ! i \<le> units" using "1.prems"(1,2) mid le by (metis less_Suc_eq_le Suc_eq_plus1 order.strict_trans2 order.trans)
      qed
      then show ?thesis
        using "1.IH"(1) [OF True mid_def le] "1.prems" True mid le by (simp add: rune_search.simps [of psum units low high] mid_def [symmetric] Let_def)
    next
      case False
      have "\<forall>i. mid \<le> i \<longrightarrow> i < length psum \<longrightarrow> units < psum ! i" using "1.prems"(1) False by (meson linorder_not_less order.trans)
      then show ?thesis
        using "1.IH"(2) [OF True mid_def False] "1.prems" True mid False by (simp add: rune_search.simps [of psum units low high] mid_def [symmetric] Let_def)
    qed
  qed
qed

lemma rune_index:
  assumes "0 \<le> u"
  obtains k where "runeIndexAtOrBelow (prefix_from 0 rs) u = int k" "k \<le> length rs" "units_of (take k rs) \<le> u" "\<And>j. j \<le> length rs \<Longrightarrow> units_of (take j rs) \<le> u \<Longrightarrow> j \<le> k"
proof -
  let ?p = "prefix_from 0 rs"
  define k where "k = rune_search ?p u 0 (length ?p)"
  have mono: "\<forall>i j. i \<le> j \<longrightarrow> j < length ?p \<longrightarrow> ?p ! i \<le> ?p ! j" by (auto simp: prefix_from_nth units_take_mono)
  have k: "k \<le> Suc (length rs)" "\<forall>i < k. ?p ! i \<le> u" "\<forall>i. k \<le> i \<longrightarrow> i < Suc (length rs) \<longrightarrow> u < ?p ! i"
    using rune_search_correct [OF mono, of "length ?p" 0 u] by (simp_all add: k_def Let_def)
  have pos: "0 < k"
  proof (rule ccontr)
    assume "\<not> 0 < k"
    then have "u < ?p ! 0" using k(3) by simp
    then show False using assms by (simp add: prefix_from_nth)
  qed
  show ?thesis
  proof (rule that [of "k - 1"])
    have "int (rune_search ?p u 0 (length ?p)) = int k" by (simp only: k_def)
    then show "runeIndexAtOrBelow ?p u = int (k - 1)" using pos unfolding runeIndexAtOrBelow_def by linarith
    show "k - 1 \<le> length rs" using k(1) by simp
    have "?p ! (k - 1) \<le> u" using k(2) pos by simp
    then show "units_of (take (k - 1) rs) \<le> u" using k(1) by (simp add: prefix_from_nth)
    show "j \<le> k - 1" if "j \<le> length rs" "units_of (take j rs) \<le> u" for j
    proof (rule ccontr)
      assume "\<not> j \<le> k - 1"
      then have "u < ?p ! j" using k(3) that(1) by simp
      then show False using that by (simp add: prefix_from_nth)
    qed
  qed
qed

lemma scan_down_hit: "scan_down hit psum m n = Some i \<Longrightarrow> 0 < i \<and> i \<le> n \<and> m \<le> psum ! i"
  by (induction n) (auto split: if_splits)

lemma first_hit_mem: "first_hit xs = Some v \<Longrightarrow> Some v \<in> set xs"
  by (induction xs) (auto split: option.splits)

lemma deterministic_cut:
  assumes "0 < n"
  shows "let c = deterministicSessionChunkCut rs psum n m in 0 < c \<and> c \<le> n \<and> (m \<le> psum ! c \<or> c = n)"
proof -
  have "0 < i \<and> i \<le> n \<and> m \<le> psum ! i"
    if "first_hit (map (\<lambda>boundary. scan_down (\<lambda>i. sessionChunkHasSuffix rs i boundary) psum m n) chunk_boundaries) = Some i" for i
    using first_hit_mem [OF that] by (metis (no_types, lifting) imageE list.set_map scan_down_hit)
  then show ?thesis using assms by (auto simp: deterministicSessionChunkCut_def Let_def dest: scan_down_hit split: option.splits)
qed

section \<open>Splitting with any cutter\<close>

text \<open>What the loop relies on: a cut lies inside the text, keeps within the budget, and takes at least a given number of units.\<close>

locale chunk_cutter =
  fixes cutter :: "string \<Rightarrow> 'p \<Rightarrow> int \<times> 'p"
    and budget least :: int
  assumes cut_in: "2 \<le> budget \<Longrightarrow> budget < PromptUnits s \<Longrightarrow> cutter s p = (c, p') \<Longrightarrow>
    \<exists>k. c = int k \<and> 0 < k \<and> k < length (runes s) \<and> units_of (take k (runes s)) \<le> budget \<and> least \<le> units_of (take k (runes s))"
begin

lemma cutter_sound:
  assumes "2 \<le> budget" "chunk_loop cutter budget mx n s p = (Inr cs, p')"
  shows "encode_runes (runes s) = encode_runes (concat (map runes cs)) \<and> (encode_runes (runes s) = s \<longrightarrow> concat cs = s) \<and>
    (\<forall>c \<in> set cs. PromptUnits c \<le> budget \<and> (s \<noteq> '''' \<longrightarrow> c \<noteq> '''')) \<and> cs \<noteq> [] \<and> length cs \<le> Suc n"
  using assms(2)
proof (induction n arbitrary: s p cs)
  case 0
  then show ?case by (auto simp: chunk_loop.simps [of cutter budget mx 0] split: if_splits)
next
  case (Suc n)
  show ?case
  proof (cases "PromptUnits s \<le> budget")
    case True
    then show ?thesis using Suc.prems by (auto simp: chunk_loop.simps [of cutter budget mx "Suc n"])
  next
    case False
    obtain c p1 where c: "cutter s p = (c, p1)" by fastforce
    obtain k where k: "c = int k" "0 < k" "k < length (runes s)" "units_of (take k (runes s)) \<le> budget"
      using cut_in [OF assms(1) _ c] False by auto
    let ?a = "encode_runes (take k (runes s))" and ?b = "encode_runes (drop k (runes s))"
    obtain ds where ds: "chunk_loop cutter budget mx n ?b p1 = (Inr ds, p')" "cs = ?a # ds"
      using Suc.prems False c k by (auto simp: chunk_loop.simps [of cutter budget mx "Suc n"] Let_def split: sum.splits prod.splits)
    note ih = Suc.IH [OF ds(1)]
    have b: "encode_runes (runes ?b) = ?b" by simp
    have ab: "?a @ ?b = encode_runes (runes s)" by (simp add: encode_runes_append [symmetric])
    have ne: "?b \<noteq> ''''" "?a \<noteq> ''''" using k by (auto simp: encode_runes_empty)
    have "PromptUnits ?a \<le> budget" using k(4) by (simp add: PromptUnits_runes)
    then show ?thesis using ih b ab ne ds(2) by (auto simp: encode_runes_append)
  qed
qed

lemma cutter_total:
  assumes "2 \<le> budget" "PromptUnits s \<le> budget + int n * least"
  shows "\<exists>cs p'. chunk_loop cutter budget mx n s p = (Inr cs, p')"
  using assms(2)
proof (induction n arbitrary: s p)
  case 0
  then show ?case by (simp add: chunk_loop.simps [of cutter budget mx 0])
next
  case (Suc n)
  show ?case
  proof (cases "PromptUnits s \<le> budget")
    case False
    obtain c p1 where c: "cutter s p = (c, p1)" by fastforce
    obtain k where k: "c = int k" "0 < k" "k < length (runes s)" "least \<le> units_of (take k (runes s))"
      using cut_in [OF assms(1) _ c] False by auto
    let ?b = "encode_runes (drop k (runes s))"
    have "units_of (runes s) = units_of (take k (runes s)) + units_of (drop k (runes s))" by (metis append_take_drop_id units_of_append)
    then have "PromptUnits ?b \<le> budget + int n * least" using Suc.prems k(4) by (simp add: PromptUnits_runes algebra_simps)
    from Suc.IH [OF this, of p1] obtain ds p' where "chunk_loop cutter budget mx n ?b p1 = (Inr ds, p')" by blast
    then show ?thesis using False c k by (auto simp: chunk_loop.simps [of cutter budget mx "Suc n"] Let_def)
  qed (simp add: chunk_loop.simps [of cutter budget mx "Suc n"])
qed

end

section \<open>The cuts of the code\<close>

text \<open>A picked offset is used only inside the range the planner was given; the planner of the code rejects any other.\<close>

definition checked_planner :: "'p planner \<Rightarrow> 'p planner" where
  "checked_planner pick window minOffset maxOffset p =
     (case pick window minOffset maxOffset p of
        (Some offset, p1) \<Rightarrow> (if offset < minOffset \<or> maxOffset < offset then None else Some offset, p1)
      | (None, p1) \<Rightarrow> (None, p1))"

lemma hard_end:
  assumes "2 \<le> budget" "budget < PromptUnits s"
  obtains k where "runeIndexAtOrBelow (prefix_from 0 (runes s)) budget = int k" "0 < k" "k < length (runes s)"
    "units_of (take k (runes s)) \<le> budget" "budget - 1 \<le> units_of (take k (runes s))"
proof -
  let ?r = "runes s"
  obtain k where k: "runeIndexAtOrBelow (prefix_from 0 ?r) budget = int k" "k \<le> length ?r" "units_of (take k ?r) \<le> budget"
    "\<And>j. j \<le> length ?r \<Longrightarrow> units_of (take j ?r) \<le> budget \<Longrightarrow> j \<le> k"
    using assms(1) by (auto intro: rune_index [of budget ?r])
  have lt: "k < length ?r" using k(2,3) assms(2) by (cases "k = length ?r") (simp_all add: PromptUnits_runes)
  have "budget < units_of (take (Suc k) ?r)" using k(4) [of "Suc k"] lt by force
  moreover have "units_of (take (Suc k) ?r) \<le> units_of (take k ?r) + 2"
    using lt utf16_len_pos(2) [of "?r ! k"] by (simp add: take_Suc_conv_app_nth units_of_def)
  ultimately have near: "budget - 1 \<le> units_of (take k ?r)" by linarith
  then have "0 < k" using assms(1) by (cases k) simp_all
  then show ?thesis using that k lt near by blast
qed

lemma near_index:
  assumes "0 \<le> u" "u \<le> units_of (take n rs)" "n \<le> length rs"
  obtains k where "runeIndexAtOrBelow (prefix_from 0 rs) u = int k" "k \<le> n" "u - 1 \<le> units_of (take k rs)"
proof -
  obtain k where k: "runeIndexAtOrBelow (prefix_from 0 rs) u = int k" "k \<le> length rs" "units_of (take k rs) \<le> u"
    "\<And>j. j \<le> length rs \<Longrightarrow> units_of (take j rs) \<le> u \<Longrightarrow> j \<le> k"
    using assms(1) by (auto intro: rune_index [of u rs])
  have kn: "k \<le> n"
  proof (rule ccontr)
    assume "\<not> k \<le> n"
    then have "units_of (take n rs) < units_of (take k rs)" using k(2) by (intro units_take_strict) simp_all
    then show False using k(3) assms(2) by linarith
  qed
  have "u - 1 \<le> units_of (take k rs)"
  proof (cases "k = n")
    case True
    then show ?thesis using assms(2) by simp
  next
    case False
    then have lt: "k < length rs" using kn assms(3) by simp
    have "u < units_of (take (Suc k) rs)" using k(4) [of "Suc k"] lt by force
    then show ?thesis using lt utf16_len_pos(2) [of "rs ! k"] by (simp add: take_Suc_conv_app_nth units_of_def)
  qed
  then show ?thesis using that k(1) kn by blast
qed

definition least_cut :: "int \<Rightarrow> int" where
  "least_cut budget = budget * 60 div 100 - 1"

definition good_cut :: "string \<Rightarrow> int \<Rightarrow> int \<Rightarrow> int \<Rightarrow> bool" where
  "good_cut s budget least c \<longleftrightarrow> 0 < c \<and> c < int (length (runes s)) \<and> units_of (take (nat c) (runes s)) \<le> budget \<and>
     least \<le> units_of (take (nat c) (runes s))"

lemma fixed_cut_good:
  assumes "0 < n" "n < length (runes s)" "units_of (take n (runes s)) \<le> budget" "budget - 1 \<le> units_of (take n (runes s))"
    "budget * 60 div 100 \<le> m" "2 \<le> budget"
  shows "good_cut s budget (least_cut budget) (int (deterministicSessionChunkCut (runes s) (prefix_from 0 (runes s)) n m))"
proof -
  define c where "c = deterministicSessionChunkCut (runes s) (prefix_from 0 (runes s)) n m"
  have c: "0 < c" "c \<le> n" "m \<le> prefix_from 0 (runes s) ! c \<or> c = n"
    using deterministic_cut [OF assms(1), of "runes s" "prefix_from 0 (runes s)" m] by (simp_all add: c_def Let_def)
  have "units_of (take c (runes s)) \<le> units_of (take n (runes s))" using c(2) by (rule units_take_mono)
  moreover have "least_cut budget \<le> units_of (take c (runes s))"
    using c assms(2,4,5,6) by (auto simp: least_cut_def prefix_from_nth)
  ultimately show ?thesis unfolding good_cut_def c_def [symmetric] using c assms(2,3) by simp
qed

lemma planned_cut_good:
  assumes "0 < c" "c \<le> int n" "n < length (runes s)" "units_of (take n (runes s)) \<le> budget" "least \<le> units_of (take (nat c) (runes s))"
  shows "good_cut s budget least c"
proof -
  have "units_of (take (nat c) (runes s)) \<le> units_of (take n (runes s))" using assms(2) by (intro units_take_mono) simp
  then show ?thesis using assms by (simp add: good_cut_def)
qed

lemma choose_cut_good:
  assumes "2 \<le> budget" "budget < PromptUnits s"
  shows "good_cut s budget 1 (fst (chooseSessionChunkCut planner s budget p)) \<and>
    good_cut s budget (least_cut budget) (fst (chooseSessionChunkCut (map_option checked_planner planner) s budget p))"
proof -
  let ?r = "runes s" and ?p = "prefix_from 0 (runes s)"
  obtain n where n: "runeIndexAtOrBelow ?p budget = int n" "0 < n" "n < length ?r" "units_of (take n ?r) \<le> budget" "budget - 1 \<le> units_of (take n ?r)"
    by (rule hard_end [OF assms])
  define w where "w = nat (runeIndexAtOrBelow ?p (max 0 (?p ! n - sessionChunkPlannerLookbehindUnits)))"
  define m where "m = (if budget * 60 div 100 < ?p ! w + 1 then ?p ! w + 1 else budget * 60 div 100)"
  define e where "e = (let e = runeIndexAtOrBelow ?p (?p ! n + sessionChunkPlannerLookaheadUnits) in if e \<le> int n then n else nat e)"
  define win where "win = encode_runes (drop w (take e ?r))"
  have nle: "(int n \<le> 0) = False" using n(2) by simp
  have cut_eq: "chooseSessionChunkCut pl s budget p =
    (case pl of None \<Rightarrow> (int (deterministicSessionChunkCut ?r ?p n m), p)
     | Some pick \<Rightarrow> (case pick win (m - ?p ! w) (?p ! n - ?p ! w) p of
         (Some offset, p1) \<Rightarrow> (let chosen = runeIndexAtOrBelow ?p (?p ! w + offset) in
            if 0 < chosen \<and> chosen \<le> int n then (chosen, p1) else (int (deterministicSessionChunkCut ?r ?p n m), p1))
       | (None, p1) \<Rightarrow> (int (deterministicSessionChunkCut ?r ?p n m), p1)))" for pl :: "'a planner option" and p
    by (simp only: chooseSessionChunkCut_def sessionChunkUTF16Prefix_def Let_def prod.case n(1) nle if_False nat_int w_def m_def e_def win_def)
  have fixed: "good_cut s budget (least_cut budget) (int (deterministicSessionChunkCut ?r ?p n m))"
    using n assms(1) by (intro fixed_cut_good) (simp_all add: m_def)
  have one: "good_cut s budget 1 c" if "0 < c" "c \<le> int n" for c
    using that n units_of_ge [of "take (nat c) ?r"] by (intro planned_cut_good [of c n]) simp_all
  have fixed1: "good_cut s budget 1 (int (deterministicSessionChunkCut ?r ?p n m))"
    using deterministic_cut [OF n(2), of ?r ?p m] by (intro one) (simp_all add: Let_def)
  have chk: "good_cut s budget (least_cut budget) c"
    if "c = runeIndexAtOrBelow ?p (?p ! w + off)" "m - ?p ! w \<le> off" "off \<le> ?p ! n - ?p ! w" "0 < c" "c \<le> int n" for c off
  proof -
    have u: "m \<le> ?p ! w + off" "?p ! w + off \<le> units_of (take n ?r)" using that(2,3) n(3) by (simp_all add: prefix_from_nth)
    have "0 \<le> m" using assms(1) by (auto simp: m_def)
    then obtain k where k: "runeIndexAtOrBelow ?p (?p ! w + off) = int k" "k \<le> n" "?p ! w + off - 1 \<le> units_of (take k ?r)"
      using near_index [of "?p ! w + off" n ?r] u n(3) by auto
    have "least_cut budget \<le> m - 1" by (auto simp: least_cut_def m_def)
    then show ?thesis using that(1,4) k u n by (intro planned_cut_good [of c n]) simp_all
  qed
  show ?thesis
    by (simp add: cut_eq checked_planner_def Let_def fixed fixed1 one chk split: option.split prod.split)
qed

lemma good_cutD:
  assumes "good_cut s budget least c"
  shows "\<exists>k. c = int k \<and> 0 < k \<and> k < length (runes s) \<and> units_of (take k (runes s)) \<le> budget \<and> least \<le> units_of (take k (runes s))"
proof (intro exI conjI)
  show "c = int (nat c)" using assms by (simp add: good_cut_def)
qed (use assms in \<open>auto simp: good_cut_def\<close>)

interpretation any_cut: chunk_cutter "\<lambda>s. chooseSessionChunkCut planner s budget" budget 1
proof
  fix s :: string and p :: 'a and c p'
  assume "2 \<le> budget" "budget < PromptUnits s" "chooseSessionChunkCut planner s budget p = (c, p')"
  then show "\<exists>k. c = int k \<and> 0 < k \<and> k < length (runes s) \<and> units_of (take k (runes s)) \<le> budget \<and> 1 \<le> units_of (take k (runes s))"
    using choose_cut_good [of budget s planner p] by (intro good_cutD) simp
qed

interpretation checked_cut: chunk_cutter "\<lambda>s. chooseSessionChunkCut (map_option checked_planner planner) s budget" budget "least_cut budget"
proof
  fix s :: string and p :: 'a and c p'
  assume "2 \<le> budget" "budget < PromptUnits s" "chooseSessionChunkCut (map_option checked_planner planner) s budget p = (c, p')"
  then show "\<exists>k. c = int k \<and> 0 < k \<and> k < length (runes s) \<and> units_of (take k (runes s)) \<le> budget \<and> least_cut budget \<le> units_of (take k (runes s))"
    using choose_cut_good [of budget s planner p] by (intro good_cutD) simp
qed

section \<open>Properties\<close>

text \<open>C8: Cutting an oversized prompt loses nothing, whatever the boundary planner answers: when the split succeeds on a prompt that is
  valid UTF-8, the fragments in order concatenate to exactly that prompt, every one of them fits the budget in UTF-16 units and is not empty,
  and there are at most as many as the cap allows (16 when no cap is configured).\<close>

theorem split_preserves:
  assumes "valid_utf8 prompt" "prompt \<noteq> ''''" "2 \<le> contentBudget"
    "splitSessionChunks planner prompt contentBudget maxChunks p = (Inr chunks, p')"
  shows "concat chunks = prompt \<and> (\<forall>c \<in> set chunks. c \<noteq> '''' \<and> PromptUnits c \<le> contentBudget) \<and>
    int (length chunks) \<le> (if maxChunks \<le> 0 then 16 else maxChunks)"
proof -
  let ?m = "if maxChunks \<le> 0 then 16 else maxChunks"
  have "chunk_loop (\<lambda>s. chooseSessionChunkCut planner s contentBudget) contentBudget ?m (nat (?m - 1)) prompt p = (Inr chunks, p')"
    using assms(4) by (simp add: splitSessionChunks_def Let_def)
  note s = any_cut.cutter_sound [OF assms(3) this]
  have "encode_runes (runes prompt) = prompt" using assms(1) by (rule valid_utf8_encode)
  moreover have "int (length chunks) \<le> ?m" using s by (auto split: if_splits)
  ultimately show ?thesis using s assms(2) by simp
qed

text \<open>C38: The split succeeds whenever the cap leaves room for it: with a planner that answers inside the range it is given, no answer at all or no
  planner, every cut takes at least sixty percent of the budget, less one unit for a surrogate pair, so a prompt that fits that many units times the
  cuts allowed, plus one last full fragment, is always split.\<close>

theorem split_succeeds:
  assumes "2 \<le> contentBudget" "0 < maxChunks"
    "PromptUnits prompt \<le> contentBudget + (maxChunks - 1) * (contentBudget * 60 div 100 - 1)"
  shows "\<exists>chunks p'. splitSessionChunks (map_option checked_planner planner) prompt contentBudget maxChunks p = (Inr chunks, p')"
  using checked_cut.cutter_total [where budget = contentBudget and s = prompt and n = "nat (maxChunks - 1)" and mx = maxChunks and planner = planner and p = p] assms
  by (simp add: splitSessionChunks_def Let_def least_cut_def)

lemma short_units: "PromptUnits ''ab cd'' = 5" "PromptUnits ''cd'' = 2"
  by (simp_all add: PromptUnits_def units_of_def utf16_len_def ascii_eval)

lemma short_runes: "runes ''ab cd'' = [97, 98, 32, 99, 100]"
  by (simp add: ascii_eval)

lemma encode_ascii: "ascii s \<Longrightarrow> encode_runes (map byte_of s) = s" "ascii s \<Longrightarrow> valid_utf8 s"
proof -
  assume a: "ascii s"
  then have "encode_rune (byte_of c) = [c]" if "c \<in> set s" for c
    using that by (auto simp: ascii_def list_all_iff encode_rune_ascii byte_of_def)
  with a show "encode_runes (map byte_of s) = s" "valid_utf8 s"
    by (simp_all add: encode_runes_def valid_utf8_def rune_chunks_ascii comp_def list_all_iff cong: map_cong)
qed

lemma short_encode: "encode_runes [97, 98, 32] = ''ab ''" "encode_runes [99, 100] = ''cd''"
  using encode_ascii(1) [of "''ab ''"] encode_ascii(1) [of "''cd''"] by (simp_all add: ascii_def byte_of_def)

lemma short_prefix: "prefix_from 0 [97, 98, 32, 99, 100] = [0, 1, 2, 3, 4, 5]"
  by (simp add: utf16_len_def)

lemma short_index: "runeIndexAtOrBelow [0, 1, 2, 3, 4, 5] 3 = 3" "runeIndexAtOrBelow [0, 1, 2, 3, 4, 5] 0 = 0" "runeIndexAtOrBelow [0, 1, 2, 3, 4, 5] 2 = 2"
  by code_simp+

lemma short_fixed: "deterministicSessionChunkCut [97, 98, 32, 99, 100] [0, 1, 2, 3, 4, 5] 3 1 = 3"
  by (simp add: deterministicSessionChunkCut_def chunk_boundaries_def sessionChunkHasSuffix_def upt_rec numeral_3_eq_3 Let_def)

lemma short_choice: "chooseSessionChunkCut (None :: unit planner option) ''ab cd'' 3 () = (3, ())"
  by (simp add: chooseSessionChunkCut_def sessionChunkUTF16Prefix_def short_runes short_prefix short_index short_fixed Let_def
      sessionChunkPlannerLookbehindUnits_def del: prefix_from.simps)

lemma short_split: "splitSessionChunks (None :: unit planner option) ''ab cd'' 3 0 () = (Inr [''ab '', ''cd''], ())"
proof -
  have last: "chunk_loop (\<lambda>s. chooseSessionChunkCut (None :: unit planner option) s 3) 3 16 14 ''cd'' () = (Inr [''cd''], ())"
    by (simp add: chunk_loop.simps [of _ 3 16 14] short_units)
  have "chunk_loop (\<lambda>s. chooseSessionChunkCut (None :: unit planner option) s 3) 3 16 (Suc 14) ''ab cd'' () = (Inr [''ab '', ''cd''], ())"
    unfolding chunk_loop.simps [of _ 3 16 "Suc 14"] by (simp add: short_units short_choice short_runes short_encode last)
  then show ?thesis by (simp add: splitSessionChunks_def)
qed

theorem split_preserves_witness:
  "splitSessionChunks (None :: unit planner option) ''ab cd'' 3 0 () = (Inr [''ab '', ''cd''], ()) \<and>
   concat [''ab '', ''cd''] = ''ab cd'' \<and> PromptUnits ''ab '' \<le> 3 \<and> PromptUnits ''cd'' \<le> 3"
proof -
  have "valid_utf8 ''ab cd''" by (rule encode_ascii(2)) (simp add: ascii_def byte_of_def)
  from split_preserves [OF this _ _ short_split] short_split show ?thesis by simp
qed

text \<open>A planner that answers the largest offset once and then fails.\<close>

theorem split_succeeds_witness:
  "\<exists>chunks p'. splitSessionChunks (map_option checked_planner (Some (\<lambda>w lo hi (n :: nat). (if n = 0 then Some hi else None, Suc n)))) ''ab cd'' 4 3 0 = (Inr chunks, p')"
proof (rule split_succeeds)
  show "PromptUnits ''ab cd'' \<le> 4 + (3 - 1) * (4 * 60 div 100 - 1)" by (simp add: short_units)
qed simp_all

end
