(* ===== verification/Spec2Isabelle.thy ===== *)
theory Spec2Isabelle
  imports Models Upstream_Sessions Pow Cache_Flight Tool_Sieve Upstream_Accounts History_Index Session_Chunks
begin

text \<open>
  A verification library for DeepSeek_Web_To_API, a Go service that offers the OpenAI, Claude and Gemini
  chat protocols on top of the web interface of an upstream chat service.

  \<^bold>\<open>The program.\<close> A request arrives at a handler (\<^verbatim>\<open>internal/httpapi\<close>). The response cache
  (\<^verbatim>\<open>internal/responsecache\<close>) may answer it or make it wait for an identical request in flight. Otherwise the
  caller is authenticated (\<^verbatim>\<open>internal/auth\<close>): a caller with an API key of the configuration
  (\<^verbatim>\<open>internal/config\<close>) gets a slot of a configured account from the account pool (\<^verbatim>\<open>internal/account\<close>), preferably
  the account its conversation was bound to (session affinity); any other token is used directly. The model id
  is resolved against an allowlist (\<^verbatim>\<open>internal/config/models.go\<close>). A conversation that continues a recorded one leases a
  pinned upstream session (\<^verbatim>\<open>internal/upstreamsession\<close>) and sends only the new messages. A prompt above the model's limit loses old
  turns or is cut into fragments that are sent one after the other into one upstream session
  (\<^verbatim>\<open>internal/promptcompat\<close>, \<^verbatim>\<open>internal/httpapi/openai/shared\<close>). The client (\<^verbatim>\<open>internal/deepseek/client\<close>) creates a session, solves
  a proof of work (\<^verbatim>\<open>pow\<close>) and sends the prompt; it retries, refreshes the token, marks the account as limited, muted or
  banned, and moves to another account. The answer is an event stream, continued by further requests while it is unfinished,
  parsed line by line (\<^verbatim>\<open>internal/sse\<close>), and either collected as a whole or pumped to a streaming engine
  (\<^verbatim>\<open>internal/stream\<close>), where a sieve takes tool calls out of the text (\<^verbatim>\<open>internal/toolstream\<close>, \<^verbatim>\<open>internal/toolcall\<close>). At the end the slot
  is released and the exchange is kept in the chat history (\<^verbatim>\<open>internal/chathistory\<close>).

  \<^bold>\<open>Theories.\<close> Each opens with what it holds; definitions carry the names of the Go symbols they translate, and helper
  definitions translate the body of a loop or a branch.

  \<^descr> \<^theory_text>\<open>GoPrelude\<close>, \<^theory_text>\<open>GoStrings\<close>, \<^theory_text>\<open>GoText\<close>, \<^theory_text>\<open>GoUtf8\<close>, \<^theory_text>\<open>GoJson\<close>: the part of Go and its library the packages use. Maps as association
    lists with the interface \<open>map_ops\<close>; byte strings, UTF-8 with the round trip between strings and runes, trimming, folding,
    integers of 64 bits, hexadecimal, splitting; decoded JSON.
  \<^descr> \<^theory_text>\<open>Models\<close> (\<^verbatim>\<open>config/models.go\<close>): the model tables and \<open>ResolveModel\<close>. Whatever aliases are configured, a resolved id
    is listed and not blocked, and resolves to itself.
  \<^descr> \<^theory_text>\<open>Account_Store\<close> (\<^verbatim>\<open>config/store*.go\<close>, \<^verbatim>\<open>account.go\<close>, \<^verbatim>\<open>mobile.go\<close>, \<^verbatim>\<open>credentials.go\<close>): account identity, the index, every
    operation that changes accounts or keys. Lookup is sound and complete in every reachable store; the interface
    \<open>account_directory\<close> states what the pool relies on.
  \<^descr> \<^theory_text>\<open>Affinity\<close> (\<^verbatim>\<open>account/affinity.go\<close>): bindings with expiry and the per-key locks, the latter as a step relation; the interface
    \<open>binding_table\<close>.
  \<^descr> \<^theory_text>\<open>Account_Pool\<close> (\<^verbatim>\<open>account/pool_*.go\<close>, \<^verbatim>\<open>health.go\<close>): acquisition, waiting, release, health, limits. The critical sections are
    functions and \<open>pool_step\<close> interleaves them, with resets and arbitrary new configurations; slot accounting, limits and the waiter list are
    invariants of \<open>pool_run\<close>. What is said of the requests that really hold an account needs clear names (\<open>clear_names\<close>: no target or identifier
    denotes an account with another identifier) and, for exact counts, a run without a reset, which empties the counters.
  \<^descr> \<^theory_text>\<open>Request_Auth\<close> (\<^verbatim>\<open>auth/request.go\<close>, \<^verbatim>\<open>requestmeta\<close>): caller identity, token refresh, acquisition and switching loops with the slots
    they leave behind, the block list of direct tokens.
  \<^descr> \<^theory_text>\<open>Upstream_Sessions\<close> (\<^verbatim>\<open>upstreamsession/store.go\<close>): branches, leases and their matching against a request; \<open>lease_run\<close> interleaves
    the operations.
  \<^descr> \<^theory_text>\<open>Pow\<close> (\<^verbatim>\<open>pow\<close>): the unrolled hash refines the FIPS 202 sponge over rounds 1 to 23, and the search on the prepared state
    returns the least nonce.
  \<^descr> \<^theory_text>\<open>Cache_Keys\<close>, \<^theory_text>\<open>Response_Cache\<close>, \<^theory_text>\<open>Cache_Flight\<close> (\<^verbatim>\<open>responsecache\<close>): what a key identifies; the memory and disk tiers with their
    accounting; the middleware that lets one request per key call the upstream, as the step relation \<open>wrap_step\<close>.
  \<^descr> \<^theory_text>\<open>Sse_Parse\<close>, \<^theory_text>\<open>Sse_Stream\<close> (\<^verbatim>\<open>sse\<close>, \<^verbatim>\<open>stream\<close>, \<^verbatim>\<open>deepseek/protocol\<close>): the parser of one line with the types of its parts; the collector, the
    pump and the engine. The interface \<open>pump_view\<close> is what regrouping preserves; the pump refines parsing the
    lines one after the other, and the collector returns what the pump delivers.
  \<^descr> \<^theory_text>\<open>Tool_Markup\<close>, \<^theory_text>\<open>Tool_Capture\<close>, \<^theory_text>\<open>Tool_Sieve\<close> (\<^verbatim>\<open>toolcall/toolcalls_scan.go\<close>, \<^verbatim>\<open>toolstream\<close>): the scanner of tool-call tags, the capture of a
    block and the sieve over chunks. However an answer is cut, its text comes out without the recognised blocks and nothing is withheld, if no part of it makes the
    scanner or the block parser panic (\<open>calm\<close>, \<open>parsable\<close>).
  \<^descr> \<^theory_text>\<open>Upstream_Status\<close> (\<^verbatim>\<open>deepseek/client/account_health*.go\<close>, \<^verbatim>\<open>errors.go\<close>): what an answer says about an account, the kinds of failures, and the
    reader that watches a stream for reports.
  \<^descr> \<^theory_text>\<open>Auto_Continue\<close> (\<^verbatim>\<open>client_continue.go\<close>): the continuation of unfinished answers, as a splice of the successive bodies in which
    each continue request names the message reported last.
  \<^descr> \<^theory_text>\<open>Upstream_Calls\<close>, \<^theory_text>\<open>Upstream_Accounts\<close> (\<^verbatim>\<open>client_auth.go\<close>, \<^verbatim>\<open>client_completion.go\<close>): session, proof of work and completion with all retries and
    fail-overs over the resolver of \<^theory_text>\<open>Request_Auth\<close>. The loops end within attempts plus accounts, waits for a slot apart; requests are sent with the
    token of the account their session belongs to.
  \<^descr> \<^theory_text>\<open>Chat_History\<close>, \<^theory_text>\<open>History_Index\<close> (\<^verbatim>\<open>chathistory/store.go\<close>): the index, the detail files, saving, loading and restart; the index and the
    readable entries agree in every store that is only reopened when it was saved.
  \<^descr> \<^theory_text>\<open>Prompt_Limits\<close> (\<^verbatim>\<open>promptcompat/prompt_compress.go\<close>, \<^verbatim>\<open>openai/shared/prompt_compress.go\<close>, \<^verbatim>\<open>dynamic_prompt_limit.go\<close>): sizes in UTF-16 units, limits,
    dropping old turns.
  \<^descr> \<^theory_text>\<open>Session_Chunks\<close> (\<^verbatim>\<open>openai/shared/session_chunking.go\<close>): cutting a prompt into fragments. The interface \<open>chunk_cutter\<close> is what the loop
    needs of a cut; the fragments concatenate to the prompt, fit the budget, and the split succeeds when the cap allows.

  \<^bold>\<open>Modelling.\<close> Mutable structures are records passed and returned; a critical section or a \<^verbatim>\<open>select\<close> case is one function, and
  concurrency is a step relation or a list of events over them, so that every interleaving is covered. Errors are values of
  sums and options. Time is an argument. JSON decoding and encoding, SHA-256, gzip, login, the file system, the environment and
  the case tables of the \<^verbatim>\<open>unicode\<close> package are arguments of the definitions, with what is needed of them as hypotheses of the theorems; so are
  the parser of a tool-call block, \<^verbatim>\<open>sort.Slice\<close> and disk errors of the history, the assembly of a prompt from messages, the planner of chunk boundaries, and the
  answers of the upstream service, which are functions of the request and of the number of requests made before.
  Most loops are total functions; \<open>acquireManagedRequestAuth\<close>, \<open>switch_loop\<close>, \<open>upstream_loop\<close> and \<open>completion_loop\<close> take fuel, and their theorems show that
  one round per account identifier plus one, respectively a bound in the attempts and the untried accounts, is enough. These loops run one after the other on the resolver: a
  request that the pool parks is taken as refused, which is how its context ends the wait; an unbounded wait is no result of theirs, and waiting itself is
  the subject of \<^theory_text>\<open>Account_Pool\<close>. Integers are kept at 64 bits where the
  code can reach the bound (hash lanes, nonces, citation indices, parsed numbers, cooldowns); counters of slots and bytes, history revisions and prompt
  sizes are unbounded integers. Maps whose iteration order matters are association lists.

  \<^bold>\<open>What the development found.\<close> Lemmas that exhibit behaviour the code does not intend: \<open>lost_wakeup\<close>, \<open>alias_target_leaks_slot\<close>, \<open>reset_exceeds_limit\<close>
  (\<^theory_text>\<open>Account_Pool\<close>), \<open>disable_reaches_other_account\<close> (\<^theory_text>\<open>Account_Store\<close>), \<open>failed_switch_releases_twice\<close>, \<open>exhausted_request_parks\<close>,
  \<open>conversation_id_order_dependent\<close> (\<^theory_text>\<open>Request_Auth\<close>), \<open>record_evicts_leased\<close> (\<^theory_text>\<open>Upstream_Sessions\<close>), \<open>canonicalQuery_collision\<close>
  (\<^theory_text>\<open>Cache_Keys\<close>), \<open>waiting_hit_counted_twice\<close> (\<^theory_text>\<open>Response_Cache\<close>), \<open>leaked_marker_panics\<close> (\<^theory_text>\<open>Sse_Parse\<close>), \<open>dotted_i_panics\<close> and \<open>hyphenated_wrapper_is_text\<close>
  (the tool-call scanner), \<open>second_block_overwrites\<close>, \<open>text_overtakes_calls\<close> and \<open>newline_chunk_hides_fence\<close> (the sieve), \<open>huge_retry_after_is_past\<close> and \<open>past_cooldown_clears\<close>
  (\<^theory_text>\<open>Upstream_Status\<close>), \<open>refresh_restores_first_pow\<close> and \<open>failed_switch_moves_request\<close> (\<^theory_text>\<open>Upstream_Accounts\<close>), \<open>unsafe_delete_blocks_saves\<close> and \<open>restart_lists_deleted_entry\<close> (\<^theory_text>\<open>History_Index\<close>).

  \<^bold>\<open>Not modelled.\<close> The HTTP handlers and the administration API (request decoding and JSON rendering around the modelled
  components), the assembly of prompts and the regular expressions of the tool-call parser, configuration loading and the SQLite back ends (SQL executed by a driver),
  proxies, self-update, the web interface, diagnostics and the test driver. Of the modelled packages: \<^verbatim>\<open>Pool.Status\<close> and the cache's \<^verbatim>\<open>Stats\<close> (reports without
  effect), the replay of a cached answer, client-IP resolution, log lines.
\<close>

end
